(* ===== verification/Prelude.thy ===== *)
theory Prelude
  imports Main "HOL-Library.Word"
begin

text \<open>
  The vocabulary shared by the theories of the development: kernel error codes, results, block
  and byte types, the constants of \<^verbatim>\<open>dm_jindisk.h\<close>, the collections of simplification rules the
  component proofs use, and generic lemmas on lists and searches.

  Conventions.  Sizes, indices and block addresses (\<^verbatim>\<open>size_t\<close>, \<^verbatim>\<open>dm_block_t\<close>) are natural numbers,
  with the sentinel \<^verbatim>\<open>INF_ADDR\<close> the largest 64 bit value, and a narrowing conversion is written
  out (\<open>u32\<close>); where wrap-around matters the value is a \<^typ>\<open>64 word\<close>.  A C function
  that returns \<^verbatim>\<open>0\<close> or a negative error and stores its answer through a pointer returns a
  \<open>result\<close>, paired with the new state when it changes its object.  Memory allocation succeeds:
  the out-of-memory branches of the C code are not represented, nor are locks (an operation is
  one atomic step) nor the release of memory.
\<close>

section \<open>Error codes and results\<close>

datatype errno =
    EPERM | EIO | EAGAIN | ENOMEM | EACCES | ENOTBLK | EBUSY | EEXIST | ENODEV | EINVAL
  | ENOSPC | ENODATA | EBADMSG | ENOTSUP | EINTR | EROFS

type_synonym 'a result = "errno + 'a"
type_synonym byte = "8 word"
type_synonym u64 = "64 word"
type_synonym dm_block_t = nat

section \<open>Constants\<close>

definition INF_ADDR :: dm_block_t where
  "INF_ADDR = 2 ^ 64 - 1"

definition SECTOR_SIZE :: nat where "SECTOR_SIZE = 512"
definition SECTORS_PER_BLOCK :: nat where "SECTORS_PER_BLOCK = 8"
definition BLOCKS_PER_SEGMENT :: nat where "BLOCKS_PER_SEGMENT = 1024"
definition METADATA_BLOCK_SIZE :: nat where "METADATA_BLOCK_SIZE = 4096"
definition BITS_PER_LONG :: nat where "BITS_PER_LONG = 64"
definition AES_GCM_KEY_SIZE :: nat where "AES_GCM_KEY_SIZE = 16"
definition AES_GCM_AUTH_SIZE :: nat where "AES_GCM_AUTH_SIZE = 16"
definition AES_GCM_IV_SIZE :: nat where "AES_GCM_IV_SIZE = 12"

text \<open>Conversion of a wider unsigned value to \<^verbatim>\<open>uint32_t\<close>, and of an \<^verbatim>\<open>int64_t\<close> to \<^verbatim>\<open>int\<close>.\<close>

definition u32 :: "nat \<Rightarrow> nat" where
  "u32 n = n mod 2 ^ 32"

definition to_int :: "int \<Rightarrow> int" where
  "to_int x = signed_take_bit 31 x"

section \<open>Collections of rules\<close>

named_theorems consts_simps \<open>the values of the constants\<close>
named_theorems rb_simps \<open>in-order views of the ordered trees\<close>
named_theorems arr_simps \<open>what the typed disk arrays answer after an update\<close>
named_theorems inv_intros \<open>operations keep the invariants\<close>

lemmas [consts_simps] =
  SECTOR_SIZE_def SECTORS_PER_BLOCK_def BLOCKS_PER_SEGMENT_def METADATA_BLOCK_SIZE_def
  BITS_PER_LONG_def AES_GCM_KEY_SIZE_def AES_GCM_AUTH_SIZE_def AES_GCM_IV_SIZE_def

lemma BLOCKS_PER_SEGMENT_pos [simp]: "0 < BLOCKS_PER_SEGMENT"
  by (simp add: consts_simps)

lemma u32_id [simp]: "n < 2 ^ 32 \<Longrightarrow> u32 n = n"
  by (simp add: u32_def)

lemma u32_less [simp]: "u32 n < 2 ^ 32"
  by (simp add: u32_def)

lemma to_int_id: "- (2 ^ 31) \<le> x \<Longrightarrow> x < 2 ^ 31 \<Longrightarrow> to_int x = x"
  unfolding to_int_def by (rule signed_take_bit_int_eq_self) auto

section \<open>Results\<close>

definition errno_of :: "'a result \<Rightarrow> errno option" where
  "errno_of r = (case r of Inl e \<Rightarrow> Some e | Inr _ \<Rightarrow> None)"

lemma errno_of_simps [simp]: "errno_of (Inl e) = Some e" "errno_of (Inr x) = None"
  by (simp_all add: errno_of_def)

section \<open>Lists\<close>

lemma sorted_wrt_less_distinct:
  "sorted_wrt (<) (xs :: 'a :: linorder list) \<Longrightarrow> distinct xs"
  by (simp add: strict_sorted_iff)

lemma card_Collect_less_le: "card {i. i < n \<and> P i} \<le> (n :: nat)"
  using card_mono [of "{..<n}" "{i. i < n \<and> P i}"] by auto

lemma card_Collect_less_insert:
  assumes "k < (n :: nat)" and "\<not> P k"
  shows "card {i. i < n \<and> (P(k := True)) i} = Suc (card {i. i < n \<and> P i})"
proof -
  have "{i. i < n \<and> (P(k := True)) i} = insert k {i. i < n \<and> P i}"
    using assms by auto
  then show ?thesis using assms by simp
qed

lemma card_Collect_less_remove:
  assumes "k < (n :: nat)" and "P k"
  shows "card {i. i < n \<and> (P(k := False)) i} = card {i. i < n \<and> P i} - 1"
proof -
  have "{i. i < n \<and> (P(k := False)) i} = {i. i < n \<and> P i} - {k}"
    using assms by auto
  then show ?thesis using assms by simp
qed

lemma card_Collect_less_full: "card {i. i < n \<and> P i} = (n :: nat) \<longleftrightarrow> (\<forall>i < n. P i)"
proof
  assume c: "card {i. i < n \<and> P i} = n"
  have "{i. i < n \<and> P i} = {..<n}"
    by (rule card_subset_eq) (use c in auto)
  then show "\<forall>i < n. P i" by auto
next
  assume "\<forall>i < n. P i"
  then have "{i. i < n \<and> P i} = {..<n}" by auto
  then show "card {i. i < n \<and> P i} = n" by simp
qed

section \<open>Bitmaps\<close>

text \<open>
  A \<^verbatim>\<open>DECLARE_BITMAP\<close> field is the function from bit numbers to bits; only the bits below the
  declared length are read.  \<open>find_next_bit\<close> and \<open>find_first_zero_bit\<close> are the kernel's scans,
  which answer the length when there is no such bit.
\<close>

type_synonym bitmap = "nat \<Rightarrow> bool"

function find_next_bit :: "bitmap \<Rightarrow> nat \<Rightarrow> nat \<Rightarrow> nat" where
  "find_next_bit bm n i = (if i < n then (if bm i then i else find_next_bit bm n (Suc i)) else n)"
  by pat_completeness auto
termination by (relation "measure (\<lambda>(bm, n, i). n - i)") auto

declare find_next_bit.simps [simp del]

definition find_first_zero_bit :: "bitmap \<Rightarrow> nat \<Rightarrow> nat" where
  "find_first_zero_bit bm n = find_next_bit (\<lambda>i. \<not> bm i) n 0"

lemma find_next_bit_step:
  "i < n \<Longrightarrow> \<not> bm i \<Longrightarrow> find_next_bit bm n i = find_next_bit bm n (Suc i)"
  by (simp add: find_next_bit.simps [of bm n i])

lemma find_next_bit_hit: "i < n \<Longrightarrow> bm i \<Longrightarrow> find_next_bit bm n i = i"
  by (simp add: find_next_bit.simps [of bm n i])

lemma find_next_bit_end: "\<not> i < n \<Longrightarrow> find_next_bit bm n i = n"
  by (simp add: find_next_bit.simps [of bm n i])

lemma find_next_bit_le: "find_next_bit bm n i \<le> n"
proof (induction bm n i rule: find_next_bit.induct)
  case (1 bm n i)
  then show ?case
    by (cases "i < n"; cases "bm i")
      (simp_all add: find_next_bit_step find_next_bit_hit find_next_bit_end)
qed

lemma find_next_bit_found:
  "find_next_bit bm n i < n \<Longrightarrow> i \<le> find_next_bit bm n i \<and> bm (find_next_bit bm n i)"
proof (induction bm n i rule: find_next_bit.induct)
  case (1 bm n i)
  then show ?case
    by (cases "i < n"; cases "bm i")
      (simp_all add: find_next_bit_step find_next_bit_hit find_next_bit_end)
qed

lemma find_next_bit_first:
  "i \<le> k \<Longrightarrow> k < find_next_bit bm n i \<Longrightarrow> \<not> bm k"
proof (induction bm n i rule: find_next_bit.induct)
  case (1 bm n i)
  show ?case
  proof (cases "i < n \<and> \<not> bm i")
    case True
    with 1 show ?thesis by (cases "k = i") (simp_all add: find_next_bit_step)
  next
    case False
    with 1 show ?thesis
      by (cases "i < n") (simp_all add: find_next_bit_hit find_next_bit_end)
  qed
qed

lemma find_first_zero_bit_found:
  "find_first_zero_bit bm n < n \<Longrightarrow> \<not> bm (find_first_zero_bit bm n)"
  unfolding find_first_zero_bit_def by (drule find_next_bit_found) simp

lemma find_first_zero_bit_first: "k < find_first_zero_bit bm n \<Longrightarrow> bm k"
  unfolding find_first_zero_bit_def using find_next_bit_first by blast

lemma find_first_zero_bit_le: "find_first_zero_bit bm n \<le> n"
  unfolding find_first_zero_bit_def by (rule find_next_bit_le)

lemma find_first_zero_bit_less_iff: "find_first_zero_bit bm n < n \<longleftrightarrow> (\<exists>i < n. \<not> bm i)"
proof
  assume "find_first_zero_bit bm n < n"
  then show "\<exists>i < n. \<not> bm i" using find_first_zero_bit_found by blast
next
  assume "\<exists>i < n. \<not> bm i"
  then obtain i where "i < n" "\<not> bm i" by blast
  then have "find_first_zero_bit bm n \<le> i" using find_first_zero_bit_first not_le by blast
  with \<open>i < n\<close> show "find_first_zero_bit bm n < n" by simp
qed

end
