(* ===== verification/Disk_Array.thy ===== *)
theory Disk_Array
  imports Prelude
begin

text \<open>
  \<^verbatim>\<open>disk_structs.c\<close>, the disk array: fixed-size entries packed into the 4096 byte blocks of a
  dm-bufio client, each block encrypted on its way to the disk.

  dm-bufio and the block cipher are not part of the repository: they are the parameters \<open>bo\<close> and
  \<open>dec\<close> of the operations, and \<open>bufio_ok\<close> says what is relied on.  The second half of the theory
  gives the typed view the tables of \<^verbatim>\<open>metadata.c\<close> work with, a bounds-checked array of cells with
  I/O errors, and shows that the byte-level operations implement it.
\<close>

section \<open>The array on disk\<close>

record disk_array =
  da_start :: dm_block_t
  da_nr_entry :: nat
  da_entry_size :: nat
  da_entries_per_block :: nat
  da_key :: "byte list"

text \<open>
  A dm-bufio client with state \<open>'c\<close>.  \<open>bo_get\<close> looks for a cached block, \<open>bo_read\<close> reads it from
  the device and \<open>bo_new\<close> gives a block without reading; \<open>Inl None\<close> is a null pointer and \<open>Inl
  (Some e)\<close> an error pointer.  \<open>bo_store\<close> is a write into the buffer held.
\<close>

record 'c bufio =
  bo_get :: "dm_block_t \<Rightarrow> 'c \<Rightarrow> (errno option + byte list) \<times> 'c"
  bo_read :: "dm_block_t \<Rightarrow> 'c \<Rightarrow> (errno option + byte list) \<times> 'c"
  bo_new :: "dm_block_t \<Rightarrow> 'c \<Rightarrow> (errno option + byte list) \<times> 'c"
  bo_set_aux :: "dm_block_t \<Rightarrow> disk_array \<Rightarrow> 'c \<Rightarrow> 'c"
  bo_store :: "dm_block_t \<Rightarrow> byte list \<Rightarrow> 'c \<Rightarrow> 'c"
  bo_mark_dirty :: "dm_block_t \<Rightarrow> 'c \<Rightarrow> 'c"
  bo_release :: "dm_block_t \<Rightarrow> 'c \<Rightarrow> 'c"

type_synonym block_cipher = "byte list \<Rightarrow> byte list \<Rightarrow> nat \<Rightarrow> byte list"

definition ptr_error :: "errno option \<Rightarrow> errno" where
  "ptr_error e = (case e of Some e \<Rightarrow> e | None \<Rightarrow> EBUSY)"

definition disk_array_init :: "byte list \<Rightarrow> dm_block_t \<Rightarrow> nat \<Rightarrow> nat \<Rightarrow> disk_array" where
  "disk_array_init key start nr_entry entry_size =
     \<lparr>da_start = start, da_nr_entry = nr_entry, da_entry_size = entry_size,
      da_entries_per_block = METADATA_BLOCK_SIZE div entry_size, da_key = key\<rparr>"

definition disk_array_entry_block :: "disk_array \<Rightarrow> nat \<Rightarrow> dm_block_t" where
  "disk_array_entry_block this index = da_start this + index div da_entries_per_block this"

definition disk_array_entry_offset :: "disk_array \<Rightarrow> nat \<Rightarrow> nat" where
  "disk_array_entry_offset this index = (index mod da_entries_per_block this) * da_entry_size this"

text \<open>
  Up to the label \<^verbatim>\<open>copy_data\<close>, which both \<^verbatim>\<open>disk_array_get\<close> and \<^verbatim>\<open>disk_array_set\<close> begin with:
  the cached plaintext, or the block read and decrypted in place.
\<close>

definition disk_array_fetch ::
  "'c bufio \<Rightarrow> block_cipher \<Rightarrow> disk_array \<Rightarrow> dm_block_t \<Rightarrow> 'c \<Rightarrow> byte list result \<times> 'c" where
  "disk_array_fetch bo dec this blk c =
     (case bo_get bo blk c of
        (Inr data, c1) \<Rightarrow> (Inr data, c1)
      | (Inl _, c1) \<Rightarrow>
          (case bo_read bo blk c1 of
             (Inl e, c2) \<Rightarrow> (Inl (ptr_error e), c2)
           | (Inr data, c2) \<Rightarrow>
               let c3 = bo_set_aux bo blk this c2;
                   plain = dec (da_key this) data blk
               in (Inr plain, bo_store bo blk plain c3)))"

definition disk_array_get ::
  "'c bufio \<Rightarrow> block_cipher \<Rightarrow> disk_array \<Rightarrow> nat \<Rightarrow> 'c \<Rightarrow> byte list result \<times> 'c" where
  "disk_array_get bo dec this index c =
     (if index \<ge> da_nr_entry this then (Inl EINVAL, c)
      else let blk = disk_array_entry_block this index
           in case disk_array_fetch bo dec this blk c of
                (Inl e, c1) \<Rightarrow> (Inl e, c1)
              | (Inr data, c1) \<Rightarrow>
                  (Inr (take (da_entry_size this) (drop (disk_array_entry_offset this index) data)),
                   bo_release bo blk c1))"

text \<open>\<^verbatim>\<open>memcpy\<close> of \<open>entry\<close> into \<open>data\<close> at \<open>off\<close>.\<close>

definition overwrite :: "nat \<Rightarrow> byte list \<Rightarrow> byte list \<Rightarrow> byte list" where
  "overwrite off entry data = take off data @ entry @ drop (off + length entry) data"

definition disk_array_set ::
  "'c bufio \<Rightarrow> block_cipher \<Rightarrow> disk_array \<Rightarrow> nat \<Rightarrow> byte list \<Rightarrow> 'c \<Rightarrow> unit result \<times> 'c" where
  "disk_array_set bo dec this index entry c =
     (if index \<ge> da_nr_entry this then (Inl EINVAL, c)
      else let blk = disk_array_entry_block this index
           in case disk_array_fetch bo dec this blk c of
                (Inl e, c1) \<Rightarrow> (Inl e, c1)
              | (Inr data, c1) \<Rightarrow>
                  let c2 = bo_store bo blk
                        (overwrite (disk_array_entry_offset this index)
                          (take (da_entry_size this) entry) data) c1
                  in (Inr (), bo_release bo blk (bo_mark_dirty bo blk c2)))"

definition disk_array_blocks :: "nat \<Rightarrow> nat \<Rightarrow> nat \<Rightarrow> nat" where
  "disk_array_blocks nr_elem elem_size block_size =
     (if elem_size = 0 then 0 else nr_elem div (block_size div elem_size) + 1)"

text \<open>The loop of \<^verbatim>\<open>disk_array_format\<close>; \<open>rest\<close> is the number of bytes left.\<close>

function disk_array_format_loop ::
  "'c bufio \<Rightarrow> disk_array \<Rightarrow> byte \<Rightarrow> nat \<Rightarrow> nat \<Rightarrow> 'c \<Rightarrow> unit result \<times> 'c" where
  "disk_array_format_loop bo this fill shift rest c =
     (if rest > 0 then
        let blk = da_start this + shift
        in case bo_new bo blk c of
             (Inl e, c1) \<Rightarrow> (Inl (ptr_error e), c1)
           | (Inr data, c1) \<Rightarrow>
               let c2 = bo_set_aux bo blk this c1;
                   cycle = min METADATA_BLOCK_SIZE rest;
                   c3 = bo_store bo blk (overwrite 0 (replicate cycle fill) data) c2;
                   c4 = bo_release bo blk (bo_mark_dirty bo blk c3)
               in disk_array_format_loop bo this fill (shift + 1) (rest - cycle) c4
      else (Inr (), c))"
  by pat_completeness auto
termination
  by (relation "measure (\<lambda>(_, _, _, _, rest, _). rest)") (auto simp: consts_simps)

declare disk_array_format_loop.simps [simp del]

definition disk_array_format :: "'c bufio \<Rightarrow> disk_array \<Rightarrow> bool \<Rightarrow> 'c \<Rightarrow> unit result \<times> 'c" where
  "disk_array_format bo this val c =
     disk_array_format_loop bo this (if val then 255 else 0) 0
       (disk_array_blocks (da_nr_entry this) (da_entry_size this) METADATA_BLOCK_SIZE
          * METADATA_BLOCK_SIZE) c"

section \<open>What is relied on\<close>

text \<open>
  \<open>content c b\<close> is the plaintext of block \<open>b\<close>.  A cached buffer holds it, a block read from the
  device decrypts to it, a store changes one block, and the bookkeeping calls change none.  This
  describes a client between write-backs: \<^verbatim>\<open>meta_write_cb\<close> encrypts the cached buffer in place.
\<close>

definition bufio_ok ::
  "'c bufio \<Rightarrow> block_cipher \<Rightarrow> byte list \<Rightarrow> ('c \<Rightarrow> dm_block_t \<Rightarrow> byte list) \<Rightarrow> bool" where
  "bufio_ok bo dec key content \<longleftrightarrow>
     (\<forall>c b. length (content c b) = METADATA_BLOCK_SIZE) \<and>
     (\<forall>c b d c'. bo_get bo b c = (Inr d, c') \<longrightarrow> d = content c b) \<and>
     (\<forall>c b d c'. bo_read bo b c = (Inr d, c') \<longrightarrow> dec key d b = content c b) \<and>
     (\<forall>c b d c'. bo_new bo b c = (Inr d, c') \<longrightarrow> length d = METADATA_BLOCK_SIZE) \<and>
     (\<forall>c b. content (snd (bo_get bo b c)) = content c) \<and>
     (\<forall>c b. content (snd (bo_read bo b c)) = content c) \<and>
     (\<forall>c b. content (snd (bo_new bo b c)) = content c) \<and>
     (\<forall>c b a. content (bo_set_aux bo b a c) = content c) \<and>
     (\<forall>c b d. length d = METADATA_BLOCK_SIZE \<longrightarrow> content (bo_store bo b d c) = (content c)(b := d)) \<and>
     (\<forall>c b. content (bo_mark_dirty bo b c) = content c) \<and>
     (\<forall>c b. content (bo_release bo b c) = content c)"

lemma bufio_okD:
  assumes "bufio_ok bo dec key content"
  shows "length (content c b) = METADATA_BLOCK_SIZE"
    and "bo_get bo b c = (Inr d, c') \<Longrightarrow> d = content c b"
    and "bo_read bo b c = (Inr d, c') \<Longrightarrow> dec key d b = content c b"
    and "bo_new bo b c = (Inr d, c') \<Longrightarrow> length d = METADATA_BLOCK_SIZE"
    and "bo_get bo b c = (r, c') \<Longrightarrow> content c' = content c"
    and "bo_read bo b c = (r, c') \<Longrightarrow> content c' = content c"
    and "bo_new bo b c = (r, c') \<Longrightarrow> content c' = content c"
    and "content (bo_set_aux bo b a c) = content c"
    and "length d = METADATA_BLOCK_SIZE \<Longrightarrow> content (bo_store bo b d c) = (content c)(b := d)"
    and "content (bo_mark_dirty bo b c) = content c"
    and "content (bo_release bo b c) = content c"
  using assms unfolding bufio_ok_def by (metis snd_conv)+

definition array_ok :: "disk_array \<Rightarrow> bool" where
  "array_ok this \<longleftrightarrow> 0 < da_entry_size this \<and> da_entry_size this \<le> METADATA_BLOCK_SIZE \<and>
     da_entries_per_block this = METADATA_BLOCK_SIZE div da_entry_size this"

lemma array_ok_init:
  "0 < sz \<Longrightarrow> sz \<le> METADATA_BLOCK_SIZE \<Longrightarrow> array_ok (disk_array_init key start nr sz)"
  by (simp add: array_ok_def disk_array_init_def)

section \<open>Addresses\<close>

lemma epb_pos: "array_ok this \<Longrightarrow> 0 < da_entries_per_block this"
  by (simp add: array_ok_def div_greater_zero_iff)

text \<open>An entry lies inside its block, and two entries of one block do not overlap.\<close>

lemma offset_in_block:
  assumes "array_ok this"
  shows "disk_array_entry_offset this i + da_entry_size this \<le> METADATA_BLOCK_SIZE"
proof -
  have "i mod da_entries_per_block this + 1 \<le> da_entries_per_block this"
    using epb_pos [OF assms] by (simp add: Suc_leI)
  then have "(i mod da_entries_per_block this + 1) * da_entry_size this
      \<le> da_entries_per_block this * da_entry_size this"
    by (rule mult_le_mono1)
  also have "\<dots> \<le> METADATA_BLOCK_SIZE" using assms by (simp add: array_ok_def)
  finally show ?thesis by (simp add: disk_array_entry_offset_def)
qed

lemma offsets_apart:
  assumes "array_ok this" and "i \<noteq> j"
    and "disk_array_entry_block this i = disk_array_entry_block this j"
  shows "disk_array_entry_offset this i + da_entry_size this \<le> disk_array_entry_offset this j \<or>
    disk_array_entry_offset this j + da_entry_size this \<le> disk_array_entry_offset this i"
proof -
  have d: "i div da_entries_per_block this = j div da_entries_per_block this"
    using assms(3) by (simp add: disk_array_entry_block_def)
  have "i mod da_entries_per_block this \<noteq> j mod da_entries_per_block this"
    using assms(2) d by (metis div_mult_mod_eq)
  then have "i mod da_entries_per_block this + 1 \<le> j mod da_entries_per_block this \<or>
      j mod da_entries_per_block this + 1 \<le> i mod da_entries_per_block this" by linarith
  then show ?thesis
  proof
    assume "i mod da_entries_per_block this + 1 \<le> j mod da_entries_per_block this"
    from mult_le_mono1 [OF this, of "da_entry_size this"] show ?thesis
      by (simp add: disk_array_entry_offset_def)
  next
    assume "j mod da_entries_per_block this + 1 \<le> i mod da_entries_per_block this"
    from mult_le_mono1 [OF this, of "da_entry_size this"] show ?thesis
      by (simp add: disk_array_entry_offset_def)
  qed
qed

lemma length_overwrite:
  "off + length e \<le> length d \<Longrightarrow> length (overwrite off e d) = length d"
  by (simp add: overwrite_def)

lemma slice_overwrite_same:
  "off + length e \<le> length d \<Longrightarrow> take (length e) (drop off (overwrite off e d)) = e"
  by (simp add: overwrite_def)

lemma slice_overwrite_apart:
  assumes "off + length e \<le> length d" and "o2 + n \<le> off \<or> off + length e \<le> o2"
  shows "take n (drop o2 (overwrite off e d)) = take n (drop o2 d)"
  using assms(2)
proof
  assume *: "o2 + n \<le> off"
  then have "drop o2 (overwrite off e d) = drop o2 (take off d) @ e @ drop (off + length e) d"
    using assms(1) by (simp add: overwrite_def)
  moreover have "length (drop o2 (take off d)) \<ge> n" using * assms(1) by simp
  ultimately have "take n (drop o2 (overwrite off e d)) = take n (drop o2 (take off d))" by simp
  also have "\<dots> = take n (drop o2 d)" using * by (simp add: drop_take)
  finally show ?thesis .
next
  assume *: "off + length e \<le> o2"
  then have "drop o2 (overwrite off e d) = drop (o2 - (off + length e)) (drop (off + length e) d)"
    using assms(1) by (simp add: overwrite_def)
  also have "\<dots> = drop o2 d" using * by simp
  finally show ?thesis by simp
qed

section \<open>Typed arrays\<close>

text \<open>
  What the tables of \<^verbatim>\<open>metadata.c\<close> see of a disk array: cells of the entry type, a bound, the
  error of an access to a block that cannot be read, and of a \<^verbatim>\<open>format\<close> that cannot finish (with
  the number of cells it has cleared by then).
\<close>

record 'e darray =
  ar_nr :: nat
  ar_cells :: "nat \<Rightarrow> 'e"
  ar_err :: "nat \<Rightarrow> errno option"
  ar_format_err :: "(nat \<times> errno) option"

definition darray_get :: "'e darray \<Rightarrow> nat \<Rightarrow> 'e result" where
  "darray_get a i =
     (if i \<ge> ar_nr a then Inl EINVAL
      else case ar_err a i of Some e \<Rightarrow> Inl e | None \<Rightarrow> Inr (ar_cells a i))"

definition darray_set :: "'e darray \<Rightarrow> nat \<Rightarrow> 'e \<Rightarrow> unit result \<times> 'e darray" where
  "darray_set a i v =
     (if i \<ge> ar_nr a then (Inl EINVAL, a)
      else case ar_err a i of
             Some e \<Rightarrow> (Inl e, a)
           | None \<Rightarrow> (Inr (), a\<lparr>ar_cells := (ar_cells a)(i := v)\<rparr>))"

definition darray_format :: "'e darray \<Rightarrow> 'e \<Rightarrow> unit result \<times> 'e darray" where
  "darray_format a v =
     (case ar_format_err a of
        None \<Rightarrow> (Inr (), a\<lparr>ar_cells := (\<lambda>_. v)\<rparr>)
      | Some (n, e) \<Rightarrow> (Inl e, a\<lparr>ar_cells := (\<lambda>i. if i < n then v else ar_cells a i)\<rparr>))"

text \<open>An array all of whose blocks can be read and written.\<close>

definition healthy :: "'e darray \<Rightarrow> bool" where
  "healthy a \<longleftrightarrow> (\<forall>i < ar_nr a. ar_err a i = None) \<and> ar_format_err a = None"

definition fresh_darray :: "nat \<Rightarrow> 'e \<Rightarrow> 'e darray" where
  "fresh_darray n v = \<lparr>ar_nr = n, ar_cells = (\<lambda>_. v), ar_err = Map.empty, ar_format_err = None\<rparr>"

lemma fresh_darray_sel [simp, arr_simps]:
  "ar_nr (fresh_darray n v) = n" "ar_cells (fresh_darray n v) = (\<lambda>_. v)"
  "ar_err (fresh_darray n v) = Map.empty" "ar_format_err (fresh_darray n v) = None"
  by (simp_all add: fresh_darray_def)

lemma healthy_fresh [simp]: "healthy (fresh_darray n v)"
  by (simp add: healthy_def)

lemma darray_set_sel [simp, arr_simps]:
  "ar_nr (snd (darray_set a i v)) = ar_nr a"
  "ar_err (snd (darray_set a i v)) = ar_err a"
  "ar_format_err (snd (darray_set a i v)) = ar_format_err a"
  by (auto simp: darray_set_def split: option.splits)

lemma healthy_set [simp, inv_intros]: "healthy a \<Longrightarrow> healthy (snd (darray_set a i v))"
  by (simp add: healthy_def)

lemma healthy_upd [simp]: "healthy (a\<lparr>ar_cells := f\<rparr>) \<longleftrightarrow> healthy a"
  by (simp add: healthy_def)

lemma darray_get_healthy [arr_simps]:
  "healthy a \<Longrightarrow> i < ar_nr a \<Longrightarrow> darray_get a i = Inr (ar_cells a i)"
  by (simp add: darray_get_def healthy_def)

lemma darray_set_healthy [arr_simps]:
  "healthy a \<Longrightarrow> i < ar_nr a \<Longrightarrow> darray_set a i v = (Inr (), a\<lparr>ar_cells := (ar_cells a)(i := v)\<rparr>)"
  by (simp add: darray_set_def healthy_def)

lemma darray_get_out [arr_simps]: "ar_nr a \<le> i \<Longrightarrow> darray_get a i = Inl EINVAL"
  by (simp add: darray_get_def)

lemma darray_set_out [arr_simps]: "ar_nr a \<le> i \<Longrightarrow> darray_set a i v = (Inl EINVAL, a)"
  by (simp add: darray_set_def)

lemma darray_get_other [arr_simps]:
  "j \<noteq> i \<Longrightarrow> darray_get (a\<lparr>ar_cells := f(i := v)\<rparr>) j = darray_get (a\<lparr>ar_cells := f\<rparr>) j"
  by (simp add: darray_get_def split: option.splits)

lemma darray_get_InrD: "darray_get a i = Inr v \<Longrightarrow> i < ar_nr a \<and> v = ar_cells a i"
  by (auto simp: darray_get_def split: if_splits option.splits)

lemma darray_set_InrD:
  "darray_set a i v = (Inr u, a') \<Longrightarrow> i < ar_nr a \<and> a' = a\<lparr>ar_cells := (ar_cells a)(i := v)\<rparr>"
  by (auto simp: darray_set_def split: if_splits option.splits)

lemma darray_set_InlD: "darray_set a i v = (Inl e, a') \<Longrightarrow> a' = a"
  by (auto simp: darray_set_def split: if_splits option.splits)

section \<open>The bytes implement the typed array\<close>

definition entry_bytes :: "disk_array \<Rightarrow> (dm_block_t \<Rightarrow> byte list) \<Rightarrow> nat \<Rightarrow> byte list" where
  "entry_bytes this blocks i =
     take (da_entry_size this)
       (drop (disk_array_entry_offset this i) (blocks (disk_array_entry_block this i)))"

text \<open>The array as its users see it, in client state \<open>c\<close>.\<close>

definition abs_array ::
  "'c bufio \<Rightarrow> block_cipher \<Rightarrow> ('c \<Rightarrow> dm_block_t \<Rightarrow> byte list) \<Rightarrow> disk_array \<Rightarrow> 'c \<Rightarrow> byte list darray"
where
  "abs_array bo dec content this c =
     \<lparr>ar_nr = da_nr_entry this,
      ar_cells = entry_bytes this (content c),
      ar_err = (\<lambda>i. errno_of (fst (disk_array_fetch bo dec this (disk_array_entry_block this i) c))),
      ar_format_err = None\<rparr>"

lemma fetch_content:
  assumes ok: "bufio_ok bo dec (da_key this) content"
    and f: "disk_array_fetch bo dec this blk c = (r, c')"
  shows "content c' = content c" and "r = Inr d \<Longrightarrow> d = content c blk"
proof -
  note D = bufio_okD [OF ok]
  obtain g c1 where g: "bo_get bo blk c = (g, c1)" by fastforce
  obtain q c2 where q: "bo_read bo blk c1 = (q, c2)" by fastforce
  have c12: "content c1 = content c" "content c2 = content c"
    using D(5) [OF g] D(6) [OF q] by simp_all
  have "content c' = content c \<and> (\<forall>d. r = Inr d \<longrightarrow> d = content c blk)"
  proof (cases g)
    case (Inr data)
    with f g have "r = Inr data" "c' = c1" by (simp_all add: disk_array_fetch_def)
    with c12 D(2) [OF g [unfolded Inr]] show ?thesis by simp
  next
    case (Inl e)
    show ?thesis
    proof (cases q)
      case (Inl e')
      with f g q \<open>g = Inl e\<close> have "r = Inl (ptr_error e')" "c' = c2"
        by (simp_all add: disk_array_fetch_def)
      with c12 show ?thesis by simp
    next
      case (Inr data)
      have p: "dec (da_key this) data blk = content c blk"
        using D(3) [OF q [unfolded Inr]] c12 by simp
      from f g q \<open>g = Inl e\<close> Inr have "r = Inr (content c blk)"
        "c' = bo_store bo blk (content c blk) (bo_set_aux bo blk this c2)"
        by (simp_all add: disk_array_fetch_def p Let_def)
      with c12 show ?thesis by (simp add: D)
    qed
  qed
  then show "content c' = content c" and "r = Inr d \<Longrightarrow> d = content c blk" by blast+
qed

lemma entry_bytes_upd:
  assumes "array_ok this" and "length e = da_entry_size this"
    and "length (blocks (disk_array_entry_block this i)) = METADATA_BLOCK_SIZE"
  shows "entry_bytes this
      (blocks(disk_array_entry_block this i :=
         overwrite (disk_array_entry_offset this i) e (blocks (disk_array_entry_block this i)))) j
    = ((entry_bytes this blocks)(i := e)) j"
proof -
  let ?d = "blocks (disk_array_entry_block this i)" and ?o = "disk_array_entry_offset this i"
  have fit: "?o + length e \<le> length ?d" using offset_in_block [OF assms(1)] assms by simp
  consider "j = i" | "j \<noteq> i" "disk_array_entry_block this j = disk_array_entry_block this i"
    | "j \<noteq> i" "disk_array_entry_block this j \<noteq> disk_array_entry_block this i" by blast
  then show ?thesis
  proof cases
    case 1
    then show ?thesis using slice_overwrite_same [OF fit] assms(2) by (simp add: entry_bytes_def)
  next
    case 2
    then have "disk_array_entry_offset this j + da_entry_size this \<le> ?o \<or>
        ?o + length e \<le> disk_array_entry_offset this j"
      using offsets_apart [OF assms(1)] assms(2) by metis
    with slice_overwrite_apart [OF fit this] 2 show ?thesis by (simp add: entry_bytes_def)
  next
    case 3
    then show ?thesis by (simp add: entry_bytes_def)
  qed
qed

lemma disk_array_get_abs:
  assumes "bufio_ok bo dec (da_key this) content"
  shows "fst (disk_array_get bo dec this i c) = darray_get (abs_array bo dec content this c) i"
    and "content (snd (disk_array_get bo dec this i c)) = content c"
proof -
  obtain r c' where f: "disk_array_fetch bo dec this (disk_array_entry_block this i) c = (r, c')"
    by fastforce
  note fc = fetch_content [OF assms f]
  show "fst (disk_array_get bo dec this i c) = darray_get (abs_array bo dec content this c) i"
    using f fc
    by (cases r) (auto simp: disk_array_get_def darray_get_def abs_array_def entry_bytes_def Let_def)
  show "content (snd (disk_array_get bo dec this i c)) = content c"
    using f fc by (cases r) (auto simp: disk_array_get_def bufio_okD [OF assms] Let_def)
qed

lemma disk_array_set_abs:
  assumes ok: "bufio_ok bo dec (da_key this) content" and a: "array_ok this"
    and len: "length e = da_entry_size this"
  shows "fst (disk_array_set bo dec this i e c) = fst (darray_set (abs_array bo dec content this c) i e)"
    and "entry_bytes this (content (snd (disk_array_set bo dec this i e c))) =
       ar_cells (snd (darray_set (abs_array bo dec content this c) i e))"
    and "b \<noteq> disk_array_entry_block this i \<Longrightarrow>
       content (snd (disk_array_set bo dec this i e c)) b = content c b"
proof -
  let ?b = "disk_array_entry_block this i"
  obtain r c' where f: "disk_array_fetch bo dec this ?b c = (r, c')" by fastforce
  note fc = fetch_content [OF ok f]
  note D = bufio_okD [OF ok]
  show "fst (disk_array_set bo dec this i e c) = fst (darray_set (abs_array bo dec content this c) i e)"
    using f by (cases r) (simp_all add: disk_array_set_def darray_set_def abs_array_def Let_def)
  have cont: "content (snd (disk_array_set bo dec this i e c)) =
      (if i < da_nr_entry this \<and> \<not> isl r
       then (content c)(?b := overwrite (disk_array_entry_offset this i) e (content c ?b))
       else content c)"
  proof (cases "i < da_nr_entry this \<and> \<not> isl r")
    case True
    then obtain d where d: "r = Inr d" by (cases r) auto
    then have "d = content c ?b" using fc(2) by blast
    moreover have "length (overwrite (disk_array_entry_offset this i) e (content c ?b)) =
        METADATA_BLOCK_SIZE"
      using offset_in_block [OF a] len by (simp add: length_overwrite D)
    ultimately show ?thesis using True f d fc(1) len
      by (simp add: disk_array_set_def D Let_def)
  next
    case False
    then show ?thesis using f fc(1)
      by (cases r) (auto simp: disk_array_set_def Let_def)
  qed
  show "entry_bytes this (content (snd (disk_array_set bo dec this i e c))) =
      ar_cells (snd (darray_set (abs_array bo dec content this c) i e))"
  proof (cases "i < da_nr_entry this \<and> \<not> isl r")
    case True
    then have "snd (darray_set (abs_array bo dec content this c) i e) =
        (abs_array bo dec content this c)\<lparr>ar_cells := (entry_bytes this (content c))(i := e)\<rparr>"
      using f by (cases r) (simp_all add: darray_set_def abs_array_def)
    moreover have "entry_bytes this (content (snd (disk_array_set bo dec this i e c))) =
        (entry_bytes this (content c))(i := e)"
      unfolding cont using True entry_bytes_upd [OF a len] D(1) by (simp add: fun_eq_iff)
    ultimately show ?thesis by simp
  next
    case False
    then show ?thesis unfolding cont using f
      by (cases r) (auto simp: darray_set_def abs_array_def)
  qed
  show "content (snd (disk_array_set bo dec this i e c)) b = content c b" if "b \<noteq> ?b"
    unfolding cont using that by simp
qed

text \<open>The format loop clears whole blocks in order, up to its first failure.\<close>

lemma overwrite_block: "length d = n \<Longrightarrow> overwrite 0 (replicate n x) d = replicate n x"
  by (simp add: overwrite_def)

lemma format_loop_content:
  assumes ok: "bufio_ok bo dec (da_key this) content"
  shows "disk_array_format_loop bo this fill shift (n * METADATA_BLOCK_SIZE) c = (r, c') \<Longrightarrow>
    \<exists>m \<le> n. (r = Inr () \<longrightarrow> m = n) \<and>
      content c' = (\<lambda>b. if da_start this + shift \<le> b \<and> b < da_start this + shift + m
                        then replicate METADATA_BLOCK_SIZE fill else content c b)"
proof (induction n arbitrary: shift c)
  case 0
  then show ?case by (auto simp: disk_array_format_loop.simps fun_eq_iff)
next
  case (Suc n)
  note D = bufio_okD [OF ok]
  let ?b = "da_start this + shift"
  obtain q c1 where q: "bo_new bo ?b c = (q, c1)" by fastforce
  have c1: "content c1 = content c" using D(7) [OF q] .
  have pos: "Suc n * METADATA_BLOCK_SIZE > 0" by (simp add: consts_simps)
  show ?case
  proof (cases q)
    case (Inl e)
    with Suc.prems q pos have "r = Inl (ptr_error e)" "c' = c1"
      by (simp_all add: disk_array_format_loop.simps [of _ _ _ _ "METADATA_BLOCK_SIZE + n * _"] Let_def)
    with c1 show ?thesis by (intro exI [of _ 0]) (auto simp: fun_eq_iff)
  next
    case (Inr d)
    let ?c = "bo_release bo ?b (bo_mark_dirty bo ?b
      (bo_store bo ?b (replicate METADATA_BLOCK_SIZE fill) (bo_set_aux bo ?b this c1)))"
    have len: "length d = METADATA_BLOCK_SIZE" using D(4) q Inr by blast
    have m: "min METADATA_BLOCK_SIZE (Suc n * METADATA_BLOCK_SIZE) = METADATA_BLOCK_SIZE"
      "Suc n * METADATA_BLOCK_SIZE - METADATA_BLOCK_SIZE = n * METADATA_BLOCK_SIZE" by simp_all
    have step: "disk_array_format_loop bo this fill (shift + 1) (n * METADATA_BLOCK_SIZE) ?c = (r, c')"
      using Suc.prems pos
      unfolding disk_array_format_loop.simps [of _ _ _ _ "Suc n * _"]
      by (simp only: q Inr prod.case sum.case Let_def m overwrite_block [OF len] if_True)
    have cont: "content ?c = (content c)(?b := replicate METADATA_BLOCK_SIZE fill)"
      by (simp add: D c1)
    from Suc.IH [OF step] obtain k where k: "k \<le> n" "r = Inr () \<longrightarrow> k = n"
      "content c' = (\<lambda>b. if da_start this + (shift + 1) \<le> b \<and> b < da_start this + (shift + 1) + k
         then replicate METADATA_BLOCK_SIZE fill else content ?c b)" by blast
    show ?thesis
      by (rule exI [of _ "Suc k"]) (use k(1,2) in \<open>auto simp: k(3) cont fun_eq_iff\<close>)
  qed
qed

lemma entry_block_bound:
  assumes "array_ok this" and "i < da_nr_entry this"
  shows "disk_array_entry_block this i <
    da_start this + disk_array_blocks (da_nr_entry this) (da_entry_size this) METADATA_BLOCK_SIZE"
proof -
  have "i div da_entries_per_block this \<le> da_nr_entry this div da_entries_per_block this"
    using assms(2) by (intro div_le_mono) simp
  then show ?thesis
    using assms(1) by (simp add: disk_array_entry_block_def disk_array_blocks_def array_ok_def)
qed

text \<open>
  C11. The encrypted block array implements an array of cells.  For a dm-bufio client that keeps the
  plaintext of its blocks, reading an entry gives the cell (or the error of the failing access),
  writing an entry changes exactly that cell, whatever other entries share its block, an error
  changes nothing, and only the block of the entry is written, which lies in the array's region.
\<close>

theorem disk_array_implements_cells:
  assumes "bufio_ok bo dec key content" and "0 < sz" and "sz \<le> METADATA_BLOCK_SIZE"
    and "this = disk_array_init key start nr sz" and "length e = sz"
  shows "fst (disk_array_get bo dec this i c) = darray_get (abs_array bo dec content this c) i \<and>
    content (snd (disk_array_get bo dec this i c)) = content c \<and>
    fst (disk_array_set bo dec this i e c) = fst (darray_set (abs_array bo dec content this c) i e) \<and>
    entry_bytes this (content (snd (disk_array_set bo dec this i e c))) =
      ar_cells (snd (darray_set (abs_array bo dec content this c) i e)) \<and>
    (\<forall>b. content (snd (disk_array_set bo dec this i e c)) b \<noteq> content c b \<longrightarrow>
      start \<le> b \<and> b < start + disk_array_blocks nr sz METADATA_BLOCK_SIZE)"
proof -
  have k: "da_key this = key" "da_start this = start" "da_nr_entry this = nr" "da_entry_size this = sz"
    using assms(4) by (simp_all add: disk_array_init_def)
  have ok: "bufio_ok bo dec (da_key this) content" using assms(1) by (simp only: k)
  have a: "array_ok this" using array_ok_init assms by simp
  have len: "length e = da_entry_size this" using assms(5) by (simp only: k)
  note s = disk_array_set_abs [OF ok a len, where i = i and c = c]
  have "start \<le> b \<and> b < start + disk_array_blocks nr sz METADATA_BLOCK_SIZE"
    if *: "content (snd (disk_array_set bo dec this i e c)) b \<noteq> content c b" for b
  proof -
    have b: "b = disk_array_entry_block this i" using s(3) * by blast
    have "i < nr" using * k by (cases "i < nr") (simp_all add: disk_array_set_def)
    then show ?thesis using entry_block_bound [OF a, of i] b k
      by (simp add: disk_array_entry_block_def)
  qed
  with disk_array_get_abs [OF ok, of i c] s(1,2) show ?thesis by blast
qed

text \<open>
  A client for the example: the plaintext of every block, the set of cached blocks, and a cipher
  that adds 1 to every byte.
\<close>

type_synonym demo_client = "nat set \<times> (nat \<Rightarrow> byte list)"

definition pad_block :: "byte list \<Rightarrow> byte list" where
  "pad_block d = take METADATA_BLOCK_SIZE (d @ replicate METADATA_BLOCK_SIZE 0)"

definition demo_dec :: block_cipher where
  "demo_dec key data seq = map (\<lambda>x. x - 1) data"

definition demo_bufio :: "demo_client bufio" where
  "demo_bufio =
     \<lparr>bo_get = (\<lambda>b c. (if b \<in> fst c then Inr (pad_block (snd c b)) else Inl None, c)),
      bo_read = (\<lambda>b c. (Inr (map (\<lambda>x. x + 1) (pad_block (snd c b))), (insert b (fst c), snd c))),
      bo_new = (\<lambda>b c. (Inr (replicate METADATA_BLOCK_SIZE 0), (insert b (fst c), snd c))),
      bo_set_aux = (\<lambda>_ _ c. c),
      bo_store = (\<lambda>b d c. (fst c, (snd c)(b := d))),
      bo_mark_dirty = (\<lambda>_ c. c), bo_release = (\<lambda>_ c. c)\<rparr>"

definition demo_content :: "demo_client \<Rightarrow> nat \<Rightarrow> byte list" where
  "demo_content c b = pad_block (snd c b)"

lemma demo_bufio_ok: "bufio_ok demo_bufio demo_dec key demo_content"
  unfolding bufio_ok_def demo_bufio_def demo_dec_def demo_content_def pad_block_def
  by (auto simp: fun_eq_iff comp_def split: if_splits)

theorem disk_array_implements_cells_witness:
  "let this = disk_array_init [] 7 1000 8; c = ({}, \<lambda>_. []);
       c' = snd (disk_array_set demo_bufio demo_dec this 513 [1, 2, 3, 4, 5, 6, 7, 8] c)
   in entry_bytes this (demo_content c') 513 = [1, 2, 3, 4, 5, 6, 7, 8] \<and>
      entry_bytes this (demo_content c') 512 = entry_bytes this (demo_content c) 512"
proof -
  let ?arr = "disk_array_init [] 7 1000 8" and ?c = "({}, \<lambda>_. []) :: demo_client"
  let ?e = "[1, 2, 3, 4, 5, 6, 7, 8] :: byte list"
  let ?a = "abs_array demo_bufio demo_dec demo_content ?arr ?c"
  have h: "(0::nat) < 8" "8 \<le> METADATA_BLOCK_SIZE" "length ?e = 8"
    by (simp_all add: consts_simps)
  note r = disk_array_implements_cells [OF demo_bufio_ok h(1,2) refl h(3), where start = 7 and nr = 1000
      and i = 513 and c = ?c]
  have "darray_set ?a 513 ?e = (Inr (), ?a\<lparr>ar_cells := (ar_cells ?a)(513 := ?e)\<rparr>)"
    by (simp add: darray_set_def abs_array_def disk_array_init_def disk_array_fetch_def
        demo_bufio_def Let_def)
  with r show ?thesis unfolding Let_def by (simp add: abs_array_def)
qed

text \<open>
  C21. A successful format clears every entry, and it, or what a failing one has done, stays in the
  blocks set aside for the array.
\<close>

theorem disk_array_format_clears:
  assumes "bufio_ok bo dec key content" and "0 < sz" and "sz \<le> METADATA_BLOCK_SIZE"
    and "this = disk_array_init key start nr sz" and "disk_array_format bo this val c = (r, c')"
  shows "(r = Inr () \<longrightarrow>
      (\<forall>i < nr. entry_bytes this (content c') i = replicate sz (if val then 255 else 0))) \<and>
    (\<forall>b. content c' b \<noteq> content c b \<longrightarrow>
      start \<le> b \<and> b < start + disk_array_blocks nr sz METADATA_BLOCK_SIZE)"
proof -
  let ?n = "disk_array_blocks nr sz METADATA_BLOCK_SIZE" and ?f = "if val then 255 else 0 :: byte"
  have k: "da_key this = key" "da_start this = start" "da_nr_entry this = nr" "da_entry_size this = sz"
    using assms(4) by (simp_all add: disk_array_init_def)
  have ok: "bufio_ok bo dec (da_key this) content" using assms(1) by (simp only: k)
  have a: "array_ok this" using array_ok_init assms by simp
  have "disk_array_format_loop bo this ?f 0 (?n * METADATA_BLOCK_SIZE) c = (r, c')"
    using assms(5) by (simp add: disk_array_format_def k)
  from format_loop_content [OF ok this] obtain m where m: "m \<le> ?n" "r = Inr () \<longrightarrow> m = ?n"
    and c': "content c' = (\<lambda>b. if start \<le> b \<and> b < start + m
      then replicate METADATA_BLOCK_SIZE ?f else content c b)" by (auto simp: k)
  have "entry_bytes this (content c') i = replicate sz ?f" if "r = Inr ()" "i < nr" for i
  proof -
    have "start \<le> disk_array_entry_block this i \<and> disk_array_entry_block this i < start + m"
      using entry_block_bound [OF a, of i] that m(2) k by (simp add: disk_array_entry_block_def)
    then have "content c' (disk_array_entry_block this i) = replicate METADATA_BLOCK_SIZE ?f"
      by (simp add: c')
    then show ?thesis using offset_in_block [OF a, of i] unfolding entry_bytes_def
      by (simp add: k min_def)
  qed
  then show ?thesis using m(1) by (auto simp: c' split: if_splits)
qed

theorem disk_array_format_clears_witness:
  "let this = disk_array_init [] 7 10 8; c' = snd (disk_array_format demo_bufio this True ({}, \<lambda>_. []))
   in entry_bytes this (demo_content c') 3 = replicate 8 255"
proof -
  let ?arr = "disk_array_init [] 7 10 8" and ?c = "({}, \<lambda>_. []) :: demo_client"
  have h: "(0::nat) < 8" "8 \<le> METADATA_BLOCK_SIZE" by (simp_all add: consts_simps)
  obtain r c' where f: "disk_array_format demo_bufio ?arr True ?c = (r, c')" by (metis surj_pair)
  have "fst (disk_array_format demo_bufio ?arr True ?c) = Inr ()"
    by (simp add: disk_array_format_def disk_array_init_def disk_array_blocks_def demo_bufio_def
        consts_simps disk_array_format_loop.simps Let_def)
  with f have "r = Inr ()" by simp
  with disk_array_format_clears [OF demo_bufio_ok h refl f] have
    "\<forall>i < 10. entry_bytes ?arr (demo_content c') i = replicate 8 255" by simp
  then show ?thesis unfolding Let_def f by simp
qed

section \<open>Read, modify, write\<close>

text \<open>
  The interface the tables rely on: a bounded store of cells in which a write is read back and
  touches nothing else.  Every table updates a cell by reading it, changing it and writing it.
\<close>

locale cell_store =
  fixes ok :: "'a \<Rightarrow> bool" and nr :: "'a \<Rightarrow> nat"
    and get :: "'a \<Rightarrow> nat \<Rightarrow> 'e result" and set :: "'a \<Rightarrow> nat \<Rightarrow> 'e \<Rightarrow> unit result \<times> 'a"
  assumes get_in: "ok a \<Longrightarrow> i < nr a \<Longrightarrow> \<exists>v. get a i = Inr v"
    and get_out: "nr a \<le> i \<Longrightarrow> get a i = Inl EINVAL"
    and set_in: "ok a \<Longrightarrow> i < nr a \<Longrightarrow> fst (set a i v) = Inr ()"
    and set_ok: "ok a \<Longrightarrow> ok (snd (set a i v))"
    and set_nr: "nr (snd (set a i v)) = nr a"
    and get_set: "ok a \<Longrightarrow> i < nr a \<Longrightarrow> get (snd (set a i v)) j = (if j = i then Inr v else get a j)"
begin

definition modify :: "('e \<Rightarrow> 'e) \<Rightarrow> 'a \<Rightarrow> nat \<Rightarrow> unit result \<times> 'a" where
  "modify f a i = (case get a i of Inl e \<Rightarrow> (Inl e, a) | Inr v \<Rightarrow> set a i (f v))"

lemma modify_in:
  assumes "ok a" and "i < nr a" and "get a i = Inr v"
  shows "fst (modify f a i) = Inr ()" and "ok (snd (modify f a i))"
    and "nr (snd (modify f a i)) = nr a"
    and "get (snd (modify f a i)) j = (if j = i then Inr (f v) else get a j)"
  using assms by (simp_all add: modify_def set_in set_ok set_nr get_set)

lemma modify_out: "nr a \<le> i \<Longrightarrow> modify f a i = (Inl EINVAL, a)"
  by (simp add: modify_def get_out)

end

interpretation cells: cell_store healthy ar_nr darray_get darray_set
proof
  fix a :: "'b darray" and i j and v :: 'b
  show "healthy a \<Longrightarrow> i < ar_nr a \<Longrightarrow> \<exists>v. darray_get a i = Inr v" by (simp add: arr_simps)
  show "ar_nr a \<le> i \<Longrightarrow> darray_get a i = Inl EINVAL" by (simp add: arr_simps)
  show "healthy a \<Longrightarrow> i < ar_nr a \<Longrightarrow> fst (darray_set a i v) = Inr ()" by (simp add: arr_simps)
  show "healthy a \<Longrightarrow> healthy (snd (darray_set a i v))" by simp
  show "ar_nr (snd (darray_set a i v)) = ar_nr a" by simp
  show "healthy a \<Longrightarrow> i < ar_nr a \<Longrightarrow>
      darray_get (snd (darray_set a i v)) j = (if j = i then Inr v else darray_get a j)"
    by (simp add: darray_set_healthy) (simp add: darray_get_def healthy_def)
qed

end
