(* ===== verification/Disk_Bitset.thy ===== *)
theory Disk_Bitset
  imports Disk_Array
begin

text \<open>
  \<^verbatim>\<open>disk_structs.c\<close>, the disk bitset: a disk array of 64 bit groups.  A bit is changed by reading
  its group, changing the bit and writing the group back.  The theory shows that the groups
  implement independent bits, and gives that as the interface the segment validator uses.
\<close>

section \<open>Operations\<close>

record disk_bitset =
  bs_nr_bit :: nat
  bs_array :: "u64 darray"

definition disk_bitset_group :: "nat \<Rightarrow> nat" where
  "disk_bitset_group index = index div BITS_PER_LONG"

definition disk_bitset_offset :: "nat \<Rightarrow> nat" where
  "disk_bitset_offset index = index mod BITS_PER_LONG"

definition disk_bitset_nr_group :: "nat \<Rightarrow> nat" where
  "disk_bitset_nr_group nr_bit = (if nr_bit > 0 then (nr_bit - 1) div BITS_PER_LONG + 1 else 0)"

definition disk_bitset_operate :: "disk_bitset \<Rightarrow> nat \<Rightarrow> bool \<Rightarrow> unit result \<times> disk_bitset" where
  "disk_bitset_operate this index val =
     (if index \<ge> bs_nr_bit this then (Inl EINVAL, this)
      else case darray_get (bs_array this) (disk_bitset_group index) of
             Inl r \<Rightarrow> (Inl r, this)
           | Inr grp \<Rightarrow>
               let grp' = (if val then set_bit (disk_bitset_offset index) grp
                             else unset_bit (disk_bitset_offset index) grp);
                   (r, arr) = darray_set (bs_array this) (disk_bitset_group index) grp'
               in (r, this\<lparr>bs_array := arr\<rparr>))"

definition disk_bitset_set :: "disk_bitset \<Rightarrow> nat \<Rightarrow> unit result \<times> disk_bitset" where
  "disk_bitset_set this index = disk_bitset_operate this index True"

definition disk_bitset_clear :: "disk_bitset \<Rightarrow> nat \<Rightarrow> unit result \<times> disk_bitset" where
  "disk_bitset_clear this index = disk_bitset_operate this index False"

text \<open>The read has no bound of its own: the array checks the group.\<close>

definition disk_bitset_get :: "disk_bitset \<Rightarrow> nat \<Rightarrow> bool result" where
  "disk_bitset_get this index =
     (case darray_get (bs_array this) (disk_bitset_group index) of
        Inl r \<Rightarrow> Inl r
      | Inr grp \<Rightarrow> Inr (bit grp (disk_bitset_offset index)))"

text \<open>\<^verbatim>\<open>memset\<close> with \<^verbatim>\<open>0xff\<close> or \<^verbatim>\<open>0\<close> makes every group all ones or zero.\<close>

definition disk_bitset_format :: "disk_bitset \<Rightarrow> bool \<Rightarrow> unit result \<times> disk_bitset" where
  "disk_bitset_format this val =
     (let (r, arr) = darray_format (bs_array this) (if val then - 1 else 0)
      in (r, this\<lparr>bs_array := arr\<rparr>))"

text \<open>\<open>arr\<close> is what the blocks at the given place hold.\<close>

definition disk_bitset_init :: "u64 darray \<Rightarrow> nat \<Rightarrow> disk_bitset" where
  "disk_bitset_init arr nr_bit =
     \<lparr>bs_nr_bit = nr_bit, bs_array = arr\<lparr>ar_nr := disk_bitset_nr_group nr_bit\<rparr>\<rparr>"

section \<open>Bits\<close>

definition bits :: "disk_bitset \<Rightarrow> nat \<Rightarrow> bool" where
  "bits this i = bit (ar_cells (bs_array this) (disk_bitset_group i)) (disk_bitset_offset i)"

definition bitset_ok :: "disk_bitset \<Rightarrow> bool" where
  "bitset_ok this \<longleftrightarrow> healthy (bs_array this) \<and>
     ar_nr (bs_array this) = disk_bitset_nr_group (bs_nr_bit this)"

lemma group_bound: "i < n \<Longrightarrow> disk_bitset_group i < disk_bitset_nr_group n"
proof -
  assume "i < n"
  then have "i div BITS_PER_LONG \<le> (n - 1) div BITS_PER_LONG" by (intro div_le_mono) simp
  with \<open>i < n\<close> show ?thesis by (simp add: disk_bitset_group_def disk_bitset_nr_group_def)
qed

lemma bit_address_inj:
  "disk_bitset_group i = disk_bitset_group j \<Longrightarrow> disk_bitset_offset i = disk_bitset_offset j \<Longrightarrow> i = j"
  unfolding disk_bitset_group_def disk_bitset_offset_def by (metis div_mult_mod_eq)

lemma offset_less [simp]: "disk_bitset_offset i < 64"
  by (simp add: disk_bitset_offset_def consts_simps)

lemma bit_upd:
  fixes w :: u64
  shows "bit (if v then set_bit n w else unset_bit n w) m =
    (if m = n \<and> m < 64 then v else bit w m)"
  by (auto simp: bit_set_bit_iff bit_unset_bit_iff dest: bit_imp_le_length)

lemma operate_in:
  assumes "bitset_ok b" and "i < bs_nr_bit b"
  shows "fst (disk_bitset_operate b i v) = Inr ()"
    and "bits (snd (disk_bitset_operate b i v)) = (bits b)(i := v)"
    and "bitset_ok (snd (disk_bitset_operate b i v))"
    and "bs_nr_bit (snd (disk_bitset_operate b i v)) = bs_nr_bit b"
proof -
  let ?g = "disk_bitset_group i" and ?o = "disk_bitset_offset i" and ?a = "bs_array b"
  let ?w = "if v then set_bit ?o (ar_cells ?a ?g) else unset_bit ?o (ar_cells ?a ?g)"
  have h: "healthy ?a" "?g < ar_nr ?a"
    using assms group_bound by (simp_all add: bitset_ok_def)
  have eq: "disk_bitset_operate b i v = (Inr (), b\<lparr>bs_array := ?a\<lparr>ar_cells := (ar_cells ?a)(?g := ?w)\<rparr>\<rparr>)"
    using assms(2) h by (simp add: disk_bitset_operate_def arr_simps Let_def)
  show "fst (disk_bitset_operate b i v) = Inr ()"
    "bitset_ok (snd (disk_bitset_operate b i v))"
    "bs_nr_bit (snd (disk_bitset_operate b i v)) = bs_nr_bit b"
    using assms(1) by (simp_all add: eq bitset_ok_def)
  show "bits (snd (disk_bitset_operate b i v)) = (bits b)(i := v)"
  proof
    fix j
    show "bits (snd (disk_bitset_operate b i v)) j = ((bits b)(i := v)) j"
    proof (cases "disk_bitset_group j = ?g")
      case True
      have "disk_bitset_offset j = ?o \<longleftrightarrow> j = i" using True bit_address_inj by blast
      then show ?thesis using True by (simp add: eq bits_def bit_upd del: if_split)
    next
      case False
      then show ?thesis by (auto simp: eq bits_def)
    qed
  qed
qed

lemma operate_out: "bs_nr_bit b \<le> i \<Longrightarrow> disk_bitset_operate b i v = (Inl EINVAL, b)"
  by (simp add: disk_bitset_operate_def)

lemma get_in: "bitset_ok b \<Longrightarrow> i < bs_nr_bit b \<Longrightarrow> disk_bitset_get b i = Inr (bits b i)"
  using group_bound by (simp add: bitset_ok_def disk_bitset_get_def arr_simps bits_def)

lemma get_Inr_bits: "disk_bitset_get b i = Inr v \<Longrightarrow> v = bits b i"
  by (auto simp: disk_bitset_get_def bits_def dest!: darray_get_InrD split: sum.splits)

lemma format_ok:
  assumes "bitset_ok b"
  shows "fst (disk_bitset_format b v) = Inr ()" and "bits (snd (disk_bitset_format b v)) = (\<lambda>_. v)"
    and "bitset_ok (snd (disk_bitset_format b v))"
    and "bs_nr_bit (snd (disk_bitset_format b v)) = bs_nr_bit b"
  using assms
  by (auto simp: disk_bitset_format_def darray_format_def bitset_ok_def healthy_def bits_def fun_eq_iff)

lemma bitset_ok_init: "healthy arr \<Longrightarrow> disk_bitset_nr_group n \<le> ar_nr arr \<Longrightarrow>
    bitset_ok (disk_bitset_init arr n)"
  by (simp add: bitset_ok_def disk_bitset_init_def healthy_def)

section \<open>Interface\<close>

text \<open>
  A vector of bits: \<open>view\<close> gives the bits, \<open>set\<close> and \<open>clear\<close> change the one addressed.  What a
  client counts is the number of bits set below the length.
\<close>

locale bit_vector =
  fixes ok :: "'b \<Rightarrow> bool" and nr :: "'b \<Rightarrow> nat" and view :: "'b \<Rightarrow> nat \<Rightarrow> bool"
    and get :: "'b \<Rightarrow> nat \<Rightarrow> bool result"
    and set :: "'b \<Rightarrow> nat \<Rightarrow> unit result \<times> 'b" and clear :: "'b \<Rightarrow> nat \<Rightarrow> unit result \<times> 'b"
  assumes get_view: "ok b \<Longrightarrow> i < nr b \<Longrightarrow> get b i = Inr (view b i)"
    and set_view: "ok b \<Longrightarrow> i < nr b \<Longrightarrow>
      fst (set b i) = Inr () \<and> view (snd (set b i)) = (view b)(i := True)"
    and clear_view: "ok b \<Longrightarrow> i < nr b \<Longrightarrow>
      fst (clear b i) = Inr () \<and> view (snd (clear b i)) = (view b)(i := False)"
    and set_keeps: "ok b \<Longrightarrow> ok (snd (set b i)) \<and> nr (snd (set b i)) = nr b"
    and clear_keeps: "ok b \<Longrightarrow> ok (snd (clear b i)) \<and> nr (snd (clear b i)) = nr b"
    and set_out: "nr b \<le> i \<Longrightarrow> set b i = (Inl EINVAL, b)"
    and clear_out: "nr b \<le> i \<Longrightarrow> clear b i = (Inl EINVAL, b)"
begin

definition weight :: "'b \<Rightarrow> nat" where
  "weight b = card {i. i < nr b \<and> view b i}"

lemma weight_le: "weight b \<le> nr b"
  unfolding weight_def by (rule card_Collect_less_le)

lemma weight_full: "weight b = nr b \<longleftrightarrow> (\<forall>i < nr b. view b i)"
  unfolding weight_def by (rule card_Collect_less_full)

lemma weight_set:
  assumes "ok b" and "i < nr b" and "\<not> view b i"
  shows "weight (snd (set b i)) = Suc (weight b)"
  using assms card_Collect_less_insert [of i "nr b" "view b"]
  by (simp add: weight_def set_view set_keeps)

lemma weight_clear:
  assumes "ok b" and "i < nr b" and "view b i"
  shows "weight (snd (clear b i)) = weight b - 1"
  using assms card_Collect_less_remove [of i "nr b" "view b"]
  by (simp add: weight_def clear_view clear_keeps)

end

interpretation svt: bit_vector bitset_ok bs_nr_bit bits disk_bitset_get disk_bitset_set disk_bitset_clear
proof
  fix b :: disk_bitset and i
  show "bitset_ok b \<Longrightarrow> i < bs_nr_bit b \<Longrightarrow> disk_bitset_get b i = Inr (bits b i)" by (rule get_in)
  show "bitset_ok b \<Longrightarrow> i < bs_nr_bit b \<Longrightarrow>
      fst (disk_bitset_set b i) = Inr () \<and> bits (snd (disk_bitset_set b i)) = (bits b)(i := True)"
    "bitset_ok b \<Longrightarrow> i < bs_nr_bit b \<Longrightarrow>
      fst (disk_bitset_clear b i) = Inr () \<and> bits (snd (disk_bitset_clear b i)) = (bits b)(i := False)"
    by (simp_all add: disk_bitset_set_def disk_bitset_clear_def operate_in)
  have keep: "bitset_ok b \<Longrightarrow> bitset_ok (snd (disk_bitset_operate b i v)) \<and>
      bs_nr_bit (snd (disk_bitset_operate b i v)) = bs_nr_bit b" for v
    by (cases "i < bs_nr_bit b") (simp_all add: operate_in operate_out)
  show "bitset_ok b \<Longrightarrow> bitset_ok (snd (disk_bitset_set b i)) \<and>
      bs_nr_bit (snd (disk_bitset_set b i)) = bs_nr_bit b"
    "bitset_ok b \<Longrightarrow> bitset_ok (snd (disk_bitset_clear b i)) \<and>
      bs_nr_bit (snd (disk_bitset_clear b i)) = bs_nr_bit b"
    using keep by (simp_all add: disk_bitset_set_def disk_bitset_clear_def)
  show "bs_nr_bit b \<le> i \<Longrightarrow> disk_bitset_set b i = (Inl EINVAL, b)"
    "bs_nr_bit b \<le> i \<Longrightarrow> disk_bitset_clear b i = (Inl EINVAL, b)"
    by (simp_all add: disk_bitset_set_def disk_bitset_clear_def operate_out)
qed

text \<open>
  Bits stored 64 to a group are independent.  On a bitset whose blocks can be accessed, setting
  or clearing bit \<open>i\<close> succeeds exactly below the number of bits (and is refused with \<open>EINVAL\<close>
  without effect from there on), makes later reads of \<open>i\<close> give the new value, and leaves what every
  other bit reads as it was.
\<close>

theorem bitset_bits_independent:
  assumes "bitset_ok b"
    and "(r, b') = (if v then disk_bitset_set b i else disk_bitset_clear b i)" and "j < bs_nr_bit b"
  shows "(if i < bs_nr_bit b then r = Inr () else r = Inl EINVAL \<and> b' = b) \<and> bitset_ok b' \<and>
    disk_bitset_get b' j = (if j = i then Inr v else disk_bitset_get b j)"
proof -
  have op: "disk_bitset_operate b i v = (r, b')"
    using assms(2) by (simp add: disk_bitset_set_def disk_bitset_clear_def split: if_splits)
  show ?thesis
  proof (cases "i < bs_nr_bit b")
    case True
    from operate_in [OF assms(1) True, of v] op have
      "r = Inr ()" "bits b' = (bits b)(i := v)" "bitset_ok b'" "bs_nr_bit b' = bs_nr_bit b" by simp_all
    with True assms show ?thesis by (simp add: get_in)
  next
    case False
    then have "r = Inl EINVAL" "b' = b" using op by (simp_all add: operate_out)
    with False assms(1,3) show ?thesis by auto
  qed
qed

theorem bitset_bits_independent_witness:
  "disk_bitset_get (snd (disk_bitset_set (disk_bitset_init (fresh_darray 2 0) 100) 70)) 69 = Inr False"
proof -
  let ?b = "disk_bitset_init (fresh_darray 2 0) 100"
  have ok: "bitset_ok ?b" "(69::nat) < bs_nr_bit ?b"
    by (simp_all add: bitset_ok_def disk_bitset_init_def healthy_def)
  obtain r b' where op: "disk_bitset_set ?b 70 = (r, b')" by fastforce
  have "disk_bitset_get ?b 69 = Inr False"
    by (simp add: disk_bitset_get_def disk_bitset_init_def disk_bitset_group_def consts_simps
        disk_bitset_nr_group_def darray_get_def)
  with bitset_bits_independent [OF ok(1) _ ok(2), of r b' True 70] op show ?thesis by simp
qed

end
