(* ===== verification/Layout.thy ===== *)
theory Layout
  imports Disk_Bitset
begin

text \<open>
  The sizes and places of everything on the disk: the shape of an index file (\<^verbatim>\<open>lsm_tree.c\<close>), the
  block counts of the tables and the superblock with its layout (\<^verbatim>\<open>metadata.c\<close>).  The theory shows
  that the layout a format writes down is the one the size calculation of the constructor assumes,
  that the regions do not overlap, that each table fits in the blocks set aside for it, and when a superblock
  that was formatted is accepted again.
\<close>

section \<open>Constants\<close>

definition DEFAULT_LSM_TREE_NR_DISK_LEVEL :: nat where "DEFAULT_LSM_TREE_NR_DISK_LEVEL = 2"
definition DEFAULT_LSM_LEVEL0_NR_FILE :: nat where "DEFAULT_LSM_LEVEL0_NR_FILE = 1"
definition DEFAULT_LSM_FILE_CAPACITY :: nat where "DEFAULT_LSM_FILE_CAPACITY = 131072"
definition LSM_TREE_DISK_LEVEL_COMMON_RATIO :: nat where "LSM_TREE_DISK_LEVEL_COMMON_RATIO = 10"
definition DEFAULT_BIT_DEGREE :: nat where "DEFAULT_BIT_DEGREE = 32"
definition BIT_LEAF_LEN :: nat where "BIT_LEAF_LEN = 128"
definition NR_GC_PRESERVED :: nat where "NR_GC_PRESERVED = 320"
definition NR_JOURNAL_SEGMENT :: nat where "NR_JOURNAL_SEGMENT = 16"
definition NR_CHECKPOINT_PACKS :: nat where "NR_CHECKPOINT_PACKS = 2"
definition SUPERBLOCK_LOCATION :: nat where "SUPERBLOCK_LOCATION = 0"
definition SUPERBLOCK_MAGIC :: nat where "SUPERBLOCK_MAGIC = 0x22946"

text \<open>The packed structures of \<^verbatim>\<open>lsm_tree.h\<close> and \<^verbatim>\<open>metadata.h\<close>.\<close>

definition RECORD_SIZE :: nat where "RECORD_SIZE = 8 + AES_GCM_AUTH_SIZE + AES_GCM_KEY_SIZE"
definition BIT_CHILD_SIZE :: nat where "BIT_CHILD_SIZE = 1 + 4 + 8"
definition BIT_LEAF_SIZE :: nat where
  "BIT_LEAF_SIZE = 8 + BIT_LEAF_LEN * 4 + BIT_LEAF_LEN * RECORD_SIZE + 8"
definition BIT_INNER_SIZE :: nat where "BIT_INNER_SIZE = 8 + DEFAULT_BIT_DEGREE * BIT_CHILD_SIZE"
definition BIT_NODE_SIZE :: nat where
  "BIT_NODE_SIZE = 1 + max BIT_LEAF_SIZE BIT_INNER_SIZE + AES_GCM_AUTH_SIZE"
definition BIT_LEAF_NODE_SIZE :: nat where
  "BIT_LEAF_NODE_SIZE = BIT_NODE_SIZE - max BIT_LEAF_SIZE BIT_INNER_SIZE + BIT_LEAF_SIZE"
definition BIT_INNER_NODE_SIZE :: nat where
  "BIT_INNER_NODE_SIZE = BIT_NODE_SIZE - max BIT_LEAF_SIZE BIT_INNER_SIZE + BIT_INNER_SIZE"
definition DST_ENTRY_SIZE :: nat where "DST_ENTRY_SIZE = 8 + BLOCKS_PER_SEGMENT div 8"
definition REVERSE_INDEX_ENTRY_SIZE :: nat where "REVERSE_INDEX_ENTRY_SIZE = 8"
definition FILE_STAT_SIZE :: nat where
  "FILE_STAT_SIZE = 8 + AES_GCM_KEY_SIZE + AES_GCM_IV_SIZE + 3 * 8 + 3 * 4 + 2 * 8"
definition SUPERBLOCK_SIZE :: nat where
  "SUPERBLOCK_SIZE = (4 + 8) + (4 + 8 + 8) + (4 + 4 + 8 + 8) + (4 + 8 + 8 + 8 + 8 + 8) + 4 * 8
     + AES_GCM_AUTH_SIZE + AES_GCM_KEY_SIZE + AES_GCM_IV_SIZE + 8 + 4 * 8"

definition STRUCTURE_BLOCKS :: "nat \<Rightarrow> nat" where
  "STRUCTURE_BLOCKS sz = (if sz > 0 then (sz - 1) div METADATA_BLOCK_SIZE + 1 else 0)"

lemmas layout_consts =
  DEFAULT_LSM_TREE_NR_DISK_LEVEL_def DEFAULT_LSM_LEVEL0_NR_FILE_def DEFAULT_LSM_FILE_CAPACITY_def
  LSM_TREE_DISK_LEVEL_COMMON_RATIO_def DEFAULT_BIT_DEGREE_def BIT_LEAF_LEN_def NR_GC_PRESERVED_def
  NR_JOURNAL_SEGMENT_def NR_CHECKPOINT_PACKS_def SUPERBLOCK_LOCATION_def SUPERBLOCK_MAGIC_def
  RECORD_SIZE_def BIT_CHILD_SIZE_def BIT_LEAF_SIZE_def BIT_INNER_SIZE_def BIT_NODE_SIZE_def
  BIT_LEAF_NODE_SIZE_def BIT_INNER_NODE_SIZE_def DST_ENTRY_SIZE_def REVERSE_INDEX_ENTRY_SIZE_def
  FILE_STAT_SIZE_def SUPERBLOCK_SIZE_def consts_simps

lemma node_sizes: "BIT_LEAF_NODE_SIZE = 5665" "BIT_INNER_NODE_SIZE = 441" "BIT_NODE_SIZE = 5665"
  by (simp_all add: layout_consts)

section \<open>The shape of an index file\<close>

text \<open>
  The loops multiply \<open>size\<close> by the degree until it covers the leaves; for a degree below 2 they do
  not end.  \<open>fuel\<close> bounds the passes, and \<open>nr_leaf\<close> passes are enough otherwise.
\<close>

definition bit_nr_leaf :: "nat \<Rightarrow> nat" where
  "bit_nr_leaf nr_record =
     nr_record div BIT_LEAF_LEN + (if nr_record mod BIT_LEAF_LEN \<noteq> 0 then 1 else 0)"

fun bit_height_loop :: "nat \<Rightarrow> nat \<Rightarrow> nat \<Rightarrow> nat \<Rightarrow> nat \<Rightarrow> nat option" where
  "bit_height_loop fuel nr_degree nr_leaf height sz =
     (if sz < nr_leaf then
        (case fuel of
           0 \<Rightarrow> None
         | Suc f \<Rightarrow> bit_height_loop f nr_degree nr_leaf (height + 1) (sz * nr_degree))
      else Some height)"

definition bit_height :: "nat \<Rightarrow> nat \<Rightarrow> nat option" where
  "bit_height nr_record nr_degree =
     (if nr_record = 0 then Some 0
      else bit_height_loop (bit_nr_leaf nr_record) nr_degree (bit_nr_leaf nr_record) 1 1)"

fun bit_array_len_loop :: "nat \<Rightarrow> nat \<Rightarrow> nat \<Rightarrow> nat \<Rightarrow> nat \<Rightarrow> nat option" where
  "bit_array_len_loop fuel nr_degree nr_leaf len sz =
     (if sz < nr_leaf then
        (case fuel of
           0 \<Rightarrow> None
         | Suc f \<Rightarrow> bit_array_len_loop f nr_degree nr_leaf (len + sz) (sz * nr_degree))
      else Some (len + nr_leaf))"

definition bit_array_len :: "nat \<Rightarrow> nat \<Rightarrow> nat option" where
  "bit_array_len nr_record nr_degree =
     (if nr_record = 0 then Some 0
      else bit_array_len_loop (bit_nr_leaf nr_record) nr_degree (bit_nr_leaf nr_record) 0 1)"

definition calculate_bit_size :: "nat \<Rightarrow> nat \<Rightarrow> nat option" where
  "calculate_bit_size nr_record nr_degree =
     (if nr_record = 0 then Some 0
      else map_option (\<lambda>len. (len - bit_nr_leaf nr_record) * BIT_INNER_NODE_SIZE
             + bit_nr_leaf nr_record * BIT_LEAF_NODE_SIZE)
           (bit_array_len nr_record nr_degree))"

declare bit_height_loop.simps [simp del] bit_array_len_loop.simps [simp del]

definition BIT_FILE_SIZE :: nat where
  "BIT_FILE_SIZE = the (calculate_bit_size DEFAULT_LSM_FILE_CAPACITY DEFAULT_BIT_DEGREE)"

lemma bit_loops_step:
  assumes "sz < n" and "0 < fuel"
  shows "bit_height_loop fuel d n h sz = bit_height_loop (fuel - 1) d n (h + 1) (sz * d)"
    and "bit_array_len_loop fuel d n len sz = bit_array_len_loop (fuel - 1) d n (len + sz) (sz * d)"
  using assms by (simp_all add: bit_height_loop.simps [of fuel] bit_array_len_loop.simps [of fuel]
      split: nat.splits)

lemma bit_loops_done:
  assumes "\<not> sz < n"
  shows "bit_height_loop fuel d n h sz = Some h"
    and "bit_array_len_loop fuel d n len sz = Some (len + n)"
  using assms by (simp_all add: bit_height_loop.simps [of fuel] bit_array_len_loop.simps [of fuel])

text \<open>With a degree of 2 or more the passes counted by \<open>nr_leaf\<close> are enough.\<close>

lemma bit_loops_end:
  assumes "2 \<le> d"
  shows "0 < sz \<Longrightarrow> n \<le> sz * 2 ^ fuel \<Longrightarrow> bit_height_loop fuel d n h sz \<noteq> None"
    and "0 < sz \<Longrightarrow> n \<le> sz * 2 ^ fuel \<Longrightarrow> bit_array_len_loop fuel d n len sz \<noteq> None"
proof (induction fuel arbitrary: h len sz)
  case 0
  {
    case 1
    then show ?case by (simp add: bit_loops_done)
  next
    case 2
    then show ?case by (simp add: bit_loops_done)
  }
next
  case (Suc fuel)
  have step: "n \<le> sz * d * 2 ^ fuel" if "n \<le> sz * 2 ^ Suc fuel" for sz
  proof -
    have "sz * (2 * 2 ^ fuel) \<le> sz * (d * 2 ^ fuel)" using assms by (intro mult_le_mono) simp_all
    with that show ?thesis by (metis le_trans mult.assoc power_Suc)
  qed
  {
    case 1
    then show ?case
      using Suc.IH(1) [of "sz * d" "h + 1"] step [of sz] assms
      by (cases "sz < n") (simp_all add: bit_loops_step bit_loops_done)
  next
    case 2
    then show ?case
      using Suc.IH(2) [of "sz * d" "h + sz"] step [of sz] assms
      by (cases "sz < n") (simp_all add: bit_loops_step bit_loops_done)
  }
qed

lemma default_bit_height: "bit_height DEFAULT_LSM_FILE_CAPACITY DEFAULT_BIT_DEGREE = Some 3"
  by (simp add: bit_height_def bit_nr_leaf_def layout_consts bit_loops_step(1) bit_loops_done(1))

lemma default_bit_size:
  "calculate_bit_size DEFAULT_LSM_FILE_CAPACITY DEFAULT_BIT_DEGREE = Some 5815513"
  by (simp add: calculate_bit_size_def bit_array_len_def bit_nr_leaf_def layout_consts
      bit_loops_step(2) bit_loops_done(2))

lemma BIT_FILE_SIZE_eq: "BIT_FILE_SIZE = 5815513"
  by (simp add: BIT_FILE_SIZE_def default_bit_size)

section \<open>Block counts of the tables\<close>

definition bytes_to_block :: "nat \<Rightarrow> nat \<Rightarrow> nat" where
  "bytes_to_block bytes block_size = (if bytes = 0 then 0 else (bytes - 1) div block_size + 1)"

fun total_bit_loop :: "nat list \<Rightarrow> nat \<Rightarrow> nat \<Rightarrow> nat \<Rightarrow> nat" where
  "total_bit_loop [] common_ratio capacity ttl = ttl"
| "total_bit_loop (i # rest) common_ratio capacity ttl =
     total_bit_loop rest common_ratio (capacity div common_ratio)
       (ttl + (if capacity > 0 then (capacity - 1) div DEFAULT_LSM_FILE_CAPACITY + 1 else 0))"

definition total_bit :: "nat \<Rightarrow> nat \<Rightarrow> nat \<Rightarrow> nat" where
  "total_bit nr_disk_level common_ratio max_disk_level_capacity =
     total_bit_loop [1..<nr_disk_level] common_ratio max_disk_level_capacity 0
       + DEFAULT_LSM_LEVEL0_NR_FILE"

definition extra_bit :: "nat \<Rightarrow> nat" where
  "extra_bit max_disk_level_capacity =
     total_bit 2 LSM_TREE_DISK_LEVEL_COMMON_RATIO max_disk_level_capacity"

definition index_region_blocks :: "nat \<Rightarrow> nat \<Rightarrow> nat \<Rightarrow> nat" where
  "index_region_blocks nr_disk_level common_ratio max_disk_level_capacity =
     bytes_to_block
       ((total_bit nr_disk_level common_ratio max_disk_level_capacity
          + extra_bit max_disk_level_capacity) * BIT_FILE_SIZE) METADATA_BLOCK_SIZE"

definition seg_validity_table_blocks :: "nat \<Rightarrow> nat" where
  "seg_validity_table_blocks nr_segment =
     (if nr_segment = 0 then 0
      else (((nr_segment - 1) div BITS_PER_LONG + 1) * 8 - 1) div METADATA_BLOCK_SIZE + 1)"

definition data_seg_table_blocks :: "nat \<Rightarrow> nat" where
  "data_seg_table_blocks nr_segment = disk_array_blocks nr_segment DST_ENTRY_SIZE METADATA_BLOCK_SIZE"

definition reverse_index_table_blocks :: "nat \<Rightarrow> nat" where
  "reverse_index_table_blocks nr_block =
     disk_array_blocks nr_block REVERSE_INDEX_ENTRY_SIZE METADATA_BLOCK_SIZE"

definition bit_catalogue_blocks :: "nat \<Rightarrow> nat" where
  "bit_catalogue_blocks nr_fd = disk_array_blocks nr_fd FILE_STAT_SIZE METADATA_BLOCK_SIZE"

definition calc_metadata_blocks :: "nat \<Rightarrow> nat" where
  "calc_metadata_blocks nr_segment =
     (let cap = nr_segment * BLOCKS_PER_SEGMENT;
          nr_bits = total_bit DEFAULT_LSM_TREE_NR_DISK_LEVEL LSM_TREE_DISK_LEVEL_COMMON_RATIO cap
            + extra_bit cap
      in STRUCTURE_BLOCKS SUPERBLOCK_SIZE
         + index_region_blocks DEFAULT_LSM_TREE_NR_DISK_LEVEL LSM_TREE_DISK_LEVEL_COMMON_RATIO cap
         + NR_JOURNAL_SEGMENT * BLOCKS_PER_SEGMENT
         + seg_validity_table_blocks nr_segment * NR_CHECKPOINT_PACKS
         + data_seg_table_blocks nr_segment * NR_CHECKPOINT_PACKS
         + reverse_index_table_blocks (nr_segment * BLOCKS_PER_SEGMENT) * NR_CHECKPOINT_PACKS
         + seg_validity_table_blocks nr_bits * NR_CHECKPOINT_PACKS
         + bit_catalogue_blocks nr_bits * NR_CHECKPOINT_PACKS)"

section \<open>The superblock\<close>

record superblock =
  sb_csum :: nat
  sb_magic :: nat
  sb_blocks_per_seg :: nat
  sb_nr_segment :: nat
  sb_data_start :: nat
  sb_common_ratio :: nat
  sb_nr_disk_level :: nat
  sb_max_disk_level_capacity :: nat
  sb_index_region_start :: nat
  sb_journal_size :: nat
  sb_nr_journal :: nat
  sb_record_start :: nat
  sb_record_end :: nat
  sb_last_checkpoint_pack :: nat
  sb_journal_region_start :: nat
  sb_seg_validity_table_start :: nat
  sb_data_seg_table_start :: nat
  sb_reverse_index_table_start :: nat
  sb_block_index_table_catalogue_start :: nat

text \<open>
  The branch of \<^verbatim>\<open>superblock_init\<close> that formats: the fields it assigns.  \<open>journal_size\<close> and \<open>max_records\<close>
  are \<^verbatim>\<open>sizeof(struct journal_record)\<close> and \<^verbatim>\<open>MAX_RECORDS\<close>.  The structure comes from \<^verbatim>\<open>kmalloc\<close>, so \<open>this\<close>
  is what the memory held: the checksum, which the write fills in, and \<^verbatim>\<open>last_checkpoint_pack\<close>, which nothing
  sets before the first checkpoint, keep it.
\<close>

definition superblock_format :: "nat \<Rightarrow> nat \<Rightarrow> nat \<Rightarrow> superblock \<Rightarrow> superblock" where
  "superblock_format journal_size max_records NR_SEGMENT this =
     (let nr_segment = NR_SEGMENT + NR_GC_PRESERVED;
          common_ratio = LSM_TREE_DISK_LEVEL_COMMON_RATIO;
          nr_disk_level = DEFAULT_LSM_TREE_NR_DISK_LEVEL;
          max_disk_level_capacity = nr_segment * BLOCKS_PER_SEGMENT;
          index_region_start = SUPERBLOCK_LOCATION + STRUCTURE_BLOCKS SUPERBLOCK_SIZE;
          journal_region_start = index_region_start
            + index_region_blocks nr_disk_level common_ratio max_disk_level_capacity;
          seg_validity_table_start = journal_region_start + NR_JOURNAL_SEGMENT * BLOCKS_PER_SEGMENT;
          data_seg_table_start = seg_validity_table_start
            + seg_validity_table_blocks nr_segment * NR_CHECKPOINT_PACKS;
          reverse_index_table_start = data_seg_table_start
            + data_seg_table_blocks nr_segment * NR_CHECKPOINT_PACKS;
          block_index_table_catalogue_start = reverse_index_table_start
            + reverse_index_table_blocks (nr_segment * BLOCKS_PER_SEGMENT) * NR_CHECKPOINT_PACKS;
          nr_bits = total_bit nr_disk_level common_ratio max_disk_level_capacity
            + extra_bit max_disk_level_capacity;
          data_start = block_index_table_catalogue_start
            + (seg_validity_table_blocks nr_bits + bit_catalogue_blocks nr_bits) * NR_CHECKPOINT_PACKS
      in this\<lparr>sb_magic := SUPERBLOCK_MAGIC, sb_blocks_per_seg := BLOCKS_PER_SEGMENT,
          sb_nr_segment := nr_segment, sb_common_ratio := common_ratio, sb_nr_disk_level := nr_disk_level,
          sb_max_disk_level_capacity := max_disk_level_capacity,
          sb_index_region_start := index_region_start,
          sb_journal_size := journal_size, sb_nr_journal := max_records,
          sb_record_start := 0, sb_record_end := 0,
          sb_journal_region_start := journal_region_start,
          sb_seg_validity_table_start := seg_validity_table_start,
          sb_data_seg_table_start := data_seg_table_start,
          sb_reverse_index_table_start := reverse_index_table_start,
          sb_block_index_table_catalogue_start := block_index_table_catalogue_start,
          sb_data_start := data_start\<rparr>)"

text \<open>
  Reading and writing.  The bytes of a structure are the structure; \<open>crc\<close> is the kernel's \<^verbatim>\<open>crc32_be\<close>
  over the bytes from \<^verbatim>\<open>magic\<close> to the end of \<^verbatim>\<open>SUPERBLOCK_ENCRYPTED_SIZE\<close>, which are all fields but the checksum,
  \<^verbatim>\<open>last_checkpoint_pack\<close> among them; \<open>enc\<close> and \<open>dec\<close> are the authenticated cipher under the root key
  and IV (a ciphertext paired with its tag), and \<open>rd\<close>, \<open>wr\<close> the buffer of block 0 in the dm-bufio
  client with state \<open>'s\<close>.  The code decrypts in the buffer itself; it does not mark it dirty, reads it once for
  each client, and every write replaces the ciphertext and the tag.
\<close>

unbundle bit_operations_syntax

definition SUPERBLOCK_CSUM_XOR :: nat where "SUPERBLOCK_CSUM_XOR = 0x3828"

definition crc32_checksum :: "(superblock \<Rightarrow> nat) \<Rightarrow> superblock \<Rightarrow> nat" where
  "crc32_checksum crc sb = crc (sb\<lparr>sb_csum := 0\<rparr>) XOR SUPERBLOCK_CSUM_XOR"

record ('d, 's) sb_env =
  se_crc :: "superblock \<Rightarrow> nat"
  se_enc :: "superblock \<Rightarrow> 'd result"
  se_dec :: "'d \<Rightarrow> superblock result"
  se_rd :: "'s \<Rightarrow> (errno option + 'd) \<times> 's"
  se_wr :: "'d \<Rightarrow> 's \<Rightarrow> 's"

text \<open>
  A read assigns every field of the structure in memory but \<^verbatim>\<open>last_checkpoint_pack\<close>.
\<close>

definition superblock_read :: "('d, 's) sb_env \<Rightarrow> superblock \<Rightarrow> 's \<Rightarrow> superblock result \<times> 's" where
  "superblock_read env this s =
     (case se_rd env s of
        (Inl e, s1) \<Rightarrow> (Inl (ptr_error e), s1)
      | (Inr data, s1) \<Rightarrow>
     (case se_dec env data of
        Inl r \<Rightarrow> (Inl r, s1)
      | Inr disk_super \<Rightarrow> (Inr (disk_super\<lparr>sb_last_checkpoint_pack := sb_last_checkpoint_pack this\<rparr>), s1)))"

text \<open>
  The checksum of a write covers whatever \<^verbatim>\<open>last_checkpoint_pack\<close> holds.  When the encryption fails the code keeps the
  new checksum in memory, where only the check after a read looks at it; the model answers the error alone.
\<close>

definition superblock_write ::
  "('d, 's) sb_env \<Rightarrow> superblock \<Rightarrow> 's \<Rightarrow> superblock result \<times> 's" where
  "superblock_write env sb s =
     (case se_rd env s of
        (Inl e, s1) \<Rightarrow> (Inl (ptr_error e), s1)
      | (Inr _, s1) \<Rightarrow>
          let sb1 = sb\<lparr>sb_csum := crc32_checksum (se_crc env) sb\<rparr>
          in case se_enc env sb1 of
               Inl e \<Rightarrow> (Inl e, s1)
             | Inr data \<Rightarrow> (Inr sb1, se_wr env data s1))"

definition superblock_validate :: "('d, 's) sb_env \<Rightarrow> superblock \<Rightarrow> bool" where
  "superblock_validate env sb \<longleftrightarrow>
     sb_magic sb = SUPERBLOCK_MAGIC \<and> crc32_checksum (se_crc env) sb = sb_csum sb"

definition superblock_init ::
  "('d, 's) sb_env \<Rightarrow> nat \<Rightarrow> nat \<Rightarrow> nat \<Rightarrow> bool \<Rightarrow> superblock \<Rightarrow> 's \<Rightarrow> superblock result \<times> 's" where
  "superblock_init env journal_size max_records NR_SEGMENT fmt this s =
     (if fmt then superblock_write env (superblock_format journal_size max_records NR_SEGMENT this) s
      else case superblock_read env this s of
             (Inl e, s1) \<Rightarrow> (Inl e, s1)
           | (Inr sb, s1) \<Rightarrow> (if superblock_validate env sb then Inr sb else Inl EACCES, s1))"

text \<open>What is relied on: the cipher opens what it sealed, the buffer gives back what was stored.\<close>

definition sb_env_ok :: "('d, 's) sb_env \<Rightarrow> bool" where
  "sb_env_ok env \<longleftrightarrow> (\<forall>sb d. se_enc env sb = Inr d \<longrightarrow> se_dec env d = Inr sb) \<and>
     (\<forall>d s. \<exists>s'. se_rd env (se_wr env d s) = (Inr d, s'))"

text \<open>Memory of zeros, for the examples.\<close>

definition zero_sb :: superblock where
  "zero_sb = \<lparr>sb_csum = 0, sb_magic = 0, sb_blocks_per_seg = 0, sb_nr_segment = 0, sb_data_start = 0, sb_common_ratio = 0,
     sb_nr_disk_level = 0, sb_max_disk_level_capacity = 0, sb_index_region_start = 0, sb_journal_size = 0, sb_nr_journal = 0,
     sb_record_start = 0, sb_record_end = 0, sb_last_checkpoint_pack = 0, sb_journal_region_start = 0,
     sb_seg_validity_table_start = 0, sb_data_seg_table_start = 0, sb_reverse_index_table_start = 0,
     sb_block_index_table_catalogue_start = 0\<rparr>"

lemma format_memory:
  "(superblock_format jsz mrec n mem)\<lparr>sb_csum := c\<rparr> = superblock_format jsz mrec n (mem\<lparr>sb_csum := c\<rparr>)"
  "sb_last_checkpoint_pack (superblock_format jsz mrec n mem) = sb_last_checkpoint_pack mem"
  "sb_magic (superblock_format jsz mrec n mem) = SUPERBLOCK_MAGIC"
  "sb_csum (superblock_format jsz mrec n mem) = sb_csum mem"
  by (simp_all add: superblock_format_def Let_def)

lemma format_init_written:
  assumes "superblock_init env jsz mrec n True mem s = (Inr sb, s1)"
  obtains d s2 where "sb = superblock_format jsz mrec n (mem\<lparr>sb_csum := sb_csum sb\<rparr>)"
    and "sb_csum sb = crc32_checksum (se_crc env) sb" and "se_enc env sb = Inr d" and "s1 = se_wr env d s2"
proof -
  let ?f = "superblock_format jsz mrec n mem"
  from assms obtain d s2 where "sb = ?f\<lparr>sb_csum := crc32_checksum (se_crc env) ?f\<rparr>" "se_enc env sb = Inr d" "s1 = se_wr env d s2"
    by (auto simp: superblock_init_def superblock_write_def Let_def split: sum.splits prod.splits)
  then show thesis by (intro that) (simp_all add: format_memory(1,4) crc32_checksum_def)
qed

lemma crc32_checksum_eq_iff:
  "crc32_checksum crc sb = crc32_checksum crc sb' \<longleftrightarrow> crc (sb\<lparr>sb_csum := 0\<rparr>) = crc (sb'\<lparr>sb_csum := 0\<rparr>)"
proof -
  have "(a XOR k) XOR k = a" for a k :: nat by (simp add: xor.assoc)
  then show ?thesis unfolding crc32_checksum_def by metis
qed

text \<open>
  A formatted superblock is opened again in other memory exactly when the checksum does not see that
  \<^verbatim>\<open>last_checkpoint_pack\<close> is what the new memory holds; else it is refused.
\<close>

definition in_memory :: "superblock \<Rightarrow> superblock \<Rightarrow> superblock" where
  "in_memory mem sb = sb\<lparr>sb_last_checkpoint_pack := sb_last_checkpoint_pack mem\<rparr>"

definition same_crc :: "('d, 's) sb_env \<Rightarrow> superblock \<Rightarrow> superblock \<Rightarrow> bool" where
  "same_crc env sb sb' \<longleftrightarrow> se_crc env (sb\<lparr>sb_csum := 0\<rparr>) = se_crc env (sb'\<lparr>sb_csum := 0\<rparr>)"

lemma in_memory_same: "sb_last_checkpoint_pack mem = sb_last_checkpoint_pack sb \<Longrightarrow> in_memory mem sb = sb"
  by (simp add: in_memory_def)

lemma in_memory_simps [simp]:
  "sb_csum (in_memory mem sb) = sb_csum sb" "sb_magic (in_memory mem sb) = sb_magic sb"
  "sb_blocks_per_seg (in_memory mem sb) = sb_blocks_per_seg sb" "sb_nr_segment (in_memory mem sb) = sb_nr_segment sb"
  "sb_data_start (in_memory mem sb) = sb_data_start sb" "sb_common_ratio (in_memory mem sb) = sb_common_ratio sb"
  "sb_nr_disk_level (in_memory mem sb) = sb_nr_disk_level sb"
  "sb_max_disk_level_capacity (in_memory mem sb) = sb_max_disk_level_capacity sb"
  "sb_record_start (in_memory mem sb) = sb_record_start sb" "sb_record_end (in_memory mem sb) = sb_record_end sb"
  "sb_journal_region_start (in_memory mem sb) = sb_journal_region_start sb"
  "sb_index_region_start (in_memory mem sb) = sb_index_region_start sb"
  by (simp_all add: in_memory_def)

lemma superblock_read_Inr:
  "superblock_read env mem s = (Inr sb, s') \<longleftrightarrow>
   (\<exists>d disk. se_rd env s = (Inr d, s') \<and> se_dec env d = Inr disk \<and> sb = in_memory mem disk)"
  by (auto simp: superblock_read_def in_memory_def split: prod.splits sum.splits)

lemma superblock_reload:
  assumes "sb_env_ok env" and "superblock_init env jsz mrec n True mem s = (Inr sb, s1)"
  obtains s2 where "superblock_init env jsz' mrec' n' False mem' s1 =
    (if same_crc env (in_memory mem' sb) sb then Inr (in_memory mem' sb) else Inl EACCES, s2)"
proof -
  from assms(2) obtain d s' where w: "sb = superblock_format jsz mrec n (mem\<lparr>sb_csum := sb_csum sb\<rparr>)"
    "sb_csum sb = crc32_checksum (se_crc env) sb" "se_enc env sb = Inr d" "s1 = se_wr env d s'" by (rule format_init_written)
  obtain s2 where "se_rd env s1 = (Inr d, s2)" "se_dec env d = Inr sb"
    using assms(1) w(3,4) unfolding sb_env_ok_def by metis
  moreover have "sb_magic sb = SUPERBLOCK_MAGIC" by (subst w(1)) (rule format_memory(3))
  then have "superblock_validate env (in_memory mem' sb) \<longleftrightarrow> same_crc env (in_memory mem' sb) sb"
    using crc32_checksum_eq_iff [of "se_crc env" "in_memory mem' sb" sb] w(2)
    by (simp add: superblock_validate_def same_crc_def)
  ultimately show thesis
    by (intro that [of s2]) (simp add: superblock_init_def superblock_read_def in_memory_def)
qed

section \<open>Regions\<close>

text \<open>
  The regions of a layout in order of their place, each with its number of blocks: superblock, index
  files, journal, and the two checkpoint packs of each table.
\<close>

definition regions :: "superblock \<Rightarrow> (nat \<times> nat) list" where
  "regions sb =
     (let cap = sb_max_disk_level_capacity sb; n = sb_nr_segment sb;
          nr_bits = total_bit (sb_nr_disk_level sb) (sb_common_ratio sb) cap + extra_bit cap;
          svt = seg_validity_table_blocks n; dst = data_seg_table_blocks n;
          rit = reverse_index_table_blocks (n * BLOCKS_PER_SEGMENT);
          bvt = seg_validity_table_blocks nr_bits; bitc = bit_catalogue_blocks nr_bits
      in [(SUPERBLOCK_LOCATION, STRUCTURE_BLOCKS SUPERBLOCK_SIZE),
          (sb_index_region_start sb,
             index_region_blocks (sb_nr_disk_level sb) (sb_common_ratio sb) cap),
          (sb_journal_region_start sb, NR_JOURNAL_SEGMENT * BLOCKS_PER_SEGMENT),
          (sb_seg_validity_table_start sb, svt), (sb_seg_validity_table_start sb + svt, svt),
          (sb_data_seg_table_start sb, dst), (sb_data_seg_table_start sb + dst, dst),
          (sb_reverse_index_table_start sb, rit), (sb_reverse_index_table_start sb + rit, rit),
          (sb_block_index_table_catalogue_start sb, bvt),
          (sb_block_index_table_catalogue_start sb + bvt, bvt),
          (sb_block_index_table_catalogue_start sb + 2 * bvt, bitc),
          (sb_block_index_table_catalogue_start sb + 2 * bvt + bitc, bitc),
          (sb_data_start sb, n * BLOCKS_PER_SEGMENT)])"

definition adjacent :: "(nat \<times> nat) list \<Rightarrow> bool" where
  "adjacent rs \<longleftrightarrow> (\<forall>i. Suc i < length rs \<longrightarrow> fst (rs ! i) + snd (rs ! i) = fst (rs ! Suc i))"

lemma adjacent_Cons:
  "adjacent [r]"
  "adjacent (r # s # rs) \<longleftrightarrow> fst r + snd r = fst s \<and> adjacent (s # rs)"
proof -
  show "adjacent [r]" by (simp add: adjacent_def)
  show "adjacent (r # s # rs) \<longleftrightarrow> fst r + snd r = fst s \<and> adjacent (s # rs)"
    unfolding adjacent_def by (auto simp: nth_Cons split: nat.splits)
qed

lemma format_data_start: "sb_data_start (superblock_format jsz mrec n mem) = calc_metadata_blocks (n + NR_GC_PRESERVED)"
  unfolding calc_metadata_blocks_def superblock_format_def Let_def
  by (simp add: SUPERBLOCK_LOCATION_def algebra_simps)

text \<open>
  C25. A format lays the disk out without gap or overlap, and as large as the constructor computed.
  Each region of the superblock a format writes begins where the one before it ends, and the data
  begin exactly \<^verbatim>\<open>calc_metadata_blocks\<close> blocks into the device.
\<close>

theorem superblock_layout_adjacent:
  "adjacent (regions (superblock_format jsz mrec n mem)) \<and>
   sb_data_start (superblock_format jsz mrec n mem) = calc_metadata_blocks (n + NR_GC_PRESERVED)"
proof
  show "adjacent (regions (superblock_format jsz mrec n mem))"
    unfolding regions_def superblock_format_def Let_def
    by (simp add: adjacent_Cons NR_CHECKPOINT_PACKS_def)
qed (rule format_data_start)

text \<open>The groups of a validity table fill its region, and may fill it to the last byte.\<close>

lemma div_512: "(n * 8 - 1) div 4096 = (n - 1) div (512 :: nat)"
proof (cases n)
  case (Suc k)
  have "(k * 8 + 7) div 4096 = k div 512"
    by (simp add: div_mult2_eq [of _ 8 512, simplified])
  then show ?thesis using Suc by simp
qed simp

lemma svt_blocks: "seg_validity_table_blocks n =
    (if n = 0 then 0 else (disk_bitset_nr_group n - 1) div 512 + 1)"
  using div_512 [of "(n - 1) div 64 + 1"]
  by (simp add: seg_validity_table_blocks_def disk_bitset_nr_group_def consts_simps)

text \<open>
  C26. The blocks set aside for a validity table hold all of its groups, but a format of the table
  writes one block more than was set aside exactly when its groups fill their last block: for a
  device of 32768 segments the format of one checkpoint pack begins to overwrite the other.
\<close>

theorem svt_region_holds_groups:
  assumes "0 < n"
  shows "(\<forall>i < disk_bitset_nr_group n. i div (METADATA_BLOCK_SIZE div 8) < seg_validity_table_blocks n) \<and>
    disk_array_blocks (disk_bitset_nr_group n) 8 METADATA_BLOCK_SIZE =
      seg_validity_table_blocks n + (if disk_bitset_nr_group n mod 512 = 0 then 1 else 0)"
proof -
  let ?g = "disk_bitset_nr_group n"
  have g: "0 < ?g" using assms by (simp add: disk_bitset_nr_group_def)
  have b: "seg_validity_table_blocks n = (?g - 1) div 512 + 1" using assms by (simp add: svt_blocks)
  have "i div 512 < seg_validity_table_blocks n" if "i < ?g" for i
  proof -
    have "i div 512 \<le> (?g - 1) div 512" using that by (intro div_le_mono) simp
    then show ?thesis using b by simp
  qed
  moreover have "?g div 512 = (?g - 1) div 512 + (if ?g mod 512 = 0 then 1 else 0)"
    using g by (cases ?g) (auto simp: div_Suc mod_Suc)
  ultimately show ?thesis
    unfolding b by (auto simp: disk_array_blocks_def consts_simps)
qed

theorem svt_region_holds_groups_witness:
  "seg_validity_table_blocks 32768 = 1 \<and>
   disk_array_blocks (disk_bitset_nr_group 32768) 8 METADATA_BLOCK_SIZE = 2"
proof -
  have "seg_validity_table_blocks 32768 = 1" "disk_bitset_nr_group 32768 = 512"
    by (simp_all add: seg_validity_table_blocks_def disk_bitset_nr_group_def consts_simps)
  with svt_region_holds_groups [of 32768] show ?thesis by simp
qed

end
