(* ===== verification/Crypto.thy ===== *)
theory Crypto
  imports Disk_Array
begin

text \<open>
  \<^verbatim>\<open>crypto.c\<close>: the wrappers around the kernel's \<^verbatim>\<open>gcm(aes)\<close> and \<^verbatim>\<open>cbc(aes)\<close>, and \<^verbatim>\<open>meta_write_cb\<close> of
  \<^verbatim>\<open>metadata.c\<close>, which encrypts the metadata blocks on their way to the disk.

  The crypto API, the checksum \<^verbatim>\<open>crc32_be\<close>, the kernel's macro \<^verbatim>\<open>BLOCK_SIZE\<close> and whether a lock or a
  request was obtained are parameters.
\<close>

unbundle bit_operations_syntax

section \<open>Authenticated encryption\<close>

text \<open>
  \<open>ga_lock\<close> is the error of \<^verbatim>\<open>mutex_lock_interruptible\<close>, \<open>ga_request\<close> whether a request could be
  allocated.  Encryption and decryption get key, IV, associated data and the message.
\<close>

record gcm_api =
  ga_lock :: "errno option"
  ga_request :: bool
  ga_setkey :: "byte list \<Rightarrow> errno option"
  ga_encrypt :: "byte list \<Rightarrow> byte list \<Rightarrow> byte list \<Rightarrow> byte list \<Rightarrow> (byte list \<times> byte list) result"
  ga_decrypt :: "byte list \<Rightarrow> byte list \<Rightarrow> byte list \<Rightarrow> byte list \<Rightarrow> byte list \<Rightarrow> byte list result"

text \<open>The bytes of a machine word in memory, least significant first.\<close>

definition le_bytes :: "'a :: len word \<Rightarrow> byte list" where
  "le_bytes w = map (\<lambda>i. ucast (drop_bit (8 * i) w)) [0..<LENGTH('a) div 8]"

definition gcm_iv :: "byte list option \<Rightarrow> byte list" where
  "gcm_iv iv = (case iv of Some v \<Rightarrow> v | None \<Rightarrow> replicate AES_GCM_IV_SIZE 0)"

definition gcm_ad :: "u64 \<Rightarrow> byte list \<Rightarrow> byte list" where
  "gcm_ad seq riv = le_bytes seq @ riv"

text \<open>
  The result with the buffers \<^verbatim>\<open>mac\<close> and \<^verbatim>\<open>out\<close>.  \<open>None\<close> where \<^verbatim>\<open>req\<close> is freed without having been set
  and a mutex unlocked that was not taken.  A request that cannot be allocated leaves \<^verbatim>\<open>r\<close> at \<open>0\<close>.
\<close>

definition aes_gcm_cipher_encrypt ::
  "gcm_api \<Rightarrow> byte list \<Rightarrow> byte list \<Rightarrow> byte list option \<Rightarrow> byte list \<Rightarrow> u64 \<Rightarrow> byte list \<Rightarrow>
   (unit result \<times> byte list \<times> byte list) option" where
  "aes_gcm_cipher_encrypt api data key iv mac seq out =
     (let riv = gcm_iv iv
      in if ga_lock api \<noteq> None then None
         else if \<not> ga_request api then Some (Inr (), mac, out)
         else case ga_setkey api key of
                Some e \<Rightarrow> Some (Inl e, mac, out)
              | None \<Rightarrow>
                  (case ga_encrypt api key riv (gcm_ad seq riv) data of
                     Inl e \<Rightarrow> Some (Inl e, mac, out)
                   | Inr (out', mac') \<Rightarrow> Some (Inr (), mac', out')))"

definition aes_gcm_cipher_decrypt ::
  "gcm_api \<Rightarrow> byte list \<Rightarrow> byte list \<Rightarrow> byte list option \<Rightarrow> byte list \<Rightarrow> u64 \<Rightarrow> byte list \<Rightarrow>
   (unit result \<times> byte list) option" where
  "aes_gcm_cipher_decrypt api data key iv mac seq out =
     (let riv = gcm_iv iv
      in if ga_lock api \<noteq> None then None
         else if \<not> ga_request api then Some (Inr (), out)
         else case ga_setkey api key of
                Some e \<Rightarrow> Some (Inl e, out)
              | None \<Rightarrow>
                  (case ga_decrypt api key riv (gcm_ad seq riv) data mac of
                     Inl e \<Rightarrow> Some (Inl e, out)
                   | Inr out' \<Rightarrow> Some (Inr (), out')))"

section \<open>Block encryption\<close>

datatype cbc_op = AES_CBC_ENCRYPT | AES_CBC_DECRYPT

record cbc_api =
  ca_BLOCK_SIZE :: int
  ca_crc32_be :: "32 word \<Rightarrow> byte list \<Rightarrow> 32 word"
  ca_lock :: "errno option"
  ca_setkey :: "byte list \<Rightarrow> errno option"
  ca_crypt :: "cbc_op \<Rightarrow> byte list \<Rightarrow> byte list \<Rightarrow> byte list \<Rightarrow> byte list result"

definition AES_CBC_IV_SIZE :: nat where "AES_CBC_IV_SIZE = 16"
definition AES_CBC_BLOCK_MASK :: int where "AES_CBC_BLOCK_MASK = 15"

text \<open>The seed is narrowed to 32 bits by the call; each word is computed over the words before it.\<close>

fun generate_iv_loop :: "(32 word \<Rightarrow> byte list \<Rightarrow> 32 word) \<Rightarrow> u64 \<Rightarrow> nat \<Rightarrow> nat \<Rightarrow> byte list \<Rightarrow> byte list" where
  "generate_iv_loop crc seed p 0 iv = iv"
| "generate_iv_loop crc seed p (Suc round) iv =
     generate_iv_loop crc seed (p + 4) round (overwrite p (le_bytes (crc (ucast seed) iv)) iv)"

definition generate_iv :: "(32 word \<Rightarrow> byte list \<Rightarrow> 32 word) \<Rightarrow> u64 \<Rightarrow> nat \<Rightarrow> byte list" where
  "generate_iv crc seed len = generate_iv_loop crc seed 0 (len div 4) (replicate len 0)"

definition cbc_aligned :: "int \<Rightarrow> int" where
  "cbc_aligned len =
     (if len AND AES_CBC_BLOCK_MASK \<noteq> 0
      then ((len OR AES_CBC_BLOCK_MASK) XOR AES_CBC_BLOCK_MASK) + 1 else len)"

text \<open>
  The result with the buffer \<^verbatim>\<open>dst\<close>; \<open>src\<close> and \<open>dst\<close> are the memory from the pointers on, of which the
  first (aligned) \<open>len\<close> bytes take part.
\<close>

definition aes_cbc_cipher_helper ::
  "cbc_api \<Rightarrow> cbc_op \<Rightarrow> byte list \<Rightarrow> int \<Rightarrow> byte list \<Rightarrow> byte list option \<Rightarrow> u64 \<Rightarrow> byte list \<Rightarrow>
   unit result \<times> byte list" where
  "aes_cbc_cipher_helper api opr src len key iv seq dst =
     (if len \<le> 0 \<or> len > ca_BLOCK_SIZE api then (Inl EINVAL, dst)
      else
        let n = nat (cbc_aligned len);
            riv = (case iv of Some v \<Rightarrow> take AES_CBC_IV_SIZE v
                   | None \<Rightarrow> generate_iv (ca_crc32_be api) seq AES_CBC_IV_SIZE)
        in case ca_lock api of
             Some e \<Rightarrow> (Inl e, dst)
           | None \<Rightarrow>
               (case ca_setkey api key of
                  Some e \<Rightarrow> (Inl e, dst)
                | None \<Rightarrow>
                    (case ca_crypt api opr key riv (take n src) of
                       Inl e \<Rightarrow> (Inl e, dst)
                     | Inr out \<Rightarrow> (Inr (), overwrite 0 out dst))))"

definition aes_cbc_cipher_encrypt ::
  "cbc_api \<Rightarrow> byte list \<Rightarrow> int \<Rightarrow> byte list \<Rightarrow> byte list option \<Rightarrow> u64 \<Rightarrow> byte list \<Rightarrow> unit result \<times> byte list" where
  "aes_cbc_cipher_encrypt api = aes_cbc_cipher_helper api AES_CBC_ENCRYPT"

definition aes_cbc_cipher_decrypt ::
  "cbc_api \<Rightarrow> byte list \<Rightarrow> int \<Rightarrow> byte list \<Rightarrow> byte list option \<Rightarrow> u64 \<Rightarrow> byte list \<Rightarrow> unit result \<times> byte list" where
  "aes_cbc_cipher_decrypt api = aes_cbc_cipher_helper api AES_CBC_DECRYPT"

text \<open>What is left in the buffer of block \<open>seq\<close> when dm-bufio writes it.  The result is not looked at.\<close>

definition meta_write_cb :: "cbc_api \<Rightarrow> disk_array option \<Rightarrow> byte list \<Rightarrow> u64 \<Rightarrow> byte list" where
  "meta_write_cb api array data seq =
     (case array of
        None \<Rightarrow> data
      | Some a \<Rightarrow> snd (aes_cbc_cipher_encrypt api data (int METADATA_BLOCK_SIZE) (da_key a) None seq data))"

text \<open>The decryption in place of \<^verbatim>\<open>disk_array_get\<close> and \<^verbatim>\<open>disk_array_set\<close>.\<close>

definition meta_read :: "cbc_api \<Rightarrow> disk_array \<Rightarrow> byte list \<Rightarrow> u64 \<Rightarrow> byte list" where
  "meta_read api a data seq =
     snd (aes_cbc_cipher_decrypt api data (int METADATA_BLOCK_SIZE) (da_key a) None seq data)"

section \<open>What is relied on\<close>

definition gcm_ok :: "gcm_api \<Rightarrow> bool" where
  "gcm_ok api \<longleftrightarrow> (\<forall>key iv ad data out mac. ga_encrypt api key iv ad data = Inr (out, mac) \<longrightarrow>
     ga_decrypt api key iv ad out mac = Inr data)"

definition cbc_ok :: "cbc_api \<Rightarrow> bool" where
  "cbc_ok api \<longleftrightarrow> ca_lock api = None \<and> (\<forall>key. ca_setkey api key = None) \<and>
     (\<forall>key iv data. length data mod 16 = 0 \<longrightarrow>
        (\<exists>out. ca_crypt api AES_CBC_ENCRYPT key iv data = Inr out \<and> length out = length data \<and>
           ca_crypt api AES_CBC_DECRYPT key iv out = Inr data))"

lemma overwrite_all [simp]: "length out = length data \<Longrightarrow> overwrite 0 out data = out"
  by (simp add: overwrite_def)

lemma cbc_aligned_16: "len mod 16 = 0 \<Longrightarrow> cbc_aligned len = len"
  using take_bit_eq_mask [of 4 len] by (simp add: cbc_aligned_def AES_CBC_BLOCK_MASK_def take_bit_eq_mod mask_eq_exp_minus_1)

lemma cbc_helper_in_place:
  assumes "cbc_ok api" and "0 < len" "int len \<le> ca_BLOCK_SIZE api" "len mod 16 = 0" "length data = len"
  shows "\<exists>out. aes_cbc_cipher_helper api AES_CBC_ENCRYPT data (int len) key iv seq data = (Inr (), out) \<and>
    ca_crypt api AES_CBC_ENCRYPT key (case iv of Some v \<Rightarrow> take AES_CBC_IV_SIZE v
      | None \<Rightarrow> generate_iv (ca_crc32_be api) seq AES_CBC_IV_SIZE) data = Inr out \<and>
    length out = len \<and> aes_cbc_cipher_helper api AES_CBC_DECRYPT out (int len) key iv seq out = (Inr (), data)"
proof -
  define riv where "riv = (case iv of Some v \<Rightarrow> take AES_CBC_IV_SIZE v | None \<Rightarrow> generate_iv (ca_crc32_be api) seq AES_CBC_IV_SIZE)"
  have c: "ca_lock api = None" "ca_setkey api key = None" using assms(1) by (simp_all add: cbc_ok_def)
  obtain out where o: "ca_crypt api AES_CBC_ENCRYPT key riv data = Inr out" "length out = length data"
    "ca_crypt api AES_CBC_DECRYPT key riv out = Inr data"
    using assms(1,4,5) unfolding cbc_ok_def by (elim conjE) (metis (full_types))
  have a: "cbc_aligned (int len) = int len" by (rule cbc_aligned_16) (use assms(4) in presburger)
  show ?thesis
    using assms(2,3,5) o by (intro exI [of _ out]) (simp add: aes_cbc_cipher_helper_def a c Let_def riv_def [symmetric])
qed

section \<open>Properties\<close>


text \<open>A cipher that adds the length of the key to every byte.\<close>

definition demo_gcm :: gcm_api where
  "demo_gcm = \<lparr>ga_lock = None, ga_request = True, ga_setkey = (\<lambda>_. None),
     ga_encrypt = (\<lambda>key iv ad data. Inr (map (\<lambda>b. b + of_nat (length key)) data, ad)),
     ga_decrypt = (\<lambda>key iv ad data mac. if mac = ad then Inr (map (\<lambda>b. b - of_nat (length key)) data) else Inl EBADMSG)\<rparr>"

lemma demo_gcm_ok: "gcm_ok demo_gcm"
  by (simp add: gcm_ok_def demo_gcm_def comp_def)


text \<open>
  C33. Metadata blocks on their way to the disk and back.  If blocks of 4096 bytes are within
  \<^verbatim>\<open>BLOCK_SIZE\<close>, encryption succeeds, and what is written is what the algorithm makes of the block under the key
  of the table and the IV made from the block number; reading it back gives the block.  If they are not, as with the
  kernel's value of 1024, both directions refuse with \<^verbatim>\<open>EINVAL\<close>, which nobody looks at: the block goes to the
  disk as plain text, and what is on the disk is taken as it is.  A block of no table is written as it is.
\<close>

theorem metadata_block_cipher:
  assumes "cbc_ok api" and "length data = METADATA_BLOCK_SIZE"
  shows "meta_write_cb api None data seq = data \<and>
    (if int METADATA_BLOCK_SIZE \<le> ca_BLOCK_SIZE api
     then aes_cbc_cipher_encrypt api data (int METADATA_BLOCK_SIZE) (da_key a) None seq data =
            (Inr (), meta_write_cb api (Some a) data seq) \<and>
          ca_crypt api AES_CBC_ENCRYPT (da_key a) (generate_iv (ca_crc32_be api) seq AES_CBC_IV_SIZE) data =
            Inr (meta_write_cb api (Some a) data seq) \<and>
          meta_read api a (meta_write_cb api (Some a) data seq) seq = data
     else aes_cbc_cipher_encrypt api data (int METADATA_BLOCK_SIZE) (da_key a) None seq data = (Inl EINVAL, data) \<and>
          aes_cbc_cipher_decrypt api data (int METADATA_BLOCK_SIZE) (da_key a) None seq data = (Inl EINVAL, data) \<and>
          meta_write_cb api (Some a) data seq = data \<and> meta_read api a data seq = data)"
proof (cases "int METADATA_BLOCK_SIZE \<le> ca_BLOCK_SIZE api")
  case True
  have "0 < METADATA_BLOCK_SIZE" "METADATA_BLOCK_SIZE mod 16 = 0" by (simp_all add: METADATA_BLOCK_SIZE_def)
  from cbc_helper_in_place [OF assms(1) this(1) True this(2) assms(2), of "da_key a" None seq] True show ?thesis
    by (auto simp: meta_write_cb_def meta_read_def aes_cbc_cipher_encrypt_def aes_cbc_cipher_decrypt_def)
next
  case False
  then show ?thesis
    by (simp add: meta_write_cb_def meta_read_def aes_cbc_cipher_encrypt_def aes_cbc_cipher_decrypt_def
        aes_cbc_cipher_helper_def)
qed

definition demo_cbc :: "int \<Rightarrow> cbc_api" where
  "demo_cbc limit = \<lparr>ca_BLOCK_SIZE = limit, ca_crc32_be = (\<lambda>s d. s), ca_lock = None, ca_setkey = (\<lambda>_. None),
     ca_crypt = (\<lambda>opr key iv data. Inr (map NOT data))\<rparr>"

lemma demo_cbc_ok: "cbc_ok (demo_cbc limit)"
  by (simp add: cbc_ok_def demo_cbc_def comp_def)

definition demo_block :: "byte list" where
  "demo_block = replicate METADATA_BLOCK_SIZE 7"

theorem metadata_block_cipher_witness:
  "meta_write_cb (demo_cbc 1024) (Some (disk_array_init [] 0 8 8)) demo_block 3 = demo_block \<and>
   meta_write_cb (demo_cbc 4096) (Some (disk_array_init [] 0 8 8)) demo_block 3 = map NOT demo_block \<and>
   meta_read (demo_cbc 4096) (disk_array_init [] 0 8 8)
     (meta_write_cb (demo_cbc 4096) (Some (disk_array_init [] 0 8 8)) demo_block 3) 3 = demo_block"
proof -
  have l: "length demo_block = METADATA_BLOCK_SIZE" by (simp add: demo_block_def)
  have b: "ca_BLOCK_SIZE (demo_cbc n) = n" "ca_crypt (demo_cbc n) = (\<lambda>opr key iv data. Inr (map NOT data))" for n
    by (simp_all add: demo_cbc_def)
  show ?thesis
    using metadata_block_cipher [OF demo_cbc_ok l, of 1024 3 "disk_array_init [] 0 8 8"]
      metadata_block_cipher [OF demo_cbc_ok l, of 4096 3 "disk_array_init [] 0 8 8"]
    by (simp add: b METADATA_BLOCK_SIZE_def)
qed

text \<open>The rounding of a length that is no multiple of 16: it never becomes one.\<close>

lemma cbc_aligned_value:
  assumes "0 \<le> len" and "len mod 16 \<noteq> 0"
  shows "cbc_aligned len = 16 * (len div 16) + 1" and "cbc_aligned len mod 16 = 1"
proof -
  have m: "len AND 15 = len mod 16" for len :: int
    using take_bit_eq_mask [of 4 len] by (simp add: take_bit_eq_mod mask_eq_exp_minus_1)
  have "(len OR mask 4) XOR mask 4 = push_bit 4 (drop_bit 4 len)"
    by (rule bit_eqI) (auto simp: bit_simps)
  then have "(len OR 15) XOR 15 = 16 * (len div 16)"
    by (simp add: mask_eq_exp_minus_1 push_bit_eq_mult drop_bit_eq_div)
  then show v: "cbc_aligned len = 16 * (len div 16) + 1"
    using assms(2) m [of len] by (simp add: cbc_aligned_def AES_CBC_BLOCK_MASK_def)
  show "cbc_aligned len mod 16 = 1" unfolding v by presburger
qed

end
