(* ===== verification/Dm_Params.thy ===== *)
theory Dm_Params
  imports Layout Crypto
begin

text \<open>
  How the keys travel from the command line tool to the kernel module: \<^verbatim>\<open>utils_hex.c\<close>, \<^verbatim>\<open>vk.c\<close> and
  \<^verbatim>\<open>get_dm_jindisk_params\<close> of \<^verbatim>\<open>dm.c\<close> print them into the parameters of a device-mapper table line,
  \<^verbatim>\<open>dm_jindisk_target_ctr\<close> of \<^verbatim>\<open>dm-jindisk.c\<close> reads them.  \<^verbatim>\<open>btox\<close> of \<^verbatim>\<open>crypto.c\<close> prints keys for messages.

  Strings are lists of bytes without the terminating zero.  The kernel's \<^verbatim>\<open>hex2bin\<close> and \<^verbatim>\<open>kstrtoul\<close> are
  written out; how device-mapper splits the line into arguments is a parameter.
\<close>

section \<open>Hexadecimal digits\<close>

definition hex2asc :: "byte \<Rightarrow> byte" where
  "hex2asc c = ucast ((ucast c :: 32 word) + 48 + (drop_bit 4 (9 - (ucast c :: 32 word)) AND 0x27))"

text \<open>\<open>None\<close> is \<^verbatim>\<open>NULL\<close>; \<open>bytes\<close> the memory the pointer refers to, of which \<open>n\<close> bytes are read.\<close>

definition crypt_bytes_to_hex :: "nat \<Rightarrow> byte list option \<Rightarrow> byte list option" where
  "crypt_bytes_to_hex n bytes =
     (if n \<noteq> 0 \<and> bytes = None then None
      else if n = 0 then Some [45]
      else Some (concat (map (\<lambda>b. [hex2asc (drop_bit 4 b), hex2asc (b AND 0xf)]) (take n (the bytes)))))"

definition btox_digits :: "byte list" where
  "btox_digits = map (\<lambda>i. if i < 10 then of_nat (48 + i) else of_nat (55 + i)) [0..<16]"

text \<open>\<^verbatim>\<open>bb\<close> is a pointer to \<^verbatim>\<open>char\<close>, the shift acts on the value extended with its sign.\<close>

definition btox_digit :: "byte list \<Rightarrow> nat \<Rightarrow> byte" where
  "btox_digit bb n =
     btox_digits ! unat ((signed_drop_bit (4 * (1 - n mod 2)) (scast (bb ! (n div 2)) :: 32 word)) AND 0xf)"

fun btox :: "byte list \<Rightarrow> byte list \<Rightarrow> nat \<Rightarrow> byte list" where
  "btox xp bb 0 = xp"
| "btox xp bb (Suc n) = btox (xp[n := btox_digit bb n]) bb n"

definition hex_to_bin :: "byte \<Rightarrow> byte option" where
  "hex_to_bin ch =
     (if 48 \<le> ch \<and> ch \<le> 57 then Some (ch - 48)
      else if 97 \<le> ch \<and> ch \<le> 102 then Some (ch - 87)
      else if 65 \<le> ch \<and> ch \<le> 70 then Some (ch - 55) else None)"

text \<open>\<open>None\<close> is a negative result, also where the string ends too early.\<close>

fun hex2bin :: "byte list \<Rightarrow> nat \<Rightarrow> byte list option" where
  "hex2bin src 0 = Some []"
| "hex2bin (a # b # src) (Suc count) =
     (case (hex_to_bin a, hex_to_bin b) of
        (Some hi, Some lo) \<Rightarrow> map_option ((#) (push_bit 4 hi OR lo)) (hex2bin src count)
      | _ \<Rightarrow> None)"
| "hex2bin _ (Suc count) = None"

section \<open>Numbers\<close>

fun decimal :: "nat \<Rightarrow> byte list" where
  "decimal n = (if n < 10 then [of_nat (48 + n)] else decimal (n div 10) @ [of_nat (48 + n mod 10)])"

declare decimal.simps [simp del]

text \<open>\<^verbatim>\<open>kstrtoul\<close> with base 10: an optional plus sign, digits, an optional newline.\<close>

definition digit_value :: "byte \<Rightarrow> nat" where
  "digit_value c = unat c - 48"

definition is_digit :: "byte \<Rightarrow> bool" where
  "is_digit c \<longleftrightarrow> 48 \<le> c \<and> c \<le> 57"

definition kstrtoul :: "byte list \<Rightarrow> nat option" where
  "kstrtoul s =
     (let s1 = (if s \<noteq> [] \<and> hd s = 43 then tl s else s);
          ds = takeWhile is_digit s1;
          rest = dropWhile is_digit s1;
          val = foldl (\<lambda>v c. 10 * v + digit_value c) 0 ds
      in if ds = [] \<or> val \<ge> 2 ^ 64 \<or> \<not> (rest = [] \<or> rest = [10]) then None else Some val)"

section \<open>The volume key and the parameters\<close>

record volume_key =
  vk_keylength :: nat
  vk_key :: "byte list"

text \<open>\<open>struct_size\<close> is \<^verbatim>\<open>sizeof(struct volume_key)\<close>.\<close>

definition crypt_alloc_volume_key :: "nat \<Rightarrow> nat \<Rightarrow> byte list option \<Rightarrow> volume_key option" where
  "crypt_alloc_volume_key struct_size keylength key =
     (if keylength > (2 ^ 64 - 1) - struct_size then None
      else Some \<lparr>vk_keylength = keylength,
                 vk_key = (case key of Some k \<Rightarrow> take keylength k | None \<Rightarrow> replicate keylength 0)\<rparr>)"

record dm_target =
  tg_path :: "byte list"
  tg_vk :: volume_key
  tg_offset :: nat
  tg_size :: nat
  tg_action_flag :: nat

definition KEYSTR_LEN :: nat where "KEYSTR_LEN = 32"
definition IVSTR_LEN :: nat where "IVSTR_LEN = 24"

text \<open>
  The hexadecimal string is not terminated; \<open>garbage\<close> is what \<^verbatim>\<open>strlen\<close> counts behind it.  The result is
  \<open>None\<close> when the line would not fit its buffer.
\<close>

definition get_dm_jindisk_params :: "nat \<Rightarrow> dm_target \<Rightarrow> byte list option" where
  "get_dm_jindisk_params garbage tgt =
     (case crypt_bytes_to_hex (KEYSTR_LEN + IVSTR_LEN) (Some (vk_key (tg_vk tgt))) of
        None \<Rightarrow> None
      | Some hexkeystr \<Rightarrow>
          let max_size = (length hexkeystr + garbage) + length (tg_path tgt) + 64;
              key = take KEYSTR_LEN hexkeystr;
              iv = take IVSTR_LEN (drop KEYSTR_LEN hexkeystr);
              params = key @ [32] @ iv @ [32] @ tg_path tgt @ [32] @ decimal (tg_action_flag tgt)
          in if length params \<ge> max_size then None else Some params)"

section \<open>The constructor of the target\<close>

text \<open>
  What the constructor asks of the kernel: whether the device is found, its size in sectors, and
  whether each of the parts could be created, in the order of the code (dm-io client, cipher, metadata,
  LSM tree, segment allocator, segment buffer).
\<close>

record ctr_env =
  ce_device :: "byte list \<Rightarrow> nat option"
  ce_io_client :: bool
  ce_cipher :: bool
  ce_metadata :: "byte list \<Rightarrow> byte list \<Rightarrow> nat \<Rightarrow> bool"
  ce_lsm_tree :: bool
  ce_seg_allocator :: bool
  ce_seg_buffer :: bool

record ctr_config =
  cc_root_key :: "byte list"
  cc_root_iv :: "byte list"
  cc_action_flag :: nat
  cc_nr_segment :: nat

text \<open>
  A failure carries \<^verbatim>\<open>ret\<close>, \<open>None\<close> where it has not been set.  \<open>NR_SEGMENT\<close> is the number of segments
  of the target; sums of 64 bit values wrap around.
\<close>

definition ctr_total_sector :: "nat \<Rightarrow> nat" where
  "ctr_total_sector len =
     (calc_metadata_blocks (len div (SECTORS_PER_BLOCK * BLOCKS_PER_SEGMENT) + NR_GC_PRESERVED) * SECTORS_PER_BLOCK +
      len + NR_GC_PRESERVED * (SECTORS_PER_BLOCK * BLOCKS_PER_SEGMENT)) mod 2 ^ 64"

definition dm_jindisk_target_ctr ::
  "ctr_env \<Rightarrow> nat \<Rightarrow> byte list list \<Rightarrow> errno option + ctr_config" where
  "dm_jindisk_target_ctr env len argv =
     (if length argv \<noteq> 4 then Inl (Some EINVAL)
      else case hex2bin (argv ! 0) AES_GCM_KEY_SIZE of
        None \<Rightarrow> Inl (Some EINVAL)
      | Some root_key \<Rightarrow>
          (case hex2bin (argv ! 1) AES_GCM_IV_SIZE of
             None \<Rightarrow> Inl (Some EINVAL)
           | Some root_iv \<Rightarrow>
               (case ce_device env (argv ! 2) of
                  None \<Rightarrow> Inl None
                | Some devsize \<Rightarrow>
                    (case kstrtoul (argv ! 3) of
                       None \<Rightarrow> Inl None
                     | Some action_flag \<Rightarrow>
                         if ctr_total_sector len > devsize then Inl (Some EAGAIN)
                         else if \<not> ce_io_client env then Inl (Some EAGAIN)
                         else if \<not> ce_cipher env then Inl (Some EAGAIN)
                         else if \<not> ce_metadata env root_key root_iv action_flag then Inl (Some EAGAIN)
                         else if \<not> ce_lsm_tree env then Inl (Some EAGAIN)
                         else if \<not> ce_seg_allocator env then Inl (Some EAGAIN)
                         else if \<not> ce_seg_buffer env then Inl (Some EAGAIN)
                         else Inr \<lparr>cc_root_key = root_key, cc_root_iv = root_iv, cc_action_flag = action_flag,
                                   cc_nr_segment = len div (SECTORS_PER_BLOCK * BLOCKS_PER_SEGMENT)\<rparr>))))"


section \<open>Digits read back\<close>

lemma nibble_cases:
  fixes c :: byte
  assumes "unat c < 16"
  shows "c \<in> set (map of_nat [0..<16])"
proof -
  have "c = of_nat (unat c)" by simp
  then show ?thesis using assms by (metis atLeast0LessThan imageI lessThan_iff set_map set_upt)
qed

lemma hex_digit_back:
  fixes c :: byte
  assumes "unat c < 16"
  shows "hex_to_bin (hex2asc c) = Some c"
proof -
  have "\<forall>c \<in> set (map of_nat [0..<16]). hex_to_bin (hex2asc c) = Some (c :: byte)" by code_simp
  then show ?thesis using nibble_cases [OF assms] by blast
qed

lemma byte_nibbles:
  fixes b :: byte
  shows "unat (drop_bit 4 b) < 16" and "unat (b AND 0xf) < 16" and "push_bit 4 (drop_bit 4 b) OR (b AND 0xf) = b"
proof -
  have "unat b < 256" using unsigned_less [of b] by simp
  then show "unat (drop_bit 4 b) < 16" by (simp only: unat_drop_bit_eq) (simp add: drop_bit_eq_div)
  have m: "(0xf :: byte) = mask 4" by (simp add: mask_eq_exp_minus_1)
  have "unat (b AND 0xf) = unat b mod 16"
    unfolding m by (simp only: take_bit_eq_mask [symmetric] unsigned_take_bit_eq) (simp add: take_bit_eq_mod)
  then show "unat (b AND 0xf) < 16" by simp
  show "push_bit 4 (drop_bit 4 b) OR (b AND 0xf) = b"
    unfolding m by (rule bit_eqI) (auto simp: bit_simps)
qed

definition hex_of :: "byte list \<Rightarrow> byte list" where
  "hex_of bs = concat (map (\<lambda>b. [hex2asc (drop_bit 4 b), hex2asc (b AND 0xf)]) bs)"

lemma hex_of_simps [simp]: "hex_of [] = []" "hex_of (b # bs) = hex2asc (drop_bit 4 b) # hex2asc (b AND 0xf) # hex_of bs"
  by (simp_all add: hex_of_def)

lemma length_hex_of [simp]: "length (hex_of bs) = 2 * length bs"
  by (induction bs) simp_all

lemma take_hex_of: "take (2 * n) (hex_of bs) = hex_of (take n bs)"
  by (induction bs arbitrary: n) (auto simp: take_Cons split: nat.split)

lemma drop_hex_of: "drop (2 * n) (hex_of bs) = hex_of (drop n bs)"
  by (induction bs arbitrary: n) (auto simp: drop_Cons split: nat.split)

lemma hex2bin_hex_of: "hex2bin (hex_of bs) (length bs) = Some bs"
  using byte_nibbles by (induction bs) (simp_all add: hex_digit_back)

lemma digit_back: "d < 10 \<Longrightarrow> is_digit (of_nat (48 + d)) \<and> digit_value (of_nat (48 + d)) = d"
proof -
  assume "d < 10"
  then have "unat (of_nat (48 + d) :: byte) = 48 + d" by (simp only: unat_of_nat) simp
  then show ?thesis using \<open>d < 10\<close> unfolding is_digit_def digit_value_def word_le_nat_alt by simp
qed

lemma decimal_digits: "\<forall>c \<in> set (decimal n). is_digit c"
proof (induction n rule: decimal.induct)
  case (1 n)
  then show ?case using digit_back [of n] digit_back [of "n mod 10"] by (subst decimal.simps) auto
qed

lemma decimal_value: "foldl (\<lambda>v c. 10 * v + digit_value c) 0 (decimal n) = n"
proof (induction n rule: decimal.induct)
  case (1 n)
  then show ?case using digit_back [of n] digit_back [of "n mod 10"] by (subst decimal.simps) simp
qed

lemma decimal_nonempty: "decimal n \<noteq> []"
  by (subst decimal.simps) simp

lemma decimal_length: "n < 10 ^ Suc k \<Longrightarrow> length (decimal n) \<le> Suc k"
proof (induction k arbitrary: n)
  case (Suc k)
  show ?case
  proof (cases "n < 10")
    case False
    have "n div 10 < 10 ^ Suc k" using Suc.prems by (simp add: less_mult_imp_div_less)
    then show ?thesis using Suc.IH [of "n div 10"] False by (subst decimal.simps) simp
  qed (subst decimal.simps, simp)
qed (subst decimal.simps, simp)

lemma kstrtoul_decimal:
  assumes "n < 2 ^ 64"
  shows "kstrtoul (decimal n) = Some n"
proof -
  have "is_digit (hd (decimal n))" using decimal_digits [of n] decimal_nonempty [of n] by simp
  then have "hd (decimal n) \<noteq> 43" by (auto simp: is_digit_def)
  moreover have w: "takeWhile is_digit (decimal n) = decimal n" "dropWhile is_digit (decimal n) = []"
    using decimal_digits [of n] by (simp_all add: takeWhile_eq_all_conv)
  ultimately show ?thesis
    using assms decimal_value [of n] decimal_nonempty [of n] decimal_digits [of n] by (simp add: kstrtoul_def Let_def w)
qed

lemma btox_out:
  "length xp \<ge> n \<Longrightarrow> btox xp bb n = map (btox_digit bb) [0..<n] @ drop n xp"
proof (induction n arbitrary: xp)
  case (Suc n)
  then have "btox xp bb (Suc n) = map (btox_digit bb) [0..<n] @ drop n (xp[n := btox_digit bb n])" by simp
  moreover have "drop n (xp[n := btox_digit bb n]) = btox_digit bb n # drop (Suc n) xp"
    using Suc.prems by (metis Cons_nth_drop_Suc Suc_le_lessD drop_update_cancel length_list_update lessI nth_list_update_eq)
  ultimately show ?case by simp
qed simp


lemma btox_nibbles:
  fixes b :: byte
  shows "unat (signed_drop_bit 4 (scast b :: 32 word) AND 0xf) = unat (drop_bit 4 b)"
    and "unat (signed_drop_bit 0 (scast b :: 32 word) AND 0xf) = unat (b AND 0xf)"
proof -
  have m: "(0xf :: 32 word) = mask 4" "(0xf :: byte) = mask 4" by (simp_all add: mask_eq_exp_minus_1)
  have up: "unat (ucast w :: 32 word) = unat w" for w :: byte
  proof -
    have "unat w < 256" using unsigned_less [of w, where 'a = nat] by simp
    then show ?thesis by (simp only: unsigned_ucast_eq) (rule take_bit_nat_eq_self, simp)
  qed
  have "signed_drop_bit 4 (scast b :: 32 word) AND mask 4 = ucast (drop_bit 4 b)"
  proof (rule bit_eqI)
    fix n
    have "n < 4" if "bit b (4 + n)" using bit_imp_le_length [OF that] by simp
    moreover have "min 7 (4 + n) = 4 + n" if "n < 4" using that by simp
    ultimately show "bit (signed_drop_bit 4 (scast b :: 32 word) AND mask 4) n = bit (ucast (drop_bit 4 b) :: 32 word) n"
      by (auto simp: bit_simps)
  qed
  moreover have "signed_drop_bit 0 (scast b :: 32 word) AND mask 4 = ucast (b AND mask 4)"
    by (rule bit_eqI) (auto simp: bit_simps)
  ultimately show "unat (signed_drop_bit 4 (scast b :: 32 word) AND 0xf) = unat (drop_bit 4 b)"
    "unat (signed_drop_bit 0 (scast b :: 32 word) AND 0xf) = unat (b AND 0xf)"
    unfolding m using up by simp_all
qed

lemma btox_digit_back:
  assumes "k < 16"
  shows "hex_to_bin (btox_digits ! k) = Some (of_nat k)"
proof -
  have "\<forall>k \<in> set [0..<16]. hex_to_bin (btox_digits ! k) = Some (of_nat k)" by code_simp
  then show ?thesis using assms by auto
qed

text \<open>What \<^verbatim>\<open>btox\<close> prints is a hexadecimal number too.\<close>

lemma btox_read_back: "hex2bin (map (btox_digit bb) [2 * i..<2 * (i + n)]) n = Some (take n (drop i bb))"
  if "i + n \<le> length bb"
  using that
proof (induction n arbitrary: i)
  case (Suc n)
  let ?b = "bb ! i"
  have u: "[2 * i..<2 * (i + Suc n)] = 2 * i # Suc (2 * i) # [2 * Suc i..<2 * (Suc i + n)]"
    by (simp add: upt_conv_Cons)
  have d: "btox_digit bb (2 * i) = btox_digits ! unat (drop_bit 4 ?b)" "btox_digit bb (Suc (2 * i)) = btox_digits ! unat (?b AND 0xf)"
    using btox_nibbles [of ?b] by (simp_all add: btox_digit_def)
  have "hex_to_bin (btox_digit bb (2 * i)) = Some (drop_bit 4 ?b)" "hex_to_bin (btox_digit bb (Suc (2 * i))) = Some (?b AND 0xf)"
    unfolding d using btox_digit_back byte_nibbles(1,2) [of ?b] by simp_all
  moreover have "hex2bin (map (btox_digit bb) [2 * Suc i..<2 * (Suc i + n)]) n = Some (take n (drop (Suc i) bb))"
    using Suc.IH [of "Suc i"] Suc.prems by simp
  moreover have "drop i bb = ?b # drop (Suc i) bb" using Suc.prems by (simp add: Cons_nth_drop_Suc)
  ultimately show ?case unfolding u using byte_nibbles(3) [of ?b] by simp
qed simp

section \<open>From the tool to the target\<close>

text \<open>
  What is relied on of the splitting of a table line: parts without blanks and backslashes that are
  separated by single blanks come back as the arguments.
\<close>

definition plain_part :: "byte list \<Rightarrow> bool" where
  "plain_part s \<longleftrightarrow> s \<noteq> [] \<and> (\<forall>c \<in> set s. c \<notin> {32, 9, 10, 11, 12, 13, 92})"

definition split_ok :: "(byte list \<Rightarrow> byte list list) \<Rightarrow> bool" where
  "split_ok split \<longleftrightarrow> (\<forall>a b c d. plain_part a \<and> plain_part b \<and> plain_part c \<and> plain_part d \<longrightarrow>
     split (a @ [32] @ b @ [32] @ c @ [32] @ d) = [a, b, c, d])"

lemma hex2asc_plain: "unat c < 16 \<Longrightarrow> hex2asc c \<notin> {32, 9, 10, 11, 12, 13, 92}"
proof -
  assume c: "unat c < 16"
  have "\<forall>c \<in> set (map of_nat [0..<16]). hex2asc (c :: byte) \<notin> {32, 9, 10, 11, 12, 13, 92}" by code_simp
  then show ?thesis using nibble_cases [OF c] by blast
qed

lemma hex_of_plain: "bs \<noteq> [] \<Longrightarrow> plain_part (hex_of bs)"
proof -
  have "c \<notin> {32, 9, 10, 11, 12, 13, 92}" if "c \<in> set (hex_of bs)" for c
    using that byte_nibbles hex2asc_plain by (induction bs) auto
  then show "bs \<noteq> [] \<Longrightarrow> plain_part (hex_of bs)" unfolding plain_part_def by (cases bs) auto
qed

lemma decimal_plain: "plain_part (decimal n)"
  using decimal_digits [of n] decimal_nonempty [of n] by (fastforce simp: plain_part_def is_digit_def)

text \<open>
  From the parameters printed for a volume key the constructor reads back the first 16 bytes as root
  key, the next 12 as root IV, and the action flag, whatever the memory behind the unterminated
  hexadecimal string holds.
\<close>

lemma keys_reach_the_target:
  assumes "split_ok split" and "plain_part (tg_path tgt)" and "tg_action_flag tgt < 2 ^ 64"
    and "28 \<le> length (vk_key (tg_vk tgt))" and "ce_device env (tg_path tgt) = Some devsize"
  shows "\<exists>params. get_dm_jindisk_params garbage tgt = Some params \<and>
    (let key = take 16 (vk_key (tg_vk tgt)); iv = take 12 (drop 16 (vk_key (tg_vk tgt)))
     in dm_jindisk_target_ctr env len (split params) =
       (if ctr_total_sector len \<le> devsize \<and> ce_io_client env \<and> ce_cipher env \<and>
           ce_metadata env key iv (tg_action_flag tgt) \<and> ce_lsm_tree env \<and> ce_seg_allocator env \<and> ce_seg_buffer env
        then Inr \<lparr>cc_root_key = key, cc_root_iv = iv, cc_action_flag = tg_action_flag tgt,
                  cc_nr_segment = len div 8192\<rparr>
        else Inl (Some EAGAIN)))"
proof -
  let ?vk = "vk_key (tg_vk tgt)"
  let ?key = "take 16 ?vk" and ?iv = "take 12 (drop 16 ?vk)" and ?hex = "hex_of (take 56 ?vk)"
  let ?params = "hex_of ?key @ [32] @ hex_of ?iv @ [32] @ tg_path tgt @ [32] @ decimal (tg_action_flag tgt)"
  have l: "length ?key = 16" "length ?iv = 12" using assms(4) by auto
  have "take 32 ?hex = hex_of ?key" using take_hex_of [of 16 "take 56 ?vk"] by (simp add: min_def)
  moreover have "take 24 (drop 32 ?hex) = hex_of ?iv"
    using take_hex_of [of 12 "drop 16 (take 56 ?vk)"] drop_hex_of [of 16 "take 56 ?vk"] by (simp add: drop_take min_def)
  moreover have "length (decimal (tg_action_flag tgt)) \<le> 20"
    using decimal_length [of "tg_action_flag tgt" 19] assms(3) by simp
  moreover have "56 \<le> length ?hex" using assms(4) by (simp add: min_def)
  ultimately have p: "get_dm_jindisk_params garbage tgt = Some ?params"
    using l assms(3) by (simp add: get_dm_jindisk_params_def crypt_bytes_to_hex_def hex_of_def [symmetric]
        KEYSTR_LEN_def IVSTR_LEN_def Let_def)
  have "plain_part (hex_of ?key)" "plain_part (hex_of ?iv)"
    using l by (metis hex_of_plain length_0_conv zero_neq_numeral)+
  then have s: "split ?params = [hex_of ?key, hex_of ?iv, tg_path tgt, decimal (tg_action_flag tgt)]"
    using assms(1,2) decimal_plain unfolding split_ok_def by blast
  have "hex2bin (hex_of ?key) AES_GCM_KEY_SIZE = Some ?key" "hex2bin (hex_of ?iv) AES_GCM_IV_SIZE = Some ?iv"
    using hex2bin_hex_of [of ?key] hex2bin_hex_of [of ?iv] l by (simp_all add: consts_simps)
  then show ?thesis
    unfolding p using s assms(5) kstrtoul_decimal [OF assms(3)]
    by (simp add: dm_jindisk_target_ctr_def Let_def consts_simps)
qed


text \<open>A splitting at single blanks.\<close>

definition demo_split :: "byte list \<Rightarrow> byte list list" where
  "demo_split s =
     (let cut = (\<lambda>s. tl (dropWhile (\<lambda>c. c \<noteq> 32) s)); part = takeWhile (\<lambda>c. c \<noteq> 32)
      in [part s, part (cut s), part (cut (cut s)), part (cut (cut (cut s)))])"

lemma demo_split_ok: "split_ok demo_split"
proof -
  have t: "takeWhile (\<lambda>c. c \<noteq> 32) (a @ 32 # r) = a" "dropWhile (\<lambda>c. c \<noteq> 32) (a @ 32 # r) = 32 # r"
    "takeWhile (\<lambda>c. c \<noteq> 32) a = a" if "plain_part a" for a r
  proof -
    have "\<forall>c \<in> set a. c \<noteq> 32" using that by (auto simp: plain_part_def)
    then show "takeWhile (\<lambda>c. c \<noteq> 32) (a @ 32 # r) = a" "dropWhile (\<lambda>c. c \<noteq> 32) (a @ 32 # r) = 32 # r"
      "takeWhile (\<lambda>c. c \<noteq> 32) a = a"
      by (simp_all add: takeWhile_append2 dropWhile_append2 takeWhile_eq_all_conv)
  qed
  show ?thesis unfolding split_ok_def demo_split_def Let_def by (auto simp: t)
qed

definition demo_ctr :: ctr_env where
  "demo_ctr = \<lparr>ce_device = (\<lambda>_. Some (2 ^ 64)), ce_io_client = True, ce_cipher = True, ce_metadata = (\<lambda>_ _ _. True),
     ce_lsm_tree = True, ce_seg_allocator = True, ce_seg_buffer = True\<rparr>"

end
