(* ===== verification/User_Cli.thy ===== *)
theory User_Cli
  imports Dm_Params
begin

text \<open>
  The command line tool: \<^verbatim>\<open>device.c\<close>, \<^verbatim>\<open>dm.c\<close>, \<^verbatim>\<open>libdm_jindisk.c\<close> and \<^verbatim>\<open>jindisksetup.c\<close>.  The system calls
  and libdevmapper are parameters; \<open>'s\<close> is the state of the device mapper, which only the creation and
  the removal of a device change.  Messages and the release of memory are left out.
\<close>

section \<open>Devices\<close>

datatype file_kind = Regular nat | Block_Special | Other_File

text \<open>
  \<open>sy_open_rw\<close> and \<open>sy_open_ro\<close> are \<^verbatim>\<open>open\<close> with and without \<^verbatim>\<open>O_EXCL\<close>; a failure carries \<^verbatim>\<open>errno\<close>, \<open>None\<close>
  for zero.  The \<^verbatim>\<open>ioctl\<close>s answer \<open>None\<close> for a negative result.  \<open>sy_payload\<close> is the \<^verbatim>\<open>ioctl\<close> on \<^verbatim>\<open>/dev/jindisk\<close>
  (\<open>None\<close>: the device cannot be opened) with its return value.
\<close>

record sys =
  sy_stat :: "byte list \<Rightarrow> file_kind option"
  sy_open_rdonly :: "byte list \<Rightarrow> bool"
  sy_open_rw :: "byte list \<Rightarrow> bool \<Rightarrow> errno option + unit"
  sy_open_ro :: "byte list \<Rightarrow> bool \<Rightarrow> errno option + unit"
  sy_pagesize :: nat
  sy_blksszget :: "byte list \<Rightarrow> nat option"
  sy_blkroget :: "byte list \<Rightarrow> int option"
  sy_blkgetsize64 :: "byte list \<Rightarrow> nat option"
  sy_payload :: "(nat \<Rightarrow> int \<times> nat) option"

record device =
  dv_path :: "byte list"
  dv_file_path :: "byte list option"
  dv_block_size :: nat

definition device_path :: "device \<Rightarrow> byte list" where
  "device_path d = (case dv_file_path d of Some p \<Rightarrow> p | None \<Rightarrow> dv_path d)"

definition device_block_size_fd :: "sys \<Rightarrow> byte list \<Rightarrow> nat" where
  "device_block_size_fd sys path =
     (case sy_stat sys path of
        None \<Rightarrow> 0
      | Some (Regular _) \<Rightarrow> sy_pagesize sys
      | Some _ \<Rightarrow> (case sy_blksszget sys path of None \<Rightarrow> sy_pagesize sys | Some arg \<Rightarrow> arg))"

definition device_block_size :: "sys \<Rightarrow> device \<Rightarrow> nat \<times> device" where
  "device_block_size sys d =
     (if dv_block_size d \<noteq> 0 then (dv_block_size d, d)
      else let d1 = (if sy_open_rdonly sys (device_path d)
                     then d\<lparr>dv_block_size := device_block_size_fd sys (device_path d)\<rparr> else d)
           in (dv_block_size d1, d1))"

definition device_ready :: "sys \<Rightarrow> device \<Rightarrow> unit result" where
  "device_ready sys d =
     (if \<not> sy_open_rdonly sys (device_path d) then Inl EINVAL
      else case sy_stat sys (device_path d) of
             None \<Rightarrow> Inl EINVAL
           | Some Block_Special \<Rightarrow> Inr ()
           | Some (Regular _) \<Rightarrow> Inl ENOTBLK
           | Some Other_File \<Rightarrow> Inl EINVAL)"

text \<open>The test \<^verbatim>\<open>r < 0\<close> after \<^verbatim>\<open>device_ready\<close> also refuses a regular file (\<^verbatim>\<open>ENOTBLK\<close>).\<close>

definition device_alloc :: "sys \<Rightarrow> byte list option \<Rightarrow> device option" where
  "device_alloc sys path =
     (case path of
        None \<Rightarrow> None
      | Some p \<Rightarrow>
          let dev = \<lparr>dv_path = p, dv_file_path = None, dv_block_size = 0\<rparr>
          in case device_ready sys dev of Inl _ \<Rightarrow> None | Inr _ \<Rightarrow> Some dev)"

text \<open>Opening for \<^verbatim>\<open>device_info\<close>: read-write, and read-only on a read-only file system.\<close>

definition device_info_open :: "sys \<Rightarrow> byte list \<Rightarrow> bool \<Rightarrow> bool result" where
  "device_info_open sys path excl =
     (let final = (\<lambda>e. case e of Some err \<Rightarrow> Inl err | None \<Rightarrow> Inl EINVAL)
      in case sy_open_rw sys path excl of
           Inr _ \<Rightarrow> Inr False
         | Inl e \<Rightarrow>
             if e = Some EROFS then (case sy_open_ro sys path excl of Inr _ \<Rightarrow> Inr True | Inl e' \<Rightarrow> final e')
             else final e)"

text \<open>
  Read-only flag and size in sectors.  Of the errors only \<^verbatim>\<open>EBUSY\<close> and \<^verbatim>\<open>EACCES\<close> are kept, the others
  become \<^verbatim>\<open>EINVAL\<close>.
\<close>

definition device_info :: "sys \<Rightarrow> device \<Rightarrow> (bool \<times> nat) result" where
  "device_info sys d =
     (let clean = (\<lambda>e. if e = EBUSY \<or> e = EACCES then Inl e else Inl EINVAL)
      in case sy_stat sys (dv_path d) of
           None \<Rightarrow> clean EINVAL
         | Some kind \<Rightarrow>
             (case device_info_open sys (dv_path d) (kind = Block_Special) of
                Inl e \<Rightarrow> clean e
              | Inr ro \<Rightarrow>
                  (case kind of
                     Regular bytes \<Rightarrow> Inr (ro, bytes div 2 ^ 9)
                   | _ \<Rightarrow>
                       (case (if ro then Some 1 else sy_blkroget sys (dv_path d)) of
                          None \<Rightarrow> clean EINVAL
                        | Some flag \<Rightarrow>
                            (case sy_blkgetsize64 sys (dv_path d) of
                               None \<Rightarrow> clean EINVAL
                             | Some bytes \<Rightarrow> Inr (flag \<noteq> 0, bytes div 2 ^ 9))))))"

text \<open>A negative result of the \<^verbatim>\<open>ioctl\<close> is returned as a size, converted to \<^verbatim>\<open>uint64_t\<close>.\<close>

definition get_payload_size :: "sys \<Rightarrow> nat \<Rightarrow> nat" where
  "get_payload_size sys disk_size =
     (case sy_payload sys of
        None \<Rightarrow> 0
      | Some ctl \<Rightarrow> let (r, available) = ctl disk_size in if r \<noteq> 0 then nat (r mod 2 ^ 64) else available)"

text \<open>\<open>sectors AND (block - 1)\<close> on \<^verbatim>\<open>uint64_t\<close>.\<close>

definition MISALIGNED :: "nat \<Rightarrow> nat \<Rightarrow> bool" where
  "MISALIGNED a b \<longleftrightarrow> (of_nat a :: u64) AND (of_nat b - 1) \<noteq> 0"

definition device_block_adjust :: "sys \<Rightarrow> device \<Rightarrow> nat \<Rightarrow> nat \<Rightarrow> nat result" where
  "device_block_adjust sys d offset sz =
     (case device_info sys d of
        Inl e \<Rightarrow> Inl e
      | Inr (ro, real_size) \<Rightarrow>
          if MISALIGNED real_size (fst (device_block_size sys d) div 2 ^ 9) then Inl EINVAL
          else if offset \<ge> real_size then Inl EINVAL
          else let sz1 = (if sz = 0 then real_size - offset else sz)
               in if real_size - offset < sz1 then Inl EINVAL
                  else Inr (get_payload_size sys sz1))"

section \<open>Device mapper tasks\<close>

datatype dm_task_type =
  DM_DEVICE_LIST_VERSIONS | DM_DEVICE_REMOVE | DM_DEVICE_STATUS | DM_DEVICE_CREATE | DM_DEVICE_TABLE

record dm_info =
  di_exists :: bool
  di_open_count :: int
  di_target_count :: int
  di_suspended :: bool

record 's dmlib =
  dl_task_create :: "dm_task_type \<Rightarrow> bool"
  dl_set_name :: "dm_task_type \<Rightarrow> byte list \<Rightarrow> bool"
  dl_no_flush :: bool
  dl_secure_data :: "dm_task_type \<Rightarrow> bool"
  dl_add_target :: "nat \<Rightarrow> nat \<Rightarrow> byte list \<Rightarrow> bool"
  dl_run :: "dm_task_type \<Rightarrow> byte list \<Rightarrow> 's \<Rightarrow> bool"
  dl_run_create :: "byte list \<Rightarrow> nat \<Rightarrow> nat \<Rightarrow> byte list \<Rightarrow> 's \<Rightarrow> bool \<times> 's"
  dl_run_remove :: "byte list \<Rightarrow> 's \<Rightarrow> bool \<times> 's"
  dl_get_info :: "dm_task_type \<Rightarrow> byte list \<Rightarrow> 's \<Rightarrow> dm_info option"
  dl_driver_version :: bool
  dl_version_parsed :: bool
  dl_stat :: "byte list \<Rightarrow> bool"

text \<open>\<open>checked\<close> is the static \<^verbatim>\<open>_dm_ioctl_checked\<close>.\<close>

definition dm_check_versions :: "'s dmlib \<Rightarrow> 's \<Rightarrow> bool \<Rightarrow> bool" where
  "dm_check_versions lib s checked =
     (if dl_task_create lib DM_DEVICE_LIST_VERSIONS \<and> dl_run lib DM_DEVICE_LIST_VERSIONS [] s \<and> dl_driver_version lib \<and>
         (checked \<or> dl_version_parsed lib)
      then True else checked)"

definition dm_remove_task :: "'s dmlib \<Rightarrow> byte list \<Rightarrow> 's \<Rightarrow> bool \<times> 's" where
  "dm_remove_task lib name s =
     (if \<not> dl_task_create lib DM_DEVICE_REMOVE then (False, s)
      else if \<not> dl_set_name lib DM_DEVICE_REMOVE name then (False, s)
      else dl_run_remove lib name s)"

definition dm_status_dmi :: "'s dmlib \<Rightarrow> byte list \<Rightarrow> 's \<Rightarrow> dm_info result" where
  "dm_status_dmi lib name s =
     (if \<not> dl_task_create lib DM_DEVICE_STATUS then Inl EINVAL
      else if \<not> dl_no_flush lib then Inl EINVAL
      else if \<not> dl_set_name lib DM_DEVICE_STATUS name then Inl EINVAL
      else if \<not> dl_run lib DM_DEVICE_STATUS name s then Inl EINVAL
      else case dl_get_info lib DM_DEVICE_STATUS name s of
             None \<Rightarrow> Inl EINVAL
           | Some dmi \<Rightarrow> if \<not> di_exists dmi then Inl ENODEV else Inr dmi)"

definition dm_status_device :: "'s dmlib \<Rightarrow> byte list \<Rightarrow> 's \<Rightarrow> nat result" where
  "dm_status_device lib name s =
     (if 47 \<in> set name \<and> \<not> dl_stat lib name then Inl ENODEV
      else case dm_status_dmi lib name s of
             Inl e \<Rightarrow> Inl e
           | Inr dmi \<Rightarrow> Inr (if di_open_count dmi > 0 then 1 else 0))"

definition dm_create_device :: "'s dmlib \<Rightarrow> nat \<Rightarrow> byte list \<Rightarrow> dm_target \<Rightarrow> 's \<Rightarrow> unit result \<times> 's" where
  "dm_create_device lib garbage name tgt s =
     (if \<not> dl_task_create lib DM_DEVICE_CREATE then (Inl EINVAL, s)
      else if \<not> dl_set_name lib DM_DEVICE_CREATE name then (Inl EINVAL, s)
      else if \<not> dl_secure_data lib DM_DEVICE_CREATE then (Inl EINVAL, s)
      else case get_dm_jindisk_params garbage tgt of
             None \<Rightarrow> (Inl EINVAL, s)
           | Some params \<Rightarrow>
               if \<not> dl_add_target lib (tg_offset tgt) (tg_size tgt) params then (Inl EINVAL, s)
               else (case dl_run_create lib name (tg_offset tgt) (tg_size tgt) params s of
                       (False, s1) \<Rightarrow>
                         (case dm_status_device lib name s1 of
                            Inr _ \<Rightarrow> (Inl EEXIST, s1)
                          | Inl e \<Rightarrow> (Inl (if e = ENODEV \<or> e = EEXIST then e else EINVAL), s1))
                     | (True, s1) \<Rightarrow>
                         (case dl_get_info lib DM_DEVICE_CREATE name s1 of
                            Some _ \<Rightarrow> (Inr (), s1)
                          | None \<Rightarrow> (Inl EINVAL, snd (dm_remove_task lib name s1)))))"

definition dm_query_device :: "'s dmlib \<Rightarrow> byte list \<Rightarrow> 's \<Rightarrow> nat result" where
  "dm_query_device lib name s =
     (if \<not> dl_task_create lib DM_DEVICE_TABLE then Inl EINVAL
      else if \<not> dl_secure_data lib DM_DEVICE_TABLE then Inl EINVAL
      else if \<not> dl_set_name lib DM_DEVICE_TABLE name then Inl EINVAL
      else if \<not> dl_run lib DM_DEVICE_TABLE name s then Inl ENODEV
      else case dl_get_info lib DM_DEVICE_TABLE name s of
             None \<Rightarrow> Inl EINVAL
           | Some dmi \<Rightarrow>
               if \<not> di_exists dmi then Inl ENODEV
               else if di_target_count dmi \<le> 0 then Inl EINVAL
               else if di_suspended dmi then Inl EINVAL
               else Inr (if di_open_count dmi > 0 then 1 else 0))"

definition dm_remove_device :: "'s dmlib \<Rightarrow> byte list option \<Rightarrow> 's \<Rightarrow> unit result \<times> 's" where
  "dm_remove_device lib name s =
     (case name of
        None \<Rightarrow> (Inl EINVAL, s)
      | Some n \<Rightarrow> (case dm_remove_task lib n s of (ok, s1) \<Rightarrow> (if ok then Inr () else Inl EINVAL, s1)))"

section \<open>Activation\<close>

definition create_or_open_device ::
  "sys \<Rightarrow> 's dmlib \<Rightarrow> nat \<Rightarrow> byte list \<Rightarrow> device \<Rightarrow> dm_target \<Rightarrow> 's \<Rightarrow> unit result \<times> 's" where
  "create_or_open_device sys lib garbage name dev tgt s =
     (case device_block_adjust sys dev (tg_offset tgt) (tg_size tgt) of
        Inl e \<Rightarrow> (Inl e, s)
      | Inr sz \<Rightarrow> dm_create_device lib garbage name (tgt\<lparr>tg_size := sz\<rparr>) s)"

datatype crypt_status_info = CRYPT_INVALID | CRYPT_INACTIVE | CRYPT_ACTIVE | CRYPT_BUSY

definition crypt_status :: "'s dmlib \<Rightarrow> byte list option \<Rightarrow> 's \<Rightarrow> crypt_status_info" where
  "crypt_status lib name s =
     (case name of
        None \<Rightarrow> CRYPT_INVALID
      | Some n \<Rightarrow>
          (case dm_status_device lib n s of
             Inl e \<Rightarrow> if e \<noteq> ENODEV then CRYPT_INVALID else CRYPT_INACTIVE
           | Inr open_count \<Rightarrow> if open_count = 0 then CRYPT_ACTIVE else CRYPT_BUSY))"

definition SHA512_KEYSIZE :: nat where "SHA512_KEYSIZE = 128"

record 's cli_env =
  cl_sys :: sys
  cl_lib :: "'s dmlib"
  cl_vk_struct_size :: nat
  cl_garbage :: nat
  cl_kdf :: "byte list \<Rightarrow> byte list"
  cl_stack :: "byte list"

text \<open>\<open>keyset\<close> is the memory from the pointer on.\<close>

definition jindisk_activate ::
  "'s cli_env \<Rightarrow> byte list option \<Rightarrow> byte list \<Rightarrow> byte list option \<Rightarrow> nat \<Rightarrow> nat \<Rightarrow> 's \<Rightarrow> unit result \<times> 's" where
  "jindisk_activate env device_name target_name keyset key_size action_flag s =
     (if \<not> dm_check_versions (cl_lib env) s False then (Inl ENOTSUP, s)
      else case device_alloc (cl_sys env) device_name of
             None \<Rightarrow> (Inl ENOMEM, s)
           | Some dev \<Rightarrow>
               if keyset = None \<or> key_size = 0 \<or> key_size \<noteq> SHA512_KEYSIZE then (Inl EINVAL, s)
               else (case crypt_alloc_volume_key (cl_vk_struct_size env) key_size keyset of
                       None \<Rightarrow> (Inl ENOMEM, s)
                     | Some vk \<Rightarrow>
                         create_or_open_device (cl_sys env) (cl_lib env) (cl_garbage env) target_name dev
                           \<lparr>tg_path = device_path dev, tg_vk = vk, tg_offset = 0, tg_size = 0,
                            tg_action_flag = action_flag\<rparr> s))"

text \<open>\<^verbatim>\<open>holders\<close> is always zero after the query.\<close>

definition jindisk_deactivate :: "'s cli_env \<Rightarrow> byte list option \<Rightarrow> 's \<Rightarrow> unit result \<times> 's" where
  "jindisk_deactivate env name s =
     (if \<not> dm_check_versions (cl_lib env) s False then (Inl ENOTSUP, s)
      else case crypt_status (cl_lib env) name s of
             CRYPT_INACTIVE \<Rightarrow> (Inl ENODEV, s)
           | CRYPT_INVALID \<Rightarrow> (Inl EINVAL, s)
           | _ \<Rightarrow> (case dm_remove_device (cl_lib env) name s of
                     (Inl _, s1) \<Rightarrow> (Inl EBUSY, s1)
                   | (Inr _, s1) \<Rightarrow> (Inr (), s1)))"

section \<open>The commands\<close>

text \<open>The derived key has 64 bytes; behind it comes what the stack holds.\<close>

definition action_activate :: "'s cli_env \<Rightarrow> byte list \<Rightarrow> byte list \<Rightarrow> byte list option \<Rightarrow> nat \<Rightarrow> 's \<Rightarrow> unit result \<times> 's" where
  "action_activate env password dev_path dm_name flag s =
     (case dm_name of
        None \<Rightarrow> (Inr (), s)
      | Some n \<Rightarrow> jindisk_activate env (Some dev_path) n (Some (cl_kdf env password @ cl_stack env)) 128 flag s)"

definition action_create :: "'s cli_env \<Rightarrow> byte list \<Rightarrow> byte list \<Rightarrow> byte list option \<Rightarrow> 's \<Rightarrow> unit result \<times> 's" where
  "action_create env password dev_path dm_name = action_activate env password dev_path dm_name 1"

definition action_open :: "'s cli_env \<Rightarrow> byte list \<Rightarrow> byte list \<Rightarrow> byte list option \<Rightarrow> 's \<Rightarrow> unit result \<times> 's" where
  "action_open env password dev_path dm_name = action_activate env password dev_path dm_name 0"

definition action_close :: "'s cli_env \<Rightarrow> byte list option \<Rightarrow> 's \<Rightarrow> unit result \<times> 's" where
  "action_close env name s = (case name of None \<Rightarrow> (Inr (), s) | Some n \<Rightarrow> jindisk_deactivate env (Some n) s)"

text \<open>Where \<^verbatim>\<open>main\<close> ends: at \<^verbatim>\<open>out\<close>, at \<^verbatim>\<open>help\<close>, or at \<^verbatim>\<open>err\<close> with \<^verbatim>\<open>r\<close> (\<open>None\<close> for zero).\<close>

datatype main_end = Main_Out | Main_Help | Main_Err "errno option"

definition main_exit_zero :: "main_end \<Rightarrow> bool" where
  "main_exit_zero e \<longleftrightarrow> e = Main_Out \<or> e = Main_Err None"

definition main_finish :: "unit result \<times> 's \<Rightarrow> main_end \<times> 's" where
  "main_finish r = (case r of (Inl e, s) \<Rightarrow> (Main_Err (Some e), s) | (Inr _, s) \<Rightarrow> (Main_Out, s))"

abbreviation "arg_create \<equiv> [99, 114, 101, 97, 116, 101] :: byte list"
abbreviation "arg_open \<equiv> [111, 112, 101, 110] :: byte list"
abbreviation "arg_close \<equiv> [99, 108, 111, 115, 101] :: byte list"

definition cli_main :: "'s cli_env \<Rightarrow> byte list list \<Rightarrow> 's \<Rightarrow> main_end \<times> 's" where
  "cli_main env argv s =
     (if length argv \<le> 1 then (Main_Help, s)
      else if length argv \<ge> 6 then (Main_Err None, s)
      else if argv ! 1 = arg_create then
        (if length argv = 5 then main_finish (action_create env (argv ! 2) (argv ! 3) (Some (argv ! 4)) s) else (Main_Help, s))
      else if argv ! 1 = arg_open then
        (if length argv = 5 then main_finish (action_open env (argv ! 2) (argv ! 3) (Some (argv ! 4)) s) else (Main_Help, s))
      else if argv ! 1 = arg_close then
        (if length argv = 3 then main_finish (action_close env (Some (argv ! 2)) s) else (Main_Help, s))
      else (Main_Err None, s))"


section \<open>What a successful activation did\<close>

lemma adjust_ok:
  assumes "device_block_adjust sys d 0 0 = Inr sz"
  obtains ro real where "device_info sys d = Inr (ro, real)" "0 < real" "sz = get_payload_size sys real"
  using assms by (auto simp: device_block_adjust_def Let_def split: sum.splits prod.splits if_splits)

lemma info_block:
  assumes "device_info sys d = Inr (ro, real)" and "sy_stat sys (dv_path d) = Some Block_Special"
  obtains bytes where "sy_blkgetsize64 sys (dv_path d) = Some bytes" "real = bytes div 512"
  using assms by (auto simp: device_info_def Let_def split: sum.splits option.splits if_splits)

lemma alloc_block:
  assumes "device_alloc sys (Some path) = Some dev"
  shows "dev = \<lparr>dv_path = path, dv_file_path = None, dv_block_size = 0\<rparr>" and "sy_stat sys path = Some Block_Special"
  using assms by (auto simp: device_alloc_def device_ready_def device_path_def Let_def
      split: sum.splits option.splits file_kind.splits if_splits)

lemma create_ok:
  assumes "dm_create_device lib garbage name tgt s = (Inr (), s')"
  obtains params where "get_dm_jindisk_params garbage tgt = Some params"
    "dl_run_create lib name (tg_offset tgt) (tg_size tgt) params s = (True, s')"
  using assms by (auto simp: dm_create_device_def split: if_splits option.splits prod.splits bool.splits sum.splits)

lemma activate_ok:
  assumes "action_activate env pw path (Some name) flag s = (Inr (), s')" and kdf: "length (cl_kdf env pw) = 64"
  obtains bytes params vk where "sy_blkgetsize64 (cl_sys env) path = Some bytes" "0 < bytes div 512"
    "take 28 (vk_key vk) = take 28 (cl_kdf env pw)" "28 \<le> length (vk_key vk)"
    "get_dm_jindisk_params (cl_garbage env) \<lparr>tg_path = path, tg_vk = vk, tg_offset = 0,
       tg_size = get_payload_size (cl_sys env) (bytes div 512), tg_action_flag = flag\<rparr> = Some params"
    "dl_run_create (cl_lib env) name 0 (get_payload_size (cl_sys env) (bytes div 512)) params s = (True, s')"
proof -
  let ?keyset = "cl_kdf env pw @ cl_stack env"
  obtain dev vk where d: "device_alloc (cl_sys env) (Some path) = Some dev"
    "crypt_alloc_volume_key (cl_vk_struct_size env) 128 (Some ?keyset) = Some vk"
    "create_or_open_device (cl_sys env) (cl_lib env) (cl_garbage env) name dev
       \<lparr>tg_path = device_path dev, tg_vk = vk, tg_offset = 0, tg_size = 0, tg_action_flag = flag\<rparr> s = (Inr (), s')"
    using assms(1) by (auto simp: action_activate_def jindisk_activate_def SHA512_KEYSIZE_def split: if_splits option.splits)
  note dev = alloc_block [OF d(1)]
  have path: "device_path dev = path" "dv_path dev = path" using dev(1) by (simp_all add: device_path_def)
  obtain sz where sz: "device_block_adjust (cl_sys env) dev 0 0 = Inr sz"
    "dm_create_device (cl_lib env) (cl_garbage env) name
       \<lparr>tg_path = path, tg_vk = vk, tg_offset = 0, tg_size = sz, tg_action_flag = flag\<rparr> s = (Inr (), s')"
    using d(3) path(1) by (auto simp: create_or_open_device_def split: sum.splits)
  obtain ro real where r: "device_info (cl_sys env) dev = Inr (ro, real)" "0 < real" "sz = get_payload_size (cl_sys env) real"
    using adjust_ok [OF sz(1)] .
  obtain bytes where b: "sy_blkgetsize64 (cl_sys env) path = Some bytes" "real = bytes div 512"
    using info_block [OF r(1)] dev(2) path(2) by auto
  obtain params where p: "get_dm_jindisk_params (cl_garbage env)
       \<lparr>tg_path = path, tg_vk = vk, tg_offset = 0, tg_size = sz, tg_action_flag = flag\<rparr> = Some params"
    "dl_run_create (cl_lib env) name 0 sz params s = (True, s')"
    using create_ok [OF sz(2)] by auto
  have "vk_key vk = take 128 ?keyset" using d(2) by (auto simp: crypt_alloc_volume_key_def split: if_splits)
  then have "take 28 (vk_key vk) = take 28 (cl_kdf env pw)" "28 \<le> length (vk_key vk)" using kdf by simp_all
  then show ?thesis using that b r(2,3) p by blast
qed

section \<open>Properties\<close>

text \<open>
  C34. When the command to create a device ends well, the device mapper was asked once, to create the
  device under the given name with the size the module gives for the size of the disk, and from the
  parameters it was handed the target reads as root key the first 16 bytes of the key derived from the
  password and as IV the next 12, with the flag to format, whatever lies behind the derived key on the
  stack or behind the hexadecimal string in memory.
\<close>

theorem cli_create_reaches_target:
  assumes "cli_main env [prog, arg_create, pw, path, name] s = (Main_Out, s')"
    and "length (cl_kdf env pw) = 64" and "split_ok split" and "plain_part path" and "ce_device kenv path = Some devsize"
  shows "\<exists>bytes params. sy_blkgetsize64 (cl_sys env) path = Some bytes \<and> 0 < bytes div 512 \<and>
    dl_run_create (cl_lib env) name 0 (get_payload_size (cl_sys env) (bytes div 512)) params s = (True, s') \<and>
    (let key = take 16 (cl_kdf env pw); iv = take 12 (drop 16 (cl_kdf env pw))
     in dm_jindisk_target_ctr kenv len (split params) =
       (if ctr_total_sector len \<le> devsize \<and> ce_io_client kenv \<and> ce_cipher kenv \<and>
           ce_metadata kenv key iv 1 \<and> ce_lsm_tree kenv \<and> ce_seg_allocator kenv \<and> ce_seg_buffer kenv
        then Inr \<lparr>cc_root_key = key, cc_root_iv = iv, cc_action_flag = 1, cc_nr_segment = len div 8192\<rparr>
        else Inl (Some EAGAIN)))"
proof -
  have "action_activate env pw path (Some name) 1 s = (Inr (), s')"
    using assms(1) by (auto simp: cli_main_def main_finish_def action_create_def split: sum.splits prod.splits)
  from activate_ok [OF this assms(2)] obtain bytes params vk where
    a: "sy_blkgetsize64 (cl_sys env) path = Some bytes" "0 < bytes div 512"
    "take 28 (vk_key vk) = take 28 (cl_kdf env pw)" "28 \<le> length (vk_key vk)"
    "get_dm_jindisk_params (cl_garbage env) \<lparr>tg_path = path, tg_vk = vk, tg_offset = 0,
       tg_size = get_payload_size (cl_sys env) (bytes div 512), tg_action_flag = 1\<rparr> = Some params"
    "dl_run_create (cl_lib env) name 0 (get_payload_size (cl_sys env) (bytes div 512)) params s = (True, s')" .
  let ?tgt = "\<lparr>tg_path = path, tg_vk = vk, tg_offset = 0,
       tg_size = get_payload_size (cl_sys env) (bytes div 512), tg_action_flag = 1\<rparr>"
  have "take 16 (take 28 (vk_key vk)) = take 16 (take 28 (cl_kdf env pw))"
    "drop 16 (take 28 (vk_key vk)) = drop 16 (take 28 (cl_kdf env pw))" using a(3) by simp_all
  then have k: "take 16 (vk_key vk) = take 16 (cl_kdf env pw)"
    "take 12 (drop 16 (vk_key vk)) = take 12 (drop 16 (cl_kdf env pw))" by (simp_all add: drop_take)
  have "plain_part (tg_path ?tgt)" "tg_action_flag ?tgt < 2 ^ 64" "28 \<le> length (vk_key (tg_vk ?tgt))"
    "ce_device kenv (tg_path ?tgt) = Some devsize" using assms(4,5) a(4) by simp_all
  from keys_reach_the_target [OF assms(3) this, of "cl_garbage env" len] show ?thesis
    using a(1,2,5,6) k by (intro exI [of _ bytes] exI [of _ params]) (simp add: Let_def)
qed


text \<open>A disk of 2^40 bytes, a device mapper that records what it creates, and a derived key of 64 bytes.\<close>

definition demo_cli :: "(byte list \<times> nat \<times> byte list) list cli_env" where
  "demo_cli =
     \<lparr>cl_sys = \<lparr>sy_stat = (\<lambda>_. Some Block_Special), sy_open_rdonly = (\<lambda>_. True), sy_open_rw = (\<lambda>_ _. Inr ()),
        sy_open_ro = (\<lambda>_ _. Inr ()), sy_pagesize = 4096, sy_blksszget = (\<lambda>_. Some 512), sy_blkroget = (\<lambda>_. Some 0),
        sy_blkgetsize64 = (\<lambda>_. Some (2 ^ 40)), sy_payload = Some (\<lambda>n. (0, n div 2))\<rparr>,
      cl_lib = \<lparr>dl_task_create = (\<lambda>_. True), dl_set_name = (\<lambda>_ _. True), dl_no_flush = True, dl_secure_data = (\<lambda>_. True),
        dl_add_target = (\<lambda>_ _ _. True), dl_run = (\<lambda>_ _ _. True),
        dl_run_create = (\<lambda>name off sz params s. (True, (name, sz, params) # s)),
        dl_run_remove = (\<lambda>name s. (True, List.filter (\<lambda>d. fst d \<noteq> name) s)),
        dl_get_info = (\<lambda>_ name s. Some \<lparr>di_exists = name \<in> fst ` set s, di_open_count = 0, di_target_count = 1,
          di_suspended = False\<rparr>),
        dl_driver_version = True, dl_version_parsed = True, dl_stat = (\<lambda>_. True)\<rparr>,
      cl_vk_struct_size = 8, cl_garbage = 0, cl_kdf = (\<lambda>_. replicate 64 7), cl_stack = replicate 64 0\<rparr>"

lemma demo_cli_run: "dl_run_create (cl_lib demo_cli) name off sz params s = (True, (name, sz, params) # s)"
  by (simp add: demo_cli_def)

lemma demo_cli_creates: "fst (cli_main demo_cli [[106], arg_create, [112], [47, 100], [110]] []) = Main_Out"
proof -
  let ?tgt = "\<lparr>tg_path = [47, 100], tg_vk = \<lparr>vk_keylength = 128, vk_key = replicate 64 7 @ replicate 64 0\<rparr>,
    tg_offset = 0, tg_size = 2 ^ 30, tg_action_flag = 1\<rparr>"
  have "plain_part (tg_path ?tgt)" by (simp add: plain_part_def)
  then obtain params where "get_dm_jindisk_params 0 ?tgt = Some params"
    using keys_reach_the_target [OF demo_split_ok, of ?tgt demo_ctr "2 ^ 64" 0] by (auto simp: demo_ctr_def)
  then show ?thesis
    by (simp add: cli_main_def demo_cli_def main_finish_def action_create_def action_activate_def jindisk_activate_def
      dm_check_versions_def device_alloc_def device_ready_def device_path_def SHA512_KEYSIZE_def crypt_alloc_volume_key_def
      create_or_open_device_def device_block_adjust_def device_info_def device_info_open_def MISALIGNED_def device_block_size_def
      device_block_size_fd_def get_payload_size_def dm_create_device_def Let_def)
qed

lemma demo_ctr_fields [simp]: "ce_io_client demo_ctr" "ce_cipher demo_ctr" "ce_metadata demo_ctr k i f"
  "ce_lsm_tree demo_ctr" "ce_seg_allocator demo_ctr" "ce_seg_buffer demo_ctr" "ce_device demo_ctr p = Some (2 ^ 64)"
  by (simp_all add: demo_ctr_def)

theorem cli_create_reaches_target_witness:
  "\<exists>bytes params. sy_blkgetsize64 (cl_sys demo_cli) [47, 100] = Some bytes \<and>
    dl_run_create (cl_lib demo_cli) [110] 0 (get_payload_size (cl_sys demo_cli) (bytes div 512)) params [] =
      (True, snd (cli_main demo_cli [[106], arg_create, [112], [47, 100], [110]] [])) \<and>
    dm_jindisk_target_ctr demo_ctr (2 ^ 30) (demo_split params) =
      Inr \<lparr>cc_root_key = replicate 16 7, cc_root_iv = replicate 12 7, cc_action_flag = 1, cc_nr_segment = 2 ^ 17\<rparr>"
proof -
  let ?r = "cli_main demo_cli [[106], arg_create, [112], [47, 100], [110]] []"
  have run: "?r = (Main_Out, snd ?r)" using demo_cli_creates by (metis prod.collapse)
  have kdf: "cl_kdf demo_cli [112] = replicate 64 7" by (simp add: demo_cli_def)
  then have "length (cl_kdf demo_cli [112]) = 64" by simp
  moreover have "plain_part [47, 100]" by (simp add: plain_part_def)
  moreover have "ctr_total_sector (2 ^ 30) \<le> 2 ^ 64"
    unfolding ctr_total_sector_def by (intro less_imp_le mod_less_divisor) simp
  ultimately obtain bytes params where w: "sy_blkgetsize64 (cl_sys demo_cli) [47, 100] = Some bytes"
    "dl_run_create (cl_lib demo_cli) [110] 0 (get_payload_size (cl_sys demo_cli) (bytes div 512)) params [] = (True, snd ?r)"
    "dm_jindisk_target_ctr demo_ctr (2 ^ 30) (demo_split params) =
      Inr \<lparr>cc_root_key = take 16 (replicate 64 7), cc_root_iv = take 12 (drop 16 (replicate 64 7)), cc_action_flag = 1,
        cc_nr_segment = 2 ^ 30 div 8192\<rparr>"
    using cli_create_reaches_target [OF run _ demo_split_ok _ demo_ctr_fields(7), of "2 ^ 30"]
    unfolding kdf Let_def by (auto simp del: take_replicate drop_replicate power_numeral)
  have "take 16 (replicate 64 (7 :: byte)) = replicate 16 7" "take 12 (drop 16 (replicate 64 (7 :: byte))) = replicate 12 7"
    "(2 :: nat) ^ 30 div 8192 = 2 ^ 17" by (simp_all only: take_replicate drop_replicate) simp_all
  with w show ?thesis by metis
qed

text \<open>
  C35. Exit status zero.  If the tool exits with zero, then either the device mapper has created the
  device, for a command to create or open one, or removed it, for a command to close one; or the
  arguments were no command at all, six or more of them or an unknown word, and nothing was done.
\<close>

theorem cli_exit_status:
  assumes "cli_main env argv s = (e, s')" and "main_exit_zero e"
  shows "(\<exists>prog cmd pw path name sz params. argv = [prog, cmd, pw, path, name] \<and> cmd \<in> {arg_create, arg_open} \<and>
            dl_run_create (cl_lib env) name 0 sz params s = (True, s')) \<or>
         (\<exists>prog name. argv = [prog, arg_close, name] \<and> dl_run_remove (cl_lib env) name s = (True, s')) \<or>
         (6 \<le> length argv \<or> argv ! 1 \<notin> {arg_create, arg_open, arg_close}) \<and> s' = s"
proof -
  have five: "argv = [argv ! 0, argv ! 1, argv ! 2, argv ! 3, argv ! 4]" if "length argv = 5"
    using that by (auto simp: numeral_eq_Suc length_Suc_conv)
  have three: "argv = [argv ! 0, argv ! 1, argv ! 2]" if "length argv = 3"
    using that by (auto simp: numeral_eq_Suc length_Suc_conv)
  have act: "\<exists>sz params. dl_run_create (cl_lib env) name 0 sz params s = (True, s')"
    if "action_activate env pw path (Some name) flag s = (Inr (), s')" for pw path name flag
    using that by (fastforce simp: action_activate_def jindisk_activate_def create_or_open_device_def
        elim: create_ok split: if_splits option.splits sum.splits)
  have cls: "dl_run_remove (cl_lib env) name s = (True, s')" if "jindisk_deactivate env (Some name) s = (Inr (), s')" for name
    using that by (auto simp: jindisk_deactivate_def dm_remove_device_def dm_remove_task_def
        split: if_splits crypt_status_info.splits sum.splits prod.splits)
  show ?thesis
  proof (cases "6 \<le> length argv \<or> argv ! 1 \<notin> {arg_create, arg_open, arg_close}")
    case True
    then show ?thesis using assms by (auto simp: cli_main_def main_exit_zero_def split: if_splits)
  next
    case False
    then consider (c) "length argv = 5" "argv ! 1 = arg_create" "action_activate env (argv ! 2) (argv ! 3) (Some (argv ! 4)) 1 s = (Inr (), s')"
      | (o) "length argv = 5" "argv ! 1 = arg_open" "action_activate env (argv ! 2) (argv ! 3) (Some (argv ! 4)) 0 s = (Inr (), s')"
      | (x) "length argv = 3" "argv ! 1 = arg_close" "jindisk_deactivate env (Some (argv ! 2)) s = (Inr (), s')"
      using assms
      by (auto simp: cli_main_def main_exit_zero_def main_finish_def action_create_def action_open_def action_close_def
          split: if_splits sum.splits prod.splits)
    then show ?thesis
    proof cases
      case c
      then show ?thesis using five [OF c(1)] act [OF c(3)] by (metis insertCI)
    next
      case o
      then show ?thesis using five [OF o(1)] act [OF o(3)] by (metis insertCI)
    next
      case x
      then show ?thesis using three [OF x(1)] cls [OF x(3)] by metis
    qed
  qed
qed

theorem cli_exit_status_witness:
  "main_exit_zero (fst (cli_main demo_cli [[106], arg_create, [112], [47, 100], [110]] [])) \<and>
   (\<exists>sz params. snd (cli_main demo_cli [[106], arg_create, [112], [47, 100], [110]] []) = [([110], sz, params)])"
proof -
  let ?r = "cli_main demo_cli [[106], arg_create, [112], [47, 100], [110]] []"
  have z: "main_exit_zero (fst ?r)" by (simp add: demo_cli_creates main_exit_zero_def)
  show ?thesis using cli_exit_status [of demo_cli "[[106], arg_create, [112], [47, 100], [110]]" "[]" "fst ?r" "snd ?r"] z
      demo_cli_run by simp metis
qed

end
