(* ===== verification/Rbtree.thy ===== *)
theory Rbtree
  imports Prelude "HOL-Library.Tree"
begin

text \<open>
  The ordered trees of \<^verbatim>\<open>linux/rbtree.h\<close> as the module uses them: insertion that descends with
  the caller's comparison (\<^verbatim>\<open>rb_find_add\<close>, \<^verbatim>\<open>rb_add\<close>), a change made through the pointer that a
  search returned, removal of a node, and the in-order walk \<^verbatim>\<open>rb_first\<close>/\<^verbatim>\<open>rb_next\<close>.  The
  rebalancing rotations of the kernel keep the in-order sequence and are not represented; the
  lemmas give that sequence.
\<close>

section \<open>Operations\<close>

text \<open>\<open>rb_find_add cmp x t\<close>: the equal node if there is one, else \<open>x\<close> is linked as a leaf.\<close>

fun rb_find_add :: "('a \<Rightarrow> 'a \<Rightarrow> int) \<Rightarrow> 'a \<Rightarrow> 'a tree \<Rightarrow> 'a option \<times> 'a tree" where
  "rb_find_add cmp x Leaf = (None, Node Leaf x Leaf)"
| "rb_find_add cmp x (Node l y r) =
     (if cmp x y < 0 then (case rb_find_add cmp x l of (old, l') \<Rightarrow> (old, Node l' y r))
      else if cmp x y > 0 then (case rb_find_add cmp x r of (old, r') \<Rightarrow> (old, Node l y r'))
      else (Some y, Node l y r))"

text \<open>\<open>rb_modify cmp x f t\<close>: the assignment through the node that the same descent reaches.\<close>

fun rb_modify :: "('a \<Rightarrow> 'a \<Rightarrow> int) \<Rightarrow> 'a \<Rightarrow> ('a \<Rightarrow> 'a) \<Rightarrow> 'a tree \<Rightarrow> 'a tree" where
  "rb_modify cmp x f Leaf = Leaf"
| "rb_modify cmp x f (Node l y r) =
     (if cmp x y < 0 then Node (rb_modify cmp x f l) y r
      else if cmp x y > 0 then Node l y (rb_modify cmp x f r)
      else Node l (f y) r)"

text \<open>\<open>rb_find c t\<close> with \<open>c\<close> the comparison of the sought key with a node.\<close>

fun rb_find :: "('a \<Rightarrow> int) \<Rightarrow> 'a tree \<Rightarrow> 'a option" where
  "rb_find c Leaf = None"
| "rb_find c (Node l y r) =
     (if c y < 0 then rb_find c l else if c y > 0 then rb_find c r else Some y)"

text \<open>\<open>rb_add lt x t\<close> links \<open>x\<close> after every node that is not greater.\<close>

fun rb_add :: "('a \<Rightarrow> 'a \<Rightarrow> bool) \<Rightarrow> 'a \<Rightarrow> 'a tree \<Rightarrow> 'a tree" where
  "rb_add lt x Leaf = Node Leaf x Leaf"
| "rb_add lt x (Node l y r) =
     (if lt x y then Node (rb_add lt x l) y r else Node l y (rb_add lt x r))"

fun rb_first :: "'a tree \<Rightarrow> 'a option" where
  "rb_first Leaf = None"
| "rb_first (Node Leaf y r) = Some y"
| "rb_first (Node l y r) = rb_first l"

fun rb_last :: "'a tree \<Rightarrow> 'a option" where
  "rb_last Leaf = None"
| "rb_last (Node l y Leaf) = Some y"
| "rb_last (Node l y r) = rb_last r"

text \<open>Removal of the root of a subtree: its successor takes its place.\<close>

fun rb_split_first :: "'a \<Rightarrow> 'a tree \<Rightarrow> 'a tree \<Rightarrow> 'a \<times> 'a tree" where
  "rb_split_first y Leaf r = (y, r)"
| "rb_split_first y (Node ll ly lr) r =
     (case rb_split_first ly ll lr of (m, l') \<Rightarrow> (m, Node l' y r))"

fun rb_join :: "'a tree \<Rightarrow> 'a tree \<Rightarrow> 'a tree" where
  "rb_join l Leaf = l"
| "rb_join l (Node rl y rr) = (case rb_split_first y rl rr of (m, r') \<Rightarrow> Node l m r')"

text \<open>\<open>rb_erase_at c t\<close> removes the node the descent with \<open>c\<close> reaches; \<open>rb_erase_node P t\<close> removes
  the node picked out by \<open>P\<close> (a pointer the caller kept), the first one in order.\<close>

fun rb_erase_at :: "('a \<Rightarrow> int) \<Rightarrow> 'a tree \<Rightarrow> 'a tree" where
  "rb_erase_at c Leaf = Leaf"
| "rb_erase_at c (Node l y r) =
     (if c y < 0 then Node (rb_erase_at c l) y r
      else if c y > 0 then Node l y (rb_erase_at c r)
      else rb_join l r)"

fun rb_erase_node :: "('a \<Rightarrow> bool) \<Rightarrow> 'a tree \<Rightarrow> 'a tree" where
  "rb_erase_node P Leaf = Leaf"
| "rb_erase_node P (Node l y r) =
     (if \<exists>z \<in> set (inorder l). P z then Node (rb_erase_node P l) y r
      else if P y then rb_join l r
      else Node l y (rb_erase_node P r))"

fun rb_erase_first :: "'a tree \<Rightarrow> 'a tree" where
  "rb_erase_first Leaf = Leaf"
| "rb_erase_first (Node l y r) = (if l = Leaf then r else Node (rb_erase_first l) y r)"

section \<open>In-order sequences\<close>

lemma rb_split_first_inorder [rb_simps]:
  "rb_split_first y l r = (m, t) \<Longrightarrow> inorder l @ y # inorder r = m # inorder t"
  by (induction y l r arbitrary: m t rule: rb_split_first.induct)
    (fastforce split: prod.splits)+

lemma inorder_rb_join [rb_simps]: "inorder (rb_join l r) = inorder l @ inorder r"
  by (cases r) (auto split: prod.splits dest: rb_split_first_inorder)

lemma rb_first_inorder [rb_simps]:
  "rb_first t = (if inorder t = [] then None else Some (hd (inorder t)))"
  by (induction t rule: rb_first.induct) (auto simp: hd_append)

lemma rb_last_inorder [rb_simps]:
  "rb_last t = (if inorder t = [] then None else Some (last (inorder t)))"
  by (induction t rule: rb_last.induct) auto

lemma inorder_rb_erase_first [rb_simps]: "inorder (rb_erase_first t) = tl (inorder t)"
  by (induction t) (auto simp: tl_append split: list.splits)

lemma size_rb_erase_first: "t \<noteq> Leaf \<Longrightarrow> size (rb_erase_first t) < size t"
  by (induction t) auto

text \<open>Removal by predicate, on lists: the first element that satisfies it goes.\<close>

fun remove_first :: "('a \<Rightarrow> bool) \<Rightarrow> 'a list \<Rightarrow> 'a list" where
  "remove_first P [] = []"
| "remove_first P (x # xs) = (if P x then xs else x # remove_first P xs)"

lemma remove_first_append:
  "remove_first P (xs @ ys) =
     (if \<exists>x \<in> set xs. P x then remove_first P xs @ ys else xs @ remove_first P ys)"
  by (induction xs) auto

lemma remove_first_filter:
  assumes "distinct (map f xs)"
  shows "remove_first (\<lambda>x. f x = k) xs = filter (\<lambda>x. f x \<noteq> k) xs"
  using assms
proof (induction xs)
  case Nil
  then show ?case by simp
next
  case (Cons a xs)
  show ?case
  proof (cases "f a = k")
    case True
    with Cons.prems have "\<forall>x \<in> set xs. f x \<noteq> k" by (auto simp: rev_image_eqI)
    with True show ?thesis by (simp add: filter_id_conv)
  next
    case False
    with Cons show ?thesis by simp
  qed
qed

lemma inorder_rb_erase_node [rb_simps]:
  "inorder (rb_erase_node P t) = remove_first P (inorder t)"
  by (induction t) (auto simp: remove_first_append inorder_rb_join)

text \<open>Insertion with a \<open>less\<close> that ranks the elements: behind every element of the same rank.\<close>

fun insert_right :: "('a \<Rightarrow> nat) \<Rightarrow> 'a \<Rightarrow> 'a list \<Rightarrow> 'a list" where
  "insert_right f x [] = [x]"
| "insert_right f x (y # ys) = (if f x < f y then x # y # ys else y # insert_right f x ys)"

lemma set_insert_right [simp]: "set (insert_right f x ys) = insert x (set ys)"
  by (induction ys) auto

lemma insert_right_append:
  "\<forall>y \<in> set ys. f y \<le> f x \<Longrightarrow> insert_right f x (ys @ zs) = ys @ insert_right f x zs"
  by (induction ys) auto

lemma insert_right_append_less:
  "f x < f y \<Longrightarrow> insert_right f x (ys @ y # zs) = insert_right f x ys @ y # zs"
  by (induction ys) auto

lemma sorted_insert_right:
  "sorted (map f ys) \<Longrightarrow> sorted (map f (insert_right f x ys))"
proof (induction ys)
  case Nil
  then show ?case by simp
next
  case (Cons y ys)
  then show ?case by (auto simp: less_imp_le order.trans)
qed

lemma distinct_insert_right:
  "distinct (map g (insert_right f x ys)) \<longleftrightarrow> g x \<notin> g ` set ys \<and> distinct (map g ys)"
  by (induction ys) auto

lemma inorder_rb_add [rb_simps]:
  "sorted (map f (inorder t)) \<Longrightarrow>
   inorder (rb_add (\<lambda>a b. f a < f b) x t) = insert_right f x (inorder t)"
proof (induction t)
  case Leaf
  then show ?case by simp
next
  case (Node l y r)
  show ?case
  proof (cases "f x < f y")
    case True
    with Node show ?thesis by (simp add: sorted_append insert_right_append_less)
  next
    case False
    with Node have "\<forall>z \<in> set (inorder l). f z \<le> f x"
      by (fastforce simp: sorted_append)
    with False Node show ?thesis by (simp add: sorted_append insert_right_append)
  qed
qed

section \<open>Trees ordered by a key\<close>

text \<open>
  \<open>cmp_agrees cmp f S\<close>: on the elements of \<open>S\<close> the comparison is the order of the key \<open>f\<close>.  The
  comparison callbacks of the module subtract the keys and return the difference as an \<^verbatim>\<open>int\<close>,
  which agrees with the order of the keys only within a range.
\<close>

definition cmp_agrees :: "('a \<Rightarrow> 'a \<Rightarrow> int) \<Rightarrow> ('a \<Rightarrow> nat) \<Rightarrow> 'a set \<Rightarrow> bool" where
  "cmp_agrees cmp f S \<longleftrightarrow>
     (\<forall>x \<in> S. \<forall>y \<in> S. (cmp x y < 0 \<longleftrightarrow> f x < f y) \<and> (cmp x y > 0 \<longleftrightarrow> f y < f x))"

definition bst_on :: "('a \<Rightarrow> nat) \<Rightarrow> 'a tree \<Rightarrow> bool" where
  "bst_on f t \<longleftrightarrow> sorted_wrt (<) (map f (inorder t))"

lemma bst_on_Leaf [simp]: "bst_on f Leaf"
  by (simp add: bst_on_def)

lemma bst_on_Node:
  "bst_on f (Node l y r) \<longleftrightarrow>
     bst_on f l \<and> bst_on f r \<and> (\<forall>x \<in> set_tree l. f x < f y) \<and> (\<forall>x \<in> set_tree r. f y < f x) \<and>
     (\<forall>x \<in> set_tree l. \<forall>z \<in> set_tree r. f x < f z)"
  by (auto simp: bst_on_def sorted_wrt_append)

lemma bst_on_distinct: "bst_on f t \<Longrightarrow> distinct (map f (inorder t))"
  unfolding bst_on_def by (rule sorted_wrt_less_distinct)

text \<open>The node with a given key, by the order of the tree.\<close>

definition tree_lookup :: "('a \<Rightarrow> nat) \<Rightarrow> 'a tree \<Rightarrow> nat \<Rightarrow> 'a option" where
  "tree_lookup f t k = List.find (\<lambda>x. f x = k) (inorder t)"

lemma tree_lookup_Leaf [simp]: "tree_lookup f Leaf k = None"
  by (simp add: tree_lookup_def)

lemma find_append:
  "List.find P (xs @ ys) = (case List.find P xs of None \<Rightarrow> List.find P ys | Some x \<Rightarrow> Some x)"
  by (induction xs) auto

lemma find_key_None: "(\<And>x. x \<in> set xs \<Longrightarrow> f x \<noteq> k) \<Longrightarrow> List.find (\<lambda>x. f x = k) xs = None"
  by (induction xs) auto

lemma tree_lookup_Node:
  assumes "bst_on f (Node l y r)"
  shows "tree_lookup f (Node l y r) k =
     (if k < f y then tree_lookup f l k else if f y < k then tree_lookup f r k else Some y)"
proof -
  have l: "tree_lookup f l k = None" if "f y \<le> k"
    unfolding tree_lookup_def
    by (rule find_key_None) (use assms that in \<open>fastforce simp: bst_on_Node\<close>)
  have r: "tree_lookup f r k = None" if "k \<le> f y"
    unfolding tree_lookup_def
    by (rule find_key_None) (use assms that in \<open>fastforce simp: bst_on_Node\<close>)
  from l r show ?thesis
    by (auto simp: tree_lookup_def find_append split: option.splits)
qed

lemma tree_lookup_Some:
  "tree_lookup f t k = Some x \<Longrightarrow> x \<in> set_tree t \<and> f x = k"
  by (auto simp: tree_lookup_def find_Some_iff in_set_conv_nth simp flip: set_inorder)

lemma tree_lookup_None:
  "tree_lookup f t k = None \<longleftrightarrow> (\<forall>x \<in> set_tree t. f x \<noteq> k)"
  by (auto simp: tree_lookup_def find_None_iff)

lemma tree_lookup_mem: "bst_on f t \<Longrightarrow> x \<in> set_tree t \<Longrightarrow> tree_lookup f t (f x) = Some x"
proof (induction t)
  case Leaf
  then show ?case by simp
next
  case (Node l y r)
  have "f x < f y" if "x \<in> set_tree l" using Node.prems(1) that by (simp add: bst_on_Node)
  moreover have "f y < f x" if "x \<in> set_tree r" using Node.prems(1) that by (simp add: bst_on_Node)
  moreover have "bst_on f l" "bst_on f r" using Node.prems(1) by (auto simp: bst_on_Node)
  ultimately show ?case
    using Node by (fastforce simp: tree_lookup_Node [OF Node.prems(1)])
qed

lemma cmp_agreesD:
  assumes "cmp_agrees cmp f S" and "x \<in> S" and "y \<in> S"
  shows "cmp x y < 0 \<longleftrightarrow> f x < f y" and "0 < cmp x y \<longleftrightarrow> f y < f x"
  using assms by (auto simp: cmp_agrees_def)

lemma cmp_agrees_subset: "cmp_agrees cmp f S \<Longrightarrow> T \<subseteq> S \<Longrightarrow> cmp_agrees cmp f T"
  by (auto simp: cmp_agrees_def)

text \<open>What \<open>rb_find_add\<close> returns and leaves, in terms of keys.\<close>

lemma rb_find_add_spec:
  assumes "bst_on f t" and "cmp_agrees cmp f (insert x (set_tree t))"
    and "rb_find_add cmp x t = (old, t')"
  shows "tree_lookup f t (f x) = old \<and>
    (old \<noteq> None \<longrightarrow> t' = t) \<and>
    (old = None \<longrightarrow> bst_on f t' \<and> set_tree t' = insert x (set_tree t) \<and>
       (\<forall>k. tree_lookup f t' k = (if k = f x then Some x else tree_lookup f t k)))"
  using assms
proof (induction t arbitrary: old t')
  case Leaf
  then show ?case by (auto simp: bst_on_def tree_lookup_def)
next
  case (Node l y r)
  have sub: "cmp_agrees cmp f (insert x (set_tree l))" "cmp_agrees cmp f (insert x (set_tree r))"
    by (rule cmp_agrees_subset [OF Node.prems(2)]; auto)+
  have c: "cmp x y < 0 \<longleftrightarrow> f x < f y" "0 < cmp x y \<longleftrightarrow> f y < f x"
    by (rule cmp_agreesD [OF Node.prems(2)]; simp)+
  have b: "bst_on f l" "bst_on f r" using Node.prems(1) by (auto simp: bst_on_Node)
  consider (less) "f x < f y" | (greater) "f y < f x" | (equal) "f x = f y" by linarith
  then show ?case
  proof cases
    case less
    obtain l' where l': "rb_find_add cmp x l = (old, l')" and t': "t' = Node l' y r"
      using Node.prems(3) c less by (auto split: prod.splits)
    note IH = Node.IH(1) [OF b(1) sub(1) l']
    have old: "tree_lookup f (Node l y r) (f x) = old"
      using IH less Node.prems(1) by (simp add: tree_lookup_Node)
    have new: "bst_on f t'" if "old = None"
      using IH that t' less Node.prems(1) by (auto simp: bst_on_Node)
    show ?thesis
      using IH old new t' less Node.prems(1) by (auto simp: tree_lookup_Node)
  next
    case greater
    obtain r' where r': "rb_find_add cmp x r = (old, r')" and t': "t' = Node l y r'"
      using Node.prems(3) c greater by (auto split: prod.splits)
    note IH = Node.IH(2) [OF b(2) sub(2) r']
    have old: "tree_lookup f (Node l y r) (f x) = old"
      using IH greater Node.prems(1) by (simp add: tree_lookup_Node)
    have new: "bst_on f t'" if "old = None"
      using IH that t' greater Node.prems(1) by (auto simp: bst_on_Node)
    show ?thesis
      using IH old new t' greater Node.prems(1) by (auto simp: tree_lookup_Node)
  next
    case equal
    with c Node.prems show ?thesis by (auto simp: tree_lookup_Node)
  qed
qed

text \<open>A change that keeps the key is seen at that key only.\<close>

lemma rb_modify_spec:
  assumes "bst_on f t" and "cmp_agrees cmp f (insert x (set_tree t))"
    and "tree_lookup f t (f x) = Some y" and "f (g y) = f y"
  shows "bst_on f (rb_modify cmp x g t) \<and>
    map f (inorder (rb_modify cmp x g t)) = map f (inorder t) \<and>
    (\<forall>k. tree_lookup f (rb_modify cmp x g t) k =
       (if k = f x then Some (g y) else tree_lookup f t k))"
  using assms
proof (induction t)
  case Leaf
  then show ?case by simp
next
  case (Node l z r)
  have sub: "cmp_agrees cmp f (insert x (set_tree l))" "cmp_agrees cmp f (insert x (set_tree r))"
    by (rule cmp_agrees_subset [OF Node.prems(2)]; auto)+
  have c: "cmp x z < 0 \<longleftrightarrow> f x < f z" "0 < cmp x z \<longleftrightarrow> f z < f x"
    by (rule cmp_agreesD [OF Node.prems(2)]; simp)+
  have b: "bst_on f l" "bst_on f r" using Node.prems(1) by (auto simp: bst_on_Node)
  have keys: "map f (inorder (rb_modify cmp x g (Node l z r))) = map f (inorder (Node l z r))"
    using Node c b sub by (auto simp: tree_lookup_Node)
  then have bst: "bst_on f (rb_modify cmp x g (Node l z r))"
    using Node.prems(1) by (simp add: bst_on_def)
  have "tree_lookup f (rb_modify cmp x g (Node l z r)) k =
       (if k = f x then Some (g y) else tree_lookup f (Node l z r) k)" for k
  proof (cases "f x = f z")
    case True
    with c have "rb_modify cmp x g (Node l z r) = Node l (g z) r" by simp
    with bst True Node.prems show ?thesis by (auto simp: tree_lookup_Node)
  next
    case False
    with bst Node c b sub show ?thesis by (auto simp: tree_lookup_Node)
  qed
  with keys bst show ?case by blast
qed

lemma rb_find_spec:
  assumes "bst_on f t"
    and "\<And>y. y \<in> set_tree t \<Longrightarrow> (c y < 0 \<longleftrightarrow> k < f y) \<and> (0 < c y \<longleftrightarrow> f y < k)"
  shows "rb_find c t = tree_lookup f t k"
  using assms
proof (induction t)
  case Leaf
  then show ?case by simp
next
  case (Node l y r)
  have b: "bst_on f l" "bst_on f r" using Node.prems(1) by (auto simp: bst_on_Node)
  have "c y < 0 \<longleftrightarrow> k < f y" "0 < c y \<longleftrightarrow> f y < k" using Node.prems(2) [of y] by simp_all
  with Node b show ?case by (auto simp: tree_lookup_Node)
qed

lemma rb_erase_at_spec:
  assumes "bst_on f t"
    and "\<And>y. y \<in> set_tree t \<Longrightarrow> (c y < 0 \<longleftrightarrow> k < f y) \<and> (0 < c y \<longleftrightarrow> f y < k)"
  shows "inorder (rb_erase_at c t) = filter (\<lambda>x. f x \<noteq> k) (inorder t)"
  using assms
proof (induction t)
  case Leaf
  then show ?case by simp
next
  case (Node l y r)
  have b: "bst_on f l" "bst_on f r" using Node.prems(1) by (auto simp: bst_on_Node)
  have c: "c y < 0 \<longleftrightarrow> k < f y" "0 < c y \<longleftrightarrow> f y < k" using Node.prems(2) [of y] by simp_all
  have l: "filter (\<lambda>x. f x \<noteq> k) (inorder l) = inorder l" if "f y \<le> k"
    using Node.prems(1) that by (fastforce simp: bst_on_Node filter_id_conv)
  have r: "filter (\<lambda>x. f x \<noteq> k) (inorder r) = inorder r" if "k \<le> f y"
    using Node.prems(1) that by (fastforce simp: bst_on_Node filter_id_conv)
  show ?case
    using Node b c l r by (auto simp: inorder_rb_join)
qed

end
