(* ===== verification/Memtable.thy ===== *)
theory Memtable
  imports Rbtree
begin

text \<open>
  \<^verbatim>\<open>memtable.c\<close>: the records that map a logical block to its place on disk, and the ordered
  in-memory table of the LSM tree.  An entry carries a value, a negative value (a tombstone,
  whose address is \<^verbatim>\<open>INF_ADDR\<close>) or both.  The table is an ordered tree whose insertions compare
  keys by a difference truncated to \<^verbatim>\<open>int\<close>; the theory shows that it implements a map as long as
  keys stay below \<open>2 ^ 31\<close>, and what happens beyond.
\<close>

section \<open>Records\<close>

record blk_record =
  rec_pba :: dm_block_t
  rec_mac :: "byte list"
  rec_key :: "byte list"

text \<open>\<open>rnd\<close> is what \<^verbatim>\<open>get_random_bytes\<close> delivers.\<close>

definition copy_or_random :: "byte list \<Rightarrow> byte list option \<Rightarrow> byte list" where
  "copy_or_random rnd src = (case src of None \<Rightarrow> rnd | Some bs \<Rightarrow> bs)"

definition record_create ::
  "byte list \<Rightarrow> dm_block_t \<Rightarrow> byte list option \<Rightarrow> byte list option \<Rightarrow> blk_record" where
  "record_create rnd pba key mac =
     \<lparr>rec_pba = pba,
      rec_mac = (case mac of Some m \<Rightarrow> m | None \<Rightarrow> replicate AES_GCM_AUTH_SIZE 0),
      rec_key = (if pba \<noteq> INF_ADDR then copy_or_random rnd key
                 else replicate AES_GCM_KEY_SIZE 0)\<rparr>"

definition record_copy :: "blk_record option \<Rightarrow> blk_record option" where
  "record_copy old = old"

text \<open>The tombstone \<^verbatim>\<open>record_create(INF_ADDR, NULL, NULL)\<close>.\<close>

definition negative :: blk_record where
  "negative = record_create [] INF_ADDR None None"

definition negative_record :: "blk_record \<Rightarrow> bool" where
  "negative_record val \<longleftrightarrow> rec_pba val = INF_ADDR"

section \<open>Entries\<close>

record memtable_entry =
  me_key :: nat
  me_val :: "blk_record option"
  me_negative_val :: "blk_record option"

definition new_memtable_entry :: "nat \<Rightarrow> blk_record option \<Rightarrow> memtable_entry" where
  "new_memtable_entry key val =
     \<lparr>me_key = key, me_val = val,
      me_negative_val = (if val = None then Some negative else None)\<rparr>"

lemma new_memtable_entry_sel [simp]:
  "me_key (new_memtable_entry key val) = key"
  "me_val (new_memtable_entry key val) = val"
  "me_negative_val (new_memtable_entry key val) = (if val = None then Some negative else None)"
  by (simp_all add: new_memtable_entry_def)

definition memtable_entry_cmp :: "memtable_entry \<Rightarrow> memtable_entry \<Rightarrow> int" where
  "memtable_entry_cmp node parent = to_int (int (me_key node) - int (me_key parent))"

text \<open>The key arrives as \<^verbatim>\<open>*(int *)key\<close>, a signed reading of the unsigned key.\<close>

definition memtable_entry_cmp_rb_key :: "nat \<Rightarrow> memtable_entry \<Rightarrow> int" where
  "memtable_entry_cmp_rb_key key entry = to_int (to_int (int key) - int (me_key entry))"

section \<open>The table\<close>

record memtable =
  mt_root :: "memtable_entry tree"
  mt_size :: u64

definition rbtree_memtable_create :: memtable where
  "rbtree_memtable_create = \<lparr>mt_root = Leaf, mt_size = 0\<rparr>"

fun rbtree_memtable_search :: "memtable_entry tree \<Rightarrow> nat \<Rightarrow> blk_record option" where
  "rbtree_memtable_search Leaf key = None"
| "rbtree_memtable_search (Node l cur r) key =
     (if me_key cur > key then rbtree_memtable_search l key
      else if me_key cur < key then rbtree_memtable_search r key
      else case me_val cur of Some v \<Rightarrow> Some v | None \<Rightarrow> me_negative_val cur)"

text \<open>
  \<^verbatim>\<open>rbtree_memtable_put\<close>: a \<open>None\<close> value stores a tombstone.  The result is the replaced value
  (never a tombstone, and nothing when the new value is a tombstone) and the new table.
\<close>

definition rbtree_memtable_put ::
  "memtable \<Rightarrow> nat \<Rightarrow> blk_record option \<Rightarrow> blk_record option \<times> memtable" where
  "rbtree_memtable_put m key val =
     (let new_entry = new_memtable_entry key val;
          (node, root) = rb_find_add memtable_entry_cmp new_entry (mt_root m)
      in case node of
           None \<Rightarrow> (None, \<lparr>mt_root = root, mt_size = mt_size m + 1\<rparr>)
         | Some old_entry \<Rightarrow>
             if val = None then
               let size1 = (if me_val old_entry \<noteq> None then mt_size m - 1 else mt_size m);
                   size2 = (if me_negative_val old_entry \<noteq> None then size1 - 1 else size1);
                   root' = rb_modify memtable_entry_cmp new_entry
                     (\<lambda>e. e\<lparr>me_val := None, me_negative_val := me_negative_val new_entry\<rparr>) root
               in (None, \<lparr>mt_root = root', mt_size = size2 + 1\<rparr>)
             else
               let size1 = (if me_val old_entry \<noteq> None then mt_size m - 1 else mt_size m);
                   root' = rb_modify memtable_entry_cmp new_entry
                     (\<lambda>e. e\<lparr>me_val := me_val new_entry\<rparr>) root
               in (me_val old_entry, \<lparr>mt_root = root', mt_size = size1 + 1\<rparr>))"

definition rbtree_memtable_get :: "memtable \<Rightarrow> nat \<Rightarrow> blk_record result" where
  "rbtree_memtable_get m key =
     (case rbtree_memtable_search (mt_root m) key of
        Some v \<Rightarrow> Inr v
      | None \<Rightarrow> Inl ENODATA)"

definition rbtree_memtable_remove :: "memtable \<Rightarrow> nat \<Rightarrow> blk_record option \<times> memtable" where
  "rbtree_memtable_remove m key =
     (case rb_find (memtable_entry_cmp_rb_key key) (mt_root m) of
        None \<Rightarrow> (None, m)
      | Some entry \<Rightarrow>
          let root = rb_erase_at (memtable_entry_cmp_rb_key key) (mt_root m);
              size1 = (if me_val entry \<noteq> None then mt_size m - 1 else mt_size m);
              size2 = (if me_negative_val entry \<noteq> None then size1 - 1 else size1)
          in (me_val entry, \<lparr>mt_root = root, mt_size = size2\<rparr>))"

definition rbtree_memtable_contains :: "memtable \<Rightarrow> nat \<Rightarrow> bool" where
  "rbtree_memtable_contains m key \<longleftrightarrow> rbtree_memtable_search (mt_root m) key \<noteq> None"

text \<open>The walk from \<^verbatim>\<open>rb_first\<close> by \<^verbatim>\<open>rb_next\<close>, appending each entry to the list.\<close>

definition rbtree_memtable_get_all_entry :: "memtable \<Rightarrow> memtable_entry list" where
  "rbtree_memtable_get_all_entry m = inorder (mt_root m)"

function memtable_clear_loop :: "memtable_entry tree \<Rightarrow> memtable_entry tree" where
  "memtable_clear_loop t = (if t = Leaf then t else memtable_clear_loop (rb_erase_first t))"
  by pat_completeness auto
termination by (relation "measure size") (auto simp: size_rb_erase_first)

declare memtable_clear_loop.simps [simp del]

definition rbtree_memtable_clear :: "memtable \<Rightarrow> memtable" where
  "rbtree_memtable_clear m = \<lparr>mt_root = memtable_clear_loop (mt_root m), mt_size = 0\<rparr>"

section \<open>Invariant and map view\<close>

definition key_ok :: "nat \<Rightarrow> bool" where
  "key_ok k \<longleftrightarrow> k < 2 ^ 31"

definition entry_value :: "memtable_entry \<Rightarrow> blk_record option" where
  "entry_value e = (case me_val e of Some v \<Rightarrow> Some v | None \<Rightarrow> me_negative_val e)"

definition entry_weight :: "memtable_entry \<Rightarrow> u64" where
  "entry_weight e = of_bool (me_val e \<noteq> None) + of_bool (me_negative_val e \<noteq> None)"

definition entry_ok :: "memtable_entry \<Rightarrow> bool" where
  "entry_ok e \<longleftrightarrow> key_ok (me_key e) \<and> (me_val e \<noteq> None \<or> me_negative_val e \<noteq> None)"

definition memtable_inv :: "memtable \<Rightarrow> bool" where
  "memtable_inv m \<longleftrightarrow> bst_on me_key (mt_root m) \<and> (\<forall>e \<in> set_tree (mt_root m). entry_ok e) \<and>
     mt_size m = sum_list (map entry_weight (inorder (mt_root m)))"

definition memtable_map :: "memtable \<Rightarrow> nat \<Rightarrow> blk_record option" where
  "memtable_map m k = Option.bind (tree_lookup me_key (mt_root m) k) entry_value"

text \<open>What a \<^verbatim>\<open>put\<close> stores: the record, or a tombstone for \<^verbatim>\<open>NULL\<close>.\<close>

definition stored :: "blk_record option \<Rightarrow> blk_record" where
  "stored v = (case v of Some r \<Rightarrow> r | None \<Rightarrow> negative)"

lemma stored_simps [simp]: "stored None = negative" "stored (Some r) = r"
  by (simp_all add: stored_def)

lemma memtable_cmp_agrees:
  assumes "\<forall>e \<in> S. key_ok (me_key e)"
  shows "cmp_agrees memtable_entry_cmp me_key S"
proof -
  have "memtable_entry_cmp x y = int (me_key x) - int (me_key y)" if "x \<in> S" "y \<in> S" for x y
  proof -
    have "me_key x < 2 ^ 31" "me_key y < 2 ^ 31" using assms that by (auto simp: key_ok_def)
    then show ?thesis unfolding memtable_entry_cmp_def by (intro to_int_id) simp_all
  qed
  then show ?thesis by (auto simp: cmp_agrees_def)
qed

lemma memtable_inv_agrees:
  assumes "memtable_inv m" and "key_ok key"
  shows "cmp_agrees memtable_entry_cmp me_key
     (insert (new_memtable_entry key val) (set_tree (mt_root m)))"
  using assms
  by (intro memtable_cmp_agrees) (auto simp: memtable_inv_def entry_ok_def)

section \<open>Lookup\<close>

lemma search_lookup:
  "bst_on me_key t \<Longrightarrow> rbtree_memtable_search t key = Option.bind (tree_lookup me_key t key) entry_value"
proof (induction t)
  case Leaf
  then show ?case by simp
next
  case (Node l e r)
  then show ?case
    by (auto simp: tree_lookup_Node bst_on_Node entry_value_def)
qed

lemma get_map:
  "memtable_inv m \<Longrightarrow>
   rbtree_memtable_get m key =
     (case memtable_map m key of Some v \<Rightarrow> Inr v | None \<Rightarrow> Inl ENODATA)"
  by (simp add: memtable_inv_def rbtree_memtable_get_def memtable_map_def search_lookup)

lemma contains_map:
  "memtable_inv m \<Longrightarrow> rbtree_memtable_contains m key \<longleftrightarrow> key \<in> dom (memtable_map m)"
  by (auto simp: memtable_inv_def rbtree_memtable_contains_def memtable_map_def search_lookup)

lemma memtable_inv_create: "memtable_inv rbtree_memtable_create"
  by (simp add: memtable_inv_def rbtree_memtable_create_def)

lemma memtable_map_create: "memtable_map rbtree_memtable_create = Map.empty"
  by (auto simp: memtable_map_def rbtree_memtable_create_def)

section \<open>Insertion\<close>

text \<open>How a change of one entry shows in the sum of the weights.\<close>

lemma weight_modify:
  assumes "bst_on me_key t" and "cmp_agrees memtable_entry_cmp me_key (insert x (set_tree t))"
    and "tree_lookup me_key t (me_key x) = Some y"
  shows "sum_list (map entry_weight (inorder (rb_modify memtable_entry_cmp x g t))) =
     sum_list (map entry_weight (inorder t)) - entry_weight y + entry_weight (g y)"
  using assms
proof (induction t)
  case Leaf
  then show ?case by simp
next
  case (Node l z r)
  have sub: "cmp_agrees memtable_entry_cmp me_key (insert x (set_tree l))"
    "cmp_agrees memtable_entry_cmp me_key (insert x (set_tree r))"
    by (rule cmp_agrees_subset [OF Node.prems(2)]; auto)+
  have c: "memtable_entry_cmp x z < 0 \<longleftrightarrow> me_key x < me_key z"
    "0 < memtable_entry_cmp x z \<longleftrightarrow> me_key z < me_key x"
    by (rule cmp_agreesD [OF Node.prems(2)]; simp)+
  have "bst_on me_key l" "bst_on me_key r" using Node.prems(1) by (auto simp: bst_on_Node)
  with Node sub c show ?case by (auto simp: tree_lookup_Node)
qed

lemma weight_add:
  "rb_find_add cmp x t = (None, t') \<Longrightarrow>
   sum_list (map entry_weight (inorder t')) = sum_list (map entry_weight (inorder t)) + entry_weight x"
  by (induction t arbitrary: t') (auto split: if_splits prod.splits simp: add_ac)

lemma set_rb_modify:
  "e \<in> set_tree (rb_modify cmp x g t) \<Longrightarrow> e \<in> set_tree t \<or> (\<exists>y \<in> set_tree t. e = g y)"
  by (induction t) (auto split: if_splits)

text \<open>The two outcomes of the descent, once for both lemmas below.\<close>

lemma put_cases:
  assumes "memtable_inv m" and "key_ok key"
  obtains (fresh) t' where "tree_lookup me_key (mt_root m) key = None"
      and "rb_find_add memtable_entry_cmp (new_memtable_entry key val) (mt_root m) = (None, t')"
      and "bst_on me_key t'"
      and "set_tree t' = insert (new_memtable_entry key val) (set_tree (mt_root m))"
      and "\<And>k. tree_lookup me_key t' k =
        (if k = key then Some (new_memtable_entry key val) else tree_lookup me_key (mt_root m) k)"
    | (present) old where "tree_lookup me_key (mt_root m) key = Some old"
      and "me_key old = key"
      and "rb_find_add memtable_entry_cmp (new_memtable_entry key val) (mt_root m)
             = (Some old, mt_root m)"
proof -
  have b: "bst_on me_key (mt_root m)" using assms(1) by (simp add: memtable_inv_def)
  have k: "me_key (new_memtable_entry key val) = key" by simp
  obtain old t' where r:
    "rb_find_add memtable_entry_cmp (new_memtable_entry key val) (mt_root m) = (old, t')"
    by fastforce
  note s = rb_find_add_spec [OF b memtable_inv_agrees [OF assms] r, unfolded k]
  show thesis
  proof (cases old)
    case None
    with s r show ?thesis by (intro fresh) auto
  next
    case (Some e)
    with s have "tree_lookup me_key (mt_root m) key = Some e" "t' = mt_root m" by simp_all
    moreover from this have "me_key e = key" by (auto dest: tree_lookup_Some)
    ultimately show ?thesis using r Some by (intro present) simp_all
  qed
qed

lemma put_map:
  assumes "memtable_inv m" and "key_ok key"
  shows "memtable_map (snd (rbtree_memtable_put m key val)) = (memtable_map m)(key \<mapsto> stored val)"
    and "fst (rbtree_memtable_put m key val) =
       (if val = None then None
        else Option.bind (tree_lookup me_key (mt_root m) key) me_val)"
proof -
  let ?x = "new_memtable_entry key val"
  have b: "bst_on me_key (mt_root m)" using assms(1) by (simp add: memtable_inv_def)
  have k: "me_key ?x = key" by simp
  note mod = rb_modify_spec [OF b memtable_inv_agrees [OF assms, of val], unfolded k]
  have "memtable_map (snd (rbtree_memtable_put m key val)) = (memtable_map m)(key \<mapsto> stored val) \<and>
    fst (rbtree_memtable_put m key val) =
       (if val = None then None else Option.bind (tree_lookup me_key (mt_root m) key) me_val)"
    using assms
  proof (cases rule: put_cases [where val = val])
    case (fresh t')
    then show ?thesis
      by (auto simp: rbtree_memtable_put_def memtable_map_def entry_value_def stored_def
          split: option.splits)
  next
    case (present old)
    let ?neg = "\<lambda>e. e\<lparr>me_val := None, me_negative_val := me_negative_val ?x\<rparr>"
    let ?pos = "\<lambda>e. e\<lparr>me_val := me_val ?x\<rparr>"
    have n: "tree_lookup me_key (rb_modify memtable_entry_cmp ?x ?neg (mt_root m)) j =
        (if j = key then Some (?neg old) else tree_lookup me_key (mt_root m) j)" for j
      using mod [OF present(1), of ?neg] present(2) by simp
    have p: "tree_lookup me_key (rb_modify memtable_entry_cmp ?x ?pos (mt_root m)) j =
        (if j = key then Some (?pos old) else tree_lookup me_key (mt_root m) j)" for j
      using mod [OF present(1), of ?pos] present(2) by simp
    show ?thesis
    proof (cases val)
      case None
      show ?thesis
        by (auto simp: rbtree_memtable_put_def None present(1) present(3) [unfolded None]
            memtable_map_def fun_eq_iff n [unfolded None, simplified] Let_def entry_value_def)
    next
      case (Some v)
      show ?thesis
        by (auto simp: rbtree_memtable_put_def Some present(1) present(3) [unfolded Some]
            memtable_map_def fun_eq_iff p [unfolded Some, simplified] Let_def entry_value_def)
    qed
  qed
  then show "memtable_map (snd (rbtree_memtable_put m key val)) = (memtable_map m)(key \<mapsto> stored val)"
    and "fst (rbtree_memtable_put m key val) =
       (if val = None then None
        else Option.bind (tree_lookup me_key (mt_root m) key) me_val)" by blast+
qed

lemma put_inv [inv_intros]:
  assumes "memtable_inv m" and "key_ok key"
  shows "memtable_inv (snd (rbtree_memtable_put m key val))"
  using assms
proof (cases rule: put_cases [where val = val])
  case (fresh t')
  have "entry_weight (new_memtable_entry key val) = 1"
    by (cases val) (simp_all add: entry_weight_def)
  with fresh assms weight_add [OF fresh(2)] show ?thesis
    by (auto simp: rbtree_memtable_put_def memtable_inv_def entry_ok_def
        split: option.splits)
next
  case (present old)
  let ?x = "new_memtable_entry key val"
  have b: "bst_on me_key (mt_root m)" using assms(1) by (simp add: memtable_inv_def)
  have k: "me_key ?x = key" by simp
  note ag = memtable_inv_agrees [OF assms, of val]
  note mod = rb_modify_spec [OF b ag, unfolded k, OF present(1)]
  note wt = weight_modify [OF b ag, unfolded k, OF present(1)]
  have ok: "entry_ok e" if "e \<in> set_tree (mt_root m)" for e
    using assms(1) that by (simp add: memtable_inv_def)
  show ?thesis
  proof (cases val)
    case None
    let ?neg = "\<lambda>e. e\<lparr>me_val := None, me_negative_val := me_negative_val ?x\<rparr>"
    have "bst_on me_key (rb_modify memtable_entry_cmp ?x ?neg (mt_root m))"
      using mod [of ?neg] by simp
    moreover have "\<forall>e \<in> set_tree (rb_modify memtable_entry_cmp ?x ?neg (mt_root m)). entry_ok e"
      using ok None by (auto simp: entry_ok_def dest!: set_rb_modify)
    ultimately show ?thesis
      using assms(1) wt [of ?neg] unfolding None
      by (auto simp: rbtree_memtable_put_def present(3) [unfolded None] memtable_inv_def Let_def entry_weight_def
         )
  next
    case (Some v)
    let ?pos = "\<lambda>e. e\<lparr>me_val := me_val ?x\<rparr>"
    have "bst_on me_key (rb_modify memtable_entry_cmp ?x ?pos (mt_root m))"
      using mod [of ?pos] by simp
    moreover have "\<forall>e \<in> set_tree (rb_modify memtable_entry_cmp ?x ?pos (mt_root m)). entry_ok e"
      using ok Some by (auto simp: entry_ok_def dest!: set_rb_modify)
    ultimately show ?thesis
      using assms(1) wt [of ?pos] unfolding Some
      by (auto simp: rbtree_memtable_put_def present(3) [unfolded Some] memtable_inv_def Let_def entry_weight_def
         )
  qed
qed

section \<open>Removal and clearing\<close>

lemma cmp_rb_key_agrees:
  assumes "key_ok key" and "key_ok (me_key e)"
  shows "memtable_entry_cmp_rb_key key e = int key - int (me_key e)"
proof -
  have k: "key < 2 ^ 31" and e: "me_key e < 2 ^ 31" using assms by (simp_all add: key_ok_def)
  have "to_int (int key) = int key" by (rule to_int_id) (use k in simp_all)
  then show ?thesis
    unfolding memtable_entry_cmp_rb_key_def by (simp, intro to_int_id) (use k e in simp_all)
qed

lemma remove_entries:
  assumes "memtable_inv m" and "key_ok key"
  shows "inorder (mt_root (snd (rbtree_memtable_remove m key))) =
      filter (\<lambda>e. me_key e \<noteq> key) (inorder (mt_root m))"
    and "fst (rbtree_memtable_remove m key) =
      Option.bind (tree_lookup me_key (mt_root m) key) me_val"
proof -
  have b: "bst_on me_key (mt_root m)" using assms(1) by (simp add: memtable_inv_def)
  have c: "(memtable_entry_cmp_rb_key key y < 0 \<longleftrightarrow> key < me_key y) \<and>
       (0 < memtable_entry_cmp_rb_key key y \<longleftrightarrow> me_key y < key)" if "y \<in> set_tree (mt_root m)" for y
    using cmp_rb_key_agrees [of key y] assms that
    by (auto simp: memtable_inv_def entry_ok_def)
  note f = rb_find_spec [OF b c] and e = rb_erase_at_spec [OF b c]
  have "filter (\<lambda>e. me_key e \<noteq> key) (inorder (mt_root m)) = inorder (mt_root m)"
    if "tree_lookup me_key (mt_root m) key = None"
    using that by (auto simp: tree_lookup_None filter_id_conv)
  then show "inorder (mt_root (snd (rbtree_memtable_remove m key))) =
      filter (\<lambda>e. me_key e \<noteq> key) (inorder (mt_root m))"
    and "fst (rbtree_memtable_remove m key) =
      Option.bind (tree_lookup me_key (mt_root m) key) me_val"
    using f e by (auto simp: rbtree_memtable_remove_def Let_def split: option.splits)
qed

lemma clear_loop_Leaf: "memtable_clear_loop t = Leaf"
proof (induction t rule: memtable_clear_loop.induct)
  case (1 t)
  then show ?case
    by (cases "t = Leaf")
      (simp_all add: memtable_clear_loop.simps [of t] memtable_clear_loop.simps [of Leaf])
qed

lemma clear_create: "rbtree_memtable_clear m = rbtree_memtable_create"
  by (simp add: rbtree_memtable_clear_def rbtree_memtable_create_def clear_loop_Leaf)

section \<open>The interface the LSM tree relies on\<close>

text \<open>
  A table of keys: an abstract map, an invariant, the keys the implementation orders correctly,
  and the laws of \<^verbatim>\<open>put\<close> and \<^verbatim>\<open>get\<close>.
\<close>

locale key_table =
  fixes tmap :: "'t \<Rightarrow> nat \<Rightarrow> 'v option"
    and inv :: "'t \<Rightarrow> bool"
    and kok :: "nat \<Rightarrow> bool"
    and empty_t :: 't
    and put :: "'t \<Rightarrow> nat \<Rightarrow> 'w \<Rightarrow> 't"
    and val_of :: "'w \<Rightarrow> 'v"
    and get :: "'t \<Rightarrow> nat \<Rightarrow> 'v result"
  assumes inv_empty: "inv empty_t"
    and tmap_empty: "tmap empty_t = Map.empty"
    and inv_put: "inv t \<Longrightarrow> kok k \<Longrightarrow> inv (put t k w)"
    and tmap_put: "inv t \<Longrightarrow> kok k \<Longrightarrow> tmap (put t k w) = (tmap t)(k \<mapsto> val_of w)"
    and get_tmap: "inv t \<Longrightarrow> get t k = (case tmap t k of Some v \<Rightarrow> Inr v | None \<Rightarrow> Inl ENODATA)"
begin

lemma puts_inv:
  "inv t \<Longrightarrow> \<forall>(k, w) \<in> set kws. kok k \<Longrightarrow> inv (foldl (\<lambda>t (k, w). put t k w) t kws)"
  by (induction kws arbitrary: t) (auto simp: inv_put)

lemma puts_tmap:
  "inv t \<Longrightarrow> \<forall>(k, w) \<in> set kws. kok k \<Longrightarrow>
   tmap (foldl (\<lambda>t (k, w). put t k w) t kws) k =
     (case map_of (rev kws) k of Some w \<Rightarrow> Some (val_of w) | None \<Rightarrow> tmap t k)"
  by (induction kws arbitrary: t)
    (auto simp: inv_put tmap_put map_add_def split: option.splits)

text \<open>The last write to a key wins, and an unwritten key has no data.\<close>

lemma get_after_puts:
  "\<forall>(k, w) \<in> set kws. kok k \<Longrightarrow>
   get (foldl (\<lambda>t (k, w). put t k w) empty_t kws) k =
     (case map_of (rev kws) k of Some w \<Rightarrow> Inr (val_of w) | None \<Rightarrow> Inl ENODATA)"
  by (simp add: get_tmap puts_inv puts_tmap inv_empty tmap_empty split: option.splits)

end

interpretation mt: key_table memtable_map memtable_inv key_ok rbtree_memtable_create
  "\<lambda>m k v. snd (rbtree_memtable_put m k v)" stored rbtree_memtable_get
  by unfold_locales
    (simp_all add: memtable_inv_create memtable_map_create put_inv put_map get_map)

section \<open>Properties\<close>

text \<open>The table after a sequence of \<^verbatim>\<open>put\<close> calls on an empty table.\<close>

definition memtable_of :: "(nat \<times> blk_record option) list \<Rightarrow> memtable" where
  "memtable_of kvs = foldl (\<lambda>m (k, v). snd (rbtree_memtable_put m k v)) rbtree_memtable_create kvs"

text \<open>
  After any sequence of puts of keys below 2^31, a get of any key returns the record of the last
  put of that key, the tombstone if that put stored NULL, and -ENODATA if the key was never put.
\<close>

corollary memtable_last_write_wins:
  assumes "\<forall>(k, v) \<in> set kvs. k < 2 ^ 31"
  shows "rbtree_memtable_get (memtable_of kvs) key =
    (case map_of (rev kvs) key of Some v \<Rightarrow> Inr (stored v) | None \<Rightarrow> Inl ENODATA)"
  unfolding memtable_of_def
  by (rule mt.get_after_puts) (use assms in \<open>auto simp: key_ok_def\<close>)

text \<open>
  C9. One put on a well-formed table: the table stays well formed (ordered, and its size field is
  the number of values plus tombstones it holds, modulo the width of size_t), the map it stands for
  changes at the key only, and the pointer returned is the replaced value for a put of a record and
  NULL for a put of a tombstone or on a key without a value.
\<close>

theorem memtable_put_refines:
  assumes "memtable_inv m" and "key < 2 ^ 31"
  shows "memtable_inv (snd (rbtree_memtable_put m key val)) \<and>
    memtable_map (snd (rbtree_memtable_put m key val)) = (memtable_map m)(key \<mapsto> stored val) \<and>
    fst (rbtree_memtable_put m key val) =
      (if val = None then None else Option.bind (tree_lookup me_key (mt_root m) key) me_val)"
  using assms put_inv [of m key val] put_map [of m key val] by (simp add: key_ok_def)

theorem memtable_put_refines_witness:
  "fst (rbtree_memtable_put (snd (rbtree_memtable_put rbtree_memtable_create 5 (Some negative))) 5
     (Some negative)) = Some negative"
proof -
  let ?m = "snd (rbtree_memtable_put rbtree_memtable_create 5 (Some negative))"
  have i: "memtable_inv ?m"
    by (rule put_inv) (simp_all add: memtable_inv_create key_ok_def)
  have "tree_lookup me_key (mt_root ?m) 5 = Some (new_memtable_entry 5 (Some negative))"
    by (simp add: rbtree_memtable_put_def rbtree_memtable_create_def tree_lookup_def)
  then show ?thesis using memtable_put_refines [OF i, of 5 "Some negative"] by simp
qed

text \<open>
  The walk that feeds a minor compaction delivers the entries of a well-formed table in strictly
  increasing key order, and a key has an entry in it exactly when a get of the key finds data, which
  is then the entry's value, or its tombstone when it has no value.
\<close>

theorem memtable_walk_sorted_complete:
  assumes "memtable_inv m"
  shows "sorted_wrt (<) (map me_key (rbtree_memtable_get_all_entry m)) \<and>
    (rbtree_memtable_get m key = Inr r \<longleftrightarrow>
      (\<exists>e \<in> set (rbtree_memtable_get_all_entry m). me_key e = key \<and> entry_value e = Some r))"
proof -
  have b: "bst_on me_key (mt_root m)" using assms by (simp add: memtable_inv_def)
  have "tree_lookup me_key (mt_root m) (me_key e) = Some e" if "e \<in> set_tree (mt_root m)" for e
    using b that by (rule tree_lookup_mem)
  then have "memtable_map m key = Some r \<longleftrightarrow>
      (\<exists>e \<in> set_tree (mt_root m). me_key e = key \<and> entry_value e = Some r)"
    by (auto simp: memtable_map_def bind_eq_Some_conv dest!: tree_lookup_Some)
  with b assms show ?thesis
    by (auto simp: rbtree_memtable_get_all_entry_def bst_on_def get_map split: option.splits)
qed

theorem memtable_walk_sorted_complete_witness:
  "sorted_wrt (<) (map me_key (rbtree_memtable_get_all_entry
     (snd (rbtree_memtable_put rbtree_memtable_create 9 None))))"
proof -
  have "memtable_inv (snd (rbtree_memtable_put rbtree_memtable_create 9 None))"
    by (rule put_inv) (simp_all add: memtable_inv_create key_ok_def)
  from memtable_walk_sorted_complete [OF this] show ?thesis by blast
qed

text \<open>A key that is 2^31 or more above every key stored is filed to the left of all of them.\<close>

lemma to_int_far:
  assumes "2 ^ 31 \<le> d" and "d < 2 ^ 32"
  shows "to_int d < 0"
proof -
  have "to_int d = to_int (d - 2 ^ 32)" by (simp add: to_int_def signed_take_bit_eq_iff_take_bit_eq take_bit_eq_mod)
  then show ?thesis using assms to_int_id [of "d - 2 ^ 32"] by simp
qed

lemma far_find_add:
  assumes "\<forall>e \<in> set_tree t. me_key e + 2 ^ 31 \<le> key" and "key < 2 ^ 32"
  obtains t' where "rb_find_add memtable_entry_cmp (new_memtable_entry key val) t = (None, t')"
    and "\<And>k. k \<noteq> key \<Longrightarrow> rbtree_memtable_search t' k = rbtree_memtable_search t k"
    and "t \<noteq> Leaf \<Longrightarrow> rbtree_memtable_search t' key = None"
  using assms(1)
proof (induction t arbitrary: thesis)
  case Leaf
  then show ?case by (cases val) auto
next
  case (Node l e r)
  have far: "me_key e + 2 ^ 31 \<le> key" using Node.prems(2) by simp
  then have "memtable_entry_cmp (new_memtable_entry key val) e < 0"
    using assms(2) unfolding memtable_entry_cmp_def by (intro to_int_far) auto
  moreover obtain l' where l': "rb_find_add memtable_entry_cmp (new_memtable_entry key val) l = (None, l')"
    "\<And>k. k \<noteq> key \<Longrightarrow> rbtree_memtable_search l' k = rbtree_memtable_search l k"
    by (rule Node.IH(1)) (use Node.prems(2) in auto)
  moreover have "rbtree_memtable_search r key = None" if "\<forall>e \<in> set_tree r. me_key e < key" for r
    using that by (induction r) auto
  then have "rbtree_memtable_search r key = None" using Node.prems(2) by fastforce
  ultimately show ?case using Node.prems(1) [of "Node l' e r"] far by simp
qed

text \<open>
  C19. The comparison callback returns the difference of two keys truncated to int, while the search compares
  the keys themselves.  A put of a key that lies 2^31 or more above every key of a table that is not empty
  files the new entry to the left of all others: the put counts one entry more and answers that nothing was
  replaced, no other key is found differently, and a get of the key just put does not find it.
\<close>

theorem memtable_far_keys_lost:
  assumes "mt_root m \<noteq> Leaf" and "\<forall>e \<in> set_tree (mt_root m). me_key e + 2 ^ 31 \<le> key" and "key < 2 ^ 32"
  shows "let (old, m') = rbtree_memtable_put m key val
    in old = None \<and> mt_size m' = mt_size m + 1 \<and> rbtree_memtable_get m' key = Inl ENODATA \<and>
       (\<forall>k. k \<noteq> key \<longrightarrow> rbtree_memtable_get m' k = rbtree_memtable_get m k)"
proof -
  obtain t' where "rb_find_add memtable_entry_cmp (new_memtable_entry key val) (mt_root m) = (None, t')"
    "\<And>k. k \<noteq> key \<Longrightarrow> rbtree_memtable_search t' k = rbtree_memtable_search (mt_root m) k"
    "rbtree_memtable_search t' key = None"
    using far_find_add [OF assms(2,3), of val] assms(1) by blast
  then show ?thesis by (simp add: rbtree_memtable_put_def rbtree_memtable_get_def)
qed

text \<open>A table with keys 0 and 3, and the keys 2^31 + 3 and 2^32 - 1.\<close>

theorem memtable_far_keys_lost_witness:
  "let r = record_create [] 9 None None; r' = record_create [] 8 None None; m = memtable_of [(3, Some r), (0, None)]
   in rbtree_memtable_get (snd (rbtree_memtable_put m (2 ^ 31 + 3) (Some r'))) (2 ^ 31 + 3) = Inl ENODATA \<and>
      rbtree_memtable_get (snd (rbtree_memtable_put m (2 ^ 32 - 1) (Some r'))) 3 = Inr r"
proof -
  define r r' where "r = record_create [] 9 None None" and "r' = record_create [] 8 None None"
  let ?m = "memtable_of [(3, Some r), (0, None)]"
  have m: "mt_root ?m = Node (Node Leaf (new_memtable_entry 0 None) Leaf) (new_memtable_entry 3 (Some r)) Leaf"
    by (simp add: memtable_of_def rbtree_memtable_put_def rbtree_memtable_create_def memtable_entry_cmp_def to_int_id Let_def)
  have f: "mt_root ?m \<noteq> Leaf" "\<forall>e \<in> set_tree (mt_root ?m). me_key e + 2 ^ 31 \<le> key" if "2 ^ 31 + 3 \<le> key" for key
    using that by (simp_all add: m)
  have "rbtree_memtable_get ?m 3 = Inr r" by (simp add: rbtree_memtable_get_def m)
  then show ?thesis
    using memtable_far_keys_lost [OF f [of "2 ^ 31 + 3"], of "Some r'"] memtable_far_keys_lost [OF f [of "2 ^ 32 - 1"], of "Some r'"]
    unfolding r_def [symmetric] r'_def [symmetric] by (simp add: Let_def case_prod_beta)
qed

end
