(* ===== verification/Segment_Buffer.thy ===== *)
theory Segment_Buffer
  imports Memtable
begin

text \<open>
  \<^verbatim>\<open>segment_buffer.c\<close>, the pool of data segments: blocks that were written and have not reached a
  segment of the disk yet.  One entry of the pool takes the writes; when it holds a whole segment of
  blocks a work item to flush it is queued and the next entry is made empty and takes over.  Flushing
  is in \<open>Device_Flush\<close>.

  \<open>sb_work\<close> are the queued work items (indices of pool entries, oldest first); the work queue runs
  one at a time.  Random keys are drawn from \<open>rnd\<close>, a fresh \<^verbatim>\<open>vmalloc\<close> area holds \<open>vmem\<close>; the counter
  \<open>sb_inits\<close> says how often both were used.
\<close>

section \<open>Data segments\<close>

definition DATA_BLOCK_SIZE :: nat where "DATA_BLOCK_SIZE = SECTORS_PER_BLOCK * SECTOR_SIZE"
definition POOL_SIZE :: nat where "POOL_SIZE = 4"

lemma DATA_BLOCK_SIZE_value [consts_simps]: "DATA_BLOCK_SIZE = 4096"
  by (simp add: DATA_BLOCK_SIZE_def consts_simps)

record segment_block =
  blk_lba :: dm_block_t
  blk_plain :: "byte list"

text \<open>The \<^verbatim>\<open>cipher_segment\<close> is an array of blocks.\<close>

record data_segment =
  dseg_size :: int
  dseg_cur_segment :: nat
  dseg_seg_key :: "byte list"
  dseg_cipher_segment :: "nat \<Rightarrow> byte list"
  dseg_root :: "segment_block tree"

definition segment_block_new :: "nat \<Rightarrow> segment_block" where
  "segment_block_new lba = \<lparr>blk_lba = u32 lba, blk_plain = replicate DATA_BLOCK_SIZE 0\<rparr>"

definition segment_block_cmp_key :: "nat \<Rightarrow> segment_block \<Rightarrow> int" where
  "segment_block_cmp_key key blk = to_int (int key - int (blk_lba blk))"

definition data_segment_get :: "data_segment \<Rightarrow> nat \<Rightarrow> segment_block option" where
  "data_segment_get ds lba = rb_find (segment_block_cmp_key (u32 lba)) (dseg_root ds)"

text \<open>The caller names the node it holds a pointer to by its block number.\<close>

definition data_segment_remove :: "data_segment \<Rightarrow> segment_block \<Rightarrow> data_segment" where
  "data_segment_remove ds blk =
     ds\<lparr>dseg_root := rb_erase_node (\<lambda>b. blk_lba b = blk_lba blk) (dseg_root ds), dseg_size := dseg_size ds - 1\<rparr>"

definition segment_block_cmp_node :: "segment_block \<Rightarrow> segment_block \<Rightarrow> int" where
  "segment_block_cmp_node nb pb = to_int (int (blk_lba nb) - int (blk_lba pb))"

text \<open>A block that compares equal to one of the tree removes that one and is not linked itself.\<close>

definition data_segment_add :: "data_segment \<Rightarrow> segment_block \<Rightarrow> data_segment" where
  "data_segment_add ds blk =
     (case rb_find_add segment_block_cmp_node blk (dseg_root ds) of
        (Some old, root) \<Rightarrow> ds\<lparr>dseg_root := rb_erase_at (segment_block_cmp_node blk) root\<rparr>
      | (None, root) \<Rightarrow> ds\<lparr>dseg_root := root, dseg_size := dseg_size ds + 1\<rparr>)"

definition data_segment_init :: "byte list \<Rightarrow> (nat \<Rightarrow> byte list) \<Rightarrow> data_segment \<Rightarrow> data_segment" where
  "data_segment_init rnd vmem ds =
     ds\<lparr>dseg_size := 0, dseg_root := Leaf, dseg_seg_key := rnd, dseg_cipher_segment := vmem\<rparr>"

function data_segment_destroy :: "data_segment \<Rightarrow> data_segment" where
  "data_segment_destroy ds =
     (if dseg_root ds = Leaf then ds
      else data_segment_destroy (ds\<lparr>dseg_root := rb_erase_first (dseg_root ds)\<rparr>))"
  by pat_completeness auto
termination by (relation "measure (size \<circ> dseg_root)") (auto simp: size_rb_erase_first)

declare data_segment_destroy.simps [simp del]

section \<open>The pool\<close>

record segment_buffer =
  sb_cur_buffer :: nat
  sb_buffer :: "data_segment list"
  sb_work :: "nat list"
  sb_inits :: nat

record segbuf_env =
  se_rnd :: "nat \<Rightarrow> byte list"
  se_vmem :: "nat \<Rightarrow> nat \<Rightarrow> byte list"

definition zero_segment :: data_segment where
  "zero_segment = \<lparr>dseg_size = 0, dseg_cur_segment = 0, dseg_seg_key = replicate AES_GCM_KEY_SIZE 0,
     dseg_cipher_segment = (\<lambda>_. []), dseg_root = Leaf\<rparr>"

definition segbuf_init :: "segbuf_env \<Rightarrow> segment_buffer" where
  "segbuf_init env =
     \<lparr>sb_cur_buffer = 0,
      sb_buffer = (replicate POOL_SIZE zero_segment)[0 := data_segment_init (se_rnd env 0) (se_vmem env 0) zero_segment],
      sb_work = [], sb_inits = 1\<rparr>"

text \<open>The entries of the pool, the one that takes the writes first, then back in time.\<close>

definition pool_index :: "segment_buffer \<Rightarrow> nat \<Rightarrow> nat" where
  "pool_index buf i = (sb_cur_buffer buf + POOL_SIZE - i) mod POOL_SIZE"

fun segbuf_find :: "segment_buffer \<Rightarrow> nat \<Rightarrow> nat list \<Rightarrow> segment_block option" where
  "segbuf_find buf lba [] = None"
| "segbuf_find buf lba (i # is) =
     (case data_segment_get (sb_buffer buf ! pool_index buf i) lba of
        Some blk \<Rightarrow> Some blk
      | None \<Rightarrow> segbuf_find buf lba is)"

definition segbuf_query_block :: "segment_buffer \<Rightarrow> nat \<Rightarrow> byte list result" where
  "segbuf_query_block buf lba =
     (case segbuf_find buf (u32 lba) [0..<POOL_SIZE] of
        Some blk \<Rightarrow> Inr (take DATA_BLOCK_SIZE (blk_plain blk))
      | None \<Rightarrow> Inl ENODATA)"

text \<open>\<^verbatim>\<open>memcpy\<close> into the block of the tree that compares equal.\<close>

definition data_segment_write :: "data_segment \<Rightarrow> segment_block \<Rightarrow> byte list \<Rightarrow> data_segment" where
  "data_segment_write ds blk data =
     ds\<lparr>dseg_root := rb_modify segment_block_cmp_node blk (\<lambda>b. b\<lparr>blk_plain := take DATA_BLOCK_SIZE data\<rparr>) (dseg_root ds)\<rparr>"

text \<open>Queue the work item of the entry and make the next one empty.\<close>

definition segbuf_rotate :: "segbuf_env \<Rightarrow> segment_buffer \<Rightarrow> segment_buffer" where
  "segbuf_rotate env buf =
     (let cur = sb_cur_buffer buf; next_buffer = (cur + 1) mod POOL_SIZE;
          ds = sb_buffer buf ! next_buffer;
          ds1 = (if dseg_size ds > 0 then data_segment_destroy ds else ds);
          ds2 = data_segment_init (se_rnd env (sb_inits buf)) (se_vmem env (sb_inits buf)) ds1
      in buf\<lparr>sb_work := sb_work buf @ [cur], sb_cur_buffer := next_buffer,
             sb_buffer := (sb_buffer buf)[next_buffer := ds2], sb_inits := sb_inits buf + 1\<rparr>)"

definition segbuf_push_block :: "segbuf_env \<Rightarrow> segment_buffer \<Rightarrow> dm_block_t \<Rightarrow> byte list \<Rightarrow> bool \<Rightarrow> segment_buffer" where
  "segbuf_push_block env buf lba data rflag =
     (let cur = sb_cur_buffer buf
      in if \<not> rflag \<and> segbuf_find buf lba [0..<POOL_SIZE] \<noteq> None then buf
         else let ds = sb_buffer buf ! cur;
                  ds1 = (case (if rflag then data_segment_get ds lba else None) of
                           Some blk \<Rightarrow> data_segment_write ds blk data
                         | None \<Rightarrow> let blk = segment_block_new lba in data_segment_write (data_segment_add ds blk) blk data);
                  buf1 = buf\<lparr>sb_buffer := (sb_buffer buf)[cur := ds1]\<rparr>
              in if dseg_size ds1 \<ge> int BLOCKS_PER_SEGMENT then segbuf_rotate env buf1 else buf1)"

section \<open>What the pool holds\<close>

definition seg_map :: "data_segment \<Rightarrow> nat \<rightharpoonup> byte list" where
  "seg_map ds k = map_option blk_plain (tree_lookup blk_lba (dseg_root ds) k)"

definition seg_inv :: "data_segment \<Rightarrow> bool" where
  "seg_inv ds \<longleftrightarrow> bst_on blk_lba (dseg_root ds) \<and>
     (\<forall>b \<in> set_tree (dseg_root ds). key_ok (blk_lba b) \<and> length (blk_plain b) = DATA_BLOCK_SIZE) \<and>
     dseg_size ds = int (size (dseg_root ds))"

lemma seg_inv_init [simp]: "seg_inv (data_segment_init rnd vmem ds)" and seg_map_init [simp]: "seg_map (data_segment_init rnd vmem ds) = Map.empty"
  by (simp_all add: seg_inv_def data_segment_init_def seg_map_def fun_eq_iff)

lemma zero_segment_inv [simp]: "seg_inv zero_segment" "seg_map zero_segment = Map.empty"
  by (simp_all add: seg_inv_def zero_segment_def seg_map_def fun_eq_iff)

lemma key_ok_u32 [simp]: "key_ok k \<Longrightarrow> u32 k = k"
  by (simp add: key_ok_def)

lemma segment_cmp_agrees:
  assumes "\<forall>b \<in> S. key_ok (blk_lba b)"
  shows "cmp_agrees segment_block_cmp_node blk_lba S"
proof -
  have "segment_block_cmp_node x y = int (blk_lba x) - int (blk_lba y)" if "x \<in> S" "y \<in> S" for x y
  proof -
    have "blk_lba x < 2 ^ 31" "blk_lba y < 2 ^ 31" using assms that by (auto simp: key_ok_def)
    then show ?thesis unfolding segment_block_cmp_node_def by (intro to_int_id) simp_all
  qed
  then show ?thesis by (auto simp: cmp_agrees_def)
qed

lemma data_segment_get_spec:
  assumes "seg_inv ds" and "key_ok lba"
  shows "data_segment_get ds lba = tree_lookup blk_lba (dseg_root ds) lba"
  unfolding data_segment_get_def
proof (rule rb_find_spec)
  show "bst_on blk_lba (dseg_root ds)" using assms(1) by (simp add: seg_inv_def)
  fix y assume "y \<in> set_tree (dseg_root ds)"
  then have "blk_lba y < 2 ^ 31" "lba < 2 ^ 31" using assms by (auto simp: seg_inv_def key_ok_def)
  then have "segment_block_cmp_key (u32 lba) y = int lba - int (blk_lba y)"
    unfolding segment_block_cmp_key_def by (simp add: to_int_id)
  then show "(segment_block_cmp_key (u32 lba) y < 0 \<longleftrightarrow> lba < blk_lba y) \<and> (0 < segment_block_cmp_key (u32 lba) y \<longleftrightarrow> blk_lba y < lba)"
    by auto
qed

lemma seg_map_get: "seg_inv ds \<Longrightarrow> key_ok lba \<Longrightarrow> map_option blk_plain (data_segment_get ds lba) = seg_map ds lba"
  by (simp add: data_segment_get_spec seg_map_def)

lemma seg_map_length: "seg_inv ds \<Longrightarrow> seg_map ds k = Some d \<Longrightarrow> length d = DATA_BLOCK_SIZE"
  by (auto simp: seg_map_def seg_inv_def dest!: tree_lookup_Some)

lemma seg_map_key_ok: "seg_inv ds \<Longrightarrow> seg_map ds k = Some d \<Longrightarrow> key_ok k"
  by (auto simp: seg_map_def seg_inv_def dest!: tree_lookup_Some)

lemma size_inorder: "size t = length (inorder t)"
  by (induction t) simp_all

lemma size_rb_find_add: "rb_find_add cmp x t = (None, t') \<Longrightarrow> size t' = Suc (size t)"
  by (induction t arbitrary: t') (auto split: prod.splits if_splits)

lemma seg_write_spec:
  assumes inv: "seg_inv ds" and "key_ok (blk_lba blk)" and "tree_lookup blk_lba (dseg_root ds) (blk_lba blk) \<noteq> None"
    and len: "length data = DATA_BLOCK_SIZE"
  shows "seg_inv (data_segment_write ds blk data) \<and>
    seg_map (data_segment_write ds blk data) = (seg_map ds)(blk_lba blk \<mapsto> data) \<and>
    dseg_size (data_segment_write ds blk data) = dseg_size ds"
proof -
  let ?g = "\<lambda>b. b\<lparr>blk_plain := take DATA_BLOCK_SIZE data\<rparr>"
  let ?t = "rb_modify segment_block_cmp_node blk ?g (dseg_root ds)"
  obtain y where y: "tree_lookup blk_lba (dseg_root ds) (blk_lba blk) = Some y" using assms(3) by blast
  have "cmp_agrees segment_block_cmp_node blk_lba (insert blk (set_tree (dseg_root ds)))"
    using inv assms(2) by (intro segment_cmp_agrees) (auto simp: seg_inv_def)
  from rb_modify_spec [OF _ this y, of ?g] have m: "bst_on blk_lba ?t"
    "map blk_lba (inorder ?t) = map blk_lba (inorder (dseg_root ds))"
    "tree_lookup blk_lba ?t k = (if k = blk_lba blk then Some (?g y) else tree_lookup blk_lba (dseg_root ds) k)" for k
    using inv by (auto simp: seg_inv_def)
  have "key_ok (blk_lba b) \<and> length (blk_plain b) = DATA_BLOCK_SIZE" if "b \<in> set_tree ?t" for b
  proof -
    have l: "tree_lookup blk_lba ?t (blk_lba b) = Some b" using tree_lookup_mem [OF m(1) that] .
    show ?thesis
    proof (cases "blk_lba b = blk_lba blk")
      case True
      then have "b = ?g y" using l m(3) [of "blk_lba b"] by simp
      then show ?thesis using True assms(2) len by simp
    next
      case False
      then have "tree_lookup blk_lba (dseg_root ds) (blk_lba b) = Some b" using l m(3) [of "blk_lba b"] by simp
      then show ?thesis using inv tree_lookup_Some unfolding seg_inv_def by fastforce
    qed
  qed
  moreover have "size ?t = size (dseg_root ds)" unfolding size_inorder by (metis m(2) length_map)
  moreover have "seg_map (data_segment_write ds blk data) = (seg_map ds)(blk_lba blk \<mapsto> data)"
    using m(3) len by (simp add: fun_eq_iff seg_map_def data_segment_write_def)
  ultimately show ?thesis using inv m(1) by (simp add: seg_inv_def data_segment_write_def)
qed

lemma seg_add_spec:
  assumes inv: "seg_inv ds" and "key_ok lba" and none: "tree_lookup blk_lba (dseg_root ds) lba = None"
  shows "seg_inv (data_segment_add ds (segment_block_new lba)) \<and>
    tree_lookup blk_lba (dseg_root (data_segment_add ds (segment_block_new lba))) lba \<noteq> None \<and>
    seg_map (data_segment_add ds (segment_block_new lba)) = (seg_map ds)(lba \<mapsto> replicate DATA_BLOCK_SIZE 0) \<and>
    dseg_size (data_segment_add ds (segment_block_new lba)) = dseg_size ds + 1"
proof -
  let ?b = "segment_block_new lba"
  have b: "blk_lba ?b = lba" "blk_plain ?b = replicate DATA_BLOCK_SIZE 0" using assms(2) by (simp_all add: segment_block_new_def)
  obtain old t where t: "rb_find_add segment_block_cmp_node ?b (dseg_root ds) = (old, t)" by fastforce
  have "cmp_agrees segment_block_cmp_node blk_lba (insert ?b (set_tree (dseg_root ds)))"
    using inv assms(2) b by (intro segment_cmp_agrees) (auto simp: seg_inv_def)
  from rb_find_add_spec [OF _ this t] have s: "old = None" "bst_on blk_lba t" "set_tree t = insert ?b (set_tree (dseg_root ds))"
    "tree_lookup blk_lba t k = (if k = lba then Some ?b else tree_lookup blk_lba (dseg_root ds) k)" for k
    using inv none b by (auto simp: seg_inv_def)
  have a: "data_segment_add ds ?b = ds\<lparr>dseg_root := t, dseg_size := dseg_size ds + 1\<rparr>"
    using t s(1) by (simp add: data_segment_add_def)
  show ?thesis using inv assms(2) s b size_rb_find_add [OF t [unfolded s(1)]]
    by (auto simp: a seg_inv_def seg_map_def fun_eq_iff)
qed

lemma destroy_Leaf: "dseg_root (data_segment_destroy ds) = Leaf"
  by (induction ds rule: data_segment_destroy.induct) (subst data_segment_destroy.simps, auto)

lemma seg_card: "seg_inv ds \<Longrightarrow> dom (seg_map ds) = blk_lba ` set_tree (dseg_root ds)"
  by (auto simp: seg_map_def dom_def tree_lookup_None image_iff)

text \<open>
  The contents of the pool, newest entry first, and its invariant.  The queued work items are those of
  the entries before the current one, the oldest of them first; beyond them come entries that were
  flushed or never used.
\<close>

abbreviation pool_seg :: "segment_buffer \<Rightarrow> nat \<Rightarrow> data_segment" where
  "pool_seg buf i \<equiv> sb_buffer buf ! pool_index buf i"

definition pool_maps :: "segment_buffer \<Rightarrow> (nat \<rightharpoonup> byte list) list" where
  "pool_maps buf = map (\<lambda>i. seg_map (pool_seg buf i)) [0..<POOL_SIZE]"

definition pool_inv :: "segment_buffer \<Rightarrow> bool" where
  "pool_inv buf \<longleftrightarrow> length (sb_buffer buf) = POOL_SIZE \<and> sb_cur_buffer buf < POOL_SIZE \<and>
     (\<forall>ds \<in> set (sb_buffer buf). seg_inv ds \<and> dseg_size ds \<le> int BLOCKS_PER_SEGMENT) \<and>
     dseg_size (sb_buffer buf ! sb_cur_buffer buf) < int BLOCKS_PER_SEGMENT \<and>
     length (sb_work buf) < POOL_SIZE \<and> sb_work buf = map (pool_index buf) (rev [1..<Suc (length (sb_work buf))])"

text \<open>The first of a list of maps that has the key decides.\<close>

fun overlay :: "('a \<rightharpoonup> 'b) list \<Rightarrow> 'a \<rightharpoonup> 'b" where
  "overlay [] = Map.empty"
| "overlay (m # ms) = overlay ms ++ m"

lemma overlay_append: "overlay (ms @ ns) = overlay ns ++ overlay ms"
  by (induction ms) simp_all

lemma pool_index_less [simp]: "pool_index buf i < POOL_SIZE"
  by (simp add: pool_index_def POOL_SIZE_def)

lemma pool_index_0 [simp]: "sb_cur_buffer buf < POOL_SIZE \<Longrightarrow> pool_index buf 0 = sb_cur_buffer buf"
  by (simp add: pool_index_def POOL_SIZE_def)

lemma pool_segs: "[0..<POOL_SIZE] = [0, 1, 2, 3]"
  by (simp add: POOL_SIZE_def upt_rec)

lemma pool_maps_list:
  "pool_maps buf = [seg_map (pool_seg buf 0), seg_map (pool_seg buf 1), seg_map (pool_seg buf 2), seg_map (pool_seg buf 3)]"
  by (simp add: pool_maps_def pool_segs)

lemma less_pool: "i < POOL_SIZE \<longleftrightarrow> i = 0 \<or> i = 1 \<or> i = 2 \<or> i = 3"
  by (auto simp: POOL_SIZE_def)

lemma pool_index_inj:
  assumes "sb_cur_buffer buf < POOL_SIZE" and "i < POOL_SIZE" "j < POOL_SIZE" and "pool_index buf i = pool_index buf j"
  shows "i = j"
  using assms unfolding less_pool pool_index_def by (elim disjE) (simp_all add: POOL_SIZE_def)

text \<open>For lookups the state of the work queue does not matter.\<close>

definition pool_wf :: "segment_buffer \<Rightarrow> bool" where
  "pool_wf buf \<longleftrightarrow> length (sb_buffer buf) = POOL_SIZE \<and> sb_cur_buffer buf < POOL_SIZE \<and> (\<forall>ds \<in> set (sb_buffer buf). seg_inv ds)"

lemma pool_inv_wf: "pool_inv buf \<Longrightarrow> pool_wf buf"
  by (simp add: pool_inv_def pool_wf_def)

lemma pool_wf_seg: "pool_wf buf \<Longrightarrow> seg_inv (pool_seg buf i)"
  by (simp add: pool_wf_def)

lemmas pool_inv_seg = pool_wf_seg [OF pool_inv_wf]

lemma find_spec:
  assumes "pool_wf buf" and "key_ok lba"
  shows "map_option blk_plain (segbuf_find buf lba is) = overlay (map (\<lambda>i. seg_map (pool_seg buf i)) is) lba"
  using assms by (induction "is") (auto simp: map_add_def seg_map_get [symmetric] pool_wf_seg split: option.split)

lemma find_None: "pool_wf buf \<Longrightarrow> key_ok lba \<Longrightarrow>
    segbuf_find buf lba [0..<POOL_SIZE] = None \<longleftrightarrow> overlay (pool_maps buf) lba = None"
  using find_spec [of buf lba "[0..<POOL_SIZE]"] by (auto simp: pool_maps_def)

lemma overlay_length:
  assumes "pool_wf buf" and "overlay (pool_maps buf) lba = Some d"
  shows "length d = DATA_BLOCK_SIZE" and "key_ok lba"
  using assms by (auto simp: pool_maps_list map_add_def split: option.splits
      dest: seg_map_length [OF pool_wf_seg [OF assms(1)]] seg_map_key_ok [OF pool_wf_seg [OF assms(1)]])

lemma query_spec:
  assumes "pool_wf buf" and "key_ok lba"
  shows "segbuf_query_block buf lba =
    (case overlay (pool_maps buf) lba of Some d \<Rightarrow> Inr d | None \<Rightarrow> Inl ENODATA)"
proof -
  have "map_option blk_plain (segbuf_find buf lba [0..<POOL_SIZE]) = overlay (pool_maps buf) lba"
    using find_spec [OF assms] by (simp add: pool_maps_def)
  then show ?thesis using assms overlay_length(1) [OF assms(1), of lba]
    by (cases "segbuf_find buf lba [0..<POOL_SIZE]"; cases "overlay (pool_maps buf) lba") (auto simp: segbuf_query_block_def)
qed

lemma pool_init: "pool_inv (segbuf_init env)" "pool_maps (segbuf_init env) = replicate POOL_SIZE Map.empty" "sb_work (segbuf_init env) = []"
proof -
  have replicate_pool: "replicate POOL_SIZE x = [x, x, x, x]" for x :: 'a by (simp add: POOL_SIZE_def numeral_eq_Suc)
  have s: "segbuf_init env = \<lparr>sb_cur_buffer = 0,
      sb_buffer = [data_segment_init (se_rnd env 0) (se_vmem env 0) zero_segment, zero_segment, zero_segment, zero_segment],
      sb_work = [], sb_inits = 1\<rparr>" by (simp add: segbuf_init_def POOL_SIZE_def numeral_eq_Suc)
  show "pool_inv (segbuf_init env)" unfolding s
    by (simp add: pool_inv_def POOL_SIZE_def) (simp add: data_segment_init_def zero_segment_def)
  show "pool_maps (segbuf_init env) = replicate POOL_SIZE Map.empty"
    by (simp add: pool_maps_list s pool_index_def replicate_pool) (simp add: POOL_SIZE_def)
  show "sb_work (segbuf_init env) = []" by (simp add: s)
qed

text \<open>Writing into the current entry.\<close>

definition pool_write :: "segment_buffer \<Rightarrow> nat \<Rightarrow> byte list \<Rightarrow> data_segment" where
  "pool_write buf lba data =
     (let ds = sb_buffer buf ! sb_cur_buffer buf
      in case data_segment_get ds lba of
           Some blk \<Rightarrow> data_segment_write ds blk data
         | None \<Rightarrow> let blk = segment_block_new lba in data_segment_write (data_segment_add ds blk) blk data)"

lemma pool_write_spec:
  assumes "pool_inv buf" and "key_ok lba" and "length data = DATA_BLOCK_SIZE"
  shows "seg_inv (pool_write buf lba data) \<and> seg_map (pool_write buf lba data) = (seg_map (pool_seg buf 0))(lba \<mapsto> data) \<and>
    dseg_size (pool_write buf lba data) =
      dseg_size (sb_buffer buf ! sb_cur_buffer buf) + of_bool (seg_map (pool_seg buf 0) lba = None)"
proof -
  let ?ds = "sb_buffer buf ! sb_cur_buffer buf"
  have ds: "seg_inv ?ds" "dseg_size ?ds < int BLOCKS_PER_SEGMENT" "pool_seg buf 0 = ?ds"
    using assms(1) by (simp_all add: pool_inv_def)
  note get = data_segment_get_spec [OF ds(1) assms(2)]
  show ?thesis
  proof (cases "data_segment_get ?ds lba")
    case None
    note a = seg_add_spec [OF ds(1) assms(2) None [unfolded get]]
    have b: "blk_lba (segment_block_new lba) = lba" using assms(2) by (simp add: segment_block_new_def)
    show ?thesis
      using seg_write_spec [of "data_segment_add ?ds (segment_block_new lba)" "segment_block_new lba" data] a b assms ds None get
      by (simp add: pool_write_def Let_def seg_map_def)
  next
    case (Some blk)
    then have "blk_lba blk = lba" using get tree_lookup_Some by metis
    then show ?thesis using seg_write_spec [OF ds(1), of blk data] Some get assms ds
      by (simp add: pool_write_def Let_def seg_map_def)
  qed
qed

lemma push_cases:
  assumes "pool_inv buf" and "key_ok lba" and "rflag \<or> overlay (pool_maps buf) lba = None"
  shows "segbuf_push_block env buf lba data rflag =
    (let buf1 = buf\<lparr>sb_buffer := (sb_buffer buf)[sb_cur_buffer buf := pool_write buf lba data]\<rparr>
     in if dseg_size (pool_write buf lba data) \<ge> int BLOCKS_PER_SEGMENT then segbuf_rotate env buf1 else buf1)"
proof -
  have "data_segment_get (sb_buffer buf ! sb_cur_buffer buf) lba = None" if "\<not> rflag"
  proof -
    have "seg_map (pool_seg buf 0) lba = None" using assms(3) that by (auto simp: pool_maps_list)
    then show ?thesis using seg_map_get [OF pool_inv_seg [OF assms(1)] assms(2), of 0] assms(1) by (auto simp: pool_inv_def)
  qed
  then show ?thesis using assms find_None [OF pool_inv_wf [OF assms(1)] assms(2)]
    by (auto simp: segbuf_push_block_def pool_write_def Let_def)
qed

lemma pool_index_next:
  assumes "sb_cur_buffer buf < POOL_SIZE"
  shows "pool_index buf 3 = (sb_cur_buffer buf + 1) mod POOL_SIZE"
  using assms unfolding less_pool pool_index_def by (elim disjE) (simp_all add: POOL_SIZE_def)

lemma rotate_index:
  assumes "sb_cur_buffer buf < POOL_SIZE" and "i < 3"
  shows "pool_index (segbuf_rotate env buf) (Suc i) = pool_index buf i"
proof -
  have "i = 0 \<or> i = 1 \<or> i = 2" using assms(2) by auto
  then show ?thesis using assms(1) unfolding less_pool pool_index_def segbuf_rotate_def Let_def
    by (elim disjE) (simp_all add: POOL_SIZE_def)
qed

lemma rotate_seg:
  assumes "sb_cur_buffer buf < POOL_SIZE" and "length (sb_buffer buf) = POOL_SIZE"
  shows "i < 3 \<Longrightarrow> pool_seg (segbuf_rotate env buf) (Suc i) = pool_seg buf i"
    and "seg_map (pool_seg (segbuf_rotate env buf) 0) = Map.empty"
    and "\<forall>ds \<in> set (sb_buffer (segbuf_rotate env buf)). ds \<in> set (sb_buffer buf) \<or> seg_inv ds \<and> dseg_size ds = 0"
    and "dseg_size (pool_seg (segbuf_rotate env buf) 0) = 0"
proof -
  let ?n = "pool_index buf 3"
  let ?r = "segbuf_rotate env buf"
  obtain ds rnd vmem where r: "sb_buffer ?r = (sb_buffer buf)[?n := data_segment_init rnd vmem ds]" "sb_cur_buffer ?r = ?n"
    by (simp add: segbuf_rotate_def Let_def pool_index_next [OF assms(1)])
  have z: "pool_index ?r 0 = ?n" using r(2) pool_index_less [of buf 3] by (metis pool_index_0)
  show "pool_seg ?r (Suc i) = pool_seg buf i" if "i < 3"
  proof -
    have "i < POOL_SIZE" "3 < POOL_SIZE" "i \<noteq> 3" using that by (simp_all add: POOL_SIZE_def)
    then have "pool_index buf i \<noteq> ?n" using pool_index_inj [OF assms(1)] by metis
    then show ?thesis by (simp add: rotate_index [OF assms(1) that] r(1))
  qed
  show "seg_map (pool_seg ?r 0) = Map.empty" "dseg_size (pool_seg ?r 0) = 0"
    using assms(2) by (simp_all add: z r(1)) (simp add: data_segment_init_def)
  have "dseg_size (data_segment_init rnd vmem ds) = 0" by (simp add: data_segment_init_def)
  then show "\<forall>ds \<in> set (sb_buffer ?r). ds \<in> set (sb_buffer buf) \<or> seg_inv ds \<and> dseg_size ds = 0"
    unfolding r(1) using set_update_subset_insert by fastforce
qed

lemma rotate_maps:
  assumes "sb_cur_buffer buf < POOL_SIZE" and "length (sb_buffer buf) = POOL_SIZE"
  shows "pool_maps (segbuf_rotate env buf) = Map.empty # butlast (pool_maps buf)"
  using rotate_seg(1) [OF assms, of 0] rotate_seg(1) [OF assms, of 1] rotate_seg(1) [OF assms, of 2] rotate_seg(2) [OF assms]
  by (simp add: pool_maps_list numeral_2_eq_2 numeral_3_eq_3)

lemma rotate_work:
  assumes c: "sb_cur_buffer buf < POOL_SIZE" and work: "sb_work buf = map (pool_index buf) (rev [1..<Suc n])" and "n < 3"
  shows "sb_work (segbuf_rotate env buf) = map (pool_index (segbuf_rotate env buf)) (rev [1..<Suc (Suc n)])"
proof -
  let ?r = "segbuf_rotate env buf"
  have "sb_work buf = map (pool_index ?r) (map Suc (rev [1..<Suc n]))"
    unfolding work using rotate_index [OF c, where env = env] assms(3) by auto
  also have "map Suc (rev [1..<Suc n]) = rev [2..<Suc (Suc n)]"
    by (simp add: rev_map [symmetric] map_Suc_upt numeral_2_eq_2 del: upt_Suc)
  finally have "sb_work ?r = map (pool_index ?r) (rev [2..<Suc (Suc n)] @ [1])"
    using c rotate_index [OF c, of 0] by (simp add: segbuf_rotate_def Let_def)
  also have "rev [2..<Suc (Suc n)] @ [1] = rev [1..<Suc (Suc n)]"
    by (simp add: upt_conv_Cons numeral_2_eq_2 del: upt_Suc)
  finally show ?thesis .
qed

lemma entry_put:
  fixes w :: data_segment
  assumes "sb_cur_buffer buf < POOL_SIZE" and "length (sb_buffer buf) = POOL_SIZE"
  defines "b \<equiv> buf\<lparr>sb_buffer := (sb_buffer buf)[sb_cur_buffer buf := w]\<rparr>"
  shows "pool_index b = pool_index buf" and "pool_seg b 0 = w"
    and "0 < i \<Longrightarrow> i < POOL_SIZE \<Longrightarrow> pool_seg b i = pool_seg buf i" and "pool_maps b = seg_map w # tl (pool_maps buf)"
proof -
  show idx: "pool_index b = pool_index buf" by (simp add: b_def pool_index_def fun_eq_iff)
  show zero: "pool_seg b 0 = w" unfolding idx using assms(1,2) by (simp add: b_def)
  have other: "pool_seg b i = pool_seg buf i" if "0 < i" "i < POOL_SIZE" for i
  proof -
    have "pool_index buf i \<noteq> sb_cur_buffer buf" using pool_index_inj [OF assms(1) that(2), of 0] that pool_index_0 [OF assms(1)] by auto
    then show ?thesis unfolding idx by (simp add: b_def)
  qed
  then show "0 < i \<Longrightarrow> i < POOL_SIZE \<Longrightarrow> pool_seg b i = pool_seg buf i" .
  show "pool_maps b = seg_map w # tl (pool_maps buf)"
    using other [of 1] other [of 2] other [of 3] zero by (simp add: pool_maps_list POOL_SIZE_def)
qed

text \<open>
  What a write does to the contents of the pool: the current entry takes the block, and if it became
  full it is queued and an empty entry comes in front, in place of the oldest one.  The load counts
  the blocks not flushed yet.
\<close>

definition pool_load :: "segment_buffer \<Rightarrow> nat" where
  "pool_load buf = BLOCKS_PER_SEGMENT * length (sb_work buf) + nat (dseg_size (sb_buffer buf ! sb_cur_buffer buf))"

definition push_effect :: "segment_buffer \<Rightarrow> nat \<Rightarrow> byte list \<Rightarrow> segment_buffer \<Rightarrow> bool" where
  "push_effect buf lba data buf' \<longleftrightarrow> pool_inv buf' \<and>
     pool_load buf' = pool_load buf + of_bool (hd (pool_maps buf) lba = None) \<and>
     (let m = (hd (pool_maps buf))(lba \<mapsto> data); ms = tl (pool_maps buf)
      in pool_maps buf' = m # ms \<and> sb_work buf' = sb_work buf \<or>
         pool_maps buf' = Map.empty # m # butlast ms \<and> length (sb_work buf') = Suc (length (sb_work buf)))"

lemma push_spec:
  assumes inv: "pool_inv buf" and key: "key_ok lba" and len: "length data = DATA_BLOCK_SIZE"
    and "rflag \<or> overlay (pool_maps buf) lba = None" and load: "pool_load buf + 1 < POOL_SIZE * BLOCKS_PER_SEGMENT"
  shows "push_effect buf lba data (segbuf_push_block env buf lba data rflag)"
proof -
  let ?w = "pool_write buf lba data" and ?cur = "sb_cur_buffer buf"
  let ?b1 = "buf\<lparr>sb_buffer := (sb_buffer buf)[?cur := ?w]\<rparr>"
  note w = pool_write_spec [OF inv key len]
  have c: "?cur < POOL_SIZE" "length (sb_buffer buf) = POOL_SIZE" using inv by (simp_all add: pool_inv_def)
  note e = entry_put [OF c, where w = ?w]
  note idx = e(1)
  have maps: "pool_maps ?b1 = (seg_map (pool_seg buf 0))(lba \<mapsto> data) # tl (pool_maps buf)" using e(4) w by simp
  have size: "0 \<le> dseg_size (sb_buffer buf ! ?cur)" "dseg_size (sb_buffer buf ! ?cur) < int BLOCKS_PER_SEGMENT"
    using inv c nth_mem [of ?cur "sb_buffer buf"] by (auto simp: pool_inv_def seg_inv_def)
  have segs: "\<forall>ds \<in> set (sb_buffer ?b1). seg_inv ds \<and> dseg_size ds \<le> int BLOCKS_PER_SEGMENT"
    using inv w size set_update_subset_insert [of "sb_buffer buf" ?cur ?w] by (fastforce simp: pool_inv_def of_bool_def)
  have hd: "hd (pool_maps buf) = seg_map (pool_seg buf 0)" by (simp add: pool_maps_list)
  show ?thesis
  proof (cases "dseg_size ?w \<ge> int BLOCKS_PER_SEGMENT")
    case False
    then have "pool_inv ?b1" using inv segs c by (simp add: pool_inv_def idx)
    moreover have "pool_load ?b1 = pool_load buf + of_bool (hd (pool_maps buf) lba = None)"
      using w size(1) c hd by (simp add: pool_load_def nat_add_distrib)
    ultimately show ?thesis using push_cases [OF inv key assms(4)] False maps hd by (simp add: push_effect_def Let_def)
  next
    case True
    let ?r = "segbuf_rotate env ?b1" and ?n = "length (sb_work buf)"
    have full: "dseg_size (sb_buffer buf ! ?cur) = int BLOCKS_PER_SEGMENT - 1" "seg_map (pool_seg buf 0) lba = None"
      using True w size(2) by (auto simp: of_bool_def split: if_splits)
    then have room: "?n < POOL_SIZE - 1" using load by (simp add: pool_load_def nat_diff_distrib POOL_SIZE_def BLOCKS_PER_SEGMENT_def)
    have c1: "sb_cur_buffer ?b1 < POOL_SIZE" "length (sb_buffer ?b1) = POOL_SIZE" using c by simp_all
    note r = rotate_seg [OF c1, where env = env]
    have "pool_maps ?r = Map.empty # (seg_map (pool_seg buf 0))(lba \<mapsto> data) # butlast (tl (pool_maps buf))"
      unfolding rotate_maps [OF c1] maps by (simp add: pool_maps_list)
    moreover have work: "sb_work ?r = sb_work buf @ [pool_index ?b1 0]" using c by (simp add: segbuf_rotate_def Let_def idx)
    moreover have "pool_inv ?r"
    proof -
      have cur: "sb_cur_buffer ?r < POOL_SIZE" by (simp add: segbuf_rotate_def Let_def POOL_SIZE_def)
      have "sb_work ?b1 = map (pool_index ?b1) (rev [1..<Suc ?n])" using inv unfolding idx pool_inv_def by simp
      from rotate_work [OF c1(1) this] have "sb_work ?r = map (pool_index ?r) (rev [1..<Suc (length (sb_work ?r))])"
        using room work by (simp add: POOL_SIZE_def)
      moreover have "\<forall>ds \<in> set (sb_buffer ?r). seg_inv ds \<and> dseg_size ds \<le> int BLOCKS_PER_SEGMENT"
        using r(3) segs by fastforce
      moreover have "length (sb_buffer ?r) = POOL_SIZE" using c by (simp add: segbuf_rotate_def Let_def)
      moreover have "dseg_size (sb_buffer ?r ! sb_cur_buffer ?r) < int BLOCKS_PER_SEGMENT"
        using r(4) unfolding pool_index_0 [OF cur] by simp
      moreover have "length (sb_work ?r) < POOL_SIZE" using work room by simp
      ultimately show ?thesis using cur unfolding pool_inv_def by blast
    qed
    moreover have "pool_load ?r = pool_load buf + 1"
    proof -
      have "sb_cur_buffer ?r < POOL_SIZE" by (simp add: segbuf_rotate_def Let_def POOL_SIZE_def)
      then have "dseg_size (sb_buffer ?r ! sb_cur_buffer ?r) = 0" using r(4) by simp
      then show ?thesis using work full(1) by (simp add: pool_load_def BLOCKS_PER_SEGMENT_def)
    qed
    ultimately show ?thesis using push_cases [OF inv key assms(4)] True hd full(2) by (simp add: push_effect_def Let_def)
  qed
qed

section \<open>Properties\<close>

text \<open>
  C37. The pool can overrun its work queue.  When three entries are queued and the write of a new block
  fills the current one, the entry that comes in is the one whose work item is the next to run: a block
  that only this entry held was found before the write and is not found after it, and the item that
  should have stored it is still queued, now for the emptied entry.
\<close>

theorem segbuf_push_overruns:
  assumes "pool_inv buf" and "key_ok lba" and "length data = DATA_BLOCK_SIZE"
    and "length (sb_work buf) = POOL_SIZE - 1" and "pool_load buf = POOL_SIZE * BLOCKS_PER_SEGMENT - 1"
    and "hd (pool_maps buf) lba = None" and "key_ok j" and "j \<noteq> lba"
    and "overlay (butlast (pool_maps buf)) j = None" and "last (pool_maps buf) j = Some d"
  shows "segbuf_query_block buf j = Inr d \<and>
    (let buf' = segbuf_push_block env buf lba data True
     in segbuf_query_block buf' j = Inl ENODATA \<and> hd (sb_work buf') = hd (sb_work buf) \<and>
        hd (sb_work buf') = sb_cur_buffer buf')"
proof -
  let ?w = "pool_write buf lba data" and ?cur = "sb_cur_buffer buf"
  let ?b1 = "buf\<lparr>sb_buffer := (sb_buffer buf)[?cur := ?w]\<rparr>" and ?buf = "segbuf_push_block env buf lba data True"
  note w = pool_write_spec [OF assms(1-3)]
  have c: "?cur < POOL_SIZE" "length (sb_buffer buf) = POOL_SIZE" using assms(1) by (simp_all add: pool_inv_def)
  have "dseg_size (sb_buffer buf ! ?cur) = int BLOCKS_PER_SEGMENT - 1"
    using assms(4,5) by (simp add: pool_load_def POOL_SIZE_def BLOCKS_PER_SEGMENT_def)
  then have "dseg_size ?w \<ge> int BLOCKS_PER_SEGMENT" using w assms(6) c(1) by (simp add: pool_maps_list)
  then have push: "?buf = segbuf_rotate env ?b1" using push_cases [OF assms(1,2), of True env data] by simp
  have c1: "sb_cur_buffer ?b1 < POOL_SIZE" "length (sb_buffer ?b1) = POOL_SIZE" using c by simp_all
  have maps: "pool_maps ?b1 = (seg_map (pool_seg buf 0))(lba \<mapsto> data) # tl (pool_maps buf)"
    using entry_put(4) [OF c, of ?w] w by simp
  have "overlay (pool_maps ?buf) j = None"
    unfolding push rotate_maps [OF c1] maps using assms(8,9) by (simp add: pool_maps_list)
  moreover have "pool_wf ?buf"
    unfolding push pool_wf_def using rotate_seg(3) [OF c1, of env] w assms(1) c set_update_subset_insert [of "sb_buffer buf" ?cur ?w]
    by (fastforce simp: segbuf_rotate_def Let_def POOL_SIZE_def pool_inv_def)
  ultimately have "segbuf_query_block ?buf j = Inl ENODATA" using query_spec [OF _ assms(7)] by simp
  moreover have "segbuf_query_block buf j = Inr d"
  proof -
    have "overlay (pool_maps buf) j = Some d" using assms(9,10) by (simp add: pool_maps_list map_add_Some_iff map_add_None)
    then show ?thesis using query_spec [OF pool_inv_wf [OF assms(1)] assms(7)] by simp
  qed
  moreover have "hd (sb_work buf) = pool_index buf 3"
  proof -
    have "sb_work buf = map (pool_index buf) (rev [1..<Suc 3])" using assms(1,4) unfolding pool_inv_def by (simp add: POOL_SIZE_def)
    then show ?thesis by (simp add: upt_rec numeral_3_eq_3)
  qed
  moreover have "hd (sb_work ?buf) = hd (sb_work buf)" "sb_cur_buffer ?buf = pool_index buf 3"
    using assms(4) by (auto simp: push segbuf_rotate_def Let_def pool_index_next [OF c(1)] POOL_SIZE_def hd_append)
  ultimately show ?thesis by (simp add: Let_def)
qed

text \<open>A pool filled with the blocks from 0 on: block 0 is in the entry queued first.\<close>

definition fill_pool :: "segbuf_env \<Rightarrow> nat \<Rightarrow> segment_buffer" where
  "fill_pool env n = fold (\<lambda>i buf. segbuf_push_block env buf i (replicate DATA_BLOCK_SIZE 0) True) [0..<n] (segbuf_init env)"

lemma fill_pool_spec:
  assumes "n < POOL_SIZE * BLOCKS_PER_SEGMENT"
  shows "pool_inv (fill_pool env n) \<and> pool_load (fill_pool env n) = n \<and> (\<forall>k \<ge> n. \<forall>m \<in> set (pool_maps (fill_pool env n)). m k = None) \<and>
    (0 < n \<longrightarrow> (\<forall>i < POOL_SIZE. (pool_maps (fill_pool env n) ! i) 0 =
       (if i = length (sb_work (fill_pool env n)) then Some (replicate DATA_BLOCK_SIZE 0) else None)))"
  using assms
proof (induction n)
  case 0
  have "dseg_size (sb_buffer (segbuf_init env) ! sb_cur_buffer (segbuf_init env)) = 0"
    by (simp add: segbuf_init_def data_segment_init_def zero_segment_def POOL_SIZE_def)
  then show ?case by (simp add: fill_pool_def pool_init pool_load_def)
next
  case (Suc n)
  let ?b = "fill_pool env n" and ?b' = "fill_pool env (Suc n)" and ?z = "replicate DATA_BLOCK_SIZE (0 :: byte)"
  have IH: "pool_inv ?b" "pool_load ?b = n" "\<forall>k \<ge> n. \<forall>m \<in> set (pool_maps ?b). m k = None"
    "0 < n \<Longrightarrow> i < POOL_SIZE \<Longrightarrow> (pool_maps ?b ! i) 0 = (if i = length (sb_work ?b) then Some ?z else None)" for i
    using Suc by auto
  have key: "key_ok n" using Suc.prems by (simp add: key_ok_def POOL_SIZE_def BLOCKS_PER_SEGMENT_def)
  have "push_effect ?b n ?z ?b'"
    using push_spec [OF IH(1) key, of ?z True env] IH(2) Suc.prems by (simp add: fill_pool_def)
  then have e: "pool_inv ?b'" "pool_load ?b' = Suc n"
    "pool_maps ?b' = (hd (pool_maps ?b))(n \<mapsto> ?z) # tl (pool_maps ?b) \<and> sb_work ?b' = sb_work ?b \<or>
     pool_maps ?b' = Map.empty # (hd (pool_maps ?b))(n \<mapsto> ?z) # butlast (tl (pool_maps ?b)) \<and> length (sb_work ?b') = Suc (length (sb_work ?b))"
    using IH(2,3) unfolding push_effect_def by (auto simp: Let_def pool_maps_list)
  have w: "length (sb_work ?b') < POOL_SIZE" using e(1) by (simp add: pool_inv_def)
  obtain a b c d where m: "pool_maps ?b = [a, b, c, d]" by (simp add: pool_maps_list)
  have new: "\<forall>k \<ge> Suc n. \<forall>m \<in> set (pool_maps ?b'). m k = None" using e(3) IH(3) by (auto simp: m)
  have "(pool_maps ?b' ! i) 0 = (if i = length (sb_work ?b') then Some ?z else None)" if i: "i < POOL_SIZE" for i
  proof (cases "n = 0")
    case True
    have "sb_work ?b = []" using True by (simp add: fill_pool_def pool_init)
    then show ?thesis using i e(3) IH(3) True unfolding less_pool m by (elim disjE) auto
  next
    case False
    then have z: "(pool_maps ?b ! i) 0 = (if i = length (sb_work ?b) then Some ?z else None)" if "i < POOL_SIZE" for i
      using IH(4) that by simp
    then have abcd: "a 0 = (if length (sb_work ?b) = 0 then Some ?z else None)" "b 0 = (if length (sb_work ?b) = 1 then Some ?z else None)"
      "c 0 = (if length (sb_work ?b) = 2 then Some ?z else None)" "d 0 = (if length (sb_work ?b) = 3 then Some ?z else None)"
      using z [of 0] z [of 1] z [of 2] z [of 3] by (simp_all add: m POOL_SIZE_def)
    from e(3) show ?thesis
    proof (elim disjE conjE, goal_cases)
      case 1
      then show ?case using i False unfolding less_pool m by (elim disjE) (simp_all add: abcd)
    next
      case 2
      then have "length (sb_work ?b) < 3" using w by (simp add: POOL_SIZE_def)
      with 2 show ?case using i False unfolding less_pool m by (elim disjE) (simp_all add: abcd)
    qed
  qed
  then show ?case using e(1,2) new by blast
qed

definition demo_segbuf_env :: segbuf_env where
  "demo_segbuf_env = \<lparr>se_rnd = \<lambda>n. replicate AES_GCM_KEY_SIZE (of_nat n), se_vmem = \<lambda>_ _. []\<rparr>"

theorem segbuf_push_overruns_witness:
  "segbuf_query_block (fill_pool demo_segbuf_env 4095) 0 = Inr (replicate DATA_BLOCK_SIZE 0) \<and>
    segbuf_query_block (segbuf_push_block demo_segbuf_env (fill_pool demo_segbuf_env 4095) 4095 (replicate DATA_BLOCK_SIZE 1) True) 0 = Inl ENODATA"
proof -
  let ?b = "fill_pool demo_segbuf_env 4095"
  have n: "4095 < POOL_SIZE * BLOCKS_PER_SEGMENT" by (simp add: POOL_SIZE_def BLOCKS_PER_SEGMENT_def)
  have inv: "pool_inv ?b" and load: "pool_load ?b = 4095" and fresh: "\<forall>m \<in> set (pool_maps ?b). m 4095 = None"
    and zero: "i < POOL_SIZE \<Longrightarrow> (pool_maps ?b ! i) 0 = (if i = length (sb_work ?b) then Some (replicate DATA_BLOCK_SIZE 0) else None)" for i
    using fill_pool_spec [OF n, of demo_segbuf_env] by auto
  have "dseg_size (sb_buffer ?b ! sb_cur_buffer ?b) < int BLOCKS_PER_SEGMENT" "length (sb_work ?b) < POOL_SIZE"
    using inv by (simp_all add: pool_inv_def)
  then have w: "length (sb_work ?b) = 3" using load by (auto simp: pool_load_def BLOCKS_PER_SEGMENT_def POOL_SIZE_def)
  have "overlay (butlast (pool_maps ?b)) 0 = None" "last (pool_maps ?b) 0 = Some (replicate DATA_BLOCK_SIZE 0)"
    using zero [of 0] zero [of 1] zero [of 2] zero [of 3] w by (simp_all add: pool_maps_list POOL_SIZE_def)
  moreover have "hd (pool_maps ?b) 4095 = None" using fresh by (simp add: pool_maps_list)
  moreover have "length (sb_work ?b) = POOL_SIZE - 1" "pool_load ?b = POOL_SIZE * BLOCKS_PER_SEGMENT - 1"
    using w load by (simp_all add: POOL_SIZE_def BLOCKS_PER_SEGMENT_def)
  ultimately show ?thesis
    using segbuf_push_overruns [OF inv, of 4095 "replicate DATA_BLOCK_SIZE 1" 0 "replicate DATA_BLOCK_SIZE 0" demo_segbuf_env]
    by (simp add: key_ok_def Let_def)
qed

end
