(* ===== verification/Cache.thy ===== *)
theory Cache
  imports Prelude
begin

text \<open>
  \<^verbatim>\<open>cache.c\<close>: the least-recently-used cache that holds decrypted leaf nodes of an index file.  A
  node is known by its key: \<open>lc_root\<close> is the radix tree (key to the node's value), \<open>lc_entries\<close> the
  list of nodes, most recently used first.  The theory shows that the two structures and the size
  field stay in step, and that the cache behaves as one list of pairs.
\<close>

section \<open>Operations\<close>

record 'v lru_cache =
  lc_size :: nat
  lc_capacity :: nat
  lc_root :: "nat \<Rightarrow> 'v option"
  lc_entries :: "nat list"

definition lru_cache_create :: "nat \<Rightarrow> 'v lru_cache" where
  "lru_cache_create capacity =
     \<lparr>lc_size = 0, lc_capacity = capacity, lc_root = Map.empty, lc_entries = []\<rparr>"

text \<open>
  The eviction loop \<^verbatim>\<open>while (size >= capacity)\<close>; \<open>None\<close> stands for \<^verbatim>\<open>list_last_entry\<close> on an empty
  list, which C does not define.
\<close>

function lru_cache_evict :: "'v lru_cache \<Rightarrow> 'v lru_cache option" where
  "lru_cache_evict c =
     (if lc_size c \<ge> lc_capacity c then
        (if lc_entries c = [] then None
         else let key = last (lc_entries c)
              in lru_cache_evict (c\<lparr>lc_entries := butlast (lc_entries c),
                                    lc_root := (lc_root c)(key := None),
                                    lc_size := lc_size c - 1\<rparr>))
      else Some c)"
  by pat_completeness auto
termination by (relation "measure (\<lambda>c. length (lc_entries c))") auto

declare lru_cache_evict.simps [simp del]

definition lru_cache_put :: "'v lru_cache \<Rightarrow> nat \<Rightarrow> 'v \<Rightarrow> 'v lru_cache option" where
  "lru_cache_put c key val =
     (case lc_root c key of
        Some _ \<Rightarrow> Some (c\<lparr>lc_root := (lc_root c)(key \<mapsto> val),
                         lc_entries := key # remove1 key (lc_entries c)\<rparr>)
      | None \<Rightarrow>
          (case lru_cache_evict c of
             None \<Rightarrow> None
           | Some c' \<Rightarrow> Some (c'\<lparr>lc_root := (lc_root c')(key \<mapsto> val),
                                lc_entries := key # lc_entries c',
                                lc_size := lc_size c' + 1\<rparr>)))"

definition lru_cache_get :: "'v lru_cache \<Rightarrow> nat \<Rightarrow> 'v option \<times> 'v lru_cache" where
  "lru_cache_get c key =
     (case lc_root c key of
        None \<Rightarrow> (None, c)
      | Some v \<Rightarrow> (Some v, c\<lparr>lc_entries := key # remove1 key (lc_entries c)\<rparr>))"

definition lru_cache_delete :: "'v lru_cache \<Rightarrow> nat \<Rightarrow> 'v lru_cache" where
  "lru_cache_delete c key =
     (case lc_root c key of
        None \<Rightarrow> c
      | Some _ \<Rightarrow> c\<lparr>lc_root := (lc_root c)(key := None),
                   lc_entries := remove1 key (lc_entries c),
                   lc_size := lc_size c - 1\<rparr>)"

section \<open>Invariant\<close>

definition lru_inv :: "'v lru_cache \<Rightarrow> bool" where
  "lru_inv c \<longleftrightarrow> distinct (lc_entries c) \<and> set (lc_entries c) = dom (lc_root c) \<and>
     lc_size c = length (lc_entries c) \<and> lc_size c \<le> lc_capacity c \<and> 0 < lc_capacity c"

lemma lru_inv_create: "0 < n \<Longrightarrow> lru_inv (lru_cache_create n)"
  by (simp add: lru_inv_def lru_cache_create_def)

text \<open>With room to spare nothing is evicted; a full cache loses exactly its last node.\<close>

lemma evict_room: "lc_size c < lc_capacity c \<Longrightarrow> lru_cache_evict c = Some c"
  by (simp add: lru_cache_evict.simps [of c])

lemma evict_full:
  assumes "lru_inv c" and "lc_size c = lc_capacity c"
  shows "lru_cache_evict c =
     Some (c\<lparr>lc_entries := butlast (lc_entries c),
             lc_root := (lc_root c)(last (lc_entries c) := None),
             lc_size := lc_size c - 1\<rparr>)"
proof -
  have "lc_entries c \<noteq> []" using assms by (auto simp: lru_inv_def)
  with assms show ?thesis
    by (simp add: lru_cache_evict.simps [of c] Let_def evict_room lru_inv_def)
qed

section \<open>The cache as one list of pairs\<close>

text \<open>
  The promise of the component: a list of at most \<open>cap\<close> pairs, most recent first.  Reading or
  writing a key brings it to the front, and a write of a new key to a full cache drops the pair at
  the end.
\<close>

definition abs_cache :: "'v lru_cache \<Rightarrow> (nat \<times> 'v) list" where
  "abs_cache c = map (\<lambda>k. (k, the (lc_root c k))) (lc_entries c)"

definition spec_put :: "nat \<Rightarrow> nat \<Rightarrow> 'v \<Rightarrow> (nat \<times> 'v) list \<Rightarrow> (nat \<times> 'v) list" where
  "spec_put cap k v xs =
     (k, v) # (if k \<in> fst ` set xs then filter (\<lambda>p. fst p \<noteq> k) xs else take (cap - 1) xs)"

definition spec_get :: "nat \<Rightarrow> (nat \<times> 'v) list \<Rightarrow> 'v option \<times> (nat \<times> 'v) list" where
  "spec_get k xs =
     (case map_of xs k of
        None \<Rightarrow> (None, xs)
      | Some v \<Rightarrow> (Some v, (k, v) # filter (\<lambda>p. fst p \<noteq> k) xs))"

lemma abs_keys: "map fst (abs_cache c) = lc_entries c"
  by (simp add: abs_cache_def comp_def)

lemma fst_abs: "fst ` set (abs_cache c) = set (lc_entries c)"
  by (force simp: abs_cache_def)

lemma map_of_abs:
  assumes "lru_inv c"
  shows "map_of (abs_cache c) = lc_root c"
proof
  fix k
  show "map_of (abs_cache c) k = lc_root c k"
  proof (cases "k \<in> set (lc_entries c)")
    case True
    moreover from True assms obtain v where "lc_root c k = Some v"
      by (auto simp: lru_inv_def)
    ultimately show ?thesis
      using assms by (auto simp: abs_cache_def map_of_map_restrict restrict_map_def comp_def)
  next
    case False
    with assms show ?thesis
      by (auto simp: map_of_eq_None_iff fst_abs lru_inv_def domIff)
  qed
qed

lemma filter_abs:
  assumes "lru_inv c"
  shows "filter (\<lambda>p. fst p \<noteq> k) (abs_cache c) =
    map (\<lambda>k'. (k', the (lc_root c k'))) (remove1 k (lc_entries c))"
proof -
  have "remove1 k (lc_entries c) = filter (\<lambda>x. x \<noteq> k) (lc_entries c)"
    using assms by (simp add: lru_inv_def distinct_remove1_removeAll removeAll_filter_not_eq neq_commute)
  then show ?thesis by (simp add: abs_cache_def filter_map comp_def)
qed

text \<open>Moving a node to the front of the list.\<close>

lemma to_front:
  assumes "distinct xs" and "k \<in> set xs"
  shows "distinct (k # remove1 k xs)" and "set (k # remove1 k xs) = set xs"
    and "length (k # remove1 k xs) = length xs"
proof -
  show "distinct (k # remove1 k xs)" "set (k # remove1 k xs) = set xs" using assms by auto
  have "length xs > 0" using assms(2) by (rule length_pos_if_in_set)
  then show "length (k # remove1 k xs) = length xs" using assms by (simp add: length_remove1)
qed

lemma lru_inv_to_front:
  assumes "lru_inv c" and "k \<in> set (lc_entries c)"
  shows "lru_inv (c\<lparr>lc_entries := k # remove1 k (lc_entries c)\<rparr>)"
proof -
  have "distinct (lc_entries c)" using assms(1) by (simp add: lru_inv_def)
  note to_front [OF this assms(2)]
  then show ?thesis using assms(1) unfolding lru_inv_def lru_cache.simps by simp
qed

lemma put_present:
  assumes "lru_inv c" and "lc_root c key = Some w" and "lru_cache_put c key val = Some c'"
  shows "lru_inv c' \<and> abs_cache c' = spec_put (lc_capacity c) key val (abs_cache c)"
proof -
  have mem: "key \<in> set (lc_entries c)" using assms by (auto simp: lru_inv_def)
  have c': "c' = c\<lparr>lc_root := (lc_root c)(key \<mapsto> val),
      lc_entries := key # remove1 key (lc_entries c)\<rparr>"
    using assms by (simp add: lru_cache_put_def)
  have d: "distinct (lc_entries c)" using assms(1) by (simp add: lru_inv_def)
  have "abs_cache c' = (key, val) # filter (\<lambda>p. fst p \<noteq> key) (abs_cache c)"
    unfolding filter_abs [OF assms(1)] using d by (auto simp: c' abs_cache_def)
  moreover have "lru_inv c'"
    using lru_inv_to_front [OF assms(1) mem] assms(2) unfolding c' lru_inv_def
    by (auto simp: dom_def)
  ultimately show ?thesis using mem by (simp add: spec_put_def fst_abs)
qed

lemma put_absent:
  assumes "lru_inv c" and "lc_root c key = None"
  shows "\<exists>c'. lru_cache_put c key val = Some c' \<and> lru_inv c' \<and>
    lc_capacity c' = lc_capacity c \<and>
    abs_cache c' = spec_put (lc_capacity c) key val (abs_cache c)"
proof (cases "lc_size c < lc_capacity c")
  case True
  let ?c = "c\<lparr>lc_root := (lc_root c)(key \<mapsto> val), lc_entries := key # lc_entries c,
     lc_size := lc_size c + 1\<rparr>"
  have nm: "key \<notin> set (lc_entries c)" using assms by (auto simp: lru_inv_def)
  have "lru_cache_put c key val = Some ?c"
    using assms True by (simp add: lru_cache_put_def evict_room)
  moreover have "lru_inv ?c"
    using assms True nm by (auto simp: lru_inv_def)
  moreover have "abs_cache ?c = (key, val) # abs_cache c"
    using nm by (auto simp: abs_cache_def)
  moreover have "take (lc_capacity c - 1) (abs_cache c) = abs_cache c"
    using assms True by (simp add: abs_cache_def lru_inv_def)
  ultimately show ?thesis using nm by (auto simp: spec_put_def fst_abs)
next
  case False
  then have full: "lc_size c = lc_capacity c" using assms by (simp add: lru_inv_def)
  let ?l = "last (lc_entries c)" and ?b = "butlast (lc_entries c)"
  let ?c = "c\<lparr>lc_entries := key # ?b, lc_root := (lc_root c)(?l := None, key \<mapsto> val),
     lc_size := lc_size c - 1 + 1\<rparr>"
  have ne: "lc_entries c \<noteq> []" using assms full by (auto simp: lru_inv_def)
  then have split: "lc_entries c = ?b @ [?l]" by simp
  have nm: "key \<notin> set (lc_entries c)" using assms by (auto simp: lru_inv_def)
  have d: "distinct (?b @ [?l])" using assms split by (simp add: lru_inv_def)
  have "lru_cache_put c key val = Some ?c"
    using assms full by (simp add: lru_cache_put_def evict_full)
  moreover have "lru_inv ?c"
  proof -
    have "set (?b @ [?l]) = dom (lc_root c)" using assms(1) split by (simp add: lru_inv_def)
    then have "dom (lc_root c) = insert ?l (set ?b)" by simp
    moreover have "?l \<notin> set ?b" using d by simp
    ultimately have "dom ((lc_root c)(?l := None, key \<mapsto> val)) = insert key (set ?b)" by auto
    moreover have "key \<notin> set ?b" using nm by (auto dest: in_set_butlastD)
    moreover have "length (lc_entries c) > 0" using ne by simp
    ultimately show ?thesis
      using assms(1) full d unfolding lru_inv_def by (simp add: distinct_butlast)
  qed
  moreover have "abs_cache ?c = (key, val) # map (\<lambda>k. (k, the (lc_root c k))) ?b"
    using nm d by (auto simp: abs_cache_def dest: in_set_butlastD)
  moreover have "take (lc_capacity c - 1) (abs_cache c) = map (\<lambda>k. (k, the (lc_root c k))) ?b"
    using assms full by (simp add: abs_cache_def lru_inv_def take_map butlast_conv_take)
  ultimately show ?thesis using nm by (auto simp: spec_put_def fst_abs)
qed

lemma put_refines:
  assumes "lru_inv c"
  shows "\<exists>c'. lru_cache_put c key val = Some c' \<and> lru_inv c' \<and>
    lc_capacity c' = lc_capacity c \<and>
    abs_cache c' = spec_put (lc_capacity c) key val (abs_cache c)"
proof (cases "lc_root c key")
  case None
  then show ?thesis using assms by (intro put_absent)
next
  case (Some w)
  then obtain c' where c': "lru_cache_put c key val = Some c'" "lc_capacity c' = lc_capacity c"
    by (auto simp: lru_cache_put_def)
  with put_present [OF assms Some] show ?thesis by blast
qed

lemma get_refines:
  assumes "lru_inv c"
  shows "fst (lru_cache_get c key) = fst (spec_get key (abs_cache c)) \<and>
    abs_cache (snd (lru_cache_get c key)) = snd (spec_get key (abs_cache c)) \<and>
    lru_inv (snd (lru_cache_get c key))"
proof (cases "lc_root c key")
  case None
  then show ?thesis
    using assms by (simp add: lru_cache_get_def spec_get_def map_of_abs)
next
  case (Some v)
  have mem: "key \<in> set (lc_entries c)" using assms Some by (auto simp: lru_inv_def)
  have "lru_inv (c\<lparr>lc_entries := key # remove1 key (lc_entries c)\<rparr>)"
    using assms mem by (rule lru_inv_to_front)
  moreover have "abs_cache (c\<lparr>lc_entries := key # remove1 key (lc_entries c)\<rparr>) =
      (key, v) # filter (\<lambda>p. fst p \<noteq> key) (abs_cache c)"
    using assms Some by (simp add: filter_abs) (simp add: abs_cache_def)
  ultimately show ?thesis
    using assms Some by (simp add: lru_cache_get_def spec_get_def map_of_abs)
qed

lemma delete_refines:
  assumes "lru_inv c"
  shows "abs_cache (lru_cache_delete c key) = filter (\<lambda>p. fst p \<noteq> key) (abs_cache c) \<and>
    lru_inv (lru_cache_delete c key)"
proof (cases "lc_root c key")
  case None
  then have "key \<notin> set (lc_entries c)" using assms by (auto simp: lru_inv_def)
  then have "filter (\<lambda>p. fst p \<noteq> key) (abs_cache c) = abs_cache c"
    by (auto simp: filter_id_conv abs_cache_def)
  with None assms show ?thesis by (simp add: lru_cache_delete_def)
next
  case (Some v)
  have mem: "key \<in> set (lc_entries c)" using assms Some by (auto simp: lru_inv_def)
  have "lru_inv (lru_cache_delete c key)"
    using assms mem Some by (auto simp: lru_cache_delete_def lru_inv_def length_remove1)
  moreover have "abs_cache (lru_cache_delete c key) = filter (\<lambda>p. fst p \<noteq> key) (abs_cache c)"
    using assms Some
    by (simp add: filter_abs) (auto simp: lru_cache_delete_def abs_cache_def lru_inv_def)
  ultimately show ?thesis by blast
qed

section \<open>The interface a reader of the cache relies on\<close>

text \<open>
  A lookaside table over a slow source: what it answers is what was last stored, it may forget, and
  a store never fails.  A reader that consults the table first and stores what it had to load
  always gets what the source holds.
\<close>

locale lookaside =
  fixes ok :: "'c \<Rightarrow> bool"
    and view :: "'c \<Rightarrow> nat \<Rightarrow> 'v option"
    and get :: "'c \<Rightarrow> nat \<Rightarrow> 'v option \<times> 'c"
    and put :: "'c \<Rightarrow> nat \<Rightarrow> 'v \<Rightarrow> 'c option"
  assumes get_answer: "ok c \<Longrightarrow> fst (get c k) = view c k"
    and get_ok: "ok c \<Longrightarrow> ok (snd (get c k))"
    and get_view: "ok c \<Longrightarrow> view (snd (get c k)) = view c"
    and put_ok: "ok c \<Longrightarrow> \<exists>c'. put c k v = Some c' \<and> ok c' \<and> view c' \<subseteq>\<^sub>m (view c)(k \<mapsto> v)"
begin

definition coherent :: "(nat \<Rightarrow> 'v option) \<Rightarrow> 'c \<Rightarrow> bool" where
  "coherent source c \<longleftrightarrow> ok c \<and> view c \<subseteq>\<^sub>m source"

lemma coherent_get:
  assumes "coherent source c" and "get c k = (a, c')"
  shows "coherent source c'" and "a = view c k" and "\<And>v. a = Some v \<Longrightarrow> source k = Some v"
proof -
  have "ok c" "view c \<subseteq>\<^sub>m source" using assms(1) by (auto simp: coherent_def)
  with assms(2) get_answer [of c k] get_ok [of c k] get_view [of c k]
  show "coherent source c'" and a: "a = view c k" by (simp_all add: coherent_def)
  show "source k = Some v" if "a = Some v" for v
    using a that \<open>view c \<subseteq>\<^sub>m source\<close> unfolding map_le_def by (metis domI)
qed

lemma coherent_put:
  assumes "coherent source c" and "source k = Some v"
  obtains c' where "put c k v = Some c'" and "coherent source c'"
proof -
  have "ok c" and le: "view c \<subseteq>\<^sub>m source" using assms(1) by (auto simp: coherent_def)
  then obtain c' where c': "put c k v = Some c'" "ok c'" "view c' \<subseteq>\<^sub>m (view c)(k \<mapsto> v)"
    using put_ok by blast
  have "(view c)(k \<mapsto> v) \<subseteq>\<^sub>m source"
    using le assms(2) by (auto simp: map_le_def)
  with c' have "coherent source c'" by (auto simp: coherent_def intro: map_le_trans)
  with c'(1) show thesis by (rule that)
qed

end

lemma root_put_le:
  assumes "lru_cache_put c k v = Some c'"
  shows "lc_root c' \<subseteq>\<^sub>m (lc_root c)(k \<mapsto> v)"
proof -
  have "lru_cache_evict c = Some d \<Longrightarrow> lc_root d \<subseteq>\<^sub>m lc_root c" for d
  proof (induction c rule: lru_cache_evict.induct)
    case (1 c)
    show ?case
    proof (cases "lc_size c \<ge> lc_capacity c \<and> lc_entries c \<noteq> []")
      case True
      with 1 have "lc_root d \<subseteq>\<^sub>m (lc_root c)(last (lc_entries c) := None)"
        by (simp add: lru_cache_evict.simps [of c] Let_def fun_upd_def)
      moreover have "(lc_root c)(last (lc_entries c) := None) \<subseteq>\<^sub>m lc_root c"
        by (simp add: map_le_def)
      ultimately show ?thesis by (rule map_le_trans)
    next
      case False
      with 1 show ?thesis by (auto simp: lru_cache_evict.simps [of c] split: if_splits)
    qed
  qed
  with assms show ?thesis
    by (force simp: lru_cache_put_def map_le_def dom_def split: option.splits)
qed

interpretation leaf_cache: lookaside lru_inv lc_root lru_cache_get lru_cache_put
proof
  fix c :: "'b lru_cache" and k and v :: 'b
  assume c: "lru_inv c"
  show "fst (lru_cache_get c k) = lc_root c k"
    by (simp add: lru_cache_get_def split: option.splits)
  show "lru_inv (snd (lru_cache_get c k))" using get_refines [OF c] by blast
  show "lc_root (snd (lru_cache_get c k)) = lc_root c"
    by (simp add: lru_cache_get_def split: option.splits)
  show "\<exists>c'. lru_cache_put c k v = Some c' \<and> lru_inv c' \<and> lc_root c' \<subseteq>\<^sub>m (lc_root c)(k \<mapsto> v)"
    using put_refines [OF c, of k v] by (auto intro: root_put_le)
qed

section \<open>Histories\<close>

datatype 'v lru_op = LPut nat 'v | LGet nat | LDelete nat

fun lru_run :: "'v lru_op list \<Rightarrow> 'v lru_cache \<Rightarrow> ('v option list \<times> 'v lru_cache) option" where
  "lru_run [] c = Some ([], c)"
| "lru_run (LPut k v # ops) c =
     (case lru_cache_put c k v of None \<Rightarrow> None | Some c' \<Rightarrow> lru_run ops c')"
| "lru_run (LGet k # ops) c =
     (let (a, c') = lru_cache_get c k
      in map_option (\<lambda>(as, d). (a # as, d)) (lru_run ops c'))"
| "lru_run (LDelete k # ops) c = lru_run ops (lru_cache_delete c k)"

fun spec_run :: "nat \<Rightarrow> 'v lru_op list \<Rightarrow> (nat \<times> 'v) list \<Rightarrow> 'v option list \<times> (nat \<times> 'v) list" where
  "spec_run cap [] xs = ([], xs)"
| "spec_run cap (LPut k v # ops) xs = spec_run cap ops (spec_put cap k v xs)"
| "spec_run cap (LGet k # ops) xs =
     (let (a, ys) = spec_get k xs; (as, zs) = spec_run cap ops ys in (a # as, zs))"
| "spec_run cap (LDelete k # ops) xs = spec_run cap ops (filter (\<lambda>p. fst p \<noteq> k) xs)"

lemma capacity_get [simp]: "lc_capacity (snd (lru_cache_get c k)) = lc_capacity c"
  by (simp add: lru_cache_get_def split: option.splits)

lemma capacity_delete [simp]: "lc_capacity (lru_cache_delete c k) = lc_capacity c"
  by (simp add: lru_cache_delete_def split: option.splits)

lemma lru_run_refines:
  "lru_inv c \<Longrightarrow> \<exists>c'. lru_run ops c = Some (fst (spec_run (lc_capacity c) ops (abs_cache c)), c') \<and>
     abs_cache c' = snd (spec_run (lc_capacity c) ops (abs_cache c)) \<and>
     lru_inv c' \<and> lc_capacity c' = lc_capacity c"
proof (induction ops arbitrary: c)
  case Nil
  then show ?case by simp
next
  case (Cons op ops)
  show ?case
  proof (cases op)
    case (LPut k v)
    obtain c' where c': "lru_cache_put c k v = Some c'" "lru_inv c'" "lc_capacity c' = lc_capacity c"
      "abs_cache c' = spec_put (lc_capacity c) k v (abs_cache c)"
      using put_refines [OF Cons.prems] by blast
    then show ?thesis using Cons.IH [OF c'(2)] by (simp add: LPut)
  next
    case (LGet k)
    note g = get_refines [OF Cons.prems, of k]
    obtain a c' where ac: "lru_cache_get c k = (a, c')" by fastforce
    have sp: "spec_get k (abs_cache c) = (a, abs_cache c')" and inv: "lru_inv c'"
      using g ac by (simp_all add: prod_eq_iff)
    have "lc_capacity c' = lc_capacity c" using ac capacity_get [of c k] by simp
    with Cons.IH [OF inv] show ?thesis
      by (auto simp: LGet ac sp split: prod.splits)
  next
    case (LDelete k)
    note d = delete_refines [OF Cons.prems, of k]
    with Cons.IH [of "lru_cache_delete c k"] show ?thesis by (simp add: LDelete)
  qed
qed

text \<open>
  C20. The leaf cache is a bounded most-recently-used list.  Every history of puts, gets and deletes
  on a fresh cache of positive capacity runs to its end (the eviction loop terminates and never
  takes the last node of an empty list), gives the answers the list gives, ends in the state the
  list ends in, and never holds more nodes than its capacity.
\<close>

theorem lru_cache_refines_list:
  fixes ops :: "'v lru_op list"
  assumes "0 < capacity"
  shows "\<exists>c. lru_run ops (lru_cache_create capacity) = Some (fst (spec_run capacity ops []), c) \<and>
    abs_cache c = snd (spec_run capacity ops []) \<and> lc_size c = length (lc_entries c) \<and>
    lc_size c \<le> capacity"
proof -
  have "abs_cache (lru_cache_create capacity :: 'v lru_cache) = []"
    "lc_capacity (lru_cache_create capacity :: 'v lru_cache) = capacity"
    by (simp_all add: abs_cache_def lru_cache_create_def)
  with lru_run_refines [OF lru_inv_create [OF assms], of ops] show ?thesis
    by (fastforce simp: lru_inv_def)
qed

theorem lru_cache_refines_list_witness:
  "\<exists>c. lru_run [LPut 1 ''a'', LPut 2 ''b'', LGet 1, LPut 3 ''c'', LGet 2, LGet 1] (lru_cache_create 2)
     = Some ([Some ''a'', None, Some ''a''], c) \<and> lc_size c \<le> 2"
proof -
  let ?ops = "[LPut 1 ''a'', LPut 2 ''b'', LGet 1, LPut 3 ''c'', LGet 2, LGet 1]"
  have "fst (spec_run 2 ?ops []) = [Some ''a'', None, Some ''a'']"
    by (simp add: spec_put_def spec_get_def)
  with lru_cache_refines_list [of 2 ?ops] show ?thesis by fastforce
qed

end
