(* ===== verification/Seg_Validator.thy ===== *)
theory Seg_Validator
  imports Disk_Bitset
begin

text \<open>
  \<^verbatim>\<open>metadata.c\<close>, the segment validator: a bitset of the segments in use and a cursor.  The same
  structure hands out data segments and index files.  The theory shows that the search finds a free
  segment whenever there is one, and that the number of segments in use is kept exactly.
\<close>

section \<open>Operations\<close>

record seg_validator =
  sv_nr_segment :: nat
  sv_cur_segment :: nat
  sv_table :: disk_bitset

definition seg_validator_take :: "seg_validator \<Rightarrow> nat \<Rightarrow> unit result \<times> seg_validator" where
  "seg_validator_take this seg =
     (case disk_bitset_set (sv_table this) seg of
        (Inl r, t) \<Rightarrow> (Inl r, this\<lparr>sv_table := t\<rparr>)
      | (Inr _, t) \<Rightarrow> (Inr (), this\<lparr>sv_table := t, sv_cur_segment := sv_cur_segment this + 1\<rparr>))"

text \<open>
  The loop at \<^verbatim>\<open>next_try\<close>: from the cursor up to the first segment that reads as not valid; a
  segment whose bit cannot be read is skipped.  The answer is where the cursor stops.
\<close>

function seg_validator_scan :: "seg_validator \<Rightarrow> nat \<Rightarrow> nat option" where
  "seg_validator_scan this cur =
     (if cur < sv_nr_segment this then
        (if disk_bitset_get (sv_table this) cur = Inr False then Some cur
         else seg_validator_scan this (cur + 1))
      else None)"
  by pat_completeness auto
termination by (relation "measure (\<lambda>(this, cur). sv_nr_segment this - cur)") auto

declare seg_validator_scan.simps [simp del]

definition seg_validator_next :: "seg_validator \<Rightarrow> nat result \<times> seg_validator" where
  "seg_validator_next this =
     (case seg_validator_scan this (sv_cur_segment this) of
        Some s \<Rightarrow> (Inr s, this\<lparr>sv_cur_segment := s\<rparr>)
      | None \<Rightarrow>
          (case seg_validator_scan this 0 of
             Some s \<Rightarrow> (Inr s, this\<lparr>sv_cur_segment := s\<rparr>)
           | None \<Rightarrow> (Inl ENODATA, this\<lparr>sv_cur_segment := sv_nr_segment this\<rparr>)))"

definition seg_validator_test_and_return ::
  "seg_validator \<Rightarrow> nat \<Rightarrow> bool result \<times> seg_validator" where
  "seg_validator_test_and_return this seg =
     (case disk_bitset_get (sv_table this) seg of
        Inl r \<Rightarrow> (Inl r, this)
      | Inr valid \<Rightarrow>
          (case disk_bitset_clear (sv_table this) seg of
             (Inl r, t) \<Rightarrow> (Inl r, this\<lparr>sv_table := t\<rparr>)
           | (Inr _, t) \<Rightarrow> (Inr valid, this\<lparr>sv_table := t\<rparr>)))"

definition seg_validator_format :: "seg_validator \<Rightarrow> unit result \<times> seg_validator" where
  "seg_validator_format this =
     (case disk_bitset_format (sv_table this) False of
        (Inl r, t) \<Rightarrow> (Inl r, this\<lparr>sv_table := t\<rparr>)
      | (Inr _, t) \<Rightarrow> (Inr (), this\<lparr>sv_table := t, sv_cur_segment := 0\<rparr>))"

fun seg_validator_count_loop :: "disk_bitset \<Rightarrow> nat list \<Rightarrow> nat \<Rightarrow> nat result" where
  "seg_validator_count_loop t [] count = Inr count"
| "seg_validator_count_loop t (segno # rest) count =
     (case disk_bitset_get t segno of
        Inl r \<Rightarrow> Inl r
      | Inr valid \<Rightarrow> seg_validator_count_loop t rest (count + of_bool valid))"

definition seg_validator_valid_segment_count :: "seg_validator \<Rightarrow> nat result" where
  "seg_validator_valid_segment_count this =
     seg_validator_count_loop (sv_table this) [0..<sv_nr_segment this] 0"

definition seg_validator_init :: "u64 darray \<Rightarrow> nat \<Rightarrow> seg_validator" where
  "seg_validator_init arr nr_segment =
     \<lparr>sv_nr_segment = nr_segment, sv_cur_segment = 0, sv_table = disk_bitset_init arr nr_segment\<rparr>"

section \<open>Invariant\<close>

definition sv_ok :: "seg_validator \<Rightarrow> bool" where
  "sv_ok this \<longleftrightarrow> bitset_ok (sv_table this) \<and> bs_nr_bit (sv_table this) = sv_nr_segment this"

definition sv_valid :: "seg_validator \<Rightarrow> nat \<Rightarrow> bool" where
  "sv_valid this = bits (sv_table this)"

definition sv_count :: "seg_validator \<Rightarrow> nat" where
  "sv_count this = card {s. s < sv_nr_segment this \<and> sv_valid this s}"

lemma sv_count_weight: "sv_ok v \<Longrightarrow> sv_count v = svt.weight (sv_table v)"
  by (simp add: sv_count_def sv_valid_def svt.weight_def sv_ok_def)

lemma sv_ok_init:
  "healthy arr \<Longrightarrow> disk_bitset_nr_group n \<le> ar_nr arr \<Longrightarrow> sv_ok (seg_validator_init arr n)"
  by (simp add: sv_ok_def seg_validator_init_def disk_bitset_init_def bitset_ok_def healthy_def)

lemma scan_Some:
  "seg_validator_scan v c = Some s \<Longrightarrow>
   c \<le> s \<and> s < sv_nr_segment v \<and> disk_bitset_get (sv_table v) s = Inr False"
proof (induction v c rule: seg_validator_scan.induct)
  case (1 v c)
  then show ?case
    by (fastforce simp: seg_validator_scan.simps [of v c] split: if_splits)
qed

lemma scan_None:
  "seg_validator_scan v c = None \<Longrightarrow> c \<le> s \<Longrightarrow> s < sv_nr_segment v \<Longrightarrow>
   disk_bitset_get (sv_table v) s \<noteq> Inr False"
proof (induction v c rule: seg_validator_scan.induct)
  case (1 v c)
  then show ?case
    by (cases "s = c") (auto simp: seg_validator_scan.simps [of v c] split: if_splits)
qed

lemma next_cases:
  obtains (found) s where "seg_validator_next v = (Inr s, v\<lparr>sv_cur_segment := s\<rparr>)"
      and "s < sv_nr_segment v" and "disk_bitset_get (sv_table v) s = Inr False"
    | (full) "seg_validator_next v = (Inl ENODATA, v\<lparr>sv_cur_segment := sv_nr_segment v\<rparr>)"
      and "\<And>s. s < sv_nr_segment v \<Longrightarrow> disk_bitset_get (sv_table v) s \<noteq> Inr False"
proof (cases "seg_validator_scan v (sv_cur_segment v)")
  case (Some s)
  from scan_Some [OF this] show thesis
    by (intro found [of s]) (simp_all add: seg_validator_next_def Some)
next
  case None
  note first = this
  show thesis
  proof (cases "seg_validator_scan v 0")
    case (Some s)
    from scan_Some [OF this] show thesis
      by (intro found [of s]) (simp_all add: seg_validator_next_def first Some)
  next
    case None
    with scan_None [OF None] show thesis
      by (intro full) (simp_all add: seg_validator_next_def first)
  qed
qed

lemma take_in:
  assumes "sv_ok v" and "s < sv_nr_segment v"
  shows "fst (seg_validator_take v s) = Inr ()"
    and "sv_valid (snd (seg_validator_take v s)) = (sv_valid v)(s := True)"
    and "sv_ok (snd (seg_validator_take v s))"
    and "sv_nr_segment (snd (seg_validator_take v s)) = sv_nr_segment v"
    and "\<not> sv_valid v s \<Longrightarrow> sv_count (snd (seg_validator_take v s)) = Suc (sv_count v)"
proof -
  let ?t = "sv_table v"
  have t: "bitset_ok ?t" "s < bs_nr_bit ?t" using assms by (simp_all add: sv_ok_def)
  have eq: "seg_validator_take v s = (Inr (),
      v\<lparr>sv_table := snd (disk_bitset_set ?t s), sv_cur_segment := sv_cur_segment v + 1\<rparr>)"
    using svt.set_view [OF t] by (cases "disk_bitset_set ?t s") (simp add: seg_validator_take_def)
  show "fst (seg_validator_take v s) = Inr ()"
    "sv_valid (snd (seg_validator_take v s)) = (sv_valid v)(s := True)"
    "sv_ok (snd (seg_validator_take v s))"
    "sv_nr_segment (snd (seg_validator_take v s)) = sv_nr_segment v"
    using svt.set_view [OF t] svt.set_keeps [OF t(1), of s] assms(1)
    by (simp_all add: eq sv_valid_def sv_ok_def)
  then show "\<not> sv_valid v s \<Longrightarrow> sv_count (snd (seg_validator_take v s)) = Suc (sv_count v)"
    using svt.weight_set [OF t] assms(1) by (simp add: sv_count_weight) (simp add: eq sv_valid_def)
qed

lemma return_in:
  assumes "sv_ok v" and "s < sv_nr_segment v"
  shows "fst (seg_validator_test_and_return v s) = Inr (sv_valid v s)"
    and "sv_valid (snd (seg_validator_test_and_return v s)) = (sv_valid v)(s := False)"
    and "sv_ok (snd (seg_validator_test_and_return v s))"
    and "sv_nr_segment (snd (seg_validator_test_and_return v s)) = sv_nr_segment v"
    and "sv_valid v s \<Longrightarrow> sv_count (snd (seg_validator_test_and_return v s)) = sv_count v - 1"
proof -
  let ?t = "sv_table v"
  have t: "bitset_ok ?t" "s < bs_nr_bit ?t" using assms by (simp_all add: sv_ok_def)
  have eq: "seg_validator_test_and_return v s =
      (Inr (sv_valid v s), v\<lparr>sv_table := snd (disk_bitset_clear ?t s)\<rparr>)"
    using svt.clear_view [OF t] svt.get_view [OF t]
    by (cases "disk_bitset_clear ?t s") (simp add: seg_validator_test_and_return_def sv_valid_def)
  show "fst (seg_validator_test_and_return v s) = Inr (sv_valid v s)"
    "sv_valid (snd (seg_validator_test_and_return v s)) = (sv_valid v)(s := False)"
    "sv_ok (snd (seg_validator_test_and_return v s))"
    "sv_nr_segment (snd (seg_validator_test_and_return v s)) = sv_nr_segment v"
    using svt.clear_view [OF t] svt.clear_keeps [OF t(1), of s] assms(1)
    by (simp_all add: eq sv_valid_def sv_ok_def)
  then show "sv_valid v s \<Longrightarrow> sv_count (snd (seg_validator_test_and_return v s)) = sv_count v - 1"
    using svt.weight_clear [OF t] assms(1) by (simp add: sv_count_weight) (simp add: eq sv_valid_def)
qed

lemma format_sv:
  assumes "sv_ok v"
  shows "fst (seg_validator_format v) = Inr ()" and "sv_ok (snd (seg_validator_format v))"
    and "sv_valid (snd (seg_validator_format v)) = (\<lambda>_. False)"
    and "sv_nr_segment (snd (seg_validator_format v)) = sv_nr_segment v"
    and "sv_cur_segment (snd (seg_validator_format v)) = 0"
proof -
  have t: "bitset_ok (sv_table v)" using assms by (simp add: sv_ok_def)
  have eq: "seg_validator_format v =
      (Inr (), v\<lparr>sv_table := snd (disk_bitset_format (sv_table v) False), sv_cur_segment := 0\<rparr>)"
    using format_ok(1) [OF t, of False]
    by (cases "disk_bitset_format (sv_table v) False") (simp add: seg_validator_format_def)
  show "fst (seg_validator_format v) = Inr ()" "sv_ok (snd (seg_validator_format v))"
    "sv_valid (snd (seg_validator_format v)) = (\<lambda>_. False)"
    "sv_nr_segment (snd (seg_validator_format v)) = sv_nr_segment v"
    "sv_cur_segment (snd (seg_validator_format v)) = 0"
    using format_ok [OF t, of False] assms by (simp_all add: eq sv_ok_def sv_valid_def)
qed

lemma count_loop:
  "(\<And>s. s \<in> set xs \<Longrightarrow> disk_bitset_get t s = Inr (bits t s)) \<Longrightarrow>
   seg_validator_count_loop t xs n = Inr (n + length (filter (bits t) xs))"
  by (induction xs arbitrary: n) auto

lemma valid_segment_count:
  assumes "sv_ok v"
  shows "seg_validator_valid_segment_count v = Inr (sv_count v)"
proof -
  have g: "disk_bitset_get (sv_table v) s = Inr (bits (sv_table v) s)" if "s \<in> set [0..<sv_nr_segment v]" for s
    using assms that by (simp add: sv_ok_def get_in)
  have "length (filter (bits (sv_table v)) [0..<sv_nr_segment v]) = sv_count v"
    using distinct_card [of "filter (bits (sv_table v)) [0..<sv_nr_segment v]"]
    by (simp add: sv_count_def sv_valid_def conj_commute)
  with count_loop [of "[0..<sv_nr_segment v]" "sv_table v" 0, OF g] show ?thesis
    by (simp add: seg_validator_valid_segment_count_def)
qed

section \<open>Allocation\<close>

text \<open>How every caller allocates: \<^verbatim>\<open>next\<close>, then \<^verbatim>\<open>take\<close> of what it found.\<close>

definition sv_alloc :: "seg_validator \<Rightarrow> nat result \<times> seg_validator" where
  "sv_alloc v =
     (case seg_validator_next v of
        (Inl r, v1) \<Rightarrow> (Inl r, v1)
      | (Inr s, v1) \<Rightarrow>
          (case seg_validator_take v1 s of (Inl r, v2) \<Rightarrow> (Inl r, v2) | (Inr _, v2) \<Rightarrow> (Inr s, v2)))"

lemma sv_ok_cur [simp]:
  "sv_ok (v\<lparr>sv_cur_segment := c\<rparr>) = sv_ok v"
  "sv_valid (v\<lparr>sv_cur_segment := c\<rparr>) = sv_valid v"
  "sv_count (v\<lparr>sv_cur_segment := c\<rparr>) = sv_count v"
  by (simp_all add: sv_ok_def sv_valid_def sv_count_def)

lemma sv_alloc_cases:
  assumes "sv_ok v"
  obtains (found) s v' where "sv_alloc v = (Inr s, v')" and "s < sv_nr_segment v"
      and "\<not> sv_valid v s" and "sv_valid v' = (sv_valid v)(s := True)" and "sv_ok v'"
      and "sv_nr_segment v' = sv_nr_segment v" and "sv_count v' = Suc (sv_count v)"
    | (full) v' where "sv_alloc v = (Inl ENODATA, v')" and "sv_ok v'" and "sv_valid v' = sv_valid v"
      and "sv_nr_segment v' = sv_nr_segment v" and "sv_count v = sv_nr_segment v"
proof (cases rule: next_cases [of v])
  case (found s)
  let ?v = "v\<lparr>sv_cur_segment := s\<rparr>"
  have nv: "\<not> sv_valid v s" using found(3) get_Inr_bits by (auto simp: sv_valid_def)
  have ok: "sv_ok ?v" "s < sv_nr_segment ?v" using assms found(2) by simp_all
  obtain u v' where t: "seg_validator_take ?v s = (u, v')" by fastforce
  from take_in [OF ok] t nv show thesis
    by (intro that(1) [of s v']) (simp_all add: sv_alloc_def found)
next
  case full
  have "sv_valid v s" if "s < sv_nr_segment v" for s
    using full(2) [OF that] assms that by (simp add: sv_ok_def get_in sv_valid_def)
  then have "sv_count v = sv_nr_segment v"
    unfolding sv_count_def by (simp add: card_Collect_less_full)
  then show thesis using full(1) assms
    by (intro that(2) [of "v\<lparr>sv_cur_segment := sv_nr_segment v\<rparr>"]) (simp_all add: sv_alloc_def)
qed

text \<open>
  C10. Allocation from the validity table is exact.  If some segment is free, wherever the cursor
  stands, \<^verbatim>\<open>next\<close> followed by \<^verbatim>\<open>take\<close> hands out a segment that was free, marks it and no other, and
  the count of segments in use goes up by one; it answers \<open>ENODATA\<close> exactly when every segment is in
  use, and then changes no bit.  Returning the segment restores the table.
\<close>

theorem seg_validator_alloc_exact:
  assumes "sv_ok v" and "sv_alloc v = (r, v')"
  shows "case r of
      Inr s \<Rightarrow> s < sv_nr_segment v \<and> \<not> sv_valid v s \<and> sv_valid v' = (sv_valid v)(s := True) \<and>
        seg_validator_valid_segment_count v' = Inr (sv_count v + 1) \<and>
        fst (seg_validator_test_and_return v' s) = Inr True \<and>
        sv_valid (snd (seg_validator_test_and_return v' s)) = sv_valid v
    | Inl e \<Rightarrow> e = ENODATA \<and> (\<forall>s < sv_nr_segment v. sv_valid v s) \<and> sv_valid v' = sv_valid v"
  using assms(1)
proof (cases rule: sv_alloc_cases)
  case (found s w)
  then have w: "r = Inr s" "v' = w" using assms(2) by simp_all
  have "s < sv_nr_segment w" using found by simp
  from return_in [OF found(5) this] valid_segment_count [OF found(5)] found w show ?thesis
    by (simp add: fun_upd_idem)
next
  case (full w)
  then show ?thesis using assms(2) card_Collect_less_full [of "sv_nr_segment v" "sv_valid v"]
    by (auto simp: sv_count_def)
qed

theorem seg_validator_alloc_exact_witness:
  "let v = seg_validator_init (fresh_darray 1 0b1011) 4
   in fst (sv_alloc v) = Inr 2 \<and> \<not> sv_valid v 2"
proof -
  let ?v = "seg_validator_init (fresh_darray 1 0b1011) 4"
  have ok: "sv_ok ?v" "sv_nr_segment ?v = 4"
    by (simp_all add: sv_ok_init disk_bitset_nr_group_def consts_simps)
      (simp add: seg_validator_init_def)
  have val: "sv_valid ?v n = bit (11 :: u64) n" if "n < 64" for n
    using that by (simp add: sv_valid_def bits_def seg_validator_init_def disk_bitset_init_def
        disk_bitset_offset_def disk_bitset_group_def consts_simps)
  have b: "bit (11 :: u64) 0" "bit (11 :: u64) 1" "\<not> bit (11 :: u64) 2" "bit (11 :: u64) 3"
    by (simp_all add: bit_numeral_rec)
  obtain r v' where a: "sv_alloc ?v = (r, v')" by (metis surj_pair)
  note ex = seg_validator_alloc_exact [OF ok(1) a]
  show ?thesis
  proof (cases r)
    case (Inl e)
    with ex ok(2) have "sv_valid ?v 2" by simp
    with val [of 2] b show ?thesis by simp
  next
    case (Inr s)
    with ex ok(2) have "s < 4" "\<not> sv_valid ?v s" by simp_all
    with val [of s] b have "s = 2" by (auto simp: less_Suc_eq numeral_eq_Suc)
    with \<open>\<not> sv_valid ?v s\<close> Inr a show ?thesis by simp
  qed
qed

end
