(* ===== verification/Bit_Catalogue.thy ===== *)
theory Bit_Catalogue
  imports Layout Seg_Validator
begin

text \<open>
  \<^verbatim>\<open>metadata.c\<close>, the catalogue of index files: which of the file slots are in use (a segment
  validator) and, per slot, the description of the file.  It implements the \<^verbatim>\<open>lsm_catalogue\<close> the LSM
  tree works with: file ids, slots in the index region, versions.
\<close>

section \<open>State\<close>

record file_stat =
  fs_root :: nat
  fs_root_key :: "byte list"
  fs_root_iv :: "byte list"
  fs_id :: nat
  fs_level :: nat
  fs_version :: nat
  fs_first_key :: nat
  fs_last_key :: nat
  fs_nr_record :: nat

definition empty_stat :: file_stat where
  "empty_stat = \<lparr>fs_root = 0, fs_root_key = replicate AES_GCM_KEY_SIZE 0,
     fs_root_iv = replicate AES_GCM_IV_SIZE 0, fs_id = 0, fs_level = 0, fs_version = 0,
     fs_first_key = 0, fs_last_key = 0, fs_nr_record = 0\<rparr>"

record bit_catalogue =
  bc_nr_bit :: nat
  bc_max_version :: nat
  bc_bit_validity_table :: seg_validator
  bc_file_stats :: "file_stat darray"
  bc_file_size :: nat
  bc_total_file :: nat
  bc_start :: nat
  bc_nr_disk_level :: nat
  bc_common_ratio :: nat
  bc_max_level_nr_file :: nat

section \<open>Operations\<close>

definition bitc_alloc_file :: "bit_catalogue \<Rightarrow> nat result \<times> bit_catalogue" where
  "bitc_alloc_file this =
     (case seg_validator_next (bc_bit_validity_table this) of
        (Inl err, t) \<Rightarrow> (Inl err, this\<lparr>bc_bit_validity_table := t\<rparr>)
      | (Inr fd, t) \<Rightarrow>
          (case seg_validator_take t fd of
             (Inl err, t2) \<Rightarrow> (Inl err, this\<lparr>bc_bit_validity_table := t2\<rparr>)
           | (Inr _, t2) \<Rightarrow> (Inr fd, this\<lparr>bc_bit_validity_table := t2\<rparr>)))"

definition bitc_release_file :: "bit_catalogue \<Rightarrow> nat \<Rightarrow> unit result \<times> bit_catalogue" where
  "bitc_release_file this fd =
     (case seg_validator_test_and_return (bc_bit_validity_table this) fd of
        (Inl err, t) \<Rightarrow> (Inl err, this\<lparr>bc_bit_validity_table := t\<rparr>)
      | (Inr old, t) \<Rightarrow> (Inr (), this\<lparr>bc_bit_validity_table := t\<rparr>))"

definition bitc_set_file_stats :: "bit_catalogue \<Rightarrow> nat \<Rightarrow> file_stat \<Rightarrow> unit result \<times> bit_catalogue" where
  "bitc_set_file_stats this fd stats =
     (let (r, arr) = darray_set (bc_file_stats this) fd stats in (r, this\<lparr>bc_file_stats := arr\<rparr>))"

definition bitc_get_file_stats :: "bit_catalogue \<Rightarrow> nat \<Rightarrow> file_stat result" where
  "bitc_get_file_stats this fd =
     (case darray_get (bc_file_stats this) fd of Inr info \<Rightarrow> Inr info | Inl _ \<Rightarrow> Inl ENODATA)"

text \<open>The list built so far is returned on the error path too (the caller ignores the error).\<close>

fun bitc_stats_loop :: "bit_catalogue \<Rightarrow> nat list \<Rightarrow> file_stat list \<Rightarrow> unit result \<times> file_stat list" where
  "bitc_stats_loop this [] acc = (Inr (), acc)"
| "bitc_stats_loop this (i # rest) acc =
     (case disk_bitset_get (sv_table (bc_bit_validity_table this)) i of
        Inl err \<Rightarrow> (Inl err, acc)
      | Inr valid \<Rightarrow>
          bitc_stats_loop this rest
            (if valid then (case darray_get (bc_file_stats this) i of
                              Inr stat \<Rightarrow> acc @ [stat] | Inl _ \<Rightarrow> acc)
             else acc))"

definition bitc_get_all_file_stats :: "bit_catalogue \<Rightarrow> unit result \<times> file_stat list" where
  "bitc_get_all_file_stats this =
     bitc_stats_loop this [0..<sv_nr_segment (bc_bit_validity_table this)] []"

definition bitc_get_next_version :: "bit_catalogue \<Rightarrow> nat \<times> bit_catalogue" where
  "bitc_get_next_version this =
     (bc_max_version this, this\<lparr>bc_max_version := bc_max_version this + 1\<rparr>)"

definition bit_catalogue_format :: "bit_catalogue \<Rightarrow> unit result \<times> bit_catalogue" where
  "bit_catalogue_format this =
     (case seg_validator_format (bc_bit_validity_table this) of
        (Inl err, t) \<Rightarrow> (Inl err, this\<lparr>bc_bit_validity_table := t\<rparr>)
      | (Inr _, t) \<Rightarrow>
          let this1 = this\<lparr>bc_bit_validity_table := t\<rparr>;
              (r, arr) = darray_format (bc_file_stats this1) empty_stat
          in (r, this1\<lparr>bc_file_stats := arr\<rparr>))"

definition current_version_step :: "nat \<Rightarrow> file_stat \<Rightarrow> nat" where
  "current_version_step max_version info =
     (if max_version < fs_version info then fs_version info + 1 else max_version)"

definition bitc_get_current_version :: "bit_catalogue \<Rightarrow> nat" where
  "bitc_get_current_version this =
     fold (\<lambda>info v. current_version_step v info) (snd (bitc_get_all_file_stats this)) 0"

text \<open>\<open>bvt\<close> and \<open>stats\<close> are what the blocks at the places the superblock names hold.\<close>

definition bit_catalogue_init ::
  "u64 darray \<Rightarrow> file_stat darray \<Rightarrow> superblock \<Rightarrow> bit_catalogue" where
  "bit_catalogue_init bvt stats sb =
     (let cap = sb_max_disk_level_capacity sb;
          nr_bit = total_bit (sb_nr_disk_level sb) (sb_common_ratio sb) cap;
          max_fd = nr_bit + extra_bit cap;
          this = \<lparr>bc_nr_bit = nr_bit, bc_max_version = 0,
                  bc_bit_validity_table = seg_validator_init bvt max_fd,
                  bc_file_stats = stats\<lparr>ar_nr := max_fd\<rparr>,
                  bc_file_size = BIT_FILE_SIZE, bc_total_file = nr_bit,
                  bc_start = sb_index_region_start sb * METADATA_BLOCK_SIZE,
                  bc_nr_disk_level = sb_nr_disk_level sb, bc_common_ratio = sb_common_ratio sb,
                  bc_max_level_nr_file = total_bit 2 (sb_common_ratio sb) cap\<rparr>
      in this\<lparr>bc_max_version := bitc_get_current_version this\<rparr>)"

section \<open>Slots\<close>

definition catalogue_ok :: "bit_catalogue \<Rightarrow> bool" where
  "catalogue_ok this \<longleftrightarrow> sv_ok (bc_bit_validity_table this) \<and> healthy (bc_file_stats this) \<and>
     ar_nr (bc_file_stats this) = sv_nr_segment (bc_bit_validity_table this)"

abbreviation slot_used :: "bit_catalogue \<Rightarrow> nat \<Rightarrow> bool" where
  "slot_used this fd \<equiv> sv_valid (bc_bit_validity_table this) fd"

abbreviation nr_slots :: "bit_catalogue \<Rightarrow> nat" where
  "nr_slots this \<equiv> sv_nr_segment (bc_bit_validity_table this)"

lemma alloc_file_sv_alloc:
  "bitc_alloc_file this =
     (case sv_alloc (bc_bit_validity_table this) of (r, t) \<Rightarrow> (r, this\<lparr>bc_bit_validity_table := t\<rparr>))"
  by (auto simp: bitc_alloc_file_def sv_alloc_def split: prod.splits sum.splits)

lemma alloc_file_cases:
  assumes "catalogue_ok c"
  obtains (found) fd c' where "bitc_alloc_file c = (Inr fd, c')" and "fd < nr_slots c"
      and "\<not> slot_used c fd" and "sv_valid (bc_bit_validity_table c') = (sv_valid (bc_bit_validity_table c))(fd := True)"
      and "catalogue_ok c'" and "nr_slots c' = nr_slots c" and "bc_file_stats c' = bc_file_stats c"
      and "c' = c\<lparr>bc_bit_validity_table := bc_bit_validity_table c'\<rparr>"
    | (full) c' where "bitc_alloc_file c = (Inl ENODATA, c')" and "\<forall>fd < nr_slots c. slot_used c fd"
      and "catalogue_ok c'"
proof -
  have ok: "sv_ok (bc_bit_validity_table c)" using assms by (simp add: catalogue_ok_def)
  then show thesis
  proof (cases rule: sv_alloc_cases)
    case (found s t)
    let ?c = "c\<lparr>bc_bit_validity_table := t\<rparr>"
    show thesis
      by (rule that(1) [of s ?c])
        (use found assms in \<open>simp_all add: alloc_file_sv_alloc catalogue_ok_def\<close>)
  next
    case (full t)
    have "\<forall>fd < nr_slots c. slot_used c fd"
      using full(5) card_Collect_less_full [of "nr_slots c" "sv_valid (bc_bit_validity_table c)"]
      by (simp add: sv_count_def)
    with full show thesis
      by (intro that(2) [of "c\<lparr>bc_bit_validity_table := t\<rparr>"])
        (use assms in \<open>simp_all add: alloc_file_sv_alloc catalogue_ok_def\<close>)
  qed
qed

text \<open>The byte range of slot \<open>fd\<close> in the index region.\<close>

definition slot_range :: "bit_catalogue \<Rightarrow> nat \<Rightarrow> nat set" where
  "slot_range c fd = {bc_start c + fd * bc_file_size c ..< bc_start c + Suc fd * bc_file_size c}"

lemma slots_disjoint:
  assumes "fd \<noteq> fd'"
  shows "slot_range c fd \<inter> slot_range c fd' = {}"
proof -
  have *: "slot_range c a \<inter> slot_range c b = {}" if "a < b" for a b
  proof -
    have "Suc a * bc_file_size c \<le> b * bc_file_size c" using that by (intro mult_le_mono1) simp
    then show ?thesis unfolding slot_range_def by auto
  qed
  show ?thesis using assms * [of fd fd'] * [of fd' fd] by (cases "fd < fd'") auto
qed

lemma stats_loop:
  assumes "catalogue_ok c" and "\<And>i. i \<in> set xs \<Longrightarrow> i < nr_slots c"
  shows "bitc_stats_loop c xs acc =
    (Inr (), acc @ map (ar_cells (bc_file_stats c)) (filter (slot_used c) xs))"
  using assms(2)
proof (induction xs arbitrary: acc)
  case Nil
  then show ?case by simp
next
  case (Cons x xs)
  have "disk_bitset_get (sv_table (bc_bit_validity_table c)) x = Inr (slot_used c x)"
    using assms(1) Cons.prems by (simp add: catalogue_ok_def sv_ok_def get_in sv_valid_def)
  moreover have "darray_get (bc_file_stats c) x = Inr (ar_cells (bc_file_stats c) x)"
    using assms(1) Cons.prems by (simp add: catalogue_ok_def arr_simps)
  ultimately show ?case using Cons by simp
qed

lemma all_file_stats:
  "catalogue_ok c \<Longrightarrow> bitc_get_all_file_stats c =
     (Inr (), map (ar_cells (bc_file_stats c)) (filter (slot_used c) [0..<nr_slots c]))"
  unfolding bitc_get_all_file_stats_def by (subst stats_loop) simp_all

text \<open>
  C27. Index files get slots of their own.  While the table can be read, allocation answers a slot
  below the number of slots that was not in use (and \<open>ENODATA\<close> only when all are), so that its byte
  range in the index region meets that of no file in use and stays inside the region; describing the
  file there makes it appear in the list of all files, with the others as before; releasing it makes
  it disappear.
\<close>

theorem catalogue_slots:
  assumes "catalogue_ok c" and "bitc_alloc_file c = (Inr fd, c1)"
    and "bitc_set_file_stats c1 fd stats = (r, c2)" and "bitc_release_file c2 fd = (r', c3)"
  shows "fd < nr_slots c \<and> \<not> slot_used c fd \<and>
    (\<forall>fd' < nr_slots c. slot_used c fd' \<longrightarrow> slot_range c fd \<inter> slot_range c fd' = {}) \<and>
    slot_range c fd \<subseteq> {bc_start c ..< bc_start c + nr_slots c * bc_file_size c} \<and>
    r = Inr () \<and> set (snd (bitc_get_all_file_stats c2)) = insert stats (set (snd (bitc_get_all_file_stats c))) \<and>
    r' = Inr () \<and> set (snd (bitc_get_all_file_stats c3)) = set (snd (bitc_get_all_file_stats c))"
  using assms(1)
proof (cases rule: alloc_file_cases)
  case (full c')
  with assms(2) show ?thesis by simp
next
  case (found fd' c')
  then have c1: "fd' = fd" "c' = c1" using assms(2) by simp_all
  note f = found [unfolded c1]
  have c2: "r = Inr ()" "c2 = c1\<lparr>bc_file_stats := (bc_file_stats c1)\<lparr>ar_cells := (ar_cells (bc_file_stats c))(fd := stats)\<rparr>\<rparr>"
    using assms(3) f by (simp_all add: bitc_set_file_stats_def catalogue_ok_def arr_simps)
  then have ok2: "catalogue_ok c2" using f(5) by (simp add: catalogue_ok_def)
  have sv2: "sv_ok (bc_bit_validity_table c2)" "fd < sv_nr_segment (bc_bit_validity_table c2)"
    using f c2 by (simp_all add: catalogue_ok_def)
  obtain q t where q: "seg_validator_test_and_return (bc_bit_validity_table c2) fd = (q, t)" by fastforce
  note R = return_in [OF sv2, unfolded q, simplified]
  have c3: "r' = Inr ()" "c3 = c2\<lparr>bc_bit_validity_table := t\<rparr>"
    using assms(4) R(1) q by (simp_all add: bitc_release_file_def)
  have ok3: "catalogue_ok c3" using ok2 R by (simp add: c3 catalogue_ok_def)
  have v2: "sv_valid (bc_bit_validity_table c2) = (sv_valid (bc_bit_validity_table c))(fd := True)"
    using f(4) by (simp add: c2(2))
  have v3: "sv_valid (bc_bit_validity_table c3) = sv_valid (bc_bit_validity_table c)"
    using R(2) v2 f(3) by (auto simp: c3 fun_eq_iff)
  have n: "nr_slots c2 = nr_slots c" "nr_slots c3 = nr_slots c"
    using f c2 R(4) by (simp_all add: c3)
  have s: "ar_cells (bc_file_stats c2) = (ar_cells (bc_file_stats c))(fd := stats)"
    "ar_cells (bc_file_stats c3) = (ar_cells (bc_file_stats c))(fd := stats)"
    using c2 by (simp_all add: c3)
  have "set (snd (bitc_get_all_file_stats c2)) = insert stats (set (snd (bitc_get_all_file_stats c)))"
    unfolding all_file_stats [OF ok2] all_file_stats [OF assms(1)] v2 n s using f(2,3) by (auto simp: image_iff)
  moreover have "set (snd (bitc_get_all_file_stats c3)) = set (snd (bitc_get_all_file_stats c))"
    unfolding all_file_stats [OF ok3] all_file_stats [OF assms(1)] v3 n s using f(3) by (auto simp: image_iff)
  moreover have "slot_range c fd \<subseteq> {bc_start c ..< bc_start c + nr_slots c * bc_file_size c}"
  proof -
    have "Suc fd * bc_file_size c \<le> nr_slots c * bc_file_size c" using f(2) by (intro mult_le_mono1) simp
    then show ?thesis unfolding slot_range_def by auto
  qed
  moreover have "\<forall>fd' < nr_slots c. slot_used c fd' \<longrightarrow> slot_range c fd \<inter> slot_range c fd' = {}"
  proof (intro allI impI)
    fix fd'
    assume "slot_used c fd'"
    then have "fd \<noteq> fd'" using f(3) by auto
    then show "slot_range c fd \<inter> slot_range c fd' = {}" by (rule slots_disjoint)
  qed
  ultimately show ?thesis using f(2,3) c2(1) c3(1) by blast
qed

text \<open>A catalogue of four slots whose second and third hold files of versions 1 and 2.\<close>

definition demo_catalogue :: bit_catalogue where
  "demo_catalogue =
     \<lparr>bc_nr_bit = 2, bc_max_version = 0,
      bc_bit_validity_table = seg_validator_init (fresh_darray 1 0b0110) 4,
      bc_file_stats = (fresh_darray 4 empty_stat)\<lparr>ar_cells :=
        (\<lambda>_. empty_stat)(1 := empty_stat\<lparr>fs_version := 1\<rparr>, 2 := empty_stat\<lparr>fs_version := 2\<rparr>)\<rparr>,
      bc_file_size = BIT_FILE_SIZE, bc_total_file = 2, bc_start = 4096, bc_nr_disk_level = 2,
      bc_common_ratio = 10, bc_max_level_nr_file = 2\<rparr>"

lemma demo_catalogue_ok: "catalogue_ok demo_catalogue"
  by (simp add: catalogue_ok_def demo_catalogue_def sv_ok_init disk_bitset_nr_group_def consts_simps)
    (simp add: seg_validator_init_def)

lemma demo_catalogue_used:
  "nr_slots demo_catalogue = 4"
  "n < 4 \<Longrightarrow> slot_used demo_catalogue n \<longleftrightarrow> n = 1 \<or> n = 2"
proof -
  show "nr_slots demo_catalogue = 4" by (simp add: demo_catalogue_def seg_validator_init_def)
  have "slot_used demo_catalogue n = bit (6 :: u64) n" if "n < 4" for n
    using that by (simp add: demo_catalogue_def sv_valid_def bits_def seg_validator_init_def
        disk_bitset_init_def disk_bitset_offset_def disk_bitset_group_def consts_simps)
  moreover have "bit (6 :: u64) n \<longleftrightarrow> n = 1 \<or> n = 2" if "n < 4" for n
    using that by (auto simp: bit_numeral_rec less_Suc_eq numeral_eq_Suc)
  ultimately show "n < 4 \<Longrightarrow> slot_used demo_catalogue n \<longleftrightarrow> n = 1 \<or> n = 2" by simp
qed

theorem catalogue_slots_witness:
  "\<exists>fd c1. bitc_alloc_file demo_catalogue = (Inr fd, c1) \<and> (fd = 0 \<or> fd = 3) \<and>
     slot_range demo_catalogue fd \<inter> slot_range demo_catalogue 1 = {}"
  using demo_catalogue_ok
proof (cases rule: alloc_file_cases)
  case (full c')
  then have "slot_used demo_catalogue 0" using demo_catalogue_used(1) by simp
  then show ?thesis using demo_catalogue_used(2) [of 0] by simp
next
  case (found fd c1)
  obtain r c2 where c2: "bitc_set_file_stats c1 fd empty_stat = (r, c2)" by (metis surj_pair)
  obtain r' c3 where c3: "bitc_release_file c2 fd = (r', c3)" by (metis surj_pair)
  note S = catalogue_slots [OF demo_catalogue_ok found(1) c2 c3]
  then have "fd < 4" "\<not> (fd = 1 \<or> fd = 2)"
    using demo_catalogue_used(1) demo_catalogue_used(2) [of fd] by auto
  moreover have "slot_range demo_catalogue fd \<inter> slot_range demo_catalogue 1 = {}"
    using S demo_catalogue_used(1) demo_catalogue_used(2) [of 1] by auto
  ultimately show ?thesis using found(1) by (intro exI [of _ fd] exI [of _ c1]) auto
qed

text \<open>
  The counter over a list of files: it is below no version, it is one more than some version once it has moved, and
  it does not move while the versions are at most its value.
\<close>

abbreviation version_after :: "file_stat list \<Rightarrow> nat \<Rightarrow> nat" where
  "version_after xs v \<equiv> fold (\<lambda>info v. current_version_step v info) xs v"

lemma version_after_ge: "v \<le> version_after xs v \<and> (\<forall>x \<in> set xs. fs_version x \<le> version_after xs v)"
proof (induction xs arbitrary: v)
  case (Cons x xs)
  have "v \<le> current_version_step v x" "fs_version x \<le> current_version_step v x"
    by (simp_all add: current_version_step_def)
  then show ?case using Cons [of "current_version_step v x"] by (auto intro: le_trans)
qed simp

lemma version_after_moved: "version_after xs v = v \<or> (\<exists>x \<in> set xs. v < fs_version x \<and> version_after xs v = fs_version x + 1)"
proof (induction xs arbitrary: v)
  case (Cons x xs)
  consider "current_version_step v x = v" | "v < fs_version x" "current_version_step v x = fs_version x + 1"
    unfolding current_version_step_def by meson
  then show ?case
  proof cases
    case 2
    then show ?thesis using Cons [of "current_version_step v x"] by fastforce
  qed (use Cons [of v] in auto)
qed simp

lemma version_after_stays: "\<forall>x \<in> set xs. fs_version x \<le> v \<Longrightarrow> version_after xs v = v"
  by (induction xs) (simp_all add: current_version_step_def)

lemma version_after_collides:
  assumes "map fs_version xs = pre @ v # mid @ (v + 1) # post" and "0 < v"
    and "\<forall>u \<in> set pre. u + 1 < v" and "\<forall>u \<in> set mid. u \<le> v" and "\<forall>u \<in> set post. u \<le> v + 1"
  shows "version_after xs 0 = v + 1"
proof -
  obtain as xs1 where xs1: "xs = as @ xs1" "map fs_version as = pre" "map fs_version xs1 = v # mid @ (v + 1) # post"
    using assms(1) by (metis map_eq_append_conv)
  obtain x xs2 where xs2: "xs1 = x # xs2" "fs_version x = v" "map fs_version xs2 = mid @ (v + 1) # post"
    using xs1(3) by (metis map_eq_Cons_conv)
  obtain bs xs3 where xs3: "xs2 = bs @ xs3" "map fs_version bs = mid" "map fs_version xs3 = (v + 1) # post"
    using xs2(3) by (metis map_eq_append_conv)
  obtain y cs where xs4: "xs3 = y # cs" "fs_version y = v + 1" "map fs_version cs = post"
    using xs3(3) by (metis map_eq_Cons_conv)
  note xs = xs1(1) [unfolded xs2(1) xs3(1) xs4(1)] xs1(2) xs2(2) xs3(2) xs4(2,3)
  have "\<forall>z \<in> set as. fs_version z + 1 < v" using assms(3) unfolding xs(2) [symmetric] by simp
  then have "version_after as 0 < v" using version_after_moved [of as 0] assms(2) by auto
  then have "current_version_step (version_after as 0) x = v + 1" using xs(3) by (simp add: current_version_step_def)
  moreover have "version_after bs (v + 1) = v + 1"
    by (rule version_after_stays) (use assms(4) in \<open>auto simp: xs(4) [symmetric]\<close>)
  moreover have "current_version_step (v + 1) y = v + 1" using xs(5) by (simp add: current_version_step_def)
  moreover have "version_after cs (v + 1) = v + 1"
    by (rule version_after_stays) (use assms(5) in \<open>auto simp: xs(6) [symmetric]\<close>)
  ultimately show ?thesis by (simp add: xs(1))
qed

text \<open>
  C28. The version counter after a reload, over the list of files the catalogue gives.  It is 0 when no file has a
  version above 0.  Else, with \<open>M\<close> the greatest version in use, it is \<open>M + 1\<close>, or it is \<open>M\<close> itself, a version already in
  use, and then \<open>M - 1\<close> is in use too.  The latter happens whenever a version \<open>v\<close> is listed before \<open>v + 1\<close>, with none
  greater after it and only versions below \<open>v - 1\<close> before it, as for two files of versions 1 and 2.
\<close>

theorem current_version_not_below:
  "let vs = map fs_version (snd (bitc_get_all_file_stats c)); r = bitc_get_current_version c
   in (\<forall>v \<in> set vs. v \<le> r) \<and> ((\<forall>v \<in> set vs. v = 0) \<longrightarrow> r = 0) \<and>
      (\<forall>M \<in> set vs. 0 < M \<and> (\<forall>v \<in> set vs. v \<le> M) \<longrightarrow> r = M + 1 \<or> r = M \<and> M - 1 \<in> set vs) \<and>
      (\<forall>pre v mid post. vs = pre @ v # mid @ (v + 1) # post \<and> 0 < v \<and> (\<forall>u \<in> set pre. u + 1 < v) \<and>
         (\<forall>u \<in> set mid. u \<le> v) \<and> (\<forall>u \<in> set post. u \<le> v + 1) \<longrightarrow> r = v + 1)"
proof -
  define xs where "xs = snd (bitc_get_all_file_stats c)"
  let ?vs = "map fs_version xs" and ?r = "version_after xs 0"
  have ge: "\<forall>v \<in> set ?vs. v \<le> ?r" using version_after_ge [of 0 xs] by simp
  have moved: "?r = 0 \<or> (\<exists>u \<in> set ?vs. 0 < u \<and> ?r = u + 1)" using version_after_moved [of xs 0] by auto
  have zero: "?r = 0" if "\<forall>v \<in> set ?vs. v = 0" using moved that by auto
  have "?r = M + 1 \<or> ?r = M \<and> M - 1 \<in> set ?vs" if M: "M \<in> set ?vs" "0 < M" "\<forall>v \<in> set ?vs. v \<le> M" for M
  proof -
    have "M \<le> ?r" using ge M(1) by blast
    then obtain u where u: "u \<in> set ?vs" "?r = u + 1" using moved M(2) by auto
    then have "u \<le> M" using M(3) by blast
    then have "u = M \<or> u = M - 1 \<and> u + 1 = M" using u(2) \<open>M \<le> ?r\<close> M(2) by linarith
    then show ?thesis using u by auto
  qed
  then show ?thesis
    using ge zero version_after_collides [of xs] unfolding bitc_get_current_version_def xs_def [symmetric] Let_def by blast
qed

text \<open>The catalogue with files of versions 1 and 2 starts again at 2.\<close>

theorem current_version_not_below_witness:
  "map fs_version (snd (bitc_get_all_file_stats demo_catalogue)) = [1, 2] \<and> bitc_get_current_version demo_catalogue = 2"
proof -
  have f: "filter (slot_used demo_catalogue) [0..<4] = [1, 2]"
    using demo_catalogue_used(2) by (simp add: upt_rec)
  have l: "map fs_version (snd (bitc_get_all_file_stats demo_catalogue)) = [] @ 1 # [] @ (1 + 1) # []"
    unfolding all_file_stats [OF demo_catalogue_ok] demo_catalogue_used(1) f
    by (simp add: demo_catalogue_def)
  have "bitc_get_current_version demo_catalogue = 1 + 1"
    using current_version_not_below [of demo_catalogue] l unfolding Let_def
    by (elim conjE) (erule allE [of _ "[]"], erule allE [of _ 1], erule allE [of _ "[]"], erule allE [of _ "[]"], simp)
  then show ?thesis using l by simp
qed

end
