(* ===== verification/Bit_File.thy ===== *)
theory Bit_File
  imports Memtable Cache Bit_Catalogue
begin

text \<open>
  \<^verbatim>\<open>lsm_tree.c\<close>, the index files (block index tables, BIT): immutable B-trees of height three that
  map logical blocks to records, written node by node by a builder, each node sealed with the file's
  key.  Leaves carry the place of the next leaf.  A search goes through the two inner levels kept in
  memory and a cache of leaves; an iterator follows the leaves.

  The index region is a function from byte positions to what is stored from there on, \<open>'c\<close> being a
  sealed node.  The authenticated cipher of \<^verbatim>\<open>crypto.c\<close>, called here through \<^verbatim>\<open>global_cipher\<close>, is the
  parameter \<open>nc\<close>.
\<close>

section \<open>Nodes\<close>

record bit_child =
  ch_is_leaf :: bool
  ch_key :: nat
  ch_pos :: nat

text \<open>The pairs \<^verbatim>\<open>keys[i]\<close>, \<^verbatim>\<open>records[i]\<close> for \<^verbatim>\<open>i < nr_record\<close>; the rest of the two arrays is not read.\<close>

record bit_leaf =
  lf_entries :: "(nat \<times> blk_record) list"
  lf_next_pos :: nat

datatype bit_node = Leaf_Node bit_leaf | Inner_Node "bit_child list"

record 'c node_cipher =
  nc_encrypt :: "byte list \<Rightarrow> nat \<Rightarrow> bit_node \<Rightarrow> 'c"
  nc_decrypt :: "byte list \<Rightarrow> nat \<Rightarrow> 'c \<Rightarrow> bit_node result"

definition node_is_leaf :: "bit_node \<Rightarrow> bool" where
  "node_is_leaf node = (case node of Leaf_Node _ \<Rightarrow> True | Inner_Node _ \<Rightarrow> False)"

definition node_data_len :: "bool \<Rightarrow> nat" where
  "node_data_len leaf =
     (if leaf then BIT_LEAF_NODE_SIZE - AES_GCM_AUTH_SIZE else BIT_INNER_NODE_SIZE - AES_GCM_AUTH_SIZE)"

definition bit_node_encode :: "'c node_cipher \<Rightarrow> bit_node \<Rightarrow> byte list \<Rightarrow> 'c" where
  "bit_node_encode nc node key = nc_encrypt nc key (node_data_len (node_is_leaf node)) node"

definition bit_node_decode :: "'c node_cipher \<Rightarrow> 'c \<Rightarrow> bool \<Rightarrow> byte list \<Rightarrow> bit_node result" where
  "bit_node_decode nc data leaf key = nc_decrypt nc key (node_data_len leaf) data"

text \<open>The cipher opens what it sealed.\<close>

definition node_cipher_ok :: "'c node_cipher \<Rightarrow> bool" where
  "node_cipher_ok nc \<longleftrightarrow> (\<forall>k n x. nc_decrypt nc k n (nc_encrypt nc k n x) = Inr x)"

lemma decode_encode:
  "node_cipher_ok nc \<Longrightarrow> bit_node_decode nc (bit_node_encode nc node key) (node_is_leaf node) key = Inr node"
  by (simp add: node_cipher_ok_def bit_node_decode_def bit_node_encode_def)

lemma node_is_leaf_simps [simp]: "node_is_leaf (Leaf_Node l)" "\<not> node_is_leaf (Inner_Node cs)"
  by (simp_all add: node_is_leaf_def)

section \<open>Builder\<close>

text \<open>
  \<open>bb_ctx ! h\<close> is the context of height \<open>h\<close>: the nodes waiting for their parent, with their
  positions.  \<open>bb_buffer\<close> gives what the write buffer holds from an offset on.
\<close>

record 'c bit_builder =
  bb_file :: "nat \<Rightarrow> 'c"
  bb_begin :: nat
  bb_has_first_key :: bool
  bb_first_key :: nat
  bb_last_key :: nat
  bb_cur :: nat
  bb_height :: nat
  bb_id :: nat
  bb_level :: nat
  bb_version :: nat
  bb_buffer :: "nat \<Rightarrow> 'c"
  bb_ctx :: "(bit_node \<times> nat) list list"
  bb_bit_key :: "byte list"
  bb_cur_leaf :: "(nat \<times> blk_record) list"
  bb_size :: nat

definition BUILDER_BUFFER_SIZE :: nat where
  "BUILDER_BUFFER_SIZE = SECTORS_PER_BLOCK * BLOCKS_PER_SEGMENT * SECTOR_SIZE"

definition node_key :: "bit_node \<Rightarrow> nat" where
  "node_key node =
     (case node of Leaf_Node l \<Rightarrow> fst (last (lf_entries l)) | Inner_Node cs \<Rightarrow> ch_key (last cs))"

definition bit_inner :: "(bit_node \<times> nat) list \<Rightarrow> bit_node" where
  "bit_inner ctx =
     Inner_Node (map (\<lambda>(node, pos). \<lparr>ch_is_leaf = node_is_leaf node, ch_key = node_key node,
                                     ch_pos = pos\<rparr>) ctx)"

definition kernel_write :: "(nat \<Rightarrow> 'c) \<Rightarrow> (nat \<Rightarrow> 'c) \<Rightarrow> nat \<Rightarrow> nat \<Rightarrow> nat \<Rightarrow> 'c" where
  "kernel_write file buffer len pos = (\<lambda>p. if pos \<le> p \<and> p < pos + len then buffer (p - pos) else file p)"

definition bit_builder_buffer_flush_if_full :: "'c bit_builder \<Rightarrow> 'c bit_builder" where
  "bit_builder_buffer_flush_if_full this =
     (if bb_cur this + bb_height this * BIT_NODE_SIZE > BUILDER_BUFFER_SIZE
      then this\<lparr>bb_file := kernel_write (bb_file this) (bb_buffer this) (bb_cur this) (bb_begin this),
                bb_begin := bb_begin this + bb_cur this, bb_cur := 0\<rparr>
      else this)"

text \<open>The body of the two loops that close a context: its inner node goes to the next height.\<close>

definition bit_builder_push_inner :: "'c node_cipher \<Rightarrow> 'c bit_builder \<Rightarrow> nat \<Rightarrow> 'c bit_builder" where
  "bit_builder_push_inner nc this h =
     (let inner_node = bit_inner (bb_ctx this ! h)
      in this\<lparr>bb_ctx := (bb_ctx this)[Suc h := bb_ctx this ! Suc h
                          @ [(inner_node, bb_begin this + bb_cur this)], h := []],
              bb_buffer := (bb_buffer this)(bb_cur this := bit_node_encode nc inner_node (bb_bit_key this)),
              bb_cur := bb_cur this + BIT_INNER_NODE_SIZE\<rparr>)"

text \<open>
  The loop of \<^verbatim>\<open>add_entry\<close>, while the context is full; \<open>None\<close> stands for an access beyond the last
  context.
\<close>

function bit_builder_inner_loop ::
  "'c node_cipher \<Rightarrow> 'c bit_builder \<Rightarrow> nat \<Rightarrow> 'c bit_builder option" where
  "bit_builder_inner_loop nc this h =
     (if h < length (bb_ctx this) then
        (if length (bb_ctx this ! h) = DEFAULT_BIT_DEGREE then
           (if Suc h < length (bb_ctx this)
            then bit_builder_inner_loop nc (bit_builder_push_inner nc this h) (Suc h)
            else None)
         else Some this)
      else None)"
  by pat_completeness auto
termination
  by (relation "measure (\<lambda>(nc, this, h). length (bb_ctx this) - h)")
    (auto simp: bit_builder_push_inner_def Let_def)

declare bit_builder_inner_loop.simps [simp del]

definition bit_builder_add_entry ::
  "'c node_cipher \<Rightarrow> 'c bit_builder \<Rightarrow> nat \<times> blk_record \<Rightarrow> 'c bit_builder option" where
  "bit_builder_add_entry nc this entry =
     (let pos = bb_begin this + bb_cur this;
          this1 = this\<lparr>bb_first_key := (if bb_has_first_key this then bb_first_key this else fst entry),
                       bb_has_first_key := True, bb_last_key := fst entry,
                       bb_size := bb_size this + 1,
                       bb_cur_leaf := bb_cur_leaf this @ [entry]\<rparr>
      in if length (bb_cur_leaf this1) < BIT_LEAF_LEN then Some this1
         else
           let leaf = Leaf_Node \<lparr>lf_entries = bb_cur_leaf this1, lf_next_pos = 0\<rparr>;
               this2 = this1\<lparr>bb_ctx := (bb_ctx this1)[0 := bb_ctx this1 ! 0 @ [(leaf, pos)]]\<rparr>;
               this3 = bit_builder_buffer_flush_if_full this2;
               cur = bb_cur this3;
               this4 = this3\<lparr>bb_cur := bb_cur this3 + BIT_LEAF_NODE_SIZE\<rparr>
           in case bit_builder_inner_loop nc this4 0 of
                None \<Rightarrow> None
              | Some this5 \<Rightarrow>
                  let node = Leaf_Node \<lparr>lf_entries = bb_cur_leaf this1,
                                        lf_next_pos = bb_begin this5 + bb_cur this5\<rparr>
                  in Some (this5\<lparr>bb_buffer := (bb_buffer this5)(cur := bit_node_encode nc node (bb_bit_key this5)),
                                 bb_cur_leaf := []\<rparr>))"

section \<open>Files\<close>

type_synonym inner_cache = "bit_child list \<times> bit_child list list"

record bit_file =
  bf_id :: nat
  bf_level :: nat
  bf_version :: nat
  bf_root :: nat
  bf_root_key :: "byte list"
  bf_first_key :: nat
  bf_last_key :: nat
  bf_nr_record :: nat
  bf_cached_leaf :: "bit_leaf lru_cache"
  bf_cached_root :: "inner_cache option"

definition MAX_LEAF_NODE_CACHED :: nat where "MAX_LEAF_NODE_CACHED = 128"

text \<open>Reading an inner node; \<open>None\<close> when it does not decrypt (or is not an inner node).\<close>

definition read_inner :: "'c node_cipher \<Rightarrow> (nat \<Rightarrow> 'c) \<Rightarrow> byte list \<Rightarrow> nat \<Rightarrow> bit_child list option" where
  "read_inner nc file key pos =
     (case bit_node_decode nc (file pos) False key of Inr (Inner_Node cs) \<Rightarrow> Some cs | _ \<Rightarrow> None)"

definition bit_file_build_cached_root ::
  "'c node_cipher \<Rightarrow> (nat \<Rightarrow> 'c) \<Rightarrow> byte list \<Rightarrow> nat \<Rightarrow> inner_cache option" where
  "bit_file_build_cached_root nc file key root =
     (case read_inner nc file key root of
        None \<Rightarrow> None
      | Some children \<Rightarrow>
          let nodes = map (\<lambda>c. read_inner nc file key (ch_pos c)) children
          in if None \<in> set nodes then None else Some (children, map the nodes))"

definition bit_file_create ::
  "'c node_cipher \<Rightarrow> (nat \<Rightarrow> 'c) \<Rightarrow> nat \<Rightarrow> nat \<Rightarrow> nat \<Rightarrow> nat \<Rightarrow> nat \<Rightarrow> nat \<Rightarrow> nat \<Rightarrow> byte list \<Rightarrow> bit_file"
where
  "bit_file_create nc file root fid level version first_key last_key nr_record root_key =
     \<lparr>bf_id = fid, bf_level = level, bf_version = version, bf_root = root, bf_root_key = root_key,
      bf_first_key = first_key, bf_last_key = last_key, bf_nr_record = nr_record,
      bf_cached_leaf = lru_cache_create MAX_LEAF_NODE_CACHED,
      bf_cached_root = bit_file_build_cached_root nc file root_key root\<rparr>"

definition bit_builder_complete_loop :: "'c node_cipher \<Rightarrow> 'c bit_builder \<Rightarrow> 'c bit_builder" where
  "bit_builder_complete_loop nc this =
     foldl (\<lambda>b h. if bb_ctx b ! h = [] then b else bit_builder_push_inner nc b h) this
       [0..<bb_height this - 1]"

definition bit_builder_complete ::
  "'c node_cipher \<Rightarrow> 'c bit_builder \<Rightarrow> bit_file \<times> (nat \<Rightarrow> 'c)" where
  "bit_builder_complete nc this =
     (let pos = bb_begin this + bb_cur this;
          this' = (if bb_ctx this ! (bb_height this - 1) \<noteq> [] then this
            else
              let this1 = bit_builder_buffer_flush_if_full this;
                  leaf = Leaf_Node \<lparr>lf_entries = bb_cur_leaf this1, lf_next_pos = 0\<rparr>
              in if bb_cur_leaf this1 \<noteq> [] then
                   let cur = bb_cur this1;
                       this2 = this1\<lparr>bb_ctx := (bb_ctx this1)[0 := bb_ctx this1 ! 0 @ [(leaf, pos)]],
                                     bb_cur := bb_cur this1 + BIT_LEAF_NODE_SIZE\<rparr>;
                       this3 = bit_builder_complete_loop nc this2
                   in this3\<lparr>bb_buffer := (bb_buffer this3)(cur := bit_node_encode nc leaf (bb_bit_key this3))\<rparr>
                 else bit_builder_complete_loop nc this1);
          file = kernel_write (bb_file this') (bb_buffer this') (bb_cur this') (bb_begin this');
          root = bb_begin this' + bb_cur this' - BIT_INNER_NODE_SIZE
      in (bit_file_create nc file root (bb_id this') (bb_level this') (bb_version this')
            (bb_first_key this') (bb_last_key this') (bb_size this') (bb_bit_key this'), file))"

definition bit_builder_init ::
  "(nat \<Rightarrow> 'c) \<Rightarrow> byte list \<Rightarrow> (nat \<Rightarrow> 'c) \<Rightarrow> nat \<Rightarrow> nat \<Rightarrow> nat \<Rightarrow> nat \<Rightarrow> 'c bit_builder" where
  "bit_builder_init vmem rnd file start fid level version =
     (let height = the (bit_height DEFAULT_LSM_FILE_CAPACITY DEFAULT_BIT_DEGREE)
      in \<lparr>bb_file = file, bb_begin = start, bb_has_first_key = False, bb_first_key = 0, bb_last_key = 0,
          bb_cur = 0, bb_height = height, bb_id = fid, bb_level = level, bb_version = version,
          bb_buffer = vmem, bb_ctx = replicate height [], bb_bit_key = rnd, bb_cur_leaf = [],
          bb_size = 0\<rparr>)"

section \<open>Search\<close>

text \<open>
  The outer \<open>option\<close> is \<open>None\<close> where the C code follows a null or wild pointer: no cached root, an
  index past the cached children.
\<close>

definition bit_leaf_search :: "bit_leaf \<Rightarrow> nat \<Rightarrow> unit result" where
  "bit_leaf_search leaf key = (if key \<in> fst ` set (lf_entries leaf) then Inr () else Inl ENODATA)"

definition bit_file_search_leaf_key_pos :: "bit_file \<Rightarrow> nat \<Rightarrow> (nat \<times> nat) result option" where
  "bit_file_search_leaf_key_pos this key =
     (if key < bf_first_key this \<or> key > bf_last_key this then Some (Inl ENODATA)
      else case bf_cached_root this of
             None \<Rightarrow> None
           | Some (children, child_nodes) \<Rightarrow>
               let i = length (takeWhile (\<lambda>c. \<not> key \<le> ch_key c) children)
               in if i < length child_nodes then
                    (case List.find (\<lambda>c. key \<le> ch_key c) (child_nodes ! i) of
                       Some c \<Rightarrow> Some (Inr (ch_key c, ch_pos c))
                     | None \<Rightarrow> Some (Inl ENODATA))
                  else None)"

definition bit_file_search_leaf ::
  "'c node_cipher \<Rightarrow> (nat \<Rightarrow> 'c) \<Rightarrow> bit_file \<Rightarrow> nat \<Rightarrow> bit_leaf result option" where
  "bit_file_search_leaf nc file this key =
     (case bit_file_search_leaf_key_pos this key of
        None \<Rightarrow> None
      | Some (Inl err) \<Rightarrow> Some (Inl err)
      | Some (Inr (leaf_key, leaf_pos)) \<Rightarrow>
          (case bit_node_decode nc (file leaf_pos) True (bf_root_key this) of
             Inl err \<Rightarrow> Some (Inl err)
           | Inr (Inner_Node _) \<Rightarrow> None
           | Inr (Leaf_Node leaf) \<Rightarrow>
               Some (case bit_leaf_search leaf key of Inl err \<Rightarrow> Inl err | Inr _ \<Rightarrow> Inr leaf)))"

definition bit_file_first_leaf ::
  "'c node_cipher \<Rightarrow> (nat \<Rightarrow> 'c) \<Rightarrow> bit_file \<Rightarrow> bit_leaf result option" where
  "bit_file_first_leaf nc file this = bit_file_search_leaf nc file this (bf_first_key this)"

definition bit_file_search_cached_leaf :: "bit_file \<Rightarrow> nat \<Rightarrow> (blk_record option \<times> bit_file) option" where
  "bit_file_search_cached_leaf this key =
     (case bit_file_search_leaf_key_pos this key of
        None \<Rightarrow> None
      | Some (Inl err) \<Rightarrow> Some (None, this)
      | Some (Inr (leaf_key, leaf_pos)) \<Rightarrow>
          (case lru_cache_get (bf_cached_leaf this) leaf_key of
             (None, c) \<Rightarrow> Some (None, this\<lparr>bf_cached_leaf := c\<rparr>)
           | (Some leaf, c) \<Rightarrow>
               Some (map_of (lf_entries leaf) key, this\<lparr>bf_cached_leaf := c\<rparr>)))"

text \<open>
  On a miss the leaf is read, put in the cache under its last key and searched.  The error of a leaf
  that does not hold the key (or cannot be read) is returned; the search after a successful
  \<^verbatim>\<open>bit_file_search_leaf\<close> always finds the key, otherwise the caller's record would stay unset
  (\<open>None\<close>).
\<close>

definition bit_file_search ::
  "'c node_cipher \<Rightarrow> (nat \<Rightarrow> 'c) \<Rightarrow> bit_file \<Rightarrow> nat \<Rightarrow> (blk_record result \<times> bit_file) option" where
  "bit_file_search nc file this key =
     (case bit_file_search_cached_leaf this key of
        None \<Rightarrow> None
      | Some (Some record, this1) \<Rightarrow> Some (Inr record, this1)
      | Some (None, this1) \<Rightarrow>
          (case bit_file_search_leaf nc file this1 key of
             None \<Rightarrow> None
           | Some (Inl err) \<Rightarrow> Some (Inl err, this1)
           | Some (Inr leaf) \<Rightarrow>
               (case lru_cache_put (bf_cached_leaf this1) (fst (last (lf_entries leaf))) leaf of
                  None \<Rightarrow> None
                | Some c \<Rightarrow>
                    map_option (\<lambda>rec. (Inr rec, this1\<lparr>bf_cached_leaf := c\<rparr>))
                      (map_of (lf_entries leaf) key))))"

definition bit_file_get_stats :: "bit_file \<Rightarrow> file_stat" where
  "bit_file_get_stats this =
     \<lparr>fs_root = bf_root this, fs_root_key = bf_root_key this,
      fs_root_iv = replicate AES_GCM_IV_SIZE 0, fs_id = bf_id this, fs_level = bf_level this,
      fs_version = bf_version this, fs_first_key = bf_first_key this,
      fs_last_key = bf_last_key this, fs_nr_record = bf_nr_record this\<rparr>"

section \<open>Runs of sorted entries\<close>

text \<open>
  A list sorted by key (a key may come twice: a record and then a tombstone) and cut into non-empty
  runs.  The first occurrence of a key not above the last one is in the first run whose last key is
  not below it.
\<close>

definition runs_ok :: "(nat \<times> 'r) list list \<Rightarrow> bool" where
  "runs_ok L \<longleftrightarrow> sorted_wrt (\<le>) (map fst (concat L)) \<and> (\<forall>es \<in> set L. es \<noteq> [])"

abbreviation run_key :: "(nat \<times> 'r) list \<Rightarrow> nat" where
  "run_key es \<equiv> fst (last es)"

lemma runs_ok_Cons:
  "runs_ok (es # L) \<longleftrightarrow> es \<noteq> [] \<and> sorted_wrt (\<le>) (map fst es) \<and> runs_ok L \<and>
     (\<forall>a \<in> set es. \<forall>b \<in> set (concat L). fst a \<le> fst b)"
  by (auto simp: runs_ok_def sorted_wrt_append)

lemma sorted_le_last:
  fixes es :: "(nat \<times> 'r) list"
  assumes "sorted_wrt (\<le>) (map fst es)" and "e \<in> set es"
  shows "fst e \<le> fst (last es)"
  using assms by (induction es) auto

lemma map_of_None_keys: "(\<And>e. e \<in> set xs \<Longrightarrow> fst e \<noteq> k) \<Longrightarrow> map_of xs k = None"
  by (auto simp: map_of_eq_None_iff)

lemma run_first:
  assumes "runs_ok (es # L)" and "k \<le> run_key es"
  shows "map_of (concat (es # L)) k = map_of es k"
proof (cases "map_of es k")
  case None
  note R = assms(1) [unfolded runs_ok_Cons]
  have l: "last es \<in> set es" using R by simp
  have "run_key es \<noteq> k" using None l by (metis map_of_eq_None_iff imageI)
  then have "map_of (concat L) k = None"
    using R l assms(2) by (intro map_of_None_keys) (metis le_antisym)
  then show ?thesis using None by (simp add: map_add_def)
qed (simp add: map_add_def)

lemma run_search:
  assumes "runs_ok L" and "L \<noteq> []" and "k \<le> fst (last (concat L))"
  shows "let i = length (takeWhile (\<lambda>es. \<not> k \<le> run_key es) L)
    in i < length L \<and> k \<le> run_key (L ! i) \<and> map_of (concat L) k = map_of (L ! i) k"
  using assms
proof (induction L)
  case Nil
  then show ?case by simp
next
  case (Cons es L)
  note R = Cons.prems(1) [unfolded runs_ok_Cons]
  show ?case
  proof (cases "k \<le> run_key es")
    case True
    then show ?thesis using run_first [OF Cons.prems(1)] by simp
  next
    case False
    have "L \<noteq> []" using Cons.prems(3) False by (cases L) auto
    moreover have "concat L \<noteq> []" using \<open>L \<noteq> []\<close> R by (cases L) (auto simp: runs_ok_Cons)
    ultimately have IH: "let i = length (takeWhile (\<lambda>es. \<not> k \<le> run_key es) L)
      in i < length L \<and> k \<le> run_key (L ! i) \<and> map_of (concat L) k = map_of (L ! i) k"
      using Cons.IH R Cons.prems(3) by simp
    have "map_of es k = None"
      using sorted_le_last [of es] R False by (intro map_of_None_keys) force
    then show ?thesis using False IH by (auto simp: Let_def map_add_def split: option.splits)
  qed
qed

lemma runs_before:
  assumes "runs_ok L" and "j < length (takeWhile (\<lambda>es. \<not> k \<le> run_key es) L)"
  shows "run_key (L ! j) < k"
  using nth_mem [OF assms(2)] takeWhile_nth [OF assms(2)] by (auto dest: set_takeWhileD)

lemma takeWhile_list_all2:
  "list_all2 R xs ys \<Longrightarrow> (\<And>x y. R x y \<Longrightarrow> P x = Q y) \<Longrightarrow>
   length (takeWhile P xs) = length (takeWhile Q ys)"
  by (induction rule: list_all2_induct) auto

lemma find_takeWhile:
  "List.find P xs = (let j = length (takeWhile (\<lambda>x. \<not> P x) xs) in if j < length xs then Some (xs ! j) else None)"
  by (induction xs) (auto simp: Let_def)

section \<open>Well-formed files\<close>

text \<open>
  \<open>chain nc key f e Ls\<close>: from each position of \<open>Ls\<close> the region \<open>f\<close> holds a leaf with the entries
  given, whose next position is that of the leaf after it, \<open>e\<close> for the last.
\<close>

type_synonym leaf_place = "nat \<times> (nat \<times> blk_record) list"

fun chain :: "'c node_cipher \<Rightarrow> byte list \<Rightarrow> (nat \<Rightarrow> 'c) \<Rightarrow> nat \<Rightarrow> leaf_place list \<Rightarrow> bool" where
  "chain nc key f e [] \<longleftrightarrow> True"
| "chain nc key f e ((p, es) # Ls) \<longleftrightarrow>
     bit_node_decode nc (f p) True key =
       Inr (Leaf_Node \<lparr>lf_entries = es, lf_next_pos = (case Ls of [] \<Rightarrow> e | q # _ \<Rightarrow> fst q)\<rparr>) \<and>
     chain nc key f e Ls"

definition kids_rel :: "bit_child list \<Rightarrow> leaf_place list \<Rightarrow> bool" where
  "kids_rel cs g \<longleftrightarrow>
     list_all2 (\<lambda>c (p, es). es \<noteq> [] \<and> ch_key c = run_key es \<and> ch_pos c = p) cs g"

abbreviation group_entries :: "leaf_place list \<Rightarrow> (nat \<times> blk_record) list" where
  "group_entries g \<equiv> concat (map snd g)"

definition root_rel :: "bit_child list \<Rightarrow> leaf_place list list \<Rightarrow> bool" where
  "root_rel cs G \<longleftrightarrow> list_all2 (\<lambda>c g. g \<noteq> [] \<and> ch_key c = run_key (group_entries g)) cs G"

definition leaf_source ::
  "'c node_cipher \<Rightarrow> byte list \<Rightarrow> (nat \<Rightarrow> 'c) \<Rightarrow> leaf_place list \<Rightarrow> nat \<Rightarrow> bit_leaf option" where
  "leaf_source nc key f Ls =
     map_of (map (\<lambda>(p, es). (run_key es,
       case bit_node_decode nc (f p) True key of
         Inr (Leaf_Node l) \<Rightarrow> l | _ \<Rightarrow> \<lparr>lf_entries = [], lf_next_pos = 0\<rparr>)) Ls)"

text \<open>\<open>file_tree nc f this G\<close>: what the file's nodes hold, grouped by inner node.\<close>

definition file_tree :: "'c node_cipher \<Rightarrow> (nat \<Rightarrow> 'c) \<Rightarrow> bit_file \<Rightarrow> leaf_place list list \<Rightarrow> nat \<Rightarrow> bool" where
  "file_tree nc f this G e \<longleftrightarrow>
     (\<exists>cs nodes. bf_cached_root this = Some (cs, nodes) \<and> root_rel cs G \<and> list_all2 kids_rel nodes G) \<and>
     chain nc (bf_root_key this) f e (concat G) \<and>
     (\<forall>l \<in> set (butlast (concat G)). length (snd l) = BIT_LEAF_LEN) \<and>
     (\<forall>l \<in> set (concat G). length (snd l) \<le> BIT_LEAF_LEN) \<and>
     leaf_cache.coherent (leaf_source nc (bf_root_key this) f (concat G)) (bf_cached_leaf this)"

definition file_ok :: "'c node_cipher \<Rightarrow> (nat \<Rightarrow> 'c) \<Rightarrow> bit_file \<Rightarrow> (nat \<times> blk_record) list \<Rightarrow> bool" where
  "file_ok nc f this xs \<longleftrightarrow>
     (\<exists>G e. file_tree nc f this G e \<and> xs = group_entries (concat G)) \<and>
     sorted_wrt (\<le>) (map fst xs) \<and> xs \<noteq> [] \<and>
     bf_first_key this = fst (hd xs) \<and> bf_last_key this = fst (last xs) \<and> bf_nr_record this = length xs"

lemma chain_decode:
  "chain nc key f e Ls \<Longrightarrow> (p, es) \<in> set Ls \<Longrightarrow>
   \<exists>np. bit_node_decode nc (f p) True key = Inr (Leaf_Node \<lparr>lf_entries = es, lf_next_pos = np\<rparr>)"
  by (induction nc key f e Ls rule: chain.induct) auto

lemma concat_groups: "group_entries (concat G) = concat (map group_entries G)"
  by (induction G) auto

lemma group_runs:
  assumes "sorted_wrt (\<le>) (map fst (group_entries (concat G)))" and "list_all2 kids_rel nodes G"
    and "root_rel cs G"
  shows "runs_ok (map group_entries G)" and "g \<in> set G \<Longrightarrow> runs_ok (map snd g)"
    and "runs_ok (map snd (concat G))"
proof -
  have ne: "es \<noteq> []" if "g \<in> set G" "(p, es) \<in> set g" for g p es
  proof -
    from assms(2) that(1) obtain cs where "kids_rel cs g"
      by (metis in_set_conv_nth list_all2_conv_all_nth)
    with that(2) show ?thesis unfolding kids_rel_def
      by (auto simp: in_set_conv_nth list_all2_conv_all_nth)
  qed
  have gne: "g \<noteq> []" if "g \<in> set G" for g
    using assms(3) that unfolding root_rel_def by (auto simp: in_set_conv_nth list_all2_conv_all_nth)
  have nonempty: "group_entries g \<noteq> []" if "g \<in> set G" for g
  proof -
    have "g \<noteq> []" using gne that .
    then obtain p es g' where "g = (p, es) # g'" by (cases g) auto
    with ne [OF that, of p es] show ?thesis by simp
  qed
  show all: "runs_ok (map group_entries G)"
    using assms(1) nonempty by (auto simp: runs_ok_def concat_groups)
  show "runs_ok (map snd (concat G))"
    using assms(1) ne by (auto simp: runs_ok_def)
  show "runs_ok (map snd g)" if "g \<in> set G"
  proof -
    from that all have "sorted_wrt (\<le>) (map fst (group_entries g))"
    proof (induction G)
      case (Cons h G)
      then show ?case by (auto simp: runs_ok_Cons)
    qed simp
    then show ?thesis using ne [OF that] by (auto simp: runs_ok_def)
  qed
qed

section \<open>Search is lookup\<close>

text \<open>Splitting the leaves around leaf \<open>j\<close> of group \<open>i\<close>: those before have smaller last keys.\<close>

lemma leaves_split:
  assumes R: "runs_ok (map group_entries G)" "\<And>g. g \<in> set G \<Longrightarrow> runs_ok (map snd g)"
    and i: "i < length G" "i = length (takeWhile (\<lambda>es. \<not> k \<le> run_key es) (map group_entries G))"
    and j: "j < length (G ! i)" "j = length (takeWhile (\<lambda>es. \<not> k \<le> run_key es) (map snd (G ! i)))"
  shows "\<exists>L1 L2. concat G = L1 @ G ! i ! j # L2 \<and> (\<forall>l \<in> set L1. run_key (snd l) < k)"
proof -
  let ?g = "G ! i"
  let ?L1 = "concat (take i G) @ take j ?g" and ?L2 = "drop (Suc j) ?g @ concat (drop (Suc i) G)"
  have "concat G = concat (take i G @ ?g # drop (Suc i) G)" using i(1) by (simp add: id_take_nth_drop [symmetric])
  moreover have "?g = take j ?g @ ?g ! j # drop (Suc j) ?g" using j(1) by (rule id_take_nth_drop)
  ultimately have "concat G = ?L1 @ ?g ! j # ?L2" by (metis append.assoc append_Cons concat.simps(2) concat_append)
  moreover have "run_key (snd l) < k" if "l \<in> set ?L1" for l
  proof -
    from that consider h where "h \<in> set (take i G)" "l \<in> set h" | "l \<in> set (take j ?g)" by auto
    then show ?thesis
    proof cases
      case 1
      then obtain i' where i': "i' < i" "h = G ! i'" by (auto simp: in_set_conv_nth)
      have h: "h \<in> set G" using 1(1) by (rule in_set_takeD)
      have "snd l \<noteq> []" using R(2) [OF h] 1(2) by (auto simp: runs_ok_def)
      then have "last (snd l) \<in> set (group_entries h)" using 1(2) by (auto intro!: bexI [of _ l])
      moreover have "sorted_wrt (\<le>) (map fst (group_entries h))"
        using R(2) [OF h] by (simp add: runs_ok_def)
      ultimately have "run_key (snd l) \<le> run_key (group_entries h)" using sorted_le_last by blast
      also have "\<dots> < k" using runs_before [OF R(1), of i' k] i' i by simp
      finally show ?thesis .
    next
      case 2
      then obtain j' where j': "j' < j" "l = ?g ! j'" by (auto simp: in_set_conv_nth)
      have "runs_ok (map snd ?g)" using R(2) i(1) by simp
      from runs_before [OF this, of j' k] show ?thesis using j' j by simp
    qed
  qed
  ultimately show ?thesis by blast
qed

text \<open>The descent through the cached inner nodes ends at the first leaf that can have the key.\<close>

lemma search_pos:
  assumes "file_tree nc f this G e" and "xs = group_entries (concat G)"
    and "sorted_wrt (\<le>) (map fst xs)" and "xs \<noteq> []"
    and "bf_first_key this \<le> k" and "k \<le> bf_last_key this" and "bf_last_key this = fst (last xs)"
  obtains p es L1 L2 where "concat G = L1 @ (p, es) # L2" and "\<forall>l \<in> set L1. run_key (snd l) < k"
    and "k \<le> run_key es" and "map_of xs k = map_of es k"
    and "bit_file_search_leaf_key_pos this k = Some (Inr (run_key es, p))"
proof -
  from assms(1) obtain cs nodes where cr: "bf_cached_root this = Some (cs, nodes)"
    and rr: "root_rel cs G" and kr: "list_all2 kids_rel nodes G"
    unfolding file_tree_def by blast
  note R = group_runs [OF assms(3) [unfolded assms(2)] kr rr]
  let ?i = "length (takeWhile (\<lambda>c. \<not> k \<le> ch_key c) cs)"
  have i: "?i = length (takeWhile (\<lambda>es. \<not> k \<le> run_key es) (map group_entries G))"
    using takeWhile_list_all2 [OF rr [unfolded root_rel_def],
        of "\<lambda>c. \<not> k \<le> ch_key c" "\<lambda>g. \<not> k \<le> run_key (group_entries g)"]
    by (simp add: takeWhile_map comp_def)
  have "map group_entries G \<noteq> []" using assms(2,4) by auto
  note rs = run_search [OF R(1) this, of k, folded i, unfolded Let_def]
  have "k \<le> fst (last (concat (map group_entries G)))"
    using assms(2,6,7) by (simp add: concat_groups)
  with rs have si: "?i < length G" "k \<le> run_key (group_entries (G ! ?i))"
    "map_of xs k = map_of (group_entries (G ! ?i)) k"
    using assms(2) by (auto simp: concat_groups)
  let ?g = "G ! ?i" and ?n = "nodes ! ?i"
  have g: "?g \<in> set G" using si(1) by simp
  have kn: "kids_rel ?n ?g" "?i < length nodes"
    using kr si(1) by (simp_all add: list_all2_conv_all_nth)
  let ?j = "length (takeWhile (\<lambda>c. \<not> k \<le> ch_key c) ?n)"
  have j: "?j = length (takeWhile (\<lambda>es. \<not> k \<le> run_key es) (map snd ?g))"
    using takeWhile_list_all2 [OF kn(1) [unfolded kids_rel_def],
        of "\<lambda>c. \<not> k \<le> ch_key c" "\<lambda>l. \<not> k \<le> run_key (snd l)"]
    by (auto simp: takeWhile_map comp_def split: prod.splits)
  have "?g \<noteq> []" using rr si(1) by (auto simp: root_rel_def list_all2_conv_all_nth)
  then have "map snd ?g \<noteq> []" by simp
  from run_search [OF R(2) [OF g] this si(2), folded j, unfolded Let_def] have sj: "?j < length ?g"
    "map_of (group_entries ?g) k = map_of (snd (?g ! ?j)) k" "k \<le> run_key (snd (?g ! ?j))" by auto
  obtain p es where pe: "?g ! ?j = (p, es)" by fastforce
  obtain L1 L2 where L: "concat G = L1 @ (p, es) # L2" "\<forall>l \<in> set L1. run_key (snd l) < k"
    using leaves_split [OF R(1,2) si(1) i sj(1) j] pe by metis
  have c: "ch_key (?n ! ?j) = run_key es" "ch_pos (?n ! ?j) = p" "?j < length ?n"
    using kn(1) sj(1) pe unfolding kids_rel_def by (auto simp: list_all2_conv_all_nth)
  have "List.find (\<lambda>c. k \<le> ch_key c) ?n = Some (?n ! ?j)"
    using c(3) by (simp add: find_takeWhile Let_def)
  then have "bit_file_search_leaf_key_pos this k = Some (Inr (run_key es, p))"
    using assms(5,6) cr kn(2) c by (simp add: bit_file_search_leaf_key_pos_def Let_def)
  moreover have "map_of xs k = map_of es k" using si(3) sj(2) pe by simp
  ultimately show thesis using that L sj(3) pe by simp
qed

lemma leaf_source_at:
  assumes "chain nc key f e Ls" and "Ls = L1 @ (p, es) # L2" and "\<forall>l \<in> set L1. run_key (snd l) < k"
    and "k \<le> run_key es"
  shows "\<exists>np. leaf_source nc key f Ls (run_key es) = Some \<lparr>lf_entries = es, lf_next_pos = np\<rparr> \<and>
    bit_node_decode nc (f p) True key = Inr (Leaf_Node \<lparr>lf_entries = es, lf_next_pos = np\<rparr>)"
proof -
  obtain np where np: "bit_node_decode nc (f p) True key = Inr (Leaf_Node \<lparr>lf_entries = es, lf_next_pos = np\<rparr>)"
    using chain_decode [OF assms(1), of p es] assms(2) by auto
  let ?h = "\<lambda>(p, es). (run_key es, case bit_node_decode nc (f p) True key of
    Inr (Leaf_Node l) \<Rightarrow> l | _ \<Rightarrow> \<lparr>lf_entries = [], lf_next_pos = 0\<rparr>)"
  have "map_of (map ?h L1) (run_key es) = None"
    using assms(3,4) by (intro map_of_None_keys) force
  then have "map_of (map ?h Ls) (run_key es) = Some \<lparr>lf_entries = es, lf_next_pos = np\<rparr>"
    using np assms(2) by (simp add: map_add_def)
  then show ?thesis using np unfolding leaf_source_def by blast
qed

lemma bit_leaf_search_lookup:
  "bit_leaf_search l k = (case map_of (lf_entries l) k of None \<Rightarrow> Inl ENODATA | Some _ \<Rightarrow> Inr ())"
proof (cases "map_of (lf_entries l) k")
  case None
  then have "k \<notin> fst ` set (lf_entries l)" by (simp add: map_of_eq_None_iff)
  then show ?thesis using None by (simp add: bit_leaf_search_def)
next
  case (Some r)
  then have "k \<in> fst ` set (lf_entries l)" by (metis domI dom_map_of_conv_image_fst)
  then show ?thesis using Some by (simp add: bit_leaf_search_def)
qed

lemma map_of_out_of_range:
  fixes xs :: "(nat \<times> 'r) list"
  assumes "sorted_wrt (\<le>) (map fst xs)" and "xs \<noteq> []" and "k < fst (hd xs) \<or> fst (last xs) < k"
  shows "map_of xs k = None"
proof (rule map_of_None_keys)
  fix e
  assume e: "e \<in> set xs"
  have "fst (hd xs) \<le> fst e" using assms(1,2) e by (cases xs) (auto simp: less_imp_le)
  moreover have "fst e \<le> fst (last xs)" using sorted_le_last [OF assms(1) e] .
  ultimately show "fst e \<noteq> k" using assms(3) by auto
qed

text \<open>Changing only the leaf cache, coherently, keeps a file well formed.\<close>

lemma file_tree_cache:
  assumes "file_tree nc f this G e"
    and "leaf_cache.coherent (leaf_source nc (bf_root_key this) f (concat G)) c"
  shows "file_tree nc f (this\<lparr>bf_cached_leaf := c\<rparr>) G e"
  using assms by (simp add: file_tree_def)

lemma file_ok_cache:
  assumes "file_tree nc f this G e" and "xs = group_entries (concat G)" and "file_ok nc f this xs"
    and "leaf_cache.coherent (leaf_source nc (bf_root_key this) f (concat G)) c"
  shows "file_ok nc f (this\<lparr>bf_cached_leaf := c\<rparr>) xs"
  using file_tree_cache [OF assms(1,4)] assms(2,3) unfolding file_ok_def by auto

definition lookup_result :: "(nat \<times> blk_record) list \<Rightarrow> nat \<Rightarrow> blk_record result" where
  "lookup_result xs k = (case map_of xs k of None \<Rightarrow> Inl ENODATA | Some r \<Rightarrow> Inr r)"

lemma search_correct:
  assumes ok: "file_ok nc f this xs"
  shows "\<exists>c. bit_file_search nc f this k = Some (lookup_result xs k, this\<lparr>bf_cached_leaf := c\<rparr>) \<and>
    file_ok nc f (this\<lparr>bf_cached_leaf := c\<rparr>) xs"
proof -
  from ok obtain G e where ft: "file_tree nc f this G e" and xs: "xs = group_entries (concat G)"
    and so: "sorted_wrt (\<le>) (map fst xs)" and ne: "xs \<noteq> []"
    and fl: "bf_first_key this = fst (hd xs)" "bf_last_key this = fst (last xs)"
    unfolding file_ok_def by blast
  show ?thesis
  proof (cases "bf_first_key this \<le> k \<and> k \<le> bf_last_key this")
    case False
    then have "bit_file_search_leaf_key_pos this k = Some (Inl ENODATA)"
      by (auto simp: bit_file_search_leaf_key_pos_def)
    moreover have "map_of xs k = None"
      using map_of_out_of_range [OF so ne] False fl by auto
    ultimately have "bit_file_search nc f this k = Some (lookup_result xs k, this\<lparr>bf_cached_leaf := bf_cached_leaf this\<rparr>)"
      by (simp add: bit_file_search_def bit_file_search_cached_leaf_def bit_file_search_leaf_def lookup_result_def)
    then show ?thesis using ok by (intro exI [of _ "bf_cached_leaf this"]) simp
  next
    case True
    then obtain p es L1 L2 where L: "concat G = L1 @ (p, es) # L2" "\<forall>l \<in> set L1. run_key (snd l) < k"
        "k \<le> run_key es" and pe: "map_of xs k = map_of es k"
      and pos: "bit_file_search_leaf_key_pos this k = Some (Inr (run_key es, p))"
      using search_pos [OF ft xs so ne] fl(2) by metis
    have ch: "chain nc (bf_root_key this) f e (concat G)"
      and co: "leaf_cache.coherent (leaf_source nc (bf_root_key this) f (concat G)) (bf_cached_leaf this)"
      using ft unfolding file_tree_def by blast+
    obtain np where src: "leaf_source nc (bf_root_key this) f (concat G) (run_key es) =
        Some \<lparr>lf_entries = es, lf_next_pos = np\<rparr>"
      and dec: "bit_node_decode nc (f p) True (bf_root_key this) =
        Inr (Leaf_Node \<lparr>lf_entries = es, lf_next_pos = np\<rparr>)"
      using leaf_source_at [OF ch L] by blast
    let ?l = "\<lparr>lf_entries = es, lf_next_pos = np\<rparr>"
    obtain a c1 where g: "lru_cache_get (bf_cached_leaf this) (run_key es) = (a, c1)" by fastforce
    note cg = leaf_cache.coherent_get [OF co g]
    have hit: "a = Some ?l" if "a \<noteq> None" using cg(3) that src by fastforce
    let ?this1 = "this\<lparr>bf_cached_leaf := c1\<rparr>"
    have cached: "bit_file_search_cached_leaf this k =
        Some (if a = None then None else map_of es k, ?this1)"
      using pos g hit by (cases a) (auto simp: bit_file_search_cached_leaf_def)
    have pos1: "bit_file_search_leaf_key_pos ?this1 k = Some (Inr (run_key es, p))"
      unfolding pos [symmetric] by (simp add: bit_file_search_leaf_key_pos_def)
    have leaf: "bit_file_search_leaf nc f ?this1 k =
        Some (case map_of es k of None \<Rightarrow> Inl ENODATA | Some _ \<Rightarrow> Inr ?l)"
      using pos1 dec by (simp add: bit_file_search_leaf_def bit_leaf_search_lookup split: option.splits)
    have ok1: "file_ok nc f ?this1 xs" using file_ok_cache [OF ft xs ok cg(1)] .
    show ?thesis
    proof (cases "map_of es k")
      case None
      then have "bit_file_search nc f this k = Some (lookup_result xs k, ?this1)"
        using cached leaf pe by (simp add: bit_file_search_def lookup_result_def)
      then show ?thesis using ok1 by blast
    next
      case (Some r)
      show ?thesis
      proof (cases "a = None")
        case False
        then have "bit_file_search nc f this k = Some (lookup_result xs k, ?this1)"
          using cached Some pe by (auto simp: bit_file_search_def lookup_result_def)
        then show ?thesis using ok1 by blast
      next
        case True
        obtain c2 where c2: "lru_cache_put c1 (run_key es) ?l = Some c2"
          "leaf_cache.coherent (leaf_source nc (bf_root_key this) f (concat G)) c2"
          using leaf_cache.coherent_put [OF cg(1) src] by blast
        then have "bit_file_search nc f this k = Some (lookup_result xs k, this\<lparr>bf_cached_leaf := c2\<rparr>)"
          using cached leaf Some True pe by (simp add: bit_file_search_def lookup_result_def)
        then show ?thesis using file_ok_cache [OF ft xs ok c2(2)] by blast
      qed
    qed
  qed
qed

end
