(* ===== verification/Bit_Tree.thy ===== *)
theory Bit_Tree
  imports Bit_File
begin

text \<open>
  The builder of index files makes the trees that the search of \<open>Bit_File\<close> expects.  \<open>builder_inv\<close>
  describes a builder that has taken the entries \<open>xs\<close>: full leaves hang below closed inner nodes or
  wait in the context of height 0, the rest is in the current leaf, and what has been written, to the
  file or to the buffer, is never overwritten.
\<close>

section \<open>What has been written\<close>

definition bb_view :: "'c bit_builder \<Rightarrow> nat \<Rightarrow> 'c" where
  "bb_view b = (\<lambda>p. if bb_begin b \<le> p \<and> p < bb_begin b + bb_cur b then bb_buffer b (p - bb_begin b)
                    else bb_file b p)"

definition bb_top :: "'c bit_builder \<Rightarrow> nat" where
  "bb_top b = bb_begin b + bb_cur b"

text \<open>A later state of the region: nothing below the old top has changed.\<close>

definition extends :: "(nat \<Rightarrow> 'c) \<Rightarrow> nat \<Rightarrow> (nat \<Rightarrow> 'c) \<Rightarrow> nat \<Rightarrow> bool" where
  "extends v t v' t' \<longleftrightarrow> t \<le> t' \<and> (\<forall>p < t. v' p = v p)"

lemma extends_refl [simp]: "extends v t v t"
  by (simp add: extends_def)

lemma extends_trans: "extends v t v' t' \<Longrightarrow> extends v' t' v'' t'' \<Longrightarrow> extends v t v'' t''"
  by (auto simp: extends_def)

text \<open>The base: the region outside \<open>[base, begin)\<close> still holds what it held at first.\<close>

definition outside_kept :: "(nat \<Rightarrow> 'c) \<Rightarrow> nat \<Rightarrow> 'c bit_builder \<Rightarrow> bool" where
  "outside_kept f0 base b \<longleftrightarrow> base \<le> bb_begin b \<and>
     (\<forall>p. p < base \<or> bb_begin b \<le> p \<longrightarrow> bb_file b p = f0 p)"

lemma flush_view [simp]:
  "bb_view (bit_builder_buffer_flush_if_full b) = bb_view b"
  "bb_top (bit_builder_buffer_flush_if_full b) = bb_top b"
  by (auto simp: bit_builder_buffer_flush_if_full_def bb_view_def bb_top_def kernel_write_def)

lemma flush_sel [simp]:
  "bb_ctx (bit_builder_buffer_flush_if_full b) = bb_ctx b"
  "bb_cur_leaf (bit_builder_buffer_flush_if_full b) = bb_cur_leaf b"
  "bb_bit_key (bit_builder_buffer_flush_if_full b) = bb_bit_key b"
  "bb_height (bit_builder_buffer_flush_if_full b) = bb_height b"
  "bb_has_first_key (bit_builder_buffer_flush_if_full b) = bb_has_first_key b"
  "bb_first_key (bit_builder_buffer_flush_if_full b) = bb_first_key b"
  "bb_last_key (bit_builder_buffer_flush_if_full b) = bb_last_key b"
  "bb_size (bit_builder_buffer_flush_if_full b) = bb_size b"
  "bb_id (bit_builder_buffer_flush_if_full b) = bb_id b"
  "bb_level (bit_builder_buffer_flush_if_full b) = bb_level b"
  "bb_version (bit_builder_buffer_flush_if_full b) = bb_version b"
  by (simp_all add: bit_builder_buffer_flush_if_full_def)

lemma flush_outside:
  "outside_kept f0 base b \<Longrightarrow> outside_kept f0 base (bit_builder_buffer_flush_if_full b)"
  by (auto simp: outside_kept_def bit_builder_buffer_flush_if_full_def kernel_write_def)

section \<open>Inner nodes\<close>

definition inner_in :: "'c node_cipher \<Rightarrow> byte list \<Rightarrow> (nat \<Rightarrow> 'c) \<Rightarrow> nat \<Rightarrow> bit_child list \<Rightarrow> bool" where
  "inner_in nc key v p cs \<longleftrightarrow> bit_node_decode nc (v p) False key = Inr (Inner_Node cs)"

text \<open>A context of height 0 and the leaves it holds; one of height 1 and the groups below it.\<close>

definition ctx0_rel :: "(bit_node \<times> nat) list \<Rightarrow> leaf_place list \<Rightarrow> bool" where
  "ctx0_rel C g \<longleftrightarrow> list_all2 (\<lambda>(n, p) (q, es). q = p \<and> es \<noteq> [] \<and>
     (\<exists>np. n = Leaf_Node \<lparr>lf_entries = es, lf_next_pos = np\<rparr>)) C g"

definition ctx1_rel ::
  "nat \<Rightarrow> 'c node_cipher \<Rightarrow> byte list \<Rightarrow> (nat \<Rightarrow> 'c) \<Rightarrow> nat \<Rightarrow> (bit_node \<times> nat) list \<Rightarrow> leaf_place list list \<Rightarrow> bool"
where
  "ctx1_rel base nc key v t C G \<longleftrightarrow> list_all2 (\<lambda>(n, p) g. base \<le> p \<and> p < t \<and> g \<noteq> [] \<and>
     (\<exists>cs. n = Inner_Node cs \<and> inner_in nc key v p cs \<and> kids_rel cs g)) C G"

definition root_in ::
  "nat \<Rightarrow> 'c node_cipher \<Rightarrow> byte list \<Rightarrow> (nat \<Rightarrow> 'c) \<Rightarrow> nat \<Rightarrow> nat \<Rightarrow> leaf_place list list \<Rightarrow> bool" where
  "root_in base nc key v t p G \<longleftrightarrow> base \<le> p \<and> p < t \<and> G \<noteq> [] \<and>
     (\<exists>cs. inner_in nc key v p cs \<and> root_rel cs G \<and>
       list_all2 (\<lambda>c g. base \<le> ch_pos c \<and> ch_pos c < t \<and> (\<exists>cs'. inner_in nc key v (ch_pos c) cs' \<and> kids_rel cs' g)) cs G)"

lemma inner_in_extends: "inner_in nc key v p cs \<Longrightarrow> p < t \<Longrightarrow> extends v t v' t' \<Longrightarrow> inner_in nc key v' p cs"
  by (simp add: inner_in_def extends_def)

lemma ctx1_rel_extends:
  assumes "ctx1_rel base nc key v t C G" and "extends v t v' t'"
  shows "ctx1_rel base nc key v' t' C G"
  using assms(1) unfolding ctx1_rel_def
  by (rule list_all2_mono) (use assms(2) in \<open>auto simp: inner_in_def extends_def\<close>)

lemma root_in_extends:
  assumes "root_in base nc key v t p G" and "extends v t v' t'"
  shows "root_in base nc key v' t' p G"
proof -
  from assms(1) obtain cs where cs: "inner_in nc key v p cs" "root_rel cs G" "base \<le> p \<and> p < t" "G \<noteq> []"
    "list_all2 (\<lambda>c g. base \<le> ch_pos c \<and> ch_pos c < t \<and> (\<exists>cs'. inner_in nc key v (ch_pos c) cs' \<and> kids_rel cs' g)) cs G"
    unfolding root_in_def by blast
  have "list_all2 (\<lambda>c g. base \<le> ch_pos c \<and> ch_pos c < t' \<and> (\<exists>cs'. inner_in nc key v' (ch_pos c) cs' \<and> kids_rel cs' g)) cs G"
    using cs(5) by (rule list_all2_mono) (use assms(2) in \<open>auto simp: inner_in_def extends_def\<close>)
  with cs assms(2) show ?thesis unfolding root_in_def inner_in_def extends_def by auto
qed

lemma chain_extends:
  "chain nc key v e Ls \<Longrightarrow> (\<forall>l \<in> set Ls. fst l < t) \<Longrightarrow> extends v t v' t' \<Longrightarrow> chain nc key v' e Ls"
  by (induction nc key v e Ls rule: chain.induct) (auto simp: extends_def)

lemma chain_append:
  "chain nc key v e (Ls @ [(p, es)]) \<longleftrightarrow> chain nc key v p Ls \<and>
     bit_node_decode nc (v p) True key = Inr (Leaf_Node \<lparr>lf_entries = es, lf_next_pos = e\<rparr>)"
  by (induction nc key v p Ls rule: chain.induct) (auto split: list.splits)

text \<open>The inner node made of a context describes what the context holds.\<close>

lemma bit_inner_ctx0:
  assumes "ctx0_rel C g"
  shows "\<exists>cs. bit_inner C = Inner_Node cs \<and> kids_rel cs g"
proof -
  let ?h = "\<lambda>(node, pos). \<lparr>ch_is_leaf = node_is_leaf node, ch_key = node_key node, ch_pos = pos\<rparr>"
  have "kids_rel (map ?h C) g"
    unfolding kids_rel_def list_all2_map1
    using assms unfolding ctx0_rel_def
    by (rule list_all2_mono) (auto simp: node_key_def)
  then show ?thesis by (simp add: bit_inner_def)
qed

lemma kids_rel_last:
  assumes "kids_rel cs g" and "g \<noteq> []"
  shows "ch_key (last cs) = run_key (group_entries g)"
proof -
  obtain g' p es where g: "g = g' @ [(p, es)]" using assms(2) by (metis prod.exhaust rev_exhaust)
  with assms(1) obtain cs' c where cs: "cs = cs' @ [c]" and c: "ch_key c = run_key es" "es \<noteq> []"
    unfolding kids_rel_def by (auto simp: list_all2_append2 list_all2_Cons2)
  then show ?thesis by (simp add: g)
qed

lemma bit_inner_ctx1:
  assumes "ctx1_rel base nc key v t C G"
  shows "\<exists>cs. bit_inner C = Inner_Node cs \<and> root_rel cs G \<and>
    list_all2 (\<lambda>c g. base \<le> ch_pos c \<and> ch_pos c < t \<and> (\<exists>cs'. inner_in nc key v (ch_pos c) cs' \<and> kids_rel cs' g)) cs G"
proof -
  let ?h = "\<lambda>(node, pos). \<lparr>ch_is_leaf = node_is_leaf node, ch_key = node_key node, ch_pos = pos\<rparr>"
  have "root_rel (map ?h C) G"
    unfolding root_rel_def list_all2_map1 using assms unfolding ctx1_rel_def
    by (rule list_all2_mono) (auto simp: node_key_def kids_rel_last)
  moreover have "list_all2 (\<lambda>c g. base \<le> ch_pos c \<and> ch_pos c < t \<and>
      (\<exists>cs'. inner_in nc key v (ch_pos c) cs' \<and> kids_rel cs' g)) (map ?h C) G"
    unfolding list_all2_map1 using assms unfolding ctx1_rel_def
    by (rule list_all2_mono) auto
  ultimately show ?thesis by (simp add: bit_inner_def)
qed

section \<open>One node written\<close>

lemma push_view:
  fixes nc :: "'c node_cipher" and b :: "'c bit_builder"
  assumes "Suc h < length (bb_ctx b)"
  defines "b' \<equiv> bit_builder_push_inner nc b h"
  shows "bb_view b' (bb_top b) = bit_node_encode nc (bit_inner (bb_ctx b ! h)) (bb_bit_key b)"
    and "extends (bb_view b) (bb_top b) (bb_view b') (bb_top b')"
    and "bb_top b' = bb_top b + BIT_INNER_NODE_SIZE"
    and "bb_ctx b' = (bb_ctx b)[Suc h := bb_ctx b ! Suc h @ [(bit_inner (bb_ctx b ! h), bb_top b)], h := []]"
    and "outside_kept f0 base b \<Longrightarrow> outside_kept f0 base b'"
  unfolding b'_def bit_builder_push_inner_def Let_def
  by (auto simp: bb_view_def bb_top_def extends_def outside_kept_def node_sizes)

lemma push_sel [simp]:
  "bb_cur_leaf (bit_builder_push_inner nc b h) = bb_cur_leaf b"
  "bb_bit_key (bit_builder_push_inner nc b h) = bb_bit_key b"
  "bb_height (bit_builder_push_inner nc b h) = bb_height b"
  "bb_has_first_key (bit_builder_push_inner nc b h) = bb_has_first_key b"
  "bb_first_key (bit_builder_push_inner nc b h) = bb_first_key b"
  "bb_last_key (bit_builder_push_inner nc b h) = bb_last_key b"
  "bb_size (bit_builder_push_inner nc b h) = bb_size b"
  "bb_id (bit_builder_push_inner nc b h) = bb_id b"
  "bb_level (bit_builder_push_inner nc b h) = bb_level b"
  "bb_version (bit_builder_push_inner nc b h) = bb_version b"
  "bb_begin (bit_builder_push_inner nc b h) = bb_begin b"
  "bb_file (bit_builder_push_inner nc b h) = bb_file b"
  by (simp_all add: bit_builder_push_inner_def Let_def)

text \<open>The loop that closes full contexts, for the three heights there are.\<close>

lemma inner_loop_cases:
  assumes "bb_ctx b = [C0, C1, []]" and "length C0 \<le> DEFAULT_BIT_DEGREE" and "length C1 < DEFAULT_BIT_DEGREE"
  shows "bit_builder_inner_loop nc b 0 = Some
    (if length C0 < DEFAULT_BIT_DEGREE then b
     else if Suc (length C1) < DEFAULT_BIT_DEGREE then bit_builder_push_inner nc b 0
     else bit_builder_push_inner nc (bit_builder_push_inner nc b 0) (Suc 0))"
proof -
  let ?b1 = "bit_builder_push_inner nc b 0"
  have c1: "bb_ctx ?b1 = [[], C1 @ [(bit_inner C0, bb_top b)], []]"
    using push_view(4) [of 0 b nc] assms(1) by simp
  let ?b2 = "bit_builder_push_inner nc ?b1 (Suc 0)"
  have c2: "bb_ctx ?b2 = [[], [], [(bit_inner (C1 @ [(bit_inner C0, bb_top b)]), bb_top ?b1)]]"
    using push_view(4) [of "Suc 0" ?b1 nc] c1 by simp
  have d: "DEFAULT_BIT_DEGREE = 32" by (simp add: layout_consts)
  show ?thesis
    using assms c1 c2
    by (auto simp: bit_builder_inner_loop.simps [of nc b 0] bit_builder_inner_loop.simps [of nc ?b1 "Suc 0"]
        bit_builder_inner_loop.simps [of nc ?b2 "Suc (Suc 0)"] d)
qed

section \<open>Invariant of the builder\<close>

definition leaf_places :: "nat \<Rightarrow> nat \<Rightarrow> leaf_place list \<Rightarrow> bool" where
  "leaf_places base t Ls \<longleftrightarrow> (\<forall>l \<in> set Ls. base \<le> fst l \<and> fst l < t \<and> length (snd l) = BIT_LEAF_LEN)"

definition builder_open ::
  "'c node_cipher \<Rightarrow> nat \<Rightarrow> 'c bit_builder \<Rightarrow> (bit_node \<times> nat) list \<Rightarrow> (bit_node \<times> nat) list \<Rightarrow>
   leaf_place list \<Rightarrow> leaf_place list list \<Rightarrow> bool" where
  "builder_open nc base b C0 C1 g G \<longleftrightarrow>
     bb_ctx b = [C0, C1, []] \<and> ctx0_rel C0 g \<and>
     ctx1_rel base nc (bb_bit_key b) (bb_view b) (bb_top b) C1 G \<and>
     leaf_places base (bb_top b) (concat G @ g) \<and>
     chain nc (bb_bit_key b) (bb_view b) (bb_top b) (concat G @ g) \<and>
     length C0 < DEFAULT_BIT_DEGREE \<and> length C1 < DEFAULT_BIT_DEGREE \<and>
     length (bb_cur_leaf b) < BIT_LEAF_LEN \<and> (\<forall>h \<in> set G. length h = DEFAULT_BIT_DEGREE) \<and>
     bb_top b = base + BIT_LEAF_NODE_SIZE * (DEFAULT_BIT_DEGREE * length C1 + length C0)
       + BIT_INNER_NODE_SIZE * length C1"

definition builder_closed :: "'c node_cipher \<Rightarrow> nat \<Rightarrow> 'c bit_builder \<Rightarrow> leaf_place list list \<Rightarrow> bool" where
  "builder_closed nc base b G \<longleftrightarrow>
     (\<exists>N. bb_ctx b = [[], [], [N]]) \<and> bb_cur_leaf b = [] \<and>
     root_in base nc (bb_bit_key b) (bb_view b) (bb_top b) (bb_top b - BIT_INNER_NODE_SIZE) G \<and>
     leaf_places base (bb_top b) (concat G) \<and>
     chain nc (bb_bit_key b) (bb_view b) (bb_top b) (concat G) \<and>
     length G = DEFAULT_BIT_DEGREE \<and> (\<forall>h \<in> set G. length h = DEFAULT_BIT_DEGREE) \<and>
     bb_top b = base + BIT_FILE_SIZE"

definition builder_fields :: "'c bit_builder \<Rightarrow> (nat \<times> blk_record) list \<Rightarrow> bool" where
  "builder_fields b xs \<longleftrightarrow> bb_height b = 3 \<and> bb_size b = length xs \<and>
     (bb_has_first_key b \<longleftrightarrow> xs \<noteq> []) \<and>
     (xs \<noteq> [] \<longrightarrow> bb_first_key b = fst (hd xs) \<and> bb_last_key b = fst (last xs))"

definition builder_inv ::
  "'c node_cipher \<Rightarrow> (nat \<Rightarrow> 'c) \<Rightarrow> nat \<Rightarrow> 'c bit_builder \<Rightarrow> (nat \<times> blk_record) list \<Rightarrow> bool" where
  "builder_inv nc f0 base b xs \<longleftrightarrow> outside_kept f0 base b \<and> builder_fields b xs \<and>
     ((\<exists>C0 C1 g G. builder_open nc base b C0 C1 g G \<and>
         group_entries (concat G @ g) @ bb_cur_leaf b = xs) \<or>
      (\<exists>G. builder_closed nc base b G \<and> group_entries (concat G) = xs))"

lemma builder_init_eq:
  "bit_builder_init vmem rnd f base fid level ver =
     \<lparr>bb_file = f, bb_begin = base, bb_has_first_key = False, bb_first_key = 0, bb_last_key = 0,
      bb_cur = 0, bb_height = 3, bb_id = fid, bb_level = level, bb_version = ver,
      bb_buffer = vmem, bb_ctx = [[], [], []], bb_bit_key = rnd, bb_cur_leaf = [], bb_size = 0\<rparr>"
  by (simp add: bit_builder_init_def default_bit_height Let_def numeral_3_eq_3)

lemma builder_inv_init:
  "builder_inv nc f base (bit_builder_init vmem rnd f base fid level ver) []"
proof -
  let ?b = "bit_builder_init vmem rnd f base fid level ver"
  have "builder_open nc base ?b [] [] [] []"
    by (simp add: builder_open_def builder_init_eq ctx0_rel_def ctx1_rel_def leaf_places_def bb_top_def
        layout_consts)
  moreover have "group_entries (concat [] @ []) @ bb_cur_leaf ?b = []"
    by (simp add: builder_init_eq)
  moreover have "outside_kept f base ?b" "builder_fields ?b []"
    by (simp_all add: outside_kept_def builder_fields_def builder_init_eq)
  ultimately show ?thesis unfolding builder_inv_def by blast
qed

lemma groups_length:
  assumes "leaf_places base t (concat G @ g)" and "\<forall>h \<in> set G. length h = DEFAULT_BIT_DEGREE"
  shows "length (group_entries (concat G @ g)) = BIT_LEAF_LEN * (DEFAULT_BIT_DEGREE * length G + length g)"
proof -
  have len: "length (group_entries Ls) = BIT_LEAF_LEN * length Ls" if "leaf_places base t Ls" for Ls
    using that by (induction Ls) (auto simp: leaf_places_def)
  have "length (concat G) = DEFAULT_BIT_DEGREE * length G"
    using assms(2) by (induction G) auto
  then show ?thesis using len [OF assms(1)] by simp
qed

text \<open>An entry that does not fill the current leaf.\<close>

lemma add_entry_small:
  assumes "builder_open nc base b C0 C1 g G" and "Suc (length (bb_cur_leaf b)) < BIT_LEAF_LEN"
    and "outside_kept f0 base b" and "builder_fields b xs"
    and "group_entries (concat G @ g) @ bb_cur_leaf b = xs"
  shows "\<exists>b'. bit_builder_add_entry nc b e = Some b' \<and> builder_inv nc f0 base b' (xs @ [e])"
proof -
  let ?b = "b\<lparr>bb_first_key := (if bb_has_first_key b then bb_first_key b else fst e),
     bb_has_first_key := True, bb_last_key := fst e, bb_size := bb_size b + 1,
     bb_cur_leaf := bb_cur_leaf b @ [e]\<rparr>"
  have "bit_builder_add_entry nc b e = Some ?b"
    using assms(2) by (simp add: bit_builder_add_entry_def Let_def)
  moreover have v: "bb_view ?b = bb_view b" "bb_top ?b = bb_top b"
    by (simp_all add: bb_view_def bb_top_def fun_eq_iff)
  have "builder_open nc base ?b C0 C1 g G"
    using assms(1,2) unfolding builder_open_def v by auto
  moreover have "outside_kept f0 base ?b" "builder_fields ?b (xs @ [e])"
    using assms(3,4) by (auto simp: outside_kept_def builder_fields_def)
  moreover have "group_entries (concat G @ g) @ bb_cur_leaf ?b = xs @ [e]" using assms(5) by simp
  ultimately show ?thesis unfolding builder_inv_def by blast
qed

text \<open>
  An entry that fills the current leaf, in two halves: the leaf gets its place, then (after full
  contexts are closed) its bytes.
\<close>

definition place_leaf :: "'c bit_builder \<Rightarrow> nat \<times> blk_record \<Rightarrow> 'c bit_builder" where
  "place_leaf b e =
     (let b1 = b\<lparr>bb_first_key := (if bb_has_first_key b then bb_first_key b else fst e),
                 bb_has_first_key := True, bb_last_key := fst e, bb_size := bb_size b + 1,
                 bb_cur_leaf := bb_cur_leaf b @ [e]\<rparr>;
          leaf = Leaf_Node \<lparr>lf_entries = bb_cur_leaf b @ [e], lf_next_pos = 0\<rparr>;
          b2 = b1\<lparr>bb_ctx := (bb_ctx b)[0 := bb_ctx b ! 0 @ [(leaf, bb_top b)]]\<rparr>;
          b3 = bit_builder_buffer_flush_if_full b2
      in b3\<lparr>bb_cur := bb_cur b3 + BIT_LEAF_NODE_SIZE\<rparr>)"

definition write_leaf ::
  "'c node_cipher \<Rightarrow> nat \<Rightarrow> (nat \<times> blk_record) list \<Rightarrow> nat \<Rightarrow> 'c bit_builder \<Rightarrow> 'c bit_builder" where
  "write_leaf nc off es np b =
     b\<lparr>bb_buffer := (bb_buffer b)(off :=
         bit_node_encode nc (Leaf_Node \<lparr>lf_entries = es, lf_next_pos = np\<rparr>) (bb_bit_key b)),
       bb_cur_leaf := []\<rparr>"

lemma add_entry_split:
  assumes "\<not> Suc (length (bb_cur_leaf b)) < BIT_LEAF_LEN"
  shows "bit_builder_add_entry nc b e =
    map_option (\<lambda>b5. write_leaf nc (bb_cur (place_leaf b e) - BIT_LEAF_NODE_SIZE) (bb_cur_leaf b @ [e])
                  (bb_top b5) b5)
      (bit_builder_inner_loop nc (place_leaf b e) 0)"
  using assms
  by (simp add: bit_builder_add_entry_def place_leaf_def write_leaf_def Let_def bb_top_def
      split: option.splits)

lemma place_leaf_facts:
  fixes e :: "nat \<times> blk_record"
  assumes "bb_ctx b = [C0, C1, C2]"
  defines "b4 \<equiv> place_leaf b e"
  shows "bb_top b4 = bb_top b + BIT_LEAF_NODE_SIZE"
    and "extends (bb_view b) (bb_top b) (bb_view b4) (bb_top b4)"
    and "bb_begin b4 + (bb_cur b4 - BIT_LEAF_NODE_SIZE) = bb_top b"
    and "bb_ctx b4 = [C0 @ [(Leaf_Node \<lparr>lf_entries = bb_cur_leaf b @ [e], lf_next_pos = 0\<rparr>, bb_top b)], C1, C2]"
    and "bb_bit_key b4 = bb_bit_key b"
    and "outside_kept f0 base b \<Longrightarrow> outside_kept f0 base b4"
    and "builder_fields b xs \<Longrightarrow> builder_fields b4 (xs @ [e])"
  using assms(1) unfolding b4_def place_leaf_def Let_def bit_builder_buffer_flush_if_full_def
  by (auto simp: bb_top_def extends_def bb_view_def kernel_write_def outside_kept_def builder_fields_def)

lemma write_leaf_facts:
  fixes es :: "(nat \<times> blk_record) list" and np :: nat
  assumes "bb_begin b + off < bb_top b" and "node_cipher_ok nc"
  defines "b' \<equiv> write_leaf nc off es np b"
  shows "bb_top b' = bb_top b" and "bb_ctx b' = bb_ctx b" and "bb_bit_key b' = bb_bit_key b"
    and "bb_cur_leaf b' = []"
    and "bit_node_decode nc (bb_view b' (bb_begin b + off)) True (bb_bit_key b) =
      Inr (Leaf_Node \<lparr>lf_entries = es, lf_next_pos = np\<rparr>)"
    and "p \<noteq> bb_begin b + off \<Longrightarrow> bb_view b' p = bb_view b p"
    and "outside_kept f0 base b \<Longrightarrow> outside_kept f0 base b'"
    and "builder_fields b xs \<Longrightarrow> builder_fields b' xs"
proof -
  have "bb_view b' (bb_begin b + off) =
      bit_node_encode nc (Leaf_Node \<lparr>lf_entries = es, lf_next_pos = np\<rparr>) (bb_bit_key b)"
    using assms(1) by (simp add: b'_def write_leaf_def bb_view_def bb_top_def)
  then show "bit_node_decode nc (bb_view b' (bb_begin b + off)) True (bb_bit_key b) =
      Inr (Leaf_Node \<lparr>lf_entries = es, lf_next_pos = np\<rparr>)"
    using decode_encode [OF assms(2), of "Leaf_Node \<lparr>lf_entries = es, lf_next_pos = np\<rparr>"] by simp
  show "p \<noteq> bb_begin b + off \<Longrightarrow> bb_view b' p = bb_view b p"
    by (auto simp: b'_def write_leaf_def bb_view_def)
qed (simp_all add: b'_def write_leaf_def bb_top_def outside_kept_def builder_fields_def)

lemma ctx_lengths:
  "ctx0_rel C g \<Longrightarrow> length g = length C"
  "ctx1_rel base nc key v t C G \<Longrightarrow> length G = length C"
  unfolding ctx0_rel_def ctx1_rel_def by (simp_all add: list_all2_lengthD)

lemma leaf_places_snoc:
  assumes "leaf_places base t Ls" and "t \<le> t'" and "base \<le> fst l" and "fst l < t'" and "length (snd l) = BIT_LEAF_LEN"
  shows "leaf_places base t' (Ls @ [l])"
  using assms unfolding leaf_places_def by (fastforce intro: less_le_trans)

lemma builder_openD:
  assumes "builder_open nc base b C0 C1 g G"
  shows "bb_ctx b = [C0, C1, []]" and "ctx0_rel C0 g"
    and "ctx1_rel base nc (bb_bit_key b) (bb_view b) (bb_top b) C1 G"
    and "leaf_places base (bb_top b) (concat G @ g)"
    and "chain nc (bb_bit_key b) (bb_view b) (bb_top b) (concat G @ g)"
    and "length C0 < DEFAULT_BIT_DEGREE" and "length C1 < DEFAULT_BIT_DEGREE"
    and "length (bb_cur_leaf b) < BIT_LEAF_LEN" and "\<forall>h \<in> set G. length h = DEFAULT_BIT_DEGREE"
    and "bb_top b = base + BIT_LEAF_NODE_SIZE * (DEFAULT_BIT_DEGREE * length C1 + length C0)
       + BIT_INNER_NODE_SIZE * length C1"
    and "length g = length C0" and "length G = length C1"
proof -
  show "length g = length C0" "length G = length C1"
    using assms unfolding builder_open_def by (blast intro: ctx_lengths)+
qed (use assms in \<open>unfold builder_open_def, blast+\<close>)

text \<open>
  Whatever contexts have been closed in between (\<open>b5\<close>), writing the bytes of a placed leaf leaves the
  chain one leaf longer and everything else as it was.
\<close>

lemma leaf_written:
  assumes op: "builder_open nc base b C0 C1 g G" and nc: "node_cipher_ok nc"
    and full: "Suc (length (bb_cur_leaf b)) = BIT_LEAF_LEN"
    and b5: "bb_begin b5 = bb_begin (place_leaf b e)"
      "extends (bb_view (place_leaf b e)) (bb_top (place_leaf b e)) (bb_view b5) (bb_top b5)"
      "bb_bit_key b5 = bb_bit_key b"
  defines "es \<equiv> bb_cur_leaf b @ [e]"
  defines "b6 \<equiv> write_leaf nc (bb_cur (place_leaf b e) - BIT_LEAF_NODE_SIZE) es (bb_top b5) b5"
  shows "bb_top b6 = bb_top b5" and "bb_ctx b6 = bb_ctx b5" and "bb_bit_key b6 = bb_bit_key b"
    and "bb_cur_leaf b6 = []"
    and "extends (bb_view b) (bb_top b) (bb_view b6) (bb_top b6)"
    and "\<And>p. bb_top (place_leaf b e) \<le> p \<Longrightarrow> bb_view b6 p = bb_view b5 p"
    and "chain nc (bb_bit_key b) (bb_view b6) (bb_top b6) (concat G @ g @ [(bb_top b, es)])"
    and "leaf_places base (bb_top b6) (concat G @ g @ [(bb_top b, es)])"
    and "outside_kept f0 base b5 \<Longrightarrow> outside_kept f0 base b6"
    and "builder_fields b5 xs \<Longrightarrow> builder_fields b6 xs"
proof -
  let ?b4 = "place_leaf b e"
  note D = builder_openD [OF op]
  note P = place_leaf_facts [OF D(1), where e = e]
  have pos: "bb_begin b5 + (bb_cur ?b4 - BIT_LEAF_NODE_SIZE) = bb_top b" using P(3) b5(1) by simp
  have lt: "bb_top b < bb_top ?b4" using P(1) by (simp add: node_sizes)
  have le: "bb_top ?b4 \<le> bb_top b5" using b5(2) by (simp add: extends_def)
  have off: "bb_begin b5 + (bb_cur ?b4 - BIT_LEAF_NODE_SIZE) < bb_top b5" using pos lt le by simp
  note W = write_leaf_facts [OF off nc, where es = es and np = "bb_top b5", folded b6_def, unfolded pos]
  show "bb_top b6 = bb_top b5" "bb_ctx b6 = bb_ctx b5" "bb_bit_key b6 = bb_bit_key b" "bb_cur_leaf b6 = []"
    "outside_kept f0 base b5 \<Longrightarrow> outside_kept f0 base b6"
    "builder_fields b5 xs \<Longrightarrow> builder_fields b6 xs"
    using W(1-4,7,8) b5(3) by simp_all
  show above: "bb_view b6 p = bb_view b5 p" if "bb_top ?b4 \<le> p" for p
    using W(6) that lt by simp
  show ext: "extends (bb_view b) (bb_top b) (bb_view b6) (bb_top b6)"
    using P(2) b5(2) W(1,6) lt le unfolding extends_def by auto
  have "chain nc (bb_bit_key b) (bb_view b6) (bb_top b) (concat G @ g)"
    using chain_extends [OF D(5) _ ext] D(4) by (simp add: leaf_places_def)
  then show "chain nc (bb_bit_key b) (bb_view b6) (bb_top b6) (concat G @ g @ [(bb_top b, es)])"
    using W(5) b5(3) chain_append [of nc "bb_bit_key b" "bb_view b6" "bb_top b6" "concat G @ g" "bb_top b" es]
    by (simp add: W(1))
  have "length es = BIT_LEAF_LEN" using full by (simp add: es_def)
  then show "leaf_places base (bb_top b6) (concat G @ g @ [(bb_top b, es)])"
    using leaf_places_snoc [OF D(4), of "bb_top b6" "(bb_top b, es)"] lt le W(1) D(10) by simp
qed

lemma ctx0_rel_snoc:
  assumes "ctx0_rel C g" and "es \<noteq> []"
  shows "ctx0_rel (C @ [(Leaf_Node \<lparr>lf_entries = es, lf_next_pos = np\<rparr>, p)]) (g @ [(p, es)])"
  using assms unfolding ctx0_rel_def by (auto intro: list_all2_appendI)

text \<open>Closing the context of height 0 adds a group to the context of height 1.\<close>

lemma push0_ctx1:
  assumes "bb_ctx b = [C0, C1, []]" and "ctx0_rel C0 g" and "g \<noteq> []" and "node_cipher_ok nc"
    and "ctx1_rel base nc (bb_bit_key b) (bb_view b) (bb_top b) C1 G" and "base \<le> bb_top b"
  defines "b' \<equiv> bit_builder_push_inner nc b 0"
  shows "ctx1_rel base nc (bb_bit_key b) (bb_view b') (bb_top b') (C1 @ [(bit_inner C0, bb_top b)]) (G @ [g])"
    and "bb_ctx b' = [[], C1 @ [(bit_inner C0, bb_top b)], []]"
proof -
  have l: "Suc 0 < length (bb_ctx b)" by (simp add: assms(1))
  note V = push_view [OF l, where nc = nc, folded b'_def]
  show "bb_ctx b' = [[], C1 @ [(bit_inner C0, bb_top b)], []]" using V(4) assms(1) by simp
  obtain cs where cs: "bit_inner C0 = Inner_Node cs" "kids_rel cs g" using bit_inner_ctx0 [OF assms(2)] by blast
  have "bb_view b' (bb_top b) = bit_node_encode nc (Inner_Node cs) (bb_bit_key b)"
    using V(1) assms(1) cs(1) by simp
  then have "inner_in nc (bb_bit_key b) (bb_view b') (bb_top b) cs"
    using decode_encode [OF assms(4), of "Inner_Node cs"] by (simp add: inner_in_def)
  moreover have "bb_top b < bb_top b'" using V(3) by (simp add: node_sizes)
  moreover have "ctx1_rel base nc (bb_bit_key b) (bb_view b') (bb_top b') C1 G"
    using ctx1_rel_extends [OF assms(5) V(2)] .
  ultimately show "ctx1_rel base nc (bb_bit_key b) (bb_view b') (bb_top b') (C1 @ [(bit_inner C0, bb_top b)]) (G @ [g])"
    using cs assms(3,6) unfolding ctx1_rel_def by (auto intro: list_all2_appendI)
qed

text \<open>The inner node made of the context of height 1 is the root.\<close>

lemma root_from_ctx1:
  assumes "ctx1_rel base nc key v t C G" and "v p = bit_node_encode nc (bit_inner C) key" and "base \<le> p" and "p < t"
    and "G \<noteq> []" and "node_cipher_ok nc"
  shows "root_in base nc key v t p G"
proof -
  obtain cs where cs: "bit_inner C = Inner_Node cs" "root_rel cs G"
    "list_all2 (\<lambda>c g. base \<le> ch_pos c \<and> ch_pos c < t \<and> (\<exists>cs'. inner_in nc key v (ch_pos c) cs' \<and> kids_rel cs' g)) cs G"
    using bit_inner_ctx1 [OF assms(1)] by blast
  have "inner_in nc key v p cs"
    using decode_encode [OF assms(6), of "Inner_Node cs"] assms(2) cs(1) by (simp add: inner_in_def)
  then show ?thesis using cs(2,3) assms(3-5) unfolding root_in_def by auto
qed

text \<open>
  The context of height 1 after the last context of height 0 has been closed and the leaf written:
  \<open>v6\<close> agrees with the region before below the old top, and with \<open>v5\<close> from the end of the leaf on.
\<close>

lemma ctx1_after_push0:
  assumes "ctx1_rel base nc key v t C1 G" and "extends v t v6 t6"
    and "ctx1_rel base nc key v5 t5 (C1 @ [(N, q)]) (G @ [g])" and "v6 q = v5 q" and "q < t6"
  shows "ctx1_rel base nc key v6 t6 (C1 @ [(N, q)]) (G @ [g])"
proof -
  have "list_all2 (\<lambda>(n, p) g. base \<le> p \<and> p < t5 \<and> g \<noteq> [] \<and>
     (\<exists>cs. n = Inner_Node cs \<and> inner_in nc key v5 p cs \<and> kids_rel cs g)) [(N, q)] [g]"
    using assms(1,3) unfolding ctx1_rel_def by (auto simp: list_all2_append dest: list_all2_lengthD)
  then have "ctx1_rel base nc key v6 t6 [(N, q)] [g]"
    using assms(4,5) by (auto simp: ctx1_rel_def inner_in_def)
  with ctx1_rel_extends [OF assms(1,2)] show ?thesis
    unfolding ctx1_rel_def by (blast intro: list_all2_appendI)
qed

lemma push_fields: "builder_fields b xs \<Longrightarrow> builder_fields (bit_builder_push_inner nc b h) xs"
  by (simp add: builder_fields_def)

lemma add_entry_big:
  assumes op: "builder_open nc base b C0 C1 g G" and nc: "node_cipher_ok nc"
    and full: "Suc (length (bb_cur_leaf b)) = BIT_LEAF_LEN"
    and out: "outside_kept f0 base b" and fields: "builder_fields b xs"
    and xs: "group_entries (concat G @ g) @ bb_cur_leaf b = xs"
  shows "\<exists>b'. bit_builder_add_entry nc b e = Some b' \<and> builder_inv nc f0 base b' (xs @ [e])"
proof -
  let ?b4 = "place_leaf b e" and ?es = "bb_cur_leaf b @ [e]"
  let ?w = "\<lambda>b5. write_leaf nc (bb_cur ?b4 - BIT_LEAF_NODE_SIZE) ?es (bb_top b5) b5"
  let ?C = "C0 @ [(Leaf_Node \<lparr>lf_entries = ?es, lf_next_pos = 0\<rparr>, bb_top b)]"
  let ?g = "g @ [(bb_top b, ?es)]"
  note D = builder_openD [OF op] and P = place_leaf_facts [OF builder_openD(1) [OF op], where e = e]
  note L = leaf_written [OF op nc full]
  have d: "DEFAULT_BIT_DEGREE = 32" by (simp add: layout_consts)
  have cr: "ctx0_rel ?C ?g" using ctx0_rel_snoc [OF D(2)] by simp
  have k4: "bb_bit_key ?b4 = bb_bit_key b" "outside_kept f0 base ?b4" "builder_fields ?b4 (xs @ [e])"
    using P(5) P(6) [OF out] P(7) [OF fields] by simp_all
  have c4: "ctx1_rel base nc (bb_bit_key ?b4) (bb_view ?b4) (bb_top ?b4) C1 G"
    unfolding k4(1) by (rule ctx1_rel_extends [OF D(3) P(2)])
  have lb: "base \<le> bb_top ?b4" using P(1) D(10) by simp
  have run: "bit_builder_add_entry nc b e = map_option ?w (bit_builder_inner_loop nc ?b4 0)"
    by (rule add_entry_split) (simp add: full)
  have len: "length ?C \<le> DEFAULT_BIT_DEGREE" using D(6) by simp
  note loop = inner_loop_cases [OF P(4) len D(7), of nc]
  have ent: "group_entries (concat G @ ?g) = xs @ [e]" using xs by simp
  consider (a) "length ?C < DEFAULT_BIT_DEGREE"
    | (b) "\<not> length ?C < DEFAULT_BIT_DEGREE" "Suc (length C1) < DEFAULT_BIT_DEGREE"
    | (c) "\<not> length ?C < DEFAULT_BIT_DEGREE" "\<not> Suc (length C1) < DEFAULT_BIT_DEGREE" by blast
  then show ?thesis
  proof cases
    case a
    note L4 = L [of ?b4 e, OF refl extends_refl k4(1)]
    have ctx: "ctx1_rel base nc (bb_bit_key b) (bb_view (?w ?b4)) (bb_top (?w ?b4)) C1 G"
      by (rule ctx1_rel_extends [OF D(3) L4(5)])
    have "builder_open nc base (?w ?b4) ?C C1 ?g G"
      using a D(7,9) D(10) cr ctx P(1,4) L4(1-4,7,8)
      by (simp add: builder_open_def layout_consts)
    moreover have "outside_kept f0 base (?w ?b4)" "builder_fields (?w ?b4) (xs @ [e])"
      using L4(9) [OF k4(2)] L4(10) [OF k4(3)] by simp_all
    moreover have "group_entries (concat G @ ?g) @ bb_cur_leaf (?w ?b4) = xs @ [e]"
      using ent L4(4) by simp
    ultimately have "builder_inv nc f0 base (?w ?b4) (xs @ [e])" unfolding builder_inv_def by blast
    then show ?thesis using run loop a by simp
  next
    case b
    let ?b5 = "bit_builder_push_inner nc ?b4 0"
    have l4: "Suc 0 < length (bb_ctx ?b4)" by (simp add: P(4))
    note V = push_view [OF l4, where nc = nc]
    note L5 = L [of ?b5 e, OF push_sel(11) V(2) push_sel(2) [THEN trans, OF k4(1)]]
    note Q = push0_ctx1 [OF P(4) cr _ nc c4 lb]
    have q: "ctx1_rel base nc (bb_bit_key b) (bb_view ?b5) (bb_top ?b5) (C1 @ [(bit_inner ?C, bb_top ?b4)]) (G @ [?g])"
      using Q(1) k4(1) by simp
    have lt: "bb_top ?b4 < bb_top (?w ?b5)" using V(3) L5(1) by (simp add: node_sizes)
    have "ctx1_rel base nc (bb_bit_key b) (bb_view (?w ?b5)) (bb_top (?w ?b5))
        (C1 @ [(bit_inner ?C, bb_top ?b4)]) (G @ [?g])"
      by (rule ctx1_after_push0 [OF D(3) L5(5) q L5(6) [OF order_refl] lt])
    moreover have "length ?g = DEFAULT_BIT_DEGREE" using b(1) D(6,11) by (simp add: d)
    ultimately have "builder_open nc base (?w ?b5) [] (C1 @ [(bit_inner ?C, bb_top ?b4)]) [] (G @ [?g])"
      using b D(6,9) D(10) Q(2) P(1) V(3) L5(1-4,7,8)
      by (simp add: builder_open_def ctx0_rel_def layout_consts)
    moreover have "outside_kept f0 base (?w ?b5)" "builder_fields (?w ?b5) (xs @ [e])"
      using L5(9) [OF V(5) [OF k4(2)]] L5(10) [OF push_fields [OF k4(3)]] .
    moreover have "group_entries (concat (G @ [?g]) @ []) @ bb_cur_leaf (?w ?b5) = xs @ [e]"
      using ent L5(4) by simp
    ultimately have "builder_inv nc f0 base (?w ?b5) (xs @ [e])" unfolding builder_inv_def by blast
    then show ?thesis using run loop b by simp
  next
    case c
    let ?b5a = "bit_builder_push_inner nc ?b4 0"
    let ?b5 = "bit_builder_push_inner nc ?b5a (Suc 0)"
    have l4: "Suc 0 < length (bb_ctx ?b4)" by (simp add: P(4))
    note V = push_view [OF l4, where nc = nc]
    note Q = push0_ctx1 [OF P(4) cr _ nc c4 lb]
    have l5: "Suc (Suc 0) < length (bb_ctx ?b5a)" using Q(2) by simp
    note V' = push_view [OF l5, where nc = nc]
    have ext: "extends (bb_view ?b4) (bb_top ?b4) (bb_view ?b5) (bb_top ?b5)"
      using extends_trans [OF V(2) V'(2)] .
    have k5: "bb_begin ?b5 = bb_begin ?b4" "bb_bit_key ?b5 = bb_bit_key b" using k4(1) by simp_all
    note L5 = L [of ?b5 e, OF k5(1) ext k5(2)]
    have q: "ctx1_rel base nc (bb_bit_key b) (bb_view ?b5a) (bb_top ?b5a) (C1 @ [(bit_inner ?C, bb_top ?b4)]) (G @ [?g])"
      using Q(1) k4(1) by simp
    have lt: "bb_top ?b4 < bb_top ?b5a" "bb_top ?b5a < bb_top (?w ?b5)"
      "bb_top (?w ?b5) - BIT_INNER_NODE_SIZE = bb_top ?b5a"
      using V(3) V'(3) L5(1) by (simp_all add: node_sizes)
    have v6: "bb_view (?w ?b5) (bb_top ?b4) = bb_view ?b5a (bb_top ?b4)"
      using L5(6) [OF order_refl] V'(2) lt(1) by (simp add: extends_def)
    have c6: "ctx1_rel base nc (bb_bit_key b) (bb_view (?w ?b5)) (bb_top (?w ?b5))
        (C1 @ [(bit_inner ?C, bb_top ?b4)]) (G @ [?g])"
      by (rule ctx1_after_push0 [OF D(3) L5(5) q v6]) (use lt in simp)
    have "bb_view (?w ?b5) (bb_top ?b5a) =
        bit_node_encode nc (bit_inner (C1 @ [(bit_inner ?C, bb_top ?b4)])) (bb_bit_key b)"
      using L5(6) [of "bb_top ?b5a"] lt(1) V'(1) Q(2) k4(1) by simp
    from root_from_ctx1 [OF c6 this _ lt(2) _ nc] have
      root: "root_in base nc (bb_bit_key b) (bb_view (?w ?b5)) (bb_top (?w ?b5))
        (bb_top (?w ?b5) - BIT_INNER_NODE_SIZE) (G @ [?g])"
      using lb lt(1) by (simp add: lt(3))
    have "length ?g = DEFAULT_BIT_DEGREE" "length (G @ [?g]) = DEFAULT_BIT_DEGREE"
      using c D(6,7,11,12) by (simp_all add: d)
    moreover have "\<exists>N. bb_ctx ?b5 = [[], [], [N]]" using V'(4) Q(2) by simp
    moreover have "bb_top ?b5 = base + BIT_FILE_SIZE"
      using V(3) V'(3) P(1) D(10) c D(6,7) by (simp add: BIT_FILE_SIZE_eq layout_consts)
    ultimately have "builder_closed nc base (?w ?b5) (G @ [?g])"
      using root L5(1-4,7,8) D(9) by (simp add: builder_closed_def)
    moreover have "outside_kept f0 base (?w ?b5)" "builder_fields (?w ?b5) (xs @ [e])"
      using L5(9) [OF V'(5) [OF V(5) [OF k4(2)]]] L5(10) [OF push_fields [OF push_fields [OF k4(3)]]] .
    moreover have "group_entries (concat (G @ [?g])) = xs @ [e]" using ent by simp
    ultimately have "builder_inv nc f0 base (?w ?b5) (xs @ [e])" unfolding builder_inv_def by blast
    then show ?thesis using run loop c by simp
  qed
qed

lemma builder_closedD:
  assumes "builder_closed nc base b G"
  shows "\<exists>N. bb_ctx b = [[], [], [N]]" and "bb_cur_leaf b = []"
    and "root_in base nc (bb_bit_key b) (bb_view b) (bb_top b) (bb_top b - BIT_INNER_NODE_SIZE) G"
    and "leaf_places base (bb_top b) (concat G)"
    and "chain nc (bb_bit_key b) (bb_view b) (bb_top b) (concat G)"
    and "\<forall>h \<in> set G. length h = DEFAULT_BIT_DEGREE" and "length G = DEFAULT_BIT_DEGREE"
    and "bb_top b = base + BIT_FILE_SIZE"
  using assms unfolding builder_closed_def by blast+

lemma builder_inv_length:
  assumes "builder_inv nc f0 base b xs" and "length xs < DEFAULT_LSM_FILE_CAPACITY"
  obtains C0 C1 g G where "builder_open nc base b C0 C1 g G"
    and "group_entries (concat G @ g) @ bb_cur_leaf b = xs"
proof -
  have "length xs = DEFAULT_LSM_FILE_CAPACITY" if "builder_closed nc base b G" "group_entries (concat G) = xs" for G
  proof -
    have "leaf_places base (bb_top b) (concat G @ [])" "\<forall>h \<in> set G. length h = DEFAULT_BIT_DEGREE"
      and l: "length G = DEFAULT_BIT_DEGREE"
      using builder_closedD(4,6,7) [OF that(1)] unfolding append_Nil2 by blast+
    from groups_length [OF this(1,2)] show ?thesis using that(2) l by (simp add: layout_consts)
  qed
  with assms that show thesis unfolding builder_inv_def by fastforce
qed

lemma add_entry_inv:
  assumes "builder_inv nc f0 base b xs" and "length xs < DEFAULT_LSM_FILE_CAPACITY" and "node_cipher_ok nc"
  shows "\<exists>b'. bit_builder_add_entry nc b e = Some b' \<and> builder_inv nc f0 base b' (xs @ [e])"
proof -
  obtain C0 C1 g G where op: "builder_open nc base b C0 C1 g G"
    and xs: "group_entries (concat G @ g) @ bb_cur_leaf b = xs"
    using builder_inv_length [OF assms(1,2)] by blast
  have o: "outside_kept f0 base b" "builder_fields b xs" using assms(1) by (simp_all add: builder_inv_def)
  show ?thesis
  proof (cases "Suc (length (bb_cur_leaf b)) < BIT_LEAF_LEN")
    case True
    from add_entry_small [OF op True o xs] show ?thesis .
  next
    case False
    then have "Suc (length (bb_cur_leaf b)) = BIT_LEAF_LEN" using builder_openD(8) [OF op] by simp
    from add_entry_big [OF op assms(3) this o xs] show ?thesis .
  qed
qed

text \<open>A run of \<^verbatim>\<open>add_entry\<close> calls.\<close>

fun bit_build :: "'c node_cipher \<Rightarrow> 'c bit_builder \<Rightarrow> (nat \<times> blk_record) list \<Rightarrow> 'c bit_builder option" where
  "bit_build nc b [] = Some b"
| "bit_build nc b (e # es) =
     (case bit_builder_add_entry nc b e of None \<Rightarrow> None | Some b' \<Rightarrow> bit_build nc b' es)"

lemma bit_build_inv:
  assumes "node_cipher_ok nc"
  shows "builder_inv nc f0 base b xs \<Longrightarrow> length (xs @ ys) \<le> DEFAULT_LSM_FILE_CAPACITY \<Longrightarrow>
    \<exists>b'. bit_build nc b ys = Some b' \<and> builder_inv nc f0 base b' (xs @ ys)"
proof (induction ys arbitrary: b xs)
  case Nil
  then show ?case by simp
next
  case (Cons y ys)
  then obtain b' where b': "bit_builder_add_entry nc b y = Some b'" "builder_inv nc f0 base b' (xs @ [y])"
    using add_entry_inv [OF Cons.prems(1) _ assms, of y] by auto
  with Cons.IH [OF b'(2)] Cons.prems(2) show ?case by simp
qed

section \<open>Completion\<close>

lemma kernel_write_view: "kernel_write (bb_file b) (bb_buffer b) (bb_cur b) (bb_begin b) = bb_view b"
  by (simp add: kernel_write_def bb_view_def)

text \<open>A finished tree is what the file's caches are built from.\<close>

lemma root_in_cached:
  assumes "root_in base nc key v t p G"
  shows "\<exists>cs nodes. bit_file_build_cached_root nc v key p = Some (cs, nodes) \<and> root_rel cs G \<and>
    list_all2 kids_rel nodes G"
proof -
  from assms obtain cs where cs: "inner_in nc key v p cs" "root_rel cs G"
    "list_all2 (\<lambda>c g. base \<le> ch_pos c \<and> ch_pos c < t \<and> (\<exists>cs'. inner_in nc key v (ch_pos c) cs' \<and> kids_rel cs' g)) cs G"
    unfolding root_in_def by blast
  let ?nodes = "map (\<lambda>c. read_inner nc v key (ch_pos c)) cs"
  have r: "read_inner nc v key q = Some cs'" if "inner_in nc key v q cs'" for q cs'
    using that by (simp add: inner_in_def read_inner_def)
  have "list_all2 (\<lambda>c g. \<exists>cs'. read_inner nc v key (ch_pos c) = Some cs' \<and> kids_rel cs' g) cs G"
    using cs(3) by (rule list_all2_mono) (use r in blast)
  then have "None \<notin> set ?nodes \<and> list_all2 kids_rel (map the ?nodes) G"
    by (induction rule: list_all2_induct) auto
  then have n: "None \<notin> set ?nodes" "list_all2 kids_rel (map the ?nodes) G" by blast+
  then show ?thesis using r [OF cs(1)] cs(2) unfolding bit_file_build_cached_root_def Let_def by simp
qed

lemma fresh_cache_coherent: "leaf_cache.coherent source (lru_cache_create MAX_LEAF_NODE_CACHED)"
  by (simp add: leaf_cache.coherent_def lru_inv_create MAX_LEAF_NODE_CACHED_def)
    (simp add: lru_cache_create_def)

text \<open>
  A file that depends only on its slot: its leaves lie there, and reading its inner nodes again gives
  what it has cached, whatever else happens to the region.
\<close>

definition leaves_in :: "nat \<Rightarrow> bit_file \<Rightarrow> bool" where
  "leaves_in base bf \<longleftrightarrow>
     (\<forall>cs nodes. bf_cached_root bf = Some (cs, nodes) \<longrightarrow>
        (\<forall>n \<in> set nodes. \<forall>c \<in> set n. base \<le> ch_pos c \<and> ch_pos c < base + BIT_FILE_SIZE))"

definition file_in :: "'c node_cipher \<Rightarrow> (nat \<Rightarrow> 'c) \<Rightarrow> nat \<Rightarrow> bit_file \<Rightarrow> (nat \<times> blk_record) list \<Rightarrow> bool" where
  "file_in nc f base bf xs \<longleftrightarrow> file_ok nc f bf xs \<and> leaves_in base bf \<and>
     (\<forall>f'. (\<forall>p. base \<le> p \<and> p < base + BIT_FILE_SIZE \<longrightarrow> f' p = f p) \<longrightarrow>
        bit_file_build_cached_root nc f' (bf_root_key bf) (bf_root bf) = bf_cached_root bf)"

lemma file_in_ok: "file_in nc f base bf xs \<Longrightarrow> file_ok nc f bf xs"
  by (simp add: file_in_def)

lemma file_in_cache:
  "file_in nc f base bf xs \<Longrightarrow> file_ok nc f (bf\<lparr>bf_cached_leaf := c\<rparr>) xs \<Longrightarrow>
   file_in nc f base (bf\<lparr>bf_cached_leaf := c\<rparr>) xs"
  by (simp add: file_in_def leaves_in_def)

lemma chain_local:
  "chain nc key v e Ls \<Longrightarrow> (\<forall>l \<in> set Ls. v' (fst l) = v (fst l)) \<Longrightarrow> chain nc key v' e Ls"
  by (induction nc key v e Ls rule: chain.induct) auto

lemma kids_positions:
  assumes "list_all2 kids_rel nodes G" and "l \<in> set (concat G)"
  shows "\<exists>n \<in> set nodes. \<exists>c \<in> set n. ch_pos c = fst l"
proof -
  from assms(2) obtain i j where ij: "i < length G" "j < length (G ! i)" "l = G ! i ! j"
    by (auto simp: in_set_conv_nth)
  have "i < length nodes" "kids_rel (nodes ! i) (G ! i)" using assms(1) ij(1) by (auto simp: list_all2_conv_all_nth)
  then have "j < length (nodes ! i)" "ch_pos (nodes ! i ! j) = fst l"
    using ij by (auto simp: kids_rel_def list_all2_conv_all_nth split_beta)
  then show ?thesis using \<open>i < length nodes\<close> by (meson nth_mem)
qed

lemma leaves_in_tree:
  assumes "leaves_in base bf" and "file_tree nc f bf G e" and "l \<in> set (concat G)"
  shows "base \<le> fst l" and "fst l < base + BIT_FILE_SIZE"
proof -
  from assms(2) obtain cs nodes where "bf_cached_root bf = Some (cs, nodes)" "list_all2 kids_rel nodes G"
    unfolding file_tree_def by blast
  with kids_positions [OF _ assms(3)] assms(1) show "base \<le> fst l" "fst l < base + BIT_FILE_SIZE"
    unfolding leaves_in_def by metis+
qed

lemma file_tree_local:
  assumes "file_tree nc f bf G e" and "\<forall>l \<in> set (concat G). f' (fst l) = f (fst l)"
  shows "file_tree nc f' bf G e"
proof -
  have "leaf_source nc (bf_root_key bf) f' (concat G) = leaf_source nc (bf_root_key bf) f (concat G)"
    unfolding leaf_source_def by (intro arg_cong [of _ _ map_of] map_cong refl) (use assms(2) in force)
  then show ?thesis using assms(1) chain_local [OF _ assms(2), of nc "bf_root_key bf" e]
    unfolding file_tree_def by simp
qed

lemma file_in_cong:
  assumes "file_in nc f base bf xs" and eq: "\<And>p. base \<le> p \<Longrightarrow> p < base + BIT_FILE_SIZE \<Longrightarrow> f' p = f p"
  shows "file_in nc f' base bf xs"
proof -
  have "file_ok nc f bf xs" "leaves_in base bf" using assms(1) by (simp_all add: file_in_def)
  then obtain G e where "file_tree nc f bf G e" "xs = group_entries (concat G)" unfolding file_ok_def by blast
  moreover from this(1) have "file_tree nc f' bf G e"
    by (rule file_tree_local) (use leaves_in_tree [OF \<open>leaves_in base bf\<close> \<open>file_tree nc f bf G e\<close>] eq in blast)
  ultimately have "file_ok nc f' bf xs" using \<open>file_ok nc f bf xs\<close> unfolding file_ok_def by blast
  then show ?thesis using assms unfolding file_in_def by simp
qed

lemma cached_root_local:
  assumes "root_in base nc key v t p G" and "\<And>q. base \<le> q \<Longrightarrow> q < t \<Longrightarrow> v' q = v q"
  shows "bit_file_build_cached_root nc v' key p = bit_file_build_cached_root nc v key p"
proof -
  from assms(1) obtain cs where cs: "inner_in nc key v p cs" "base \<le> p" "p < t"
    "list_all2 (\<lambda>c g. base \<le> ch_pos c \<and> ch_pos c < t \<and> (\<exists>cs'. inner_in nc key v (ch_pos c) cs' \<and> kids_rel cs' g)) cs G"
    unfolding root_in_def by blast
  have eq: "read_inner nc v' key q = read_inner nc v key q" if "base \<le> q" "q < t" for q
    using assms(2) [OF that] by (simp add: read_inner_def)
  have "read_inner nc v key p = Some cs" using cs(1) by (simp add: inner_in_def read_inner_def)
  moreover have "map (\<lambda>c. read_inner nc v' key (ch_pos c)) cs = map (\<lambda>c. read_inner nc v key (ch_pos c)) cs"
  proof (rule map_cong [OF refl])
    fix c
    assume "c \<in> set cs"
    then have "base \<le> ch_pos c" "ch_pos c < t" using cs(4) by (auto simp: list_all2_conv_all_nth in_set_conv_nth)
    then show "read_inner nc v' key (ch_pos c) = read_inner nc v key (ch_pos c)" by (rule eq)
  qed
  ultimately show ?thesis using eq [OF cs(2,3)] by (simp add: bit_file_build_cached_root_def)
qed

lemma created_file_in:
  assumes "root_in base nc key v t p G" and "chain nc key v e (concat G)"
    and "\<forall>l \<in> set (butlast (concat G)). length (snd l) = BIT_LEAF_LEN"
    and "\<forall>l \<in> set (concat G). length (snd l) \<le> BIT_LEAF_LEN"
    and "xs = group_entries (concat G)" and "sorted_wrt (\<le>) (map fst xs)" and "xs \<noteq> []"
    and "\<forall>l \<in> set (concat G). base \<le> fst l \<and> fst l < t" and "t \<le> base + BIT_FILE_SIZE"
  shows "file_in nc v base (bit_file_create nc v p fid level ver (fst (hd xs)) (fst (last xs)) (length xs) key) xs"
proof -
  let ?bf = "bit_file_create nc v p fid level ver (fst (hd xs)) (fst (last xs)) (length xs) key"
  obtain cs nodes where cr: "bit_file_build_cached_root nc v key p = Some (cs, nodes)" "root_rel cs G"
    "list_all2 kids_rel nodes G" using root_in_cached [OF assms(1)] by blast
  have bf: "bf_cached_root ?bf = Some (cs, nodes)" "bf_root_key ?bf = key" "bf_root ?bf = p"
    using cr(1) by (simp_all add: bit_file_create_def)
  have "file_tree nc v ?bf G e"
    using assms(2-4) cr(2,3) fresh_cache_coherent bf by (simp add: file_tree_def bit_file_create_def)
  then have "file_ok nc v ?bf xs" using assms(5-7) unfolding file_ok_def by (auto simp: bit_file_create_def)
  moreover have "leaves_in base ?bf"
    unfolding leaves_in_def bf(1)
  proof (intro allI impI ballI)
    fix cs' nodes' n c
    assume *: "Some (cs, nodes) = Some (cs', nodes')" "n \<in> set nodes'" "c \<in> set n"
    then obtain i where i: "i < length nodes" "n = nodes ! i" by (metis Pair_inject in_set_conv_nth option.inject)
    then have g: "kids_rel n (G ! i)" "G ! i \<in> set G" using cr(3) by (simp_all add: list_all2_conv_all_nth)
    obtain j where "j < length n" "c = n ! j" using *(3) by (metis in_set_conv_nth)
    then obtain l where "l \<in> set (G ! i)" "ch_pos c = fst l"
      using g(1) that [of "G ! i ! j"] by (auto simp: kids_rel_def list_all2_conv_all_nth split_beta)
    then show "base \<le> ch_pos c \<and> ch_pos c < base + BIT_FILE_SIZE"
      using assms(8,9) g(2) by fastforce
  qed
  moreover have "bit_file_build_cached_root nc v' key p = bit_file_build_cached_root nc v key p"
    if "\<forall>q. base \<le> q \<and> q < base + BIT_FILE_SIZE \<longrightarrow> v' q = v q" for v'
    by (rule cached_root_local [OF assms(1)]) (use that assms(9) in simp)
  ultimately show ?thesis unfolding file_in_def bf using cr(1) by simp
qed

definition put_node :: "nat \<Rightarrow> 'c \<Rightarrow> 'c bit_builder \<Rightarrow> 'c bit_builder" where
  "put_node off x b = b\<lparr>bb_buffer := (bb_buffer b)(off := x)\<rparr>"

lemma push_put_node:
  "off < bb_cur b \<Longrightarrow> bit_builder_push_inner nc (put_node off x b) h = put_node off x (bit_builder_push_inner nc b h)"
  by (simp add: bit_builder_push_inner_def put_node_def Let_def fun_upd_twist)

lemma complete_loop_eq:
  assumes "bb_height b = 3" and "bb_ctx b = [C0, C1, []]" and "C0 \<noteq> [] \<or> C1 \<noteq> []"
  shows "bit_builder_complete_loop nc b =
    bit_builder_push_inner nc (if C0 = [] then b else bit_builder_push_inner nc b 0) (Suc 0)"
proof -
  have c: "bb_ctx (bit_builder_push_inner nc b 0) = [[], C1 @ [(bit_inner C0, bb_top b)], []]"
    using push_view(4) [of 0 b nc] assms(2) by simp
  have "[0..<bb_height b - 1] = [0, Suc 0]" using assms(1) by (simp add: upt_rec)
  then show ?thesis using assms(2,3) c by (auto simp: bit_builder_complete_loop_def)
qed

lemma complete_loop_put_node:
  assumes "bb_height b = 3" and "bb_ctx b = [C0, C1, []]" and "C0 \<noteq> [] \<or> C1 \<noteq> []" and "off < bb_cur b"
  shows "bit_builder_complete_loop nc (put_node off x b) = put_node off x (bit_builder_complete_loop nc b)"
proof -
  have p: "bb_height (put_node off x b) = 3" "bb_ctx (put_node off x b) = [C0, C1, []]"
    using assms(1,2) by (simp_all add: put_node_def)
  have "off < bb_cur (bit_builder_push_inner nc b 0)"
    using assms(4) by (simp add: bit_builder_push_inner_def Let_def)
  then show ?thesis
    unfolding complete_loop_eq [OF p assms(3)] complete_loop_eq [OF assms(1-3)]
    using assms(4) by (cases "C0 = []") (simp_all add: push_put_node)
qed

text \<open>What the closing loop makes of a builder with something in its contexts.\<close>

lemma complete_loop_root:
  assumes ctx: "bb_height b = 3" "bb_ctx b = [C0, C1, []]" and rel: "ctx0_rel C0 g"
      "ctx1_rel base nc (bb_bit_key b) (bb_view b) (bb_top b) C1 G"
    and ne: "C0 \<noteq> [] \<or> C1 \<noteq> []" and nc: "node_cipher_ok nc" and lb: "base \<le> bb_top b"
  defines "b' \<equiv> bit_builder_complete_loop nc b"
    and "G' \<equiv> (if g = [] then G else G @ [g])"
  shows "root_in base nc (bb_bit_key b) (bb_view b') (bb_top b') (bb_top b' - BIT_INNER_NODE_SIZE) G'"
    and "extends (bb_view b) (bb_top b) (bb_view b') (bb_top b')"
    and "bb_top b' \<le> bb_top b + 2 * BIT_INNER_NODE_SIZE"
    and "bb_bit_key b' = bb_bit_key b"
    and "outside_kept f0 base b \<Longrightarrow> outside_kept f0 base b'"
    and "builder_fields b xs \<Longrightarrow> builder_fields b' xs"
proof -
  let ?b1 = "if C0 = [] then b else bit_builder_push_inner nc b 0"
  let ?C1 = "if C0 = [] then C1 else C1 @ [(bit_inner C0, bb_top b)]"
  have b': "b' = bit_builder_push_inner nc ?b1 (Suc 0)"
    unfolding b'_def by (rule complete_loop_eq [OF ctx ne])
  have l: "Suc 0 < length (bb_ctx b)" using ctx(2) by simp
  note V = push_view [OF l, where nc = nc]
  have gc: "g = [] \<longleftrightarrow> C0 = []" using ctx_lengths(1) [OF rel(1)] by auto
  have c1: "bb_ctx ?b1 = [[], ?C1, []]" using ctx(2) V(4) by simp
  have r1: "ctx1_rel base nc (bb_bit_key b) (bb_view ?b1) (bb_top ?b1) ?C1 G'"
  proof (cases "C0 = []")
    case True
    then show ?thesis using rel(2) gc by (simp add: G'_def)
  next
    case False
    then show ?thesis using push0_ctx1(1) [OF ctx(2) rel(1) _ nc rel(2) lb] gc by (simp add: G'_def)
  qed
  have e1: "extends (bb_view b) (bb_top b) (bb_view ?b1) (bb_top ?b1)" using V(2) by simp
  have l1: "Suc (Suc 0) < length (bb_ctx ?b1)" using c1 by simp
  note V' = push_view [OF l1, where nc = nc, folded b']
  have ne': "G' \<noteq> []" using ne gc ctx_lengths(2) [OF rel(2)] by (auto simp: G'_def)
  have k1: "bb_bit_key ?b1 = bb_bit_key b" by simp
  have lb1: "base \<le> bb_top ?b1" using lb e1 by (simp add: extends_def)
  show "bb_bit_key b' = bb_bit_key b" using b' k1 by simp
  show "extends (bb_view b) (bb_top b) (bb_view b') (bb_top b')" using extends_trans [OF e1 V'(2)] .
  show "bb_top b' \<le> bb_top b + 2 * BIT_INNER_NODE_SIZE" using V'(3) V(3) by simp
  have "bb_view b' (bb_top ?b1) = bit_node_encode nc (bit_inner ?C1) (bb_bit_key b)"
    using V'(1) c1 k1 by simp
  moreover have "bb_top ?b1 < bb_top b'" "bb_top b' - BIT_INNER_NODE_SIZE = bb_top ?b1"
    using V'(3) by (simp_all add: node_sizes)
  ultimately show "root_in base nc (bb_bit_key b) (bb_view b') (bb_top b') (bb_top b' - BIT_INNER_NODE_SIZE) G'"
    using root_from_ctx1 [OF ctx1_rel_extends [OF r1 V'(2)] _ _ _ ne' nc] lb1 by simp
  show "outside_kept f0 base b \<Longrightarrow> outside_kept f0 base b'"
    using V(5) V'(5) by simp
  show "builder_fields b xs \<Longrightarrow> builder_fields b' xs"
    using push_fields [of b xs nc 0] push_fields [of ?b1 xs nc "Suc 0"] b' by auto
qed

text \<open>What \<^verbatim>\<open>complete\<close> does with a builder that is ready: nothing is left but the last write.\<close>

definition bit_builder_finish :: "'c node_cipher \<Rightarrow> 'c bit_builder \<Rightarrow> bit_file \<times> (nat \<Rightarrow> 'c)" where
  "bit_builder_finish nc b =
     (bit_file_create nc (bb_view b) (bb_top b - BIT_INNER_NODE_SIZE) (bb_id b) (bb_level b) (bb_version b)
        (bb_first_key b) (bb_last_key b) (bb_size b) (bb_bit_key b), bb_view b)"

definition place_last_leaf :: "'c node_cipher \<Rightarrow> 'c bit_builder \<Rightarrow> 'c bit_builder" where
  "place_last_leaf nc b =
     (let b1 = bit_builder_buffer_flush_if_full b;
          leaf = Leaf_Node \<lparr>lf_entries = bb_cur_leaf b, lf_next_pos = 0\<rparr>
      in put_node (bb_cur b1) (bit_node_encode nc leaf (bb_bit_key b))
           (b1\<lparr>bb_ctx := (bb_ctx b)[0 := bb_ctx b ! 0 @ [(leaf, bb_top b)]],
               bb_cur := bb_cur b1 + BIT_LEAF_NODE_SIZE\<rparr>))"

lemma complete_closed:
  assumes "bb_height b = 3" and "bb_ctx b = [[], [], [N]]"
  shows "bit_builder_complete nc b = bit_builder_finish nc b"
proof -
  have "bb_ctx b ! (bb_height b - 1) \<noteq> []" using assms by simp
  then show ?thesis
    by (simp add: bit_builder_complete_def bit_builder_finish_def Let_def kernel_write_view bb_top_def)
qed

lemma complete_open:
  assumes "bb_height b = 3" and "bb_ctx b = [C0, C1, []]"
  shows "bit_builder_complete nc b = bit_builder_finish nc (bit_builder_complete_loop nc
    (if bb_cur_leaf b = [] then bit_builder_buffer_flush_if_full b else place_last_leaf nc b))"
proof (cases "bb_cur_leaf b = []")
  case True
  then show ?thesis using assms
    by (simp add: bit_builder_complete_def bit_builder_finish_def Let_def kernel_write_view bb_top_def)
next
  case False
  let ?b1 = "bit_builder_buffer_flush_if_full b"
  let ?leaf = "Leaf_Node \<lparr>lf_entries = bb_cur_leaf b, lf_next_pos = 0\<rparr>"
  let ?b2 = "?b1\<lparr>bb_ctx := (bb_ctx b)[0 := bb_ctx b ! 0 @ [(?leaf, bb_top b)]],
               bb_cur := bb_cur ?b1 + BIT_LEAF_NODE_SIZE\<rparr>"
  have c: "bb_height ?b2 = 3" "bb_ctx ?b2 = [C0 @ [(?leaf, bb_top b)], C1, []]"
    "C0 @ [(?leaf, bb_top b)] \<noteq> [] \<or> C1 \<noteq> []" "bb_cur ?b1 < bb_cur ?b2"
    using assms by (simp_all add: node_sizes)
  have k: "bb_bit_key (bit_builder_complete_loop nc ?b2) = bb_bit_key b"
    unfolding complete_loop_eq [OF c(1-3)] by simp
  have "bit_builder_complete_loop nc (place_last_leaf nc b) =
      put_node (bb_cur ?b1) (bit_node_encode nc ?leaf (bb_bit_key b)) (bit_builder_complete_loop nc ?b2)"
    unfolding place_last_leaf_def Let_def by (rule complete_loop_put_node [OF c])
  then show ?thesis using False assms k
    by (simp add: bit_builder_complete_def bit_builder_finish_def Let_def kernel_write_view [symmetric]
        bb_top_def put_node_def)
qed

lemma finish_ok:
  assumes "root_in base nc (bb_bit_key b) (bb_view b) (bb_top b) (bb_top b - BIT_INNER_NODE_SIZE) G"
    and "chain nc (bb_bit_key b) (bb_view b) e (concat G)"
    and "\<forall>l \<in> set (butlast (concat G)). length (snd l) = BIT_LEAF_LEN"
    and "\<forall>l \<in> set (concat G). length (snd l) \<le> BIT_LEAF_LEN"
    and "group_entries (concat G) = xs" and "sorted_wrt (\<le>) (map fst xs)" and "xs \<noteq> []"
    and "builder_fields b xs" and "outside_kept f0 base b" and "bb_top b \<le> base + BIT_FILE_SIZE"
    and "\<forall>l \<in> set (concat G). base \<le> fst l \<and> fst l < bb_top b"
  shows "\<exists>bf f'. bit_builder_finish nc b = (bf, f') \<and> file_in nc f' base bf xs \<and>
    (\<forall>p. p < base \<or> base + BIT_FILE_SIZE \<le> p \<longrightarrow> f' p = f0 p)"
proof -
  have "bb_view b p = f0 p" if "p < base \<or> base + BIT_FILE_SIZE \<le> p" for p
    using assms(9,10) that by (auto simp: bb_view_def bb_top_def outside_kept_def)
  then show ?thesis
    using created_file_in [OF assms(1-4) assms(5) [symmetric] assms(6,7,11,10)] assms(7,8)
    by (simp add: bit_builder_finish_def builder_fields_def)
qed

lemma place_last_leaf_facts:
  assumes "bb_ctx b = [C0, C1, C2]" and "node_cipher_ok nc"
  defines "b2 \<equiv> place_last_leaf nc b"
  shows "bb_top b2 = bb_top b + BIT_LEAF_NODE_SIZE"
    and "extends (bb_view b) (bb_top b) (bb_view b2) (bb_top b2)"
    and "bb_ctx b2 = [C0 @ [(Leaf_Node \<lparr>lf_entries = bb_cur_leaf b, lf_next_pos = 0\<rparr>, bb_top b)], C1, C2]"
    and "bb_bit_key b2 = bb_bit_key b" and "bb_height b2 = bb_height b"
    and "outside_kept f0 base b \<Longrightarrow> outside_kept f0 base b2"
    and "builder_fields b xs \<Longrightarrow> builder_fields b2 xs"
    and "bit_node_decode nc (bb_view b2 (bb_top b)) True (bb_bit_key b) =
      Inr (Leaf_Node \<lparr>lf_entries = bb_cur_leaf b, lf_next_pos = 0\<rparr>)"
proof -
  let ?leaf = "Leaf_Node \<lparr>lf_entries = bb_cur_leaf b, lf_next_pos = 0\<rparr>"
  have "bb_view b2 (bb_top b) = bit_node_encode nc ?leaf (bb_bit_key b)"
    unfolding b2_def place_last_leaf_def Let_def put_node_def bit_builder_buffer_flush_if_full_def
    by (simp add: bb_view_def bb_top_def node_sizes)
  then show "bit_node_decode nc (bb_view b2 (bb_top b)) True (bb_bit_key b) = Inr ?leaf"
    using decode_encode [OF assms(2), of ?leaf] by simp
qed (use assms(1) in \<open>auto simp: b2_def place_last_leaf_def put_node_def Let_def
    bit_builder_buffer_flush_if_full_def bb_top_def extends_def bb_view_def kernel_write_def
    outside_kept_def builder_fields_def\<close>)

lemma butlast_in_places: "leaf_places base t Ls \<Longrightarrow> l \<in> set (butlast Ls) \<Longrightarrow> length (snd l) = BIT_LEAF_LEN"
  by (auto simp: leaf_places_def dest: in_set_butlastD)

lemma complete_closed_ok:
  assumes "builder_closed nc base b G" and "group_entries (concat G) = xs" and "outside_kept f0 base b"
    and "builder_fields b xs" and "sorted_wrt (\<le>) (map fst xs)" and "xs \<noteq> []"
  shows "\<exists>bf f'. bit_builder_complete nc b = (bf, f') \<and> file_in nc f' base bf xs \<and>
    (\<forall>p. p < base \<or> base + BIT_FILE_SIZE \<le> p \<longrightarrow> f' p = f0 p)"
proof -
  note D = builder_closedD [OF assms(1)]
  obtain N where "bb_ctx b = [[], [], [N]]" using D(1) by blast
  with assms(4) have fin: "bit_builder_complete nc b = bit_builder_finish nc b"
    by (auto simp: builder_fields_def intro: complete_closed)
  have "\<forall>l \<in> set (butlast (concat G)). length (snd l) = BIT_LEAF_LEN"
    "\<forall>l \<in> set (concat G). length (snd l) \<le> BIT_LEAF_LEN"
    using butlast_in_places [OF D(4)] D(4) unfolding leaf_places_def by fastforce+
  moreover have "\<forall>l \<in> set (concat G). base \<le> fst l \<and> fst l < bb_top b" using D(4) unfolding leaf_places_def by blast
  ultimately show ?thesis unfolding fin using finish_ok [OF D(3,5) _ _ assms(2,5,6,4,3)] D(8) by simp
qed

lemma complete_leaves_ok:
  assumes b: "bb_height b = 3" "bb_ctx b = [C0, C1, []]" "ctx0_rel C0 g"
      "ctx1_rel base nc (bb_bit_key b) (bb_view b) (bb_top b) C1 G" and ne: "C0 \<noteq> [] \<or> C1 \<noteq> []"
    and nc: "node_cipher_ok nc"
    and ch: "chain nc (bb_bit_key b) (bb_view b) e (concat G @ g)" "\<forall>l \<in> set (concat G @ g). base \<le> fst l \<and> fst l < bb_top b"
    and len: "\<forall>l \<in> set (butlast (concat G @ g)). length (snd l) = BIT_LEAF_LEN"
      "\<forall>l \<in> set (concat G @ g). length (snd l) \<le> BIT_LEAF_LEN"
    and xs: "group_entries (concat G @ g) = xs" "sorted_wrt (\<le>) (map fst xs)" "xs \<noteq> []"
    and keep: "outside_kept f0 base b" "builder_fields b xs"
    and top: "bb_top b + 2 * BIT_INNER_NODE_SIZE \<le> base + BIT_FILE_SIZE"
  shows "\<exists>bf f'. bit_builder_finish nc (bit_builder_complete_loop nc b) = (bf, f') \<and> file_in nc f' base bf xs \<and>
    (\<forall>p. p < base \<or> base + BIT_FILE_SIZE \<le> p \<longrightarrow> f' p = f0 p)"
proof -
  let ?b' = "bit_builder_complete_loop nc b"
  let ?G = "if g = [] then G else G @ [g]"
  have cG: "concat ?G = concat G @ g" by simp
  have lb: "base \<le> bb_top b" using keep(1) by (simp add: outside_kept_def bb_top_def)
  note R = complete_loop_root [OF b ne nc lb]
  have lt: "\<forall>l \<in> set (concat G @ g). fst l < bb_top b" using ch(2) by blast
  have pl: "\<forall>l \<in> set (concat ?G). base \<le> fst l \<and> fst l < bb_top ?b'"
    using ch(2) R(2) unfolding cG extends_def by (meson less_le_trans)
  have "chain nc (bb_bit_key ?b') (bb_view ?b') e (concat ?G)"
    unfolding R(4) cG by (rule chain_extends [OF ch(1) lt R(2)])
  moreover have "bb_top ?b' \<le> base + BIT_FILE_SIZE" using R(3) top by simp
  moreover have "root_in base nc (bb_bit_key ?b') (bb_view ?b') (bb_top ?b') (bb_top ?b' - BIT_INNER_NODE_SIZE) ?G"
    using R(1) R(4) by simp
  ultimately show ?thesis
    using finish_ok [of base nc ?b' ?G e xs f0] len xs R(5) [OF keep(1)] R(6) [OF keep(2)] pl
    unfolding cG by simp
qed

lemma complete_open_ok:
  assumes op: "builder_open nc base b C0 C1 g G" and nc: "node_cipher_ok nc"
    and xs: "group_entries (concat G @ g) @ bb_cur_leaf b = xs" "sorted_wrt (\<le>) (map fst xs)" "xs \<noteq> []"
    and keep: "outside_kept f0 base b" "builder_fields b xs"
  shows "\<exists>bf f'. bit_builder_complete nc b = (bf, f') \<and> file_in nc f' base bf xs \<and>
    (\<forall>p. p < base \<or> base + BIT_FILE_SIZE \<le> p \<longrightarrow> f' p = f0 p)"
proof -
  note D = builder_openD [OF op]
  have h: "bb_height b = 3" using keep(2) by (simp add: builder_fields_def)
  have lt: "\<forall>l \<in> set (concat G @ g). fst l < bb_top b" "\<forall>l \<in> set (concat G @ g). length (snd l) = BIT_LEAF_LEN"
    "\<forall>l \<in> set (concat G @ g). base \<le> fst l \<and> fst l < bb_top b"
    using D(4) unfolding leaf_places_def by blast+
  have sz: "bb_top b + BIT_LEAF_NODE_SIZE + 2 * BIT_INNER_NODE_SIZE \<le> base + BIT_FILE_SIZE"
    using D(6,7,10) by (simp add: BIT_FILE_SIZE_eq layout_consts)
  show ?thesis
  proof (cases "bb_cur_leaf b = []")
    case True
    let ?b1 = "bit_builder_buffer_flush_if_full b"
    have ne: "C0 \<noteq> [] \<or> C1 \<noteq> []"
      using True xs(1,3) D(11,12) by auto
    have "builder_fields ?b1 xs" using keep(2) by (simp add: builder_fields_def)
    moreover have "\<forall>l \<in> set (butlast (concat G @ g)). length (snd l) = BIT_LEAF_LEN"
      using butlast_in_places [OF D(4)] by blast
    ultimately show ?thesis
      using complete_leaves_ok [of ?b1 C0 C1 g base nc G "bb_top b" xs f0] h D(1,2,3,5) ne nc lt xs(2,3)
        xs(1) True flush_outside [OF keep(1)] sz
      by (simp add: complete_open [OF h D(1)])
  next
    case False
    let ?b2 = "place_last_leaf nc b"
    let ?g = "g @ [(bb_top b, bb_cur_leaf b)]"
    note P = place_last_leaf_facts [OF D(1) nc]
    have c1: "ctx1_rel base nc (bb_bit_key ?b2) (bb_view ?b2) (bb_top ?b2) C1 G"
      unfolding P(4) by (rule ctx1_rel_extends [OF D(3) P(2)])
    have ch: "chain nc (bb_bit_key ?b2) (bb_view ?b2) 0 (concat G @ ?g)"
      using chain_extends [OF D(5) lt(1) P(2)] P(8)
      by (simp add: P(4) chain_append [of nc _ _ _ "concat G @ g", simplified])
    have lt2: "\<forall>l \<in> set (concat G @ ?g). base \<le> fst l \<and> fst l < bb_top ?b2"
    proof -
      have "\<forall>l \<in> set (concat G @ g). base \<le> fst l \<and> fst l < bb_top ?b2"
        using lt(3) unfolding P(1) by (blast intro: trans_less_add1)
      then show ?thesis using P(1) D(10) by (simp add: node_sizes)
    qed
    have le: "\<forall>l \<in> set (concat G @ ?g). length (snd l) \<le> BIT_LEAF_LEN"
      using lt(2) D(8) by auto
    have bl: "\<forall>l \<in> set (butlast (concat G @ ?g)). length (snd l) = BIT_LEAF_LEN"
      using lt(2) by (simp add: butlast_append)
    have ent: "group_entries (concat G @ ?g) = xs" using xs(1) by simp
    have top: "bb_top ?b2 + 2 * BIT_INNER_NODE_SIZE \<le> base + BIT_FILE_SIZE" using sz P(1) by simp
    show ?thesis
      using complete_leaves_ok [OF _ P(3) ctx0_rel_snoc [OF D(2) False] c1 _ nc ch lt2 bl le ent xs(2,3)
          P(6) [OF keep(1)] P(7) [OF keep(2)] top] h P(5) False
      by (simp add: complete_open [OF h D(1)])
  qed
qed

lemma complete_ok:
  assumes "builder_inv nc f0 base b xs" and "node_cipher_ok nc" and "sorted_wrt (\<le>) (map fst xs)" and "xs \<noteq> []"
  shows "\<exists>bf f'. bit_builder_complete nc b = (bf, f') \<and> file_in nc f' base bf xs \<and>
    (\<forall>p. p < base \<or> base + BIT_FILE_SIZE \<le> p \<longrightarrow> f' p = f0 p)"
proof -
  have o: "outside_kept f0 base b" "builder_fields b xs" using assms(1) by (simp_all add: builder_inv_def)
  from assms(1) consider C0 C1 g G where "builder_open nc base b C0 C1 g G"
      "group_entries (concat G @ g) @ bb_cur_leaf b = xs"
    | G where "builder_closed nc base b G" "group_entries (concat G) = xs"
    unfolding builder_inv_def by blast
  then show ?thesis
  proof cases
    case 1
    from complete_open_ok [OF 1(1) assms(2) 1(2) assms(3,4) o] show ?thesis .
  next
    case 2
    from complete_closed_ok [OF 2 o assms(3,4)] show ?thesis .
  qed
qed

text \<open>From an empty builder to a finished file.\<close>

lemma build_complete:
  assumes "node_cipher_ok nc" and "xs \<noteq> []" and "sorted_wrt (\<le>) (map fst xs)"
    and "length xs \<le> DEFAULT_LSM_FILE_CAPACITY"
  obtains b bf f' where "bit_build nc (bit_builder_init vmem rnd f0 base fid level ver) xs = Some b"
    and "bit_builder_complete nc b = (bf, f')" and "file_ok nc f' bf xs" and "file_in nc f' base bf xs"
    and "\<forall>p. p < base \<or> base + BIT_FILE_SIZE \<le> p \<longrightarrow> f' p = f0 p"
proof -
  obtain b where b: "bit_build nc (bit_builder_init vmem rnd f0 base fid level ver) xs = Some b"
    "builder_inv nc f0 base b xs"
    using bit_build_inv [OF assms(1) builder_inv_init, where ys = xs] assms(4) by fastforce
  from complete_ok [OF b(2) assms(1,3,2)] that b(1) file_in_ok show thesis by blast
qed

text \<open>The number, level and version given to a builder are those of its file.\<close>

lemma inner_loop_ids:
  "bit_builder_inner_loop nc b h = Some b' \<Longrightarrow>
   bb_id b' = bb_id b \<and> bb_level b' = bb_level b \<and> bb_version b' = bb_version b"
proof (induction nc b h rule: bit_builder_inner_loop.induct)
  case (1 nc b h)
  then show ?case
    by (subst (asm) bit_builder_inner_loop.simps) (auto split: if_splits)
qed

lemma add_entry_ids:
  assumes "bit_builder_add_entry nc b e = Some b'"
  shows "bb_id b' = bb_id b \<and> bb_level b' = bb_level b \<and> bb_version b' = bb_version b"
proof (cases "Suc (length (bb_cur_leaf b)) < BIT_LEAF_LEN")
  case True
  then show ?thesis using assms by (auto simp: bit_builder_add_entry_def Let_def)
next
  case False
  from assms obtain b5 where "bit_builder_inner_loop nc (place_leaf b e) 0 = Some b5"
    "bb_id b' = bb_id b5" "bb_level b' = bb_level b5" "bb_version b' = bb_version b5"
    unfolding add_entry_split [OF False] by (auto simp: write_leaf_def)
  moreover have "bb_id (place_leaf b e) = bb_id b" "bb_level (place_leaf b e) = bb_level b"
    "bb_version (place_leaf b e) = bb_version b"
    by (simp_all add: place_leaf_def Let_def)
  ultimately show ?thesis using inner_loop_ids by metis
qed

lemma complete_loop_ids:
  "bb_id (bit_builder_complete_loop nc b) = bb_id b \<and> bb_level (bit_builder_complete_loop nc b) = bb_level b \<and>
   bb_version (bit_builder_complete_loop nc b) = bb_version b"
proof -
  have "bb_id (foldl (\<lambda>b h. if bb_ctx b ! h = [] then b else bit_builder_push_inner nc b h) b hs) = bb_id b \<and>
    bb_level (foldl (\<lambda>b h. if bb_ctx b ! h = [] then b else bit_builder_push_inner nc b h) b hs) = bb_level b \<and>
    bb_version (foldl (\<lambda>b h. if bb_ctx b ! h = [] then b else bit_builder_push_inner nc b h) b hs) = bb_version b" for hs b
    by (induction hs arbitrary: b) auto
  then show ?thesis by (simp add: bit_builder_complete_loop_def)
qed

lemma complete_ids:
  "bit_builder_complete nc b = (bf, f') \<Longrightarrow>
   bf_id bf = bb_id b \<and> bf_level bf = bb_level b \<and> bf_version bf = bb_version b"
  by (auto simp: bit_builder_complete_def bit_file_create_def Let_def complete_loop_ids split: if_splits)

end
