(* ===== verification/Bit_Iterator.thy ===== *)
theory Bit_Iterator
  imports Bit_Tree
begin

text \<open>
  \<^verbatim>\<open>lsm_tree.c\<close>, the iterator of index files and their search over a range of keys, with the two
  round trips of an index file: what was built is found again, and iterated in order.
\<close>

section \<open>Iterator\<close>

record bit_iterator =
  it_cur_record :: nat
  it_count :: nat
  it_has_next :: bool
  it_bit_file :: bit_file
  it_leaf :: bit_leaf

definition bit_iterator_has_next :: "bit_iterator \<Rightarrow> bool" where
  "bit_iterator_has_next this = it_has_next this"

text \<open>
  \<open>None\<close> where the code reads past the records of its leaf or goes on with a leaf that did not
  decrypt (the result of \<^verbatim>\<open>bit_node_decode\<close> is not checked here).
\<close>

definition bit_iterator_next ::
  "'c node_cipher \<Rightarrow> (nat \<Rightarrow> 'c) \<Rightarrow> bit_iterator \<Rightarrow> ((nat \<times> blk_record) result \<times> bit_iterator) option" where
  "bit_iterator_next nc file this =
     (if \<not> bit_iterator_has_next this then Some (Inl ENODATA, this)
      else if it_cur_record this \<ge> length (lf_entries (it_leaf this)) then None
      else
        let entry = lf_entries (it_leaf this) ! it_cur_record this;
            this1 = this\<lparr>it_count := it_count this + 1\<rparr>
        in if it_count this1 \<ge> bf_nr_record (it_bit_file this1)
           then Some (Inr entry, this1\<lparr>it_has_next := False\<rparr>)
           else
             let this2 = this1\<lparr>it_cur_record := it_cur_record this1 + 1\<rparr>
             in if it_cur_record this2 = BIT_LEAF_LEN then
                  (case bit_node_decode nc (file (lf_next_pos (it_leaf this2))) True
                          (bf_root_key (it_bit_file this2)) of
                     Inr (Leaf_Node leaf) \<Rightarrow> Some (Inr entry, this2\<lparr>it_leaf := leaf, it_cur_record := 0\<rparr>)
                   | _ \<Rightarrow> None)
                else Some (Inr entry, this2))"

definition bit_iterator_init ::
  "'c node_cipher \<Rightarrow> (nat \<Rightarrow> 'c) \<Rightarrow> bit_file \<Rightarrow> bit_iterator result option" where
  "bit_iterator_init nc file bit_file =
     map_option (map_sum id (\<lambda>leaf. \<lparr>it_cur_record = 0, it_count = 0, it_has_next = True,
                                     it_bit_file = bit_file, it_leaf = leaf\<rparr>))
       (bit_file_first_leaf nc file bit_file)"

definition bit_file_iterator ::
  "'c node_cipher \<Rightarrow> (nat \<Rightarrow> 'c) \<Rightarrow> bit_file \<Rightarrow> bit_iterator result option" where
  "bit_file_iterator nc file this = bit_iterator_init nc file this"

text \<open>The way iterators are used: take an entry as long as there is one.\<close>

fun bit_iterator_run ::
  "'c node_cipher \<Rightarrow> (nat \<Rightarrow> 'c) \<Rightarrow> nat \<Rightarrow> bit_iterator \<Rightarrow> ((nat \<times> blk_record) list \<times> bit_iterator) option"
where
  "bit_iterator_run nc file 0 it = Some ([], it)"
| "bit_iterator_run nc file (Suc n) it =
     (if bit_iterator_has_next it then
        (case bit_iterator_next nc file it of
           Some (Inr e, it') \<Rightarrow> map_option (map_prod ((#) e) id) (bit_iterator_run nc file n it')
         | _ \<Rightarrow> None)
      else Some ([], it))"

section \<open>The iterator walks the chain of leaves\<close>

definition iter_place ::
  "'c node_cipher \<Rightarrow> byte list \<Rightarrow> (nat \<Rightarrow> 'c) \<Rightarrow> leaf_place list \<Rightarrow> nat \<Rightarrow> bit_iterator \<Rightarrow> bool" where
  "iter_place nc key f Ls n it \<longleftrightarrow>
     (\<exists>L1 p es L2 e. Ls = L1 @ (p, es) # L2 \<and> chain nc key f e ((p, es) # L2) \<and>
        it_leaf it = \<lparr>lf_entries = es, lf_next_pos = (case L2 of [] \<Rightarrow> e | q # _ \<Rightarrow> fst q)\<rparr> \<and>
        n = length (group_entries L1) + it_cur_record it \<and> it_cur_record it < length es)"

text \<open>An iterator that has given \<open>n\<close> of the entries of its file, whose leaves are \<open>Ls\<close>.\<close>

definition iter_at ::
  "'c node_cipher \<Rightarrow> (nat \<Rightarrow> 'c) \<Rightarrow> bit_file \<Rightarrow> leaf_place list \<Rightarrow> nat \<Rightarrow> bit_iterator \<Rightarrow> bool" where
  "iter_at nc f bf Ls n it \<longleftrightarrow> it_bit_file it = bf \<and> it_count it = n \<and> n \<le> length (group_entries Ls) \<and>
     bf_nr_record bf = length (group_entries Ls) \<and> (it_has_next it \<longleftrightarrow> n < length (group_entries Ls)) \<and>
     (\<forall>l \<in> set (butlast Ls). length (snd l) = BIT_LEAF_LEN) \<and>
     (\<forall>l \<in> set Ls. length (snd l) \<le> BIT_LEAF_LEN \<and> snd l \<noteq> []) \<and>
     (n < length (group_entries Ls) \<longrightarrow> iter_place nc (bf_root_key bf) f Ls n it)"

definition iter_ok ::
  "'c node_cipher \<Rightarrow> (nat \<Rightarrow> 'c) \<Rightarrow> bit_file \<Rightarrow> (nat \<times> blk_record) list \<Rightarrow> nat \<Rightarrow> bit_iterator \<Rightarrow> bool" where
  "iter_ok nc f bf xs n it \<longleftrightarrow> (\<exists>Ls. xs = group_entries Ls \<and> iter_at nc f bf Ls n it)"

text \<open>An iterator whose leaves lie in the slot from \<open>base\<close> on does not see changes elsewhere.\<close>

definition iter_in ::
  "'c node_cipher \<Rightarrow> (nat \<Rightarrow> 'c) \<Rightarrow> nat \<Rightarrow> bit_file \<Rightarrow> (nat \<times> blk_record) list \<Rightarrow> nat \<Rightarrow> bit_iterator \<Rightarrow> bool" where
  "iter_in nc f base bf xs n it \<longleftrightarrow>
     (\<exists>Ls. xs = group_entries Ls \<and> iter_at nc f bf Ls n it \<and>
        (\<forall>l \<in> set Ls. base \<le> fst l \<and> fst l < base + BIT_FILE_SIZE))"

lemma iter_step:
  assumes pl: "iter_place nc key f Ls n it" and xs: "xs = group_entries Ls" and n: "Suc n < length xs"
    and full: "\<forall>l \<in> set (butlast Ls). length (snd l) = BIT_LEAF_LEN"
      "\<forall>l \<in> set Ls. length (snd l) \<le> BIT_LEAF_LEN \<and> snd l \<noteq> []"
  defines "it' \<equiv> it\<lparr>it_cur_record := it_cur_record it + 1\<rparr>"
  shows "if it_cur_record it' = BIT_LEAF_LEN
    then \<exists>l. bit_node_decode nc (f (lf_next_pos (it_leaf it))) True key = Inr (Leaf_Node l) \<and>
      iter_place nc key f Ls (Suc n) (it'\<lparr>it_leaf := l, it_cur_record := 0\<rparr>)
    else iter_place nc key f Ls (Suc n) it'"
proof -
  from pl obtain L1 p es L2 e where Ls: "Ls = L1 @ (p, es) # L2" and ch: "chain nc key f e ((p, es) # L2)"
    and leaf: "it_leaf it = \<lparr>lf_entries = es, lf_next_pos = (case L2 of [] \<Rightarrow> e | q # _ \<Rightarrow> fst q)\<rparr>"
    and cur: "n = length (group_entries L1) + it_cur_record it" "it_cur_record it < length es"
    unfolding iter_place_def by blast
  have le: "length es \<le> BIT_LEAF_LEN" using full(2) Ls by simp
  show ?thesis
  proof (cases "Suc (it_cur_record it) = BIT_LEAF_LEN")
    case True
    then have es: "length es = Suc (it_cur_record it)" using cur(2) le by simp
    then have "L2 \<noteq> []" using n xs Ls cur(1) by auto
    then obtain q es' L3 where L2: "L2 = (q, es') # L3" by (metis list.exhaust surj_pair)
    let ?l = "\<lparr>lf_entries = es', lf_next_pos = (case L3 of [] \<Rightarrow> e | q # _ \<Rightarrow> fst q)\<rparr>"
    have "bit_node_decode nc (f (lf_next_pos (it_leaf it))) True key = Inr (Leaf_Node ?l)"
      using ch leaf by (simp add: L2)
    moreover have "iter_place nc key f Ls (Suc n) (it'\<lparr>it_leaf := ?l, it_cur_record := 0\<rparr>)"
      unfolding iter_place_def
      by (rule exI [of _ "L1 @ [(p, es)]"], rule exI [of _ q], rule exI [of _ es'], rule exI [of _ L3],
          rule exI [of _ e]) (use ch Ls L2 cur es full(2) in auto)
    ultimately show ?thesis using True by (auto simp: it'_def)
  next
    case False
    have "Suc (it_cur_record it) < length es"
    proof (cases "L2 = []")
      case True
      then show ?thesis using n xs Ls cur(1) by simp
    next
      case L2: False
      then have "(p, es) \<in> set (butlast Ls)" using Ls by (simp add: butlast_append)
      then have "length es = BIT_LEAF_LEN" using full(1) by force
      then show ?thesis using False cur(2) by simp
    qed
    then have "iter_place nc key f Ls (Suc n) it'"
      unfolding iter_place_def it'_def
      by (intro exI [of _ L1] exI [of _ p] exI [of _ es] exI [of _ L2] exI [of _ e])
        (use ch Ls leaf cur in auto)
    then show ?thesis using False by (simp add: it'_def)
  qed
qed

lemma iter_place_nth:
  assumes "iter_place nc key f Ls n it"
  shows "it_cur_record it < length (lf_entries (it_leaf it))"
    and "lf_entries (it_leaf it) ! it_cur_record it = group_entries Ls ! n"
  using assms unfolding iter_place_def by (auto simp: nth_append)

lemma iter_place_cong:
  "it_leaf it' = it_leaf it \<Longrightarrow> it_cur_record it' = it_cur_record it \<Longrightarrow>
   iter_place nc key f Ls n it' = iter_place nc key f Ls n it"
  by (simp add: iter_place_def)

lemma iter_next_at:
  assumes ok: "iter_at nc f bf Ls n it" and n: "n < length (group_entries Ls)"
  shows "\<exists>it'. bit_iterator_next nc f it = Some (Inr (group_entries Ls ! n), it') \<and> iter_at nc f bf Ls (Suc n) it'"
proof -
  let ?xs = "group_entries Ls"
  from ok n have Ls: "\<forall>l \<in> set (butlast Ls). length (snd l) = BIT_LEAF_LEN"
      "\<forall>l \<in> set Ls. length (snd l) \<le> BIT_LEAF_LEN \<and> snd l \<noteq> []"
    and pl: "iter_place nc (bf_root_key bf) f Ls n it"
    and it: "it_bit_file it = bf" "it_count it = n" "bf_nr_record bf = length ?xs" "it_has_next it"
    unfolding iter_at_def by blast+
  note e = iter_place_nth [OF pl]
  let ?it1 = "it\<lparr>it_count := it_count it + 1\<rparr>"
  show ?thesis
  proof (cases "Suc n < length ?xs")
    case False
    let ?it = "?it1\<lparr>it_has_next := False\<rparr>"
    have "bit_iterator_next nc f it = Some (Inr (?xs ! n), ?it)"
      using it e False by (simp add: bit_iterator_next_def bit_iterator_has_next_def Let_def)
    moreover have "iter_at nc f bf Ls (Suc n) ?it"
      using it Ls n False unfolding iter_at_def by auto
    ultimately show ?thesis by blast
  next
    case True
    have pl1: "iter_place nc (bf_root_key bf) f Ls n ?it1" using pl by (simp add: iter_place_def)
    let ?it2 = "?it1\<lparr>it_cur_record := it_cur_record ?it1 + 1\<rparr>"
    note st = iter_step [OF pl1 refl True Ls]
    have ok': "iter_at nc f bf Ls (Suc n) it'" if "iter_place nc (bf_root_key bf) f Ls (Suc n) it'"
      "it_bit_file it' = bf" "it_count it' = Suc n" "it_has_next it'" for it'
      using that Ls True it(3) unfolding iter_at_def by auto
    have nx: "bit_iterator_next nc f it =
        (if it_cur_record ?it2 = BIT_LEAF_LEN then
           (case bit_node_decode nc (f (lf_next_pos (it_leaf it))) True (bf_root_key bf) of
              Inr (Leaf_Node l) \<Rightarrow> Some (Inr (?xs ! n), ?it2\<lparr>it_leaf := l, it_cur_record := 0\<rparr>)
            | _ \<Rightarrow> None)
         else Some (Inr (?xs ! n), ?it2))"
      using it e True
      by (simp add: bit_iterator_next_def bit_iterator_has_next_def Let_def split: sum.splits bit_node.splits)
    show ?thesis
    proof (cases "it_cur_record ?it2 = BIT_LEAF_LEN")
      case full: True
      then obtain l where l: "bit_node_decode nc (f (lf_next_pos (it_leaf it))) True (bf_root_key bf) = Inr (Leaf_Node l)"
        "iter_place nc (bf_root_key bf) f Ls (Suc n) (?it2\<lparr>it_leaf := l, it_cur_record := 0\<rparr>)"
        using st by auto
      then show ?thesis using nx full ok' [OF l(2)] it by simp
    next
      case False
      then have "iter_place nc (bf_root_key bf) f Ls (Suc n) ?it2" using st by simp
      then show ?thesis using nx False ok' [of ?it2] it by simp
    qed
  qed
qed

lemma iter_next_ok:
  assumes ok: "iter_ok nc f bf xs n it" and n: "n < length xs"
  shows "\<exists>it'. bit_iterator_next nc f it = Some (Inr (xs ! n), it') \<and> iter_ok nc f bf xs (Suc n) it'"
  using assms iter_next_at unfolding iter_ok_def by metis

lemma iter_next_in:
  assumes "iter_in nc f base bf xs n it" and "n < length xs"
  shows "\<exists>it'. bit_iterator_next nc f it = Some (Inr (xs ! n), it') \<and> iter_in nc f base bf xs (Suc n) it'"
  using assms iter_next_at unfolding iter_in_def by metis

lemma iter_place_local:
  assumes "iter_place nc key f Ls n it" and "\<forall>l \<in> set Ls. f' (fst l) = f (fst l)"
  shows "iter_place nc key f' Ls n it"
proof -
  from assms(1) obtain L1 p es L2 e where *: "Ls = L1 @ (p, es) # L2" "chain nc key f e ((p, es) # L2)"
    "it_leaf it = \<lparr>lf_entries = es, lf_next_pos = (case L2 of [] \<Rightarrow> e | q # _ \<Rightarrow> fst q)\<rparr>"
    "n = length (group_entries L1) + it_cur_record it" "it_cur_record it < length es"
    unfolding iter_place_def by blast
  have "chain nc key f' e ((p, es) # L2)" by (rule chain_local [OF *(2)]) (use assms(2) *(1) in simp)
  then show ?thesis unfolding iter_place_def using * by blast
qed

lemma iter_in_cong:
  assumes "iter_in nc f base bf xs n it" and eq: "\<And>p. base \<le> p \<Longrightarrow> p < base + BIT_FILE_SIZE \<Longrightarrow> f' p = f p"
  shows "iter_in nc f' base bf xs n it"
proof -
  from assms(1) obtain Ls where Ls: "xs = group_entries Ls" "iter_at nc f bf Ls n it"
    "\<forall>l \<in> set Ls. base \<le> fst l \<and> fst l < base + BIT_FILE_SIZE" unfolding iter_in_def by blast
  have "\<forall>l \<in> set Ls. f' (fst l) = f (fst l)" using Ls(3) eq by blast
  then have "iter_at nc f' bf Ls n it" using Ls(2) iter_place_local unfolding iter_at_def by metis
  then show ?thesis using Ls(1,3) unfolding iter_in_def by blast
qed

lemma iter_in_has_next: "iter_in nc f base bf xs n it \<Longrightarrow> bit_iterator_has_next it \<longleftrightarrow> n < length xs"
  by (auto simp: iter_in_def iter_at_def bit_iterator_has_next_def)

lemma iter_in_file: "iter_in nc f base bf xs n it \<Longrightarrow> it_bit_file it = bf"
  by (auto simp: iter_in_def iter_at_def)

lemma iter_done:
  "iter_ok nc f bf xs (length xs) it \<Longrightarrow> bit_iterator_next nc f it = Some (Inl ENODATA, it)"
  by (auto simp: iter_ok_def iter_at_def bit_iterator_next_def bit_iterator_has_next_def)

lemma iter_has_next: "iter_ok nc f bf xs n it \<Longrightarrow> bit_iterator_has_next it \<longleftrightarrow> n < length xs"
  by (auto simp: iter_ok_def iter_at_def bit_iterator_has_next_def)

lemma iter_start_at:
  assumes ok: "file_ok nc f bf xs" and ft: "file_tree nc f bf G e" and xs: "xs = group_entries (concat G)"
  shows "\<exists>it. bit_file_iterator nc f bf = Some (Inr it) \<and> iter_at nc f bf (concat G) 0 it"
proof -
  from ok have so: "sorted_wrt (\<le>) (map fst xs)" and ne: "xs \<noteq> []"
    and fl: "bf_first_key bf = fst (hd xs)" "bf_last_key bf = fst (last xs)" "bf_nr_record bf = length xs"
    unfolding file_ok_def by blast+
  let ?k = "bf_first_key bf"
  have mem: "fst (hd xs) \<le> fst x" if "x \<in> set xs" for x
    using so ne that by (cases xs) auto
  have "?k \<le> bf_last_key bf" using fl mem ne by simp
  then obtain p es L1 L2 where L: "concat G = L1 @ (p, es) # L2" "\<forall>l \<in> set L1. run_key (snd l) < ?k"
      and me: "map_of xs ?k = map_of es ?k"
      and pos: "bit_file_search_leaf_key_pos bf ?k = Some (Inr (run_key es, p))"
    using search_pos [OF ft xs so ne order_refl] fl(2) by metis
  have ft': "chain nc (bf_root_key bf) f e (concat G)"
    "\<forall>l \<in> set (butlast (concat G)). length (snd l) = BIT_LEAF_LEN"
    "\<forall>l \<in> set (concat G). length (snd l) \<le> BIT_LEAF_LEN"
    using ft unfolding file_tree_def by blast+
  obtain cs nodes where "root_rel cs G" "list_all2 kids_rel nodes G" using ft unfolding file_tree_def by blast
  then have ro: "runs_ok (map snd (concat G))" using group_runs(3) so xs by blast
  then have nel: "\<forall>l \<in> set (concat G). snd l \<noteq> []" by (auto simp: runs_ok_def)
  have L1: "L1 = []"
  proof (rule ccontr)
    assume "L1 \<noteq> []"
    then obtain l where l: "l \<in> set L1" by (cases L1) auto
    then have "last (snd l) \<in> set xs" unfolding xs L(1) using nel L(1) by (auto intro!: bexI [of _ l])
    with mem L(2) l fl(1) show False by fastforce
  qed
  let ?l = "\<lparr>lf_entries = es, lf_next_pos = (case L2 of [] \<Rightarrow> e | q # _ \<Rightarrow> fst q)\<rparr>"
  have dec: "bit_node_decode nc (f p) True (bf_root_key bf) = Inr (Leaf_Node ?l)"
    using ft'(1) L(1) L1 by simp
  have "map_of xs ?k \<noteq> None" using ne fl(1) by (cases xs) auto
  then have "bit_leaf_search ?l ?k = Inr ()" using me by (auto simp: bit_leaf_search_lookup)
  then have first: "bit_file_first_leaf nc f bf = Some (Inr ?l)"
    using pos dec by (simp add: bit_file_first_leaf_def bit_file_search_leaf_def)
  let ?it = "\<lparr>it_cur_record = 0, it_count = 0, it_has_next = True, it_bit_file = bf, it_leaf = ?l\<rparr>"
  have "es \<noteq> []" using nel L(1) by force
  then have "iter_place nc (bf_root_key bf) f (concat G) 0 ?it"
    unfolding iter_place_def using L(1) L1 ft'(1)
    by (intro exI [of _ L1] exI [of _ p] exI [of _ es] exI [of _ L2] exI [of _ e]) simp
  then have "iter_at nc f bf (concat G) 0 ?it"
    unfolding iter_at_def xs [symmetric] using fl(3) ne ft'(2,3) nel by auto
  then show ?thesis using first by (simp add: bit_file_iterator_def bit_iterator_init_def)
qed

lemma iter_start:
  assumes "file_ok nc f bf xs"
  shows "\<exists>it. bit_file_iterator nc f bf = Some (Inr it) \<and> iter_ok nc f bf xs 0 it"
proof -
  from assms obtain G e where "file_tree nc f bf G e" "xs = group_entries (concat G)" unfolding file_ok_def by blast
  from iter_start_at [OF assms this] this(2) show ?thesis unfolding iter_ok_def by metis
qed

lemma iter_start_in:
  assumes "file_in nc f base bf xs"
  shows "\<exists>it. bit_file_iterator nc f bf = Some (Inr it) \<and> iter_in nc f base bf xs 0 it"
proof -
  from assms have ok: "file_ok nc f bf xs" "leaves_in base bf" by (simp_all add: file_in_def)
  then obtain G e where G: "file_tree nc f bf G e" "xs = group_entries (concat G)" unfolding file_ok_def by blast
  have "\<forall>l \<in> set (concat G). base \<le> fst l \<and> fst l < base + BIT_FILE_SIZE"
    using leaves_in_tree [OF ok(2) G(1)] by blast
  with iter_start_at [OF ok(1) G] G(2) show ?thesis unfolding iter_in_def by metis
qed

lemma iter_run_ok:
  "iter_ok nc f bf xs i it \<Longrightarrow> length xs - i \<le> n \<Longrightarrow>
   \<exists>it'. bit_iterator_run nc f n it = Some (drop i xs, it') \<and> iter_ok nc f bf xs (length xs) it'"
proof (induction n arbitrary: i it)
  case 0
  then have "i = length xs" by (auto simp: iter_ok_def iter_at_def)
  with 0 show ?case by auto
next
  case (Suc n)
  show ?case
  proof (cases "i < length xs")
    case True
    obtain it' where it': "bit_iterator_next nc f it = Some (Inr (xs ! i), it')" "iter_ok nc f bf xs (Suc i) it'"
      using iter_next_ok [OF Suc.prems(1) True] by blast
    have "length xs - Suc i \<le> n" using Suc.prems(2) by simp
    from Suc.IH [OF it'(2) this] obtain it'' where
      "bit_iterator_run nc f n it' = Some (drop (Suc i) xs, it'')" "iter_ok nc f bf xs (length xs) it''" by blast
    then show ?thesis using it'(1) True iter_has_next [OF Suc.prems(1)] by (simp add: Cons_nth_drop_Suc)
  next
    case False
    then have i: "i = length xs" using Suc.prems(1) by (auto simp: iter_ok_def iter_at_def)
    then show ?thesis using iter_has_next [OF Suc.prems(1)] Suc.prems(1) by simp
  qed
qed

section \<open>Files seen through their interface\<close>

text \<open>One search after the other, on whatever the search before has left.\<close>

fun searches ::
  "('f \<Rightarrow> nat \<Rightarrow> (blk_record result \<times> 'f) option) \<Rightarrow> 'f \<Rightarrow> nat list \<Rightarrow> (blk_record result list \<times> 'f) option"
where
  "searches search f [] = Some ([], f)"
| "searches search f (k # ks) =
     (case search f k of
        None \<Rightarrow> None
      | Some (r, f') \<Rightarrow> map_option (map_prod ((#) r) id) (searches search f' ks))"

text \<open>
  What the levels need of a file: a search that finds what the file holds and leaves it holding the
  same.
\<close>

locale lookup_file =
  fixes ok :: "'f \<Rightarrow> (nat \<times> blk_record) list \<Rightarrow> bool"
    and search :: "'f \<Rightarrow> nat \<Rightarrow> (blk_record result \<times> 'f) option"
  assumes search_ok: "ok f xs \<Longrightarrow> \<exists>f'. search f k = Some (lookup_result xs k, f') \<and> ok f' xs"
begin

lemma searches_ok:
  "ok f xs \<Longrightarrow> \<exists>f'. searches search f ks = Some (map (lookup_result xs) ks, f') \<and> ok f' xs"
proof (induction ks arbitrary: f)
  case (Cons k ks)
  obtain f1 where f1: "search f k = Some (lookup_result xs k, f1)" "ok f1 xs"
    using search_ok [OF Cons.prems] by blast
  with Cons.IH [OF f1(2)] show ?case by auto
qed simp

end

interpretation bit_files: lookup_file "file_ok nc f" "bit_file_search nc f" for nc f
  using search_correct by unfold_locales blast

section \<open>Round trips of an index file\<close>

text \<open>
  C15. Any number of searches in a finished index file give what a lookup in the entries it was built
  from gives: the entries are added in key order (a key possibly twice, the first one counting), at
  most a file's capacity.  The build never runs past its contexts and writes only to the file's slot.
\<close>

theorem index_file_found_again:
  assumes "node_cipher_ok nc" and "xs \<noteq> []" and "sorted_wrt (\<le>) (map fst xs)"
    and "length xs \<le> DEFAULT_LSM_FILE_CAPACITY"
  shows "\<exists>b bf f'. bit_build nc (bit_builder_init vmem rnd f0 base fid level ver) xs = Some b \<and>
     bit_builder_complete nc b = (bf, f') \<and>
     (\<exists>bf'. searches (bit_file_search nc f') bf ks = Some (map (lookup_result xs) ks, bf')) \<and>
     (\<forall>p. f' p = f0 p \<or> (base \<le> p \<and> p < base + BIT_FILE_SIZE))"
proof -
  obtain b bf f' where b: "bit_build nc (bit_builder_init vmem rnd f0 base fid level ver) xs = Some b"
    and c: "bit_builder_complete nc b = (bf, f')" "file_ok nc f' bf xs"
      "\<forall>p. p < base \<or> base + BIT_FILE_SIZE \<le> p \<longrightarrow> f' p = f0 p"
    by (rule build_complete [OF assms])
  from bit_files.searches_ok [OF c(2)] have
    "\<exists>bf'. searches (bit_file_search nc f') bf ks = Some (map (lookup_result xs) ks, bf')" by blast
  moreover have "\<forall>p. f' p = f0 p \<or> (base \<le> p \<and> p < base + BIT_FILE_SIZE)"
    using c(3) by (metis not_le)
  ultimately show ?thesis using b c(1) by blast
qed

text \<open>A cipher that keeps the node, for the closed instances.\<close>

definition plain_cipher :: "bit_node node_cipher" where
  "plain_cipher = \<lparr>nc_encrypt = (\<lambda>_ _ n. n), nc_decrypt = (\<lambda>_ _ c. Inr c)\<rparr>"

lemma plain_cipher_ok: "node_cipher_ok plain_cipher"
  by (simp add: node_cipher_ok_def plain_cipher_def)

definition sample_entries :: "(nat \<times> blk_record) list" where
  "sample_entries = [(3, \<lparr>rec_pba = 10, rec_mac = [], rec_key = []\<rparr>), (7, \<lparr>rec_pba = 11, rec_mac = [], rec_key = []\<rparr>), (7, negative)]"

theorem index_file_found_again_witness:
  "\<exists>b bf f'. bit_build plain_cipher (bit_builder_init (\<lambda>_. Inner_Node []) [] (\<lambda>_. Inner_Node []) 4096 0 0 1)
       sample_entries = Some b \<and>
     bit_builder_complete plain_cipher b = (bf, f') \<and>
     (\<exists>bf'. searches (bit_file_search plain_cipher f') bf [7, 5, 3] =
        Some ([Inr \<lparr>rec_pba = 11, rec_mac = [], rec_key = []\<rparr>, Inl ENODATA, Inr \<lparr>rec_pba = 10, rec_mac = [], rec_key = []\<rparr>], bf'))"
  using index_file_found_again [OF plain_cipher_ok, of sample_entries "\<lambda>_. Inner_Node []" "[]"
      "\<lambda>_. Inner_Node []" 4096 0 0 1 "[7, 5, 3]"]
  by (simp add: sample_entries_def layout_consts lookup_result_def) blast

text \<open>
  C16. Iterating a finished index file gives the entries it was built from, each once and in order,
  and then \<^verbatim>\<open>ENODATA\<close>.
\<close>

theorem index_file_iterates:
  assumes "node_cipher_ok nc" and "xs \<noteq> []" and "sorted_wrt (\<le>) (map fst xs)"
    and "length xs \<le> DEFAULT_LSM_FILE_CAPACITY"
  shows "\<exists>b bf f' it it'. bit_build nc (bit_builder_init vmem rnd f0 base fid level ver) xs = Some b \<and>
     bit_builder_complete nc b = (bf, f') \<and> bit_file_iterator nc f' bf = Some (Inr it) \<and>
     bit_iterator_run nc f' (length xs) it = Some (xs, it') \<and> bit_iterator_next nc f' it' = Some (Inl ENODATA, it')"
proof -
  obtain b bf f' where b: "bit_build nc (bit_builder_init vmem rnd f0 base fid level ver) xs = Some b"
    and c: "bit_builder_complete nc b = (bf, f')" "file_ok nc f' bf xs"
    by (rule build_complete [OF assms])
  obtain it where it: "bit_file_iterator nc f' bf = Some (Inr it)" "iter_ok nc f' bf xs 0 it"
    using iter_start [OF c(2)] by blast
  from iter_run_ok [OF it(2), of "length xs"] obtain it' where
    r: "bit_iterator_run nc f' (length xs) it = Some (xs, it')" "iter_ok nc f' bf xs (length xs) it'" by auto
  show ?thesis
    by (intro exI [of _ b] exI [of _ bf] exI [of _ f'] exI [of _ it] exI [of _ it'] conjI)
      (rule b c it r iter_done [OF r(2)])+
qed

theorem index_file_iterates_witness:
  "\<exists>b bf f' it it'. bit_build plain_cipher (bit_builder_init (\<lambda>_. Inner_Node []) [] (\<lambda>_. Inner_Node []) 4096 0 0 1)
       sample_entries = Some b \<and>
     bit_builder_complete plain_cipher b = (bf, f') \<and> bit_file_iterator plain_cipher f' bf = Some (Inr it) \<and>
     bit_iterator_run plain_cipher f' 3 it = Some (sample_entries, it')"
proof -
  have "length sample_entries = 3" "sample_entries \<noteq> []" "sorted_wrt (\<le>) (map fst sample_entries)"
    by (simp_all add: sample_entries_def)
  then show ?thesis
    using index_file_iterates [OF plain_cipher_ok, of sample_entries "\<lambda>_. Inner_Node []" "[]"
        "\<lambda>_. Inner_Node []" 4096 0 0 1] by (simp add: layout_consts) blast
qed

end
