(* ===== verification/Bit_Range.thy ===== *)
theory Bit_Range
  imports Bit_Iterator
begin

text \<open>
  \<^verbatim>\<open>lsm_tree.c\<close>, \<^verbatim>\<open>bit_file_range_search\<close>: the records of one index file for a range of blocks are
  collected in a memtable; a bitmap tells for which blocks a newer record has been found already.
\<close>

section \<open>Search over a range\<close>

text \<open>
  The bitmap is the set of the offsets found.  On a miss of the leaf cache every entry of the leaf
  with the key is put into the results, so the last one stays.
\<close>

type_synonym range_state = "bit_file \<times> memtable \<times> nat set"

definition bit_file_range_key ::
  "'c node_cipher \<Rightarrow> (nat \<Rightarrow> 'c) \<Rightarrow> nat \<Rightarrow> nat \<Rightarrow> range_state \<Rightarrow> range_state option" where
  "bit_file_range_key nc file start key st =
     (case st of (this, results, found) \<Rightarrow>
        if key - start \<in> found then Some (this, results, found)
        else case bit_file_search_cached_leaf this key of
          None \<Rightarrow> None
        | Some (Some record, this1) \<Rightarrow>
            Some (this1, snd (rbtree_memtable_put results key (Some record)), insert (key - start) found)
        | Some (None, this1) \<Rightarrow>
            (case bit_file_search_leaf nc file this1 key of
               None \<Rightarrow> None
             | Some (Inl err) \<Rightarrow> Some (this1, results, found)
             | Some (Inr leaf) \<Rightarrow>
                 (case lru_cache_put (bf_cached_leaf this1) (fst (last (lf_entries leaf))) leaf of
                    None \<Rightarrow> None
                  | Some c \<Rightarrow>
                      let hits = filter (\<lambda>e. fst e = key) (lf_entries leaf)
                      in Some (this1\<lparr>bf_cached_leaf := c\<rparr>,
                               foldl (\<lambda>m e. snd (rbtree_memtable_put m key (Some (snd e)))) results hits,
                               if hits = [] then found else insert (key - start) found))))"

text \<open>\<open>None\<close> also where the 32-bit key wraps around and the loop never ends.\<close>

function bit_file_range_loop ::
  "'c node_cipher \<Rightarrow> (nat \<Rightarrow> 'c) \<Rightarrow> nat \<Rightarrow> nat \<Rightarrow> nat \<Rightarrow> range_state \<Rightarrow> range_state option" where
  "bit_file_range_loop nc file start end_key key st =
     (if key \<le> end_key then
        let key' = (if key < bf_first_key (fst st) then bf_first_key (fst st) else key)
        in case bit_file_range_key nc file start key' st of
             None \<Rightarrow> None
           | Some st' \<Rightarrow>
               if key' = 2 ^ 32 - 1 then None
               else bit_file_range_loop nc file start end_key (key' + 1) st'
      else Some st)"
  by pat_completeness auto
termination
  by (relation "measure (\<lambda>(nc, file, start, e, key, st). Suc e - key)") auto

declare bit_file_range_loop.simps [simp del]

definition bit_file_range_search ::
  "'c node_cipher \<Rightarrow> (nat \<Rightarrow> 'c) \<Rightarrow> bit_file \<Rightarrow> nat \<Rightarrow> nat \<Rightarrow> memtable \<Rightarrow> nat set \<Rightarrow> range_state option" where
  "bit_file_range_search nc file this start end_key results found =
     (if start > bf_last_key this \<or> end_key < bf_first_key this then Some (this, results, found)
      else bit_file_range_loop nc file start (min end_key (bf_last_key this)) start (this, results, found))"

section \<open>One key\<close>

lemma search_leaf_part:
  assumes "file_ok nc f this xs" and "bit_file_search_leaf nc f this k = Some (Inr leaf)"
  shows "\<exists>ys zs. xs = ys @ lf_entries leaf @ zs"
proof -
  from assms(1) obtain G e where ft: "file_tree nc f this G e" and xs: "xs = group_entries (concat G)"
    and so: "sorted_wrt (\<le>) (map fst xs)" and ne: "xs \<noteq> []"
    and fl: "bf_first_key this = fst (hd xs)" "bf_last_key this = fst (last xs)"
    unfolding file_ok_def by blast
  have "bf_first_key this \<le> k" "k \<le> bf_last_key this"
    using assms(2) by (auto simp: bit_file_search_leaf_def bit_file_search_leaf_key_pos_def not_less
        split: if_splits)
  then obtain p es L1 L2 where L: "concat G = L1 @ (p, es) # L2"
      and pos: "bit_file_search_leaf_key_pos this k = Some (Inr (run_key es, p))"
    using search_pos [OF ft xs so ne] fl(2) by metis
  have "chain nc (bf_root_key this) f e (concat G)" using ft by (simp add: file_tree_def)
  from chain_decode [OF this, of p es] L obtain np where
    "bit_node_decode nc (f p) True (bf_root_key this) = Inr (Leaf_Node \<lparr>lf_entries = es, lf_next_pos = np\<rparr>)" by auto
  with assms(2) pos have "lf_entries leaf = es"
    by (auto simp: bit_file_search_leaf_def split: sum.splits)
  then show ?thesis using xs L by auto
qed

lemma filter_key_distinct:
  "distinct (map fst es) \<Longrightarrow> filter (\<lambda>e. fst e = k) es = (case map_of es k of None \<Rightarrow> [] | Some r \<Rightarrow> [(k, r)])"
proof (induction es)
  case (Cons e es)
  then show ?case
    by (cases e) (auto simp: filter_empty_conv map_of_eq_None_iff split: option.splits
        intro!: rev_image_eqI)
qed simp

text \<open>Where no key comes twice, one key of a range search is a search.\<close>

lemma range_key_search:
  assumes ok: "file_ok nc f this xs" and d: "distinct (map fst xs)"
    and s: "bit_file_search nc f this key = Some (res, this')" and nf: "key - start \<notin> found"
  shows "bit_file_range_key nc f start key (this, results, found) =
    Some (case res of Inl _ \<Rightarrow> (this', results, found)
          | Inr r \<Rightarrow> (this', snd (rbtree_memtable_put results key (Some r)), insert (key - start) found))"
proof -
  obtain o1 this1 where c: "bit_file_search_cached_leaf this key = Some (o1, this1)"
    using s by (auto simp: bit_file_search_def split: option.splits)
  show ?thesis
  proof (cases o1)
    case (Some r)
    then have "res = Inr r" "this' = this1" using s c by (simp_all add: bit_file_search_def)
    then show ?thesis using Some c nf by (simp add: bit_file_range_key_def)
  next
    case None
    have same: "bit_file_search_leaf nc f this1 key = bit_file_search_leaf nc f this key"
      using c by (auto simp: bit_file_search_cached_leaf_def bit_file_search_leaf_def
          bit_file_search_leaf_key_pos_def split: option.splits sum.splits prod.splits)
    show ?thesis
    proof (cases "bit_file_search_leaf nc f this1 key")
      case (Some x)
      show ?thesis
      proof (cases x)
        case (Inl err)
        then have "res = Inl err" "this' = this1" using s c None Some by (simp_all add: bit_file_search_def)
        then show ?thesis using c None Some Inl nf by (simp add: bit_file_range_key_def)
      next
        case (Inr leaf)
        obtain ys zs where "xs = ys @ lf_entries leaf @ zs"
          using search_leaf_part [OF ok, of key leaf] Some Inr same by auto
        then have "distinct (map fst (lf_entries leaf))" using d by simp
        note h = filter_key_distinct [OF this, of key]
        obtain ca r where "lru_cache_put (bf_cached_leaf this1) (fst (last (lf_entries leaf))) leaf = Some ca"
          "map_of (lf_entries leaf) key = Some r" "res = Inr r" "this' = this1\<lparr>bf_cached_leaf := ca\<rparr>"
          using s c None Some Inr by (auto simp: bit_file_search_def split: option.splits)
        then show ?thesis using c None Some Inr nf h by (simp add: bit_file_range_key_def)
      qed
    qed (use s c None in \<open>simp add: bit_file_search_def\<close>)
  qed
qed

text \<open>What a range search adds: the records of \<open>xs\<close> in the range that had not been found.\<close>

definition range_add ::
  "(nat \<times> blk_record) list \<Rightarrow> nat \<Rightarrow> nat set \<Rightarrow> nat set \<Rightarrow> (nat \<rightharpoonup> blk_record) \<Rightarrow> nat \<rightharpoonup> blk_record" where
  "range_add xs start K found m =
     (\<lambda>k. if k \<in> K \<and> k - start \<notin> found \<and> map_of xs k \<noteq> None then map_of xs k else m k)"

definition range_offsets :: "(nat \<times> blk_record) list \<Rightarrow> nat \<Rightarrow> nat set \<Rightarrow> nat set" where
  "range_offsets xs start K = (\<lambda>k. k - start) ` (K \<inter> fst ` set xs)"

lemma range_key_ok:
  assumes ok: "file_ok nc f this xs" and d: "distinct (map fst xs)" and m: "memtable_inv m" and k: "key_ok key"
  shows "\<exists>c m' F'. bit_file_range_key nc f start key (this, m, F) = Some (this\<lparr>bf_cached_leaf := c\<rparr>, m', F') \<and>
    file_ok nc f (this\<lparr>bf_cached_leaf := c\<rparr>) xs \<and> memtable_inv m' \<and>
    memtable_map m' = range_add xs start {key} F (memtable_map m) \<and>
    F' = F \<union> range_offsets xs start {key}"
proof (cases "key - start \<in> F")
  case True
  then have "bit_file_range_key nc f start key (this, m, F) =
      Some (this\<lparr>bf_cached_leaf := bf_cached_leaf this\<rparr>, m, F)" by (simp add: bit_file_range_key_def)
  moreover have "F = F \<union> range_offsets xs start {key}" using True by (auto simp: range_offsets_def)
  ultimately show ?thesis using ok m True
    by (intro exI [of _ "bf_cached_leaf this"] exI [of _ m] exI [of _ F]) (auto simp: range_add_def)
next
  case False
  obtain c where c: "bit_file_search nc f this key = Some (lookup_result xs key, this\<lparr>bf_cached_leaf := c\<rparr>)"
    "file_ok nc f (this\<lparr>bf_cached_leaf := c\<rparr>) xs" using search_correct [OF ok] by blast
  note r = range_key_search [OF ok d c(1) False, of m]
  show ?thesis
  proof (cases "map_of xs key")
    case None
    then have "key \<notin> fst ` set xs" by (simp add: map_of_eq_None_iff)
    then show ?thesis using r c(2) m None
      by (intro exI [of _ c] exI [of _ m] exI [of _ F])
        (auto simp: lookup_result_def range_add_def range_offsets_def fun_eq_iff)
  next
    case (Some v)
    then have "key \<in> fst ` set xs" by (metis domI dom_map_of_conv_image_fst)
    then show ?thesis using r c(2) Some False put_inv [OF m k] put_map(1) [OF m k, of "Some v"]
      by (auto simp: lookup_result_def range_add_def range_offsets_def fun_eq_iff)
  qed
qed

lemma range_add_step:
  assumes "start \<le> key" and "key \<notin> K" and "\<forall>k \<in> K. start \<le> k"
  shows "range_add xs start K (F \<union> range_offsets xs start {key}) (range_add xs start {key} F m) =
      range_add xs start (insert key K) F m"
    and "F \<union> range_offsets xs start {key} \<union> range_offsets xs start K = F \<union> range_offsets xs start (insert key K)"
proof -
  have "k - start \<noteq> key - start" if "k \<in> K" for k
    using assms that by (metis diff_diff_cancel diff_diff_left le_add_diff_inverse)
  then show "range_add xs start K (F \<union> range_offsets xs start {key}) (range_add xs start {key} F m) =
      range_add xs start (insert key K) F m"
    using assms(2) by (auto simp: range_add_def range_offsets_def fun_eq_iff)
qed (auto simp: range_offsets_def)

lemma range_loop_ok:
  assumes d: "distinct (map fst xs)" and keys: "e < 2 ^ 31"
  shows "file_ok nc f this xs \<Longrightarrow> memtable_inv m \<Longrightarrow> start \<le> key \<Longrightarrow> bf_first_key this \<le> e \<Longrightarrow>
    \<exists>this' m' F'. bit_file_range_loop nc f start e key (this, m, F) = Some (this', m', F') \<and>
      file_ok nc f this' xs \<and> memtable_inv m' \<and>
      memtable_map m' = range_add xs start {key..e} F (memtable_map m) \<and>
      F' = F \<union> range_offsets xs start {key..e} \<and> (\<exists>c. this' = this\<lparr>bf_cached_leaf := c\<rparr>)"
proof (induction "Suc e - key" arbitrary: key this m F rule: less_induct)
  case less
  show ?case
  proof (cases "key \<le> e")
    case False
    then show ?thesis using less.prems
      by (subst bit_file_range_loop.simps)
        (auto simp: range_add_def range_offsets_def intro!: exI [of _ "bf_cached_leaf this"])
  next
    case True
    define key' where "key' = (if key < bf_first_key this then bf_first_key this else key)"
    have k': "key' \<le> e" "start \<le> key'" "Suc e - Suc key' < Suc e - key" "key_ok key'" "key' \<noteq> 2 ^ 32 - 1"
      using True less.prems(3,4) keys by (auto simp: key'_def key_ok_def)
    have lo: "bf_first_key this \<le> fst x" if "x \<in> set xs" for x
      using less.prems(1) that unfolding file_ok_def by (cases xs) auto
    have no: "map_of xs k = None" "k \<notin> fst ` set xs" if "k < bf_first_key this" for k
      using lo that by (force intro: map_of_None_keys)+
    have rng: "range_add xs start {key..e} F mm = range_add xs start (insert key' {Suc key'..e}) F mm"
      "range_offsets xs start {key..e} = range_offsets xs start (insert key' {Suc key'..e})" for mm
    proof -
      have i: "insert key' {Suc key'..e} = {key'..e}" using k'(1) by auto
      show "range_add xs start {key..e} F mm = range_add xs start (insert key' {Suc key'..e}) F mm"
        unfolding i range_add_def by (rule ext) (auto simp: key'_def not_le dest: no(1))
      have "{key..e} \<inter> fst ` set xs = {key'..e} \<inter> fst ` set xs"
        using no(2) unfolding key'_def by (auto simp: not_le) (metis imageI fst_conv not_le)
      then show "range_offsets xs start {key..e} = range_offsets xs start (insert key' {Suc key'..e})"
        unfolding i range_offsets_def by simp
    qed
    obtain c m1 F1 where st: "bit_file_range_key nc f start key' (this, m, F) = Some (this\<lparr>bf_cached_leaf := c\<rparr>, m1, F1)"
      "file_ok nc f (this\<lparr>bf_cached_leaf := c\<rparr>) xs" "memtable_inv m1"
      "memtable_map m1 = range_add xs start {key'} F (memtable_map m)" "F1 = F \<union> range_offsets xs start {key'}"
      using range_key_ok [OF less.prems(1) d less.prems(2) k'(4)] by blast
    obtain this' m' F' where lp: "bit_file_range_loop nc f start e (Suc key') (this\<lparr>bf_cached_leaf := c\<rparr>, m1, F1) =
        Some (this', m', F')" "file_ok nc f this' xs" "memtable_inv m'"
      "memtable_map m' = range_add xs start {Suc key'..e} F1 (memtable_map m1)"
      "F' = F1 \<union> range_offsets xs start {Suc key'..e}" "\<exists>c. this' = this\<lparr>bf_cached_leaf := c\<rparr>"
      using less.hyps [OF k'(3) st(2,3), of F1] k'(2) less.prems(4) by auto
    have ord: "start \<le> key'" "key' \<notin> {Suc key'..e}" "\<forall>k \<in> {Suc key'..e}. start \<le> k" using k'(2) by auto
    have "bit_file_range_loop nc f start e key (this, m, F) =
        (case bit_file_range_key nc f start key' (this, m, F) of
           None \<Rightarrow> None
         | Some st' \<Rightarrow> if key' = 2 ^ 32 - 1 then None else bit_file_range_loop nc f start e (key' + 1) st')"
      using True by (subst bit_file_range_loop.simps) (simp only: key'_def fst_conv Let_def if_True)
    then have "bit_file_range_loop nc f start e key (this, m, F) = Some (this', m', F')"
      using st(1) lp(1) k'(5) by simp
    moreover have "memtable_map m' = range_add xs start {key..e} F (memtable_map m)"
      unfolding lp(4) st(4,5) range_add_step(1) [OF ord] rng ..
    moreover have "F' = F \<union> range_offsets xs start {key..e}"
      unfolding lp(5) st(5) range_add_step(2) [OF ord] rng ..
    ultimately show ?thesis using lp(2,3,6) by blast
  qed
qed

lemma range_search_ok:
  assumes ok: "file_ok nc f this xs" and d: "distinct (map fst xs)" and m: "memtable_inv m"
    and keys: "\<forall>x \<in> set xs. key_ok (fst x)"
  shows "\<exists>this' m' F'. bit_file_range_search nc f this start e m F = Some (this', m', F') \<and>
    file_ok nc f this' xs \<and> memtable_inv m' \<and>
    memtable_map m' = range_add xs start {start..e} F (memtable_map m) \<and>
    F' = F \<union> range_offsets xs start {start..e} \<and> (\<exists>c. this' = this\<lparr>bf_cached_leaf := c\<rparr>)"
proof -
  from ok have ne: "xs \<noteq> []" and so: "sorted_wrt (\<le>) (map fst xs)"
    and fl: "bf_first_key this = fst (hd xs)" "bf_last_key this = fst (last xs)"
    unfolding file_ok_def by blast+
  have hi: "fst x \<le> bf_last_key this" if "x \<in> set xs" for x using sorted_le_last [OF so that] fl by simp
  have lo: "bf_first_key this \<le> fst x" if "x \<in> set xs" for x
    using so ne that fl(1) by (cases xs) auto
  have no: "map_of xs k = None" "k \<notin> fst ` set xs" if "k < bf_first_key this \<or> bf_last_key this < k" for k
    using hi lo that by (force intro: map_of_None_keys)+
  show ?thesis
  proof (cases "start > bf_last_key this \<or> e < bf_first_key this")
    case True
    then have "range_add xs start {start..e} F (memtable_map m) = memtable_map m"
      "range_offsets xs start {start..e} = {}"
      using no by (auto simp: range_add_def range_offsets_def fun_eq_iff)
        (metis imageI fst_conv le_less_trans less_le_trans)+
    then show ?thesis using True ok m
      by (auto simp: bit_file_range_search_def intro!: exI [of _ "bf_cached_leaf this"])
  next
    case False
    let ?e = "min e (bf_last_key this)"
    have "last xs \<in> set xs" using ne by simp
    then have "?e < 2 ^ 31" "bf_first_key this \<le> ?e" using keys fl(2) False lo by (fastforce simp: key_ok_def)+
    note L = range_loop_ok [OF d this(1) ok m order_refl this(2), of start F]
    have "range_add xs start {start..?e} F (memtable_map m) = range_add xs start {start..e} F (memtable_map m)"
      using no(1) by (auto simp: range_add_def fun_eq_iff not_le)
    moreover have "{start..?e} \<inter> fst ` set xs = {start..e} \<inter> fst ` set xs" using hi by auto
    ultimately show ?thesis using L False by (simp add: bit_file_range_search_def range_offsets_def)
  qed
qed

text \<open>
  C29. A range search of an index file adds to the results exactly the file's records for those blocks
  of the range that had not been found before, marks them found, and ends.
\<close>

theorem range_search_adds_missing:
  assumes "file_ok nc f this xs" and "distinct (map fst xs)" and "memtable_inv m"
    and "\<forall>x \<in> set xs. key_ok (fst x)"
  shows "\<exists>this' m' F'. bit_file_range_search nc f this start e m F = Some (this', m', F') \<and>
    (\<forall>k. rbtree_memtable_get m' k =
       (if start \<le> k \<and> k \<le> e \<and> k - start \<notin> F \<and> map_of xs k \<noteq> None then lookup_result xs k
        else rbtree_memtable_get m k)) \<and>
    F' = F \<union> {k - start |k. start \<le> k \<and> k \<le> e \<and> map_of xs k \<noteq> None}"
proof -
  from range_search_ok [OF assms] obtain this' m' F' where
    r: "bit_file_range_search nc f this start e m F = Some (this', m', F')" "memtable_inv m'"
      "memtable_map m' = range_add xs start {start..e} F (memtable_map m)"
      "F' = F \<union> range_offsets xs start {start..e}" by blast
  have "rbtree_memtable_get m' k =
       (if start \<le> k \<and> k \<le> e \<and> k - start \<notin> F \<and> map_of xs k \<noteq> None then lookup_result xs k
        else rbtree_memtable_get m k)" for k
    by (auto simp: get_map [OF r(2)] get_map [OF assms(3)] r(3) range_add_def lookup_result_def)
  moreover have "fst ` set xs = {k. map_of xs k \<noteq> None}" by (auto simp: map_of_eq_None_iff)
  then have "range_offsets xs start {start..e} = {k - start |k. start \<le> k \<and> k \<le> e \<and> map_of xs k \<noteq> None}"
    unfolding range_offsets_def by auto
  ultimately show ?thesis using r(1,4) by blast
qed

theorem range_search_adds_missing_witness:
  "\<exists>b bf f' this' m' F'. bit_build plain_cipher (bit_builder_init (\<lambda>_. Inner_Node []) [] (\<lambda>_. Inner_Node []) 0 0 0 1)
       (take 2 sample_entries) = Some b \<and> bit_builder_complete plain_cipher b = (bf, f') \<and>
     bit_file_range_search plain_cipher f' bf 2 9 rbtree_memtable_create {5} = Some (this', m', F') \<and>
     rbtree_memtable_get m' 3 = Inr \<lparr>rec_pba = 10, rec_mac = [], rec_key = []\<rparr> \<and>
     rbtree_memtable_get m' 7 = Inl ENODATA \<and> 1 \<in> F'"
proof -
  let ?xs = "take 2 sample_entries"
  have x: "?xs \<noteq> []" "sorted_wrt (\<le>) (map fst ?xs)" "length ?xs \<le> DEFAULT_LSM_FILE_CAPACITY"
    "distinct (map fst ?xs)" "\<forall>x \<in> set ?xs. key_ok (fst x)"
    by (simp_all add: sample_entries_def layout_consts key_ok_def)
  obtain b bf f' where b: "bit_build plain_cipher (bit_builder_init (\<lambda>_. Inner_Node []) [] (\<lambda>_. Inner_Node []) 0 0 0 1)
       ?xs = Some b" "bit_builder_complete plain_cipher b = (bf, f')" "file_ok plain_cipher f' bf ?xs"
    by (rule build_complete [OF plain_cipher_ok x(1-3)])
  obtain this' m' F' where r: "bit_file_range_search plain_cipher f' bf 2 9 rbtree_memtable_create {5} = Some (this', m', F')"
    and g: "\<forall>k. rbtree_memtable_get m' k = (if 2 \<le> k \<and> k \<le> 9 \<and> k - 2 \<notin> {5} \<and> map_of ?xs k \<noteq> None
       then lookup_result ?xs k else rbtree_memtable_get rbtree_memtable_create k)"
    and F: "F' = {5} \<union> {k - 2 |k. 2 \<le> k \<and> k \<le> 9 \<and> map_of ?xs k \<noteq> None}"
    using range_search_adds_missing [OF b(3) x(4) memtable_inv_create x(5), of 2 9 "{5}"] by blast
  have "rbtree_memtable_get m' 3 = Inr \<lparr>rec_pba = 10, rec_mac = [], rec_key = []\<rparr>"
    using g [rule_format, of 3] by (simp add: sample_entries_def lookup_result_def)
  moreover have "rbtree_memtable_get m' 7 = Inl ENODATA"
    using g [rule_format, of 7] by (simp add: rbtree_memtable_get_def rbtree_memtable_create_def)
  moreover have "1 \<in> F'" unfolding F by (rule UnI2, rule CollectI, rule exI [of _ 3]) (simp add: sample_entries_def)
  ultimately show ?thesis using b(1,2) r by blast
qed

section \<open>A record and its tombstone in one file\<close>

text \<open>
  A memtable entry may hold a record and a tombstone; the file made of it then has the key twice, the
  record first.
\<close>

lemma single_leaf:
  assumes ok: "file_ok nc f this xs" and len: "length xs < BIT_LEAF_LEN" and k: "k \<in> fst ` set xs"
  shows "\<exists>leaf p. bit_file_search_leaf nc f this k = Some (Inr leaf) \<and> lf_entries leaf = xs \<and>
    bit_file_search_leaf_key_pos this k = Some (Inr (run_key xs, p))"
proof -
  from ok obtain G e where ft: "file_tree nc f this G e" and xs: "xs = group_entries (concat G)"
    and so: "sorted_wrt (\<le>) (map fst xs)" and ne: "xs \<noteq> []"
    and fl: "bf_first_key this = fst (hd xs)" "bf_last_key this = fst (last xs)"
    unfolding file_ok_def by blast
  have "bf_first_key this \<le> k" "k \<le> bf_last_key this"
    using k fl so ne sorted_le_last [OF so] by (cases xs; force)+
  then obtain p es L1 L2 where L: "concat G = L1 @ (p, es) # L2" and me: "map_of xs k = map_of es k"
      and pos: "bit_file_search_leaf_key_pos this k = Some (Inr (run_key es, p))"
    using search_pos [OF ft xs so ne] fl(2) by metis
  have full: "\<forall>l \<in> set (butlast (concat G)). length (snd l) = BIT_LEAF_LEN"
    and ch: "chain nc (bf_root_key this) f e (concat G)" using ft by (simp_all add: file_tree_def)
  have "butlast (concat G) = []"
  proof (rule ccontr)
    assume "butlast (concat G) \<noteq> []"
    then obtain l where l: "l \<in> set (butlast (concat G))" by (cases "butlast (concat G)") auto
    then have "l \<in> set (concat G)" by (rule in_set_butlastD)
    then have "length (snd l) \<le> length xs" unfolding xs
      by (metis (no_types, lifting) concat.simps(2) concat_append in_set_conv_decomp length_append le_add1 le_add2
          list.simps(9) map_append order_trans)
    with full l len show False by force
  qed
  then have "L1 = []" "L2 = []" using L by (auto simp: butlast_append split: if_splits)
  then have es: "xs = es" using xs L by simp
  obtain np where dec: "bit_node_decode nc (f p) True (bf_root_key this) =
      Inr (Leaf_Node \<lparr>lf_entries = es, lf_next_pos = np\<rparr>)" using chain_decode [OF ch, of p es] L by auto
  have "bit_leaf_search \<lparr>lf_entries = es, lf_next_pos = np\<rparr> k = Inr ()" using k es by (simp add: bit_leaf_search_def)
  then show ?thesis using pos dec es by (simp add: bit_file_search_leaf_def)
qed

lemma cold_range_search:
  assumes ok: "file_ok nc f this xs" and xs: "xs = [(k, r), (k, n)]" and k: "key_ok k"
    and cold: "bf_cached_leaf this = lru_cache_create MAX_LEAF_NODE_CACHED"
  shows "\<exists>this' m F. bit_file_range_search nc f this k k rbtree_memtable_create {} = Some (this', m, F) \<and>
    rbtree_memtable_get m k = Inr n"
proof -
  obtain leaf p where l: "bit_file_search_leaf nc f this k = Some (Inr leaf)" "lf_entries leaf = xs"
    "bit_file_search_leaf_key_pos this k = Some (Inr (run_key xs, p))"
    using single_leaf [OF ok] xs by (force simp: layout_consts)
  let ?c = "lru_cache_create MAX_LEAF_NODE_CACHED :: bit_leaf lru_cache"
  have this1: "this\<lparr>bf_cached_leaf := ?c\<rparr> = this" using cold by (metis bit_file.surjective bit_file.update_convs(9))
  have g: "lru_cache_get ?c (run_key xs) = (None, ?c)" by (simp add: lru_cache_get_def lru_cache_create_def)
  have ca: "bit_file_search_cached_leaf this k = Some (None, this)"
    using l(3) g this1 cold by (simp add: bit_file_search_cached_leaf_def)
  have "lru_cache_evict ?c = Some ?c"
    by (rule evict_room) (simp add: lru_cache_create_def MAX_LEAF_NODE_CACHED_def)
  then obtain c' where p: "lru_cache_put ?c (fst (last (lf_entries leaf))) leaf = Some c'"
    by (simp add: lru_cache_put_def lru_cache_create_def)
  let ?m1 = "snd (rbtree_memtable_put rbtree_memtable_create k (Some r))"
  let ?m = "snd (rbtree_memtable_put ?m1 k (Some n))"
  have st: "bit_file_range_key nc f k k (this, rbtree_memtable_create, {}) = Some (this\<lparr>bf_cached_leaf := c'\<rparr>, ?m, {0})"
    using ca l(1,2) p cold xs by (simp add: bit_file_range_key_def)
  have fl: "bf_first_key this = k" "bf_last_key this = k" using ok xs by (simp_all add: file_ok_def)
  have "bit_file_range_loop nc f k k k (this, rbtree_memtable_create, {}) = Some (this\<lparr>bf_cached_leaf := c'\<rparr>, ?m, {0})"
    using st fl k by (subst bit_file_range_loop.simps, subst bit_file_range_loop.simps) (simp add: key_ok_def)
  then have "bit_file_range_search nc f this k k rbtree_memtable_create {} = Some (this\<lparr>bf_cached_leaf := c'\<rparr>, ?m, {0})"
    using fl by (simp add: bit_file_range_search_def)
  moreover have m1: "memtable_inv ?m1" using put_inv [OF memtable_inv_create k] .
  then have "rbtree_memtable_get ?m k = Inr n"
    using put_inv [OF m1 k] put_map(1) [OF m1 k] by (simp add: get_map)
  ultimately show ?thesis by blast
qed

lemma complete_cold: "bf_cached_leaf (fst (bit_builder_complete nc b)) = lru_cache_create MAX_LEAF_NODE_CACHED"
  by (simp add: bit_builder_complete_def bit_file_create_def Let_def)

text \<open>
  C30. A file that has a record and a tombstone for the same block answers a single search with the
  record, but a range search that finds the leaf cache empty with the tombstone.
\<close>

theorem range_search_prefers_tombstone:
  assumes "node_cipher_ok nc" and "key_ok k"
  shows "\<exists>b bf f' this1 this2 m F.
     bit_build nc (bit_builder_init vmem rnd f0 base fid level ver) [(k, r), (k, negative)] = Some b \<and>
     bit_builder_complete nc b = (bf, f') \<and>
     bit_file_search nc f' bf k = Some (Inr r, this1) \<and>
     bit_file_range_search nc f' bf k k rbtree_memtable_create {} = Some (this2, m, F) \<and>
     rbtree_memtable_get m k = Inr negative"
proof -
  let ?xs = "[(k, r), (k, negative)]"
  have x: "?xs \<noteq> []" "sorted_wrt (\<le>) (map fst ?xs)" "length ?xs \<le> DEFAULT_LSM_FILE_CAPACITY"
    by (simp_all add: layout_consts)
  obtain b bf f' where b: "bit_build nc (bit_builder_init vmem rnd f0 base fid level ver) ?xs = Some b"
    and c: "bit_builder_complete nc b = (bf, f')" and ok: "file_ok nc f' bf ?xs"
    by (rule build_complete [OF assms(1) x])
  have cold: "bf_cached_leaf bf = lru_cache_create MAX_LEAF_NODE_CACHED" using complete_cold [of nc b] c by simp
  obtain c1 where "bit_file_search nc f' bf k = Some (Inr r, bf\<lparr>bf_cached_leaf := c1\<rparr>)"
    using search_correct [OF ok, of k] by (auto simp: lookup_result_def)
  with cold_range_search [OF ok refl assms(2) cold] b c show ?thesis by blast
qed

theorem range_search_prefers_tombstone_witness:
  "\<exists>b bf f' this1 this2 m F.
     bit_build plain_cipher (bit_builder_init (\<lambda>_. Inner_Node []) [] (\<lambda>_. Inner_Node []) 0 0 0 1)
       [(7, \<lparr>rec_pba = 10, rec_mac = [], rec_key = []\<rparr>), (7, negative)] = Some b \<and>
     bit_builder_complete plain_cipher b = (bf, f') \<and>
     bit_file_search plain_cipher f' bf 7 = Some (Inr \<lparr>rec_pba = 10, rec_mac = [], rec_key = []\<rparr>, this1) \<and>
     bit_file_range_search plain_cipher f' bf 7 7 rbtree_memtable_create {} = Some (this2, m, F) \<and>
     rbtree_memtable_get m 7 = Inr negative"
proof -
  have "key_ok 7" by (simp add: key_ok_def)
  from range_search_prefers_tombstone [OF plain_cipher_ok this] show ?thesis .
qed

end
