(* ===== verification/Bit_Level.thy ===== *)
theory Bit_Level
  imports Bit_Range
begin

text \<open>
  \<^verbatim>\<open>lsm_tree.c\<close>, the levels of the LSM tree.  A level keeps its index files in an array sorted by first
  key.  The files of level 0 may overlap, the search there takes the newest version; those of the
  other levels do not, so a binary search finds the one file that can have a key.
\<close>

section \<open>Operations\<close>

record bit_level =
  bl_level :: nat
  bl_capacity :: nat
  bl_max_size :: nat
  bl_files :: "bit_file list"

definition bit_level_init :: "nat \<Rightarrow> nat \<Rightarrow> bit_level" where
  "bit_level_init level capacity =
     \<lparr>bl_level = level, bl_capacity = capacity,
      bl_max_size = 2 * capacity + DEFAULT_LSM_LEVEL0_NR_FILE, bl_files = []\<rparr>"

definition bit_level_is_full :: "bit_level \<Rightarrow> bool" where
  "bit_level_is_full this \<longleftrightarrow> length (bl_files this) \<ge> bl_capacity this"

definition bit_file_cmp :: "bit_file \<Rightarrow> bit_file \<Rightarrow> int" where
  "bit_file_cmp file1 file2 =
     (if bf_first_key file1 = bf_first_key file2
      then int (bf_last_key file1) - int (bf_last_key file2)
      else int (bf_first_key file1) - int (bf_first_key file2))"

function bit_level_search_loop :: "bit_file list \<Rightarrow> bit_file \<Rightarrow> nat \<Rightarrow> nat \<Rightarrow> nat" where
  "bit_level_search_loop files file low high =
     (if low < high then
        let mid = low + (high - low) div 2
        in if bit_file_cmp (files ! mid) file < 0 then bit_level_search_loop files file (mid + 1) high
           else bit_level_search_loop files file low mid
      else low)"
  by pat_completeness auto
termination by (relation "measure (\<lambda>(files, file, low, high). high - low)") auto

declare bit_level_search_loop.simps [simp del]

definition bit_level_search_file :: "bit_level \<Rightarrow> bit_file \<Rightarrow> nat" where
  "bit_level_search_file this file =
     (let files = bl_files this; high = length files - 1
      in if files = [] then 0
         else if bit_file_cmp (files ! 0) file \<ge> 0 then 0
         else if bit_file_cmp (files ! high) file \<le> 0 then high + 1
         else bit_level_search_loop files file 0 high)"

definition bit_file_cmp_key :: "nat \<Rightarrow> bit_file \<Rightarrow> int" where
  "bit_file_cmp_key key file =
     (if bf_first_key file \<le> key \<and> key \<le> bf_last_key file then 0
      else if key < bf_first_key file then - 1 else 1)"

text \<open>The loop of the kernel's \<^verbatim>\<open>bsearch\<close>.\<close>

function bsearch_loop :: "('a \<Rightarrow> int) \<Rightarrow> 'a list \<Rightarrow> nat \<Rightarrow> nat \<Rightarrow> nat option" where
  "bsearch_loop cmp xs base num =
     (if num > 0 then
        let pivot = base + num div 2; r = cmp (xs ! pivot)
        in if r = 0 then Some pivot
           else if r > 0 then bsearch_loop cmp xs (pivot + 1) ((num - 1) div 2)
           else bsearch_loop cmp xs base (num div 2)
      else None)"
  by pat_completeness auto
termination by (relation "measure (\<lambda>(cmp, xs, base, num). num)") auto

declare bsearch_loop.simps [simp del]

definition bit_level_locate_file_pointer :: "bit_level \<Rightarrow> nat \<Rightarrow> nat option" where
  "bit_level_locate_file_pointer this key =
     bsearch_loop (bit_file_cmp_key key) (bl_files this) 0 (length (bl_files this))"

definition bit_level_add_file :: "bit_level \<Rightarrow> bit_file \<Rightarrow> unit result \<times> bit_level" where
  "bit_level_add_file this file =
     (if length (bl_files this) \<ge> bl_max_size this then (Inl ENOSPC, this)
      else let pos = bit_level_search_file this file
           in (Inr (), this\<lparr>bl_files := take pos (bl_files this) @ file # drop pos (bl_files this)\<rparr>))"

text \<open>
  The loop over the files of level 0 also carries the record copied to \<^verbatim>\<open>val\<close> last.  The files come
  back with the caches the search has changed.
\<close>

fun bit_level_linear_loop ::
  "'c node_cipher \<Rightarrow> (nat \<Rightarrow> 'c) \<Rightarrow> bit_file list \<Rightarrow> nat \<Rightarrow> nat \<Rightarrow> blk_record option \<Rightarrow>
   (blk_record option \<times> bit_file list) option" where
  "bit_level_linear_loop nc file [] key cur_version val = Some (val, [])"
| "bit_level_linear_loop nc file (b # bs) key cur_version val =
     (if bf_version b < cur_version \<or> key < bf_first_key b \<or> key > bf_last_key b
      then map_option (map_prod id ((#) b)) (bit_level_linear_loop nc file bs key cur_version val)
      else case bit_file_search nc file b key of
             None \<Rightarrow> None
           | Some (Inl _, b') \<Rightarrow>
               map_option (map_prod id ((#) b')) (bit_level_linear_loop nc file bs key cur_version val)
           | Some (Inr r, b') \<Rightarrow>
               map_option (map_prod id ((#) b')) (bit_level_linear_loop nc file bs key (bf_version b) (Some r)))"

definition bit_level_linear_search ::
  "'c node_cipher \<Rightarrow> (nat \<Rightarrow> 'c) \<Rightarrow> bit_level \<Rightarrow> nat \<Rightarrow> (blk_record result \<times> bit_level) option" where
  "bit_level_linear_search nc file this key =
     map_option (\<lambda>(val, files). (case val of Some r \<Rightarrow> Inr r | None \<Rightarrow> Inl ENODATA, this\<lparr>bl_files := files\<rparr>))
       (bit_level_linear_loop nc file (bl_files this) key 0 None)"

definition bit_level_search ::
  "'c node_cipher \<Rightarrow> (nat \<Rightarrow> 'c) \<Rightarrow> bit_level \<Rightarrow> nat \<Rightarrow> (blk_record result \<times> bit_level) option" where
  "bit_level_search nc file this key =
     (if bl_level this = 0 then bit_level_linear_search nc file this key
      else case bit_level_locate_file_pointer this key of
             None \<Rightarrow> Some (Inl ENODATA, this)
           | Some i \<Rightarrow>
               map_option (\<lambda>(ret, b). (ret, this\<lparr>bl_files := (bl_files this)[i := b]\<rparr>))
                 (bit_file_search nc file (bl_files this ! i) key))"

text \<open>\<open>None\<close> also where the 32-bit key wraps around and the loop never ends.\<close>

function bit_level_range_loop ::
  "'c node_cipher \<Rightarrow> (nat \<Rightarrow> 'c) \<Rightarrow> nat \<Rightarrow> nat \<Rightarrow> nat \<Rightarrow> bit_level \<times> memtable \<times> nat set \<Rightarrow>
   (bit_level \<times> memtable \<times> nat set) option" where
  "bit_level_range_loop nc file start end_key key (this, results, found) =
     (if key \<le> end_key then
        (case (if key - start \<in> found then Some (this, results, found)
               else case bit_level_locate_file_pointer this key of
                      None \<Rightarrow> Some (this, results, found)
                    | Some i \<Rightarrow>
                        map_option (\<lambda>(b, results', found'). (this\<lparr>bl_files := (bl_files this)[i := b]\<rparr>, results', found'))
                          (bit_file_range_search nc file (bl_files this ! i) start end_key results found)) of
           None \<Rightarrow> None
         | Some st \<Rightarrow> if key = 2 ^ 32 - 1 then None else bit_level_range_loop nc file start end_key (key + 1) st)
      else Some (this, results, found))"
  by pat_completeness auto
termination by (relation "measure (\<lambda>(nc, file, start, e, key, st). Suc e - key)") auto

declare bit_level_range_loop.simps [simp del]

definition bit_level_range_search ::
  "'c node_cipher \<Rightarrow> (nat \<Rightarrow> 'c) \<Rightarrow> bit_level \<Rightarrow> nat \<Rightarrow> nat \<Rightarrow> memtable \<Rightarrow> nat set \<Rightarrow>
   (bit_level \<times> memtable \<times> nat set) option" where
  "bit_level_range_search nc file this start end_key results found =
     (if bl_level this = 0 \<and> bl_files this \<noteq> []
      then map_option (\<lambda>(b, results', found'). (this\<lparr>bl_files := (bl_files this)[0 := b]\<rparr>, results', found'))
             (bit_file_range_search nc file (bl_files this ! 0) start end_key results found)
      else bit_level_range_loop nc file start end_key start (this, results, found))"

fun bit_level_remove_loop :: "bit_file list \<Rightarrow> nat \<Rightarrow> bit_file list option" where
  "bit_level_remove_loop [] fid = None"
| "bit_level_remove_loop (b # bs) fid =
     (if bf_id b = fid then Some bs else map_option ((#) b) (bit_level_remove_loop bs fid))"

definition bit_level_remove_file :: "bit_level \<Rightarrow> nat \<Rightarrow> unit result \<times> bit_level" where
  "bit_level_remove_file this fid =
     (case bit_level_remove_loop (bl_files this) fid of
        None \<Rightarrow> (Inl EINVAL, this)
      | Some files \<Rightarrow> (Inr (), this\<lparr>bl_files := files\<rparr>))"

definition bit_level_pick_demoted_files :: "bit_level \<Rightarrow> unit result \<times> bit_file list" where
  "bit_level_pick_demoted_files this =
     (if bl_files this = [] then (Inl EINVAL, [])
      else if bl_level this \<noteq> 0 then (Inr (), [bl_files this ! 0])
      else (Inr (), bl_files this))"

definition bit_level_get_first_key :: "bit_level \<Rightarrow> nat" where
  "bit_level_get_first_key this = bf_first_key (bl_files this ! 0)"

definition bit_level_get_last_key :: "bit_level \<Rightarrow> nat" where
  "bit_level_get_last_key this = bf_last_key (bl_files this ! (length (bl_files this) - 1))"

text \<open>Here \<^verbatim>\<open>low\<close>, \<^verbatim>\<open>high\<close> and \<^verbatim>\<open>mid\<close> are \<^verbatim>\<open>int\<close>.\<close>

function bit_level_lower_loop :: "bit_file list \<Rightarrow> nat \<Rightarrow> int \<Rightarrow> int \<Rightarrow> int" where
  "bit_level_lower_loop files key low high =
     (if low < high then
        let mid = low + (high - low) div 2; f = files ! nat mid
        in if bf_first_key f \<le> key \<and> key \<le> bf_last_key f then mid
           else if key < bf_first_key f then bit_level_lower_loop files key low (mid - 1)
           else bit_level_lower_loop files key (mid + 1) high
      else low)"
  by pat_completeness auto
termination by (relation "measure (\<lambda>(files, key, low, high). nat (high - low))") auto

declare bit_level_lower_loop.simps [simp del]

definition bit_level_lower_bound :: "bit_level \<Rightarrow> nat \<Rightarrow> int" where
  "bit_level_lower_bound this key =
     (let files = bl_files this; high = int (length files) - 1
      in if key < bf_first_key (files ! 0) then 0
         else if key > bf_last_key (files ! nat high) then high + 1
         else bit_level_lower_loop files key 0 high)"

definition bit_level_find_relative_files :: "bit_level \<Rightarrow> bit_file list \<Rightarrow> bit_file list" where
  "bit_level_find_relative_files this files =
     (if bl_files this = [] then []
      else
        let first_key = foldl (\<lambda>k f. min k (bf_first_key f)) 0xffffffff files;
            last_key = foldl (\<lambda>k f. max k (bf_last_key f)) 0 files
        in if last_key < bit_level_get_first_key this \<or> first_key > bit_level_get_last_key this then []
           else takeWhile (\<lambda>f. bf_first_key f \<le> last_key)
                  (drop (nat (bit_level_lower_bound this first_key)) (bl_files this)))"

section \<open>Adding and removing files\<close>

definition cmp_sorted :: "bit_file list \<Rightarrow> bool" where
  "cmp_sorted files \<longleftrightarrow> sorted_wrt (\<lambda>a b. bit_file_cmp a b \<le> 0) files"

lemma cmp_trans: "bit_file_cmp a b \<le> 0 \<Longrightarrow> bit_file_cmp b c \<le> 0 \<Longrightarrow> bit_file_cmp a c \<le> 0"
  "bit_file_cmp a b \<le> 0 \<Longrightarrow> bit_file_cmp b c < 0 \<Longrightarrow> bit_file_cmp a c < 0"
  by (auto simp: bit_file_cmp_def split: if_splits)

lemma cmp_flip: "bit_file_cmp a b \<ge> 0 \<longleftrightarrow> bit_file_cmp b a \<le> 0"
  by (auto simp: bit_file_cmp_def)

text \<open>The place found splits the files into those not above and those not below the new one.\<close>

definition splits_at :: "bit_file list \<Rightarrow> bit_file \<Rightarrow> nat \<Rightarrow> bool" where
  "splits_at files file pos \<longleftrightarrow> pos \<le> length files \<and>
     (\<forall>i < pos. bit_file_cmp (files ! i) file \<le> 0) \<and>
     (\<forall>i. pos \<le> i \<and> i < length files \<longrightarrow> bit_file_cmp (files ! i) file \<ge> 0)"

lemma cmp_sorted_nth:
  assumes "cmp_sorted files" and "i \<le> j" and "j < length files"
  shows "bit_file_cmp (files ! i) (files ! j) \<le> 0"
proof (cases "i = j")
  case True
  then show ?thesis by (simp add: bit_file_cmp_def)
next
  case False
  then show ?thesis using assms unfolding cmp_sorted_def by (simp add: sorted_wrt_iff_nth_less)
qed

lemma search_loop_splits:
  "cmp_sorted files \<Longrightarrow> high < length files \<Longrightarrow> low \<le> high \<Longrightarrow> \<forall>i < low. bit_file_cmp (files ! i) bf \<le> 0 \<Longrightarrow>
   \<forall>i. high \<le> i \<and> i < length files \<longrightarrow> bit_file_cmp (files ! i) bf \<ge> 0 \<Longrightarrow>
   splits_at files bf (bit_level_search_loop files bf low high)"
proof (induction files bf low high rule: bit_level_search_loop.induct)
  case (1 files bf low high)
  note so = 1(3)
  show ?case
  proof (cases "low < high")
    case False
    with 1 have "low = high" by simp
    with 1 False show ?thesis by (subst bit_level_search_loop.simps) (auto simp: splits_at_def)
  next
    case True
    define mid where "mid = low + (high - low) div 2"
    have m: "mid < high" "low \<le> mid" "mid < length files" using True 1(4) by (auto simp: mid_def)
    show ?thesis
    proof (cases "bit_file_cmp (files ! mid) bf < 0")
      case c: True
      have "\<forall>i < mid + 1. bit_file_cmp (files ! i) bf \<le> 0"
        using cmp_trans(1) cmp_sorted_nth [OF so _ m(3)] c by (metis less_Suc_eq_le Suc_eq_plus1 less_imp_le)
      then have "splits_at files bf (bit_level_search_loop files bf (mid + 1) high)"
        using 1(1) [OF True mid_def c so 1(4)] m 1(7) by simp
      then show ?thesis using True c by (subst bit_level_search_loop.simps) (simp add: mid_def [symmetric])
    next
      case c: False
      have "bit_file_cmp (files ! i) bf \<ge> 0" if "mid \<le> i" "i < length files" for i
        using cmp_trans(1) [of bf "files ! mid" "files ! i"] cmp_sorted_nth [OF so that] c cmp_flip by (metis not_less)
      then have "splits_at files bf (bit_level_search_loop files bf low mid)"
        using 1(2) [OF True mid_def c so m(3,2) 1(6)] by blast
      then show ?thesis using True c by (subst bit_level_search_loop.simps) (simp add: mid_def [symmetric])
    qed
  qed
qed

lemma search_file_splits:
  assumes "cmp_sorted (bl_files this)"
  shows "splits_at (bl_files this) bf (bit_level_search_file this bf)"
proof -
  let ?f = "bl_files this" and ?h = "length (bl_files this) - 1"
  consider "?f = []" | "?f \<noteq> []" "bit_file_cmp (?f ! 0) bf \<ge> 0"
    | "?f \<noteq> []" "\<not> bit_file_cmp (?f ! 0) bf \<ge> 0" "bit_file_cmp (?f ! ?h) bf \<le> 0"
    | "?f \<noteq> []" "\<not> bit_file_cmp (?f ! 0) bf \<ge> 0" "\<not> bit_file_cmp (?f ! ?h) bf \<le> 0" by blast
  then show ?thesis
  proof cases
    case 1
    then show ?thesis by (simp add: bit_level_search_file_def splits_at_def)
  next
    case 2
    have "bit_file_cmp (?f ! i) bf \<ge> 0" if "i < length ?f" for i
      using cmp_trans(1) [of bf "?f ! 0" "?f ! i"] cmp_sorted_nth [OF assms le0 that] 2(2) cmp_flip by metis
    then show ?thesis using 2 by (simp add: bit_level_search_file_def splits_at_def)
  next
    case 3
    have "bit_file_cmp (?f ! i) bf \<le> 0" if "i < length ?f" for i
      using cmp_trans(1) [OF cmp_sorted_nth [OF assms, of i ?h] 3(3)] that by simp
    then show ?thesis using 3 by (simp add: bit_level_search_file_def splits_at_def)
  next
    case 4
    have h: "bit_file_cmp (?f ! i) bf \<ge> 0" if "?h \<le> i" "i < length ?f" for i
    proof -
      have "i = ?h" using that by simp
      then show ?thesis using 4(3) by simp
    qed
    have "splits_at ?f bf (bit_level_search_loop ?f bf 0 ?h)"
      by (rule search_loop_splits [OF assms]) (use 4(1) h in auto)
    then show ?thesis using 4 by (simp add: bit_level_search_file_def Let_def)
  qed
qed

lemma cmp_sorted_insert:
  assumes "cmp_sorted files" and "splits_at files bf pos"
  shows "cmp_sorted (take pos files @ bf # drop pos files)"
proof -
  have s: "cmp_sorted (take pos files @ drop pos files)" using assms(1) by simp
  have "bit_file_cmp x bf \<le> 0" if "x \<in> set (take pos files)" for x
    using assms(2) that by (auto simp: splits_at_def in_set_conv_nth)
  moreover have "bit_file_cmp bf x \<le> 0" if "x \<in> set (drop pos files)" for x
    using assms(2) that cmp_flip by (auto simp: splits_at_def in_set_conv_nth)
  ultimately show ?thesis using s unfolding cmp_sorted_def sorted_wrt_append by auto
qed

lemma remove_loop_spec:
  "bit_level_remove_loop files fid =
     (if fid \<in> bf_id ` set files
      then Some (takeWhile (\<lambda>b. bf_id b \<noteq> fid) files @ tl (dropWhile (\<lambda>b. bf_id b \<noteq> fid) files)) else None)"
  by (induction files) auto

lemma remove_loop_distinct:
  "distinct (map bf_id files) \<Longrightarrow> fid \<in> bf_id ` set files \<Longrightarrow>
   bit_level_remove_loop files fid = Some (filter (\<lambda>b. bf_id b \<noteq> fid) files)"
proof (induction files)
  case (Cons b files)
  show ?case
  proof (cases "bf_id b = fid")
    case True
    then have "fid \<notin> bf_id ` set files" using Cons.prems(1) by simp
    then have "filter (\<lambda>b. bf_id b \<noteq> fid) files = files" by (intro filter_True) blast
    then show ?thesis using True by simp
  next
    case False
    then show ?thesis using Cons by auto
  qed
qed simp

section \<open>Binary search\<close>

definition cmp_monotone :: "('a \<Rightarrow> int) \<Rightarrow> 'a list \<Rightarrow> bool" where
  "cmp_monotone cmp xs \<longleftrightarrow> (\<forall>i j. i < j \<and> j < length xs \<longrightarrow>
     (cmp (xs ! i) \<le> 0 \<longrightarrow> cmp (xs ! j) < 0) \<and> (0 \<le> cmp (xs ! j) \<longrightarrow> 0 < cmp (xs ! i)))"

lemma bsearch_Some:
  "bsearch_loop cmp xs base num = Some p \<Longrightarrow> base \<le> p \<and> p < base + num \<and> cmp (xs ! p) = 0"
proof (induction cmp xs base num rule: bsearch_loop.induct)
  case (1 cmp xs base num)
  show ?case
  proof (cases "num > 0")
    case True
    define pivot where "pivot = base + num div 2"
    have eq: "bsearch_loop cmp xs base num = (if cmp (xs ! pivot) = 0 then Some pivot
        else if cmp (xs ! pivot) > 0 then bsearch_loop cmp xs (pivot + 1) ((num - 1) div 2)
        else bsearch_loop cmp xs base (num div 2))"
      using True by (subst bsearch_loop.simps) (simp add: Let_def pivot_def)
    have p: "pivot < base + num" "base \<le> pivot" "pivot + 1 + (num - 1) div 2 \<le> base + num"
      using True unfolding pivot_def by presburger+
    consider "cmp (xs ! pivot) = 0" | "cmp (xs ! pivot) > 0" | "cmp (xs ! pivot) < 0" by linarith
    then show ?thesis
    proof cases
      case 1
      then show ?thesis using eq \<open>bsearch_loop cmp xs base num = Some p\<close> p by auto
    next
      case 2
      then show ?thesis using eq "1.prems" "1.IH"(1) [OF True pivot_def refl] p by auto
    next
      case 3
      then show ?thesis using eq "1.prems" "1.IH"(2) [OF True pivot_def refl] by auto
    qed
  qed (use 1(3) in \<open>simp add: bsearch_loop.simps\<close>)
qed

lemma bsearch_None:
  "cmp_monotone cmp xs \<Longrightarrow> base + num \<le> length xs \<Longrightarrow> bsearch_loop cmp xs base num = None \<Longrightarrow>
   base \<le> i \<Longrightarrow> i < base + num \<Longrightarrow> cmp (xs ! i) \<noteq> 0"
proof (induction cmp xs base num rule: bsearch_loop.induct)
  case (1 cmp xs base num)
  have True: "num > 0" using "1.prems" by linarith
  define pivot where "pivot = base + num div 2"
  have eq: "bsearch_loop cmp xs base num = (if cmp (xs ! pivot) = 0 then Some pivot
      else if cmp (xs ! pivot) > 0 then bsearch_loop cmp xs (pivot + 1) ((num - 1) div 2)
      else bsearch_loop cmp xs base (num div 2))"
    using True by (subst bsearch_loop.simps) (simp add: Let_def pivot_def)
  have p: "pivot < base + num" "base \<le> pivot" "pivot + 1 + (num - 1) div 2 = base + num"
    "base + num div 2 \<le> length xs" "pivot < length xs"
    using True "1.prems"(2) unfolding pivot_def by presburger+
  have mono: "i < j \<Longrightarrow> j < length xs \<Longrightarrow> (cmp (xs ! i) \<le> 0 \<longrightarrow> cmp (xs ! j) < 0) \<and> (0 \<le> cmp (xs ! j) \<longrightarrow> 0 < cmp (xs ! i))"
    for i j using "1.prems"(1) unfolding cmp_monotone_def by blast
  consider "cmp (xs ! pivot) = 0" | "cmp (xs ! pivot) > 0" | "cmp (xs ! pivot) < 0" by linarith
  then show ?case
  proof cases
    case 1
    then show ?thesis using eq "1.prems"(3) by simp
  next
    case 2
    show ?thesis
    proof (cases "i \<le> pivot")
      case True
      then show ?thesis using mono [of i pivot] 2 p(5) by (cases "i = pivot") auto
    next
      case False
      then show ?thesis using eq "1.prems" "1.IH"(1) [OF \<open>num > 0\<close> pivot_def refl] p 2 by simp
    qed
  next
    case 3
    show ?thesis
    proof (cases "i < pivot")
      case True
      then show ?thesis using eq "1.prems" "1.IH"(2) [OF \<open>num > 0\<close> pivot_def refl] p 3 by (simp add: pivot_def)
    next
      case False
      then show ?thesis using mono [of pivot i] 3 "1.prems"(2,5) by (cases "i = pivot") auto
    qed
  qed
qed

section \<open>Well-formed levels\<close>

text \<open>
  \<open>level_wf nc f this xss\<close>: the files hold the entries \<open>xss\<close>; above level 0 the key ranges follow each
  other and no file has a key twice.
\<close>

definition entries_apart :: "(nat \<times> blk_record) list list \<Rightarrow> bool" where
  "entries_apart xss \<longleftrightarrow> sorted_wrt (\<lambda>xs ys. fst (last xs) < fst (hd ys)) xss"

definition level_wf ::
  "'c node_cipher \<Rightarrow> (nat \<Rightarrow> 'c) \<Rightarrow> bit_level \<Rightarrow> (nat \<times> blk_record) list list \<Rightarrow> bool" where
  "level_wf nc f this xss \<longleftrightarrow> list_all2 (file_ok nc f) (bl_files this) xss \<and>
     (bl_level this \<noteq> 0 \<longrightarrow> entries_apart xss \<and> (\<forall>xs \<in> set xss. distinct (map fst xs)))"

lemma level_wf_length: "level_wf nc f this xss \<Longrightarrow> length (bl_files this) = length xss"
  unfolding level_wf_def by (blast dest: list_all2_lengthD)

lemma level_wf_nth:
  assumes "level_wf nc f this xss" and "i < length xss"
  shows "file_ok nc f (bl_files this ! i) (xss ! i)"
  using assms by (simp_all add: level_wf_def list_all2_conv_all_nth)

lemma level_wf_update:
  assumes "level_wf nc f this xss" and "i < length xss" and "file_ok nc f b (xss ! i)"
  shows "level_wf nc f (this\<lparr>bl_files := (bl_files this)[i := b]\<rparr>) xss"
  using assms by (auto simp: level_wf_def list_all2_conv_all_nth nth_list_update)

lemma file_ok_range:
  assumes "file_ok nc f b xs" and "map_of xs k \<noteq> None"
  shows "bf_first_key b \<le> k" and "k \<le> bf_last_key b"
proof -
  from assms(1) have *: "sorted_wrt (\<le>) (map fst xs)" "xs \<noteq> []" "bf_first_key b = fst (hd xs)"
    "bf_last_key b = fst (last xs)" by (auto simp: file_ok_def)
  show "bf_first_key b \<le> k" "k \<le> bf_last_key b"
    using map_of_out_of_range [OF *(1,2), of k] assms(2) * by (auto simp: not_less [symmetric])
qed

lemma file_ok_keys:
  assumes "file_ok nc f b xs"
  shows "bf_first_key b = fst (hd xs)" and "bf_last_key b = fst (last xs)" and "fst (hd xs) \<le> fst (last xs)"
proof -
  from assms have *: "sorted_wrt (\<le>) (map fst xs)" "xs \<noteq> []" unfolding file_ok_def by blast+
  show "bf_first_key b = fst (hd xs)" "bf_last_key b = fst (last xs)" using assms unfolding file_ok_def by blast+
  show "fst (hd xs) \<le> fst (last xs)" using sorted_le_last [OF *(1)] *(2) by simp
qed

lemma in_concat_nth:
  assumes "e \<in> set (concat xss)"
  obtains j where "j < length xss" and "e \<in> set (xss ! j)"
  using assms by (metis UN_iff in_set_conv_nth set_concat)

lemma map_of_concat_one:
  assumes "i < length xss" and "\<And>j. j < length xss \<Longrightarrow> j \<noteq> i \<Longrightarrow> map_of (xss ! j) k = None"
  shows "map_of (concat xss) k = map_of (xss ! i) k"
  using assms
proof (induction xss arbitrary: i)
  case (Cons xs xss)
  show ?case
  proof (cases i)
    case 0
    have "map_of (concat xss) k = None"
    proof (rule map_of_None_keys)
      fix e
      assume "e \<in> set (concat xss)"
      then obtain j where "j < length xss" "e \<in> set (xss ! j)" by (rule in_concat_nth)
      with Cons.prems(2) [of "Suc j"] 0 show "fst e \<noteq> k" by (auto simp: map_of_eq_None_iff)
    qed
    then show ?thesis using 0 by (simp add: map_add_def split: option.split)
  next
    case (Suc i')
    have "map_of (concat xss) k = map_of (xss ! i') k"
      using Cons.IH [of i'] Cons.prems(1) Cons.prems(2) [of "Suc _"] Suc by auto
    moreover have "map_of xs k = None" using Cons.prems(2) [of 0] Suc by simp
    ultimately show ?thesis using Suc by (simp add: map_add_def split: option.split)
  qed
qed simp

lemma apart_nth:
  assumes wf: "level_wf nc f this xss" "bl_level this \<noteq> 0" and "i < j" "j < length xss"
  shows "bf_last_key (bl_files this ! i) < bf_first_key (bl_files this ! j)"
proof -
  have "fst (last (xss ! i)) < fst (hd (xss ! j))"
    using wf assms(3,4) by (simp add: level_wf_def entries_apart_def sorted_wrt_iff_nth_less)
  then show ?thesis
    using file_ok_keys [OF level_wf_nth [OF wf(1)]] assms(3,4) by simp
qed

lemma first_le_last:
  assumes "level_wf nc f this xss" "i < length xss"
  shows "bf_first_key (bl_files this ! i) \<le> bf_last_key (bl_files this ! i)"
  using file_ok_keys [OF level_wf_nth [OF assms]] by simp

lemma locate_monotone:
  assumes "level_wf nc f this xss" "bl_level this \<noteq> 0"
  shows "cmp_monotone (bit_file_cmp_key k) (bl_files this)"
  unfolding cmp_monotone_def
proof (intro allI impI, elim conjE)
  fix i j
  assume ij: "i < j" "j < length (bl_files this)"
  then have "length (bl_files this) = length xss" using level_wf_length [OF assms(1)] by simp
  then show "(bit_file_cmp_key k (bl_files this ! i) \<le> 0 \<longrightarrow> bit_file_cmp_key k (bl_files this ! j) < 0) \<and>
    (0 \<le> bit_file_cmp_key k (bl_files this ! j) \<longrightarrow> 0 < bit_file_cmp_key k (bl_files this ! i))"
    using apart_nth [OF assms ij(1)] first_le_last [OF assms(1), of i] first_le_last [OF assms(1), of j] ij
    by (simp add: bit_file_cmp_key_def)
qed

text \<open>The one file that can hold a key.\<close>

lemma locate_file:
  assumes wf: "level_wf nc f this xss" "bl_level this \<noteq> 0"
  shows "case bit_level_locate_file_pointer this k of
     None \<Rightarrow> map_of (concat xss) k = None
   | Some i \<Rightarrow> i < length xss \<and> map_of (concat xss) k = map_of (xss ! i) k"
proof -
  have len: "length (bl_files this) = length xss" by (rule level_wf_length [OF wf(1)])
  have zero: "bit_file_cmp_key k (bl_files this ! j) = 0" if "j < length xss" "map_of (xss ! j) k \<noteq> None" for j
    using file_ok_range [OF level_wf_nth [OF wf(1) that(1)] that(2)] by (simp add: bit_file_cmp_key_def)
  show ?thesis
  proof (cases "bit_level_locate_file_pointer this k")
    case None
    then have "\<forall>i < length xss. bit_file_cmp_key k (bl_files this ! i) \<noteq> 0"
      using bsearch_None [OF locate_monotone [OF wf], of 0 "length xss"] len
      by (simp add: bit_level_locate_file_pointer_def)
    with zero have n: "map_of (xss ! j) k = None" if "j < length xss" for j using that by blast
    have "map_of (concat xss) k = None"
    proof (rule map_of_None_keys)
      fix e
      assume "e \<in> set (concat xss)"
      then obtain j where "j < length xss" "e \<in> set (xss ! j)" by (rule in_concat_nth)
      with n [of j] show "fst e \<noteq> k" by (auto simp: map_of_eq_None_iff)
    qed
    then show ?thesis using None by simp
  next
    case (Some i)
    then have i: "i < length xss" "bit_file_cmp_key k (bl_files this ! i) = 0"
      using bsearch_Some len by (fastforce simp: bit_level_locate_file_pointer_def)+
    have "map_of (xss ! j) k = None" if "j < length xss" "j \<noteq> i" for j
    proof (rule ccontr)
      assume "map_of (xss ! j) k \<noteq> None"
      with zero that(1) have "bit_file_cmp_key k (bl_files this ! j) = 0" by blast
      with i locate_monotone [OF wf, of k] that len show False
        unfolding cmp_monotone_def by (metis less_irrefl linorder_neqE_nat order_refl)
    qed
    then show ?thesis using Some i(1) map_of_concat_one [OF i(1)] by simp
  qed
qed

lemma level_search_ok:
  assumes wf: "level_wf nc f this xss" "bl_level this \<noteq> 0"
  shows "\<exists>files. bit_level_search nc f this k = Some (lookup_result (concat xss) k, this\<lparr>bl_files := files\<rparr>) \<and>
    level_wf nc f (this\<lparr>bl_files := files\<rparr>) xss"
proof (cases "bit_level_locate_file_pointer this k")
  case None
  then show ?thesis using wf locate_file [OF wf, of k]
    by (intro exI [of _ "bl_files this"]) (simp add: bit_level_search_def lookup_result_def)
next
  case (Some i)
  then have i: "i < length xss" "map_of (concat xss) k = map_of (xss ! i) k"
    using locate_file [OF wf, of k] by simp_all
  obtain c where c: "bit_file_search nc f (bl_files this ! i) k =
      Some (lookup_result (xss ! i) k, (bl_files this ! i)\<lparr>bf_cached_leaf := c\<rparr>)"
    "file_ok nc f ((bl_files this ! i)\<lparr>bf_cached_leaf := c\<rparr>) (xss ! i)"
    using search_correct [OF level_wf_nth [OF wf(1) i(1)]] by blast
  have "lookup_result (xss ! i) k = lookup_result (concat xss) k" using i(2) by (simp add: lookup_result_def)
  then show ?thesis using c(1) Some wf(2) level_wf_update [OF wf(1) i(1) c(2)]
    by (auto simp: bit_level_search_def)
qed

lemma entry_unique:
  assumes wf: "level_wf nc f this xss" "bl_level this \<noteq> 0" and i: "i < length xss" "map_of (xss ! i) k \<noteq> None"
  shows "map_of (concat xss) k = map_of (xss ! i) k"
proof (rule map_of_concat_one [OF i(1)])
  fix j
  assume j: "j < length xss" "j \<noteq> i"
  show "map_of (xss ! j) k = None"
  proof (rule ccontr)
    assume n: "map_of (xss ! j) k \<noteq> None"
    note a = file_ok_range [OF level_wf_nth [OF wf(1) i(1)] i(2)] file_ok_range [OF level_wf_nth [OF wf(1) j(1)] n]
    show False using a apart_nth [OF wf, of i j] apart_nth [OF wf, of j i] i j by (cases "i < j") auto
  qed
qed

section \<open>Range search\<close>

definition range_mid ::
  "(nat \<times> blk_record) list \<Rightarrow> nat \<Rightarrow> nat \<Rightarrow> nat set \<Rightarrow> (nat \<rightharpoonup> blk_record) \<Rightarrow> nat set \<Rightarrow> (nat \<rightharpoonup> blk_record) \<Rightarrow> bool"
where
  "range_mid X start e F0 m0 F m \<longleftrightarrow> F0 \<subseteq> F \<and> F \<subseteq> F0 \<union> range_offsets X start {start..e} \<and>
     (\<forall>k. m k = (if k \<in> {start..e} \<and> k - start \<notin> F0 \<and> k - start \<in> F \<and> map_of X k \<noteq> None then map_of X k else m0 k))"

lemma in_range_offsets:
  assumes "start \<le> k"
  shows "k - start \<in> range_offsets X start {start..e} \<longleftrightarrow> k \<le> e \<and> map_of X k \<noteq> None"
proof -
  have "k - start \<in> range_offsets X start {start..e} \<longleftrightarrow> k \<in> {start..e} \<inter> fst ` set X"
  proof
    assume "k - start \<in> range_offsets X start {start..e}"
    then obtain j where j: "k - start = j - start" "j \<in> {start..e} \<inter> fst ` set X"
      unfolding range_offsets_def by blast
    then have "k = j" using assms by auto
    then show "k \<in> {start..e} \<inter> fst ` set X" using j by simp
  qed (simp add: range_offsets_def)
  then show ?thesis using assms by (simp add: map_of_eq_None_iff)
qed

lemma range_mid_step:
  assumes mid: "range_mid X start e F0 m0 F m"
    and sub: "\<And>k. map_of xs k \<noteq> None \<Longrightarrow> map_of X k = map_of xs k"
  shows "range_mid X start e F0 m0 (F \<union> range_offsets xs start {start..e}) (range_add xs start {start..e} F m)"
proof -
  let ?O = "range_offsets xs start {start..e}"
  have "?O \<subseteq> range_offsets X start {start..e}"
  proof
    fix x
    assume "x \<in> ?O"
    then obtain k where k: "x = k - start" "start \<le> k" unfolding range_offsets_def by auto
    then show "x \<in> range_offsets X start {start..e}"
      using \<open>x \<in> ?O\<close> in_range_offsets [OF k(2)] sub by metis
  qed
  moreover have "range_add xs start {start..e} F m k =
      (if k \<in> {start..e} \<and> k - start \<notin> F0 \<and> k - start \<in> F \<union> ?O \<and> map_of X k \<noteq> None then map_of X k else m0 k)" for k
  proof (cases "k \<in> {start..e}")
    case True
    then show ?thesis using in_range_offsets [of start k xs e] mid sub [of k]
      unfolding range_mid_def range_add_def by (auto split: if_splits)
  qed (use mid in \<open>auto simp: range_mid_def range_add_def\<close>)
  ultimately show ?thesis using mid unfolding range_mid_def by blast
qed

lemma range_mid_final:
  assumes "range_mid X start e F0 m0 F m" and "\<forall>k. start \<le> k \<and> k \<le> e \<and> map_of X k \<noteq> None \<longrightarrow> k - start \<in> F"
  shows "m = range_add X start {start..e} F0 m0" and "F = F0 \<union> range_offsets X start {start..e}"
proof -
  show "m = range_add X start {start..e} F0 m0"
    using assms unfolding range_mid_def range_add_def by (auto simp: fun_eq_iff)
  have "range_offsets X start {start..e} \<subseteq> F"
    using assms(2) unfolding range_offsets_def image_subset_iff by (simp add: map_of_eq_None_iff)
  then show "F = F0 \<union> range_offsets X start {start..e}" using assms(1) unfolding range_mid_def by blast
qed

lemma level_range_loop_ok:
  assumes e: "e < 2 ^ 32 - 1" and keys: "\<forall>xs \<in> set xss. \<forall>x \<in> set xs. key_ok (fst x)"
  shows "level_wf nc f this xss \<Longrightarrow> bl_level this \<noteq> 0 \<Longrightarrow> memtable_inv m \<Longrightarrow> start \<le> key \<Longrightarrow>
    range_mid (concat xss) start e F0 m0 F (memtable_map m) \<Longrightarrow>
    \<forall>k. start \<le> k \<and> k < key \<and> k \<le> e \<and> map_of (concat xss) k \<noteq> None \<longrightarrow> k - start \<in> F \<Longrightarrow>
    \<exists>files m' F'. bit_level_range_loop nc f start e key (this, m, F) = Some (this\<lparr>bl_files := files\<rparr>, m', F') \<and>
      level_wf nc f (this\<lparr>bl_files := files\<rparr>) xss \<and> memtable_inv m' \<and>
      memtable_map m' = range_add (concat xss) start {start..e} F0 m0 \<and>
      F' = F0 \<union> range_offsets (concat xss) start {start..e}"
proof (induction "Suc e - key" arbitrary: key this m F rule: less_induct)
  case less
  show ?case
  proof (cases "key \<le> e")
    case False
    with less.prems(6) have "\<forall>k. start \<le> k \<and> k \<le> e \<and> map_of (concat xss) k \<noteq> None \<longrightarrow> k - start \<in> F" by auto
    from range_mid_final [OF less.prems(5) this] show ?thesis using False less.prems(1,3)
      by (intro exI [of _ "bl_files this"]) (simp add: bit_level_range_loop.simps)
  next
    case True
    have step: "\<exists>files m1 F1. (if key - start \<in> F then Some (this, m, F)
               else case bit_level_locate_file_pointer this key of
                      None \<Rightarrow> Some (this, m, F)
                    | Some i \<Rightarrow>
                        map_option (\<lambda>(b, results', found'). (this\<lparr>bl_files := (bl_files this)[i := b]\<rparr>, results', found'))
                          (bit_file_range_search nc f (bl_files this ! i) start e m F)) =
          Some (this\<lparr>bl_files := files\<rparr>, m1, F1) \<and>
        level_wf nc f (this\<lparr>bl_files := files\<rparr>) xss \<and> memtable_inv m1 \<and>
        range_mid (concat xss) start e F0 m0 F1 (memtable_map m1) \<and> F \<subseteq> F1 \<and>
        (map_of (concat xss) key \<noteq> None \<longrightarrow> key - start \<in> F1)"
    proof (cases "key - start \<in> F \<or> bit_level_locate_file_pointer this key = None")
      case True
      then show ?thesis using less.prems locate_file [OF less.prems(1,2), of key]
        by (intro exI [of _ "bl_files this"] exI [of _ m] exI [of _ F]) auto
    next
      case False
      then obtain i where loc: "bit_level_locate_file_pointer this key = Some i" "key - start \<notin> F" by blast
      then have i: "i < length xss" "map_of (concat xss) key = map_of (xss ! i) key"
        using locate_file [OF less.prems(1,2), of key] by simp_all
      have d: "distinct (map fst (xss ! i))" "\<forall>x \<in> set (xss ! i). key_ok (fst x)"
        using less.prems(1,2) nth_mem [OF i(1)] keys unfolding level_wf_def by blast+
      obtain b m1 F1 where r: "bit_file_range_search nc f (bl_files this ! i) start e m F = Some (b, m1, F1)"
        "file_ok nc f b (xss ! i)" "memtable_inv m1"
        "memtable_map m1 = range_add (xss ! i) start {start..e} F (memtable_map m)"
        "F1 = F \<union> range_offsets (xss ! i) start {start..e}"
        using range_search_ok [OF level_wf_nth [OF less.prems(1) i(1)] d(1) less.prems(3) d(2)] by blast
      have "range_mid (concat xss) start e F0 m0 F1 (memtable_map m1)"
        unfolding r(4,5) by (rule range_mid_step [OF less.prems(5)]) (rule entry_unique [OF less.prems(1,2) i(1)])
      moreover have "map_of (concat xss) key \<noteq> None \<longrightarrow> key - start \<in> F1"
        using i(2) True in_range_offsets [OF less.prems(4), of "xss ! i" e] r(5) by auto
      ultimately show ?thesis using loc r(1,3,5) level_wf_update [OF less.prems(1) i(1) r(2)] by auto
    qed
    then obtain files m1 F1 where st: "(if key - start \<in> F then Some (this, m, F)
               else case bit_level_locate_file_pointer this key of
                      None \<Rightarrow> Some (this, m, F)
                    | Some i \<Rightarrow>
                        map_option (\<lambda>(b, results', found'). (this\<lparr>bl_files := (bl_files this)[i := b]\<rparr>, results', found'))
                          (bit_file_range_search nc f (bl_files this ! i) start e m F)) =
          Some (this\<lparr>bl_files := files\<rparr>, m1, F1)"
      and st': "level_wf nc f (this\<lparr>bl_files := files\<rparr>) xss" "memtable_inv m1"
        "range_mid (concat xss) start e F0 m0 F1 (memtable_map m1)" "F \<subseteq> F1"
        "map_of (concat xss) key \<noteq> None \<longrightarrow> key - start \<in> F1" by blast
    have un: "bit_level_range_loop nc f start e key (this, m, F) =
        bit_level_range_loop nc f start e (key + 1) (this\<lparr>bl_files := files\<rparr>, m1, F1)"
      using True e by (subst bit_level_range_loop.simps) (simp add: st)
    have "\<forall>k. start \<le> k \<and> k < key + 1 \<and> k \<le> e \<and> map_of (concat xss) k \<noteq> None \<longrightarrow> k - start \<in> F1"
      using less.prems(6) st'(4,5) by (auto simp: less_Suc_eq)
    then show ?thesis
      using less.hyps [OF _ st'(1) _ st'(2) _ st'(3)] un less.prems(2,4) True by fastforce
  qed
qed

lemma level_range_search_ok:
  assumes "level_wf nc f this xss" and "bl_level this \<noteq> 0" and "memtable_inv m" and "e < 2 ^ 32 - 1"
    and "\<forall>xs \<in> set xss. \<forall>x \<in> set xs. key_ok (fst x)"
  shows "\<exists>files m' F'. bit_level_range_search nc f this start e m F = Some (this\<lparr>bl_files := files\<rparr>, m', F') \<and>
      level_wf nc f (this\<lparr>bl_files := files\<rparr>) xss \<and> memtable_inv m' \<and>
      memtable_map m' = range_add (concat xss) start {start..e} F (memtable_map m) \<and>
      F' = F \<union> range_offsets (concat xss) start {start..e}"
proof -
  have "range_mid (concat xss) start e F (memtable_map m) F (memtable_map m)" by (auto simp: range_mid_def)
  moreover have "\<forall>k. start \<le> k \<and> k < start \<and> k \<le> e \<and> map_of (concat xss) k \<noteq> None \<longrightarrow> k - start \<in> F" by auto
  ultimately show ?thesis using level_range_loop_ok [OF assms(4,5,1,2,3) order_refl]
    unfolding bit_level_range_search_def using assms(2) by simp
qed

section \<open>Level 0: the newest version\<close>

fun newest :: "(nat \<times> (nat \<times> blk_record) list) list \<Rightarrow> nat \<Rightarrow> nat \<Rightarrow> blk_record option \<Rightarrow> blk_record option" where
  "newest [] k cur val = val"
| "newest ((v, xs) # L) k cur val =
     (if v < cur then newest L k cur val
      else case map_of xs k of None \<Rightarrow> newest L k cur val | Some r \<Rightarrow> newest L k v (Some r))"

lemma linear_loop_ok:
  "list_all2 (file_ok nc f) bs xss \<Longrightarrow>
   \<exists>bs'. bit_level_linear_loop nc f bs k cur val = Some (newest (zip (map bf_version bs) xss) k cur val, bs') \<and>
     list_all2 (file_ok nc f) bs' xss \<and> map bf_version bs' = map bf_version bs"
proof (induction bs xss arbitrary: cur val rule: list_all2_induct)
  case (Cons b bs xs xss)
  show ?case
  proof (cases "bf_version b < cur \<or> k < bf_first_key b \<or> k > bf_last_key b")
    case True
    have "newest (zip (map bf_version (b # bs)) (xs # xss)) k cur val = newest (zip (map bf_version bs) xss) k cur val"
    proof (cases "bf_version b < cur")
      case False
      then have "map_of xs k = None" using True file_ok_range [OF Cons.hyps(1), of k] by force
      then show ?thesis using False by simp
    qed simp
    moreover obtain bs' where "bit_level_linear_loop nc f bs k cur val =
        Some (newest (zip (map bf_version bs) xss) k cur val, bs')" "list_all2 (file_ok nc f) bs' xss"
      "map bf_version bs' = map bf_version bs"
      using Cons.IH by blast
    ultimately show ?thesis using True Cons.hyps(1) by auto
  next
    case False
    obtain c where c: "bit_file_search nc f b k = Some (lookup_result xs k, b\<lparr>bf_cached_leaf := c\<rparr>)"
      "file_ok nc f (b\<lparr>bf_cached_leaf := c\<rparr>) xs" using search_correct [OF Cons.hyps(1)] by blast
    show ?thesis
    proof (cases "map_of xs k")
      case None
      then show ?thesis using False c Cons.IH [of cur val] by (auto simp: lookup_result_def)
    next
      case (Some r)
      then show ?thesis using False c Cons.IH [of "bf_version b" "Some r"] by (auto simp: lookup_result_def)
    qed
  qed
qed simp

lemma newest_cases:
  "(newest L k cur val = val \<and> (\<forall>v xs. (v, xs) \<in> set L \<and> cur \<le> v \<longrightarrow> map_of xs k = None)) \<or>
   (\<exists>v xs. (v, xs) \<in> set L \<and> newest L k cur val = map_of xs k \<and> map_of xs k \<noteq> None \<and> cur \<le> v \<and>
      (\<forall>v' xs'. (v', xs') \<in> set L \<and> map_of xs' k \<noteq> None \<longrightarrow> v' \<le> v))"
proof (induction L arbitrary: cur val)
  case (Cons a L)
  obtain v xs where a: "a = (v, xs)" by fastforce
  show ?case
  proof (cases "v < cur \<or> map_of xs k = None")
    case True
    then have "newest (a # L) k cur val = newest L k cur val" using a by auto
    with Cons.IH [of cur val] show ?thesis
    proof (elim disjE exE conjE)
      fix v' xs'
      assume *: "(v', xs') \<in> set L" "newest L k cur val = map_of xs' k" "map_of xs' k \<noteq> None" "cur \<le> v'"
        "\<forall>v'' xs''. (v'', xs'') \<in> set L \<and> map_of xs'' k \<noteq> None \<longrightarrow> v'' \<le> v'"
        "newest (a # L) k cur val = newest L k cur val"
      then show ?thesis using True a by (intro disjI2 exI [of _ v'] exI [of _ xs']) auto
    qed (use True a in auto)
  next
    case False
    then obtain x where x: "map_of xs k = Some x" by blast
    have eq: "newest (a # L) k cur val = newest L k v (Some x)" using False a x by auto
    from Cons.IH [of v "Some x"] show ?thesis
    proof (elim disjE exE conjE)
      assume *: "newest L k v (Some x) = Some x" "\<forall>v' xs'. (v', xs') \<in> set L \<and> v \<le> v' \<longrightarrow> map_of xs' k = None"
      then have "\<forall>v' xs'. (v', xs') \<in> set (a # L) \<and> map_of xs' k \<noteq> None \<longrightarrow> v' \<le> v"
        using a by (metis linear prod.inject set_ConsD)
      then show ?thesis using * a x False eq by (intro disjI2 exI [of _ v] exI [of _ xs]) auto
    next
      fix v' xs'
      assume *: "(v', xs') \<in> set L" "newest L k v (Some x) = map_of xs' k" "map_of xs' k \<noteq> None" "v \<le> v'"
        "\<forall>v'' xs''. (v'', xs'') \<in> set L \<and> map_of xs'' k \<noteq> None \<longrightarrow> v'' \<le> v'"
      then show ?thesis using False a eq by (intro disjI2 exI [of _ v'] exI [of _ xs']) auto
    qed
  qed
qed simp

section \<open>Files that meet a range of keys\<close>

lemma lower_loop_ok:
  assumes wf: "level_wf nc f this xss" "bl_level this \<noteq> 0"
  shows "0 \<le> low \<Longrightarrow> high < int (length xss) \<Longrightarrow> \<forall>i < nat low. bf_last_key (bl_files this ! i) < key \<Longrightarrow>
    0 \<le> bit_level_lower_loop (bl_files this) key low high \<and>
    (\<forall>i < nat (bit_level_lower_loop (bl_files this) key low high). bf_last_key (bl_files this ! i) < key)"
proof (induction "nat (high - low)" arbitrary: low high rule: less_induct)
  case less
  show ?case
  proof (cases "low < high")
    case False
    then show ?thesis using less.prems by (simp add: bit_level_lower_loop.simps)
  next
    case True
    define mid where "mid = low + (high - low) div 2"
    have m: "low \<le> mid" "mid < high" "nat (mid - 1 - low) < nat (high - low)" "nat (high - (mid + 1)) < nat (high - low)"
      using True unfolding mid_def by (simp_all add: field_simps)
    let ?f = "bl_files this ! nat mid"
    have eq: "bit_level_lower_loop (bl_files this) key low high =
        (if bf_first_key ?f \<le> key \<and> key \<le> bf_last_key ?f then mid
         else if key < bf_first_key ?f then bit_level_lower_loop (bl_files this) key low (mid - 1)
         else bit_level_lower_loop (bl_files this) key (mid + 1) high)"
      using True by (subst bit_level_lower_loop.simps) (simp add: Let_def mid_def)
    have mi: "nat mid < length xss" using m less.prems(1,2) by linarith
    have before: "bf_last_key (bl_files this ! i) < bf_first_key ?f" if "i < nat mid" for i
      using apart_nth [OF wf that mi] .
    consider "bf_first_key ?f \<le> key \<and> key \<le> bf_last_key ?f" | "key < bf_first_key ?f"
      | "\<not> key < bf_first_key ?f" "bf_last_key ?f < key" by linarith
    then show ?thesis
    proof cases
      case 1
      then show ?thesis using eq before m(1) less.prems(1) by (auto intro: less_le_trans)
    next
      case 2
      have "0 \<le> bit_level_lower_loop (bl_files this) key low (mid - 1) \<and>
        (\<forall>i < nat (bit_level_lower_loop (bl_files this) key low (mid - 1)). bf_last_key (bl_files this ! i) < key)"
        using less.hyps [OF m(3) less.prems(1) _ less.prems(3)] m(2) less.prems(2) by simp
      then show ?thesis using eq 2 by simp
    next
      case 3
      have "\<forall>i < nat (mid + 1). bf_last_key (bl_files this ! i) < key"
      proof (intro allI impI)
        fix i
        assume "i < nat (mid + 1)"
        then have "i < nat mid \<or> i = nat mid" using m(1) less.prems(1) by linarith
        then show "bf_last_key (bl_files this ! i) < key"
          using before first_le_last [OF wf(1) mi] 3 by fastforce
      qed
      then have "0 \<le> bit_level_lower_loop (bl_files this) key (mid + 1) high \<and>
        (\<forall>i < nat (bit_level_lower_loop (bl_files this) key (mid + 1) high). bf_last_key (bl_files this ! i) < key)"
        using less.hyps [OF m(4) _ less.prems(2)] m(1) less.prems(1) by simp
      then show ?thesis using eq 3 by simp
    qed
  qed
qed

lemma lower_bound_ok:
  assumes wf: "level_wf nc f this xss" "bl_level this \<noteq> 0" and ne: "xss \<noteq> []" and "i < nat (bit_level_lower_bound this key)"
    and "i < length xss"
  shows "bf_last_key (bl_files this ! i) < key"
proof -
  let ?h = "int (length (bl_files this)) - 1"
  have len: "length (bl_files this) = length xss" by (rule level_wf_length [OF wf(1)])
  show ?thesis
  proof (cases "key > bf_last_key (bl_files this ! nat ?h)")
    case True
    have h: "nat ?h = length xss - 1" "length xss - 1 < length xss" using len ne by (auto simp: nat_diff_distrib)
    have "bf_last_key (bl_files this ! i) \<le> bf_last_key (bl_files this ! (length xss - 1))"
    proof (cases "i = length xss - 1")
      case False
      then have "i < length xss - 1" using assms(5) by simp
      from apart_nth [OF wf this h(2)] first_le_last [OF wf(1) h(2)] show ?thesis by simp
    qed simp
    then show ?thesis using True h(1) by simp
  next
    case False
    have "\<not> key < bf_first_key (bl_files this ! 0)"
      using assms(4) by (auto simp: bit_level_lower_bound_def Let_def split: if_splits)
    then have "bit_level_lower_bound this key = bit_level_lower_loop (bl_files this) key 0 ?h"
      using False by (simp add: bit_level_lower_bound_def Let_def)
    then show ?thesis using lower_loop_ok [OF wf, of 0 ?h key] assms(4) len by simp
  qed
qed

lemma foldl_min_le:
  fixes a :: nat
  shows "foldl (\<lambda>k x. min k (h x)) a xs \<le> a" and "x \<in> set xs \<Longrightarrow> foldl (\<lambda>k x. min k (h x)) a xs \<le> h x"
proof -
  show le: "foldl (\<lambda>k x. min k (h x)) a xs \<le> a" for a xs
  proof (induction xs arbitrary: a)
    case (Cons y ys)
    from Cons.IH [of "min a (h y)"] show ?case by simp
  qed simp
  show "x \<in> set xs \<Longrightarrow> foldl (\<lambda>k x. min k (h x)) a xs \<le> h x"
  proof (induction xs arbitrary: a)
    case (Cons y ys)
    then show ?case using le [of "min a (h y)" ys] by auto
  qed simp
qed

lemma foldl_max_ge:
  fixes a :: nat
  shows "a \<le> foldl (\<lambda>k x. max k (h x)) a xs" and "x \<in> set xs \<Longrightarrow> h x \<le> foldl (\<lambda>k x. max k (h x)) a xs"
proof -
  show ge: "a \<le> foldl (\<lambda>k x. max k (h x)) a xs" for a xs
  proof (induction xs arbitrary: a)
    case (Cons y ys)
    from Cons.IH [of "max a (h y)"] show ?case by simp
  qed simp
  show "x \<in> set xs \<Longrightarrow> h x \<le> foldl (\<lambda>k x. max k (h x)) a xs"
  proof (induction xs arbitrary: a)
    case (Cons y ys)
    then show ?case using ge [of "max a (h y)" ys] by auto
  qed simp
qed

lemma apart_members:
  assumes "level_wf nc f this xss" "bl_level this \<noteq> 0" and "bl_files this = A @ b # B"
  shows "a \<in> set A \<Longrightarrow> bf_last_key a < bf_first_key b" and "c \<in> set B \<Longrightarrow> bf_last_key b < bf_first_key c"
proof -
  have len: "length xss = length A + Suc (length B)" using level_wf_length [OF assms(1)] assms(3) by simp
  show "bf_last_key a < bf_first_key b" if a: "a \<in> set A"
  proof -
    obtain i where "i < length A" "a = A ! i" using a by (auto simp: in_set_conv_nth)
    then show ?thesis using apart_nth [OF assms(1,2), of i "length A"] assms(3) len by (simp add: nth_append)
  qed
  show "bf_last_key b < bf_first_key c" if c: "c \<in> set B"
  proof -
    obtain i where "i < length B" "c = B ! i" using c by (auto simp: in_set_conv_nth)
    then show ?thesis using apart_nth [OF assms(1,2), of "length A" "length A + Suc i"] assms(3) len
      by (simp add: nth_append)
  qed
qed

lemma members_ordered:
  assumes "level_wf nc f this xss" and "b \<in> set (bl_files this)"
  shows "bf_first_key b \<le> bf_last_key b"
proof -
  obtain i where "i < length (bl_files this)" "b = bl_files this ! i" using assms(2) by (auto simp: in_set_conv_nth)
  then show ?thesis using first_le_last [OF assms(1), of i] level_wf_length [OF assms(1)] by simp
qed

text \<open>The relatives are a stretch of the level; the files before and after keep clear of the files given.\<close>

lemma relatives_split:
  assumes wf: "level_wf nc f this xss" "bl_level this \<noteq> 0"
  shows "\<exists>A B. bl_files this = A @ bit_level_find_relative_files this fs @ B \<and>
    (\<forall>a \<in> set A. \<forall>g \<in> set fs. bf_last_key a < bf_first_key g) \<and>
    (\<forall>b \<in> set B. \<forall>g \<in> set fs. bf_last_key g < bf_first_key b)"
proof (cases "bl_files this = []")
  case True
  then show ?thesis by (simp add: bit_level_find_relative_files_def)
next
  case False
  define lo where "lo = foldl (\<lambda>k g. min k (bf_first_key g)) 0xffffffff fs"
  define hi where "hi = foldl (\<lambda>k g. max k (bf_last_key g)) 0 fs"
  have lo: "lo \<le> bf_first_key g" and hi: "bf_last_key g \<le> hi" if "g \<in> set fs" for g
    using foldl_min_le(2) [OF that] foldl_max_ge(2) [OF that] by (simp_all add: lo_def hi_def)
  let ?F = "bl_files this" and ?r = "nat (bit_level_lower_bound this lo)"
  let ?P = "\<lambda>g. bf_first_key g \<le> hi"
  have len: "length ?F = length xss" by (rule level_wf_length [OF wf(1)])
  have ne: "xss \<noteq> []" using False len by auto
  consider "hi < bit_level_get_first_key this" | "bit_level_get_last_key this < lo"
    | "\<not> hi < bit_level_get_first_key this" "\<not> bit_level_get_last_key this < lo" by blast
  then show ?thesis
  proof cases
    case 1
    obtain b B where F: "?F = b # B" using False by (cases ?F) auto
    have "hi < bf_first_key c" if "c \<in> set ?F" for c
      using apart_members(2) [OF wf, of "[]" b B c] members_ordered [OF wf(1), of b] that F 1
      by (auto simp: bit_level_get_first_key_def)
    then have "\<forall>b \<in> set ?F. \<forall>g \<in> set fs. bf_last_key g < bf_first_key b" using hi by (meson le_less_trans)
    moreover have "bit_level_find_relative_files this fs = []"
      using 1 by (simp add: bit_level_find_relative_files_def Let_def lo_def hi_def)
    ultimately show ?thesis by (intro exI [of _ "[]"] exI [of _ ?F]) simp
  next
    case 2
    obtain A b where F: "?F = A @ [b]" using False by (metis rev_exhaust)
    have "bf_last_key c < lo" if "c \<in> set ?F" for c
      using apart_members(1) [OF wf, of A b "[]" c] members_ordered [OF wf(1), of b] that F 2
      by (auto simp: bit_level_get_last_key_def)
    then have "\<forall>a \<in> set ?F. \<forall>g \<in> set fs. bf_last_key a < bf_first_key g" using lo by (meson less_le_trans)
    moreover have "bit_level_find_relative_files this fs = []"
      using 2 by (simp add: bit_level_find_relative_files_def Let_def lo_def hi_def)
    ultimately show ?thesis by (intro exI [of _ ?F] exI [of _ "[]"]) simp
  next
    case 3
    let ?D = "drop ?r ?F"
    have R: "bit_level_find_relative_files this fs = takeWhile ?P ?D"
      using 3 False by (simp add: bit_level_find_relative_files_def Let_def lo_def hi_def)
    have "bf_last_key a < lo" if "a \<in> set (take ?r ?F)" for a
      using that lower_bound_ok [OF wf ne, of _ lo] len by (auto simp: in_set_conv_nth)
    then have A: "\<forall>a \<in> set (take ?r ?F). \<forall>g \<in> set fs. bf_last_key a < bf_first_key g"
      using lo by (meson less_le_trans)
    have "hi < bf_first_key c" if "c \<in> set (dropWhile ?P ?D)" for c
    proof -
      have "\<exists>b B. W = b # B" if "c \<in> set W" for W using that by (cases W) auto
      with that obtain b B where b: "dropWhile ?P ?D = b # B" by blast
      then have "hi < bf_first_key b" by (metis dropWhile_eq_Cons_conv not_le)
      moreover have F: "?F = (take ?r ?F @ takeWhile ?P ?D) @ b # B"
      proof -
        have "take ?r ?F @ (takeWhile ?P ?D @ dropWhile ?P ?D) = ?F"
          by (simp only: takeWhile_dropWhile_id append_take_drop_id)
        then show ?thesis unfolding b by simp
      qed
      moreover have "b \<in> set ?F" by (subst F) simp
      moreover have "c = b \<or> c \<in> set B" using that b by simp
      ultimately show ?thesis
        using apart_members(2) [OF wf F, of c] members_ordered [OF wf(1), of b] by auto
    qed
    then have "\<forall>b \<in> set (dropWhile ?P ?D). \<forall>g \<in> set fs. bf_last_key g < bf_first_key b"
      using hi by (meson le_less_trans)
    moreover have "?F = take ?r ?F @ takeWhile ?P ?D @ dropWhile ?P ?D" by simp
    ultimately show ?thesis using A unfolding R by blast
  qed
qed

section \<open>Properties\<close>

text \<open>
  A search of a level answers with what its files hold for the block.  Above level 0, where the
  files do not overlap, it is a lookup in all their entries; in level 0 it is the record of the newest
  file that has the block, \<^verbatim>\<open>ENODATA\<close> if none has.
\<close>

theorem level_search_finds:
  assumes "level_wf nc f this xss"
  shows "\<exists>r this'. bit_level_search nc f this k = Some (r, this') \<and>
    (if bl_level this \<noteq> 0 then r = lookup_result (concat xss) k
     else (r = Inl ENODATA \<and> map_of (concat xss) k = None) \<or>
       (\<exists>i < length xss. r = lookup_result (xss ! i) k \<and> map_of (xss ! i) k \<noteq> None \<and>
          (\<forall>j < length xss. map_of (xss ! j) k \<noteq> None \<longrightarrow>
             bf_version (bl_files this ! j) \<le> bf_version (bl_files this ! i))))"
proof (cases "bl_level this = 0")
  case False
  then show ?thesis using level_search_ok [OF assms False, of k] by auto
next
  case True
  let ?L = "zip (map bf_version (bl_files this)) xss"
  let ?n = "newest ?L k 0 None"
  have len: "length (bl_files this) = length xss" by (rule level_wf_length [OF assms])
  have "list_all2 (file_ok nc f) (bl_files this) xss" using assms by (simp add: level_wf_def)
  from linear_loop_ok [OF this, of k 0 None] obtain this' where
    s: "bit_level_search nc f this k = Some (case ?n of Some r \<Rightarrow> Inr r | None \<Rightarrow> Inl ENODATA, this')"
    using True by (auto simp: bit_level_search_def bit_level_linear_search_def)
  have nth: "(v, xs) \<in> set ?L \<longleftrightarrow> (\<exists>i < length xss. v = bf_version (bl_files this ! i) \<and> xs = xss ! i)" for v xs
    using len unfolding set_zip by (force intro: exI)
  from newest_cases [of ?L k 0 None]
  have "(?n = None \<and> (\<forall>i < length xss. map_of (xss ! i) k = None)) \<or>
    (\<exists>i < length xss. ?n = map_of (xss ! i) k \<and> map_of (xss ! i) k \<noteq> None \<and>
       (\<forall>j < length xss. map_of (xss ! j) k \<noteq> None \<longrightarrow>
          bf_version (bl_files this ! j) \<le> bf_version (bl_files this ! i)))"
    unfolding nth by (elim disjE) (blast, blast)
  then show ?thesis
  proof (elim disjE exE conjE)
    assume n: "?n = None" "\<forall>i < length xss. map_of (xss ! i) k = None"
    have "map_of (concat xss) k = None"
    proof (rule map_of_None_keys)
      fix e
      assume "e \<in> set (concat xss)"
      then obtain j where "j < length xss" "e \<in> set (xss ! j)" by (rule in_concat_nth)
      with n(2) show "fst e \<noteq> k" by (auto simp: map_of_eq_None_iff)
    qed
    then show ?thesis using True s n(1) by simp
  next
    fix i
    assume i: "i < length xss" "?n = map_of (xss ! i) k" "map_of (xss ! i) k \<noteq> None"
      "\<forall>j < length xss. map_of (xss ! j) k \<noteq> None \<longrightarrow> bf_version (bl_files this ! j) \<le> bf_version (bl_files this ! i)"
    then have "(case ?n of Some r \<Rightarrow> Inr r | None \<Rightarrow> Inl ENODATA) = lookup_result (xss ! i) k"
      by (auto simp: lookup_result_def)
    then show ?thesis using True s i by auto
  qed
qed

definition sample_level :: "(bit_file \<times> (nat \<Rightarrow> bit_node)) \<Rightarrow> bit_level" where
  "sample_level bf = (bit_level_init 1 10)\<lparr>bl_files := [fst bf]\<rparr>"

theorem level_search_finds_witness:
  "\<exists>b bf f' this'. bit_build plain_cipher (bit_builder_init (\<lambda>_. Inner_Node []) [] (\<lambda>_. Inner_Node []) 0 0 0 1)
       (take 2 sample_entries) = Some b \<and> bit_builder_complete plain_cipher b = (bf, f') \<and>
     bit_level_search plain_cipher f' (sample_level (bf, f')) 7 =
       Some (Inr \<lparr>rec_pba = 11, rec_mac = [], rec_key = []\<rparr>, this')"
proof -
  let ?xs = "take 2 sample_entries"
  have x: "?xs \<noteq> []" "sorted_wrt (\<le>) (map fst ?xs)" "length ?xs \<le> DEFAULT_LSM_FILE_CAPACITY" "distinct (map fst ?xs)"
    by (simp_all add: sample_entries_def layout_consts)
  obtain b bf f' where b: "bit_build plain_cipher (bit_builder_init (\<lambda>_. Inner_Node []) [] (\<lambda>_. Inner_Node []) 0 0 0 1)
       ?xs = Some b" "bit_builder_complete plain_cipher b = (bf, f')" "file_ok plain_cipher f' bf ?xs"
    by (rule build_complete [OF plain_cipher_ok x(1-3)])
  have "level_wf plain_cipher f' (sample_level (bf, f')) [?xs]"
    using b(3) x(4) by (simp add: level_wf_def sample_level_def entries_apart_def)
  from level_search_finds [OF this, of 7] have
    "\<exists>this'. bit_level_search plain_cipher f' (sample_level (bf, f')) 7 = Some (lookup_result ?xs 7, this')"
    by (auto simp: sample_level_def bit_level_init_def)
  then show ?thesis using b(1,2) by (auto simp: sample_entries_def lookup_result_def)
qed

text \<open>
  The files a compaction merges with: they are a stretch of the level, and every file outside
  that stretch lies strictly below or strictly above all of the given files.
\<close>

theorem level_relatives_cover:
  assumes "level_wf nc f this xss" and "bl_level this \<noteq> 0"
  shows "\<exists>A B. bl_files this = A @ bit_level_find_relative_files this fs @ B \<and>
    (\<forall>a \<in> set A. \<forall>g \<in> set fs. bf_last_key a < bf_first_key g) \<and>
    (\<forall>b \<in> set B. \<forall>g \<in> set fs. bf_last_key g < bf_first_key b)"
  by (rule relatives_split [OF assms])

theorem level_relatives_cover_witness:
  "\<exists>b bf f' A B. bit_build plain_cipher (bit_builder_init (\<lambda>_. Inner_Node []) [] (\<lambda>_. Inner_Node []) 0 0 0 1)
       (take 2 sample_entries) = Some b \<and> bit_builder_complete plain_cipher b = (bf, f') \<and>
     [bf] = A @ bit_level_find_relative_files (sample_level (bf, f')) [bf] @ B \<and> A = [] \<and> B = []"
proof -
  let ?xs = "take 2 sample_entries"
  have x: "?xs \<noteq> []" "sorted_wrt (\<le>) (map fst ?xs)" "length ?xs \<le> DEFAULT_LSM_FILE_CAPACITY" "distinct (map fst ?xs)"
    by (simp_all add: sample_entries_def layout_consts)
  obtain b bf f' where b: "bit_build plain_cipher (bit_builder_init (\<lambda>_. Inner_Node []) [] (\<lambda>_. Inner_Node []) 0 0 0 1)
       ?xs = Some b" "bit_builder_complete plain_cipher b = (bf, f')" "file_ok plain_cipher f' bf ?xs"
    by (rule build_complete [OF plain_cipher_ok x(1-3)])
  have wf: "level_wf plain_cipher f' (sample_level (bf, f')) [?xs]"
    using b(3) x(4) by (simp add: level_wf_def sample_level_def entries_apart_def)
  have lv: "bl_files (sample_level (bf, f')) = [bf]" "bl_level (sample_level (bf, f')) \<noteq> 0"
    by (simp_all add: sample_level_def bit_level_init_def)
  have le: "bf_first_key bf \<le> bf_last_key bf" using file_ok_keys [OF b(3)] by simp
  from level_relatives_cover [OF wf lv(2), of "[bf]"] obtain A B where
    AB: "[bf] = A @ bit_level_find_relative_files (sample_level (bf, f')) [bf] @ B"
      "\<forall>a \<in> set A. bf_last_key a < bf_first_key bf" "\<forall>c \<in> set B. bf_last_key bf < bf_first_key c"
    using lv(1) by auto
  have "set A \<subseteq> {bf}" "set B \<subseteq> {bf}" using arg_cong [OF AB(1), of set] by auto
  then have "A = []" using AB(2) le by (cases A) auto
  moreover have "B = []" using \<open>set B \<subseteq> {bf}\<close> AB(3) le by (cases B) auto
  ultimately show ?thesis using b(1,2) AB(1) by blast
qed

text \<open>
  C31. Adding a file keeps the files sorted and only inserts; a full level refuses with \<^verbatim>\<open>ENOSPC\<close> and
  stays as it is.  Removing a file by its number takes out that one.
\<close>

theorem level_add_remove:
  assumes "cmp_sorted (bl_files this)"
  shows "if length (bl_files this) < bl_max_size this
     then (\<exists>A B. bl_files this = A @ B \<and>
       bit_level_add_file this b = (Inr (), this\<lparr>bl_files := A @ b # B\<rparr>) \<and> cmp_sorted (A @ b # B) \<and>
       (bf_id b \<notin> bf_id ` set (bl_files this) \<longrightarrow>
          bit_level_remove_file (snd (bit_level_add_file this b)) (bf_id b) = (Inr (), this)))
     else bit_level_add_file this b = (Inl ENOSPC, this)"
proof (cases "length (bl_files this) < bl_max_size this")
  case True
  let ?p = "bit_level_search_file this b"
  let ?A = "take ?p (bl_files this)" and ?B = "drop ?p (bl_files this)"
  have add: "bit_level_add_file this b = (Inr (), this\<lparr>bl_files := ?A @ b # ?B\<rparr>)"
    using True by (simp add: bit_level_add_file_def Let_def)
  have so: "cmp_sorted (?A @ b # ?B)"
    by (rule cmp_sorted_insert [OF assms search_file_splits [OF assms]])
  have rm: "bit_level_remove_file (this\<lparr>bl_files := ?A @ b # ?B\<rparr>) (bf_id b) = (Inr (), this)"
    if "bf_id b \<notin> bf_id ` set (bl_files this)"
  proof -
    have "\<forall>a \<in> set ?A. bf_id a \<noteq> bf_id b" using that by (metis imageI in_set_takeD)
    then have "takeWhile (\<lambda>a. bf_id a \<noteq> bf_id b) (?A @ b # ?B) = ?A"
      "dropWhile (\<lambda>a. bf_id a \<noteq> bf_id b) (?A @ b # ?B) = b # ?B"
      by (simp_all add: takeWhile_append2 dropWhile_append2)
    then show ?thesis by (simp add: bit_level_remove_file_def remove_loop_spec)
  qed
  have "bl_files this = ?A @ ?B" by simp
  then show ?thesis unfolding add snd_conv using True so rm by (simp only: if_True) blast
next
  case False
  then show ?thesis by (simp add: bit_level_add_file_def)
qed

definition sample_file :: bit_file where
  "sample_file = bit_file_create plain_cipher (\<lambda>_. Inner_Node []) 0 0 1 1 3 7 2 []"

theorem level_add_remove_witness:
  "\<exists>A B. bl_files (bit_level_init 1 10) = A @ B \<and>
     bit_level_add_file (bit_level_init 1 10) sample_file =
       (Inr (), (bit_level_init 1 10)\<lparr>bl_files := A @ sample_file # B\<rparr>)"
proof -
  have "cmp_sorted (bl_files (bit_level_init 1 10))" by (simp add: cmp_sorted_def bit_level_init_def)
  from level_add_remove [OF this, of sample_file] show ?thesis by (auto simp: bit_level_init_def)
qed

end
