(* ===== verification/Reverse_Index.thy ===== *)
theory Reverse_Index
  imports Disk_Array
begin

text \<open>
  \<^verbatim>\<open>metadata.c\<close>, the reverse index table: for each physical block the logical block stored there,
  \<^verbatim>\<open>INF_ADDR\<close> when none.  A disk array of \<^verbatim>\<open>struct reverse_index_entry\<close>, which has the one field
  \<^verbatim>\<open>lba\<close>.
\<close>

type_synonym rit = "dm_block_t darray"

definition reverse_index_table_format :: "rit \<Rightarrow> unit result \<times> rit" where
  "reverse_index_table_format this = darray_format this 0"

definition reverse_index_table_init :: "rit \<Rightarrow> nat \<Rightarrow> rit" where
  "reverse_index_table_init arr nr_block = arr\<lparr>ar_nr := nr_block\<rparr>"

text \<open>
  \<^verbatim>\<open>reset\<close>: the answer is the logical block found, and the entry is emptied unless the caller
  named another logical block than the one found.  \<open>new_lba\<close> is \<open>None\<close> when it is not assigned.
\<close>

definition reverse_index_table_reset ::
  "rit \<Rightarrow> dm_block_t \<Rightarrow> dm_block_t \<Rightarrow> (unit result \<times> dm_block_t option) \<times> rit" where
  "reverse_index_table_reset this pba old_lba =
     (case darray_get this pba of
        Inl r \<Rightarrow> ((Inl r, None), this)
      | Inr lba \<Rightarrow>
          if old_lba \<noteq> INF_ADDR \<and> old_lba \<noteq> lba then ((Inr (), Some lba), this)
          else let (r, arr) = darray_set this pba INF_ADDR in ((r, Some lba), arr))"

definition reverse_index_table_set :: "rit \<Rightarrow> dm_block_t \<Rightarrow> dm_block_t \<Rightarrow> unit result \<times> rit" where
  "reverse_index_table_set this pba lba = darray_set this pba lba"

definition reverse_index_table_get :: "rit \<Rightarrow> dm_block_t \<Rightarrow> dm_block_t result" where
  "reverse_index_table_get this pba = darray_get this pba"

lemma reset_healthy:
  assumes "healthy r" and "pba < ar_nr r"
  shows "reverse_index_table_reset r pba old =
    (if old \<noteq> INF_ADDR \<and> old \<noteq> ar_cells r pba then ((Inr (), Some (ar_cells r pba)), r)
     else ((Inr (), Some (ar_cells r pba)), r\<lparr>ar_cells := (ar_cells r)(pba := INF_ADDR)\<rparr>))"
  using assms by (simp add: reverse_index_table_reset_def arr_simps)

lemma reset_keeps [inv_intros]:
  "healthy r \<Longrightarrow> healthy (snd (reverse_index_table_reset r pba old))"
  "ar_nr (snd (reverse_index_table_reset r pba old)) = ar_nr r"
  by (auto simp: reverse_index_table_reset_def split: sum.splits prod.splits)
    (metis cells.set_ok cells.set_nr snd_conv)+

text \<open>
  C22. A block is given up at most once.  After a \<^verbatim>\<open>set\<close> of the owner of physical block \<open>pba\<close>, a
  \<^verbatim>\<open>reset\<close> on behalf of that owner (or of no owner in particular) reports it and empties the entry,
  so that a second such \<^verbatim>\<open>reset\<close> reports \<^verbatim>\<open>INF_ADDR\<close>, never the owner again; a \<^verbatim>\<open>reset\<close> on behalf
  of another block reports the owner and changes nothing.
\<close>

theorem reverse_index_given_up_once:
  assumes "healthy this" and "pba < ar_nr this" and "lba \<noteq> INF_ADDR"
    and "this1 = snd (reverse_index_table_set this pba lba)"
    and "reverse_index_table_reset this1 pba old = ((r, found), this2)"
  shows "r = Inr () \<and> found = Some lba \<and>
    (if old = INF_ADDR \<or> old = lba
     then reverse_index_table_get this2 pba = Inr INF_ADDR \<and>
       snd (fst (reverse_index_table_reset this2 pba old')) = Some INF_ADDR
     else this2 = this1) \<and>
    (\<forall>q. q \<noteq> pba \<longrightarrow> reverse_index_table_get this2 q = reverse_index_table_get this q)"
proof -
  have t1: "this1 = this\<lparr>ar_cells := (ar_cells this)(pba := lba)\<rparr>" "healthy this1" "pba < ar_nr this1"
    using assms by (simp_all add: reverse_index_table_set_def arr_simps)
  have g1: "darray_get this1 q = darray_get this q" if "q \<noteq> pba" for q
    using that by (simp add: t1(1) darray_get_other)
  show ?thesis
  proof (cases "old = INF_ADDR \<or> old = lba")
    case True
    then have e: "r = Inr ()" "found = Some lba"
      "this2 = this1\<lparr>ar_cells := (ar_cells this1)(pba := INF_ADDR)\<rparr>"
      using assms(5) t1 reset_healthy [OF t1(2,3), of old] by auto
    have h2: "healthy this2" "pba < ar_nr this2" "ar_cells this2 pba = INF_ADDR"
      using e(3) t1 by simp_all
    have "darray_get this2 q = darray_get this1 q" if "q \<noteq> pba" for q
      using that by (simp add: e(3) darray_get_other)
    moreover have "snd (fst (reverse_index_table_reset this2 pba old')) = Some INF_ADDR"
      using reset_healthy [OF h2(1,2), of old'] h2(3) by auto
    moreover have "darray_get this2 pba = Inr INF_ADDR"
      using h2 by (simp add: arr_simps)
    ultimately show ?thesis using True e(1,2) g1 by (simp add: reverse_index_table_get_def)
  next
    case False
    then have "r = Inr ()" "found = Some lba" "this2 = this1"
      using assms(5) t1 reset_healthy [OF t1(2,3), of old] by auto
    with False g1 show ?thesis by (simp add: reverse_index_table_get_def)
  qed
qed

theorem reverse_index_given_up_once_witness:
  "let this1 = snd (reverse_index_table_set (fresh_darray 8 0) 3 42);
       this2 = snd (reverse_index_table_reset this1 3 42)
   in reverse_index_table_get this2 3 = Inr INF_ADDR \<and> reverse_index_table_get this2 4 = Inr 0"
proof -
  let ?t1 = "snd (reverse_index_table_set (fresh_darray 8 0) 3 42)"
  obtain r f t2 where t2: "reverse_index_table_reset ?t1 3 42 = ((r, f), t2)" by (metis surj_pair)
  have "reverse_index_table_get (fresh_darray 8 (0::nat)) 4 = Inr 0"
    by (simp add: reverse_index_table_get_def darray_get_def)
  with reverse_index_given_up_once [OF _ _ _ refl t2] show ?thesis
    by (simp add: t2 INF_ADDR_def)
qed

end
