(* ===== verification/Data_Seg_Table.thy ===== *)
theory Data_Seg_Table
  imports Rbtree Seg_Validator
begin

text \<open>
  \<^verbatim>\<open>metadata.c\<close>, the data segment table (DST): for each segment the bitmap of its valid blocks and
  their number, and the ordered tree of victims, the segments with room, by number of valid
  blocks.  Cleaning takes the first victim; threaded logging takes blocks of the last one.

  \<open>dst_inv\<close> is what the operations keep: the stored counts are the numbers of bits, the tree is
  ordered with one node per segment, and a victim's copy of the bitmap is the stored one, except
  for the segment that threaded logging fills, whose node is not refreshed.
\<close>

section \<open>State\<close>

record dst_entry =
  de_nr_valid_block :: nat
  de_block_validity_table :: bitmap

record victim =
  vic_segno :: nat
  vic_nr_valid_block :: nat
  vic_block_validity_table :: bitmap

text \<open>
  \<open>ds_node_list\<close> says whether \<^verbatim>\<open>node_list[segno]\<close> is set; the node it points to is the one of
  that segment in the tree.
\<close>

record dst =
  ds_nr_segment :: nat
  ds_logging_segno :: nat
  ds_array :: "dst_entry darray"
  ds_victims :: "victim tree"
  ds_node_list :: "nat \<Rightarrow> bool"

definition empty_entry :: dst_entry where
  "empty_entry = \<lparr>de_nr_valid_block = 0, de_block_validity_table = (\<lambda>_. False)\<rparr>"

lemma empty_entry_sel [simp]:
  "de_nr_valid_block empty_entry = 0" "de_block_validity_table empty_entry = (\<lambda>_. False)"
  by (simp_all add: empty_entry_def)

section \<open>Victims\<close>

definition victim_create :: "nat \<Rightarrow> nat \<Rightarrow> bitmap \<Rightarrow> victim" where
  "victim_create segno nr_valid_block bvt =
     \<lparr>vic_segno = segno, vic_nr_valid_block = nr_valid_block, vic_block_validity_table = bvt\<rparr>"

definition victim_less :: "victim \<Rightarrow> victim \<Rightarrow> bool" where
  "victim_less v1 v2 \<longleftrightarrow> vic_nr_valid_block v1 < vic_nr_valid_block v2"

definition dst_remove_victim :: "dst \<Rightarrow> nat \<Rightarrow> dst" where
  "dst_remove_victim this segno =
     (if ds_node_list this segno then
        this\<lparr>ds_victims := rb_erase_node (\<lambda>v. vic_segno v = segno) (ds_victims this),
             ds_node_list := (ds_node_list this)(segno := False)\<rparr>
      else this)"

definition dst_destroy_victim :: "dst \<Rightarrow> nat \<Rightarrow> dst" where
  "dst_destroy_victim this segno = dst_remove_victim this segno"

definition dst_add_victim :: "dst \<Rightarrow> nat \<Rightarrow> nat \<Rightarrow> bitmap \<Rightarrow> unit result \<times> dst" where
  "dst_add_victim this segno nr_valid bvt =
     (if nr_valid \<ge> BLOCKS_PER_SEGMENT then (Inl EINVAL, this)
      else (Inr (),
        this\<lparr>ds_victims := rb_add victim_less (victim_create segno nr_valid bvt) (ds_victims this),
             ds_node_list := (ds_node_list this)(segno := True)\<rparr>))"

definition dst_update_victim :: "dst \<Rightarrow> nat \<Rightarrow> nat \<Rightarrow> bitmap \<Rightarrow> unit result \<times> dst" where
  "dst_update_victim this segno nr_valid bvt =
     (let this1 = dst_destroy_victim this segno
      in if nr_valid \<ge> BLOCKS_PER_SEGMENT then (Inr (), this1)
         else dst_add_victim this1 segno nr_valid bvt)"

definition dst_victim_empty :: "dst \<Rightarrow> bool" where
  "dst_victim_empty this \<longleftrightarrow> ds_victims this = Leaf"

definition dst_peek_victim :: "dst \<Rightarrow> victim option" where
  "dst_peek_victim this = rb_first (ds_victims this)"

definition dst_pop_victim :: "dst \<Rightarrow> victim option \<times> dst" where
  "dst_pop_victim this =
     (case rb_first (ds_victims this) of
        None \<Rightarrow> (None, this)
      | Some v \<Rightarrow> (Some v, dst_remove_victim this (vic_segno v)))"

section \<open>Segments and blocks\<close>

definition block_to_segment :: "dm_block_t \<Rightarrow> nat" where
  "block_to_segment pba = pba div BLOCKS_PER_SEGMENT"

definition block_offset_within_segment :: "dm_block_t \<Rightarrow> nat" where
  "block_offset_within_segment pba = pba mod BLOCKS_PER_SEGMENT"

fun dst_load_loop :: "dst \<Rightarrow> nat list \<Rightarrow> unit result \<times> dst" where
  "dst_load_loop this [] = (Inr (), this)"
| "dst_load_loop this (segno # rest) =
     (case darray_get (ds_array this) segno of
        Inl _ \<Rightarrow> (Inl ENODATA, this)
      | Inr entry \<Rightarrow>
          dst_load_loop
            (if de_nr_valid_block entry \<noteq> 0
             then snd (dst_add_victim this segno (de_nr_valid_block entry)
                         (de_block_validity_table entry))
             else this) rest)"

definition dst_load :: "dst \<Rightarrow> unit result \<times> dst" where
  "dst_load this = dst_load_loop this [0..<ds_nr_segment this]"

definition dst_init :: "dst_entry darray \<Rightarrow> nat \<Rightarrow> unit result \<times> dst" where
  "dst_init arr nr_segment =
     dst_load \<lparr>ds_nr_segment = nr_segment, ds_logging_segno = INF_ADDR,
               ds_array = arr\<lparr>ar_nr := nr_segment\<rparr>, ds_victims = Leaf, ds_node_list = (\<lambda>_. False)\<rparr>"

text \<open>
  \<^verbatim>\<open>dst_format\<close>: the loop that pops every victim empties the tree, which \<^verbatim>\<open>dst_init\<close> then makes
  anew, so only its effect on the array lasts.
\<close>

definition dst_format :: "dst \<Rightarrow> unit result \<times> dst" where
  "dst_format this =
     (case darray_format (ds_array this) empty_entry of
        (Inl r, arr) \<Rightarrow> (Inl r, this\<lparr>ds_array := arr\<rparr>)
      | (Inr _, arr) \<Rightarrow> dst_init arr (ds_nr_segment this))"

definition dst_take_segment :: "dst \<Rightarrow> nat \<Rightarrow> unit result \<times> dst" where
  "dst_take_segment this segno =
     (case darray_get (ds_array this) segno of
        Inl err \<Rightarrow> (Inl err, this)
      | Inr entry \<Rightarrow>
          if de_nr_valid_block entry \<noteq> 0 then (Inl EINVAL, this)
          else let entry' = \<lparr>de_nr_valid_block = BLOCKS_PER_SEGMENT,
                             de_block_validity_table = (\<lambda>_. True)\<rparr>
               in case darray_set (ds_array this) segno entry' of
                    (Inl err, arr) \<Rightarrow> (Inl err, this\<lparr>ds_array := arr\<rparr>)
                  | (Inr _, arr) \<Rightarrow> (Inr (), dst_destroy_victim (this\<lparr>ds_array := arr\<rparr>) segno))"

definition dst_return_segment :: "dst \<Rightarrow> nat \<Rightarrow> unit result \<times> dst" where
  "dst_return_segment this segno =
     (let (err, arr) = darray_set (ds_array this) segno empty_entry
      in (err, dst_destroy_victim (this\<lparr>ds_array := arr\<rparr>) segno))"

definition dst_take_block :: "dst \<Rightarrow> dm_block_t \<Rightarrow> unit result \<times> dst" where
  "dst_take_block this pba =
     (let segno = block_to_segment pba; offset = block_offset_within_segment pba
      in case darray_get (ds_array this) segno of
           Inl err \<Rightarrow> (Inl err, this)
         | Inr entry \<Rightarrow>
             if de_nr_valid_block entry \<ge> BLOCKS_PER_SEGMENT then (Inl EINVAL, this)
             else let entry' = \<lparr>de_nr_valid_block = de_nr_valid_block entry + 1,
                    de_block_validity_table = (de_block_validity_table entry)(offset := True)\<rparr>
                  in case darray_set (ds_array this) segno entry' of
                       (Inl err, arr) \<Rightarrow> (Inl err, this\<lparr>ds_array := arr\<rparr>)
                     | (Inr _, arr) \<Rightarrow>
                         dst_update_victim (this\<lparr>ds_array := arr\<rparr>) segno
                           (de_nr_valid_block entry') (de_block_validity_table entry'))"

text \<open>An empty segment is left alone and reported as success (\<^verbatim>\<open>err\<close> is still 0).\<close>

definition dst_return_block :: "dst \<Rightarrow> dm_block_t \<Rightarrow> unit result \<times> dst" where
  "dst_return_block this pba =
     (let segno = block_to_segment pba; offset = block_offset_within_segment pba
      in case darray_get (ds_array this) segno of
           Inl err \<Rightarrow> (Inl err, this)
         | Inr entry \<Rightarrow>
             if de_nr_valid_block entry = 0 then (Inr (), this)
             else let entry' =
                    (if de_block_validity_table entry offset
                     then \<lparr>de_nr_valid_block = de_nr_valid_block entry - 1,
                           de_block_validity_table = (de_block_validity_table entry)(offset := False)\<rparr>
                     else entry)
                  in case darray_set (ds_array this) segno entry' of
                       (Inl err, arr) \<Rightarrow> (Inl err, this\<lparr>ds_array := arr\<rparr>)
                     | (Inr _, arr) \<Rightarrow>
                         dst_update_victim (this\<lparr>ds_array := arr\<rparr>) segno
                           (de_nr_valid_block entry') (de_block_validity_table entry'))"

section \<open>Threaded logging\<close>

text \<open>
  The loop at \<^verbatim>\<open>retry\<close> of \<^verbatim>\<open>dst_find_logging_block\<close>.  It works on the table, the segment
  validator and the allocator's count of segments in use.  \<open>fuel\<close> counts passes; \<open>None\<close> means that
  it ran out.
\<close>

type_synonym logging_state = "dst \<times> seg_validator \<times> nat"

fun dst_logging_loop ::
  "nat \<Rightarrow> logging_state \<Rightarrow> (dm_block_t result \<times> logging_state) option" where
  "dst_logging_loop 0 s = None"
| "dst_logging_loop (Suc fuel) (this, svt, nr_valid_segment) =
     (if ds_logging_segno this = INF_ADDR \<and> dst_victim_empty this then
        (case seg_validator_next svt of
           (Inl err, svt1) \<Rightarrow> Some (Inl err, this, svt1, nr_valid_segment)
         | (Inr seg, svt1) \<Rightarrow>
             let this1 = this\<lparr>ds_logging_segno := seg\<rparr>
             in case seg_validator_take svt1 seg of
                  (Inl err, svt2) \<Rightarrow> Some (Inl err, this1, svt2, nr_valid_segment)
                | (Inr _, svt2) \<Rightarrow> dst_logging_loop fuel (this1, svt2, nr_valid_segment + 1))
      else
        let this1 = (if ds_logging_segno this = INF_ADDR then
               (case rb_last (ds_victims this) of
                  None \<Rightarrow> this
                | Some v \<Rightarrow> dst_destroy_victim (this\<lparr>ds_logging_segno := vic_segno v\<rparr>) (vic_segno v))
             else this);
            seg = ds_logging_segno this1
        in case darray_get (ds_array this1) seg of
             Inl err \<Rightarrow> Some (Inl err, this1, svt, nr_valid_segment)
           | Inr entry \<Rightarrow>
               let offset = find_first_zero_bit (de_block_validity_table entry) BLOCKS_PER_SEGMENT
               in if de_nr_valid_block entry \<ge> BLOCKS_PER_SEGMENT \<or> offset = BLOCKS_PER_SEGMENT then
                    dst_logging_loop fuel
                      ((dst_destroy_victim this1 seg)\<lparr>ds_logging_segno := INF_ADDR\<rparr>,
                       svt, nr_valid_segment)
                  else let entry' = \<lparr>de_nr_valid_block = de_nr_valid_block entry + 1,
                         de_block_validity_table = (de_block_validity_table entry)(offset := True)\<rparr>
                       in case darray_set (ds_array this1) seg entry' of
                            (Inl err, arr) \<Rightarrow>
                              Some (Inl err, this1\<lparr>ds_array := arr\<rparr>, svt, nr_valid_segment)
                          | (Inr _, arr) \<Rightarrow>
                              Some (Inr (seg * BLOCKS_PER_SEGMENT + offset),
                                    this1\<lparr>ds_array := arr\<rparr>, svt, nr_valid_segment))"

declare dst_logging_loop.simps [simp del]

definition dst_find_logging_block ::
  "logging_state \<Rightarrow> (dm_block_t result \<times> logging_state) option" where
  "dst_find_logging_block s =
     dst_logging_loop (ds_nr_segment (fst s) + sv_nr_segment (fst (snd s)) + 3) s"

section \<open>Invariant\<close>

definition nr_bits :: "bitmap \<Rightarrow> nat" where
  "nr_bits bm = card {i. i < BLOCKS_PER_SEGMENT \<and> bm i}"

definition dst_entry_ok :: "dst_entry \<Rightarrow> bool" where
  "dst_entry_ok e \<longleftrightarrow> de_nr_valid_block e = nr_bits (de_block_validity_table e)"

abbreviation entry_at :: "dst \<Rightarrow> nat \<Rightarrow> dst_entry" where
  "entry_at d s \<equiv> ar_cells (ds_array d) s"

abbreviation victim_list :: "dst \<Rightarrow> victim list" where
  "victim_list d \<equiv> inorder (ds_victims d)"

definition victim_current :: "dst \<Rightarrow> victim \<Rightarrow> bool" where
  "victim_current d v \<longleftrightarrow>
     vic_nr_valid_block v = de_nr_valid_block (entry_at d (vic_segno v)) \<and>
     vic_block_validity_table v = de_block_validity_table (entry_at d (vic_segno v))"

text \<open>\<open>X\<close> holds the segments whose victim node may be out of date.\<close>

definition dst_inv_except :: "nat set \<Rightarrow> dst \<Rightarrow> bool" where
  "dst_inv_except X d \<longleftrightarrow>
     healthy (ds_array d) \<and> ar_nr (ds_array d) = ds_nr_segment d \<and> ds_nr_segment d \<le> INF_ADDR \<and>
     (\<forall>s < ds_nr_segment d. dst_entry_ok (entry_at d s)) \<and>
     sorted (map vic_nr_valid_block (victim_list d)) \<and> distinct (map vic_segno (victim_list d)) \<and>
     (\<forall>s. ds_node_list d s \<longleftrightarrow> s \<in> vic_segno ` set (victim_list d)) \<and>
     (\<forall>v \<in> set (victim_list d). vic_segno v < ds_nr_segment d \<and>
        vic_nr_valid_block v < BLOCKS_PER_SEGMENT \<and> (vic_segno v \<in> X \<or> victim_current d v)) \<and>
     (ds_logging_segno d = INF_ADDR \<or> ds_logging_segno d < ds_nr_segment d)"

definition dst_inv :: "dst \<Rightarrow> bool" where
  "dst_inv d \<longleftrightarrow> dst_inv_except {ds_logging_segno d} d"

lemma nr_bits_le: "nr_bits bm \<le> BLOCKS_PER_SEGMENT"
  unfolding nr_bits_def by (rule card_Collect_less_le)

lemma nr_bits_set: "i < BLOCKS_PER_SEGMENT \<Longrightarrow> \<not> bm i \<Longrightarrow> nr_bits (bm(i := True)) = Suc (nr_bits bm)"
  unfolding nr_bits_def by (rule card_Collect_less_insert)

lemma nr_bits_clear: "i < BLOCKS_PER_SEGMENT \<Longrightarrow> bm i \<Longrightarrow> nr_bits (bm(i := False)) = nr_bits bm - 1"
  unfolding nr_bits_def by (rule card_Collect_less_remove)

lemma nr_bits_full: "nr_bits bm = BLOCKS_PER_SEGMENT \<longleftrightarrow> (\<forall>i < BLOCKS_PER_SEGMENT. bm i)"
  unfolding nr_bits_def by (rule card_Collect_less_full)

lemma nr_bits_pos: "i < BLOCKS_PER_SEGMENT \<Longrightarrow> bm i \<Longrightarrow> 0 < nr_bits bm"
  unfolding nr_bits_def by (subst card_gt_0_iff) auto

lemma empty_entry_ok [simp]: "dst_entry_ok empty_entry"
  by (simp add: dst_entry_ok_def nr_bits_def)

lemma victim_less_rank: "victim_less = (\<lambda>a b. vic_nr_valid_block a < vic_nr_valid_block b)"
  by (simp add: fun_eq_iff victim_less_def)

lemma dst_inv_exceptD:
  assumes "dst_inv_except X d"
  shows "healthy (ds_array d)" and "ar_nr (ds_array d) = ds_nr_segment d"
    and "ds_nr_segment d \<le> INF_ADDR"
    and "s < ds_nr_segment d \<Longrightarrow> dst_entry_ok (entry_at d s)"
    and "sorted (map vic_nr_valid_block (victim_list d))"
    and "distinct (map vic_segno (victim_list d))"
    and "ds_node_list d s \<longleftrightarrow> s \<in> vic_segno ` set (victim_list d)"
    and "v \<in> set (victim_list d) \<Longrightarrow> vic_segno v < ds_nr_segment d"
    and "v \<in> set (victim_list d) \<Longrightarrow> vic_nr_valid_block v < BLOCKS_PER_SEGMENT"
    and "v \<in> set (victim_list d) \<Longrightarrow> vic_segno v \<notin> X \<Longrightarrow> victim_current d v"
    and "ds_logging_segno d = INF_ADDR \<or> ds_logging_segno d < ds_nr_segment d"
  using assms unfolding dst_inv_except_def by blast+

lemma dst_inv_except_mono: "dst_inv_except X d \<Longrightarrow> X \<subseteq> Y \<Longrightarrow> dst_inv_except Y d"
  unfolding dst_inv_except_def by blast

text \<open>What changing one stored entry, removing a node and adding a node do to the invariant.\<close>

lemma set_entry_inv:
  assumes "dst_inv_except X d" and "s < ds_nr_segment d" and "dst_entry_ok e"
  shows "dst_inv_except (insert s X) (d\<lparr>ds_array := (ds_array d)\<lparr>ar_cells := (entry_at d)(s := e)\<rparr>\<rparr>)"
  using assms unfolding dst_inv_except_def victim_current_def by auto

lemma remove_victim_list:
  assumes "dst_inv_except X d"
  shows "victim_list (dst_remove_victim d s) = filter (\<lambda>v. vic_segno v \<noteq> s) (victim_list d)"
proof (cases "ds_node_list d s")
  case True
  then show ?thesis
    using remove_first_filter [OF dst_inv_exceptD(6) [OF assms]]
    by (simp add: dst_remove_victim_def inorder_rb_erase_node)
next
  case False
  then have "\<forall>v \<in> set (victim_list d). vic_segno v \<noteq> s"
    using dst_inv_exceptD(7) [OF assms] by blast
  with False show ?thesis by (simp add: dst_remove_victim_def)
qed

lemma remove_victim_sel [simp]:
  "ds_array (dst_remove_victim d s) = ds_array d"
  "ds_nr_segment (dst_remove_victim d s) = ds_nr_segment d"
  "ds_logging_segno (dst_remove_victim d s) = ds_logging_segno d"
  "ds_node_list (dst_remove_victim d s) = (ds_node_list d)(s := False)"
  by (auto simp: dst_remove_victim_def fun_eq_iff)

lemma sorted_map_filter: "sorted (map f xs) \<Longrightarrow> sorted (map f (filter P xs))"
  by (induction xs) auto

lemma remove_victim_inv:
  assumes "dst_inv_except (insert s X) d"
  shows "dst_inv_except X (dst_remove_victim d s)"
proof -
  note l = remove_victim_list [OF assms, of s] and D = dst_inv_exceptD [OF assms]
  have "\<forall>v \<in> set (victim_list (dst_remove_victim d s)). vic_segno v < ds_nr_segment d \<and>
      vic_nr_valid_block v < BLOCKS_PER_SEGMENT \<and>
      (vic_segno v \<in> X \<or> victim_current (dst_remove_victim d s) v)"
    unfolding l using D(8,9,10) by (auto simp: victim_current_def)
  moreover have "\<forall>t. ds_node_list (dst_remove_victim d s) t \<longleftrightarrow>
      t \<in> vic_segno ` set (victim_list (dst_remove_victim d s))"
    unfolding l using D(7) by auto
  moreover have "sorted (map vic_nr_valid_block (victim_list (dst_remove_victim d s)))"
    "distinct (map vic_segno (victim_list (dst_remove_victim d s)))"
    unfolding l using D(5,6) by (simp_all add: sorted_map_filter distinct_map_filter)
  ultimately show ?thesis
    using D(1,2,3,4,11) unfolding dst_inv_except_def by simp
qed

lemma add_victim_inv:
  assumes "dst_inv_except X d" and "s < ds_nr_segment d" and "\<not> ds_node_list d s"
    and "de_nr_valid_block (entry_at d s) < BLOCKS_PER_SEGMENT"
    and "dst_add_victim d s (de_nr_valid_block (entry_at d s)) (de_block_validity_table (entry_at d s))
      = (r, d')"
  shows "r = Inr () \<and> dst_inv_except X d' \<and> ds_array d' = ds_array d \<and>
    ds_nr_segment d' = ds_nr_segment d \<and> ds_logging_segno d' = ds_logging_segno d \<and>
    ds_node_list d' = (ds_node_list d)(s := True)"
proof -
  let ?v = "victim_create s (de_nr_valid_block (entry_at d s)) (de_block_validity_table (entry_at d s))"
  note D = dst_inv_exceptD [OF assms(1)]
  have d': "r = Inr ()" "d' = d\<lparr>ds_victims := rb_add victim_less ?v (ds_victims d),
      ds_node_list := (ds_node_list d)(s := True)\<rparr>"
    using assms(4,5) by (simp_all add: dst_add_victim_def)
  have l: "victim_list d' = insert_right vic_nr_valid_block ?v (victim_list d)"
    using inorder_rb_add [OF D(5)] by (simp add: d'(2) victim_less_rank)
  have seg: "vic_segno ?v = s" by (simp add: victim_create_def)
  have "\<forall>v \<in> set (victim_list d'). vic_segno v < ds_nr_segment d' \<and>
      vic_nr_valid_block v < BLOCKS_PER_SEGMENT \<and> (vic_segno v \<in> X \<or> victim_current d' v)"
    unfolding l using D(8,9,10) assms(2,4)
    by (auto simp: d'(2) victim_current_def victim_create_def)
  moreover have "\<forall>t. ds_node_list d' t \<longleftrightarrow> t \<in> vic_segno ` set (victim_list d')"
    unfolding l using D(7) by (auto simp: d'(2) seg)
  moreover have "sorted (map vic_nr_valid_block (victim_list d'))"
    unfolding l by (rule sorted_insert_right [OF D(5)])
  moreover have "distinct (map vic_segno (victim_list d'))"
    unfolding l distinct_insert_right using D(6) D(7) assms(3) by (simp add: seg)
  ultimately show ?thesis
    using D(1,2,3,4,11) unfolding dst_inv_except_def by (simp add: d')
qed

lemma update_victim_inv:
  assumes "dst_inv_except (insert s X) d" and "s < ds_nr_segment d"
    and "dst_update_victim d s (de_nr_valid_block (entry_at d s)) (de_block_validity_table (entry_at d s))
      = (r, d')"
  shows "r = Inr () \<and> dst_inv_except X d' \<and> ds_array d' = ds_array d \<and>
    ds_nr_segment d' = ds_nr_segment d \<and> ds_logging_segno d' = ds_logging_segno d \<and>
    (ds_node_list d' = (ds_node_list d)(s := de_nr_valid_block (entry_at d s) < BLOCKS_PER_SEGMENT))"
proof (cases "de_nr_valid_block (entry_at d s) < BLOCKS_PER_SEGMENT")
  case True
  let ?d = "dst_remove_victim d s"
  have a: "dst_add_victim ?d s (de_nr_valid_block (entry_at ?d s)) (de_block_validity_table (entry_at ?d s))
      = (r, d')"
    using assms(3) True by (simp add: dst_update_victim_def dst_destroy_victim_def)
  show ?thesis
    using add_victim_inv [OF remove_victim_inv [OF assms(1)] _ _ _ a] assms(2) True by simp
next
  case False
  then have "r = Inr ()" "d' = dst_remove_victim d s"
    using assms(3) by (simp_all add: dst_update_victim_def dst_destroy_victim_def)
  with False remove_victim_inv [OF assms(1)] show ?thesis by simp
qed

section \<open>Effect on the valid blocks\<close>

definition dst_valid :: "dst \<Rightarrow> dm_block_t \<Rightarrow> bool" where
  "dst_valid d pba =
     de_block_validity_table (entry_at d (block_to_segment pba)) (block_offset_within_segment pba)"

lemma block_address_inj:
  "block_to_segment p = block_to_segment q \<Longrightarrow>
   block_offset_within_segment p = block_offset_within_segment q \<Longrightarrow> p = q"
  unfolding block_to_segment_def block_offset_within_segment_def by (metis div_mult_mod_eq)

lemma block_offset_less [simp]: "block_offset_within_segment p < BLOCKS_PER_SEGMENT"
  by (simp add: block_offset_within_segment_def)

lemma block_to_segment_less [simp]:
  "block_to_segment p < n \<longleftrightarrow> p < n * BLOCKS_PER_SEGMENT"
  by (simp add: block_to_segment_def div_less_iff_less_mult)

lemma block_address:
  "off < BLOCKS_PER_SEGMENT \<Longrightarrow> block_to_segment (s * BLOCKS_PER_SEGMENT + off) = s"
  "off < BLOCKS_PER_SEGMENT \<Longrightarrow> block_offset_within_segment (s * BLOCKS_PER_SEGMENT + off) = off"
  by (simp_all add: block_to_segment_def block_offset_within_segment_def)

text \<open>The table after one bit of one entry has changed.\<close>

lemma dst_valid_upd:
  assumes "ds_array d' = (ds_array d)\<lparr>ar_cells := (entry_at d)(block_to_segment p := e)\<rparr>"
    and "de_block_validity_table e =
      (de_block_validity_table (entry_at d (block_to_segment p)))(block_offset_within_segment p := b)"
  shows "dst_valid d' = (dst_valid d)(p := b)"
  using assms block_address_inj by (auto simp: dst_valid_def fun_eq_iff)

text \<open>The tail shared by \<^verbatim>\<open>take_block\<close> and \<^verbatim>\<open>return_block\<close>: store the entry, refresh the victim.\<close>

lemma store_and_refresh:
  assumes "dst_inv d" and "s < ds_nr_segment d" and "dst_entry_ok e"
    and "(case darray_set (ds_array d) s e of
            (Inl err, arr) \<Rightarrow> (Inl err, d\<lparr>ds_array := arr\<rparr>)
          | (Inr _, arr) \<Rightarrow> dst_update_victim (d\<lparr>ds_array := arr\<rparr>) s (de_nr_valid_block e)
                             (de_block_validity_table e)) = (r, d')"
  shows "r = Inr () \<and> dst_inv d' \<and> ds_array d' = (ds_array d)\<lparr>ar_cells := (entry_at d)(s := e)\<rparr> \<and>
    ds_nr_segment d' = ds_nr_segment d \<and> ds_logging_segno d' = ds_logging_segno d \<and>
    ds_node_list d' = (ds_node_list d)(s := de_nr_valid_block e < BLOCKS_PER_SEGMENT)"
proof -
  let ?d = "d\<lparr>ds_array := (ds_array d)\<lparr>ar_cells := (entry_at d)(s := e)\<rparr>\<rparr>"
  have inv: "dst_inv_except {ds_logging_segno d} d" using assms(1) by (simp add: dst_inv_def)
  have "darray_set (ds_array d) s e = (Inr (), (ds_array d)\<lparr>ar_cells := (entry_at d)(s := e)\<rparr>)"
    using dst_inv_exceptD(1,2) [OF inv] assms(2) by (simp add: arr_simps)
  with assms(4) have "dst_update_victim ?d s (de_nr_valid_block (entry_at ?d s))
      (de_block_validity_table (entry_at ?d s)) = (r, d')" by simp
  from update_victim_inv [OF set_entry_inv [OF inv assms(2,3)] _ this] assms(2)
  show ?thesis by (simp add: dst_inv_def)
qed

lemma return_block_spec:
  assumes "dst_inv d" and "p < ds_nr_segment d * BLOCKS_PER_SEGMENT"
    and "dst_return_block d p = (r, d')"
  shows "r = Inr () \<and> dst_inv d' \<and> dst_valid d' = (dst_valid d)(p := False) \<and>
    ds_nr_segment d' = ds_nr_segment d \<and> ds_logging_segno d' = ds_logging_segno d \<and>
    (\<forall>s. ds_node_list d' s \<longrightarrow> ds_node_list d s \<or>
       s = block_to_segment p \<and> de_nr_valid_block (entry_at d s) \<noteq> 0) \<and>
    (dst_valid d p \<longrightarrow> ds_node_list d' (block_to_segment p)) \<and>
    (\<forall>s. de_nr_valid_block (entry_at d' s) \<le> de_nr_valid_block (entry_at d s))"
proof -
  let ?s = "block_to_segment p" and ?o = "block_offset_within_segment p"
  let ?e = "entry_at d ?s"
  have inv: "dst_inv_except {ds_logging_segno d} d" using assms(1) by (simp add: dst_inv_def)
  note D = dst_inv_exceptD [OF inv]
  have s: "?s < ds_nr_segment d" using assms(2) by simp
  have ok: "dst_entry_ok ?e" using D(4) s .
  have g: "darray_get (ds_array d) ?s = Inr ?e" using D(1,2) s by (simp add: arr_simps)
  show ?thesis
  proof (cases "de_nr_valid_block ?e = 0")
    case True
    then have "\<not> dst_valid d p" using ok nr_bits_pos [of ?o "de_block_validity_table ?e"]
      by (auto simp: dst_valid_def dst_entry_ok_def)
    then have "dst_valid d = (dst_valid d)(p := False)" by (simp add: fun_eq_iff)
    moreover have "r = Inr ()" "d' = d" using assms(3) g True by (simp_all add: dst_return_block_def)
    ultimately show ?thesis using assms(1) \<open>\<not> dst_valid d p\<close> by simp
  next
    case False
    let ?e' = "if de_block_validity_table ?e ?o
      then \<lparr>de_nr_valid_block = de_nr_valid_block ?e - 1,
            de_block_validity_table = (de_block_validity_table ?e)(?o := False)\<rparr> else ?e"
    have ok': "dst_entry_ok ?e'" using ok nr_bits_clear [of ?o] by (simp add: dst_entry_ok_def)
    have "(case darray_set (ds_array d) ?s ?e' of
            (Inl err, arr) \<Rightarrow> (Inl err, d\<lparr>ds_array := arr\<rparr>)
          | (Inr _, arr) \<Rightarrow> dst_update_victim (d\<lparr>ds_array := arr\<rparr>) ?s (de_nr_valid_block ?e')
                             (de_block_validity_table ?e')) = (r, d')"
      using assms(3) g False by (simp add: dst_return_block_def Let_def)
    note st = store_and_refresh [OF assms(1) s ok' this]
    moreover have "dst_valid d' = (dst_valid d)(p := False)"
      by (rule dst_valid_upd [of _ _ _ ?e']) (use st in \<open>auto simp: fun_eq_iff\<close>)
    moreover have "ds_node_list d' ?s" if "dst_valid d p"
      using st that False ok nr_bits_le [of "de_block_validity_table ?e"]
      by (auto simp: dst_valid_def dst_entry_ok_def)
    ultimately show ?thesis using False by auto
  qed
qed

lemma take_block_spec:
  assumes "dst_inv d" and "p < ds_nr_segment d * BLOCKS_PER_SEGMENT" and "\<not> dst_valid d p"
    and "dst_take_block d p = (r, d')"
  shows "r = Inr () \<and> dst_inv d' \<and> dst_valid d' = (dst_valid d)(p := True) \<and>
    ds_nr_segment d' = ds_nr_segment d \<and> ds_logging_segno d' = ds_logging_segno d"
proof -
  let ?s = "block_to_segment p" and ?o = "block_offset_within_segment p"
  let ?e = "entry_at d ?s"
  let ?e' = "\<lparr>de_nr_valid_block = de_nr_valid_block ?e + 1,
    de_block_validity_table = (de_block_validity_table ?e)(?o := True)\<rparr>"
  have inv: "dst_inv_except {ds_logging_segno d} d" using assms(1) by (simp add: dst_inv_def)
  note D = dst_inv_exceptD [OF inv]
  have s: "?s < ds_nr_segment d" using assms(2) by simp
  have ok: "dst_entry_ok ?e" using D(4) s .
  have nb: "\<not> de_block_validity_table ?e ?o" using assms(3) by (simp add: dst_valid_def)
  then have room: "de_nr_valid_block ?e < BLOCKS_PER_SEGMENT"
    using ok nr_bits_full [of "de_block_validity_table ?e"] nr_bits_le [of "de_block_validity_table ?e"]
      block_offset_less [of p] unfolding dst_entry_ok_def by (metis le_neq_implies_less)
  have ok': "dst_entry_ok ?e'" using ok nb nr_bits_set [of ?o] by (simp add: dst_entry_ok_def)
  have g: "darray_get (ds_array d) ?s = Inr ?e" using D(1,2) s by (simp add: arr_simps)
  have "(case darray_set (ds_array d) ?s ?e' of
            (Inl err, arr) \<Rightarrow> (Inl err, d\<lparr>ds_array := arr\<rparr>)
          | (Inr _, arr) \<Rightarrow> dst_update_victim (d\<lparr>ds_array := arr\<rparr>) ?s (de_nr_valid_block ?e')
                             (de_block_validity_table ?e')) = (r, d')"
    using assms(4) unfolding dst_take_block_def Let_def g sum.case if_not_P [OF room [unfolded not_le [symmetric]]] .
  note st = store_and_refresh [OF assms(1) s ok' this]
  moreover have "dst_valid d' = (dst_valid d)(p := True)"
    by (rule dst_valid_upd [of _ _ _ ?e']) (use st in auto)
  ultimately show ?thesis by simp
qed

lemma take_segment_spec:
  assumes "dst_inv d" and "s < ds_nr_segment d" and "dst_take_segment d s = (r, d')"
  shows "if de_nr_valid_block (entry_at d s) = 0
    then r = Inr () \<and> dst_inv d' \<and> ds_nr_segment d' = ds_nr_segment d \<and>
      ds_logging_segno d' = ds_logging_segno d \<and> ds_node_list d' = (ds_node_list d)(s := False) \<and>
      ds_array d' = (ds_array d)\<lparr>ar_cells := (entry_at d)(s :=
        \<lparr>de_nr_valid_block = BLOCKS_PER_SEGMENT, de_block_validity_table = (\<lambda>_. True)\<rparr>)\<rparr>
    else r = Inl EINVAL \<and> d' = d"
proof -
  let ?e = "\<lparr>de_nr_valid_block = BLOCKS_PER_SEGMENT, de_block_validity_table = (\<lambda>_. True)\<rparr>"
  let ?d = "d\<lparr>ds_array := (ds_array d)\<lparr>ar_cells := (entry_at d)(s := ?e)\<rparr>\<rparr>"
  have inv: "dst_inv_except {ds_logging_segno d} d" using assms(1) by (simp add: dst_inv_def)
  note D = dst_inv_exceptD [OF inv]
  have ok: "dst_entry_ok ?e" using nr_bits_full [of "\<lambda>_. True"] by (simp add: dst_entry_ok_def)
  have g: "darray_get (ds_array d) s = Inr (entry_at d s)"
    "darray_set (ds_array d) s ?e = (Inr (), (ds_array d)\<lparr>ar_cells := (entry_at d)(s := ?e)\<rparr>)"
    using D(1,2) assms(2) by (simp_all add: arr_simps)
  show ?thesis
  proof (cases "de_nr_valid_block (entry_at d s) = 0")
    case True
    then have "r = Inr ()" "d' = dst_remove_victim ?d s"
      using assms(3) g by (simp_all add: dst_take_segment_def dst_destroy_victim_def)
    with True remove_victim_inv [OF set_entry_inv [OF inv assms(2) ok]] show ?thesis
      by (simp add: dst_inv_def)
  next
    case False
    then show ?thesis using assms(3) g by (simp add: dst_take_segment_def)
  qed
qed

lemma return_segment_spec:
  assumes "dst_inv d" and "s < ds_nr_segment d" and "dst_return_segment d s = (r, d')"
  shows "r = Inr () \<and> dst_inv d' \<and> ds_nr_segment d' = ds_nr_segment d \<and>
    ds_logging_segno d' = ds_logging_segno d \<and> ds_node_list d' = (ds_node_list d)(s := False) \<and>
    ds_array d' = (ds_array d)\<lparr>ar_cells := (entry_at d)(s := empty_entry)\<rparr>"
proof -
  let ?d = "d\<lparr>ds_array := (ds_array d)\<lparr>ar_cells := (entry_at d)(s := empty_entry)\<rparr>\<rparr>"
  have inv: "dst_inv_except {ds_logging_segno d} d" using assms(1) by (simp add: dst_inv_def)
  have "r = Inr ()" "d' = dst_remove_victim ?d s"
    using assms(2,3) dst_inv_exceptD(1,2) [OF inv]
    by (simp_all add: dst_return_segment_def dst_destroy_victim_def arr_simps)
  with remove_victim_inv [OF set_entry_inv [OF inv assms(2) empty_entry_ok]] show ?thesis
    by (simp add: dst_inv_def)
qed

section \<open>Threaded logging finds a free block\<close>

text \<open>
  The table and the segment validator together: a segment that is not in use has no valid block,
  and neither the logging segment nor a victim is out of use.
\<close>

definition space_inv :: "dst \<Rightarrow> seg_validator \<Rightarrow> bool" where
  "space_inv d v \<longleftrightarrow> dst_inv d \<and> sv_ok v \<and> sv_nr_segment v = ds_nr_segment d \<and>
     (\<forall>s < ds_nr_segment d. \<not> sv_valid v s \<longrightarrow> de_nr_valid_block (entry_at d s) = 0) \<and>
     (ds_logging_segno d \<noteq> INF_ADDR \<longrightarrow> sv_valid v (ds_logging_segno d)) \<and>
     (\<forall>s. ds_node_list d s \<longrightarrow> sv_valid v s)"

lemma space_invD:
  assumes "space_inv d v"
  shows "dst_inv d" and "dst_inv_except {ds_logging_segno d} d" and "sv_ok v"
    and "sv_nr_segment v = ds_nr_segment d"
    and "s < ds_nr_segment d \<Longrightarrow> \<not> sv_valid v s \<Longrightarrow> de_nr_valid_block (entry_at d s) = 0"
    and "ds_logging_segno d \<noteq> INF_ADDR \<Longrightarrow> sv_valid v (ds_logging_segno d)"
    and "ds_node_list d s \<Longrightarrow> sv_valid v s"
  using assms unfolding space_inv_def dst_inv_def by blast+

text \<open>What a found block is, relative to the state \<open>(d, v, n)\<close> before.\<close>

definition logging_found ::
  "dst \<Rightarrow> seg_validator \<Rightarrow> nat \<Rightarrow> dm_block_t \<Rightarrow> dst \<Rightarrow> seg_validator \<Rightarrow> nat \<Rightarrow> bool" where
  "logging_found d v n p d' v' n' \<longleftrightarrow>
     p < ds_nr_segment d * BLOCKS_PER_SEGMENT \<and> \<not> dst_valid d p \<and>
     dst_valid d' = (dst_valid d)(p := True) \<and> space_inv d' v' \<and> sv_valid v' (block_to_segment p) \<and>
     ds_nr_segment d' = ds_nr_segment d \<and> n' + sv_count v = n + sv_count v'"

lemma room_bit:
  assumes "dst_entry_ok e" and "de_nr_valid_block e < BLOCKS_PER_SEGMENT"
  shows "find_first_zero_bit (de_block_validity_table e) BLOCKS_PER_SEGMENT < BLOCKS_PER_SEGMENT"
proof -
  have "nr_bits (de_block_validity_table e) \<noteq> BLOCKS_PER_SEGMENT"
    using assms by (simp add: dst_entry_ok_def)
  then show ?thesis
    by (simp add: find_first_zero_bit_less_iff nr_bits_full)
qed

text \<open>One pass with a logging segment that has room.\<close>

lemma logging_room:
  assumes inv: "space_inv d v" and "ds_logging_segno d \<noteq> INF_ADDR"
    and room: "de_nr_valid_block (entry_at d (ds_logging_segno d)) < BLOCKS_PER_SEGMENT"
  shows "\<exists>p d'. dst_logging_loop (Suc fuel) (d, v, n) = Some (Inr p, d', v, n) \<and>
    logging_found d v n p d' v n"
proof -
  let ?s = "ds_logging_segno d"
  let ?e = "entry_at d ?s"
  let ?o = "find_first_zero_bit (de_block_validity_table ?e) BLOCKS_PER_SEGMENT"
  let ?e' = "\<lparr>de_nr_valid_block = de_nr_valid_block ?e + 1,
    de_block_validity_table = (de_block_validity_table ?e)(?o := True)\<rparr>"
  let ?d = "d\<lparr>ds_array := (ds_array d)\<lparr>ar_cells := (entry_at d)(?s := ?e')\<rparr>\<rparr>"
  let ?p = "?s * BLOCKS_PER_SEGMENT + ?o"
  note D = dst_inv_exceptD [OF space_invD(2) [OF inv]]
  have s: "?s < ds_nr_segment d" using D(11) assms(2) by simp
  have ok: "dst_entry_ok ?e" using D(4) s .
  have o: "?o < BLOCKS_PER_SEGMENT" using room_bit [OF ok room] .
  have nb: "\<not> de_block_validity_table ?e ?o" using find_first_zero_bit_found [OF o] .
  have a: "block_to_segment ?p = ?s" "block_offset_within_segment ?p = ?o"
    using block_address [OF o] by simp_all
  have ok': "dst_entry_ok ?e'" using ok nb nr_bits_set [OF o] by (simp add: dst_entry_ok_def)
  have run: "dst_logging_loop (Suc fuel) (d, v, n) = Some (Inr ?p, ?d, v, n)"
    using assms(2) room o D(1,2) s by (simp add: dst_logging_loop.simps(2) arr_simps Let_def)
  have "dst_inv_except {?s} ?d" using set_entry_inv [OF space_invD(2) [OF inv] s ok'] by simp
  then have "space_inv ?d v"
    using inv space_invD(6) [OF inv assms(2)] unfolding space_inv_def dst_inv_def by auto
  moreover have "dst_valid ?d = (dst_valid d)(?p := True)"
    by (rule dst_valid_upd [of _ _ _ ?e']) (simp_all add: a)
  moreover have "?p < ds_nr_segment d * BLOCKS_PER_SEGMENT"
    using s a(1) block_to_segment_less by metis
  moreover have "\<not> dst_valid d ?p" using nb by (simp add: dst_valid_def a)
  ultimately have "logging_found d v n ?p ?d v n"
    using space_invD(6) [OF inv assms(2)] by (simp add: logging_found_def a)
  with run show ?thesis by blast
qed

text \<open>A pass that starts without a logging segment and has a victim uses that victim's segment.\<close>

lemma logging_victim:
  assumes inv: "space_inv d v" and "ds_logging_segno d = INF_ADDR" and "\<not> dst_victim_empty d"
  shows "\<exists>p d'. dst_logging_loop (Suc fuel) (d, v, n) = Some (Inr p, d', v, n) \<and>
    logging_found d v n p d' v n"
proof -
  note I = space_invD [OF inv] and D = dst_inv_exceptD [OF space_invD(2) [OF inv]]
  have ne: "victim_list d \<noteq> []" using assms(3) by (cases "ds_victims d") (auto simp: dst_victim_empty_def)
  let ?v = "last (victim_list d)"
  let ?s = "vic_segno ?v"
  let ?d = "dst_destroy_victim (d\<lparr>ds_logging_segno := ?s\<rparr>) ?s"
  have mem: "?v \<in> set (victim_list d)" using ne by (rule last_in_set)
  have s: "?s < ds_nr_segment d" "?s \<noteq> INF_ADDR" using D(3) D(8) [OF mem] by simp_all
  have cur: "victim_current d ?v" using D(10) [OF mem] s(2) assms(2) by simp
  have sel: "ds_logging_segno ?d = ?s" "ds_array ?d = ds_array d" "ds_nr_segment ?d = ds_nr_segment d"
    "ds_node_list ?d = (ds_node_list d)(?s := False)"
    by (simp_all add: dst_destroy_victim_def)
  have "dst_logging_loop (Suc fuel) (d, v, n) = dst_logging_loop (Suc fuel) (?d, v, n)"
    using assms(2,3) s ne by (simp add: dst_logging_loop.simps(2) sel rb_last_inorder Let_def)
  moreover have "dst_inv_except {INF_ADDR, ?s} (d\<lparr>ds_logging_segno := ?s\<rparr>)"
    using I(2) assms(2) s unfolding dst_inv_except_def victim_current_def by auto
  then have "dst_inv_except {INF_ADDR} ?d"
    unfolding dst_destroy_victim_def by (intro remove_victim_inv) (simp add: insert_commute)
  then have "dst_inv_except {?s} ?d"
    using s D(3) unfolding dst_inv_except_def by fastforce
  then have "space_inv ?d v"
    using I(3,4,5,7) D(7) mem unfolding space_inv_def dst_inv_def by (simp add: sel)
  moreover have "de_nr_valid_block (entry_at ?d (ds_logging_segno ?d)) < BLOCKS_PER_SEGMENT"
    using cur D(9) [OF mem] by (simp add: sel victim_current_def)
  ultimately obtain p d' where "dst_logging_loop (Suc fuel) (d, v, n) = Some (Inr p, d', v, n)"
    and f: "logging_found ?d v n p d' v n"
    using logging_room [of ?d v fuel n] s by (auto simp: sel)
  moreover have "dst_valid ?d = dst_valid d" by (simp add: fun_eq_iff dst_valid_def sel)
  then have "logging_found d v n p d' v n" using f by (simp add: logging_found_def sel)
  ultimately show ?thesis by blast
qed

text \<open>What the search answers, found or not.\<close>

definition logging_outcome ::
  "dst \<Rightarrow> seg_validator \<Rightarrow> nat \<Rightarrow> (dm_block_t result \<times> logging_state) option \<Rightarrow> bool" where
  "logging_outcome d v n res \<longleftrightarrow>
     (\<exists>r d' v' n'. res = Some (r, d', v', n') \<and>
       (case r of
          Inr p \<Rightarrow> logging_found d v n p d' v' n'
        | Inl e \<Rightarrow> e = ENODATA \<and> (\<forall>s < ds_nr_segment d. sv_valid v s) \<and> dst_valid d' = dst_valid d \<and>
            space_inv d' v' \<and> n' = n))"

lemma logging_outcome_found:
  "\<exists>p d'. res = Some (Inr p, d', v, n) \<and> logging_found d v n p d' v n \<Longrightarrow> logging_outcome d v n res"
  unfolding logging_outcome_def by fastforce

lemma space_inv_sv:
  assumes "space_inv d v" and "sv_ok v'" and "sv_nr_segment v' = sv_nr_segment v"
    and "\<And>s. sv_valid v s \<Longrightarrow> sv_valid v' s"
  shows "space_inv d v'"
  using assms unfolding space_inv_def by auto

lemma logging_none:
  assumes inv: "space_inv d v" and "ds_logging_segno d = INF_ADDR"
  shows "logging_outcome d v n (dst_logging_loop (Suc (Suc fuel)) (d, v, n))"
proof (cases "dst_victim_empty d")
  case False
  from logging_victim [OF inv assms(2) this, of "Suc fuel" n] show ?thesis
    by (rule logging_outcome_found)
next
  case empty: True
  note I = space_invD [OF inv] and D = dst_inv_exceptD [OF space_invD(2) [OF inv]]
  show ?thesis
    using I(3)
  proof (cases rule: sv_alloc_cases)
    case (found s v')
    let ?d = "d\<lparr>ds_logging_segno := s\<rparr>"
    obtain v1 u where nt: "seg_validator_next v = (Inr s, v1)" "seg_validator_take v1 s = (Inr u, v')"
      using found(1) by (auto simp: sv_alloc_def split: prod.splits sum.splits)
    have s: "s < ds_nr_segment d" "s \<noteq> INF_ADDR" using found(2) I(4) D(3) by simp_all
    have e0: "de_nr_valid_block (entry_at d s) = 0" using I(5) s(1) found(3) by blast
    have "dst_logging_loop (Suc (Suc fuel)) (d, v, n) = dst_logging_loop (Suc fuel) (?d, v', n + 1)"
      using assms(2) empty nt by (simp add: dst_logging_loop.simps(2) [of "Suc fuel"])
    moreover have "space_inv ?d v'"
    proof -
      have "dst_inv_except {s} ?d"
        using I(2) s empty unfolding dst_inv_except_def victim_current_def dst_victim_empty_def by simp
      then show ?thesis
        using space_inv_sv [OF inv found(5)] found(4,6) unfolding space_inv_def dst_inv_def by auto
    qed
    ultimately obtain p d' where
      run: "dst_logging_loop (Suc (Suc fuel)) (d, v, n) = Some (Inr p, d', v', n + 1)"
      and f: "logging_found ?d v' (n + 1) p d' v' (n + 1)"
      using logging_room [of ?d v' fuel "n + 1"] s e0 by auto
    have "dst_valid ?d = dst_valid d" by (simp add: fun_eq_iff dst_valid_def)
    then have "logging_found d v n p d' v' (n + 1)"
      using f found(7) by (simp add: logging_found_def)
    with run show ?thesis unfolding logging_outcome_def by fastforce
  next
    case (full v')
    then have nx: "seg_validator_next v = (Inl ENODATA, v') \<or>
        (\<exists>s v1. seg_validator_next v = (Inr s, v1) \<and> seg_validator_take v1 s = (Inl ENODATA, v'))"
      by (auto simp: sv_alloc_def split: prod.splits sum.splits)
    have "seg_validator_next v = (Inl ENODATA, v')"
    proof (cases rule: next_cases [of v])
      case (found s)
      then have "fst (seg_validator_take (v\<lparr>sv_cur_segment := s\<rparr>) s) = Inr ()"
        using I(3) by (intro take_in(1)) simp_all
      with nx found(1) show ?thesis by auto
    next
      case full
      then show ?thesis using nx by auto
    qed
    then have "dst_logging_loop (Suc (Suc fuel)) (d, v, n) = Some (Inl ENODATA, d, v', n)"
      using assms(2) empty by (simp add: dst_logging_loop.simps(2) [of "Suc fuel"])
    moreover have "\<forall>s < ds_nr_segment d. sv_valid v s"
      using full(5) I(4) card_Collect_less_full [of "sv_nr_segment v" "sv_valid v"]
      by (simp add: sv_count_def)
    moreover have "space_inv d v'" using space_inv_sv [OF inv full(2,4)] full(3) by simp
    ultimately show ?thesis by (simp add: logging_outcome_def)
  qed
qed

lemma logging_full:
  assumes inv: "space_inv d v" and log: "ds_logging_segno d \<noteq> INF_ADDR"
    and full: "\<not> de_nr_valid_block (entry_at d (ds_logging_segno d)) < BLOCKS_PER_SEGMENT"
  shows "\<exists>d'. dst_logging_loop (Suc fuel) (d, v, n) = dst_logging_loop fuel (d', v, n) \<and>
    space_inv d' v \<and> ds_logging_segno d' = INF_ADDR \<and> dst_valid d' = dst_valid d \<and>
    ds_nr_segment d' = ds_nr_segment d"
proof -
  let ?s = "ds_logging_segno d"
  let ?d = "(dst_destroy_victim d ?s)\<lparr>ds_logging_segno := INF_ADDR\<rparr>"
  note I = space_invD [OF inv] and D = dst_inv_exceptD [OF space_invD(2) [OF inv]]
  have s: "?s < ds_nr_segment d" using D(11) log by simp
  have "dst_logging_loop (Suc fuel) (d, v, n) = dst_logging_loop fuel (?d, v, n)"
    using log full s D(1,2) by (simp add: dst_logging_loop.simps(2) arr_simps Let_def)
  moreover have "dst_inv_except {} (dst_remove_victim d ?s)"
    using remove_victim_inv [of ?s "{}"] I(2) by simp
  then have "dst_inv_except {INF_ADDR} ?d"
    unfolding dst_destroy_victim_def dst_inv_except_def victim_current_def by auto
  then have "space_inv ?d v"
    using inv unfolding space_inv_def dst_inv_def by (auto simp: dst_destroy_victim_def)
  moreover have "dst_valid ?d = dst_valid d"
    by (simp add: fun_eq_iff dst_valid_def dst_destroy_victim_def)
  ultimately show ?thesis by (intro exI [of _ ?d]) (simp add: dst_destroy_victim_def)
qed

lemma logging_block_outcome:
  assumes "space_inv d v"
  shows "logging_outcome d v n (dst_find_logging_block (d, v, n))"
proof -
  let ?f = "ds_nr_segment d + sv_nr_segment v"
  have "logging_outcome d v n (dst_logging_loop (Suc (Suc (Suc ?f))) (d, v, n))"
  proof (cases "ds_logging_segno d = INF_ADDR")
    case True
    then show ?thesis by (rule logging_none [OF assms])
  next
    case log: False
    show ?thesis
    proof (cases "de_nr_valid_block (entry_at d (ds_logging_segno d)) < BLOCKS_PER_SEGMENT")
      case True
      from logging_room [OF assms log True] show ?thesis by (rule logging_outcome_found)
    next
      case False
      from logging_full [OF assms log False, of "Suc (Suc ?f)" n] obtain d' where
        eq: "dst_logging_loop (Suc (Suc (Suc ?f))) (d, v, n) = dst_logging_loop (Suc (Suc ?f)) (d', v, n)"
        and d': "space_inv d' v" "ds_logging_segno d' = INF_ADDR" "dst_valid d' = dst_valid d"
          "ds_nr_segment d' = ds_nr_segment d" by blast
      from logging_none [OF d'(1,2), of n ?f] show ?thesis
        unfolding eq logging_outcome_def logging_found_def d'(3,4) .
    qed
  qed
  then show ?thesis by (simp add: dst_find_logging_block_def numeral_3_eq_3)
qed

text \<open>
  C18. Threaded logging hands out only free blocks, and always returns.  When table and validator
  agree, the search ends (its retries are bounded), and it either answers a block of the device that
  was not valid, which it marks and no other, in a segment that is marked in use, with the
  allocator's count of segments kept equal to the validator's; or it answers \<open>ENODATA\<close>, and then
  every segment was in use.  In both cases the invariant holds again.
\<close>

theorem logging_block_fresh:
  assumes "space_inv d v"
  shows "case dst_find_logging_block (d, v, sv_count v) of
      None \<Rightarrow> False
    | Some (Inr p, d', v', n') \<Rightarrow>
        p < ds_nr_segment d * BLOCKS_PER_SEGMENT \<and> \<not> dst_valid d p \<and>
        dst_valid d' = (dst_valid d)(p := True) \<and> sv_valid v' (block_to_segment p) \<and>
        n' = sv_count v' \<and> space_inv d' v'
    | Some (Inl e, d', v', n') \<Rightarrow>
        e = ENODATA \<and> (\<forall>s < ds_nr_segment d. sv_valid v s) \<and> dst_valid d' = dst_valid d \<and>
        space_inv d' v'"
proof -
  obtain r d' v' n' where
    run: "dst_find_logging_block (d, v, sv_count v) = Some (r, d', v', n')" and
    res: "case r of
        Inr p \<Rightarrow> logging_found d v (sv_count v) p d' v' n'
      | Inl e \<Rightarrow> e = ENODATA \<and> (\<forall>s < ds_nr_segment d. sv_valid v s) \<and> dst_valid d' = dst_valid d \<and>
          space_inv d' v' \<and> n' = sv_count v"
    using logging_block_outcome [OF assms, of "sv_count v"] unfolding logging_outcome_def by blast
  show ?thesis
    by (cases r) (use run res in \<open>simp_all add: logging_found_def\<close>)
qed

section \<open>Loading\<close>

lemma load_loop_inv:
  assumes "dst_inv_except {} d" and "distinct xs"
    and "\<And>s. s \<in> set xs \<Longrightarrow> s < ds_nr_segment d \<and> \<not> ds_node_list d s"
  shows "\<exists>d'. dst_load_loop d xs = (Inr (), d') \<and> dst_inv_except {} d' \<and> ds_array d' = ds_array d \<and>
    ds_nr_segment d' = ds_nr_segment d \<and> ds_logging_segno d' = ds_logging_segno d \<and>
    (\<forall>s. ds_node_list d' s \<longleftrightarrow> ds_node_list d s \<or>
       s \<in> set xs \<and> 0 < de_nr_valid_block (entry_at d s) \<and>
       de_nr_valid_block (entry_at d s) < BLOCKS_PER_SEGMENT)"
  using assms
proof (induction xs arbitrary: d)
  case Nil
  then show ?case by simp
next
  case (Cons x xs)
  let ?e = "entry_at d x"
  note D = dst_inv_exceptD [OF Cons.prems(1)]
  have x: "x < ds_nr_segment d" "\<not> ds_node_list d x" "x \<notin> set xs" using Cons.prems by auto
  have g: "darray_get (ds_array d) x = Inr ?e" using D(1,2) x(1) by (simp add: arr_simps)
  show ?case
  proof (cases "0 < de_nr_valid_block ?e \<and> de_nr_valid_block ?e < BLOCKS_PER_SEGMENT")
    case True
    obtain r d1 where a:
      "dst_add_victim d x (de_nr_valid_block ?e) (de_block_validity_table ?e) = (r, d1)" by fastforce
    note A = add_victim_inv [OF Cons.prems(1) x(1,2) conjunct2 [OF True] a]
    have "\<exists>d'. dst_load_loop d1 xs = (Inr (), d') \<and> dst_inv_except {} d' \<and> ds_array d' = ds_array d1 \<and>
      ds_nr_segment d' = ds_nr_segment d1 \<and> ds_logging_segno d' = ds_logging_segno d1 \<and>
      (\<forall>s. ds_node_list d' s \<longleftrightarrow> ds_node_list d1 s \<or>
         s \<in> set xs \<and> 0 < de_nr_valid_block (entry_at d1 s) \<and>
         de_nr_valid_block (entry_at d1 s) < BLOCKS_PER_SEGMENT)"
      using A Cons.prems x by (intro Cons.IH) auto
    with A True a g show ?thesis by auto
  next
    case False
    then have "snd (dst_add_victim d x (de_nr_valid_block ?e) (de_block_validity_table ?e)) = d"
      if "de_nr_valid_block ?e \<noteq> 0" using that by (auto simp: dst_add_victim_def)
    then have "dst_load_loop d (x # xs) = dst_load_loop d xs" using g by auto
    with Cons.IH [OF Cons.prems(1)] Cons.prems(2,3) False show ?thesis by auto
  qed
qed

lemma init_inv:
  assumes "healthy arr" and "n \<le> ar_nr arr" and "n \<le> INF_ADDR"
    and "\<forall>s < n. dst_entry_ok (ar_cells arr s)"
  shows "\<exists>d. dst_init arr n = (Inr (), d) \<and> dst_inv d \<and> ds_nr_segment d = n \<and>
    ds_logging_segno d = INF_ADDR \<and> ds_array d = arr\<lparr>ar_nr := n\<rparr> \<and>
    (\<forall>s. ds_node_list d s \<longleftrightarrow> s < n \<and> 0 < de_nr_valid_block (ar_cells arr s) \<and>
       de_nr_valid_block (ar_cells arr s) < BLOCKS_PER_SEGMENT)"
proof -
  let ?d = "\<lparr>ds_nr_segment = n, ds_logging_segno = INF_ADDR, ds_array = arr\<lparr>ar_nr := n\<rparr>,
    ds_victims = Leaf, ds_node_list = (\<lambda>_. False)\<rparr>"
  have "dst_inv_except {} ?d" using assms by (simp add: dst_inv_except_def healthy_def)
  from load_loop_inv [OF this, of "[0..<n]"] obtain d where
    "dst_load_loop ?d [0..<n] = (Inr (), d)" "dst_inv_except {} d" "ds_nr_segment d = n"
    "ds_logging_segno d = INF_ADDR" "ds_array d = arr\<lparr>ar_nr := n\<rparr>"
    "\<forall>s. ds_node_list d s \<longleftrightarrow> s < n \<and> 0 < de_nr_valid_block (ar_cells arr s) \<and>
       de_nr_valid_block (ar_cells arr s) < BLOCKS_PER_SEGMENT"
    by auto
  then show ?thesis
    using dst_inv_except_mono [of "{}" d] by (auto simp: dst_init_def dst_load_def dst_inv_def)
qed

lemma fresh_space_inv:
  assumes "n \<le> INF_ADDR" and "dst_init (fresh_darray n empty_entry) n = (r, d)"
    and "v = seg_validator_init (fresh_darray (disk_bitset_nr_group n) 0) n"
  shows "space_inv d v"
proof -
  obtain d' where "dst_init (fresh_darray n empty_entry) n = (Inr (), d')" "dst_inv d'"
    "ds_nr_segment d' = n" "ds_logging_segno d' = INF_ADDR" "ds_array d' = (fresh_darray n empty_entry)\<lparr>ar_nr := n\<rparr>"
    "\<forall>s. \<not> ds_node_list d' s"
    using init_inv [of "fresh_darray n empty_entry" n] assms(1) by auto
  moreover have "sv_ok v" "sv_nr_segment v = n"
    unfolding assms(3) by (simp_all add: sv_ok_init) (simp add: seg_validator_init_def)
  ultimately show ?thesis using assms(2) by (simp add: space_inv_def)
qed

theorem logging_block_fresh_witness:
  "case dst_find_logging_block
      (snd (dst_init (fresh_darray 3 empty_entry) 3),
       seg_validator_init (fresh_darray (disk_bitset_nr_group 3) 0) 3,
       sv_count (seg_validator_init (fresh_darray (disk_bitset_nr_group 3) 0) 3)) of
     None \<Rightarrow> False
   | Some (Inr p, d', v', n') \<Rightarrow> dst_valid d' p \<and> sv_valid v' (block_to_segment p)
   | Some (Inl e, d', v', n') \<Rightarrow> False"
proof -
  let ?d = "snd (dst_init (fresh_darray 3 empty_entry) 3)"
  let ?v = "seg_validator_init (fresh_darray (disk_bitset_nr_group 3) 0) 3"
  obtain r d where d: "dst_init (fresh_darray 3 empty_entry) 3 = (r, d)" by (metis surj_pair)
  have inv: "space_inv ?d ?v" using fresh_space_inv [OF _ d refl] by (simp add: d INF_ADDR_def)
  have "\<not> sv_valid ?v 0" "ds_nr_segment ?d = 3"
    using space_invD(4) [OF inv]
    by (simp_all add: sv_valid_def bits_def seg_validator_init_def disk_bitset_init_def)
  with logging_block_fresh [OF inv] show ?thesis
    by (auto split: option.splits sum.splits prod.splits)
qed

text \<open>
  C23. Loading the table finds the partly filled segments.  Reading a readable table of consistent
  entries succeeds and makes a victim of exactly the segments that have both a valid and a free
  block; a segment without any valid block gets none.
\<close>

theorem dst_load_victims:
  assumes "healthy arr" and "n \<le> ar_nr arr" and "n \<le> INF_ADDR"
    and "\<forall>s < n. de_nr_valid_block (ar_cells arr s) =
      card {i. i < BLOCKS_PER_SEGMENT \<and> de_block_validity_table (ar_cells arr s) i}"
    and "dst_init arr n = (r, d)"
  shows "r = Inr () \<and> dst_inv d \<and>
    vic_segno ` set (inorder (ds_victims d)) =
      {s. s < n \<and> (\<exists>i < BLOCKS_PER_SEGMENT. de_block_validity_table (ar_cells arr s) i) \<and>
          (\<exists>i < BLOCKS_PER_SEGMENT. \<not> de_block_validity_table (ar_cells arr s) i)}"
proof -
  have ok: "\<forall>s < n. dst_entry_ok (ar_cells arr s)"
    using assms(4) by (simp add: dst_entry_ok_def nr_bits_def)
  from init_inv [OF assms(1-3) this] assms(5) have d: "r = Inr ()" "dst_inv d"
    and nl: "\<And>s. ds_node_list d s \<longleftrightarrow> s < n \<and> 0 < de_nr_valid_block (ar_cells arr s) \<and>
       de_nr_valid_block (ar_cells arr s) < BLOCKS_PER_SEGMENT" by auto
  have "ds_node_list d s \<longleftrightarrow> s < n \<and> (\<exists>i < BLOCKS_PER_SEGMENT. de_block_validity_table (ar_cells arr s) i) \<and>
      (\<exists>i < BLOCKS_PER_SEGMENT. \<not> de_block_validity_table (ar_cells arr s) i)" for s
  proof (cases "s < n")
    case True
    let ?b = "de_block_validity_table (ar_cells arr s)"
    have e: "de_nr_valid_block (ar_cells arr s) = nr_bits ?b" using ok True by (simp add: dst_entry_ok_def)
    have "0 < nr_bits ?b \<longleftrightarrow> (\<exists>i < BLOCKS_PER_SEGMENT. ?b i)"
      unfolding nr_bits_def by (subst card_gt_0_iff) auto
    moreover have "nr_bits ?b < BLOCKS_PER_SEGMENT \<longleftrightarrow> (\<exists>i < BLOCKS_PER_SEGMENT. \<not> ?b i)"
      using nr_bits_full [of ?b] nr_bits_le [of ?b] by (auto simp: less_le)
    ultimately show ?thesis using True nl e by simp
  next
    case False
    then show ?thesis using nl by simp
  qed
  moreover have "vic_segno ` set (victim_list d) = {s. ds_node_list d s}"
    using dst_inv_exceptD(7) d(2) unfolding dst_inv_def by blast
  ultimately show ?thesis using d by auto
qed

theorem dst_load_victims_witness:
  "vic_segno ` set (inorder (ds_victims (snd (dst_init
      ((fresh_darray 4 empty_entry)\<lparr>ar_cells := (\<lambda>_. empty_entry)(2 :=
         \<lparr>de_nr_valid_block = 1, de_block_validity_table = (\<lambda>i. i = 7)\<rparr>)\<rparr>) 4)))) = {2}"
proof -
  let ?e = "\<lparr>de_nr_valid_block = 1, de_block_validity_table = (\<lambda>i::nat. i = 7)\<rparr>"
  let ?arr = "(fresh_darray 4 empty_entry)\<lparr>ar_cells := (\<lambda>_. empty_entry)(2 := ?e)\<rparr>"
  obtain r d where d: "dst_init ?arr 4 = (r, d)" by (metis surj_pair)
  have c: "card {i. i < BLOCKS_PER_SEGMENT \<and> i = 7} = 1"
    by (simp add: consts_simps Collect_conv_if conj_commute cong: conj_cong)
  have "vic_segno ` set (inorder (ds_victims d)) =
      {s. s < 4 \<and> (\<exists>i < BLOCKS_PER_SEGMENT. de_block_validity_table (ar_cells ?arr s) i) \<and>
          (\<exists>i < BLOCKS_PER_SEGMENT. \<not> de_block_validity_table (ar_cells ?arr s) i)}"
    using dst_load_victims [OF _ _ _ _ d] c by (auto simp: INF_ADDR_def)
  also have "\<dots> = {2}"
    by (auto simp: consts_simps intro: exI [of _ 7] exI [of _ 8] split: if_splits)
  finally show ?thesis by (simp only: d snd_conv)
qed

section \<open>Cleaning takes the emptiest segment\<close>

lemma pop_victim_spec:
  assumes "dst_inv d" and "dst_pop_victim d = (Some v, d')"
  shows "v \<in> set (victim_list d)" and "\<forall>w \<in> set (victim_list d). vic_nr_valid_block v \<le> vic_nr_valid_block w"
    and "d' = dst_remove_victim d (vic_segno v)" and "dst_inv d'"
    and "set (victim_list d') = set (victim_list d) - {v}"
proof -
  have inv: "dst_inv_except {ds_logging_segno d} d" using assms(1) by (simp add: dst_inv_def)
  note D = dst_inv_exceptD [OF inv]
  obtain xs where l: "victim_list d = v # xs"
    using assms(2) by (cases "victim_list d")
      (auto simp: dst_pop_victim_def rb_first_inorder split: if_splits)
  show d': "d' = dst_remove_victim d (vic_segno v)"
    using assms(2) l by (simp add: dst_pop_victim_def rb_first_inorder)
  show "v \<in> set (victim_list d)"
    "\<forall>w \<in> set (victim_list d). vic_nr_valid_block v \<le> vic_nr_valid_block w"
    using D(5) unfolding l by auto
  have "dst_inv_except {ds_logging_segno d} d'"
    unfolding d' by (rule remove_victim_inv) (rule dst_inv_except_mono [OF inv], blast)
  then show "dst_inv d'" by (simp add: dst_inv_def d')
  show "set (victim_list d') = set (victim_list d) - {v}"
    using D(6) unfolding d' remove_victim_list [OF inv] l by (auto simp: image_iff)
qed

text \<open>
  C24. Cleaning picks the segment with the fewest valid blocks.  The victim that \<^verbatim>\<open>pop_victim\<close> takes
  out carries the least count of the tree; unless it is the segment threaded logging is filling, that
  count and its bitmap are those stored in the table, so that no other victim (the logging segment
  apart) has fewer valid blocks on disk.  The invariant is kept.
\<close>

theorem pop_victim_emptiest:
  assumes "dst_inv d" and "dst_pop_victim d = (Some v, d')" and "vic_segno v \<noteq> ds_logging_segno d"
  shows "dst_inv d' \<and>
    vic_nr_valid_block v = card {i. i < BLOCKS_PER_SEGMENT \<and> vic_block_validity_table v i} \<and>
    vic_block_validity_table v = de_block_validity_table (entry_at d (vic_segno v)) \<and>
    vic_segno v \<notin> vic_segno ` set (inorder (ds_victims d')) \<and>
    (\<forall>w \<in> set (inorder (ds_victims d)). vic_segno w \<noteq> ds_logging_segno d \<longrightarrow>
       de_nr_valid_block (entry_at d (vic_segno v)) \<le> de_nr_valid_block (entry_at d (vic_segno w)))"
proof -
  note P = pop_victim_spec [OF assms(1,2)]
  have inv: "dst_inv_except {ds_logging_segno d} d" using assms(1) by (simp add: dst_inv_def)
  note D = dst_inv_exceptD [OF inv]
  have cur: "victim_current d w" if "w \<in> set (victim_list d)" "vic_segno w \<noteq> ds_logging_segno d" for w
    using D(10) that by blast
  have ok: "dst_entry_ok (entry_at d (vic_segno v))" using D(4) D(8) P(1) by blast
  have "vic_segno v \<notin> vic_segno ` set (victim_list d')"
    using remove_victim_list [OF inv] unfolding P(3) by auto
  moreover have "de_nr_valid_block (entry_at d (vic_segno v)) \<le> de_nr_valid_block (entry_at d (vic_segno w))"
    if "w \<in> set (victim_list d)" "vic_segno w \<noteq> ds_logging_segno d" for w
    using P(2) that cur [OF that] cur [OF P(1) assms(3)] by (auto simp: victim_current_def)
  ultimately show ?thesis
    using P(4) cur [OF P(1) assms(3)] ok
    by (simp add: victim_current_def dst_entry_ok_def nr_bits_def)
qed

text \<open>
  C12. Giving up a block is exact.  On a block of the device \<^verbatim>\<open>return_block\<close> succeeds, whatever the
  state of the block, clears its bit and no other, keeps the stored count equal to the number of
  bits set, and makes its segment a victim as soon as it has a free block.
\<close>

theorem return_block_exact:
  assumes "dst_inv d" and "p < ds_nr_segment d * BLOCKS_PER_SEGMENT"
    and "dst_return_block d p = (r, d')"
  shows "r = Inr () \<and> dst_inv d' \<and> dst_valid d' = (dst_valid d)(p := False) \<and>
    de_nr_valid_block (entry_at d' (block_to_segment p)) =
      de_nr_valid_block (entry_at d (block_to_segment p)) - of_bool (dst_valid d p) \<and>
    (dst_valid d p \<longrightarrow> block_to_segment p \<in> vic_segno ` set (inorder (ds_victims d')))"
proof -
  let ?s = "block_to_segment p" and ?o = "block_offset_within_segment p"
  note R = return_block_spec [OF assms]
  have inv: "dst_inv_except {ds_logging_segno d} d" using assms(1) by (simp add: dst_inv_def)
  note D = dst_inv_exceptD [OF inv]
  have s: "?s < ds_nr_segment d" using assms(2) by simp
  have ok: "dst_entry_ok (entry_at d ?s)" "dst_entry_ok (entry_at d' ?s)"
    using D(4) [OF s] dst_inv_exceptD(4) [of _ d'] R s by (auto simp: dst_inv_def)
  have tab: "de_block_validity_table (entry_at d' ?s) o' =
      ((de_block_validity_table (entry_at d ?s))(?o := False)) o'" if "o' < BLOCKS_PER_SEGMENT" for o'
  proof -
    have "dst_valid d' (?s * BLOCKS_PER_SEGMENT + o') =
        ((dst_valid d)(p := False)) (?s * BLOCKS_PER_SEGMENT + o')" using R by simp
    moreover have "?s * BLOCKS_PER_SEGMENT + o' = p \<longleftrightarrow> o' = ?o"
      using block_address [OF that, of ?s] block_address_inj [of p "?s * BLOCKS_PER_SEGMENT + o'"] by auto
    ultimately show ?thesis using block_address [OF that, of ?s] by (auto simp: dst_valid_def)
  qed
  have "nr_bits (de_block_validity_table (entry_at d' ?s)) =
      nr_bits ((de_block_validity_table (entry_at d ?s))(?o := False))"
    unfolding nr_bits_def using tab by (metis (mono_tags, lifting))
  also have "\<dots> = nr_bits (de_block_validity_table (entry_at d ?s)) - of_bool (dst_valid d p)"
  proof (cases "dst_valid d p")
    case True
    then show ?thesis using nr_bits_clear [of ?o] by (simp add: dst_valid_def)
  next
    case False
    then have "(de_block_validity_table (entry_at d ?s))(?o := False) = de_block_validity_table (entry_at d ?s)"
      by (simp add: fun_eq_iff dst_valid_def)
    with False show ?thesis by simp
  qed
  finally have cnt: "de_nr_valid_block (entry_at d' ?s) =
      de_nr_valid_block (entry_at d ?s) - of_bool (dst_valid d p)"
    using ok by (simp add: dst_entry_ok_def)
  moreover have "?s \<in> vic_segno ` set (victim_list d')" if v: "dst_valid d p"
  proof -
    have "ds_node_list d' ?s" using R v by blast
    then show ?thesis using dst_inv_exceptD(7) [of _ d'] R by (auto simp: dst_inv_def)
  qed
  ultimately show ?thesis using R by blast
qed

text \<open>A table of three segments, the second of which is taken whole; then one of its blocks is given up.\<close>

definition demo_taken :: dst where
  "demo_taken = snd (dst_take_segment (snd (dst_init (fresh_darray 3 empty_entry) 3)) 1)"

lemma demo_taken_inv:
  "dst_inv demo_taken \<and> ds_nr_segment demo_taken = 3 \<and> ds_logging_segno demo_taken = INF_ADDR \<and>
   dst_valid demo_taken 1029"
proof -
  obtain d where d: "dst_init (fresh_darray 3 empty_entry) 3 = (Inr (), d)" "dst_inv d"
    "ds_nr_segment d = 3" "ds_logging_segno d = INF_ADDR"
    "ds_array d = (fresh_darray 3 empty_entry)\<lparr>ar_nr := 3\<rparr>"
    using init_inv [of "fresh_darray 3 empty_entry" 3] by (auto simp: INF_ADDR_def)
  obtain r d' where t: "dst_take_segment d 1 = (r, d')" by (metis surj_pair)
  from take_segment_spec [OF d(2) _ t] d(3,5) have "dst_inv d'" "ds_nr_segment d' = 3"
    "ds_logging_segno d' = INF_ADDR" "de_block_validity_table (entry_at d' 1) = (\<lambda>_. True)"
    by (simp_all add: d(4))
  moreover have "block_to_segment 1029 = 1" by (simp add: block_to_segment_def consts_simps)
  moreover have "demo_taken = d'" by (simp only: demo_taken_def d(1) t snd_conv)
  ultimately show ?thesis by (simp add: dst_valid_def)
qed

theorem return_block_exact_witness:
  "fst (dst_return_block demo_taken 1029) = Inr () \<and>
   dst_valid (snd (dst_return_block demo_taken 1029)) = (dst_valid demo_taken)(1029 := False)"
proof -
  obtain r d' where t: "dst_return_block demo_taken 1029 = (r, d')" by (metis surj_pair)
  have "(1029 :: nat) < ds_nr_segment demo_taken * BLOCKS_PER_SEGMENT"
    using demo_taken_inv by (simp add: consts_simps)
  from return_block_exact [OF _ this t] demo_taken_inv t show ?thesis by simp
qed

theorem pop_victim_emptiest_witness:
  "\<exists>v d'. dst_pop_victim (snd (dst_return_block demo_taken 1029)) = (Some v, d') \<and>
     vic_nr_valid_block v = card {i. i < BLOCKS_PER_SEGMENT \<and> vic_block_validity_table v i} \<and> dst_inv d'"
proof -
  obtain r d where t: "dst_return_block demo_taken 1029 = (r, d)" by (metis surj_pair)
  have p: "(1029 :: nat) < ds_nr_segment demo_taken * BLOCKS_PER_SEGMENT"
    using demo_taken_inv by (simp add: consts_simps)
  note R = return_block_spec [OF _ p t]
  have d: "dst_inv d" "ds_logging_segno d = INF_ADDR" "ds_nr_segment d = 3"
    "ds_node_list d (block_to_segment 1029)"
    using R demo_taken_inv by simp_all
  have inv: "dst_inv_except {ds_logging_segno d} d" using d(1) by (simp add: dst_inv_def)
  note D = dst_inv_exceptD [OF inv]
  have "victim_list d \<noteq> []" using D(7) d(4) by auto
  then obtain v d' where pop: "dst_pop_victim d = (Some v, d')"
    by (auto simp: dst_pop_victim_def rb_first_inorder)
  have "vic_segno v < 3" using D(8) pop_victim_spec(1) [OF d(1) pop] d(3) by simp
  then have "vic_segno v \<noteq> ds_logging_segno d" by (simp add: d(2) INF_ADDR_def)
  from pop_victim_emptiest [OF d(1) pop this] pop t show ?thesis by auto
qed

end
