(* ===== verification/Compaction.thy ===== *)
theory Compaction
  imports Bit_Level Reverse_Index Data_Seg_Table "HOL-Library.Multiset"
begin

text \<open>
  \<^verbatim>\<open>lsm_tree.c\<close>, the compaction job: the files picked from one level are merged with the files of the
  next level that overlap them.  Of several records for a block the one of the newest file stays; the
  physical block of the record it replaces is given up unless the reverse index table has another
  owner for it; tombstones are dropped.

  The heap of the Linux kernel (\<^verbatim>\<open>min_heap.h\<close>) is a parameter, as are the cipher, the random keys of new
  files and what a fresh write buffer holds.  A pointer to a copied record is the record with the
  number of its allocation, since the code compares such pointers.
\<close>

section \<open>State and parameters\<close>

record kway_merge_node =
  kn_iter :: nat
  kn_key :: nat
  kn_val :: "nat \<times> blk_record"

record min_heap_ops =
  mh_push :: "kway_merge_node \<Rightarrow> kway_merge_node list \<Rightarrow> kway_merge_node list"
  mh_pop :: "kway_merge_node list \<Rightarrow> kway_merge_node list"

record 'c lsm_env =
  le_cipher :: "'c node_cipher"
  le_heap :: min_heap_ops
  le_vmem :: "nat \<Rightarrow> 'c"
  le_rnd :: "nat \<Rightarrow> byte list"

record 'c lsm_disk =
  ld_region :: "nat \<Rightarrow> 'c"
  ld_catalogue :: bit_catalogue
  ld_rit :: rit
  ld_dst :: dst

section \<open>Pieces of the job\<close>

definition interval_overlapping :: "int \<Rightarrow> int \<Rightarrow> int \<Rightarrow> int \<Rightarrow> bool" where
  "interval_overlapping begin1 end1 begin2 end2 \<longleftrightarrow> \<not> (end1 < begin2 \<or> begin1 > end2)"

definition lsm_file_overlapping :: "bit_file list \<Rightarrow> bool" where
  "lsm_file_overlapping files \<longleftrightarrow>
     (\<exists>f1 \<in> set files. \<exists>f2 \<in> set files. bf_id f1 \<noteq> bf_id f2 \<and>
        interval_overlapping (int (bf_first_key f1)) (int (bf_last_key f1))
          (int (bf_first_key f2)) (int (bf_last_key f2)))"

text \<open>
  Giving up the block of a replaced record.  \<open>None\<close> where \<^verbatim>\<open>new_lba\<close> would be compared without having
  been set.
\<close>

definition give_up_block :: "rit \<Rightarrow> dst \<Rightarrow> nat \<Rightarrow> blk_record \<Rightarrow> (rit \<times> dst) option" where
  "give_up_block rit dst old_lba old =
     (case reverse_index_table_reset rit (rec_pba old) old_lba of
        ((_, None), rit') \<Rightarrow> None
      | ((_, Some new_lba), rit') \<Rightarrow>
          Some (rit', if old_lba = new_lba then snd (dst_return_block dst (rec_pba old)) else dst))"

text \<open>A file moves to the next level as it is.\<close>

definition compaction_move_file ::
  "bit_level \<times> bit_level \<times> 'c lsm_disk \<Rightarrow> bit_file \<Rightarrow> bit_level \<times> bit_level \<times> 'c lsm_disk" where
  "compaction_move_file st file =
     (case st of (level1, level2, disk) \<Rightarrow>
        let (version, cat1) = bitc_get_next_version (ld_catalogue disk);
            file' = file\<lparr>bf_version := version, bf_level := bl_level level2\<rparr>;
            cat2 = snd (bitc_set_file_stats cat1 (bf_id file') (bit_file_get_stats file'))
        in (snd (bit_level_remove_file level1 (bf_id file')), snd (bit_level_add_file level2 file'),
            disk\<lparr>ld_catalogue := cat2\<rparr>))"

record 'c merge_state =
  mg_heap :: "kway_merge_node list"
  mg_iters :: "bit_iterator list"
  mg_addr :: nat
  mg_distinct :: kway_merge_node
  mg_new :: "(nat \<times> blk_record) option"
  mg_old :: "(nat \<times> blk_record) option"
  mg_builder :: "'c bit_builder"
  mg_level2 :: bit_level
  mg_fd :: nat
  mg_catalogue :: bit_catalogue
  mg_rit :: rit
  mg_dst :: dst

definition node_entry :: "kway_merge_node \<Rightarrow> nat \<times> blk_record" where
  "node_entry n = (kn_key n, snd (kn_val n))"

text \<open>\<^verbatim>\<open>iter->next\<close> of an iterator that has an entry left, and the push of that entry.\<close>

definition merge_push_next ::
  "'c lsm_env \<Rightarrow> (nat \<Rightarrow> 'c) \<Rightarrow> nat \<Rightarrow> kway_merge_node list \<times> bit_iterator list \<times> nat \<Rightarrow>
   (kway_merge_node list \<times> bit_iterator list \<times> nat) option" where
  "merge_push_next env region i st =
     (case st of (hp, iters, addr) \<Rightarrow>
        if bit_iterator_has_next (iters ! i) then
          (case bit_iterator_next (le_cipher env) region (iters ! i) of
             Some (Inr entry, iter') \<Rightarrow>
               Some (mh_push (le_heap env) \<lparr>kn_iter = i, kn_key = fst entry, kn_val = (addr, snd entry)\<rparr> hp,
                     iters[i := iter'], Suc addr)
           | _ \<Rightarrow> None)
        else Some (hp, iters, addr))"

fun merge_push_all ::
  "'c lsm_env \<Rightarrow> (nat \<Rightarrow> 'c) \<Rightarrow> nat list \<Rightarrow> kway_merge_node list \<times> bit_iterator list \<times> nat \<Rightarrow>
   (kway_merge_node list \<times> bit_iterator list \<times> nat) option" where
  "merge_push_all env region [] st = Some st"
| "merge_push_all env region (i # is) st =
     (case merge_push_next env region i st of None \<Rightarrow> None | Some st' \<Rightarrow> merge_push_all env region is st')"

text \<open>Two entries with the same key: which one is kept as \<^verbatim>\<open>distinct\<close>, which are \<^verbatim>\<open>new\<close> and \<^verbatim>\<open>old\<close>.\<close>

definition merge_same_key :: "'c merge_state \<Rightarrow> kway_merge_node \<Rightarrow> 'c merge_state" where
  "merge_same_key st first =
     (let df = it_bit_file (mg_iters st ! kn_iter (mg_distinct st));
          ff = it_bit_file (mg_iters st ! kn_iter first)
      in if bf_version df < bf_version ff
         then st\<lparr>mg_old := Some (node_entry (mg_distinct st)), mg_distinct := first\<rparr>
         else if bf_id df \<noteq> bf_id ff then st\<lparr>mg_old := Some (node_entry first)\<rparr>
         else if fst (kn_val (mg_distinct st)) \<noteq> fst (kn_val first)
         then st\<lparr>mg_new := Some (node_entry (mg_distinct st)), mg_distinct := first\<rparr>
         else st)"

text \<open>All entries of a key have been seen: what is written and what is given up.\<close>

definition merge_emit :: "'c lsm_env \<Rightarrow> 'c merge_state \<Rightarrow> 'c merge_state option" where
  "merge_emit env st =
     (let distinct = node_entry (mg_distinct st);
          neg = negative_record (snd distinct);
          new = (if neg then mg_new st else Some distinct)
      in case (case new of None \<Rightarrow> Some (mg_builder st)
               | Some entry \<Rightarrow> bit_builder_add_entry (le_cipher env) (mg_builder st) entry) of
           None \<Rightarrow> None
         | Some builder \<Rightarrow>
             (case (if neg then Some (mg_rit st, mg_dst st)
                    else case mg_old st of
                           None \<Rightarrow> Some (mg_rit st, mg_dst st)
                         | Some (lba, old) \<Rightarrow> give_up_block (mg_rit st) (mg_dst st) lba old) of
                None \<Rightarrow> None
              | Some (rit, dst) \<Rightarrow>
                  Some (st\<lparr>mg_builder := builder, mg_rit := rit, mg_dst := dst,
                           mg_new := None, mg_old := None\<rparr>)))"

definition compaction_get_builder ::
  "'c lsm_env \<Rightarrow> (nat \<Rightarrow> 'c) \<Rightarrow> bit_catalogue \<Rightarrow> nat \<Rightarrow> nat \<Rightarrow> nat \<Rightarrow> 'c bit_builder" where
  "compaction_get_builder env region cat fd level version =
     bit_builder_init (le_vmem env) (le_rnd env version) region (bc_start cat + fd * bc_file_size cat)
       fd level version"

text \<open>A finished file enters the catalogue and the level.\<close>

definition merge_add_file :: "'c lsm_env \<Rightarrow> 'c merge_state \<Rightarrow> (nat \<Rightarrow> 'c) \<times> 'c merge_state" where
  "merge_add_file env st =
     (let (file, region) = bit_builder_complete (le_cipher env) (mg_builder st)
      in (region,
          st\<lparr>mg_catalogue := snd (bitc_set_file_stats (mg_catalogue st) (bf_id file) (bit_file_get_stats file)),
             mg_level2 := snd (bit_level_add_file (mg_level2 st) file)\<rparr>))"

text \<open>The number \<^verbatim>\<open>fd\<close> stays as it is when no slot is free (the result is not checked).\<close>

definition merge_next_file :: "'c lsm_env \<Rightarrow> 'c merge_state \<Rightarrow> 'c merge_state" where
  "merge_next_file env st =
     (let (region, st1) = merge_add_file env st;
          (r, cat1) = bitc_alloc_file (mg_catalogue st1);
          fd = (case r of Inr fd \<Rightarrow> fd | Inl _ \<Rightarrow> mg_fd st1);
          (version, cat2) = bitc_get_next_version cat1
      in st1\<lparr>mg_catalogue := cat2, mg_fd := fd,
             mg_builder := compaction_get_builder env region cat2 fd (bl_level (mg_level2 st1)) version\<rparr>)"

text \<open>The loop; not ending is the value \<open>None\<close>.\<close>

partial_function (option) merge_loop :: "'c lsm_env \<Rightarrow> 'c merge_state \<Rightarrow> 'c merge_state option" where
  "merge_loop env st =
     (if mg_heap st = [] then Some st
      else
        let first = hd (mg_heap st)
        in case merge_push_next env (bb_file (mg_builder st)) (kn_iter first)
                  (mh_pop (le_heap env) (mg_heap st), mg_iters st, mg_addr st) of
             None \<Rightarrow> None
           | Some (hp, iters, addr) \<Rightarrow>
               let st1 = st\<lparr>mg_heap := hp, mg_iters := iters, mg_addr := addr\<rparr>
               in if kn_key (mg_distinct st1) = kn_key first then merge_loop env (merge_same_key st1 first)
                  else case merge_emit env st1 of
                         None \<Rightarrow> None
                       | Some st2 \<Rightarrow>
                           let st3 = st2\<lparr>mg_distinct := first\<rparr>
                           in merge_loop env
                                (if bb_size (mg_builder st3) \<ge> DEFAULT_LSM_FILE_CAPACITY
                                 then merge_next_file env st3 else st3))"

fun all_iterators ::
  "'c node_cipher \<Rightarrow> (nat \<Rightarrow> 'c) \<Rightarrow> bit_file list \<Rightarrow> bit_iterator list option" where
  "all_iterators nc region [] = Some []"
| "all_iterators nc region (f # fs) =
     (case bit_file_iterator nc region f of
        Some (Inr it) \<Rightarrow> map_option ((#) it) (all_iterators nc region fs)
      | _ \<Rightarrow> None)"

text \<open>The merged files leave their level and the catalogue.\<close>

definition compaction_drop_file :: "bit_level \<times> bit_catalogue \<Rightarrow> bit_file \<Rightarrow> bit_level \<times> bit_catalogue" where
  "compaction_drop_file st file =
     (case st of (level, cat) \<Rightarrow>
        (snd (bit_level_remove_file level (bf_id file)), snd (bitc_release_file cat (bf_id file))))"

definition compaction_merge ::
  "'c lsm_env \<Rightarrow> bit_level \<Rightarrow> bit_level \<Rightarrow> 'c lsm_disk \<Rightarrow> bit_file list \<Rightarrow> bit_file list \<Rightarrow>
   (bit_level \<times> bit_level \<times> 'c lsm_disk) option" where
  "compaction_merge env level1 level2 disk demoted relatives =
     (let region = ld_region disk
      in case all_iterators (le_cipher env) region (rev (demoted @ relatives)) of
           None \<Rightarrow> None
         | Some iters \<Rightarrow>
             (case merge_push_all env region [0..<length iters] ([], iters, 0) of
                None \<Rightarrow> None
              | Some (hp, iters1, addr) \<Rightarrow>
                  (case bitc_alloc_file (ld_catalogue disk) of
                     (Inl err, _) \<Rightarrow> None
                   | (Inr fd, cat1) \<Rightarrow>
                       if hp = [] then None
                       else
                         let (version, cat2) = bitc_get_next_version cat1;
                             st = \<lparr>mg_heap = hp, mg_iters = iters1, mg_addr = addr, mg_distinct = hd hp,
                                   mg_new = None, mg_old = None,
                                   mg_builder = compaction_get_builder env region cat2 fd (bl_level level2) version,
                                   mg_level2 = level2, mg_fd = fd, mg_catalogue = cat2,
                                   mg_rit = ld_rit disk, mg_dst = ld_dst disk\<rparr>
                         in case Option.bind (merge_loop env st) (merge_emit env) of
                              None \<Rightarrow> None
                            | Some st1 \<Rightarrow>
                                let (region', st2) = merge_add_file env st1;
                                    (level1', cat3) = foldl compaction_drop_file (level1, mg_catalogue st2) demoted;
                                    (level2', cat4) = foldl compaction_drop_file (mg_level2 st2, cat3) relatives
                                in Some (level1', level2',
                                         disk\<lparr>ld_region := region', ld_catalogue := cat4,
                                              ld_rit := mg_rit st2, ld_dst := mg_dst st2\<rparr>))))"

definition compaction_job_run ::
  "'c lsm_env \<Rightarrow> bit_level \<Rightarrow> bit_level \<Rightarrow> 'c lsm_disk \<Rightarrow> (bit_level \<times> bit_level \<times> 'c lsm_disk) option" where
  "compaction_job_run env level1 level2 disk =
     (let demoted = snd (bit_level_pick_demoted_files level1);
          relatives = bit_level_find_relative_files level2 demoted
      in if relatives = [] \<and> \<not> lsm_file_overlapping demoted
         then Some (foldl compaction_move_file (level1, level2, disk) demoted)
         else compaction_merge env level1 level2 disk demoted relatives)"

text \<open>
  What the code relies on of the kernel's heap: a push adds an element, the root has a least key, a pop
  takes out the root.
\<close>

definition min_heap_ok :: "min_heap_ops \<Rightarrow> (kway_merge_node list \<Rightarrow> bool) \<Rightarrow> bool" where
  "min_heap_ok mh hp \<longleftrightarrow> hp [] \<and>
     (\<forall>h x. hp h \<longrightarrow> hp (mh_push mh x h) \<and> mset (mh_push mh x h) = add_mset x (mset h)) \<and>
     (\<forall>h. hp h \<and> h \<noteq> [] \<longrightarrow> hp (mh_pop mh h) \<and> mset (mh_pop mh h) = mset h - {#hd h#} \<and>
        (\<forall>x \<in> set h. kn_key (hd h) \<le> kn_key x))"


text \<open>A sorted list is such a heap.\<close>

definition list_heap :: min_heap_ops where
  "list_heap = \<lparr>mh_push = insort_key kn_key, mh_pop = tl\<rparr>"

lemma list_heap_ok: "min_heap_ok list_heap (\<lambda>h. sorted (map kn_key h))"
proof -
  have "mset (insort_key kn_key x h) = add_mset x (mset h)" for x h by (induction h) auto
  moreover have "sorted (map kn_key (tl h)) \<and> mset (tl h) = mset h - {#hd h#} \<and> (\<forall>x \<in> set h. kn_key (hd h) \<le> kn_key x)"
    if "sorted (map kn_key h) \<and> h \<noteq> []" for h
    using that by (cases h) simp_all
  moreover have "sorted (map kn_key h) \<Longrightarrow> sorted (map kn_key (insort_key kn_key x h))" for x h
    by (simp add: sorted_insort_key)
  ultimately show ?thesis unfolding min_heap_ok_def list_heap_def by fastforce
qed

end
