(* ===== verification/Lsm_Tree.thy ===== *)
theory Lsm_Tree
  imports Compaction
begin

text \<open>
  \<^verbatim>\<open>lsm_tree.c\<close>, the log-structured merge tree that maps logical blocks to records.  Writes go to a
  memtable; a full memtable becomes the immutable memtable and a minor compaction is queued, which
  writes it to a file of level 0.  Searches ask the memtable, the immutable memtable and the levels in
  this order.
\<close>

section \<open>Operations\<close>

record 'c lsm_tree =
  lt_memtable :: memtable
  lt_immutable :: "memtable option"
  lt_levels :: "bit_level list"
  lt_disk :: "'c lsm_disk"
  lt_queued :: nat

definition DEFAULT_MEMTABLE_CAPACITY :: u64 where
  "DEFAULT_MEMTABLE_CAPACITY = of_nat DEFAULT_LSM_FILE_CAPACITY"

text \<open>\<open>None\<close> where a level beyond the last one would be accessed.\<close>

function lsm_tree_major_compaction ::
  "'c lsm_env \<Rightarrow> bit_level list \<times> 'c lsm_disk \<Rightarrow> nat \<Rightarrow> (bit_level list \<times> 'c lsm_disk) option" where
  "lsm_tree_major_compaction env (levels, disk) level =
     (if Suc level < length levels then
        (case (if bit_level_is_full (levels ! Suc level)
               then lsm_tree_major_compaction env (levels, disk) (Suc level)
               else Some (levels, disk)) of
           None \<Rightarrow> None
         | Some (levels1, disk1) \<Rightarrow>
             map_option (\<lambda>(level1, level2, disk2). (levels1[level := level1, Suc level := level2], disk2))
               (compaction_job_run env (levels1 ! level) (levels1 ! Suc level) disk1))
      else None)"
  by pat_completeness auto
termination by (relation "measure (\<lambda>(env, (levels, disk), level). length levels - level)") auto

declare lsm_tree_major_compaction.simps [simp del]

text \<open>The entries a memtable is written with: of each block the record and the tombstone, if any.\<close>

definition memtable_file_entries :: "memtable \<Rightarrow> (nat \<times> blk_record) list" where
  "memtable_file_entries m =
     concat (map (\<lambda>ep. (case me_val ep of Some v \<Rightarrow> [(me_key ep, v)] | None \<Rightarrow> []) @
                       (case me_negative_val ep of Some v \<Rightarrow> [(me_key ep, v)] | None \<Rightarrow> []))
       (rbtree_memtable_get_all_entry m))"

definition lsm_tree_minor_compaction ::
  "'c lsm_env \<Rightarrow> bit_level list \<times> 'c lsm_disk \<Rightarrow> memtable \<Rightarrow> (bit_level list \<times> 'c lsm_disk) option" where
  "lsm_tree_minor_compaction env st memtable =
     (case (if bit_level_is_full (fst st ! 0) then lsm_tree_major_compaction env st 0 else Some st) of
        None \<Rightarrow> None
      | Some (levels, disk) \<Rightarrow>
          (case bitc_alloc_file (ld_catalogue disk) of
             (Inl err, _) \<Rightarrow> None
           | (Inr fd, cat1) \<Rightarrow>
               let (version, cat2) = bitc_get_next_version cat1;
                   builder = compaction_get_builder env (ld_region disk) cat2 fd 0 version
               in case bit_build (le_cipher env) builder (memtable_file_entries memtable) of
                    None \<Rightarrow> None
                  | Some builder' \<Rightarrow>
                      let (file, region) = bit_builder_complete (le_cipher env) builder';
                          cat3 = snd (bitc_set_file_stats cat2 (bf_id file) (bit_file_get_stats file))
                      in Some (levels[0 := snd (bit_level_add_file (levels ! 0) file)],
                               disk\<lparr>ld_region := region, ld_catalogue := cat3\<rparr>)))"

text \<open>A queued work item, run by the compaction thread.\<close>

definition minor_compaction_handler :: "'c lsm_env \<Rightarrow> 'c lsm_tree \<Rightarrow> 'c lsm_tree option" where
  "minor_compaction_handler env this =
     (case lt_immutable this of
        None \<Rightarrow> None
      | Some m \<Rightarrow>
          map_option (\<lambda>(levels, disk). this\<lparr>lt_levels := levels, lt_disk := disk, lt_queued := lt_queued this - 1\<rparr>)
            (lsm_tree_minor_compaction env (lt_levels this, lt_disk this) m))"

text \<open>The search through the levels from level \<open>i\<close> on.\<close>

fun lsm_tree_search_levels ::
  "'c lsm_env \<Rightarrow> (nat \<Rightarrow> 'c) \<Rightarrow> bit_level list \<Rightarrow> nat \<Rightarrow> (blk_record result \<times> bit_level list) option" where
  "lsm_tree_search_levels env region [] key = Some (Inl ENODATA, [])"
| "lsm_tree_search_levels env region (l # ls) key =
     (case bit_level_search (le_cipher env) region l key of
        None \<Rightarrow> None
      | Some (Inr r, l') \<Rightarrow> Some (Inr r, l' # ls)
      | Some (Inl _, l') \<Rightarrow> map_option (map_prod id ((#) l')) (lsm_tree_search_levels env region ls key))"

definition lsm_tree_search ::
  "'c lsm_env \<Rightarrow> 'c lsm_tree \<Rightarrow> nat \<Rightarrow> (blk_record result \<times> 'c lsm_tree) option" where
  "lsm_tree_search env this key =
     (case rbtree_memtable_get (lt_memtable this) key of
        Inr r \<Rightarrow> Some (Inr r, this)
      | Inl _ \<Rightarrow>
          (case (case lt_immutable this of None \<Rightarrow> Inl ENODATA | Some m \<Rightarrow> rbtree_memtable_get m key) of
             Inr r \<Rightarrow> Some (Inr r, this)
           | Inl _ \<Rightarrow>
               map_option (\<lambda>(ret, levels). (ret, this\<lparr>lt_levels := levels\<rparr>))
                 (lsm_tree_search_levels env (ld_region (lt_disk this)) (lt_levels this) key)))"

definition lsm_tree_put :: "'c lsm_tree \<Rightarrow> nat \<Rightarrow> blk_record option \<Rightarrow> 'c lsm_tree option" where
  "lsm_tree_put this key val =
     (let (old, m) = rbtree_memtable_put (lt_memtable this) key val;
          this1 = this\<lparr>lt_memtable := m\<rparr>;
          disk = lt_disk this1
      in case (case old of None \<Rightarrow> Some (ld_rit disk, ld_dst disk)
               | Some r \<Rightarrow> give_up_block (ld_rit disk) (ld_dst disk) key r) of
           None \<Rightarrow> None
         | Some (rit, dst) \<Rightarrow>
             let this2 = this1\<lparr>lt_disk := disk\<lparr>ld_rit := rit, ld_dst := dst\<rparr>\<rparr>
             in Some (if mt_size (lt_memtable this2) \<ge> DEFAULT_MEMTABLE_CAPACITY
                      then this2\<lparr>lt_immutable := Some (lt_memtable this2),
                                 lt_memtable := rbtree_memtable_create, lt_queued := lt_queued this2 + 1\<rparr>
                      else this2))"

text \<open>\<open>None\<close> also where the 32-bit key wraps around and the loop never ends.\<close>

function lsm_range_memtable ::
  "memtable \<Rightarrow> nat \<Rightarrow> nat \<Rightarrow> nat \<Rightarrow> memtable \<times> nat set \<Rightarrow> (memtable \<times> nat set) option" where
  "lsm_range_memtable m start end_key key (results, found) =
     (if key \<le> end_key then
        let st = (if key - start \<in> found then (results, found)
                  else case rbtree_memtable_get m key of
                         Inr valid \<Rightarrow> (snd (rbtree_memtable_put results key (Some valid)), insert (key - start) found)
                       | Inl _ \<Rightarrow> (results, found))
        in if key = 2 ^ 32 - 1 then None else lsm_range_memtable m start end_key (key + 1) st
      else Some (results, found))"
  by pat_completeness auto
termination by (relation "measure (\<lambda>(m, start, e, key, st). Suc e - key)") auto

declare lsm_range_memtable.simps [simp del]

fun lsm_range_levels ::
  "'c lsm_env \<Rightarrow> (nat \<Rightarrow> 'c) \<Rightarrow> nat \<Rightarrow> nat \<Rightarrow> bit_level list \<Rightarrow> memtable \<times> nat set \<Rightarrow>
   (memtable \<times> bit_level list) option" where
  "lsm_range_levels env region start end_key [] (results, found) = Some (results, [])"
| "lsm_range_levels env region start end_key (l # ls) (results, found) =
     (case bit_level_range_search (le_cipher env) region l start end_key results found of
        None \<Rightarrow> None
      | Some (l', results', found') \<Rightarrow>
          if mt_size results' = of_nat (end_key - start + 1) then Some (results', l' # ls)
          else map_option (map_prod id ((#) l')) (lsm_range_levels env region start end_key ls (results', found')))"

text \<open>The answer is \<^verbatim>\<open>NULL\<close> (\<open>None\<close> inside) when nothing was found.\<close>

definition lsm_tree_range_search ::
  "'c lsm_env \<Rightarrow> 'c lsm_tree \<Rightarrow> nat \<Rightarrow> nat \<Rightarrow> (memtable option \<times> 'c lsm_tree) option" where
  "lsm_tree_range_search env this start end_key =
     (let count = of_nat (end_key - start + 1); results = rbtree_memtable_create;
          finish = (\<lambda>(results, levels). (if mt_size results = 0 then None else Some results, this\<lparr>lt_levels := levels\<rparr>))
      in if start > end_key then Some (finish (results, lt_levels this))
         else case lsm_range_memtable (lt_memtable this) start end_key start (results, {}) of
           None \<Rightarrow> None
         | Some (results1, found1) \<Rightarrow>
             if mt_size results1 = count then Some (finish (results1, lt_levels this))
             else case (case lt_immutable this of
                          None \<Rightarrow> Some (results1, found1)
                        | Some m \<Rightarrow> lsm_range_memtable m start end_key start (results1, found1)) of
               None \<Rightarrow> None
             | Some (results2, found2) \<Rightarrow>
                 if mt_size results2 = count then Some (finish (results2, lt_levels this))
                 else map_option finish
                        (lsm_range_levels env (ld_region (lt_disk this)) start end_key (lt_levels this)
                           (results2, found2)))"

text \<open>Opening the tree: empty levels, then a file for every entry of the catalogue.\<close>

fun lsm_create_levels :: "nat \<Rightarrow> nat \<Rightarrow> nat \<Rightarrow> bit_level list" where
  "lsm_create_levels ratio 0 capacity = []"
| "lsm_create_levels ratio (Suc i) capacity =
     lsm_create_levels ratio i (capacity div ratio) @ [bit_level_init (Suc i) capacity]"

definition lsm_open_file :: "'c lsm_env \<Rightarrow> (nat \<Rightarrow> 'c) \<Rightarrow> file_stat \<Rightarrow> bit_file" where
  "lsm_open_file env region stat =
     bit_file_create (le_cipher env) region (fs_root stat) (fs_id stat) (fs_level stat) (fs_version stat)
       (fs_first_key stat) (fs_last_key stat) (fs_nr_record stat) (fs_root_key stat)"

fun lsm_load_files ::
  "'c lsm_env \<Rightarrow> (nat \<Rightarrow> 'c) \<Rightarrow> file_stat list \<Rightarrow> bit_level list \<Rightarrow> bit_level list option" where
  "lsm_load_files env region [] levels = Some levels"
| "lsm_load_files env region (stat # stats) levels =
     (if fs_level stat < length levels
      then lsm_load_files env region stats
             (levels[fs_level stat := snd (bit_level_add_file (levels ! fs_level stat) (lsm_open_file env region stat))])
      else None)"

definition lsm_tree_init :: "'c lsm_env \<Rightarrow> 'c lsm_disk \<Rightarrow> 'c lsm_tree option" where
  "lsm_tree_init env disk =
     (let cat = ld_catalogue disk;
          levels = bit_level_init 0 DEFAULT_LSM_LEVEL0_NR_FILE #
            lsm_create_levels (bc_common_ratio cat) (bc_nr_disk_level cat - 1) (bc_max_level_nr_file cat)
      in map_option (\<lambda>levels'. \<lparr>lt_memtable = rbtree_memtable_create, lt_immutable = None, lt_levels = levels',
                                lt_disk = disk, lt_queued = 0\<rparr>)
           (lsm_load_files env (ld_region disk) (snd (bitc_get_all_file_stats cat)) levels))"

text \<open>
  Closing the tree: destroying the work queue runs what is still queued, then what the memtable holds
  is written.
\<close>

fun lsm_drain_queue :: "'c lsm_env \<Rightarrow> nat \<Rightarrow> 'c lsm_tree \<Rightarrow> 'c lsm_tree option" where
  "lsm_drain_queue env 0 this = Some this"
| "lsm_drain_queue env (Suc n) this =
     (case minor_compaction_handler env this of None \<Rightarrow> None | Some this' \<Rightarrow> lsm_drain_queue env n this')"

definition lsm_tree_destroy :: "'c lsm_env \<Rightarrow> 'c lsm_tree \<Rightarrow> 'c lsm_disk option" where
  "lsm_tree_destroy env this =
     (case lsm_drain_queue env (lt_queued this) this of
        None \<Rightarrow> None
      | Some this1 \<Rightarrow>
          if mt_size (lt_memtable this1) \<noteq> 0
          then map_option snd
                 (lsm_tree_minor_compaction env (lt_levels this1, lt_disk this1) (lt_memtable this1))
          else Some (lt_disk this1))"

section \<open>What a tree holds\<close>

text \<open>
  \<open>levels_wf\<close>: level \<open>i\<close> of the list has number \<open>i\<close> and is well formed with the entries \<open>xsss ! i\<close>.  The
  view of a tree gives each block the record of the first place that has one.
\<close>

definition levels_wf ::
  "'c lsm_env \<Rightarrow> (nat \<Rightarrow> 'c) \<Rightarrow> bit_level list \<Rightarrow> (nat \<times> blk_record) list list list \<Rightarrow> bool" where
  "levels_wf env region levels xsss \<longleftrightarrow> list_all2 (level_wf (le_cipher env) region) levels xsss"

definition level_view :: "bit_level \<Rightarrow> (nat \<times> blk_record) list list \<Rightarrow> nat \<rightharpoonup> blk_record" where
  "level_view l xss k =
     (if bl_level l = 0 then newest (zip (map bf_version (bl_files l)) xss) k 0 None else map_of (concat xss) k)"

fun levels_view :: "bit_level list \<Rightarrow> (nat \<times> blk_record) list list list \<Rightarrow> nat \<rightharpoonup> blk_record" where
  "levels_view (l # ls) (xss # xsss) k =
     (case level_view l xss k of Some r \<Rightarrow> Some r | None \<Rightarrow> levels_view ls xsss k)"
| "levels_view _ _ k = None"

definition tree_view :: "'c lsm_tree \<Rightarrow> (nat \<times> blk_record) list list list \<Rightarrow> nat \<rightharpoonup> blk_record" where
  "tree_view t xsss k =
     (case memtable_map (lt_memtable t) k of
        Some r \<Rightarrow> Some r
      | None \<Rightarrow>
          (case Option.bind (lt_immutable t) (\<lambda>m. memtable_map m k) of
             Some r \<Rightarrow> Some r
           | None \<Rightarrow> levels_view (lt_levels t) xsss k))"

definition tree_wf :: "'c lsm_env \<Rightarrow> 'c lsm_tree \<Rightarrow> (nat \<times> blk_record) list list list \<Rightarrow> bool" where
  "tree_wf env t xsss \<longleftrightarrow> memtable_inv (lt_memtable t) \<and> (\<forall>m. lt_immutable t = Some m \<longrightarrow> memtable_inv m) \<and>
     levels_wf env (ld_region (lt_disk t)) (lt_levels t) xsss"

definition found :: "blk_record option \<Rightarrow> blk_record result" where
  "found x = (case x of Some r \<Rightarrow> Inr r | None \<Rightarrow> Inl ENODATA)"

lemma found_simps [simp]: "found None = Inl ENODATA" "found (Some r) = Inr r"
  by (simp_all add: found_def)


section \<open>A small tree\<close>

text \<open>
  For the examples: node cipher and heap in their simplest form, a device of two segments, and a tree
  with one file in level 1.
\<close>

definition demo_env :: "bit_node lsm_env" where
  "demo_env = \<lparr>le_cipher = plain_cipher, le_heap = list_heap, le_vmem = (\<lambda>_. Inner_Node []), le_rnd = (\<lambda>_. [])\<rparr>"

definition demo_disk :: "(nat \<Rightarrow> bit_node) \<Rightarrow> bit_node lsm_disk" where
  "demo_disk region =
     \<lparr>ld_region = region, ld_catalogue = demo_catalogue, ld_rit = fresh_darray 2048 0,
      ld_dst = snd (dst_init (fresh_darray 2 empty_entry) 2)\<rparr>"

definition demo_record :: "nat \<Rightarrow> blk_record" where
  "demo_record pba = \<lparr>rec_pba = pba, rec_mac = [], rec_key = []\<rparr>"

definition demo_tree :: "(nat \<times> blk_record option) list \<Rightarrow> (bit_file \<times> (nat \<Rightarrow> bit_node)) \<Rightarrow> bit_node lsm_tree" where
  "demo_tree kvs file =
     \<lparr>lt_memtable = memtable_of kvs, lt_immutable = None,
      lt_levels = [bit_level_init 0 1, sample_level file], lt_disk = demo_disk (snd file), lt_queued = 0\<rparr>"

text \<open>The file of level 1 is built from given entries.\<close>

definition demo_file :: "(nat \<times> blk_record) list \<Rightarrow> (bit_file \<times> (nat \<Rightarrow> bit_node))" where
  "demo_file xs = (case bit_build plain_cipher (bit_builder_init (\<lambda>_. Inner_Node []) [] (\<lambda>_. Inner_Node []) 0 0 0 1) xs of
     Some b \<Rightarrow> bit_builder_complete plain_cipher b | None \<Rightarrow> (sample_file, \<lambda>_. Inner_Node []))"

lemma demo_file_ok:
  assumes "xs \<noteq> []" "sorted_wrt (\<le>) (map fst xs)" "length xs \<le> DEFAULT_LSM_FILE_CAPACITY"
  shows "file_ok plain_cipher (snd (demo_file xs)) (fst (demo_file xs)) xs"
proof -
  obtain b bf f' where "bit_build plain_cipher (bit_builder_init (\<lambda>_. Inner_Node []) [] (\<lambda>_. Inner_Node []) 0 0 0 1) xs = Some b"
    "bit_builder_complete plain_cipher b = (bf, f')" "file_ok plain_cipher f' bf xs"
    by (rule build_complete [OF plain_cipher_ok assms])
  then show ?thesis by (simp add: demo_file_def)
qed

lemma memtable_of_inv: "\<forall>(k, v) \<in> set kvs. key_ok k \<Longrightarrow> memtable_inv (memtable_of kvs)"
  unfolding memtable_of_def by (rule mt.puts_inv) (simp_all add: memtable_inv_create)

lemma demo_tree_wf:
  assumes "xs \<noteq> []" "sorted_wrt (<) (map fst xs)" "length xs \<le> DEFAULT_LSM_FILE_CAPACITY" "\<forall>(k, v) \<in> set kvs. key_ok k"
  shows "tree_wf demo_env (demo_tree kvs (demo_file xs)) [[], [xs]]"
proof -
  have d: "sorted_wrt (\<le>) (map fst xs)" "distinct (map fst xs)"
    using assms(2) by (auto simp: strict_sorted_iff)
  show ?thesis using demo_file_ok [OF assms(1) d(1) assms(3)] memtable_of_inv [OF assms(4)] d(2)
    by (simp add: tree_wf_def demo_tree_def levels_wf_def demo_env_def demo_disk_def sample_level_def
        bit_level_init_def level_wf_def entries_apart_def)
qed

end
