(* ===== verification/Lsm_Search.thy ===== *)
theory Lsm_Search
  imports Lsm_Tree
begin

text \<open>
  Searching the LSM tree.  A search gives each block the record of the first place that has one:
  memtable, immutable memtable, levels in order.  A range search agrees with the searches of the
  blocks of the range as long as level 0 has at most one file and no file has a block twice.
\<close>

section \<open>One block\<close>

lemma lookup_found: "lookup_result xs k = found (map_of xs k)"
  by (simp add: lookup_result_def found_def split: option.split)

lemma level_search_view:
  assumes "level_wf nc f l xss"
  shows "\<exists>files. bit_level_search nc f l k = Some (found (level_view l xss k), l\<lparr>bl_files := files\<rparr>) \<and>
    level_wf nc f (l\<lparr>bl_files := files\<rparr>) xss \<and> level_view (l\<lparr>bl_files := files\<rparr>) xss = level_view l xss"
proof (cases "bl_level l = 0")
  case False
  then show ?thesis using level_search_ok [OF assms False, of k]
    by (auto simp: lookup_found level_view_def fun_eq_iff)
next
  case True
  have "list_all2 (file_ok nc f) (bl_files l) xss" using assms by (simp add: level_wf_def)
  from linear_loop_ok [OF this, of k 0 None] obtain bs where
    "bit_level_linear_loop nc f (bl_files l) k 0 None = Some (level_view l xss k, bs)"
    "list_all2 (file_ok nc f) bs xss" "map bf_version bs = map bf_version (bl_files l)"
    using True by (auto simp: level_view_def)
  then show ?thesis using True
    by (intro exI [of _ bs])
      (simp add: bit_level_search_def bit_level_linear_search_def found_def level_wf_def level_view_def fun_eq_iff)
qed

lemma search_levels_ok:
  "levels_wf env f ls xsss \<Longrightarrow>
   \<exists>ls'. lsm_tree_search_levels env f ls k = Some (found (levels_view ls xsss k), ls') \<and>
     levels_wf env f ls' xsss \<and> levels_view ls' xsss = levels_view ls xsss \<and> map bl_level ls' = map bl_level ls"
  unfolding levels_wf_def
proof (induction ls xsss rule: list_all2_induct)
  case (Cons l ls xss xsss)
  obtain files where l: "bit_level_search (le_cipher env) f l k =
      Some (found (level_view l xss k), l\<lparr>bl_files := files\<rparr>)"
    "level_wf (le_cipher env) f (l\<lparr>bl_files := files\<rparr>) xss" "level_view (l\<lparr>bl_files := files\<rparr>) xss = level_view l xss"
    using level_search_view [OF Cons.hyps(1)] by blast
  let ?l = "l\<lparr>bl_files := files\<rparr>"
  obtain ls' where ls: "lsm_tree_search_levels env f ls k = Some (found (levels_view ls xsss k), ls')"
    "list_all2 (level_wf (le_cipher env) f) ls' xsss" "levels_view ls' xsss = levels_view ls xsss"
    "map bl_level ls' = map bl_level ls"
    using Cons.IH by blast
  show ?case
  proof (cases "level_view l xss k")
    case None
    then show ?thesis using l ls by (intro exI [of _ "?l # ls'"]) (simp add: fun_eq_iff split: option.split)
  next
    case (Some r)
    then show ?thesis using l Cons.hyps by (intro exI [of _ "?l # ls"]) (simp add: fun_eq_iff)
  qed
qed (simp add: fun_eq_iff)

lemma search_view:
  assumes "tree_wf env t xsss"
  shows "\<exists>levels. lsm_tree_search env t k = Some (found (tree_view t xsss k), t\<lparr>lt_levels := levels\<rparr>) \<and>
    tree_wf env (t\<lparr>lt_levels := levels\<rparr>) xsss \<and> tree_view (t\<lparr>lt_levels := levels\<rparr>) xsss = tree_view t xsss \<and>
    map bl_level levels = map bl_level (lt_levels t)"
proof -
  let ?f = "ld_region (lt_disk t)"
  have m: "memtable_inv (lt_memtable t)" and im: "\<And>m. lt_immutable t = Some m \<Longrightarrow> memtable_inv m"
    and l: "levels_wf env ?f (lt_levels t) xsss" using assms by (auto simp: tree_wf_def)
  define I where "I = Option.bind (lt_immutable t) (\<lambda>m. memtable_map m k)"
  have I: "(case lt_immutable t of None \<Rightarrow> Inl ENODATA | Some m \<Rightarrow> rbtree_memtable_get m k) = found I"
    using im by (simp add: I_def get_map found_def split: option.split)
  have mm: "rbtree_memtable_get (lt_memtable t) k = found (memtable_map (lt_memtable t) k)"
    using get_map [OF m] by (simp add: found_def)
  obtain ls where ls: "lsm_tree_search_levels env ?f (lt_levels t) k = Some (found (levels_view (lt_levels t) xsss k), ls)"
    "levels_wf env ?f ls xsss" "levels_view ls xsss = levels_view (lt_levels t) xsss"
    "map bl_level ls = map bl_level (lt_levels t)"
    using search_levels_ok [OF l] by blast
  have same: "tree_wf env (t\<lparr>lt_levels := lv\<rparr>) xsss \<and> tree_view (t\<lparr>lt_levels := lv\<rparr>) xsss = tree_view t xsss"
    if "levels_wf env ?f lv xsss" "levels_view lv xsss = levels_view (lt_levels t) xsss" for lv
    using assms that by (simp add: tree_wf_def tree_view_def fun_eq_iff split: option.split)
  show ?thesis
  proof (cases "memtable_map (lt_memtable t) k = None \<and> I = None")
    case True
    then have "lsm_tree_search env t k = Some (found (tree_view t xsss k), t\<lparr>lt_levels := ls\<rparr>)"
      using ls(1) by (simp add: lsm_tree_search_def mm I tree_view_def I_def [symmetric])
    then show ?thesis using same [OF ls(2,3)] ls(4) by blast
  next
    case False
    then have "lsm_tree_search env t k = Some (found (tree_view t xsss k), t\<lparr>lt_levels := lt_levels t\<rparr>)"
      by (auto simp: lsm_tree_search_def mm I tree_view_def I_def [symmetric] split: option.split)
    then show ?thesis using same [OF l] by blast
  qed
qed


section \<open>Ranges: the size of the result\<close>

lemma u64_of_nat_eq: "m < 2 ^ 64 \<Longrightarrow> n < 2 ^ 64 \<Longrightarrow> (of_nat m :: u64) = of_nat n \<Longrightarrow> m = n"
  unfolding word_of_nat_eq_iff by (simp add: take_bit_nat_eq_self)

text \<open>A result holds records only, so its size is the number of blocks found.\<close>

definition no_tombstones :: "memtable \<Rightarrow> bool" where
  "no_tombstones m \<longleftrightarrow> (\<forall>e \<in> set_tree (mt_root m). me_negative_val e = None)"

lemma set_rb_find_add: "e \<in> set_tree (snd (rb_find_add cmp x t)) \<Longrightarrow> e = x \<or> e \<in> set_tree t"
  by (induction t) (auto split: if_splits prod.splits)

lemma put_no_tombstones:
  assumes "no_tombstones m"
  shows "no_tombstones (snd (rbtree_memtable_put m k (Some r)))"
proof -
  let ?n = "new_memtable_entry k (Some r)"
  obtain node root where fa: "rb_find_add memtable_entry_cmp ?n (mt_root m) = (node, root)" by fastforce
  have n: "me_negative_val ?n = None" by (simp add: new_memtable_entry_def)
  have root: "\<forall>e \<in> set_tree root. me_negative_val e = None"
    using set_rb_find_add [of _ memtable_entry_cmp ?n "mt_root m"] fa n assms by (fastforce simp: no_tombstones_def)
  show ?thesis
  proof (cases node)
    case None
    then show ?thesis using fa root by (simp add: rbtree_memtable_put_def no_tombstones_def)
  next
    case (Some y)
    then show ?thesis using fa root set_rb_modify [of _ memtable_entry_cmp ?n _ root]
      by (fastforce simp: rbtree_memtable_put_def no_tombstones_def Let_def)
  qed
qed

lemma range_key_no_tombstones:
  assumes "bit_file_range_key nc f start key (b, m, F) = Some (b', m', F')" and "no_tombstones m"
  shows "no_tombstones m'"
proof -
  have "no_tombstones (foldl (\<lambda>m e. snd (rbtree_memtable_put m key (Some (snd e)))) m hits)" for hits :: "(nat \<times> blk_record) list"
    using assms(2) by (induction hits arbitrary: m) (simp_all add: put_no_tombstones)
  then show ?thesis using assms
    by (auto simp: bit_file_range_key_def put_no_tombstones Let_def split: if_splits option.splits sum.splits)
qed

lemma range_loop_no_tombstones:
  "bit_file_range_loop nc f start e key (b, m, F) = Some (b', m', F') \<Longrightarrow> no_tombstones m \<Longrightarrow> no_tombstones m'"
proof (induction nc f start e key "(b, m, F)" arbitrary: b m F rule: bit_file_range_loop.induct)
  case (1 nc f start e key b m F)
  show ?case
  proof (cases "key \<le> e")
    case False
    then show ?thesis using 1(2,3) by (simp add: bit_file_range_loop.simps [of nc f start e key])
  next
    case True
    define key' where "key' = (if key < bf_first_key b then bf_first_key b else key)"
    from 1(2) True obtain b1 m1 F1 where st: "bit_file_range_key nc f start key' (b, m, F) = Some (b1, m1, F1)"
      and rest: "bit_file_range_loop nc f start e (key' + 1) (b1, m1, F1) = Some (b', m', F')" "key' \<noteq> 2 ^ 32 - 1"
      unfolding bit_file_range_loop.simps [of nc f start e key] by (auto simp: key'_def Let_def split: option.splits if_splits)
    have "no_tombstones m1" by (rule range_key_no_tombstones [OF st 1(3)])
    then show ?thesis using 1(1) [OF True _ st rest(2,1)] by (simp add: key'_def)
  qed
qed

lemma range_search_no_tombstones:
  "bit_file_range_search nc f b start e m F = Some (b', m', F') \<Longrightarrow> no_tombstones m \<Longrightarrow> no_tombstones m'"
  by (auto simp: bit_file_range_search_def split: if_splits dest: range_loop_no_tombstones)

lemma level_range_loop_no_tombstones:
  "bit_level_range_loop nc f start e key (l, m, F) = Some (l', m', F') \<Longrightarrow> no_tombstones m \<Longrightarrow> no_tombstones m'"
proof (induction "Suc e - key" arbitrary: key l m F rule: less_induct)
  case less
  show ?case
  proof (cases "key \<le> e")
    case False
    then show ?thesis using less(2,3) by (simp add: bit_level_range_loop.simps [of nc f start e key])
  next
    case True
    from less(2) True obtain l1 m1 F1 where rest: "bit_level_range_loop nc f start e (key + 1) (l1, m1, F1) = Some (l', m', F')"
      and m1: "m1 = m \<or> (\<exists>b b1. bit_file_range_search nc f b start e m F = Some (b1, m1, F1))"
      unfolding bit_level_range_loop.simps [of nc f start e key] by (fastforce split: option.splits if_splits)
    have "no_tombstones m1" using m1 less(3) range_search_no_tombstones by blast
    then show ?thesis using less(1) [OF _ rest] True by simp
  qed
qed

lemma level_range_search_no_tombstones:
  assumes "bit_level_range_search nc f l start e m F = Some (l', m', F')" and "no_tombstones m"
  shows "no_tombstones m'"
  using assms
  by (auto simp: bit_level_range_search_def split: if_splits dest: level_range_loop_no_tombstones range_search_no_tombstones)

lemma size_no_tombstones:
  assumes "memtable_inv m" and "no_tombstones m"
  shows "mt_size m = of_nat (card (dom (memtable_map m)))" and "finite (dom (memtable_map m))"
proof -
  let ?t = "mt_root m"
  have bst: "bst_on me_key ?t" and sz: "mt_size m = sum_list (map entry_weight (inorder ?t))"
    and ok: "\<forall>e \<in> set_tree ?t. entry_ok e" using assms(1) by (simp_all add: memtable_inv_def)
  have w: "entry_weight e = 1" "entry_value e \<noteq> None" if "e \<in> set (inorder ?t)" for e
    using that ok assms(2) by (auto simp: entry_ok_def no_tombstones_def entry_weight_def entry_value_def)
  have len: "sum_list (map entry_weight es) = of_nat (length es)" if "\<forall>e \<in> set es. entry_weight e = 1" for es
    using that by (induction es) simp_all
  have dom: "dom (memtable_map m) = me_key ` set_tree ?t"
  proof (intro subset_antisym subsetI)
    fix k
    assume "k \<in> dom (memtable_map m)"
    then show "k \<in> me_key ` set_tree ?t"
      by (force simp: memtable_map_def bind_eq_Some_conv dest: tree_lookup_Some)
  next
    fix k
    assume "k \<in> me_key ` set_tree ?t"
    then obtain e where e: "k = me_key e" "e \<in> set_tree ?t" by blast
    then show "k \<in> dom (memtable_map m)"
      using tree_lookup_mem [OF bst e(2)] w(2) by (auto simp: memtable_map_def)
  qed
  have "card (dom (memtable_map m)) = length (inorder ?t)"
    using distinct_card [OF bst_on_distinct [OF bst]] by (simp add: dom)
  then show "mt_size m = of_nat (card (dom (memtable_map m)))" using len w(1) by (simp add: sz)
  show "finite (dom (memtable_map m))" by (simp add: dom)
qed


section \<open>Ranges: what the result holds\<close>

text \<open>\<open>either V W\<close>: the record of \<open>V\<close>, that of \<open>W\<close> where \<open>V\<close> has none.\<close>

definition either :: "(nat \<rightharpoonup> blk_record) \<Rightarrow> (nat \<rightharpoonup> blk_record) \<Rightarrow> nat \<rightharpoonup> blk_record" where
  "either V W k = (case V k of Some r \<Rightarrow> Some r | None \<Rightarrow> W k)"

text \<open>Between two places of the search the result holds the view \<open>V\<close> of the places seen so far.\<close>

definition range_stage :: "nat \<Rightarrow> nat \<Rightarrow> (nat \<rightharpoonup> blk_record) \<Rightarrow> memtable \<Rightarrow> nat set \<Rightarrow> bool" where
  "range_stage start e V m F \<longleftrightarrow> memtable_inv m \<and> no_tombstones m \<and>
     (\<forall>k. memtable_map m k = (if start \<le> k \<and> k \<le> e then V k else None)) \<and>
     F = (\<lambda>k. k - start) ` {k. start \<le> k \<and> k \<le> e \<and> V k \<noteq> None}"

lemma range_stage_cong:
  assumes "\<And>k. start \<le> k \<Longrightarrow> k \<le> e \<Longrightarrow> V k = W k"
  shows "range_stage start e V m F = range_stage start e W m F"
proof -
  have "{k. start \<le> k \<and> k \<le> e \<and> V k \<noteq> None} = {k. start \<le> k \<and> k \<le> e \<and> W k \<noteq> None}" using assms by auto
  moreover have "(if start \<le> k \<and> k \<le> e then V k else None) = (if start \<le> k \<and> k \<le> e then W k else None)" for k
    using assms by simp
  ultimately show ?thesis by (simp add: range_stage_def)
qed

lemma range_stage_found:
  assumes "range_stage start e V m F" and "start \<le> k" and "k \<le> e"
  shows "k - start \<in> F \<longleftrightarrow> V k \<noteq> None"
proof
  assume "k - start \<in> F"
  then obtain j where "k - start = j - start" "start \<le> j" "V j \<noteq> None" using assms(1) by (auto simp: range_stage_def)
  then show "V k \<noteq> None" using assms(2) by (simp add: eq_diff_iff)
qed (use assms in \<open>auto simp: range_stage_def\<close>)

lemma range_stage_start: "range_stage start e (\<lambda>k. None) rbtree_memtable_create {}"
proof -
  have "no_tombstones rbtree_memtable_create" by (simp add: no_tombstones_def rbtree_memtable_create_def)
  then show ?thesis by (simp add: range_stage_def memtable_inv_create memtable_map_create)
qed

lemma range_stage_put:
  assumes "range_stage start e V m F" and "start \<le> k" and "k \<le> e" and "e < 2 ^ 31"
  shows "range_stage start e (V(k \<mapsto> r)) (snd (rbtree_memtable_put m k (Some r))) (insert (k - start) F)"
proof -
  have m: "memtable_inv m" "key_ok k" using assms by (auto simp: range_stage_def key_ok_def)
  have "{j. start \<le> j \<and> j \<le> e \<and> (V(k \<mapsto> r)) j \<noteq> None} = insert k {j. start \<le> j \<and> j \<le> e \<and> V j \<noteq> None}"
    using assms by auto
  then show ?thesis using assms put_inv [OF m] put_map(1) [OF m, of "Some r"] put_no_tombstones [of m k r]
    by (simp add: range_stage_def)
qed

lemma range_stage_add:
  assumes st: "range_stage start e V m F" and m': "memtable_inv m'" "no_tombstones m'"
    "memtable_map m' = range_add xs start {start..e} F (memtable_map m)"
  shows "range_stage start e (either V (map_of xs)) m' (F \<union> range_offsets xs start {start..e})"
proof -
  have "memtable_map m' k = (if start \<le> k \<and> k \<le> e then either V (map_of xs) k else None)" for k
    using range_stage_found [OF st, of k] st m'(3)
    by (auto simp: range_add_def either_def range_stage_def split: option.split)
  moreover have "F \<union> range_offsets xs start {start..e} =
      (\<lambda>k. k - start) ` {k. start \<le> k \<and> k \<le> e \<and> either V (map_of xs) k \<noteq> None}"
  proof -
    have "{k. start \<le> k \<and> k \<le> e \<and> either V (map_of xs) k \<noteq> None} =
        {k. start \<le> k \<and> k \<le> e \<and> V k \<noteq> None} \<union> ({start..e} \<inter> fst ` set xs)"
      unfolding dom_map_of_conv_image_fst [symmetric] by (auto simp: either_def split: option.splits)
    then show ?thesis using st by (simp add: range_stage_def range_offsets_def image_Un)
  qed
  ultimately show ?thesis using m' by (simp add: range_stage_def)
qed

text \<open>When the result has as many blocks as the range, every block of the range has been found.\<close>

lemma range_stage_full:
  assumes st: "range_stage start e V m F" and e: "start \<le> e" "e < 2 ^ 31"
    and sz: "mt_size m = of_nat (e - start + 1)" and k: "start \<le> k" "k \<le> e"
  shows "V k \<noteq> None"
proof -
  let ?D = "dom (memtable_map m)"
  have D: "?D \<subseteq> {start..e}" using st by (auto simp: range_stage_def split: if_splits)
  have "finite ?D" and size: "mt_size m = of_nat (card ?D)"
    using size_no_tombstones st by (auto simp: range_stage_def)
  have "card ?D \<le> card {start..e}" by (rule card_mono) (use D in auto)
  then have le: "card ?D < 2 ^ 64" using e by simp
  have "(of_nat (card ?D) :: u64) = of_nat (e - start + 1)" using sz size by metis
  then have "card ?D = e - start + 1" using u64_of_nat_eq [OF le] e by simp
  then have "?D = {start..e}" using card_subset_eq [OF _ D] e by simp
  then have "memtable_map m k \<noteq> None" using k by (metis atLeastAtMost_iff domIff)
  then show ?thesis using st k by (auto simp: range_stage_def split: if_splits)
qed

lemma range_memtable_ok:
  assumes M: "memtable_inv M" and e: "e < 2 ^ 31"
  shows "start \<le> key \<Longrightarrow> range_stage start e (\<lambda>k. if k < key then either V (memtable_map M) k else V k) m F \<Longrightarrow>
    \<exists>m' F'. lsm_range_memtable M start e key (m, F) = Some (m', F') \<and>
      range_stage start e (either V (memtable_map M)) m' F'"
proof (induction "Suc e - key" arbitrary: key m F rule: less_induct)
  case less
  let ?W = "\<lambda>key k. if k < key then either V (memtable_map M) k else V k"
  show ?case
  proof (cases "key \<le> e")
    case False
    then have "range_stage start e (either V (memtable_map M)) m F"
      using less(3) range_stage_cong [of start e "?W key" "either V (memtable_map M)"] by simp
    then show ?thesis using False by (simp add: lsm_range_memtable.simps [of M start e key])
  next
    case True
    have fd: "key - start \<in> F \<longleftrightarrow> V key \<noteq> None" using range_stage_found [OF less(3,2) True] by simp
    define st where "st = (if key - start \<in> F then (m, F) else case rbtree_memtable_get M key of
        Inr valid \<Rightarrow> (snd (rbtree_memtable_put m key (Some valid)), insert (key - start) F) | Inl _ \<Rightarrow> (m, F))"
    have W: "?W (Suc key) = (if V key = None then (?W key)(key := memtable_map M key) else ?W key)"
      by (auto simp: either_def fun_eq_iff less_Suc_eq split: option.split)
    have "range_stage start e (?W (Suc key)) (fst st) (snd st)"
    proof (cases "V key")
      case None
      then show ?thesis
        using W fd less(3) range_stage_put [OF less(3,2) True e] get_map [OF M, of key] None
        by (cases "memtable_map M key") (auto simp: st_def fun_upd_idem)
    qed (use W fd less(3) in \<open>simp add: st_def\<close>)
    then obtain m' F' where "lsm_range_memtable M start e (Suc key) st = Some (m', F')"
      "range_stage start e (either V (memtable_map M)) m' F'"
      using less(1) [of "Suc key" "fst st" "snd st"] less(2) True by force
    then show ?thesis using True e by (simp add: lsm_range_memtable.simps [of M start e key] st_def)
  qed
qed


text \<open>What the range search of a level relies on.\<close>

definition range_fit :: "bit_level \<Rightarrow> (nat \<times> blk_record) list list \<Rightarrow> bool" where
  "range_fit l xss \<longleftrightarrow> (bl_level l = 0 \<longrightarrow> length xss \<le> 1) \<and>
     (\<forall>xs \<in> set xss. distinct (map fst xs) \<and> (\<forall>x \<in> set xs. key_ok (fst x)))"

lemma range_loop_no_files:
  "bl_files l = [] \<Longrightarrow> e < 2 ^ 32 - 1 \<Longrightarrow> bit_level_range_loop nc f start e key (l, m, F) = Some (l, m, F)"
proof (induction "Suc e - key" arbitrary: key rule: less_induct)
  case less
  have "bit_level_locate_file_pointer l key = None"
    using less(2) by (simp add: bit_level_locate_file_pointer_def bsearch_loop.simps)
  then show ?case using less(1) [of "Suc key"] less(2,3)
    by (simp add: bit_level_range_loop.simps [of nc f start e key])
qed

lemma level_range_view:
  assumes wf: "level_wf nc f l xss" and fit: "range_fit l xss" and st: "range_stage start e V m F" and e: "e < 2 ^ 31"
  shows "\<exists>files m' F'. bit_level_range_search nc f l start e m F = Some (l\<lparr>bl_files := files\<rparr>, m', F') \<and>
    level_wf nc f (l\<lparr>bl_files := files\<rparr>) xss \<and> level_view (l\<lparr>bl_files := files\<rparr>) xss = level_view l xss \<and>
    range_stage start e (either V (level_view l xss)) m' F'"
proof -
  have m: "memtable_inv m" "no_tombstones m" using st by (simp_all add: range_stage_def)
  consider (empty) "bl_level l = 0" "xss = []" | (one) xs where "bl_level l = 0" "xss = [xs]" | (upper) "bl_level l \<noteq> 0"
    using fit by (cases xss) (auto simp: range_fit_def)
  then show ?thesis
  proof cases
    case empty
    then have b: "bl_files l = []" using level_wf_length [OF wf] by simp
    have "level_wf nc f (l\<lparr>bl_files := []\<rparr>) []" "level_view (l\<lparr>bl_files := []\<rparr>) [] = level_view l []"
      by (simp_all add: level_wf_def entries_apart_def level_view_def fun_eq_iff)
    moreover have "range_stage start e (either V (level_view l xss)) m F"
      using st empty by (subst range_stage_cong [of _ _ _ V]) (auto simp: either_def level_view_def split: option.split)
    ultimately show ?thesis using b empty wf e
      by (intro exI [of _ "[]"] exI [of _ m] exI [of _ F]) (simp add: bit_level_range_search_def range_loop_no_files)
  next
    case (one xs)
    then obtain b where b: "bl_files l = [b]" using level_wf_length [OF wf] by (cases "bl_files l") auto
    have ok: "file_ok nc f b xs" using level_wf_nth [OF wf, of 0] one b by simp
    have view: "level_view (l\<lparr>bl_files := [b\<lparr>bf_cached_leaf := c\<rparr>]\<rparr>) xss = map_of xs"
      "level_view l xss = map_of xs" for c
      using one b by (auto simp: level_view_def fun_eq_iff split: option.split)
    have d: "distinct (map fst xs)" "\<forall>x \<in> set xs. key_ok (fst x)" using fit one by (simp_all add: range_fit_def)
    obtain b' m' F' where r: "bit_file_range_search nc f b start e m F = Some (b', m', F')" "file_ok nc f b' xs"
      "memtable_inv m'" "memtable_map m' = range_add xs start {start..e} F (memtable_map m)"
      "F' = F \<union> range_offsets xs start {start..e}" "\<exists>c. b' = b\<lparr>bf_cached_leaf := c\<rparr>"
      using range_search_ok [OF ok d(1) m(1) d(2), of start e F] by blast
    have "range_stage start e (either V (level_view l xss)) m' F'"
      using range_stage_add [OF st r(3) range_search_no_tombstones [OF r(1) m(2)] r(4)] r(5) view(2) by simp
    then show ?thesis using r(1,2,6) one b wf view
      by (intro exI [of _ "[b']"] exI [of _ m'] exI [of _ F'])
        (auto simp: bit_level_range_search_def level_wf_def)
  next
    case upper
    have "\<forall>xs \<in> set xss. \<forall>x \<in> set xs. key_ok (fst x)" using fit by (simp add: range_fit_def)
    with level_range_search_ok [OF wf upper m(1), of e start F] e obtain files m' F' where
      r: "bit_level_range_search nc f l start e m F = Some (l\<lparr>bl_files := files\<rparr>, m', F')"
      "level_wf nc f (l\<lparr>bl_files := files\<rparr>) xss" "memtable_inv m'"
      "memtable_map m' = range_add (concat xss) start {start..e} F (memtable_map m)"
      "F' = F \<union> range_offsets (concat xss) start {start..e}" by auto
    have view: "level_view (l\<lparr>bl_files := files\<rparr>) xss = level_view l xss" "level_view l xss = map_of (concat xss)"
      using upper by (simp_all add: level_view_def fun_eq_iff)
    have "range_stage start e (either V (level_view l xss)) m' F'"
      using range_stage_add [OF st r(3) level_range_search_no_tombstones [OF r(1) m(2)] r(4)] r(5) view(2) by simp
    then show ?thesis using r(1,2) view(1) by blast
  qed
qed

lemma range_stage_stop:
  assumes "range_stage start e V m F" and "start \<le> e" "e < 2 ^ 31" and "mt_size m = of_nat (e - start + 1)"
  shows "range_stage start e (either V W) m F"
  using assms(1) range_stage_full [OF assms]
  by (subst range_stage_cong [of _ _ _ V]) (force simp: either_def split: option.split)+

lemma range_levels_ok:
  assumes e: "start \<le> e" "e < 2 ^ 31"
  shows "list_all2 (level_wf (le_cipher env) f) ls xsss \<Longrightarrow> list_all2 range_fit ls xsss \<Longrightarrow> range_stage start e V m F \<Longrightarrow>
    \<exists>m' F' ls'. lsm_range_levels env f start e ls (m, F) = Some (m', ls') \<and>
      list_all2 (level_wf (le_cipher env) f) ls' xsss \<and> levels_view ls' xsss = levels_view ls xsss \<and>
      range_stage start e (either V (levels_view ls xsss)) m' F' \<and> map bl_level ls' = map bl_level ls"
proof (induction ls xsss arbitrary: V m F rule: list_all2_induct)
  case Nil
  then have "range_stage start e (either V (\<lambda>a. None)) m F"
    by (subst range_stage_cong [of _ _ _ V]) (auto simp: either_def split: option.split)
  then show ?case by (intro exI [of _ m] exI [of _ F] exI [of _ "[]"]) simp
next
  case (Cons l ls xss xsss)
  have fit: "range_fit l xss" "list_all2 range_fit ls xsss" using Cons.prems(1) by simp_all
  obtain files m1 F1 where r: "bit_level_range_search (le_cipher env) f l start e m F = Some (l\<lparr>bl_files := files\<rparr>, m1, F1)"
    "level_wf (le_cipher env) f (l\<lparr>bl_files := files\<rparr>) xss" "level_view (l\<lparr>bl_files := files\<rparr>) xss = level_view l xss"
    "range_stage start e (either V (level_view l xss)) m1 F1"
    using level_range_view [OF Cons.hyps(1) fit(1) Cons.prems(2) e(2)] by blast
  let ?l = "l\<lparr>bl_files := files\<rparr>" and ?V = "either V (level_view l xss)"
  have V: "either V (levels_view (l # ls) (xss # xsss)) = either ?V (levels_view ls xsss)"
    by (auto simp: either_def fun_eq_iff split: option.split)
  show ?case
  proof (cases "mt_size m1 = of_nat (e - start + 1)")
    case True
    then have "lsm_range_levels env f start e (l # ls) (m, F) = Some (m1, ?l # ls)" using r(1) by simp
    moreover have "levels_view (?l # ls) (xss # xsss) = levels_view (l # ls) (xss # xsss)"
      using r(3) by (simp add: fun_eq_iff)
    moreover have "list_all2 (level_wf (le_cipher env) f) (?l # ls) (xss # xsss)" using r(2) Cons.hyps(2) by simp
    moreover have "map bl_level (?l # ls) = map bl_level (l # ls)" by simp
    ultimately show ?thesis using range_stage_stop [OF r(4) e True, where W = "levels_view ls xsss"] unfolding V by blast
  next
    case False
    obtain m' F' ls' where "lsm_range_levels env f start e ls (m1, F1) = Some (m', ls')"
      "list_all2 (level_wf (le_cipher env) f) ls' xsss" "levels_view ls' xsss = levels_view ls xsss"
      "range_stage start e (either ?V (levels_view ls xsss)) m' F'" "map bl_level ls' = map bl_level ls"
      using Cons.IH [OF fit(2) r(4)] by blast
    note rest = this
    then have "lsm_range_levels env f start e (l # ls) (m, F) = Some (m', ?l # ls')" using r(1) False by simp
    moreover have "levels_view (?l # ls') (xss # xsss) = levels_view (l # ls) (xss # xsss)"
      using r(3) rest(3) by (simp add: fun_eq_iff split: option.split)
    moreover have "list_all2 (level_wf (le_cipher env) f) (?l # ls') (xss # xsss)" using r(2) rest(2) by simp
    moreover have "map bl_level (?l # ls') = map bl_level (l # ls)" using rest(5) by simp
    ultimately show ?thesis using rest(4) unfolding V by blast
  qed
qed


lemma range_view:
  assumes wf: "tree_wf env t xsss" and fit: "list_all2 range_fit (lt_levels t) xsss" and e: "start \<le> e" "e < 2 ^ 31"
  shows "\<exists>res levels. lsm_tree_range_search env t start e = Some (res, t\<lparr>lt_levels := levels\<rparr>) \<and>
    (\<forall>k. Option.bind res (\<lambda>m. memtable_map m k) = (if start \<le> k \<and> k \<le> e then tree_view t xsss k else None)) \<and>
    tree_wf env (t\<lparr>lt_levels := levels\<rparr>) xsss \<and> tree_view (t\<lparr>lt_levels := levels\<rparr>) xsss = tree_view t xsss \<and>
    map bl_level levels = map bl_level (lt_levels t) \<and> (\<forall>i. res = Some i \<longrightarrow> memtable_inv i)"
proof -
  let ?f = "ld_region (lt_disk t)" and ?count = "of_nat (e - start + 1) :: u64"
  define M where "M = memtable_map (lt_memtable t)"
  define I where "I = (\<lambda>k. Option.bind (lt_immutable t) (\<lambda>m. memtable_map m k))"
  define L where "L = levels_view (lt_levels t) xsss"
  have m: "memtable_inv (lt_memtable t)" and im: "\<And>m. lt_immutable t = Some m \<Longrightarrow> memtable_inv m"
    and l: "list_all2 (level_wf (le_cipher env) ?f) (lt_levels t) xsss" using wf by (auto simp: tree_wf_def levels_wf_def)
  have view: "tree_view t xsss = either (either M I) L"
    by (auto simp: tree_view_def either_def M_def I_def L_def fun_eq_iff split: option.split)
  define finish where "finish = (\<lambda>(results :: memtable, levels). (if mt_size results = 0 then None else Some results, t\<lparr>lt_levels := levels\<rparr>))"
  have ready: "\<exists>res levels. Some (finish (r, ls)) = Some (res, t\<lparr>lt_levels := levels\<rparr>) \<and>
      (\<forall>k. Option.bind res (\<lambda>m. memtable_map m k) = (if start \<le> k \<and> k \<le> e then tree_view t xsss k else None)) \<and>
      tree_wf env (t\<lparr>lt_levels := levels\<rparr>) xsss \<and> tree_view (t\<lparr>lt_levels := levels\<rparr>) xsss = tree_view t xsss \<and>
      map bl_level levels = map bl_level (lt_levels t) \<and> (\<forall>i. res = Some i \<longrightarrow> memtable_inv i)"
    if st: "range_stage start e (tree_view t xsss) r F" and ls: "list_all2 (level_wf (le_cipher env) ?f) ls xsss" "levels_view ls xsss = L"
      "map bl_level ls = map bl_level (lt_levels t)"
    for r F ls
  proof -
    have "Option.bind (if mt_size r = 0 then None else Some r) (\<lambda>m. memtable_map m k) = memtable_map r k" for k
    proof (cases "mt_size r = 0")
      case True
      let ?D = "dom (memtable_map r)"
      have "?D \<subseteq> {start..e}" using st by (auto simp: range_stage_def split: if_splits)
      then have "card ?D \<le> card {start..e}" by (intro card_mono) auto
      then have "card ?D < 2 ^ 64" using e by simp
      moreover have "(of_nat (card ?D) :: u64) = 0" and fin: "finite ?D"
        using size_no_tombstones [of r] st True by (auto simp: range_stage_def)
      ultimately have "card ?D = 0" using u64_of_nat_eq [of "card ?D" 0] by simp
      then have "?D = {}" using fin by simp
      then show ?thesis using True by (auto simp: dom_def)
    qed simp
    then show ?thesis using st ls wf
      by (intro exI [of _ "if mt_size r = 0 then None else Some r"] exI [of _ ls])
        (simp add: finish_def range_stage_def tree_wf_def levels_wf_def tree_view_def L_def fun_eq_iff split: option.split)
  qed
  have "range_stage start e (\<lambda>k. if k < start then either (\<lambda>k. None) M k else None) rbtree_memtable_create {}"
    using range_stage_start [of start e] by (subst range_stage_cong [where W = "\<lambda>k. None"]) auto
  from range_memtable_ok [OF m e(2) order_refl this [unfolded M_def]] obtain r1 F1 where
    r1: "lsm_range_memtable (lt_memtable t) start e start (rbtree_memtable_create, {}) = Some (r1, F1)"
    "range_stage start e (either (\<lambda>k. None) M) r1 F1" unfolding M_def by auto
  have st1: "range_stage start e M r1 F1" using r1(2) by (simp add: either_def [abs_def])
  note unf = lsm_tree_range_search_def finish_def [symmetric] Let_def
  show ?thesis
  proof (cases "mt_size r1 = ?count")
    case True
    have "range_stage start e (tree_view t xsss) r1 F1"
      unfolding view using range_stage_stop [OF range_stage_stop [OF st1 e True, where W = I] e True] .
    from ready [OF this l L_def [symmetric] refl] show ?thesis using r1 True e by (simp add: unf)
  next
    case f1: False
    obtain r2 F2 where r2: "(case lt_immutable t of None \<Rightarrow> Some (r1, F1)
        | Some m \<Rightarrow> lsm_range_memtable m start e start (r1, F1)) = Some (r2, F2)"
      "range_stage start e (either M I) r2 F2"
    proof (cases "lt_immutable t")
      case None
      then have "either M I = M" by (auto simp: either_def I_def fun_eq_iff split: option.split)
      then show ?thesis using that [of r1 F1] st1 None by simp
    next
      case (Some m)
      have "range_stage start e (\<lambda>k. if k < start then either M (memtable_map m) k else M k) r1 F1"
        using st1 by (subst range_stage_cong [where W = M]) auto
      from range_memtable_ok [OF im [OF Some] e(2) order_refl this] show ?thesis
        using that Some by (auto simp: I_def)
    qed
    show ?thesis
    proof (cases "mt_size r2 = ?count")
      case True
      have "range_stage start e (tree_view t xsss) r2 F2" unfolding view by (rule range_stage_stop [OF r2(2) e True])
      from ready [OF this l L_def [symmetric] refl] show ?thesis using r1 r2 f1 True e by (simp add: unf)
    next
      case f2: False
      obtain r3 F3 ls where r3: "lsm_range_levels env ?f start e (lt_levels t) (r2, F2) = Some (r3, ls)"
        "list_all2 (level_wf (le_cipher env) ?f) ls xsss" "levels_view ls xsss = L"
        "map bl_level ls = map bl_level (lt_levels t)" "range_stage start e (either (either M I) L) r3 F3"
        using range_levels_ok [OF e l fit r2(2)] unfolding L_def by blast
      from ready [OF r3(5) [folded view] r3(2,3,4)] show ?thesis using r1 r2 r3(1) f1 f2 e by (simp add: unf)
    qed
  qed
qed


section \<open>The tree seen through its interface\<close>

text \<open>
  What the device needs of its index: lookups of a block and of a range of blocks that agree with one
  view and leave the index with the same view.
\<close>

datatype lookup = One nat | Range nat nat

datatype answer = Found "blk_record result" | Table "nat \<rightharpoonup> blk_record"

locale block_index =
  fixes holds :: "'t \<Rightarrow> (nat \<rightharpoonup> blk_record) \<Rightarrow> bool"
    and search :: "'t \<Rightarrow> nat \<Rightarrow> (blk_record result \<times> 't) option"
    and range_search :: "'t \<Rightarrow> nat \<Rightarrow> nat \<Rightarrow> (memtable option \<times> 't) option"
  assumes search_ok: "holds t V \<Longrightarrow> \<exists>t'. search t k = Some (found (V k), t') \<and> holds t' V"
    and range_ok: "holds t V \<Longrightarrow> s \<le> e \<Longrightarrow> key_ok e \<Longrightarrow>
      \<exists>m t'. range_search t s e = Some (m, t') \<and> holds t' V \<and>
        (\<forall>k. Option.bind m (\<lambda>m. memtable_map m k) = (if s \<le> k \<and> k \<le> e then V k else None))"

text \<open>Lookups one after the other, on whatever the lookup before has left.\<close>

fun lookups ::
  "('t \<Rightarrow> nat \<Rightarrow> (blk_record result \<times> 't) option) \<Rightarrow> ('t \<Rightarrow> nat \<Rightarrow> nat \<Rightarrow> (memtable option \<times> 't) option) \<Rightarrow>
   't \<Rightarrow> lookup list \<Rightarrow> (answer list \<times> 't) option" where
  "lookups search range_search t [] = Some ([], t)"
| "lookups search range_search t (One k # qs) =
     (case search t k of
        None \<Rightarrow> None
      | Some (r, t') \<Rightarrow> map_option (map_prod ((#) (Found r)) id) (lookups search range_search t' qs))"
| "lookups search range_search t (Range s e # qs) =
     (case range_search t s e of
        None \<Rightarrow> None
      | Some (m, t') \<Rightarrow>
          map_option (map_prod ((#) (Table (\<lambda>k. Option.bind m (\<lambda>m. memtable_map m k)))) id)
            (lookups search range_search t' qs))"

fun view_answer :: "(nat \<rightharpoonup> blk_record) \<Rightarrow> lookup \<Rightarrow> answer" where
  "view_answer V (One k) = Found (found (V k))"
| "view_answer V (Range s e) = Table (V |` {s..e})"

fun lookup_fits :: "lookup \<Rightarrow> bool" where
  "lookup_fits (One k) = True"
| "lookup_fits (Range s e) = (s \<le> e \<and> key_ok e)"

context block_index
begin

lemma lookups_ok:
  "holds t V \<Longrightarrow> \<forall>q \<in> set qs. lookup_fits q \<Longrightarrow>
   \<exists>t'. lookups search range_search t qs = Some (map (view_answer V) qs, t') \<and> holds t' V"
proof (induction qs arbitrary: t)
  case (Cons q qs)
  show ?case
  proof (cases q)
    case (One k)
    obtain t1 where "search t k = Some (found (V k), t1)" "holds t1 V" using search_ok [OF Cons.prems(1)] by blast
    then show ?thesis using Cons.IH [of t1] Cons.prems(2) One by auto
  next
    case (Range s e)
    then have "s \<le> e" "key_ok e" using Cons.prems(2) by simp_all
    with range_ok [OF Cons.prems(1)] obtain m t1 where
      "range_search t s e = Some (m, t1)" "holds t1 V"
      "\<forall>k. Option.bind m (\<lambda>m. memtable_map m k) = (if s \<le> k \<and> k \<le> e then V k else None)" by blast
    moreover from this(3) have "(\<lambda>k. Option.bind m (\<lambda>m. memtable_map m k)) = V |` {s..e}"
      by (auto simp: restrict_map_def)
    ultimately show ?thesis using Cons.IH [of t1] Cons.prems(2) Range by auto
  qed
qed simp

end

text \<open>A tree whose level 0 has at most one file and where no file has a block twice.\<close>

definition tree_holds :: "'c lsm_env \<Rightarrow> 'c lsm_tree \<Rightarrow> (nat \<rightharpoonup> blk_record) \<Rightarrow> bool" where
  "tree_holds env t V \<longleftrightarrow>
     (\<exists>xsss. tree_wf env t xsss \<and> list_all2 range_fit (lt_levels t) xsss \<and> tree_view t xsss = V)"

lemma range_fit_levels:
  assumes "list_all2 range_fit ls xsss" and "map bl_level ls' = map bl_level ls"
  shows "list_all2 range_fit ls' xsss"
proof -
  have len: "length ls' = length ls" using assms(2) by (metis length_map)
  have "bl_level (ls' ! i) = bl_level (ls ! i)" if "i < length ls" for i
    using assms(2) that len by (metis nth_map)
  then show ?thesis using assms(1) len by (simp add: list_all2_conv_all_nth range_fit_def)
qed

text \<open>A range search moves leaf caches only.\<close>

lemma tree_holds_range:
  assumes "tree_holds env t V" and e: "s \<le> e" "key_ok e"
  shows "\<exists>m ls. lsm_tree_range_search env t s e = Some (m, t\<lparr>lt_levels := ls\<rparr>) \<and> tree_holds env (t\<lparr>lt_levels := ls\<rparr>) V \<and>
    (\<forall>i. m = Some i \<longrightarrow> memtable_inv i) \<and>
    (\<forall>k. Option.bind m (\<lambda>m. memtable_map m k) = (if s \<le> k \<and> k \<le> e then V k else None))"
proof -
  obtain xsss where x: "tree_wf env t xsss" "list_all2 range_fit (lt_levels t) xsss" "tree_view t xsss = V"
    using assms(1) by (auto simp: tree_holds_def)
  from range_view [OF x(1,2) e(1)] e(2) obtain m ls where
    "lsm_tree_range_search env t s e = Some (m, t\<lparr>lt_levels := ls\<rparr>)" "tree_wf env (t\<lparr>lt_levels := ls\<rparr>) xsss"
    "\<forall>k. Option.bind m (\<lambda>m. memtable_map m k) = (if s \<le> k \<and> k \<le> e then V k else None)"
    "tree_view (t\<lparr>lt_levels := ls\<rparr>) xsss = V" "map bl_level ls = map bl_level (lt_levels t)"
    "\<forall>i. m = Some i \<longrightarrow> memtable_inv i"
    unfolding key_ok_def using x(3) by blast
  moreover from range_fit_levels [OF x(2) this(5)] have "list_all2 range_fit (lt_levels (t\<lparr>lt_levels := ls\<rparr>)) xsss" by simp
  ultimately show ?thesis unfolding tree_holds_def by blast
qed

interpretation lsm_index: block_index "tree_holds env" "lsm_tree_search env" "lsm_tree_range_search env" for env
proof
  fix t :: "'a lsm_tree" and V k
  assume "tree_holds env t V"
  then obtain xsss where x: "tree_wf env t xsss" "list_all2 range_fit (lt_levels t) xsss" "tree_view t xsss = V"
    by (auto simp: tree_holds_def)
  from search_view [OF x(1)] obtain ls where
    "lsm_tree_search env t k = Some (found (V k), t\<lparr>lt_levels := ls\<rparr>)" "tree_wf env (t\<lparr>lt_levels := ls\<rparr>) xsss"
    "tree_view (t\<lparr>lt_levels := ls\<rparr>) xsss = V" "map bl_level ls = map bl_level (lt_levels t)" using x(3) by blast
  moreover from range_fit_levels [OF x(2) this(4)] have "list_all2 range_fit (lt_levels (t\<lparr>lt_levels := ls\<rparr>)) xsss" by simp
  ultimately show "\<exists>t'. lsm_tree_search env t k = Some (found (V k), t') \<and> tree_holds env t' V"
    unfolding tree_holds_def by blast
next
  fix t :: "'a lsm_tree" and V s e
  assume "tree_holds env t V" and "s \<le> e" "key_ok e"
  from tree_holds_range [OF this] show "\<exists>m t'. lsm_tree_range_search env t s e = Some (m, t') \<and> tree_holds env t' V \<and>
      (\<forall>k. Option.bind m (\<lambda>m. memtable_map m k) = (if s \<le> k \<and> k \<le> e then V k else None))"
    by blast
qed

section \<open>Properties\<close>

text \<open>
  C14. A search of the tree always returns.  It answers with the record of the memtable, else that of
  the immutable memtable, else that of the first level that has the block, else \<^verbatim>\<open>ENODATA\<close>, and it
  changes nothing of that view: only leaf caches move.
\<close>

theorem lsm_search_precedence:
  assumes "tree_wf env t xsss"
  shows "\<exists>t'. lsm_tree_search env t k = Some (found (tree_view t xsss k), t') \<and> tree_wf env t' xsss \<and>
    tree_view t' xsss = tree_view t xsss \<and> lt_memtable t' = lt_memtable t \<and> lt_disk t' = lt_disk t"
proof -
  from search_view [OF assms] obtain ls where
    "lsm_tree_search env t k = Some (found (tree_view t xsss k), t\<lparr>lt_levels := ls\<rparr>)"
    "tree_wf env (t\<lparr>lt_levels := ls\<rparr>) xsss" "tree_view (t\<lparr>lt_levels := ls\<rparr>) xsss = tree_view t xsss" by blast
  then show ?thesis by (intro exI [of _ "t\<lparr>lt_levels := ls\<rparr>"]) simp
qed

abbreviation demo_entries :: "(nat \<times> blk_record) list" where
  "demo_entries \<equiv> [(3, demo_record 10), (7, demo_record 11)]"

theorem lsm_search_precedence_witness:
  "\<exists>t'. lsm_tree_search demo_env (demo_tree [(3, Some (demo_record 12))] (demo_file demo_entries)) 3 =
     Some (Inr (demo_record 12), t')"
proof -
  let ?kvs = "[(3, Some (demo_record 12))]"
  have "tree_wf demo_env (demo_tree ?kvs (demo_file demo_entries)) [[], [demo_entries]]"
    by (rule demo_tree_wf) (simp_all add: layout_consts key_ok_def)
  from lsm_search_precedence [OF this, of 3] obtain t' where
    "lsm_tree_search demo_env (demo_tree ?kvs (demo_file demo_entries)) 3 =
      Some (found (tree_view (demo_tree ?kvs (demo_file demo_entries)) [[], [demo_entries]] 3), t')" by blast
  moreover have "memtable_map (memtable_of ?kvs) 3 = Some (demo_record 12)"
    by (simp add: memtable_of_def put_map memtable_inv_create key_ok_def)
  ultimately show ?thesis by (simp add: tree_view_def demo_tree_def)
qed

text \<open>
  C7. Searches and range searches of a tree agree.  In any order and number they all return, each
  search with the record of its block and each range search with the records of the blocks of its
  range, of one and the same view.  (Level 0 has at most one file, no file has a block twice and the
  blocks are below 2^31.)
\<close>

theorem lsm_lookups_agree:
  assumes "tree_wf env t xsss" and "list_all2 range_fit (lt_levels t) xsss" and "\<forall>q \<in> set qs. lookup_fits q"
  shows "\<exists>t'. lookups (lsm_tree_search env) (lsm_tree_range_search env) t qs =
    Some (map (view_answer (tree_view t xsss)) qs, t')"
proof -
  have "tree_holds env t (tree_view t xsss)" using assms(1,2) unfolding tree_holds_def by blast
  from lsm_index.lookups_ok [OF this assms(3)] show ?thesis by blast
qed

theorem lsm_lookups_agree_witness:
  "\<exists>V t'. lookups (lsm_tree_search demo_env) (lsm_tree_range_search demo_env)
       (demo_tree [(4, Some (demo_record 12))] (demo_file demo_entries)) [Range 3 6, One 7] =
     Some ([Table V, Found (Inr (demo_record 11))], t') \<and>
     V 3 = Some (demo_record 10) \<and> V 4 = Some (demo_record 12) \<and> V 5 = None \<and> V 7 = None"
proof -
  let ?kvs = "[(4, Some (demo_record 12))]"
  let ?t = "demo_tree ?kvs (demo_file demo_entries)" and ?x = "[[], [demo_entries]]"
  have wf: "tree_wf demo_env ?t ?x" by (rule demo_tree_wf) (simp_all add: layout_consts key_ok_def)
  have fit: "list_all2 range_fit (lt_levels ?t) ?x"
    by (simp add: demo_tree_def range_fit_def key_ok_def sample_level_def bit_level_init_def)
  have mm: "memtable_map (memtable_of ?kvs) = [4 \<mapsto> demo_record 12]"
    by (simp add: memtable_of_def put_map memtable_inv_create memtable_map_create key_ok_def)
  have v: "tree_view ?t ?x k = (if k = 4 then Some (demo_record 12) else map_of demo_entries k)" for k
    by (simp add: tree_view_def demo_tree_def mm level_view_def bit_level_init_def sample_level_def split: option.split)
  from lsm_lookups_agree [OF wf fit, of "[Range 3 6, One 7]"] obtain t' where
    "lookups (lsm_tree_search demo_env) (lsm_tree_range_search demo_env) ?t [Range 3 6, One 7] =
      Some ([Table (tree_view ?t ?x |` {3..6}), Found (found (tree_view ?t ?x 7))], t')"
    by (auto simp: key_ok_def)
  then show ?thesis
    by (intro exI [of _ "tree_view ?t ?x |` {3..6}"] exI [of _ t']) (simp add: v)
qed

end
