(* ===== verification/Device_Flush.thy ===== *)
theory Device_Flush
  imports Segment_Buffer Lsm_Search Crypto
begin

text \<open>
  The device below the segment buffer: reading and writing data blocks (\<^verbatim>\<open>dm-jindisk.c\<close>), the segment
  allocator with its cleaning (\<^verbatim>\<open>segment_allocator.c\<close>) and the flush of a pool entry into a segment or,
  when no segment is free, block by block (\<^verbatim>\<open>segment_buffer.c\<close>).

  The state is one record: the LSM tree with its disk structures (among them the data segment table
  and the reverse index table), the segment validator, the allocator's count of segments in use, the
  raw device and the pool.  dm-io is a parameter that reads and writes sectors of a raw device of type
  \<open>'d\<close>; its errors are only logged.  \<open>None\<close> stands for undefined behaviour, as in the ciphers and the
  tree, and for a loop that does not end.
\<close>

section \<open>State\<close>

record 'd io_client =
  ic_read :: "'d \<Rightarrow> nat \<Rightarrow> nat \<Rightarrow> byte list"
  ic_write :: "'d \<Rightarrow> nat \<Rightarrow> byte list \<Rightarrow> 'd"

text \<open>
  The superblock as it was read or written when the device was set up; which of its two checkpoint packs
  is in use for each table (with the journal compiled out nothing changes this); and what writing the
  dirty buffers of dm-bufio does to the raw device.
\<close>

datatype checkpoint_pack_field = DATA_SVT | DATA_DST | DATA_RIT | INDEX_SVT | INDEX_BITC

record ('c, 'd) jd_env =
  je_lsm :: "'c lsm_env"
  je_cipher :: gcm_api
  je_io :: "'d io_client"
  je_segbuf :: segbuf_env
  je_data_start :: nat
  je_nr_segment :: nat
  je_superblock :: superblock
  je_valid_fields :: "checkpoint_pack_field \<Rightarrow> bool"
  je_write_dirty :: "'d \<Rightarrow> 'd"

record ('c, 'd) dm_jindisk =
  jd_lsm_tree :: "'c lsm_tree"
  jd_seg_validator :: seg_validator
  jd_nr_valid_segment :: nat
  jd_raw_dev :: 'd
  jd_seg_buffer :: segment_buffer

definition jd_dst :: "('c, 'd) dm_jindisk \<Rightarrow> dst" where
  "jd_dst st = ld_dst (lt_disk (jd_lsm_tree st))"

definition jd_rit :: "('c, 'd) dm_jindisk \<Rightarrow> rit" where
  "jd_rit st = ld_rit (lt_disk (jd_lsm_tree st))"

definition jd_set_dst :: "dst \<Rightarrow> ('c, 'd) dm_jindisk \<Rightarrow> ('c, 'd) dm_jindisk" where
  "jd_set_dst d st = st\<lparr>jd_lsm_tree := (jd_lsm_tree st)\<lparr>lt_disk := (lt_disk (jd_lsm_tree st))\<lparr>ld_dst := d\<rparr>\<rparr>\<rparr>"

definition jd_set_rit :: "rit \<Rightarrow> ('c, 'd) dm_jindisk \<Rightarrow> ('c, 'd) dm_jindisk" where
  "jd_set_rit r st = st\<lparr>jd_lsm_tree := (jd_lsm_tree st)\<lparr>lt_disk := (lt_disk (jd_lsm_tree st))\<lparr>ld_rit := r\<rparr>\<rparr>\<rparr>"

section \<open>Data blocks\<close>

text \<open>The region of a request: \<open>cnt\<close> blocks from block \<open>blk_start\<close> of the data region, in sectors.\<close>

definition io_region :: "('c, 'd) jd_env \<Rightarrow> dm_block_t \<Rightarrow> nat \<Rightarrow> nat \<times> nat" where
  "io_region env blk_start cnt = ((je_data_start env + blk_start) * SECTORS_PER_BLOCK mod 2 ^ 64, cnt * SECTORS_PER_BLOCK)"

definition jindisk_read_blocks :: "('c, 'd) jd_env \<Rightarrow> ('c, 'd) dm_jindisk \<Rightarrow> dm_block_t \<Rightarrow> nat \<Rightarrow> byte list" where
  "jindisk_read_blocks env st pba cnt =
     (let (sector, n) = io_region env pba cnt in ic_read (je_io env) (jd_raw_dev st) sector n)"

definition jindisk_write_blocks ::
  "('c, 'd) jd_env \<Rightarrow> ('c, 'd) dm_jindisk \<Rightarrow> dm_block_t \<Rightarrow> nat \<Rightarrow> byte list \<Rightarrow> ('c, 'd) dm_jindisk" where
  "jindisk_write_blocks env st pba cnt buffer =
     (let (sector, n) = io_region env pba cnt
      in st\<lparr>jd_raw_dev := ic_write (je_io env) (jd_raw_dev st) sector (take (n * SECTOR_SIZE) buffer)\<rparr>)"

section \<open>The segment allocator\<close>

definition sa_alloc :: "('c, 'd) dm_jindisk \<Rightarrow> nat result \<times> ('c, 'd) dm_jindisk" where
  "sa_alloc st =
     (case seg_validator_next (jd_seg_validator st) of
        (Inl r, v) \<Rightarrow> (Inl r, st\<lparr>jd_seg_validator := v\<rparr>)
      | (Inr seg, v) \<Rightarrow>
          (case seg_validator_take v seg of
             (Inl r, v1) \<Rightarrow> (Inl r, st\<lparr>jd_seg_validator := v1\<rparr>)
           | (Inr _, v1) \<Rightarrow>
               let st1 = st\<lparr>jd_seg_validator := v1, jd_nr_valid_segment := jd_nr_valid_segment st + 1\<rparr>
               in case dst_take_segment (jd_dst st1) seg of
                    (Inl r, d) \<Rightarrow> (Inl r, jd_set_dst d st1)
                  | (Inr _, d) \<Rightarrow> (Inr seg, jd_set_dst d st1)))"

section \<open>Flushing an entry of the pool\<close>

text \<open>
  One block: a record for it, encrypted into \<open>out\<close>; the result of the encryption is not looked at.
  Then the tree and the reverse index learn where the block is.
\<close>

definition seal_block ::
  "('c, 'd) jd_env \<Rightarrow> byte list \<Rightarrow> dm_block_t \<Rightarrow> byte list \<Rightarrow> byte list \<Rightarrow> (blk_record \<times> byte list) option" where
  "seal_block env seg_key pba plain out =
     (let new = record_create [] pba (Some seg_key) None
      in map_option (\<lambda>(_, mac, out'). (new\<lparr>rec_mac := mac\<rparr>, out'))
           (aes_gcm_cipher_encrypt (je_cipher env) plain (rec_key new) None (rec_mac new) (of_nat pba) out))"

definition index_block ::
  "('c, 'd) dm_jindisk \<Rightarrow> dm_block_t \<Rightarrow> blk_record \<Rightarrow> dm_block_t \<Rightarrow> ('c, 'd) dm_jindisk option" where
  "index_block st lba new pba =
     map_option (\<lambda>t. let st1 = st\<lparr>jd_lsm_tree := t\<rparr> in jd_set_rit (snd (reverse_index_table_set (jd_rit st1) pba lba)) st1)
       (lsm_tree_put (jd_lsm_tree st) (u32 lba) (Some new))"

text \<open>The walk over the blocks of an entry that go to one segment; \<open>cipher\<close> is the \<^verbatim>\<open>cipher_segment\<close>.\<close>

fun flush_loop ::
  "('c, 'd) jd_env \<Rightarrow> byte list \<Rightarrow> dm_block_t \<Rightarrow> nat \<Rightarrow> segment_block list \<Rightarrow> (nat \<Rightarrow> byte list) \<Rightarrow> ('c, 'd) dm_jindisk \<Rightarrow>
   ((nat \<Rightarrow> byte list) \<times> ('c, 'd) dm_jindisk) option" where
  "flush_loop env key start i [] cipher st = Some (cipher, st)"
| "flush_loop env key start i (blk # blks) cipher st =
     (case seal_block env key (start + i) (blk_plain blk) (cipher i) of
        None \<Rightarrow> None
      | Some (new, out) \<Rightarrow>
          (case index_block st (blk_lba blk) new (start + i) of
             None \<Rightarrow> None
           | Some st1 \<Rightarrow> flush_loop env key start (Suc i) blks (cipher(i := out)) st1))"

text \<open>
  Threaded logging: every block goes to a free block of a segment in use, written on its own; a block
  for which there is none is skipped.  \<open>buffer\<close> is one block of memory used for all of them.
\<close>

fun logging_loop ::
  "('c, 'd) jd_env \<Rightarrow> byte list \<Rightarrow> segment_block list \<Rightarrow> byte list \<Rightarrow> ('c, 'd) dm_jindisk \<Rightarrow> ('c, 'd) dm_jindisk option" where
  "logging_loop env key [] buffer st = Some st"
| "logging_loop env key (blk # blks) buffer st =
     (case dst_find_logging_block (jd_dst st, jd_seg_validator st, jd_nr_valid_segment st) of
        None \<Rightarrow> None
      | Some (r, d, v, n) \<Rightarrow>
          let st1 = (jd_set_dst d st)\<lparr>jd_seg_validator := v, jd_nr_valid_segment := n\<rparr>
          in case r of
               Inl _ \<Rightarrow> logging_loop env key blks buffer st1
             | Inr pba \<Rightarrow>
                 (case seal_block env key pba (blk_plain blk) buffer of
                    None \<Rightarrow> None
                  | Some (new, out) \<Rightarrow>
                      (case index_block st1 (blk_lba blk) new pba of
                         None \<Rightarrow> None
                       | Some st2 \<Rightarrow> logging_loop env key blks out (jindisk_write_blocks env st2 pba 1 out))))"

definition segbuf_threaded_logging ::
  "('c, 'd) jd_env \<Rightarrow> data_segment \<Rightarrow> ('c, 'd) dm_jindisk \<Rightarrow> ('c, 'd) dm_jindisk option" where
  "segbuf_threaded_logging env ds st =
     logging_loop env (dseg_seg_key ds) (inorder (dseg_root ds)) (replicate DATA_BLOCK_SIZE 0) st"

text \<open>The \<^verbatim>\<open>cipher_segment\<close> as \<open>cnt\<close> consecutive blocks.\<close>

definition segment_bytes :: "(nat \<Rightarrow> byte list) \<Rightarrow> nat \<Rightarrow> byte list" where
  "segment_bytes cipher cnt = concat (map cipher [0..<cnt])"

definition jd_set_segment :: "nat \<Rightarrow> data_segment \<Rightarrow> ('c, 'd) dm_jindisk \<Rightarrow> ('c, 'd) dm_jindisk" where
  "jd_set_segment index ds st =
     st\<lparr>jd_seg_buffer := (jd_seg_buffer st)\<lparr>sb_buffer := (sb_buffer (jd_seg_buffer st))[index := ds]\<rparr>\<rparr>"

definition segbuf_flush_bios :: "('c, 'd) jd_env \<Rightarrow> nat \<Rightarrow> ('c, 'd) dm_jindisk \<Rightarrow> ('c, 'd) dm_jindisk option" where
  "segbuf_flush_bios env index st =
     (let ds = sb_buffer (jd_seg_buffer st) ! index; cnt = nat (dseg_size ds)
      in if dseg_size ds = 0 then Some st
         else case sa_alloc st of
                (Inl _, st1) \<Rightarrow> segbuf_threaded_logging env ds st1
              | (Inr seg, st1) \<Rightarrow>
                  let start = seg * BLOCKS_PER_SEGMENT
                  in case flush_loop env (dseg_seg_key ds) start 0 (inorder (dseg_root ds)) (dseg_cipher_segment ds) st1 of
                       None \<Rightarrow> None
                     | Some (cipher, st2) \<Rightarrow>
                         let st3 = jindisk_write_blocks env st2 start cnt (segment_bytes cipher cnt)
                         in Some (jd_set_segment index (ds\<lparr>dseg_cur_segment := seg, dseg_cipher_segment := cipher\<rparr>) st3))"

text \<open>The work queue runs its oldest item.\<close>

definition bufferio_handler :: "('c, 'd) jd_env \<Rightarrow> ('c, 'd) dm_jindisk \<Rightarrow> ('c, 'd) dm_jindisk option" where
  "bufferio_handler env st =
     (case sb_work (jd_seg_buffer st) of
        [] \<Rightarrow> Some st
      | index # work \<Rightarrow> segbuf_flush_bios env index (st\<lparr>jd_seg_buffer := (jd_seg_buffer st)\<lparr>sb_work := work\<rparr>\<rparr>))"

text \<open>Destroying the pool: the current entry is flushed, then what is queued.\<close>

fun bufferio_drain :: "('c, 'd) jd_env \<Rightarrow> nat \<Rightarrow> ('c, 'd) dm_jindisk \<Rightarrow> ('c, 'd) dm_jindisk option" where
  "bufferio_drain env 0 st = Some st"
| "bufferio_drain env (Suc n) st =
     (case bufferio_handler env st of None \<Rightarrow> None | Some st1 \<Rightarrow> bufferio_drain env n st1)"

definition segbuf_destroy :: "('c, 'd) jd_env \<Rightarrow> ('c, 'd) dm_jindisk \<Rightarrow> ('c, 'd) dm_jindisk option" where
  "segbuf_destroy env st =
     (case segbuf_flush_bios env (sb_cur_buffer (jd_seg_buffer st)) st of
        None \<Rightarrow> None
      | Some st1 \<Rightarrow> bufferio_drain env (length (sb_work (jd_seg_buffer st1))) st1)"

section \<open>Cleaning\<close>

definition jd_push_block :: "('c, 'd) jd_env \<Rightarrow> dm_block_t \<Rightarrow> byte list \<Rightarrow> bool \<Rightarrow> ('c, 'd) dm_jindisk \<Rightarrow> ('c, 'd) dm_jindisk" where
  "jd_push_block env lba data rflag st =
     st\<lparr>jd_seg_buffer := segbuf_push_block (je_segbuf env) (jd_seg_buffer st) lba data rflag\<rparr>"

text \<open>
  One valid block of the victim: \<open>None\<close> also where \<^verbatim>\<open>old\<close> is compared although the search found nothing
  and it was never set.  The answer says whether the block was pushed.
\<close>

definition gc_move_block ::
  "('c, 'd) jd_env \<Rightarrow> dm_block_t \<Rightarrow> ('c, 'd) dm_jindisk \<Rightarrow> (bool \<times> ('c, 'd) dm_jindisk) option" where
  "gc_move_block env pba st =
     (case reverse_index_table_reset (jd_rit st) pba INF_ADDR of
        ((Inl _, _), rit) \<Rightarrow> Some (False, jd_set_rit rit st)
      | ((Inr _, None), rit) \<Rightarrow> None
      | ((Inr _, Some lba), rit) \<Rightarrow>
          let st1 = jd_set_rit rit st
          in case lsm_tree_search (je_lsm env) (jd_lsm_tree st1) (u32 lba) of
               None \<Rightarrow> None
             | Some (Inl _, t) \<Rightarrow> None
             | Some (Inr old, t) \<Rightarrow>
                 let st2 = st1\<lparr>jd_lsm_tree := t\<rparr>
                 in if pba \<noteq> rec_pba old then Some (False, st2)
                    else case lsm_tree_put (jd_lsm_tree st2) (u32 lba) None of
                           None \<Rightarrow> None
                         | Some t1 \<Rightarrow>
                             let st3 = st2\<lparr>jd_lsm_tree := t1\<rparr>; buffer = jindisk_read_blocks env st3 pba 1
                             in case aes_gcm_cipher_decrypt (je_cipher env) buffer (rec_key old) None (rec_mac old)
                                       (of_nat (rec_pba old)) buffer of
                                  None \<Rightarrow> None
                                | Some (Inl _, _) \<Rightarrow> Some (False, st3)
                                | Some (Inr _, data) \<Rightarrow> Some (True, jd_push_block env lba data False st3))"

lemma next_bit_progress: "Suc (find_next_bit bm n i) < n \<Longrightarrow> n - Suc (find_next_bit bm n i) < n - i"
  using find_next_bit_found [of bm n i] by linarith

function gc_blocks ::
  "('c, 'd) jd_env \<Rightarrow> victim \<Rightarrow> nat \<Rightarrow> nat \<Rightarrow> ('c, 'd) dm_jindisk \<Rightarrow> (nat \<times> ('c, 'd) dm_jindisk) option" where
  "gc_blocks env victim offset cnt st =
     (let offset1 = find_next_bit (vic_block_validity_table victim) BLOCKS_PER_SEGMENT offset
      in if offset1 \<ge> BLOCKS_PER_SEGMENT then Some (cnt, st)
         else case gc_move_block env (vic_segno victim * BLOCKS_PER_SEGMENT + offset1) st of
                None \<Rightarrow> None
              | Some (moved, st1) \<Rightarrow>
                  let count1 = (if moved then cnt + 1 else cnt)
                  in if offset1 + 1 < BLOCKS_PER_SEGMENT
                     then gc_blocks env victim (offset1 + 1) count1 st1 else Some (count1, st1))"
  by pat_completeness auto
termination by (relation "measure (\<lambda>(env, v, offset, c, st). BLOCKS_PER_SEGMENT - offset)")
    (auto intro: next_bit_progress)

declare gc_blocks.simps [simp del]

definition gc_return_segment :: "victim \<Rightarrow> ('c, 'd) dm_jindisk \<Rightarrow> ('c, 'd) dm_jindisk" where
  "gc_return_segment victim st =
     (let st1 = jd_set_dst (snd (dst_return_segment (jd_dst st) (vic_segno victim))) st
      in st1\<lparr>jd_seg_validator := snd (seg_validator_test_and_return (jd_seg_validator st1) (vic_segno victim))\<rparr>)"

text \<open>The label \<^verbatim>\<open>retry\<close>, at most \<open>fuel\<close> times; the segment that takes the threaded log is passed over.\<close>

fun gc_one_segment_loop ::
  "nat \<Rightarrow> ('c, 'd) jd_env \<Rightarrow> ('c, 'd) dm_jindisk \<Rightarrow> (nat result \<times> ('c, 'd) dm_jindisk) option" where
  "gc_one_segment_loop 0 env st = None"
| "gc_one_segment_loop (Suc fuel) env st =
     (case dst_pop_victim (jd_dst st) of
        (None, d) \<Rightarrow> Some (Inl ENODATA, jd_set_dst d st)
      | (Some victim, d) \<Rightarrow>
          let st1 = jd_set_dst d st
          in if vic_nr_valid_block victim = 0 then Some (Inr 0, gc_return_segment victim st1)
             else if vic_segno victim = ds_logging_segno d then gc_one_segment_loop fuel env st1
             else map_option (\<lambda>(cnt, st2). (Inr cnt, gc_return_segment victim st2)) (gc_blocks env victim 0 0 st1))"

definition gc_one_segment :: "('c, 'd) jd_env \<Rightarrow> ('c, 'd) dm_jindisk \<Rightarrow> (nat result \<times> ('c, 'd) dm_jindisk) option" where
  "gc_one_segment env st = gc_one_segment_loop (Suc (size (ds_victims (jd_dst st)))) env st"

definition LEAST_CLEAN_SEGMENT_ONCE :: nat where "LEAST_CLEAN_SEGMENT_ONCE = 5"

text \<open>\<^verbatim>\<open>FOREGROUND_GC_THRESHOLD\<close> and \<^verbatim>\<open>BACKGROUND_GC_THRESHOLD\<close>, a difference of \<^verbatim>\<open>size_t\<close> values.\<close>

definition GC_THRESHOLD :: "nat \<Rightarrow> nat" where
  "GC_THRESHOLD nr_segment = (nr_segment + 2 ^ 64 - NR_GC_PRESERVED) mod 2 ^ 64"

partial_function (option) gc_loop ::
  "('c, 'd) jd_env \<Rightarrow> nat \<Rightarrow> ('c, 'd) dm_jindisk \<Rightarrow> ('c, 'd) dm_jindisk option" where
  "gc_loop env clean st =
     (if clean < LEAST_CLEAN_SEGMENT_ONCE * BLOCKS_PER_SEGMENT
      then Option.bind (gc_one_segment env st) (\<lambda>(r, st1).
             case r of
               Inl _ \<Rightarrow> Some st1
             | Inr gc_count \<Rightarrow>
                 gc_loop env (clean + gc_count)
                   (st1\<lparr>jd_nr_valid_segment := (jd_nr_valid_segment st1 + (2 ^ 64 - 1)) mod 2 ^ 64\<rparr>))
      else Some st)"

text \<open>Background cleaning runs the same code on a timer.\<close>

definition sa_foreground_gc :: "('c, 'd) jd_env \<Rightarrow> ('c, 'd) dm_jindisk \<Rightarrow> ('c, 'd) dm_jindisk option" where
  "sa_foreground_gc env st =
     (if jd_nr_valid_segment st < GC_THRESHOLD (je_nr_segment env) then Some st else gc_loop env 0 st)"

definition sa_background_gc :: "('c, 'd) jd_env \<Rightarrow> ('c, 'd) dm_jindisk \<Rightarrow> ('c, 'd) dm_jindisk option" where
  "sa_background_gc env st =
     (if jd_nr_valid_segment st < GC_THRESHOLD (je_nr_segment env) then Some st else gc_loop env 0 st)"

end
