(* ===== verification/Device.thy ===== *)
theory Device
  imports Device_Flush
begin

text \<open>
  \<^verbatim>\<open>dm-jindisk.c\<close>, the requests of the device and \<^verbatim>\<open>segbuf_push_bio\<close>.  A bio is a start sector, a size and
  the vector of page pieces still to be transferred; the pages are a memory \<open>nat \<Rightarrow> byte list\<close>.  As in
  the code, whole pages are transferred, whatever the offset and the length of a piece.

  The transfers a read starts are waited for, so that a request is one step; the statistics and the
  limit on readers are left out.
\<close>

section \<open>Bios\<close>

record bio_vec =
  bv_page :: nat
  bv_offset :: nat
  bv_len :: nat

datatype bio_op = REQ_OP_READ | REQ_OP_WRITE | REQ_OP_FLUSH | REQ_OP_OTHER

record bio =
  bi_op :: bio_op
  bi_sector :: nat
  bi_size :: nat
  bi_io_vec :: "bio_vec list"

type_synonym pages = "nat \<Rightarrow> byte list"

fun advance_vecs :: "nat \<Rightarrow> bio_vec list \<Rightarrow> bio_vec list" where
  "advance_vecs n [] = []"
| "advance_vecs n (v # vs) =
     (if n = 0 then v # vs
      else if n < bv_len v then v\<lparr>bv_offset := bv_offset v + n, bv_len := bv_len v - n\<rparr> # vs
      else advance_vecs (n - bv_len v) vs)"

definition bio_advance_iter :: "bio \<Rightarrow> nat \<Rightarrow> bio" where
  "bio_advance_iter b n =
     b\<lparr>bi_sector := bi_sector b + n div SECTOR_SIZE, bi_size := bi_size b - n, bi_io_vec := advance_vecs n (bi_io_vec b)\<rparr>"

definition bio_to_lba :: "bio \<Rightarrow> nat" where
  "bio_to_lba b = bi_sector b div SECTORS_PER_BLOCK"

definition bio_iter_iovec :: "bio \<Rightarrow> bio_vec option" where
  "bio_iter_iovec b =
     (case bi_io_vec b of [] \<Rightarrow> None | v # _ \<Rightarrow> Some (v\<lparr>bv_len := min (bv_len v) (bi_size b)\<rparr>))"

lemma advance_size: "bi_size (bio_advance_iter b n) = bi_size b - n"
  by (simp add: bio_advance_iter_def)

section \<open>Writing\<close>

function segbuf_push_bio :: "segbuf_env \<Rightarrow> pages \<Rightarrow> bio \<Rightarrow> segment_buffer \<Rightarrow> segment_buffer option" where
  "segbuf_push_bio env pages b buf =
     (if bi_size b = 0 then Some buf
      else case bio_iter_iovec b of
             None \<Rightarrow> None
           | Some bv \<Rightarrow>
               let buf1 = segbuf_push_block env buf (bio_to_lba b) (pages (bv_page bv)) True
               in if bi_size b < DATA_BLOCK_SIZE then Some buf1
                  else segbuf_push_bio env pages (bio_advance_iter b DATA_BLOCK_SIZE) buf1)"
  by pat_completeness auto
termination by (relation "measure (\<lambda>(env, pages, b, buf). bi_size b)") (auto simp: advance_size consts_simps)

declare segbuf_push_bio.simps [simp del]

definition jindisk_do_write ::
  "('c, 'd) jd_env \<Rightarrow> pages \<Rightarrow> bio \<Rightarrow> ('c, 'd) dm_jindisk \<Rightarrow> ('c, 'd) dm_jindisk option" where
  "jindisk_do_write env pages b st =
     map_option (\<lambda>buf. st\<lparr>jd_seg_buffer := buf\<rparr>) (segbuf_push_bio (je_segbuf env) pages b (jd_seg_buffer st))"

section \<open>Reading\<close>

record blk_info =
  bi_lba :: dm_block_t
  bi_record :: blk_record
  bi_page :: nat

text \<open>
  The tail of a request that is shorter than a block.  A record that is a tombstone is read like any
  other.
\<close>

definition read_small_block ::
  "('c, 'd) jd_env \<Rightarrow> ('c, 'd) dm_jindisk \<Rightarrow> nat \<Rightarrow> memtable option \<Rightarrow> bio_vec \<Rightarrow> pages \<Rightarrow> pages option" where
  "read_small_block env st lba results bv pages =
     (case results of
        None \<Rightarrow> Some pages
      | Some m \<Rightarrow>
          let copy = (\<lambda>buffer. pages(bv_page bv :=
                overwrite (bv_offset bv) (take (bv_len bv) (drop (bv_offset bv) buffer)) (pages (bv_page bv))))
          in case segbuf_query_block (jd_seg_buffer st) (u32 lba) of
               Inr buffer \<Rightarrow> Some (copy buffer)
             | Inl _ \<Rightarrow>
                 (case rbtree_memtable_get m (u32 lba) of
                    Inl _ \<Rightarrow> Some pages
                  | Inr old \<Rightarrow>
                      let buffer = jindisk_read_blocks env st (rec_pba old) 1
                      in map_option (\<lambda>(_, data). copy data)
                           (aes_gcm_cipher_decrypt (je_cipher env) buffer (rec_key old) None (rec_mac old)
                              (of_nat (rec_pba old)) buffer)))"

text \<open>The first loop of a read: what the pool holds is copied, the other blocks are noted down.\<close>

function read_loop ::
  "('c, 'd) jd_env \<Rightarrow> ('c, 'd) dm_jindisk \<Rightarrow> memtable option \<Rightarrow> bio \<Rightarrow> pages \<Rightarrow> blk_info list \<Rightarrow>
   (pages \<times> blk_info list) option" where
  "read_loop env st results b pages blks =
     (if bi_size b = 0 then Some (pages, blks)
      else case bio_iter_iovec b of
             None \<Rightarrow> None
           | Some bv \<Rightarrow>
               let lba = bio_to_lba b; next_bio = bio_advance_iter b DATA_BLOCK_SIZE
               in if bi_size b < DATA_BLOCK_SIZE
                  then map_option (\<lambda>pages1. (pages1, blks)) (read_small_block env st lba results bv pages)
                  else case segbuf_query_block (jd_seg_buffer st) (u32 lba) of
                         Inr data \<Rightarrow> read_loop env st results next_bio (pages(bv_page bv := data)) blks
                       | Inl _ \<Rightarrow>
                           (case (case results of None \<Rightarrow> Inl ENODATA | Some m \<Rightarrow> rbtree_memtable_get m (u32 lba)) of
                              Inl _ \<Rightarrow> read_loop env st results next_bio pages blks
                            | Inr old \<Rightarrow>
                                if rec_pba old = INF_ADDR then read_loop env st results next_bio pages blks
                                else read_loop env st results next_bio pages
                                       (blks @ [\<lparr>bi_lba = lba, bi_record = old, bi_page = bv_page bv\<rparr>])))"
  by pat_completeness auto
termination
  by (relation "measure (\<lambda>(env, st, results, b, pages, blks). bi_size b)") (auto simp: advance_size consts_simps)

declare read_loop.simps [simp del]

text \<open>A transfer of consecutive blocks and the work that decrypts them, the \<open>i\<close>-th into its page.\<close>

fun decrypt_work :: "('c, 'd) jd_env \<Rightarrow> byte list \<Rightarrow> nat \<Rightarrow> blk_info list \<Rightarrow> pages \<Rightarrow> pages option" where
  "decrypt_work env io_buffer i [] pages = Some pages"
| "decrypt_work env io_buffer i (info # infos) pages =
     (let r = bi_record info; ciphertext = take DATA_BLOCK_SIZE (drop (i * DATA_BLOCK_SIZE) io_buffer)
      in case aes_gcm_cipher_decrypt (je_cipher env) ciphertext (rec_key r) None (rec_mac r) (of_nat (rec_pba r))
                (pages (bi_page info)) of
           None \<Rightarrow> None
         | Some (_, data_out) \<Rightarrow> decrypt_work env io_buffer (Suc i) infos (pages(bi_page info := data_out)))"

definition merge_read_io :: "('c, 'd) jd_env \<Rightarrow> ('c, 'd) dm_jindisk \<Rightarrow> blk_info list \<Rightarrow> pages \<Rightarrow> pages option" where
  "merge_read_io env st infos pages =
     decrypt_work env (jindisk_read_blocks env st (rec_pba (bi_record (hd infos))) (length infos)) 0 infos pages"

text \<open>The loop over the noted blocks; \<open>range\<close> are those from \<^verbatim>\<open>range_start\<close> on.\<close>

fun merge_io_loop ::
  "('c, 'd) jd_env \<Rightarrow> ('c, 'd) dm_jindisk \<Rightarrow> blk_info list \<Rightarrow> blk_info list \<Rightarrow> pages \<Rightarrow> pages option" where
  "merge_io_loop env st range_blks [] pages = Some pages"
| "merge_io_loop env st range_blks (b # rest) pages =
     (if rest \<noteq> [] \<and> rec_pba (bi_record b) + 1 = rec_pba (bi_record (hd rest))
      then merge_io_loop env st (range_blks @ [b]) rest pages
      else case merge_read_io env st (range_blks @ [b]) pages of
             None \<Rightarrow> None
           | Some pages1 \<Rightarrow> merge_io_loop env st [] rest pages1)"

definition jindisk_do_read ::
  "('c, 'd) jd_env \<Rightarrow> bio \<Rightarrow> pages \<Rightarrow> ('c, 'd) dm_jindisk \<Rightarrow> (pages \<times> ('c, 'd) dm_jindisk) option" where
  "jindisk_do_read env b pages st =
     (let start = bio_to_lba b; cnt = (bi_size b + DATA_BLOCK_SIZE - 1) div DATA_BLOCK_SIZE
      in case lsm_tree_range_search (je_lsm env) (jd_lsm_tree st) (u32 start) (u32 (start + cnt + (2 ^ 64 - 1))) of
           None \<Rightarrow> None
         | Some (results, t) \<Rightarrow>
             let st1 = st\<lparr>jd_lsm_tree := t\<rparr>
             in case read_loop env st1 results b pages [] of
                  None \<Rightarrow> None
                | Some (pages1, blks) \<Rightarrow> map_option (\<lambda>pages2. (pages2, st1)) (merge_io_loop env st1 [] blks pages1))"

section \<open>Requests\<close>

text \<open>The deferred bios in the order of the list; other operations are dropped.\<close>

fun process_deferred_bios ::
  "('c, 'd) jd_env \<Rightarrow> bio list \<Rightarrow> pages \<times> ('c, 'd) dm_jindisk \<Rightarrow> (pages \<times> ('c, 'd) dm_jindisk) option" where
  "process_deferred_bios env [] s = Some s"
| "process_deferred_bios env (b # bs) (pages, st) =
     (case bi_op b of
        REQ_OP_READ \<Rightarrow> Option.bind (jindisk_do_read env b pages st) (process_deferred_bios env bs)
      | REQ_OP_WRITE \<Rightarrow> Option.bind (jindisk_do_write env pages b st) (\<lambda>st1. process_deferred_bios env bs (pages, st1))
      | _ \<Rightarrow> process_deferred_bios env bs (pages, st))"

text \<open>A flush: every entry of the pool, by index.\<close>

fun flush_pool :: "('c, 'd) jd_env \<Rightarrow> nat list \<Rightarrow> ('c, 'd) dm_jindisk \<Rightarrow> ('c, 'd) dm_jindisk option" where
  "flush_pool env [] st = Some st"
| "flush_pool env (i # is) st = Option.bind (segbuf_flush_bios env i st) (flush_pool env is)"

text \<open>The number of slots of the catalogue, \<^verbatim>\<open>max_fd\<close> of \<^verbatim>\<open>bit_catalogue_init\<close>.\<close>

definition max_fd :: "superblock \<Rightarrow> nat" where
  "max_fd sb = total_bit (sb_nr_disk_level sb) (sb_common_ratio sb) (sb_max_disk_level_capacity sb)
     + extra_bit (sb_max_disk_level_capacity sb)"

text \<open>The place of a table and the blocks of one of its two packs.\<close>

fun checkpoint_field :: "superblock \<Rightarrow> checkpoint_pack_field \<Rightarrow> nat \<times> nat" where
  "checkpoint_field sb DATA_SVT = (sb_seg_validity_table_start sb, seg_validity_table_blocks (sb_nr_segment sb))"
| "checkpoint_field sb DATA_DST = (sb_data_seg_table_start sb, data_seg_table_blocks (sb_nr_segment sb))"
| "checkpoint_field sb DATA_RIT =
     (sb_reverse_index_table_start sb, reverse_index_table_blocks (sb_nr_segment sb * sb_blocks_per_seg sb))"
| "checkpoint_field sb INDEX_SVT = (sb_block_index_table_catalogue_start sb, seg_validity_table_blocks (max_fd sb))"
| "checkpoint_field sb INDEX_BITC =
     (sb_block_index_table_catalogue_start sb + seg_validity_table_blocks (max_fd sb) * NR_CHECKPOINT_PACKS,
      bit_catalogue_blocks (max_fd sb))"

text \<open>The pack in use is copied over the other one, a block at a time.\<close>

fun backup_metadata :: "'d io_client \<Rightarrow> dm_block_t \<Rightarrow> dm_block_t \<Rightarrow> nat list \<Rightarrow> 'd \<Rightarrow> 'd" where
  "backup_metadata client dst src [] d = d"
| "backup_metadata client dst src (i # is) d =
     (let buffer = ic_read client d ((src + i) * SECTORS_PER_BLOCK) SECTORS_PER_BLOCK
      in backup_metadata client dst src is (ic_write client d ((dst + i) * SECTORS_PER_BLOCK) buffer))"

definition checkpoint_one :: "('c, 'd) jd_env \<Rightarrow> 'd \<Rightarrow> checkpoint_pack_field \<Rightarrow> 'd" where
  "checkpoint_one env d i =
     (let (base, blk_count) = checkpoint_field (je_superblock env) i;
          (dst, src) = (if je_valid_fields env i then (base, base + blk_count) else (base + blk_count, base))
      in backup_metadata (je_io env) dst src [0..<blk_count] d)"

text \<open>
  The journal record a checkpoint adds is dropped by the disabled journal.  Its index is put into \<^verbatim>\<open>record_start\<close> of the
  journal, which nobody reads, and into \<^verbatim>\<open>last_checkpoint_pack\<close> of the superblock in memory, which is not written again.

\<close>

definition add_checkpoint_pack_record :: "('c, 'd) jd_env \<Rightarrow> ('c, 'd) dm_jindisk \<Rightarrow> ('c, 'd) dm_jindisk" where
  "add_checkpoint_pack_record env st =
     st\<lparr>jd_raw_dev := foldl (checkpoint_one env) (jd_raw_dev st) [DATA_SVT, DATA_DST, DATA_RIT, INDEX_SVT, INDEX_BITC]\<rparr>"

text \<open>The synchronisation of the index file changes nothing that the model sees.\<close>

definition flush_and_commit :: "('c, 'd) jd_env \<Rightarrow> ('c, 'd) dm_jindisk \<Rightarrow> ('c, 'd) dm_jindisk option" where
  "flush_and_commit env st =
     map_option (\<lambda>st1. add_checkpoint_pack_record env (st1\<lparr>jd_raw_dev := je_write_dirty env (jd_raw_dev st1)\<rparr>))
       (flush_pool env [0..<POOL_SIZE] st)"

definition MAX_NR_FETCH :: nat where "MAX_NR_FETCH = 64"

datatype map_io = DM_MAPIO_REMAPPED | DM_MAPIO_SUBMITTED

text \<open>\<open>begin\<close> is the first sector of the target; the bio is put on the list of deferred bios.\<close>

definition jindisk_map_bio :: "nat \<Rightarrow> bio \<Rightarrow> bio" where
  "jindisk_map_bio target_begin b = (if target_begin \<noteq> 0 then b\<lparr>bi_sector := bi_sector b - target_begin\<rparr> else b)"

definition dm_accept_partial_bio :: "bio \<Rightarrow> nat \<Rightarrow> bio" where
  "dm_accept_partial_bio b n_sectors = b\<lparr>bi_size := n_sectors * SECTOR_SIZE\<rparr>"

definition dm_jindisk_target_map ::
  "('c, 'd) jd_env \<Rightarrow> nat \<Rightarrow> bio \<Rightarrow> bio list \<Rightarrow> ('c, 'd) dm_jindisk \<Rightarrow> (map_io \<times> bio list \<times> ('c, 'd) dm_jindisk) option" where
  "dm_jindisk_target_map env target_begin b deferred st =
     (let b1 = jindisk_map_bio target_begin b;
          b2 = (if bi_size b1 > MAX_NR_FETCH * DATA_BLOCK_SIZE then dm_accept_partial_bio b1 (MAX_NR_FETCH * SECTORS_PER_BLOCK) else b1)
      in case bi_op b2 of
           REQ_OP_READ \<Rightarrow> Some (DM_MAPIO_SUBMITTED, deferred @ [b2], st)
         | REQ_OP_WRITE \<Rightarrow> Some (DM_MAPIO_SUBMITTED, deferred @ [b2], st)
         | REQ_OP_FLUSH \<Rightarrow> map_option (\<lambda>st1. (DM_MAPIO_REMAPPED, deferred, st1)) (flush_and_commit env st)
         | REQ_OP_OTHER \<Rightarrow> Some (DM_MAPIO_REMAPPED, deferred, st))"

end
