(* ===== verification/Lsm_Put.thy ===== *)
theory Lsm_Put
  imports Lsm_Search
begin

text \<open>
  Writing to the LSM tree.  A put changes the view of the tree at its block, and it gives up the data
  block of the record it replaces when that record is still in the memtable.  A memtable that gets full
  becomes the immutable memtable; \<open>tree_room\<close> counts the puts after which this has happened at most
  once, so that no other immutable memtable is replaced.
\<close>

section \<open>Room\<close>

definition tree_room :: "'c lsm_tree \<Rightarrow> nat" where
  "tree_room t =
     (DEFAULT_LSM_FILE_CAPACITY - 1 - unat (mt_size (lt_memtable t))) +
     (if lt_immutable t = None then DEFAULT_LSM_FILE_CAPACITY else 0)"

lemma put_size:
  assumes "memtable_inv m" and "key_ok k"
  shows "mt_size (snd (rbtree_memtable_put m k (Some r))) \<in> {mt_size m, mt_size m + 1}"
  using assms
proof (cases rule: put_cases [where val = "Some r"])
  case (fresh t')
  then show ?thesis by (simp add: rbtree_memtable_put_def)
next
  case (present old)
  then show ?thesis by (simp add: rbtree_memtable_put_def Let_def)
qed

lemma capacity_word: "DEFAULT_MEMTABLE_CAPACITY \<le> w \<longleftrightarrow> DEFAULT_LSM_FILE_CAPACITY \<le> unat w"
  by (simp add: DEFAULT_MEMTABLE_CAPACITY_def word_le_nat_alt DEFAULT_LSM_FILE_CAPACITY_def)

lemma put_size_unat:
  assumes "memtable_inv m" and "key_ok k" and "unat (mt_size m) < 2 ^ 32"
  shows "unat (mt_size (snd (rbtree_memtable_put m k (Some r)))) \<le> Suc (unat (mt_size m))"
proof -
  have "unat (mt_size m + 1) \<le> Suc (unat (mt_size m))" using unat_plus_if_size [of "mt_size m" 1] by (simp split: if_splits)
  then show ?thesis using put_size [OF assms(1,2), of r] by auto
qed

section \<open>A put\<close>

text \<open>What becomes of the tables when the record of a block is replaced.\<close>

definition gives_up :: "'c lsm_disk \<Rightarrow> blk_record \<Rightarrow> 'c lsm_disk" where
  "gives_up disk old =
     disk\<lparr>ld_rit := (ld_rit disk)\<lparr>ar_cells := (ar_cells (ld_rit disk))(rec_pba old := INF_ADDR)\<rparr>,
          ld_dst := snd (dst_return_block (ld_dst disk) (rec_pba old))\<rparr>"

definition owned_by :: "rit \<Rightarrow> nat \<Rightarrow> blk_record \<Rightarrow> bool" where
  "owned_by rit k r \<longleftrightarrow> rec_pba r < ar_nr rit \<and> ar_cells rit (rec_pba r) = k"

lemma give_up_owned:
  assumes "healthy rit" and "owned_by rit k old"
  shows "give_up_block rit dst k old =
    Some (rit\<lparr>ar_cells := (ar_cells rit)(rec_pba old := INF_ADDR)\<rparr>, snd (dst_return_block dst (rec_pba old)))"
  using assms reset_healthy [OF assms(1), of "rec_pba old" k] by (simp add: give_up_block_def owned_by_def)

lemma tree_holds_parts:
  assumes "tree_wf env t xsss" and "memtable_inv m" and "im = None \<or> (\<exists>i. im = Some i \<and> memtable_inv i)"
    and "ld_region disk = ld_region (lt_disk t)"
  shows "tree_wf env (t\<lparr>lt_memtable := m, lt_immutable := im, lt_disk := disk, lt_queued := q\<rparr>) xsss"
  using assms by (auto simp: tree_wf_def)

text \<open>The record, not a tombstone, that the memtable holds for a block: what a put of a record replaces.\<close>

definition replaced :: "'c lsm_tree \<Rightarrow> nat \<Rightarrow> blk_record option" where
  "replaced t k = Option.bind (tree_lookup me_key (mt_root (lt_memtable t)) k) me_val"

definition put_disk :: "'c lsm_tree \<Rightarrow> nat \<Rightarrow> 'c lsm_disk" where
  "put_disk t k = (case replaced t k of None \<Rightarrow> lt_disk t | Some old \<Rightarrow> gives_up (lt_disk t) old)"

lemma replaced_view: "replaced t k = Some x \<Longrightarrow> tree_view t xsss k = Some x"
  by (auto simp: replaced_def tree_view_def memtable_map_def entry_value_def bind_eq_Some_conv)

lemma put_disk_cases:
  assumes "tree_holds env t V"
  shows "put_disk t k = lt_disk t \<or> (\<exists>old. V k = Some old \<and> put_disk t k = gives_up (lt_disk t) old)"
  using assms replaced_view [of t k] by (fastforce simp: put_disk_def tree_holds_def split: option.split)

lemma put_spec:
  assumes holds: "tree_holds env t V" and key: "key_ok k" and room: "0 < tree_room t"
    and rit: "healthy (ld_rit (lt_disk t))" and own: "\<And>old. V k = Some old \<Longrightarrow> owned_by (ld_rit (lt_disk t)) k old"
  shows "\<exists>t'. lsm_tree_put t k (Some r) = Some t' \<and> tree_holds env t' (V(k \<mapsto> r)) \<and> tree_room t \<le> Suc (tree_room t') \<and>
    lt_disk t' = put_disk t k"
proof -
  obtain xsss where wf: "tree_wf env t xsss" and fit: "list_all2 range_fit (lt_levels t) xsss" and V: "tree_view t xsss = V"
    using holds by (auto simp: tree_holds_def)
  have inv: "memtable_inv (lt_memtable t)" using wf by (simp add: tree_wf_def)
  obtain old m where put: "rbtree_memtable_put (lt_memtable t) k (Some r) = (old, m)" by fastforce
  have m: "memtable_inv m" "memtable_map m = (memtable_map (lt_memtable t))(k \<mapsto> r)" "old = replaced t k"
    using put_inv [OF inv key, of "Some r"] put_map [OF inv key, of "Some r"] put by (simp_all add: replaced_def)
  define disk where "disk = put_disk t k"
  have disk: "(case old of None \<Rightarrow> Some (ld_rit (lt_disk t), ld_dst (lt_disk t))
      | Some x \<Rightarrow> give_up_block (ld_rit (lt_disk t)) (ld_dst (lt_disk t)) k x) = Some (ld_rit disk, ld_dst disk)"
  proof (cases old)
    case (Some x)
    then have "V k = Some x" using replaced_view [of t k x xsss] V m(3) by simp
    then show ?thesis using give_up_owned [OF rit own] Some m(3) by (simp add: disk_def put_disk_def gives_up_def)
  qed (use m(3) in \<open>simp add: disk_def put_disk_def\<close>)
  have region: "ld_region disk = ld_region (lt_disk t)" "(lt_disk t)\<lparr>ld_rit := ld_rit disk, ld_dst := ld_dst disk\<rparr> = disk"
    by (simp_all add: disk_def put_disk_def gives_up_def split: option.split)
  let ?t1 = "t\<lparr>lt_memtable := m, lt_disk := disk\<rparr>"
  let ?t2 = "?t1\<lparr>lt_immutable := Some m, lt_memtable := rbtree_memtable_create, lt_queued := lt_queued t + 1\<rparr>"
  define full where "full \<longleftrightarrow> DEFAULT_LSM_FILE_CAPACITY \<le> unat (mt_size m)"
  have run: "lsm_tree_put t k (Some r) = Some (if full then ?t2 else ?t1)"
    using put disk region(2) by (cases old) (auto simp: lsm_tree_put_def Let_def full_def capacity_word)
  have small: "unat (mt_size (lt_memtable t)) < DEFAULT_LSM_FILE_CAPACITY" if "lt_immutable t \<noteq> None"
    using room that by (simp add: tree_room_def)
  have one: "unat (mt_size m) \<le> Suc (unat (mt_size (lt_memtable t)))"
    using put_size_unat [OF inv key, of r] put unsigned_less [of "mt_size (lt_memtable t)", where 'a = nat]
      put_size [OF inv key, of r] unat_plus_if_size [of "mt_size (lt_memtable t)" 1] by (auto split: if_splits)
  have none: "lt_immutable t = None" if full
    using that one small room by (auto simp: full_def tree_room_def split: if_splits)
  have view: "tree_view (if full then ?t2 else ?t1) xsss = V(k \<mapsto> r)"
    unfolding V [symmetric] using none m(2)
    by (auto simp: tree_view_def fun_eq_iff memtable_map_create split: option.split)
  have "tree_wf env (if full then ?t2 else ?t1) xsss"
    using wf m(1) region(1) by (auto simp: tree_wf_def memtable_inv_create)
  then have "tree_holds env (if full then ?t2 else ?t1) (V(k \<mapsto> r))"
    unfolding tree_holds_def using view fit by (intro exI [of _ xsss]) simp
  moreover have "tree_room t \<le> Suc (tree_room (if full then ?t2 else ?t1))"
    using one none by (auto simp: full_def tree_room_def rbtree_memtable_create_def)
  ultimately show ?thesis using run by (intro exI [of _ "if full then ?t2 else ?t1"]) (simp add: disk_def)
qed

section \<open>Properties\<close>

text \<open>
  C8. A put is found again.  On a tree with room, whose reverse index can be accessed and names the block as the
  owner of what its record says, the put returns; afterwards every search gives the new record for its block
  and for any other block what it gave before.  The index region and the catalogue stay.  If the memtable holds a
  record of the block, exactly that record's data block is given up, its entry in the reverse index emptied
  and its bit in the segment table cleared; if it holds none or a tombstone only, nothing on the disk changes.
\<close>

theorem lsm_put_then_search:
  assumes "tree_holds env t V" and "key_ok k" and "0 < tree_room t" and "healthy (ld_rit (lt_disk t))"
    and "\<And>old. V k = Some old \<Longrightarrow> owned_by (ld_rit (lt_disk t)) k old"
  shows "\<exists>t'. lsm_tree_put t k (Some r) = Some t' \<and>
    (\<forall>j. \<exists>t''. lsm_tree_search env t' j = Some (found (if j = k then Some r else V j), t'')) \<and>
    lt_disk t' = (case Option.bind (tree_lookup me_key (mt_root (lt_memtable t)) k) me_val of
        None \<Rightarrow> lt_disk t
      | Some old \<Rightarrow> (lt_disk t)\<lparr>ld_rit := (ld_rit (lt_disk t))\<lparr>ar_cells := (ar_cells (ld_rit (lt_disk t)))(rec_pba old := INF_ADDR)\<rparr>,
                                ld_dst := snd (dst_return_block (ld_dst (lt_disk t)) (rec_pba old))\<rparr>)"
proof -
  from put_spec [OF assms] obtain t' where t': "lsm_tree_put t k (Some r) = Some t'" "tree_holds env t' (V(k \<mapsto> r))"
    "lt_disk t' = put_disk t k" by blast
  have "\<exists>t''. lsm_tree_search env t' j = Some (found (if j = k then Some r else V j), t'')" for j
    using lsm_index.search_ok [OF t'(2), of j] by (auto simp: fun_upd_def)
  with t' show ?thesis unfolding put_disk_def replaced_def gives_up_def by blast
qed

lemma demo_tree_holds:
  assumes "\<forall>(k, v) \<in> set kvs. key_ok k"
  shows "tree_holds demo_env (demo_tree kvs (demo_file demo_entries))
    (\<lambda>k. case memtable_map (memtable_of kvs) k of Some r \<Rightarrow> Some r | None \<Rightarrow> map_of demo_entries k)"
proof -
  let ?t = "demo_tree kvs (demo_file demo_entries)" and ?x = "[[], [demo_entries]]"
  have wf: "tree_wf demo_env ?t ?x" by (rule demo_tree_wf) (use assms in \<open>auto simp: layout_consts key_ok_def\<close>)
  have fit: "list_all2 range_fit (lt_levels ?t) ?x"
    by (simp add: demo_tree_def range_fit_def key_ok_def sample_level_def bit_level_init_def)
  have "tree_view ?t ?x = (\<lambda>k. case memtable_map (memtable_of kvs) k of Some r \<Rightarrow> Some r | None \<Rightarrow> map_of demo_entries k)"
    by (auto simp: fun_eq_iff tree_view_def demo_tree_def level_view_def bit_level_init_def sample_level_def split: option.split)
  with wf fit show ?thesis unfolding tree_holds_def by blast
qed

theorem lsm_put_then_search_witness:
  "\<exists>t' t1 t2. lsm_tree_put (demo_tree [] (demo_file demo_entries)) 5 (Some (demo_record 20)) = Some t' \<and>
     lsm_tree_search demo_env t' 5 = Some (Inr (demo_record 20), t1) \<and>
     lsm_tree_search demo_env t' 7 = Some (Inr (demo_record 11), t2)"
proof -
  let ?t = "demo_tree [] (demo_file demo_entries)"
  have m: "memtable_map (memtable_of []) = Map.empty" by (simp add: memtable_of_def memtable_map_create)
  have h: "tree_holds demo_env ?t (map_of demo_entries)" using demo_tree_holds [of "[]"] unfolding m option.case by (simp del: map_of.simps)
  have "0 < tree_room ?t" by (simp add: tree_room_def demo_tree_def layout_consts)
  moreover have "healthy (ld_rit (lt_disk ?t))" by (simp add: demo_tree_def demo_disk_def)
  ultimately obtain t' where t': "lsm_tree_put ?t 5 (Some (demo_record 20)) = Some t'"
    "\<And>j. \<exists>t''. lsm_tree_search demo_env t' j = Some (found (if j = 5 then Some (demo_record 20) else map_of demo_entries j), t'')"
    using lsm_put_then_search [OF h, of 5 "demo_record 20"] by (auto simp: key_ok_def)
  from t'(2) [of 5] t'(2) [of 7] t'(1) show ?thesis by auto
qed

text \<open>
  C36. A put can lose records of other blocks.  When the memtable gets full while there is an immutable
  memtable, the full one takes its place, whether or not the other was written to disk: a search for a
  block that was found there before now gives only what the levels have.
\<close>

theorem lsm_put_replaces_immutable:
  assumes "tree_wf env t xsss" and "lt_immutable t = Some im" and "memtable_map im j = Some x"
    and "memtable_map (lt_memtable t) j = None" and "memtable_map (lt_memtable t) k = None" and "key_ok k" and "j \<noteq> k"
    and "mt_size (lt_memtable t) = DEFAULT_MEMTABLE_CAPACITY - 1"
  shows "\<exists>t0 t' t1. lsm_tree_search env t j = Some (Inr x, t0) \<and> lsm_tree_put t k (Some r) = Some t' \<and>
    lsm_tree_search env t' j = Some (found (levels_view (lt_levels t) xsss j), t1)"
proof -
  have inv: "memtable_inv (lt_memtable t)" using assms(1) by (simp add: tree_wf_def)
  obtain old m where put: "rbtree_memtable_put (lt_memtable t) k (Some r) = (old, m)" by fastforce
  have look: "tree_lookup me_key (mt_root (lt_memtable t)) k = None"
  proof (rule ccontr)
    assume "tree_lookup me_key (mt_root (lt_memtable t)) k \<noteq> None"
    then obtain e where e: "tree_lookup me_key (mt_root (lt_memtable t)) k = Some e" by blast
    then have "entry_ok e" using inv tree_lookup_Some by (fastforce simp: memtable_inv_def)
    then show False using e assms(5) by (auto simp: memtable_map_def entry_ok_def entry_value_def split: option.splits)
  qed
  have m: "memtable_inv m" "memtable_map m = (memtable_map (lt_memtable t))(k \<mapsto> r)" "old = None"
    using put_inv [OF inv assms(6), of "Some r"] put_map [OF inv assms(6), of "Some r"] put look by simp_all
  have "mt_size m = mt_size (lt_memtable t) + 1"
    using inv assms(6)
  proof (cases rule: put_cases [where val = "Some r"])
    case (fresh t')
    then show ?thesis using put by (auto simp: rbtree_memtable_put_def)
  qed (use look in simp)
  then have size: "mt_size m = DEFAULT_MEMTABLE_CAPACITY" using assms(8) by simp
  let ?t = "t\<lparr>lt_memtable := rbtree_memtable_create, lt_immutable := Some m, lt_queued := lt_queued t + 1\<rparr>"
  have "lsm_tree_put t k (Some r) = Some ?t"
    using put m(3) size by (simp add: lsm_tree_put_def Let_def)
  moreover have "tree_wf env ?t xsss" using assms(1) m(1) by (simp add: tree_wf_def memtable_inv_create)
  from search_view [OF this, of j] obtain t1 where "lsm_tree_search env ?t j = Some (found (tree_view ?t xsss j), t1)" by blast
  moreover have "tree_view ?t xsss j = levels_view (lt_levels t) xsss j"
    using m(2) assms(4,7) by (simp add: tree_view_def memtable_map_create)
  moreover from search_view [OF assms(1), of j] obtain t0 where "lsm_tree_search env t j = Some (found (tree_view t xsss j), t0)" by blast
  moreover have "tree_view t xsss j = Some x" using assms(2,3,4) by (simp add: tree_view_def)
  ultimately show ?thesis by auto
qed

text \<open>A memtable one short of its capacity.\<close>

definition demo_full :: "(nat \<times> blk_record option) list" where
  "demo_full = map (\<lambda>i. (i, Some (demo_record i))) [0..<DEFAULT_LSM_FILE_CAPACITY - 1]"

lemma demo_full_keys: "\<forall>(k, v) \<in> set demo_full. key_ok k"
  by (auto simp: demo_full_def key_ok_def DEFAULT_LSM_FILE_CAPACITY_def)

lemma memtable_of_no_tombstones: "no_tombstones (memtable_of (map (\<lambda>i. (f i, Some (g i))) xs))"
proof -
  have "no_tombstones m \<Longrightarrow> no_tombstones (foldl (\<lambda>m (k, v). snd (rbtree_memtable_put m k v)) m (map (\<lambda>i. (f i, Some (g i))) xs))" for m
    by (induction xs arbitrary: m) (simp_all add: put_no_tombstones)
  moreover have "no_tombstones rbtree_memtable_create" by (simp add: no_tombstones_def rbtree_memtable_create_def)
  ultimately show ?thesis by (simp add: memtable_of_def)
qed

lemma demo_full_map: "memtable_map (memtable_of demo_full) k =
    (if k < DEFAULT_LSM_FILE_CAPACITY - 1 then Some (demo_record k) else None)"
proof -
  have "map_of (rev (map (\<lambda>i. (i, Some (demo_record i))) [0..<n])) k = (if k < n then Some (Some (demo_record k)) else None)" for n
    by (induction n) (auto simp: less_Suc_eq)
  then show ?thesis unfolding memtable_of_def demo_full_def
    using mt.puts_tmap [OF memtable_inv_create, of demo_full k] demo_full_keys
    by (simp add: demo_full_def memtable_map_create)
qed

lemma demo_full_size: "mt_size (memtable_of demo_full) = DEFAULT_MEMTABLE_CAPACITY - 1"
proof -
  have "dom (memtable_map (memtable_of demo_full)) = {..<DEFAULT_LSM_FILE_CAPACITY - 1}"
    by (auto simp: demo_full_map split: if_splits)
  then have "mt_size (memtable_of demo_full) = of_nat (DEFAULT_LSM_FILE_CAPACITY - 1)"
    using size_no_tombstones(1) [OF memtable_of_inv [OF demo_full_keys]]
      memtable_of_no_tombstones [of id demo_record "[0..<DEFAULT_LSM_FILE_CAPACITY - 1]"]
    by (simp add: demo_full_def)
  then show ?thesis by (simp add: DEFAULT_MEMTABLE_CAPACITY_def DEFAULT_LSM_FILE_CAPACITY_def)
qed

theorem lsm_put_replaces_immutable_witness:
  "\<exists>t0 t' t1. let t = (demo_tree demo_full (demo_file demo_entries))\<lparr>lt_immutable := Some (memtable_of [(200000, Some (demo_record 5))])\<rparr>
     in lsm_tree_search demo_env t 200000 = Some (Inr (demo_record 5), t0) \<and>
        lsm_tree_put t 200001 (Some (demo_record 6)) = Some t' \<and> lsm_tree_search demo_env t' 200000 = Some (Inl ENODATA, t1)"
proof -
  let ?im = "memtable_of [(200000, Some (demo_record 5))]"
  let ?base = "demo_tree demo_full (demo_file demo_entries)"
  let ?t = "?base\<lparr>lt_immutable := Some ?im\<rparr>" and ?x = "[[], [demo_entries]]"
  have im: "memtable_inv ?im" "memtable_map ?im 200000 = Some (demo_record 5)"
    by (simp_all add: memtable_of_def put_map put_inv memtable_inv_create key_ok_def)
  have wf0: "tree_wf demo_env ?base ?x" by (rule demo_tree_wf) (use demo_full_keys in \<open>auto simp: layout_consts key_ok_def\<close>)
  have wf: "tree_wf demo_env ?t ?x" unfolding tree_wf_def using wf0 [unfolded tree_wf_def] im(1) by simp
  have mem: "lt_memtable ?t = memtable_of demo_full" by (simp add: demo_tree_def)
  have nk: "memtable_map (lt_memtable ?t) 200000 = None" "memtable_map (lt_memtable ?t) 200001 = None"
    unfolding mem demo_full_map by (simp_all add: DEFAULT_LSM_FILE_CAPACITY_def)
  have ks: "key_ok 200001" "(200000 :: nat) \<noteq> 200001" by (simp_all add: key_ok_def)
  have "levels_view (lt_levels ?t) ?x 200000 = None"
    by (simp add: demo_tree_def level_view_def bit_level_init_def sample_level_def)
  moreover have "mt_size (lt_memtable ?t) = DEFAULT_MEMTABLE_CAPACITY - 1" unfolding mem by (rule demo_full_size)
  moreover have "lt_immutable ?t = Some ?im" by simp
  ultimately show ?thesis
    using lsm_put_replaces_immutable [OF wf _ im(2) nk ks, of "demo_record 6"] unfolding Let_def by simp
qed

end
