(* ===== verification/Device_Blocks.thy ===== *)
theory Device_Blocks
  imports Device Lsm_Put
begin

text \<open>
  What the device relies on below: the data blocks of the raw device, and a record that opens its
  block.  dm-io is described by the contents of the sectors (\<open>io_ok\<close>), the cipher by \<open>gcm_works\<close>:
  encryption succeeds, keeps the length and is undone by decryption.
\<close>

section \<open>Sectors\<close>

definition io_ok :: "'d io_client \<Rightarrow> ('d \<Rightarrow> nat \<Rightarrow> byte list) \<Rightarrow> bool" where
  "io_ok io sector \<longleftrightarrow>
     (\<forall>d s n. ic_read io d s n = concat (map (sector d) [s..<s + n])) \<and>
     (\<forall>d s. length (sector d s) = SECTOR_SIZE) \<and>
     (\<forall>d s bs n x. length bs = n * SECTOR_SIZE \<longrightarrow> sector (ic_write io d s bs) x =
        (if s \<le> x \<and> x < s + n then take SECTOR_SIZE (drop ((x - s) * SECTOR_SIZE) bs) else sector d x))"

lemma length_concat_const: "(\<And>x. length (f x) = n) \<Longrightarrow> length (concat (map f xs)) = length xs * n"
  by (induction xs) simp_all

lemma concat_piece:
  assumes "\<And>x. length (f x) = n" and "a + k \<le> m"
  shows "take (k * n) (drop (a * n) (concat (map f [s..<s + m]))) = concat (map f [s + a..<s + a + k])"
proof -
  have "[s..<s + m] = [s..<s + a] @ [s + a..<s + a + k] @ [s + a + k..<s + m]"
    using assms(2) upt_add_eq_append [of s "s + a" "m - a"] upt_add_eq_append [of "s + a" "s + a + k" "m - a - k"] by simp
  moreover have "length (concat (map f [s..<s + a])) = a * n" "length (concat (map f [s + a..<s + a + k])) = k * n"
    using length_concat_const [of f n, OF assms(1)] by simp_all
  ultimately show ?thesis by simp
qed

lemma concat_slices:
  "(a + k) * n \<le> length bs \<Longrightarrow>
   concat (map (\<lambda>x. take n (drop ((x - s) * n) bs)) [s + a..<s + a + k]) = take (k * n) (drop (a * n) bs)"
proof (induction k)
  case (Suc k)
  have "concat (map (\<lambda>x. take n (drop ((x - s) * n) bs)) [s + a..<s + a + k]) = take (k * n) (drop (a * n) bs)"
    using Suc by simp
  moreover have "take (Suc k * n) (drop (a * n) bs) = take (k * n) (drop (a * n) bs) @ take n (drop (k * n) (drop (a * n) bs))"
    by (simp only: mult_Suc add.commute [of n] take_add)
  moreover have "drop (k * n) (drop (a * n) bs) = drop ((a + k) * n) bs" by (simp add: algebra_simps)
  ultimately show ?case by simp
qed simp

section \<open>Blocks\<close>

definition block_at :: "('c, 'd) jd_env \<Rightarrow> ('c, 'd) dm_jindisk \<Rightarrow> dm_block_t \<Rightarrow> byte list" where
  "block_at env st pba = jindisk_read_blocks env st pba 1"

text \<open>The sectors of the first \<open>n\<close> data blocks have numbers below 2^64.\<close>

definition io_fits :: "('c, 'd) jd_env \<Rightarrow> nat \<Rightarrow> bool" where
  "io_fits env n \<longleftrightarrow> (je_data_start env + n) * SECTORS_PER_BLOCK \<le> 2 ^ 64"

lemma io_region_fits:
  assumes "io_fits env n" and "pba < n"
  shows "io_region env pba cnt = ((je_data_start env + pba) * 8, cnt * 8)"
proof -
  have "(je_data_start env + pba) * 8 < (je_data_start env + n) * 8" using assms(2) by simp
  then have "(je_data_start env + pba) * 8 < 2 ^ 64" using assms(1) unfolding io_fits_def SECTORS_PER_BLOCK_def by linarith
  then show ?thesis by (simp add: io_region_def SECTORS_PER_BLOCK_def)
qed

lemma read_sectors:
  assumes "io_ok (je_io env) sector" and "io_fits env n" and "pba < n"
  shows "jindisk_read_blocks env st pba cnt =
    concat (map (sector (jd_raw_dev st)) [(je_data_start env + pba) * 8..<(je_data_start env + pba) * 8 + cnt * 8])"
  using assms by (simp add: jindisk_read_blocks_def io_region_fits io_ok_def)

lemma length_block_at:
  assumes "io_ok (je_io env) sector" and "io_fits env n" and "pba < n"
  shows "length (block_at env st pba) = DATA_BLOCK_SIZE"
proof -
  have "\<And>s. length (sector (jd_raw_dev st) s) = 512" using assms(1) by (simp add: io_ok_def SECTOR_SIZE_def)
  then show ?thesis unfolding block_at_def read_sectors [OF assms]
    by (simp add: length_concat_const [of _ 512] consts_simps)
qed

lemma read_blocks_piece:
  assumes "io_ok (je_io env) sector" and "io_fits env n" and "pba + cnt \<le> n" and "i < cnt"
  shows "take DATA_BLOCK_SIZE (drop (i * DATA_BLOCK_SIZE) (jindisk_read_blocks env st pba cnt)) = block_at env st (pba + i)"
proof -
  have len: "\<And>s. length (sector (jd_raw_dev st) s) = 512" using assms(1) by (simp add: io_ok_def SECTOR_SIZE_def)
  have p: "pba < n" "pba + i < n" using assms(3,4) by simp_all
  have "take (8 * 512) (drop (i * 8 * 512) (concat (map (sector (jd_raw_dev st))
      [(je_data_start env + pba) * 8..<(je_data_start env + pba) * 8 + cnt * 8]))) =
    concat (map (sector (jd_raw_dev st)) [(je_data_start env + pba) * 8 + i * 8..<(je_data_start env + pba) * 8 + i * 8 + 8])"
    by (rule concat_piece) (use len assms(4) in auto)
  moreover have "(je_data_start env + (pba + i)) * 8 = (je_data_start env + pba) * 8 + i * 8" by simp
  ultimately show ?thesis
    unfolding block_at_def read_sectors [OF assms(1,2) p(1)] read_sectors [OF assms(1,2) p(2)] by (simp add: consts_simps ac_simps)
qed

lemma write_blocks_piece:
  assumes io: "io_ok (je_io env) sector" and fits: "io_fits env n" and "pba + cnt \<le> n" "0 < cnt" and q: "q < n"
    and len: "length buf = cnt * DATA_BLOCK_SIZE"
  shows "block_at env (jindisk_write_blocks env st pba cnt buf) q =
    (if pba \<le> q \<and> q < pba + cnt then take DATA_BLOCK_SIZE (drop ((q - pba) * DATA_BLOCK_SIZE) buf) else block_at env st q)"
proof -
  define s x where "s = (je_data_start env + pba) * 8" and "x = (je_data_start env + q) * 8"
  let ?d = "ic_write (je_io env) (jd_raw_dev st) s buf"
  have p: "pba < n" using assms(3,4) by simp
  have l: "length buf = (cnt * 8) * SECTOR_SIZE" using len by (simp add: consts_simps)
  have w: "jd_raw_dev (jindisk_write_blocks env st pba cnt buf) = ?d"
    using l by (simp add: jindisk_write_blocks_def io_region_fits [OF fits p] s_def)
  have sec: "sector ?d y = (if s \<le> y \<and> y < s + cnt * 8 then take 512 (drop ((y - s) * 512) buf)
      else sector (jd_raw_dev st) y)" for y
    using io l unfolding io_ok_def SECTOR_SIZE_def by simp
  have b: "block_at env (jindisk_write_blocks env st pba cnt buf) q = concat (map (sector ?d) [x..<x + 8])"
    "block_at env st q = concat (map (sector (jd_raw_dev st)) [x..<x + 8])"
    unfolding block_at_def read_sectors [OF io fits q] w x_def by simp_all
  show ?thesis
  proof (cases "pba \<le> q \<and> q < pba + cnt")
    case True
    define a where "a = (q - pba) * 8"
    have x: "x = s + a" "a + 8 \<le> cnt * 8" using True by (auto simp: a_def s_def x_def)
    have "map (sector ?d) [s + a..<s + a + 8] = map (\<lambda>y. take 512 (drop ((y - s) * 512) buf)) [s + a..<s + a + 8]"
      using x(2) by (auto simp: sec)
    moreover have "(a + 8) * 512 \<le> length buf" using x(2) l by (simp add: SECTOR_SIZE_def)
    ultimately have "concat (map (sector ?d) [x..<x + 8]) = take (8 * 512) (drop (a * 512) buf)"
      using concat_slices [of a 8 512 buf s] by (simp only: x(1))
    then show ?thesis using True by (simp add: b a_def consts_simps mult.commute)
  next
    case False
    then have "x + 8 \<le> s \<or> s + cnt * 8 \<le> x" by (auto simp: s_def x_def)
    then have "map (sector ?d) [x..<x + 8] = map (sector (jd_raw_dev st)) [x..<x + 8]"
      by (auto simp: sec)
    then show ?thesis unfolding b if_not_P [OF False] by (rule arg_cong)
  qed
qed

section \<open>Sealed blocks\<close>

definition gcm_works :: "gcm_api \<Rightarrow> bool" where
  "gcm_works api \<longleftrightarrow> ga_lock api = None \<and> ga_request api \<and> (\<forall>key. ga_setkey api key = None) \<and>
     (\<forall>key iv ad data. \<exists>out mac. ga_encrypt api key iv ad data = Inr (out, mac) \<and> length out = length data \<and>
        ga_decrypt api key iv ad out mac = Inr data)"

text \<open>The record opens the ciphertext: decryption succeeds and gives the data.\<close>

definition opens :: "gcm_api \<Rightarrow> blk_record \<Rightarrow> byte list \<Rightarrow> byte list \<Rightarrow> bool" where
  "opens api r cipher data \<longleftrightarrow>
     (\<forall>out. aes_gcm_cipher_decrypt api cipher (rec_key r) None (rec_mac r) (of_nat (rec_pba r)) out = Some (Inr (), data))"

lemma seal_opens:
  assumes "gcm_works (je_cipher env)"
  obtains new out' where "seal_block env key pba plain out = Some (new, out')" and "rec_pba new = pba"
    and "length out' = length plain" and "opens (je_cipher env) new out' plain"
proof -
  let ?new = "record_create [] pba (Some key) None" and ?api = "je_cipher env"
  let ?iv = "gcm_iv None" and ?ad = "gcm_ad (of_nat pba) (gcm_iv None)"
  obtain o' mac where e: "ga_encrypt ?api (rec_key ?new) ?iv ?ad plain = Inr (o', mac)" "length o' = length plain"
    "ga_decrypt ?api (rec_key ?new) ?iv ?ad o' mac = Inr plain" using assms unfolding gcm_works_def by blast
  have w: "ga_lock ?api = None" "ga_request ?api" "\<And>k. ga_setkey ?api k = None" using assms by (simp_all add: gcm_works_def)
  show thesis
  proof (rule that)
    show "seal_block env key pba plain out = Some (?new\<lparr>rec_mac := mac\<rparr>, o')"
      using e w by (simp add: seal_block_def aes_gcm_cipher_encrypt_def)
    show "rec_pba (?new\<lparr>rec_mac := mac\<rparr>) = pba" by (simp add: record_create_def)
    have "rec_key (?new\<lparr>rec_mac := mac\<rparr>) = rec_key ?new" "rec_pba ?new = pba" by (simp_all add: record_create_def)
    then show "opens ?api (?new\<lparr>rec_mac := mac\<rparr>) o' plain"
      using e w by (simp add: opens_def aes_gcm_cipher_decrypt_def)
  qed (rule e(2))
qed

section \<open>A small device\<close>

text \<open>For the examples: a disk in memory, and a fresh device of \<open>n\<close> segments on an empty disk.\<close>

definition demo_io :: "(nat \<Rightarrow> byte list) io_client" where
  "demo_io =
     \<lparr>ic_read = (\<lambda>d s n. concat (map (\<lambda>x. take SECTOR_SIZE (d x @ replicate SECTOR_SIZE 0)) [s..<s + n])),
      ic_write = (\<lambda>d s bs x. if s \<le> x \<and> x < s + length bs div SECTOR_SIZE then take SECTOR_SIZE (drop ((x - s) * SECTOR_SIZE) bs) else d x)\<rparr>"

definition demo_jd_env :: "(bit_node, nat \<Rightarrow> byte list) jd_env" where
  "demo_jd_env = \<lparr>je_lsm = demo_env, je_cipher = demo_gcm, je_io = demo_io, je_segbuf = demo_segbuf_env,
     je_data_start = sb_data_start (superblock_format 8 8 0 zero_sb), je_nr_segment = 2, je_superblock = superblock_format 8 8 0 zero_sb,
     je_valid_fields = (\<lambda>_. False), je_write_dirty = (\<lambda>d. d)\<rparr>"

definition demo_device :: "nat \<Rightarrow> (bit_node, nat \<Rightarrow> byte list) dm_jindisk" where
  "demo_device n =
     \<lparr>jd_lsm_tree = \<lparr>lt_memtable = rbtree_memtable_create, lt_immutable = None, lt_levels = [],
        lt_disk = (demo_disk (\<lambda>_. Inner_Node []))\<lparr>ld_rit := fresh_darray (n * BLOCKS_PER_SEGMENT) 0,
          ld_dst := snd (dst_init (fresh_darray n empty_entry) n)\<rparr>, lt_queued = 0\<rparr>,
      jd_seg_validator = seg_validator_init (fresh_darray (disk_bitset_nr_group n) 0) n,
      jd_nr_valid_segment = 0, jd_raw_dev = (\<lambda>_. []), jd_seg_buffer = segbuf_init demo_segbuf_env\<rparr>"

lemma demo_io_ok: "io_ok demo_io (\<lambda>d x. take SECTOR_SIZE (d x @ replicate SECTOR_SIZE 0))"
  unfolding io_ok_def
proof (intro conjI allI impI)
  fix d :: "nat \<Rightarrow> byte list" and s n x and bs :: "byte list"
  assume "length bs = n * SECTOR_SIZE"
  moreover have "(x - s) * 512 + 512 \<le> n * 512" if "s \<le> x" "x < s + n" using that by simp
  ultimately show "take SECTOR_SIZE (ic_write demo_io d s bs x @ replicate SECTOR_SIZE 0) =
    (if s \<le> x \<and> x < s + n then take SECTOR_SIZE (drop ((x - s) * SECTOR_SIZE) bs) else take SECTOR_SIZE (d x @ replicate SECTOR_SIZE 0))"
    by (auto simp: demo_io_def SECTOR_SIZE_def)
qed (simp_all add: demo_io_def SECTOR_SIZE_def)

end
