(* ===== verification/Device_Index.thy ===== *)
theory Device_Index
  imports Device_Blocks
begin

text \<open>
  The invariant of the index: every block the tree knows has a record that opens the data of the block
  at its place, the place is marked in use and the reverse index names the block as its owner.  \<open>V\<close> is
  the view of the tree, \<open>F\<close> the data that was flushed, \<open>content\<close> the data blocks.
\<close>

section \<open>The invariant\<close>

definition nr_blocks :: "('c, 'd) dm_jindisk \<Rightarrow> nat" where
  "nr_blocks st = ds_nr_segment (jd_dst st) * BLOCKS_PER_SEGMENT"

definition index_inv ::
  "('c, 'd) jd_env \<Rightarrow> ('c, 'd) dm_jindisk \<Rightarrow> (nat \<rightharpoonup> blk_record) \<Rightarrow> (nat \<rightharpoonup> byte list) \<Rightarrow> (nat \<Rightarrow> byte list) \<Rightarrow> bool" where
  "index_inv env st V F content \<longleftrightarrow>
     tree_holds (je_lsm env) (jd_lsm_tree st) V \<and> healthy (jd_rit st) \<and> ar_nr (jd_rit st) = nr_blocks st \<and>
     space_inv (jd_dst st) (jd_seg_validator st) \<and> dom V = dom F \<and>
     (\<forall>k r d. V k = Some r \<longrightarrow> F k = Some d \<longrightarrow> owned_by (jd_rit st) k r \<and> dst_valid (jd_dst st) (rec_pba r) \<and>
        opens (je_cipher env) r (content (rec_pba r)) d)"

lemma index_invD:
  assumes "index_inv env st V F content"
  shows "tree_holds (je_lsm env) (jd_lsm_tree st) V" and "healthy (jd_rit st)" and "ar_nr (jd_rit st) = nr_blocks st"
    and "space_inv (jd_dst st) (jd_seg_validator st)" and "dom V = dom F"
    and "V k = Some r \<Longrightarrow> owned_by (jd_rit st) k r" and "V k = Some r \<Longrightarrow> dst_valid (jd_dst st) (rec_pba r)"
    and "V k = Some r \<Longrightarrow> F k = Some d \<Longrightarrow> opens (je_cipher env) r (content (rec_pba r)) d"
    and "V k = Some r \<Longrightarrow> rec_pba r < nr_blocks st"
  using assms unfolding index_inv_def owned_by_def by (fastforce simp: dom_def)+

lemma index_inv_content:
  assumes "index_inv env st V F content" and "\<And>k r. V k = Some r \<Longrightarrow> content' (rec_pba r) = content (rec_pba r)"
  shows "index_inv env st V F content'"
  using assms unfolding index_inv_def by fastforce

lemma index_inv_frame:
  assumes "index_inv env st V F content" and "jd_lsm_tree st' = jd_lsm_tree st" and "jd_seg_validator st' = jd_seg_validator st"
  shows "index_inv env st' V F content"
  using assms unfolding index_inv_def jd_rit_def jd_dst_def nr_blocks_def by simp

section \<open>One block\<close>

text \<open>What the operations on the index leave alone.\<close>

definition same_rest :: "('c, 'd) dm_jindisk \<Rightarrow> ('c, 'd) dm_jindisk \<Rightarrow> bool" where
  "same_rest st st' \<longleftrightarrow> jd_seg_validator st' = jd_seg_validator st \<and> jd_nr_valid_segment st' = jd_nr_valid_segment st \<and>
     jd_raw_dev st' = jd_raw_dev st \<and> jd_seg_buffer st' = jd_seg_buffer st \<and> nr_blocks st' = nr_blocks st"

lemma same_rest_refl [simp]: "same_rest st st"
  by (simp add: same_rest_def)

lemma same_rest_trans: "same_rest a b \<Longrightarrow> same_rest b c \<Longrightarrow> same_rest a c"
  by (simp add: same_rest_def)

lemma space_inv_return:
  assumes inv: "space_inv d v" and p: "p < ds_nr_segment d * BLOCKS_PER_SEGMENT"
  shows "space_inv (snd (dst_return_block d p)) v \<and> ds_nr_segment (snd (dst_return_block d p)) = ds_nr_segment d \<and>
    dst_valid (snd (dst_return_block d p)) = (dst_valid d)(p := False)"
proof -
  obtain r d' where d': "dst_return_block d p = (r, d')" by fastforce
  note I = space_invD [OF inv] and R = return_block_spec [OF space_invD(1) [OF inv] p d']
  have "sv_valid v s" if "ds_node_list d' s" for s
  proof (cases "ds_node_list d s")
    case True
    then show ?thesis by (rule I(7))
  next
    case False
    then have "s = block_to_segment p" "de_nr_valid_block (entry_at d s) \<noteq> 0" using R that by blast+
    then show ?thesis using I(5) [of s] p by (metis block_to_segment_less)
  qed
  moreover have "de_nr_valid_block (entry_at d' s) = 0" if "s < ds_nr_segment d" "\<not> sv_valid v s" for s
    using I(5) [OF that] R by (metis le_zero_eq)
  ultimately show ?thesis using R I(3,4,6) unfolding space_inv_def d' by simp
qed

lemma jd_set_rit_sel [simp]:
  "jd_rit (jd_set_rit r st) = r" "jd_dst (jd_set_rit r st) = jd_dst st"
  "jd_seg_validator (jd_set_rit r st) = jd_seg_validator st" "jd_nr_valid_segment (jd_set_rit r st) = jd_nr_valid_segment st"
  "jd_raw_dev (jd_set_rit r st) = jd_raw_dev st" "jd_seg_buffer (jd_set_rit r st) = jd_seg_buffer st"
  by (simp_all add: jd_rit_def jd_dst_def jd_set_rit_def)

lemma tree_holds_disk:
  assumes "tree_holds env t V" and "ld_region disk = ld_region (lt_disk t)"
  shows "tree_holds env (t\<lparr>lt_disk := disk\<rparr>) V"
proof -
  have "tree_view (t\<lparr>lt_disk := disk\<rparr>) xsss = tree_view t xsss" for xsss
    by (simp add: tree_view_def fun_eq_iff split: option.split)
  moreover have "tree_wf env (t\<lparr>lt_disk := disk\<rparr>) xsss = tree_wf env t xsss" for xsss
    using assms(2) by (simp add: tree_wf_def)
  ultimately show ?thesis using assms(1) by (simp add: tree_holds_def)
qed

lemma tree_holds_set_rit:
  "tree_holds env (jd_lsm_tree st) V \<Longrightarrow> tree_holds env (jd_lsm_tree (jd_set_rit r st)) V"
  "tree_room (jd_lsm_tree (jd_set_rit r st)) = tree_room (jd_lsm_tree st)"
  by (simp_all add: jd_set_rit_def tree_holds_disk tree_room_def)

lemma index_block_ok:
  assumes inv: "index_inv env st V F content" and key: "key_ok lba" and room: "0 < tree_room (jd_lsm_tree st)"
    and p: "pba < nr_blocks st" "dst_valid (jd_dst st) pba" and free: "\<forall>k r. V k = Some r \<longrightarrow> rec_pba r \<noteq> pba"
    and new: "rec_pba new = pba" "opens (je_cipher env) new (content pba) plain"
  shows "\<exists>st'. index_block st lba new pba = Some st' \<and> index_inv env st' (V(lba \<mapsto> new)) (F(lba \<mapsto> plain)) content \<and>
    same_rest st st' \<and> tree_room (jd_lsm_tree st) \<le> Suc (tree_room (jd_lsm_tree st')) \<and>
    (\<forall>q. dst_valid (jd_dst st) q \<longrightarrow> dst_valid (jd_dst st') q \<or> (\<exists>r. V lba = Some r \<and> q = rec_pba r))"
proof -
  note I = index_invD [OF inv]
  let ?t = "jd_lsm_tree st"
  from put_spec [OF I(1) key room, of new] obtain t' where
    t': "lsm_tree_put ?t lba (Some new) = Some t'" "tree_holds (je_lsm env) t' (V(lba \<mapsto> new))"
      "tree_room ?t \<le> Suc (tree_room t')"
      "lt_disk t' = lt_disk ?t \<or> (\<exists>old. V lba = Some old \<and> lt_disk t' = gives_up (lt_disk ?t) old)"
    using I(2,6) put_disk_cases [OF I(1), of lba] unfolding jd_rit_def by metis
  let ?s1 = "st\<lparr>jd_lsm_tree := t'\<rparr>"
  let ?s2 = "jd_set_rit (snd (reverse_index_table_set (jd_rit ?s1) pba lba)) ?s1"
  have dst: "space_inv (jd_dst ?s1) (jd_seg_validator st)" "ds_nr_segment (jd_dst ?s1) = ds_nr_segment (jd_dst st)"
    "healthy (jd_rit ?s1)" "ar_nr (jd_rit ?s1) = ar_nr (jd_rit st)"
    "\<And>q. dst_valid (jd_dst ?s1) q \<noteq> dst_valid (jd_dst st) q \<Longrightarrow> \<exists>r. V lba = Some r \<and> q = rec_pba r"
    "\<And>q. ar_cells (jd_rit ?s1) q \<noteq> ar_cells (jd_rit st) q \<Longrightarrow> \<exists>r. V lba = Some r \<and> q = rec_pba r"
    using t'(4)
  proof (atomize (full), elim disjE exE conjE, goal_cases)
    case 1
    then show ?case using I(2,4) by (simp add: jd_dst_def jd_rit_def)
  next
    case (2 old)
    have "rec_pba old < ds_nr_segment (jd_dst st) * BLOCKS_PER_SEGMENT" using I(9) [OF 2(1)] by (simp add: nr_blocks_def)
    from space_inv_return [OF I(4) this] show ?case using 2 I(2)
      by (auto simp: jd_dst_def jd_rit_def gives_up_def healthy_def)
  qed
  have rit: "snd (reverse_index_table_set (jd_rit ?s1) pba lba) = (jd_rit ?s1)\<lparr>ar_cells := (ar_cells (jd_rit ?s1))(pba := lba)\<rparr>"
    using dst(3,4) p(1) I(3) by (simp add: reverse_index_table_set_def arr_simps)
  have run: "index_block st lba new pba = Some ?s2" using t'(1) key by (simp add: index_block_def Let_def)
  have nb: "nr_blocks ?s2 = nr_blocks st" using dst(2) by (simp add: nr_blocks_def)
  have keep: "owned_by (jd_rit ?s2) k r \<and> dst_valid (jd_dst ?s2) (rec_pba r)" if r: "V k = Some r" "k \<noteq> lba" for k r
  proof -
    have "ar_cells (jd_rit st) (rec_pba r) = k" "rec_pba r < ar_nr (jd_rit st)" using I(6) [OF r(1)] by (simp_all add: owned_by_def)
    moreover have "\<not> (\<exists>r'. V lba = Some r' \<and> rec_pba r = rec_pba r')"
      using I(6) calculation r(2) by (auto simp: owned_by_def)
    with dst(5,6) [of "rec_pba r"] have "ar_cells (jd_rit ?s1) (rec_pba r) = ar_cells (jd_rit st) (rec_pba r)"
      "dst_valid (jd_dst ?s1) (rec_pba r) = dst_valid (jd_dst st) (rec_pba r)" by blast+
    ultimately show ?thesis using dst(4) free r(1) I(7) [OF r(1)] by (simp add: owned_by_def rit)
  qed
  have this_one: "owned_by (jd_rit ?s2) lba new" "dst_valid (jd_dst ?s2) pba"
    using p I(3) dst(4) dst(5) [of pba] free by (auto simp: owned_by_def rit new(1))
  have "index_inv env ?s2 (V(lba \<mapsto> new)) (F(lba \<mapsto> plain)) content"
    unfolding index_inv_def nb
  proof (intro conjI allI impI)
    show "tree_holds (je_lsm env) (jd_lsm_tree ?s2) (V(lba \<mapsto> new))" using t'(2) by (intro tree_holds_set_rit) simp
    show "healthy (jd_rit ?s2)" "ar_nr (jd_rit ?s2) = nr_blocks st" using dst(3,4) I(3) by (simp_all add: rit healthy_def)
    show "space_inv (jd_dst ?s2) (jd_seg_validator ?s2)" using dst(1) by simp
    show "dom (V(lba \<mapsto> new)) = dom (F(lba \<mapsto> plain))" using I(5) by simp
    fix k r d
    assume r: "(V(lba \<mapsto> new)) k = Some r" "(F(lba \<mapsto> plain)) k = Some d"
    show "owned_by (jd_rit ?s2) k r" "dst_valid (jd_dst ?s2) (rec_pba r)" "opens (je_cipher env) r (content (rec_pba r)) d"
      using r keep this_one new I(8) by (cases "k = lba"; fastforce)+
  qed
  moreover have "same_rest st ?s2" using nb by (simp add: same_rest_def)
  moreover have "tree_room ?t \<le> Suc (tree_room (jd_lsm_tree ?s2))" using t'(3) by (simp add: tree_holds_set_rit)
  ultimately show ?thesis using run dst(5) by (intro exI [of _ ?s2]) auto
qed

section \<open>A segment of blocks\<close>

text \<open>The data blocks once the first \<open>n\<close> blocks of \<open>cipher\<close> have been written from \<open>start\<close> on.\<close>

definition overlaid :: "nat \<Rightarrow> nat \<Rightarrow> (nat \<Rightarrow> byte list) \<Rightarrow> (nat \<Rightarrow> byte list) \<Rightarrow> nat \<Rightarrow> byte list" where
  "overlaid start n cipher base p = (if start \<le> p \<and> p < start + n then cipher (p - start) else base p)"

definition flush_map :: "segment_block list \<Rightarrow> (nat \<rightharpoonup> byte list) \<Rightarrow> nat \<rightharpoonup> byte list" where
  "flush_map blks F = foldl (\<lambda>F b. F(blk_lba b \<mapsto> blk_plain b)) F blks"

text \<open>The blocks from \<open>p\<close> up to \<open>q\<close> are marked in use and no record points to them.\<close>

definition reserved :: "('c, 'd) dm_jindisk \<Rightarrow> (nat \<rightharpoonup> blk_record) \<Rightarrow> nat \<Rightarrow> nat \<Rightarrow> bool" where
  "reserved st V p q \<longleftrightarrow> q \<le> nr_blocks st \<and> (\<forall>x. p \<le> x \<and> x < q \<longrightarrow> dst_valid (jd_dst st) x \<and> (\<forall>k r. V k = Some r \<longrightarrow> rec_pba r \<noteq> x))"

lemma flush_loop_ok:
  assumes "gcm_works (je_cipher env)"
    and "index_inv env st V F (overlaid start i cipher base)" and "length blks \<le> tree_room (jd_lsm_tree st)"
    and "\<forall>b \<in> set blks. key_ok (blk_lba b) \<and> length (blk_plain b) = DATA_BLOCK_SIZE"
    and "reserved st V (start + i) (start + i + length blks)"
  shows "\<exists>cipher' st' V'. flush_loop env key start i blks cipher st = Some (cipher', st') \<and>
    index_inv env st' V' (flush_map blks F) (overlaid start (i + length blks) cipher' base) \<and> same_rest st st' \<and>
    tree_room (jd_lsm_tree st) \<le> tree_room (jd_lsm_tree st') + length blks \<and>
    (\<forall>j. i \<le> j \<and> j < i + length blks \<longrightarrow> length (cipher' j) = DATA_BLOCK_SIZE) \<and> (\<forall>j < i. cipher' j = cipher j)"
  using assms(2-)
proof (induction blks arbitrary: i cipher st V F)
  case Nil
  then show ?case by (intro exI [of _ cipher] exI [of _ st] exI [of _ V]) (simp add: flush_map_def)
next
  case (Cons b blks)
  let ?p = "start + i"
  obtain new out where seal: "seal_block env key ?p (blk_plain b) (cipher i) = Some (new, out)" "rec_pba new = ?p"
    "length out = length (blk_plain b)" "opens (je_cipher env) new out (blk_plain b)"
    using seal_opens [OF assms(1)] .
  let ?c = "cipher(i := out)"
  have p: "?p < nr_blocks st" "dst_valid (jd_dst st) ?p" and free: "\<forall>k r. V k = Some r \<longrightarrow> rec_pba r \<noteq> ?p"
    using Cons.prems(4) by (auto simp: reserved_def)
  have inv: "index_inv env st V F (overlaid start (Suc i) ?c base)"
  proof (rule index_inv_content [OF Cons.prems(1)])
    fix k r
    assume "V k = Some r"
    then have "rec_pba r \<noteq> ?p" using free by blast
    then show "overlaid start (Suc i) ?c base (rec_pba r) = overlaid start i cipher base (rec_pba r)" by (auto simp: overlaid_def)
  qed
  have b: "key_ok (blk_lba b)" "0 < tree_room (jd_lsm_tree st)"
    "opens (je_cipher env) new (overlaid start (Suc i) ?c base ?p) (blk_plain b)"
    using seal(4) Cons.prems(2,3) by (simp_all add: overlaid_def)
  from index_block_ok [OF inv b(1,2) p free seal(2) b(3)] obtain st1 where
    st1: "index_block st (blk_lba b) new ?p = Some st1"
      "index_inv env st1 (V(blk_lba b \<mapsto> new)) (F(blk_lba b \<mapsto> blk_plain b)) (overlaid start (Suc i) ?c base)"
      "same_rest st st1" "tree_room (jd_lsm_tree st) \<le> Suc (tree_room (jd_lsm_tree st1))"
      "\<forall>q. dst_valid (jd_dst st) q \<longrightarrow> dst_valid (jd_dst st1) q \<or> (\<exists>r. V (blk_lba b) = Some r \<and> q = rec_pba r)" by blast
  have "reserved st1 (V(blk_lba b \<mapsto> new)) (start + Suc i) (start + Suc i + length blks)"
    unfolding reserved_def
  proof (intro conjI allI impI)
    show "start + Suc i + length blks \<le> nr_blocks st1" using Cons.prems(4) st1(3) by (simp add: reserved_def same_rest_def)
    fix x
    assume x: "start + Suc i \<le> x \<and> x < start + Suc i + length blks"
    then have old: "dst_valid (jd_dst st) x" "\<forall>k r. V k = Some r \<longrightarrow> rec_pba r \<noteq> x"
      using Cons.prems(4) by (simp_all add: reserved_def)
    show "dst_valid (jd_dst st1) x" using st1(5) old by blast
    fix k r
    assume "(V(blk_lba b \<mapsto> new)) k = Some r"
    then show "rec_pba r \<noteq> x" using old(2) x seal(2) by (auto split: if_splits)
  qed
  with Cons.IH [OF st1(2)] Cons.prems(2,3) st1(4) obtain cipher' st' V' where
    r: "flush_loop env key start (Suc i) blks ?c st1 = Some (cipher', st')"
      "index_inv env st' V' (flush_map blks (F(blk_lba b \<mapsto> blk_plain b))) (overlaid start (Suc i + length blks) cipher' base)"
      "same_rest st1 st'" "tree_room (jd_lsm_tree st1) \<le> tree_room (jd_lsm_tree st') + length blks"
      "\<forall>j. Suc i \<le> j \<and> j < Suc i + length blks \<longrightarrow> length (cipher' j) = DATA_BLOCK_SIZE" "\<forall>j < Suc i. cipher' j = ?c j"
    by fastforce
  have "length (cipher' j) = DATA_BLOCK_SIZE" if "i \<le> j" "j < i + length (b # blks)" for j
    using that r(5,6) seal(3) Cons.prems(3) by (cases "j = i") auto
  moreover have "tree_room (jd_lsm_tree st) \<le> tree_room (jd_lsm_tree st') + length (b # blks)" using st1(4) r(4) by simp
  moreover have "index_inv env st' V' (flush_map (b # blks) F) (overlaid start (i + length (b # blks)) cipher' base)"
    using r(2) by (simp add: flush_map_def)
  ultimately show ?case using seal(1) st1(1) r(1,6) same_rest_trans [OF st1(3) r(3)]
    by (intro exI [of _ cipher'] exI [of _ st'] exI [of _ V']) auto
qed

lemma flush_map_distinct:
  assumes "distinct (map blk_lba blks)"
  shows "flush_map blks F k = (case List.find (\<lambda>b. blk_lba b = k) blks of Some b \<Rightarrow> Some (blk_plain b) | None \<Rightarrow> F k)"
  using assms
proof (induction blks arbitrary: F)
  case (Cons b blks)
  have "blk_lba b \<notin> blk_lba ` set blks" using Cons.prems by simp
  then have "List.find (\<lambda>x. blk_lba x = blk_lba b) blks = None" by (intro find_key_None) (metis imageI)
  then show ?case using Cons by (auto simp: flush_map_def split: option.split)
qed (simp add: flush_map_def)

lemma flush_map_segment: "seg_inv ds \<Longrightarrow> flush_map (inorder (dseg_root ds)) F = F ++ seg_map ds"
  using flush_map_distinct [OF bst_on_distinct, of "dseg_root ds"]
  by (auto simp: seg_inv_def fun_eq_iff map_add_def seg_map_def tree_lookup_def split: option.split)

section \<open>Allocating a segment\<close>

lemma sa_alloc_eq:
  "sa_alloc st =
     (case sv_alloc (jd_seg_validator st) of
        (Inl r, v) \<Rightarrow> (Inl r, st\<lparr>jd_seg_validator := v\<rparr>)
      | (Inr seg, v) \<Rightarrow>
          (let st1 = st\<lparr>jd_seg_validator := v, jd_nr_valid_segment := jd_nr_valid_segment st + 1\<rparr>
           in case dst_take_segment (jd_dst st1) seg of
                (Inl r, d) \<Rightarrow> (Inl r, jd_set_dst d st1)
              | (Inr _, d) \<Rightarrow> (Inr seg, jd_set_dst d st1)))"
  by (simp add: sa_alloc_def sv_alloc_def Let_def split: prod.split sum.split)

lemma jd_set_dst_sel [simp]:
  "jd_dst (jd_set_dst d st) = d" "jd_rit (jd_set_dst d st) = jd_rit st"
  "jd_seg_validator (jd_set_dst d st) = jd_seg_validator st" "jd_nr_valid_segment (jd_set_dst d st) = jd_nr_valid_segment st"
  "jd_raw_dev (jd_set_dst d st) = jd_raw_dev st" "jd_seg_buffer (jd_set_dst d st) = jd_seg_buffer st"
  "tree_room (jd_lsm_tree (jd_set_dst d st)) = tree_room (jd_lsm_tree st)"
  by (simp_all add: jd_rit_def jd_dst_def jd_set_dst_def tree_room_def)

lemma tree_holds_set_dst: "tree_holds env (jd_lsm_tree st) V \<Longrightarrow> tree_holds env (jd_lsm_tree (jd_set_dst d st)) V"
  by (simp add: jd_set_dst_def tree_holds_disk)

text \<open>The segments the validator has not given out.\<close>

definition free_segments :: "('c, 'd) dm_jindisk \<Rightarrow> nat" where
  "free_segments st = sv_nr_segment (jd_seg_validator st) - sv_count (jd_seg_validator st)"

lemma sa_alloc_ok:
  assumes inv: "index_inv env st V F content" and free: "0 < free_segments st"
  shows "\<exists>seg st'. sa_alloc st = (Inr seg, st') \<and> index_inv env st' V F content \<and>
    reserved st' V (seg * BLOCKS_PER_SEGMENT) (seg * BLOCKS_PER_SEGMENT + BLOCKS_PER_SEGMENT) \<and>
    jd_raw_dev st' = jd_raw_dev st \<and> jd_seg_buffer st' = jd_seg_buffer st \<and> nr_blocks st' = nr_blocks st \<and>
    tree_room (jd_lsm_tree st') = tree_room (jd_lsm_tree st) \<and> free_segments st \<le> Suc (free_segments st')"
proof -
  note I = index_invD [OF inv] and S = space_invD [OF index_invD(4) [OF inv]]
  let ?d = "jd_dst st" and ?v = "jd_seg_validator st"
  show ?thesis
    using S(3)
  proof (cases rule: sv_alloc_cases)
    case (full v')
    then show ?thesis using free by (simp add: free_segments_def)
  next
    case (found seg v')
    have seg: "seg < ds_nr_segment ?d" "de_nr_valid_block (entry_at ?d seg) = 0" using found(2,3) S(4,5) by simp_all
    obtain r d' where d': "dst_take_segment ?d seg = (r, d')" by fastforce
    note T = take_segment_spec [OF S(1) seg(1) d', unfolded if_P [OF seg(2)]]
    let ?s = "jd_set_dst d' (st\<lparr>jd_seg_validator := v', jd_nr_valid_segment := jd_nr_valid_segment st + 1\<rparr>)"
    have dst_upd: "jd_dst (st\<lparr>jd_seg_validator := v', jd_nr_valid_segment := n\<rparr>) = ?d"
      "jd_rit (st\<lparr>jd_seg_validator := v', jd_nr_valid_segment := n\<rparr>) = jd_rit st" for n by (simp_all add: jd_dst_def jd_rit_def)
    have run: "sa_alloc st = (Inr seg, ?s)" using found(1) d' T by (simp add: sa_alloc_eq dst_upd Let_def)
    have sp: "space_inv d' v'"
      using T found S unfolding space_inv_def by (auto simp: fun_upd_apply)
    have valid: "dst_valid d' x \<longleftrightarrow> block_to_segment x = seg \<or> dst_valid ?d x" for x
      using T by (simp add: dst_valid_def)
    have unused: "block_to_segment (rec_pba r) \<noteq> seg" if "V k = Some r" for k r
    proof
      assume s: "block_to_segment (rec_pba r) = seg"
      have "dst_entry_ok (entry_at ?d seg)" using dst_inv_exceptD(4) [OF S(2) seg(1)] .
      then have "\<not> de_block_validity_table (entry_at ?d seg) (block_offset_within_segment (rec_pba r))"
        using seg(2) nr_bits_pos [OF block_offset_less] unfolding dst_entry_ok_def by fastforce
      then show False using I(7) [OF that] s by (simp add: dst_valid_def)
    qed
    have nb: "nr_blocks ?s = nr_blocks st" using T by (simp add: nr_blocks_def)
    have inv': "index_inv env ?s V F content"
      unfolding index_inv_def nb using I sp valid by (auto simp: dst_upd intro!: tree_holds_set_dst)
    have in_seg: "block_to_segment x = seg" if "seg * BLOCKS_PER_SEGMENT \<le> x" "x < seg * BLOCKS_PER_SEGMENT + BLOCKS_PER_SEGMENT" for x
      using block_address(1) [of "x - seg * BLOCKS_PER_SEGMENT" seg] that by simp
    have "Suc seg * BLOCKS_PER_SEGMENT \<le> ds_nr_segment ?d * BLOCKS_PER_SEGMENT" using seg(1) by (intro mult_le_mono1) simp
    then have "reserved ?s V (seg * BLOCKS_PER_SEGMENT) (seg * BLOCKS_PER_SEGMENT + BLOCKS_PER_SEGMENT)"
      unfolding reserved_def nb using valid in_seg unused by (auto simp: nr_blocks_def)
    moreover have "free_segments st \<le> Suc (free_segments ?s)" using found by (simp add: free_segments_def)
    ultimately show ?thesis using run inv' nb by (intro exI [of _ seg] exI [of _ ?s]) simp
  qed
qed

end
