(* ===== verification/Device_Store.thy ===== *)
theory Device_Store
  imports Device_Index
begin

text \<open>
  Flushing an entry of the pool when a segment is free: the index gets to know every block of the
  entry, with a record that opens the data written to the segment, and what it knew of other blocks
  stays readable.
\<close>

section \<open>Pools that differ in their ciphertexts only\<close>

definition same_pool :: "segment_buffer \<Rightarrow> segment_buffer \<Rightarrow> bool" where
  "same_pool b b' \<longleftrightarrow> sb_cur_buffer b' = sb_cur_buffer b \<and> sb_work b' = sb_work b \<and>
     map (\<lambda>ds. (dseg_size ds, dseg_root ds)) (sb_buffer b') = map (\<lambda>ds. (dseg_size ds, dseg_root ds)) (sb_buffer b)"

lemma same_pool_seg:
  assumes "same_pool b b'"
  shows "length (sb_buffer b') = length (sb_buffer b)"
    and "i < length (sb_buffer b) \<Longrightarrow> dseg_size (sb_buffer b' ! i) = dseg_size (sb_buffer b ! i) \<and> dseg_root (sb_buffer b' ! i) = dseg_root (sb_buffer b ! i)"
proof -
  have m: "map (\<lambda>ds. (dseg_size ds, dseg_root ds)) (sb_buffer b') = map (\<lambda>ds. (dseg_size ds, dseg_root ds)) (sb_buffer b)"
    using assms by (simp add: same_pool_def)
  then show l: "length (sb_buffer b') = length (sb_buffer b)" by (metis length_map)
  show "dseg_size (sb_buffer b' ! i) = dseg_size (sb_buffer b ! i) \<and> dseg_root (sb_buffer b' ! i) = dseg_root (sb_buffer b ! i)"
    if "i < length (sb_buffer b)"
    using arg_cong [OF m, of "\<lambda>xs. xs ! i"] that l by simp
qed

lemma same_pool_inv:
  assumes "same_pool b b'" and "pool_inv b"
  shows "pool_inv b'" and "pool_maps b' = pool_maps b"
proof -
  note s = same_pool_seg [OF assms(1)]
  have c: "sb_cur_buffer b' = sb_cur_buffer b" "sb_work b' = sb_work b" using assms(1) by (simp_all add: same_pool_def)
  have len: "length (sb_buffer b) = POOL_SIZE" "sb_cur_buffer b < POOL_SIZE" using assms(2) by (simp_all add: pool_inv_def)
  have idx: "pool_index b' = pool_index b" using c by (simp add: pool_index_def fun_eq_iff)
  have "seg_inv (sb_buffer b' ! i) \<and> dseg_size (sb_buffer b' ! i) \<le> int BLOCKS_PER_SEGMENT" if "i < POOL_SIZE" for i
  proof -
    have "seg_inv (sb_buffer b ! i) \<and> dseg_size (sb_buffer b ! i) \<le> int BLOCKS_PER_SEGMENT"
      using assms(2) that len nth_mem [of i "sb_buffer b"] unfolding pool_inv_def by metis
    then show ?thesis using s(2) [of i] that len by (simp add: seg_inv_def)
  qed
  then have "\<forall>ds \<in> set (sb_buffer b'). seg_inv ds \<and> dseg_size ds \<le> int BLOCKS_PER_SEGMENT"
    using s(1) len by (auto simp: in_set_conv_nth)
  then show "pool_inv b'" using assms(2) s len by (simp add: pool_inv_def c idx)
  show "pool_maps b' = pool_maps b" unfolding pool_maps_def idx using s(2) len
    by (simp add: seg_map_def fun_eq_iff)
qed

lemma same_pool_segment:
  assumes "index < length (sb_buffer b)"
  shows "same_pool b (b\<lparr>sb_buffer := (sb_buffer b)[index := (sb_buffer b ! index)\<lparr>dseg_cur_segment := s, dseg_cipher_segment := c\<rparr>]\<rparr>)"
  using assms by (simp add: same_pool_def list_eq_iff_nth_eq nth_list_update)

section \<open>The bytes of a segment\<close>

lemma segment_bytes_piece:
  assumes "\<forall>j < n. length (cipher j) = DATA_BLOCK_SIZE"
  shows "length (segment_bytes cipher n) = n * DATA_BLOCK_SIZE"
    and "i < n \<Longrightarrow> take DATA_BLOCK_SIZE (drop (i * DATA_BLOCK_SIZE) (segment_bytes cipher n)) = cipher i"
proof -
  let ?f = "\<lambda>j. if j < n then cipher j else replicate DATA_BLOCK_SIZE 0"
  have f: "length (?f j) = DATA_BLOCK_SIZE" for j using assms by simp
  have "map cipher [0..<n] = map ?f [0..<n]" by simp
  then have s: "segment_bytes cipher n = concat (map ?f [0..<0 + n])" unfolding segment_bytes_def by (simp only: add_0)
  show "length (segment_bytes cipher n) = n * DATA_BLOCK_SIZE" unfolding s using length_concat_const [of ?f, OF f] by simp
  show "take DATA_BLOCK_SIZE (drop (i * DATA_BLOCK_SIZE) (segment_bytes cipher n)) = cipher i" if "i < n"
    using concat_piece [of ?f DATA_BLOCK_SIZE i 1 n 0, OF f] that unfolding s by simp
qed

section \<open>Flushing\<close>

lemma raw_dev_block_at: "jd_raw_dev st' = jd_raw_dev st \<Longrightarrow> block_at env st' = block_at env st"
  by (simp add: block_at_def jindisk_read_blocks_def fun_eq_iff)

lemma write_segment_index:
  assumes io: "io_ok (je_io env) sector" and fits: "io_fits env (nr_blocks st)" and n: "0 < n" "start + n \<le> nr_blocks st"
    and cipher: "\<forall>j < n. length (cipher j) = DATA_BLOCK_SIZE" and inv: "index_inv env st V F (overlaid start n cipher (block_at env st))"
  shows "index_inv env (jindisk_write_blocks env st start n (segment_bytes cipher n)) V F
    (block_at env (jindisk_write_blocks env st start n (segment_bytes cipher n)))"
proof -
  let ?st = "jindisk_write_blocks env st start n (segment_bytes cipher n)"
  have same: "jd_lsm_tree ?st = jd_lsm_tree st" "jd_seg_validator ?st = jd_seg_validator st"
    by (simp_all add: jindisk_write_blocks_def io_region_def)
  have "index_inv env st V F (block_at env ?st)"
  proof (rule index_inv_content [OF inv])
    fix k r
    assume "V k = Some r"
    then have "rec_pba r < nr_blocks st" by (rule index_invD(9) [OF inv])
    from write_blocks_piece [OF io fits n(2,1) this segment_bytes_piece(1) [OF cipher], of st]
    show "block_at env ?st (rec_pba r) = overlaid start n cipher (block_at env st) (rec_pba r)"
      using segment_bytes_piece(2) [OF cipher, of "rec_pba r - start"] by (auto simp: overlaid_def)
  qed
  then show ?thesis by (rule index_inv_frame [OF _ same])
qed

lemma write_blocks_sel [simp]:
  "jd_lsm_tree (jindisk_write_blocks env st p n bs) = jd_lsm_tree st"
  "jd_seg_validator (jindisk_write_blocks env st p n bs) = jd_seg_validator st"
  "jd_seg_buffer (jindisk_write_blocks env st p n bs) = jd_seg_buffer st"
  by (simp_all add: jindisk_write_blocks_def io_region_def)

lemma flush_bios_ok:
  assumes works: "gcm_works (je_cipher env)" and io: "io_ok (je_io env) sector" and fits: "io_fits env (nr_blocks st)"
    and inv: "index_inv env st V F (block_at env st)" and pool: "pool_inv (jd_seg_buffer st)" and idx: "index < POOL_SIZE"
    and free: "0 < free_segments st"
    and room: "BLOCKS_PER_SEGMENT \<le> tree_room (jd_lsm_tree st)"
  shows "\<exists>st' V'. segbuf_flush_bios env index st = Some st' \<and>
    index_inv env st' V' (F ++ seg_map (sb_buffer (jd_seg_buffer st) ! index)) (block_at env st') \<and>
    same_pool (jd_seg_buffer st) (jd_seg_buffer st') \<and> nr_blocks st' = nr_blocks st \<and>
    free_segments st \<le> Suc (free_segments st') \<and> tree_room (jd_lsm_tree st) \<le> tree_room (jd_lsm_tree st') + BLOCKS_PER_SEGMENT"
proof -
  let ?buf = "jd_seg_buffer st"
  let ?ds = "sb_buffer ?buf ! index"
  let ?blks = "inorder (dseg_root ?ds)"
  have len: "index < length (sb_buffer ?buf)" using pool idx by (simp add: pool_inv_def)
  have ds: "seg_inv ?ds" "dseg_size ?ds \<le> int BLOCKS_PER_SEGMENT"
    using pool nth_mem [OF len] unfolding pool_inv_def by metis+
  have n: "dseg_size ?ds = int (length ?blks)" "length ?blks \<le> BLOCKS_PER_SEGMENT"
    using ds by (simp_all add: seg_inv_def)
  show ?thesis
  proof (cases "dseg_size ?ds = 0")
    case True
    then have "seg_map ?ds = Map.empty" using n(1) by (simp add: seg_map_def tree_lookup_def fun_eq_iff)
    then show ?thesis using True inv by (intro exI [of _ st] exI [of _ V]) (simp add: segbuf_flush_bios_def same_pool_def)
  next
    case False
    obtain seg st1 where a: "sa_alloc st = (Inr seg, st1)" "index_inv env st1 V F (block_at env st)"
      "reserved st1 V (seg * BLOCKS_PER_SEGMENT) (seg * BLOCKS_PER_SEGMENT + BLOCKS_PER_SEGMENT)"
      "jd_raw_dev st1 = jd_raw_dev st" "jd_seg_buffer st1 = ?buf" "nr_blocks st1 = nr_blocks st"
      "tree_room (jd_lsm_tree st1) = tree_room (jd_lsm_tree st)" "free_segments st \<le> Suc (free_segments st1)" using sa_alloc_ok [OF inv free] by blast
    let ?s = "seg * BLOCKS_PER_SEGMENT"
    have i0: "index_inv env st1 V F (overlaid ?s 0 (dseg_cipher_segment ?ds) (block_at env st))"
      by (rule index_inv_content [OF a(2)]) (auto simp: overlaid_def)
    have blks: "\<forall>b \<in> set ?blks. key_ok (blk_lba b) \<and> length (blk_plain b) = DATA_BLOCK_SIZE" using ds(1) by (simp add: seg_inv_def)
    have rm: "length ?blks \<le> tree_room (jd_lsm_tree st1)" using n(2) room a(7) by linarith
    have "reserved st1 V (?s + 0) (?s + 0 + length ?blks)" using a(3) n(2) by (simp add: reserved_def)
    from flush_loop_ok [OF works i0 rm blks this, of "dseg_seg_key ?ds"] obtain cipher st2 V' where
      f: "flush_loop env (dseg_seg_key ?ds) ?s 0 ?blks (dseg_cipher_segment ?ds) st1 = Some (cipher, st2)"
        "index_inv env st2 V' (flush_map ?blks F) (overlaid ?s (length ?blks) cipher (block_at env st))" "same_rest st1 st2"
        "tree_room (jd_lsm_tree st1) \<le> tree_room (jd_lsm_tree st2) + length ?blks"
        "\<forall>j < length ?blks. length (cipher j) = DATA_BLOCK_SIZE" by auto
    let ?st3 = "jindisk_write_blocks env st2 ?s (length ?blks) (segment_bytes cipher (length ?blks))"
    let ?st4 = "jd_set_segment index (?ds\<lparr>dseg_cur_segment := seg, dseg_cipher_segment := cipher\<rparr>) ?st3"
    have raw: "block_at env st2 = block_at env st" using a(4) f(3) by (intro raw_dev_block_at) (simp add: same_rest_def)
    have nb: "nr_blocks st2 = nr_blocks st" using a(6) f(3) by (simp add: same_rest_def)
    have "0 < length ?blks" using False n(1) by linarith
    moreover have "?s + length ?blks \<le> nr_blocks st2" using n(2) a(3,6) nb by (simp add: reserved_def)
    ultimately have "index_inv env ?st3 V' (F ++ seg_map ?ds) (block_at env ?st3)"
      using write_segment_index [OF io _ _ _ f(5), of st2 ?s V' "flush_map ?blks F"] fits f(2)
      by (simp add: nb raw flush_map_segment [OF ds(1)])
    then have "index_inv env ?st4 V' (F ++ seg_map ?ds) (block_at env ?st4)"
      using index_inv_frame [of env ?st3 V' "F ++ seg_map ?ds" "block_at env ?st3" ?st4] raw_dev_block_at [of ?st4 ?st3]
      by (simp add: jd_set_segment_def)
    moreover have "segbuf_flush_bios env index st = Some ?st4"
      using False a(1) f(1) n(1) by (simp add: segbuf_flush_bios_def Let_def)
    moreover have "same_pool ?buf (jd_seg_buffer ?st4)"
      using same_pool_segment [OF len] a(5) f(3) by (simp add: jd_set_segment_def same_rest_def)
    moreover have "nr_blocks ?st4 = nr_blocks st" using nb by (simp add: nr_blocks_def jd_dst_def jd_set_segment_def)
    moreover have "free_segments st \<le> Suc (free_segments ?st4)"
      using a(8) f(3) by (simp add: free_segments_def jd_set_segment_def same_rest_def)
    moreover have "tree_room (jd_lsm_tree st) \<le> tree_room (jd_lsm_tree ?st4) + BLOCKS_PER_SEGMENT"
      using f(4) a(7) n(2) by (simp add: jd_set_segment_def)
    ultimately show ?thesis by blast
  qed
qed

end
