(* ===== verification/Device_Read.thy ===== *)
theory Device_Read
  imports Device_Store
begin

text \<open>
  Requests of whole blocks.  A bio of whole blocks names a run of blocks and one page for each; a write
  puts the pages into the pool one after the other, a read fills every page with the data of its block:
  from the pool, else through the record of the index.
\<close>

section \<open>Bios of whole blocks\<close>

definition whole_blocks :: "nat \<Rightarrow> nat list \<Rightarrow> bio \<Rightarrow> bool" where
  "whole_blocks lba ps b \<longleftrightarrow> bi_sector b = lba * SECTORS_PER_BLOCK \<and> bi_size b = length ps * DATA_BLOCK_SIZE \<and>
     bi_io_vec b = map (\<lambda>p. \<lparr>bv_page = p, bv_offset = 0, bv_len = DATA_BLOCK_SIZE\<rparr>) ps"

lemma whole_blocks_step:
  assumes "whole_blocks lba (p # ps) b"
  shows "bi_size b \<noteq> 0" "\<not> bi_size b < DATA_BLOCK_SIZE" "bio_to_lba b = lba"
    "bio_iter_iovec b = Some \<lparr>bv_page = p, bv_offset = 0, bv_len = DATA_BLOCK_SIZE\<rparr>"
    "whole_blocks (Suc lba) ps (bio_advance_iter b DATA_BLOCK_SIZE)"
proof -
  show "bi_size b \<noteq> 0" "\<not> bi_size b < DATA_BLOCK_SIZE" "bio_to_lba b = lba"
    "bio_iter_iovec b = Some \<lparr>bv_page = p, bv_offset = 0, bv_len = DATA_BLOCK_SIZE\<rparr>"
    using assms by (simp_all add: whole_blocks_def bio_to_lba_def bio_iter_iovec_def consts_simps SECTORS_PER_BLOCK_def)
  have "advance_vecs 0 vs = vs" for vs by (cases vs) simp_all
  then show "whole_blocks (Suc lba) ps (bio_advance_iter b DATA_BLOCK_SIZE)"
    using assms by (simp add: whole_blocks_def bio_advance_iter_def consts_simps SECTORS_PER_BLOCK_def SECTOR_SIZE_def)
qed

section \<open>Reading\<close>

text \<open>What the first loop copies from the pool, what it leaves to be read, and the pages of both.\<close>

fun copied :: "(nat \<rightharpoonup> byte list) \<Rightarrow> nat \<Rightarrow> nat list \<Rightarrow> pages \<Rightarrow> pages" where
  "copied D lba [] pages = pages"
| "copied D lba (p # ps) pages = copied D (Suc lba) ps (case D lba of None \<Rightarrow> pages | Some d \<Rightarrow> pages(p := d))"

fun pending :: "(nat \<rightharpoonup> byte list) \<Rightarrow> (nat \<rightharpoonup> blk_record) \<Rightarrow> nat \<Rightarrow> nat list \<Rightarrow> blk_info list" where
  "pending D V lba [] = []"
| "pending D V lba (p # ps) =
     (case (D lba, V lba) of (None, Some r) \<Rightarrow> [\<lparr>bi_lba = lba, bi_record = r, bi_page = p\<rparr>] | _ \<Rightarrow> []) @ pending D V (Suc lba) ps"

definition filled :: "(nat \<rightharpoonup> byte list) \<Rightarrow> blk_info list \<Rightarrow> pages \<Rightarrow> pages" where
  "filled F infos pages = fold (\<lambda>info pages. pages(bi_page info := the (F (bi_lba info)))) infos pages"

lemma copied_other: "p \<notin> set ps \<Longrightarrow> copied D lba ps (pages(p := d)) = (copied D lba ps pages)(p := d)"
  by (induction ps arbitrary: lba pages) (auto split: option.split simp: fun_upd_twist)

lemma copied_notin: "q \<notin> set ps \<Longrightarrow> copied D lba ps pages q = pages q"
  by (induction ps arbitrary: lba pages) (auto split: option.split)

lemma copied_at:
  "distinct ps \<Longrightarrow> i < length ps \<Longrightarrow> copied D lba ps pages (ps ! i) = (case D (lba + i) of None \<Rightarrow> pages (ps ! i) | Some d \<Rightarrow> d)"
proof (induction ps arbitrary: lba pages i)
  case (Cons p ps)
  then show ?case
  proof (cases i)
    case 0
    then show ?thesis using Cons.prems by (simp add: copied_notin split: option.split)
  next
    case (Suc j)
    then have "ps ! j \<noteq> p" using Cons.prems by auto
    then show ?thesis using Cons Suc by (auto split: option.split)
  qed
qed simp

lemma filled_copied:
  assumes "distinct ps" and "dom V = dom F"
  shows "filled F (pending D V lba ps) (copied D lba ps pages) = copied (F ++ D) lba ps pages"
  using assms(1)
proof (induction ps arbitrary: lba pages)
  case (Cons p ps)
  let ?rest = "pending D V (Suc lba) ps"
  have IH: "filled F ?rest (copied D (Suc lba) ps pages) = copied (F ++ D) (Suc lba) ps pages" for pages
    using Cons by simp
  have upd: "copied D (Suc lba) ps (pages(p := d)) = (copied D (Suc lba) ps pages)(p := d)" for d pages
    using Cons.prems by (intro copied_other) simp
  show ?case
  proof (cases "D lba")
    case (Some d)
    then show ?thesis by (simp add: IH)
  next
    case None
    show ?thesis
    proof (cases "V lba")
      case none: None
      then have "F lba = None" using assms(2) by blast
      then show ?thesis using None none by (simp add: IH map_add_def)
    next
      case (Some r)
      then obtain d where d: "F lba = Some d" using assms(2) by blast
      have "filled F (pending D V lba (p # ps)) (copied D lba (p # ps) pages) = filled F ?rest (copied D (Suc lba) ps (pages(p := d)))"
        using None Some d by (simp add: filled_def upd)
      then show ?thesis using None d by (simp add: IH map_add_def)
    qed
  qed
qed (simp add: filled_def)

lemma pending_record: "info \<in> set (pending D V lba ps) \<Longrightarrow> V (bi_lba info) = Some (bi_record info)"
  by (induction ps arbitrary: lba) (auto split: option.splits)

lemma read_loop_ok:
  assumes pool: "pool_wf (jd_seg_buffer st)"
    and m: "\<forall>i. m = Some i \<longrightarrow> memtable_inv i"
    and range: "\<forall>k. s \<le> k \<and> k \<le> e \<longrightarrow> Option.bind m (\<lambda>i. memtable_map i k) = V k"
    and real: "\<forall>k r. V k = Some r \<longrightarrow> rec_pba r \<noteq> INF_ADDR"
  shows "whole_blocks lba ps b \<Longrightarrow> s \<le> lba \<Longrightarrow> lba + length ps \<le> Suc e \<Longrightarrow> e < 2 ^ 31 \<Longrightarrow>
    read_loop env st m b pages blks = Some (copied (overlay (pool_maps (jd_seg_buffer st))) lba ps pages,
      blks @ pending (overlay (pool_maps (jd_seg_buffer st))) V lba ps)"
proof (induction ps arbitrary: lba b pages blks)
  case Nil
  then show ?case by (simp add: whole_blocks_def read_loop.simps)
next
  case (Cons p ps)
  let ?D = "overlay (pool_maps (jd_seg_buffer st))" and ?b = "bio_advance_iter b DATA_BLOCK_SIZE"
  note w = whole_blocks_step [OF Cons.prems(1)]
  have IH: "read_loop env st m ?b pages blks = Some (copied ?D (Suc lba) ps pages, blks @ pending ?D V (Suc lba) ps)" for pages blks
    using Cons.IH [OF w(5)] Cons.prems by simp
  have key: "key_ok lba" "u32 lba = lba" using Cons.prems by (simp_all add: key_ok_def)
  have q: "segbuf_query_block (jd_seg_buffer st) lba = (case ?D lba of Some d \<Rightarrow> Inr d | None \<Rightarrow> Inl ENODATA)"
    by (rule query_spec [OF pool key(1)])
  have get: "(case m of None \<Rightarrow> Inl ENODATA | Some i \<Rightarrow> rbtree_memtable_get i (u32 lba)) =
      (case V lba of Some r \<Rightarrow> Inr r | None \<Rightarrow> Inl ENODATA)"
  proof -
    have "Option.bind m (\<lambda>i. memtable_map i lba) = V lba" using range Cons.prems by simp
    then show ?thesis unfolding key(2) using m get_map by (cases m) auto
  qed
  have "read_loop env st m b pages blks =
      (case ?D lba of Some d \<Rightarrow> read_loop env st m ?b (pages(p := d)) blks
       | None \<Rightarrow> (case V lba of None \<Rightarrow> read_loop env st m ?b pages blks
           | Some r \<Rightarrow> read_loop env st m ?b pages (blks @ [\<lparr>bi_lba = lba, bi_record = r, bi_page = p\<rparr>])))"
  proof (cases "?D lba")
    case (Some d)
    then show ?thesis using w(1-4) key(2) by (subst read_loop.simps) (simp add: Let_def q)
  next
    case None
    then show ?thesis using w(1-4) key(2) real get
      by (subst read_loop.simps) (cases "V lba", simp_all add: Let_def q)
  qed
  then show ?case by (auto simp: IH split: option.split)
qed

section \<open>Transfers\<close>

text \<open>A run of noted blocks at consecutive places.\<close>

definition chain :: "blk_info list \<Rightarrow> bool" where
  "chain infos \<longleftrightarrow> (\<forall>i < length infos. rec_pba (bi_record (infos ! i)) = rec_pba (bi_record (hd infos)) + i)"

lemma decrypt_work_ok:
  "\<forall>j < length infos. opens (je_cipher env) (bi_record (infos ! j))
     (take DATA_BLOCK_SIZE (drop ((i + j) * DATA_BLOCK_SIZE) buf)) (the (F (bi_lba (infos ! j)))) \<Longrightarrow>
   decrypt_work env buf i infos pages = Some (filled F infos pages)"
proof (induction infos arbitrary: i pages)
  case (Cons info infos)
  have "opens (je_cipher env) (bi_record info) (take DATA_BLOCK_SIZE (drop (i * DATA_BLOCK_SIZE) buf)) (the (F (bi_lba info)))"
    using spec [OF Cons.prems, of 0] by simp
  moreover have "\<forall>j < length infos. opens (je_cipher env) (bi_record (infos ! j))
     (take DATA_BLOCK_SIZE (drop ((Suc i + j) * DATA_BLOCK_SIZE) buf)) (the (F (bi_lba (infos ! j))))"
  proof (intro allI impI)
    fix j assume "j < length infos"
    then show "opens (je_cipher env) (bi_record (infos ! j))
      (take DATA_BLOCK_SIZE (drop ((Suc i + j) * DATA_BLOCK_SIZE) buf)) (the (F (bi_lba (infos ! j))))"
      using spec [OF Cons.prems, of "Suc j"] by simp
  qed
  ultimately show ?case using Cons.IH [of "Suc i"] by (simp add: opens_def filled_def Let_def)
qed (simp add: filled_def)

definition readable :: "('c, 'd) jd_env \<Rightarrow> ('c, 'd) dm_jindisk \<Rightarrow> (nat \<rightharpoonup> byte list) \<Rightarrow> nat \<Rightarrow> blk_info \<Rightarrow> bool" where
  "readable env st F n info \<longleftrightarrow> rec_pba (bi_record info) < n \<and>
     opens (je_cipher env) (bi_record info) (block_at env st (rec_pba (bi_record info))) (the (F (bi_lba info)))"

lemma merge_read_io_ok:
  assumes io: "io_ok (je_io env) sector" "io_fits env n" and "infos \<noteq> []" "chain infos" and "\<forall>info \<in> set infos. readable env st F n info"
  shows "merge_read_io env st infos pages = Some (filled F infos pages)"
  unfolding merge_read_io_def
proof (rule decrypt_work_ok, intro allI impI)
  fix j
  assume j: "j < length infos"
  let ?p = "rec_pba (bi_record (hd infos))" and ?l = "length infos - 1"
  have at: "rec_pba (bi_record (infos ! i)) = ?p + i" if "i < length infos" for i using assms(4) that by (simp add: chain_def)
  have "readable env st F n (infos ! ?l)" using assms(3,5) by simp
  then have "?p + length infos \<le> n" using at [of ?l] assms(3) by (cases infos) (auto simp: readable_def)
  from read_blocks_piece [OF io this j, of st] at [OF j] bspec [OF assms(5) nth_mem [OF j]]
  show "opens (je_cipher env) (bi_record (infos ! j))
      (take DATA_BLOCK_SIZE (drop ((0 + j) * DATA_BLOCK_SIZE) (jindisk_read_blocks env st ?p (length infos))))
      (the (F (bi_lba (infos ! j))))" by (simp add: readable_def)
qed

lemma chain_snoc:
  assumes "chain (xs @ [b])" and "rec_pba (bi_record b) + 1 = rec_pba (bi_record c)"
  shows "chain (xs @ [b, c])"
proof -
  have "rec_pba (bi_record ((xs @ [b, c]) ! i)) = rec_pba (bi_record (hd (xs @ [b, c]))) + i" if "i < length (xs @ [b, c])" for i
  proof (cases "i < Suc (length xs)")
    case True
    have "(xs @ [b, c]) ! i = (xs @ [b]) ! i" "hd (xs @ [b, c]) = hd (xs @ [b])" using True
      by (auto simp: nth_append hd_append less_Suc_eq)
    then show ?thesis using assms(1) True by (simp add: chain_def)
  next
    case False
    then have i: "i = Suc (length xs)" using that by simp
    have "rec_pba (bi_record b) = rec_pba (bi_record (hd (xs @ [b]))) + length xs" using assms(1) by (auto simp: chain_def dest: spec [of _ "length xs"])
    moreover have e: "(xs @ [b, c]) ! i = c" "hd (xs @ [b, c]) = hd (xs @ [b])" using i by (simp_all add: nth_append hd_append)
    ultimately show ?thesis unfolding e using assms(2) i by linarith
  qed
  then show ?thesis by (simp add: chain_def)
qed

lemma merge_io_loop_ok:
  assumes io: "io_ok (je_io env) sector" "io_fits env n"
  shows "\<forall>info \<in> set (range_blks @ blks). readable env st F n info \<Longrightarrow> (blks = [] \<longrightarrow> range_blks = []) \<Longrightarrow>
    (blks \<noteq> [] \<longrightarrow> chain (range_blks @ [hd blks])) \<Longrightarrow>
    merge_io_loop env st range_blks blks pages = Some (filled F (range_blks @ blks) pages)"
proof (induction blks arbitrary: range_blks pages)
  case Nil
  then show ?case by (simp add: filled_def)
next
  case (Cons b rest)
  show ?case
  proof (cases "rest \<noteq> [] \<and> rec_pba (bi_record b) + 1 = rec_pba (bi_record (hd rest))")
    case True
    have "chain ((range_blks @ [b]) @ [hd rest])" using chain_snoc [of range_blks b "hd rest"] Cons.prems True by simp
    then show ?thesis using Cons.IH [of "range_blks @ [b]" pages] Cons.prems True by simp
  next
    case False
    have "merge_read_io env st (range_blks @ [b]) pages = Some (filled F (range_blks @ [b]) pages)"
      using merge_read_io_ok [OF io] Cons.prems by simp
    moreover have "merge_io_loop env st [] rest p = Some (filled F rest p)" for p
      using Cons.IH [of "[]" p] Cons.prems by (simp add: chain_def)
    ultimately show ?thesis unfolding merge_io_loop.simps if_not_P [OF False] by (simp add: filled_def)
  qed
qed

end
