(* ===== verification/Capacity.thy ===== *)
theory Capacity
  imports Layout
begin

text \<open>
  \<^verbatim>\<open>calc_avail_sectors\<close> of \<^verbatim>\<open>metadata.c\<close>: the size of the device a disk can hold, found by probing.  From a
  step of half the disk the probes go up while the metadata for the probed size fit beside it; a probe
  that does not fit halves the step.

  The remaining space is an unsigned difference.  It does not wrap around for any disk: a probe beyond
  the end of the disk would need one before it that fits in what is left at the end, and the metadata
  of the largest sizes are larger than that.
\<close>

section \<open>The probes\<close>

definition SECTORS_PER_SEGMENT :: nat where "SECTORS_PER_SEGMENT = SECTORS_PER_BLOCK * BLOCKS_PER_SEGMENT"

lemma SECTORS_PER_SEGMENT_value: "SECTORS_PER_SEGMENT = 8192"
  by (simp add: SECTORS_PER_SEGMENT_def consts_simps)

definition probe_fits :: "nat \<Rightarrow> nat \<Rightarrow> bool" where
  "probe_fits real_sectors probe_sectors \<longleftrightarrow>
     (let total_segments = probe_sectors div SECTORS_PER_SEGMENT + NR_GC_PRESERVED;
          meta_sectors = calc_metadata_blocks total_segments * SECTORS_PER_BLOCK
      in meta_sectors \<le> (real_sectors + (2 ^ 64 - probe_sectors)) mod 2 ^ 64)"

partial_function (option) avail_loop :: "nat \<Rightarrow> nat \<Rightarrow> nat \<Rightarrow> nat option" where
  "avail_loop real_sectors avail_sectors step_segments =
     (if avail_sectors < real_sectors \<and> step_segments \<noteq> 0
      then if probe_fits real_sectors (avail_sectors + step_segments * SECTORS_PER_SEGMENT)
           then avail_loop real_sectors (avail_sectors + step_segments * SECTORS_PER_SEGMENT) step_segments
           else avail_loop real_sectors avail_sectors (step_segments div 2)
      else Some avail_sectors)"

definition calc_avail_sectors :: "nat \<Rightarrow> nat option" where
  "calc_avail_sectors real_sectors =
     (if real_sectors < NR_GC_PRESERVED * SECTORS_PER_SEGMENT then Some 0
      else let real_sectors = real_sectors - NR_GC_PRESERVED * SECTORS_PER_SEGMENT
           in avail_loop real_sectors 0 (real_sectors div 2 div SECTORS_PER_SEGMENT))"

section \<open>The size of the metadata\<close>

lemma disk_array_blocks_mono: "m \<le> n \<Longrightarrow> disk_array_blocks m sz bs \<le> disk_array_blocks n sz bs"
  by (simp add: disk_array_blocks_def div_le_mono)

lemma total_bit_2: "total_bit 2 r cap = (if cap > 0 then (cap - 1) div DEFAULT_LSM_FILE_CAPACITY + 1 else 0) + DEFAULT_LSM_LEVEL0_NR_FILE"
proof -
  have "[1..<2] = [1 :: nat]" by (simp add: upt_rec)
  then show ?thesis by (simp add: total_bit_def)
qed

lemma total_bit_mono: "m \<le> n \<Longrightarrow> total_bit 2 r m \<le> total_bit 2 r n"
  by (auto simp: total_bit_2 intro: div_le_mono)

lemma seg_validity_table_blocks_mono: "m \<le> n \<Longrightarrow> seg_validity_table_blocks m \<le> seg_validity_table_blocks n"
  unfolding seg_validity_table_blocks_def by (auto intro!: div_le_mono diff_le_mono)

lemma bytes_to_block_mono: "m \<le> n \<Longrightarrow> bytes_to_block m b \<le> bytes_to_block n b"
  by (auto simp: bytes_to_block_def intro: div_le_mono)

lemma index_region_blocks_mono: "m \<le> n \<Longrightarrow> index_region_blocks 2 r m \<le> index_region_blocks 2 r n"
  unfolding index_region_blocks_def extra_bit_def by (intro bytes_to_block_mono mult_le_mono1 add_mono total_bit_mono)

lemma calc_metadata_blocks_mono: "m \<le> n \<Longrightarrow> calc_metadata_blocks m \<le> calc_metadata_blocks n"
  unfolding calc_metadata_blocks_def Let_def DEFAULT_LSM_TREE_NR_DISK_LEVEL_def extra_bit_def data_seg_table_blocks_def
    reverse_index_table_blocks_def bit_catalogue_blocks_def
  by (intro add_mono mult_le_mono1 index_region_blocks_mono seg_validity_table_blocks_mono disk_array_blocks_mono total_bit_mono order_refl)

text \<open>The journal and the reverse index alone.\<close>

lemma calc_metadata_blocks_lower: "16384 + 4 * n \<le> calc_metadata_blocks n"
proof -
  have "reverse_index_table_blocks (n * BLOCKS_PER_SEGMENT) = 2 * n + 1"
    by (simp add: reverse_index_table_blocks_def disk_array_blocks_def layout_consts)
  then show ?thesis
    by (simp add: calc_metadata_blocks_def Let_def NR_CHECKPOINT_PACKS_def NR_JOURNAL_SEGMENT_def BLOCKS_PER_SEGMENT_def)
qed

text \<open>The largest number computed, the bytes of all index files, fits in 64 bits.\<close>

lemma index_bytes_fit:
  assumes "n \<le> 2 ^ 47 + NR_GC_PRESERVED"
  shows "(total_bit 2 LSM_TREE_DISK_LEVEL_COMMON_RATIO (n * BLOCKS_PER_SEGMENT) + extra_bit (n * BLOCKS_PER_SEGMENT)) * BIT_FILE_SIZE < 2 ^ 64"
proof -
  have "total_bit 2 r (n * BLOCKS_PER_SEGMENT) \<le> total_bit 2 r ((2 ^ 47 + NR_GC_PRESERVED) * BLOCKS_PER_SEGMENT)" for r
    using assms by (intro total_bit_mono mult_le_mono1)
  moreover have "total_bit 2 r ((2 ^ 47 + NR_GC_PRESERVED) * BLOCKS_PER_SEGMENT) = 1099511627780" for r
    by (simp add: total_bit_2 layout_consts)
  ultimately have "total_bit 2 r (n * BLOCKS_PER_SEGMENT) \<le> 1099511627780" for r by metis
  then have "(total_bit 2 LSM_TREE_DISK_LEVEL_COMMON_RATIO (n * BLOCKS_PER_SEGMENT) + extra_bit (n * BLOCKS_PER_SEGMENT)) * BIT_FILE_SIZE \<le>
      (1099511627780 + 1099511627780) * BIT_FILE_SIZE" unfolding extra_bit_def by (intro mult_le_mono1 add_mono)
  then show ?thesis by (simp add: BIT_FILE_SIZE_eq)
qed

section \<open>The search\<close>

text \<open>
  Sizes in segments.  \<open>fits\<close> is the decision of a probe within the disk of \<open>real\<close> sectors.
\<close>

definition fits :: "nat \<Rightarrow> nat \<Rightarrow> bool" where
  "fits real p \<longleftrightarrow> p * 8192 + calc_metadata_blocks (p + NR_GC_PRESERVED) * 8 \<le> real"

lemma probe_fits_segment:
  assumes "real < 2 ^ 64" and "p * 8192 \<le> real"
  shows "probe_fits real (p * SECTORS_PER_SEGMENT) \<longleftrightarrow> fits real p"
proof -
  have "(real + (2 ^ 64 - p * 8192)) mod 2 ^ 64 = real - p * 8192"
  proof -
    have "real + (2 ^ 64 - p * 8192) = (real - p * 8192) + 2 ^ 64" using assms by linarith
    then show ?thesis using assms by (simp only: mod_add_self2) simp
  qed
  then show ?thesis using assms(2) by (auto simp: probe_fits_def fits_def SECTORS_PER_SEGMENT_value SECTORS_PER_BLOCK_def Let_def)
qed

lemma fits_down:
  assumes "fits real q" and "p \<le> q"
  shows "fits real p"
proof -
  have "p * 8192 + calc_metadata_blocks (p + NR_GC_PRESERVED) * 8 \<le> q * 8192 + calc_metadata_blocks (q + NR_GC_PRESERVED) * 8"
    using assms(2) by (intro add_mono mult_le_mono1 calc_metadata_blocks_mono) simp_all
  then show ?thesis using assms(1) unfolding fits_def by (rule le_trans)
qed

lemma fits_end: "fits real p \<Longrightarrow> p + 16 \<le> real div 8192"
  using calc_metadata_blocks_lower [of "p + NR_GC_PRESERVED"] unfolding fits_def by (simp add: less_eq_div_iff_mult_less_eq)

text \<open>After \<open>h\<close> halvings a size this close to the end of the disk does not fit.\<close>

lemma fits_near_end:
  assumes "fits real p" and "real < 2 ^ 64" and "2 ^ h \<le> real div 8192" and "real div 8192 \<le> p + 1 + h"
  shows False
proof -
  let ?N = "real div 8192"
  have "?N < 2 ^ 51" using assms(2) by (simp add: less_mult_imp_div_less)
  then have "(2 :: nat) ^ h < 2 ^ 51" using assms(3) by linarith
  then have h: "h < 51" by (rule power_less_imp_less_exp [rotated]) simp
  have "p * 8192 + (16384 + 4 * p) * 8 \<le> real"
    using assms(1) calc_metadata_blocks_lower [of "p + NR_GC_PRESERVED"] by (simp add: fits_def NR_GC_PRESERVED_def)
  moreover have "real < (?N + 1) * 8192" using dividend_less_times_div [of 8192 real] by simp
  moreover have "(?N + 1) * 8192 \<le> (p + 2 + h) * 8192" using assms(4) by (intro mult_le_mono1) simp
  ultimately have low: "131072 + 32 * p < (2 + h) * 8192" by (simp add: algebra_simps)
  show False
  proof (cases "h \<le> 14")
    case False
    then have "(2 :: nat) ^ 15 \<le> 2 ^ h" by (intro power_increasing) simp_all
    then have "32768 \<le> ?N" using assms(3) by simp
    then show False using low h assms(4) by simp
  qed (use low in simp)
qed

text \<open>
  The state of the search: \<open>a\<close> fits, some \<open>r\<close> on the disk does not, and \<open>r\<close> is one or two steps
  away (up to 1), or just above \<open>a\<close>.
\<close>

definition searching :: "nat \<Rightarrow> nat \<Rightarrow> nat \<Rightarrow> nat \<Rightarrow> nat \<Rightarrow> bool" where
  "searching real a s h r \<longleftrightarrow> a + s \<le> real div 8192 \<and> (a = 0 \<or> fits real a) \<and> 2 ^ h * s \<le> real div 8192 \<and>
     r \<le> real div 8192 \<and> \<not> fits real r \<and>
     ((\<exists>e \<le> 1. a + 2 * s + e = r \<or> a + s + e = r) \<and> (real div 8192 \<le> r + h \<or> s + r \<le> real div 8192) \<or> a + 1 = r)"

lemma searching_reject:
  assumes "searching real a s h r" and "0 < s" and "\<not> fits real (a + s)"
  shows "\<exists>r'. searching real a (s div 2) (Suc h) r'"
proof -
  let ?N = "real div 8192"
  have s: "a + s \<le> ?N" "a = 0 \<or> fits real a" "2 ^ h * s \<le> ?N" "r \<le> ?N" "\<not> fits real r" using assms(1) by (simp_all add: searching_def)
  have "2 ^ Suc h * (s div 2) \<le> 2 ^ h * s" using mult_le_mono2 [of "2 * (s div 2)" s "2 ^ h"] by (simp add: mult.assoc mult.left_commute)
  then have p: "2 ^ Suc h * (s div 2) \<le> ?N" using s(3) by linarith
  have e: "\<exists>e \<le> 1. a + 2 * (s div 2) + e = a + s" by (intro exI [of _ "s mod 2"]) simp
  consider (two) e where "e \<le> 1" "a + 2 * s + e = r" | (one) e where "e \<le> 1" "a + s + e = r" "?N \<le> r + h \<or> s + r \<le> ?N" | (top) "a + 1 = r"
    using assms(1) unfolding searching_def by blast
  then show ?thesis
  proof cases
    case two
    then have "s div 2 + (a + s) \<le> ?N" using s(4) by linarith
    then show ?thesis using s p e assms(3) unfolding searching_def by (intro exI [of _ "a + s"]) auto
  next
    case one
    then have "?N \<le> a + s + Suc h \<or> s div 2 + (a + s) \<le> ?N" by linarith
    then show ?thesis using s p e assms(3) unfolding searching_def by (intro exI [of _ "a + s"]) auto
  next
    case top
    then show ?thesis using s p unfolding searching_def by (intro exI [of _ r]) auto
  qed
qed

lemma searching_accept:
  assumes "searching real a s h r" and "0 < s" and "fits real (a + s)" and "real < 2 ^ 64"
  shows "searching real (a + s) s h r"
proof -
  let ?N = "real div 8192"
  have s: "a + s \<le> ?N" "2 ^ h * s \<le> ?N" "r \<le> ?N" "\<not> fits real r" using assms(1) by (simp_all add: searching_def)
  have r: "a + s < r" using fits_down [OF assms(3), of r] s(4) by (meson not_le_imp_less)
  consider (two) e where "e \<le> 1" "a + 2 * s + e = r" "?N \<le> r + h \<or> s + r \<le> ?N" | (one) "a + s + 1 = r" "?N \<le> r + h \<or> s + r \<le> ?N"
  proof -
    have "((\<exists>e \<le> 1. a + 2 * s + e = r \<or> a + s + e = r) \<and> (?N \<le> r + h \<or> s + r \<le> ?N)) \<or> a + 1 = r"
      using assms(1) unfolding searching_def by blast
    then obtain e where e: "e \<le> 1" "a + 2 * s + e = r \<or> a + s + e = r" "?N \<le> r + h \<or> s + r \<le> ?N"
      using r assms(2) by (elim disjE) (blast, linarith)
    from e(2) show thesis
    proof
      assume "a + s + e = r"
      then have "a + s + 1 = r" using e(1) r by linarith
      then show thesis using e(3) that(2) by blast
    qed (use e that(1) in blast)
  qed
  then show ?thesis
  proof cases
    case two
    then have "a + s + s \<le> ?N" "\<exists>e \<le> 1. a + s + s + e = r" using s(3) by auto
    then show ?thesis using two(3) s assms(3) unfolding searching_def by auto
  next
    case one
    have "2 ^ h * 1 \<le> 2 ^ h * s" using assms(2) by (intro mult_le_mono2) simp
    then have "2 ^ h \<le> ?N" using s(2) by linarith
    then have "\<not> ?N \<le> r + h" using fits_near_end [OF assms(3,4), of h] one(1) by auto
    then have "a + s + s \<le> ?N" using one by linarith
    then show ?thesis using one(1) s assms(3) unfolding searching_def by auto
  qed
qed

lemma avail_loop_max:
  assumes "real < 2 ^ 64"
  shows "searching real a s h r \<Longrightarrow> \<exists>n. avail_loop real (a * SECTORS_PER_SEGMENT) s = Some (n * SECTORS_PER_SEGMENT) \<and>
    (n = 0 \<or> fits real n) \<and> \<not> fits real (Suc n)"
proof (induction "s * Suc (real div 8192) + (real div 8192 - a)" arbitrary: a s h r rule: less_induct)
  case less
  let ?N = "real div 8192" and ?S = SECTORS_PER_SEGMENT
  have s: "a + s \<le> ?N" "a = 0 \<or> fits real a" using less.prems by (simp_all add: searching_def)
  have in_disk: "p * 8192 \<le> real" if "p \<le> ?N" for p using that by (simp add: less_eq_div_iff_mult_less_eq)
  show ?case
  proof (cases "s = 0")
    case True
    have "\<not> fits real (Suc a)" using less.prems True fits_down [of real "Suc a" r] unfolding searching_def
      by (auto simp: le_Suc_eq)
    moreover have "avail_loop real (a * ?S) s = Some (a * ?S)" using True by (simp add: avail_loop.simps)
    ultimately show ?thesis using s(2) by blast
  next
    case False
    have lt: "a * ?S < real" using in_disk [OF s(1)] False by (simp add: SECTORS_PER_SEGMENT_value)
    have probe: "a * ?S + s * ?S = (a + s) * ?S" by (simp add: algebra_simps)
    have dec: "probe_fits real ((a + s) * ?S) \<longleftrightarrow> fits real (a + s)" by (rule probe_fits_segment [OF assms in_disk [OF s(1)]])
    show ?thesis
    proof (cases "fits real (a + s)")
      case True
      have "s * Suc ?N + (?N - (a + s)) < s * Suc ?N + (?N - a)" using s(1) False by linarith
      from less.hyps [OF this searching_accept [OF less.prems _ True assms]] False
      show ?thesis using True lt by (subst avail_loop.simps) (simp add: probe dec)
    next
      case rej: False
      from searching_reject [OF less.prems _ rej] False obtain r' where r': "searching real a (s div 2) (Suc h) r'" by auto
      have "Suc (s div 2) * Suc ?N \<le> s * Suc ?N" using False by (intro mult_le_mono1) linarith
      then have "s div 2 * Suc ?N + (?N - a) < s * Suc ?N + (?N - a)" by simp
      from less.hyps [OF this r'] show ?thesis using False rej lt by (subst avail_loop.simps) (simp add: probe dec)
    qed
  qed
qed

section \<open>Property\<close>

text \<open>
  C13. The probing ends with the largest size the disk can hold.  For every disk of less than 2^60
  sectors (for which every count fits in 64 bits) the loop ends; the result is a whole number of segments.  If it is not 0, the layout a format writes
  for it ends within the disk, data, spare segments and metadata included; and for one segment more the
  layout would not.
\<close>

theorem calc_avail_sectors_max:
  assumes "real_sectors < 2 ^ 60"
  shows "\<exists>n. calc_avail_sectors real_sectors = Some (n * SECTORS_PER_SEGMENT) \<and>
    (let used = (\<lambda>n. sb_data_start (superblock_format jsz mrec n mem) * SECTORS_PER_BLOCK +
           sb_nr_segment (superblock_format jsz mrec n mem) * SECTORS_PER_SEGMENT)
     in (n = 0 \<or> used n \<le> real_sectors) \<and> real_sectors < used (Suc n))"
proof -
  let ?k = "NR_GC_PRESERVED * SECTORS_PER_SEGMENT" and ?S = SECTORS_PER_SEGMENT
  have used: "sb_data_start (superblock_format jsz mrec n mem) * SECTORS_PER_BLOCK + sb_nr_segment (superblock_format jsz mrec n mem) * ?S =
      calc_metadata_blocks (n + NR_GC_PRESERVED) * 8 + n * 8192 + ?k" for n
  proof -
    have "sb_nr_segment (superblock_format jsz mrec n mem) = n + NR_GC_PRESERVED" by (simp add: superblock_format_def Let_def)
    then show ?thesis by (simp add: format_data_start SECTORS_PER_BLOCK_def SECTORS_PER_SEGMENT_value algebra_simps)
  qed
  show ?thesis
  proof (cases "real_sectors < ?k")
    case True
    then show ?thesis unfolding Let_def used by (intro exI [of _ 0]) (simp add: calc_avail_sectors_def)
  next
    case False
    define real where "real = real_sectors - ?k"
    let ?N = "real div 8192"
    have r: "real < 2 ^ 64" "real_sectors = real + ?k" using False assms by (simp_all add: real_def)
    have half: "real div 2 div ?S = ?N div 2" by (simp add: SECTORS_PER_SEGMENT_value div_mult2_eq [symmetric] mult.commute)
    have "\<not> fits real ?N" using fits_end [of real ?N] by auto
    moreover have "\<exists>e \<le> 1. 0 + 2 * (?N div 2) + e = ?N" by (intro exI [of _ "?N mod 2"]) simp
    ultimately have "searching real 0 (?N div 2) 0 ?N" unfolding searching_def by auto
    from avail_loop_max [OF r(1) this] obtain n where
      "avail_loop real 0 (?N div 2) = Some (n * ?S)" "n = 0 \<or> fits real n" "\<not> fits real (Suc n)" by auto
    moreover have "calc_avail_sectors real_sectors = avail_loop real 0 (?N div 2)"
      using False half by (simp add: calc_avail_sectors_def real_def Let_def)
    ultimately show ?thesis unfolding Let_def used r(2) by (intro exI [of _ n]) (auto simp: fits_def)
  qed
qed

theorem calc_avail_sectors_max_witness:
  "\<exists>n. calc_avail_sectors 41943040 = Some (n * SECTORS_PER_SEGMENT) \<and> 0 < n"
proof -
  let ?u = "\<lambda>n. sb_data_start (superblock_format 8 8 n zero_sb) * SECTORS_PER_BLOCK + sb_nr_segment (superblock_format 8 8 n zero_sb) * SECTORS_PER_SEGMENT"
  obtain n where n: "calc_avail_sectors 41943040 = Some (n * SECTORS_PER_SEGMENT)" "41943040 < ?u (Suc n)"
    using calc_avail_sectors_max [of 41943040 8 8 zero_sb] by (auto simp: Let_def)
  have "?u (Suc 0) \<le> 41943040"
    by (simp add: format_data_start calc_metadata_blocks_def superblock_format_def Let_def STRUCTURE_BLOCKS_def index_region_blocks_def
        total_bit_2 extra_bit_def bytes_to_block_def seg_validity_table_blocks_def data_seg_table_blocks_def bit_catalogue_blocks_def
        reverse_index_table_blocks_def disk_array_blocks_def SECTORS_PER_SEGMENT_value BIT_FILE_SIZE_eq layout_consts)
  then have "n \<noteq> 0" using n(2) by (intro notI) simp
  then show ?thesis using n(1) by blast
qed

end
