(* ===== verification/Device_Steps.thy ===== *)
theory Device_Steps
  imports Device_Read Capacity
begin

text \<open>
  The device as a state machine.  The specification is a map \<open>D\<close> from block numbers to data; its steps
  are a write of a run of blocks, a read, and a work item of the pool.  In every state the machine
  reaches, the data of the index overlaid with the pool is \<open>D\<close>, so that a read returns what was
  written last, wherever the block is.

  The guards are those of the proofs before: block numbers below 2^31, a pool that is not run over
  (\<open>Segment_Buffer\<close>), room in the tree (\<open>Lsm_Put\<close>) and a free segment for a flush.
\<close>

section \<open>The invariant\<close>

definition env_ok :: "('c, 'd) jd_env \<Rightarrow> ('d \<Rightarrow> nat \<Rightarrow> byte list) \<Rightarrow> ('c, 'd) dm_jindisk \<Rightarrow> bool" where
  "env_ok env sector st \<longleftrightarrow> gcm_works (je_cipher env) \<and> io_ok (je_io env) sector \<and> io_fits env (nr_blocks st)"

text \<open>
  The entries behind the queued ones were flushed: what they show is in the flushed data \<open>F\<close>.
\<close>

definition dev_inv :: "('c, 'd) jd_env \<Rightarrow> ('c, 'd) dm_jindisk \<Rightarrow> (nat \<rightharpoonup> byte list) \<Rightarrow> bool" where
  "dev_inv env st D \<longleftrightarrow>
     (\<exists>V F. index_inv env st V F (block_at env st) \<and> pool_inv (jd_seg_buffer st) \<and>
        overlay (drop (Suc (length (sb_work (jd_seg_buffer st)))) (pool_maps (jd_seg_buffer st))) \<subseteq>\<^sub>m F \<and>
        D = F ++ overlay (pool_maps (jd_seg_buffer st)))"

lemma dev_invE:
  assumes "dev_inv env st D"
  obtains V F where "index_inv env st V F (block_at env st)" and "pool_inv (jd_seg_buffer st)"
    and "overlay (drop (Suc (length (sb_work (jd_seg_buffer st)))) (pool_maps (jd_seg_buffer st))) \<subseteq>\<^sub>m F"
    and "D = F ++ overlay (pool_maps (jd_seg_buffer st))"
  using assms unfolding dev_inv_def by blast

lemma overlay_at: "overlay ms k = (case filter (\<lambda>m. m k \<noteq> None) ms of [] \<Rightarrow> None | m # _ \<Rightarrow> m k)"
  by (induction ms) (auto simp: map_add_def split: option.split)

lemma push_effect_overlay:
  assumes "push_effect buf lba data buf'" and "pool_inv buf"
    and F: "overlay (drop (Suc (length (sb_work buf))) (pool_maps buf)) \<subseteq>\<^sub>m F"
  shows "overlay (drop (Suc (length (sb_work buf'))) (pool_maps buf')) \<subseteq>\<^sub>m F"
    and "F ++ overlay (pool_maps buf') = (F ++ overlay (pool_maps buf))(lba \<mapsto> data)"
proof -
  obtain a b c d where m: "pool_maps buf = [a, b, c, d]" by (simp add: pool_maps_list)
  define n where "n = length (sb_work buf)"
  have "length (sb_work buf') < POOL_SIZE" using assms(1) by (simp add: push_effect_def pool_inv_def)
  then consider (stay) "pool_maps buf' = [a(lba \<mapsto> data), b, c, d]" "length (sb_work buf') = n"
    | (turn) "pool_maps buf' = [Map.empty, a(lba \<mapsto> data), b, c]" "length (sb_work buf') = Suc n" "n < 3"
    using assms(1) unfolding push_effect_def m Let_def n_def by (auto simp: POOL_SIZE_def)
  then have "overlay (drop (Suc (length (sb_work buf'))) (pool_maps buf')) \<subseteq>\<^sub>m F \<and>
    F ++ overlay (pool_maps buf') = (F ++ overlay (pool_maps buf))(lba \<mapsto> data)"
  proof cases
    case stay
    then show ?thesis using F by (simp add: m n_def fun_eq_iff map_add_def split: option.split)
  next
    case turn
    have d: "F k = Some x" if "d k = Some x" "c k = None" "b k = None" for k x
    proof -
      have "overlay (drop (Suc n) (pool_maps buf)) k = Some x"
        using that turn(3) by (auto simp: m less_Suc_eq numeral_3_eq_3 map_add_def)
      then show ?thesis using F unfolding n_def map_le_def by (metis domI)
    qed
    have "overlay (drop (Suc (Suc n)) (pool_maps buf')) \<subseteq>\<^sub>m F"
      unfolding map_le_def
    proof
      fix k assume "k \<in> dom (overlay (drop (Suc (Suc n)) (pool_maps buf')))"
      then obtain x where x: "overlay (drop (Suc (Suc n)) (pool_maps buf')) k = Some x" by blast
      then have "overlay (drop (Suc n) (pool_maps buf)) k = Some x"
        using turn(3) by (auto simp: turn m less_Suc_eq numeral_3_eq_3 map_add_Some_iff split: option.splits)
      then have "F k = Some x" using F unfolding n_def map_le_def by (metis domI)
      then show "overlay (drop (Suc (Suc n)) (pool_maps buf')) k = F k" using x by simp
    qed
    moreover have "F ++ overlay (pool_maps buf') = (F ++ overlay (pool_maps buf))(lba \<mapsto> data)"
      using d by (auto simp: turn m fun_eq_iff map_add_def split: option.split)
    ultimately show ?thesis using turn by simp
  qed
  then show "overlay (drop (Suc (length (sb_work buf'))) (pool_maps buf')) \<subseteq>\<^sub>m F"
    "F ++ overlay (pool_maps buf') = (F ++ overlay (pool_maps buf))(lba \<mapsto> data)" by simp_all
qed

section \<open>Writing\<close>

text \<open>A run of blocks from \<open>lba\<close> on replaced.\<close>

definition put_blocks :: "nat \<Rightarrow> 'a list \<Rightarrow> (nat \<rightharpoonup> 'a) \<Rightarrow> nat \<rightharpoonup> 'a" where
  "put_blocks lba ds D k = (if lba \<le> k \<and> k < lba + length ds then Some (ds ! (k - lba)) else D k)"

lemma put_blocks_Nil [simp]: "put_blocks lba [] D = D"
  by (auto simp: put_blocks_def fun_eq_iff)

lemma put_blocks_Cons: "put_blocks lba (d # ds) D = put_blocks (Suc lba) ds (D(lba \<mapsto> d))"
proof
  fix k
  consider "k < lba" | "k = lba" | "Suc lba \<le> k" by linarith
  then show "put_blocks lba (d # ds) D k = put_blocks (Suc lba) ds (D(lba \<mapsto> d)) k"
  proof cases
    case 3
    then obtain j where "k = Suc lba + j" using le_Suc_ex by blast
    then show ?thesis by (simp add: put_blocks_def)
  qed (simp_all add: put_blocks_def)
qed

lemma push_bio_ok:
  assumes "whole_blocks lba ps b" and "lba + length ps \<le> 2 ^ 31" and "\<forall>p \<in> set ps. length (pages p) = DATA_BLOCK_SIZE"
    and "pool_load buf + length ps < POOL_SIZE * BLOCKS_PER_SEGMENT" and "pool_inv buf"
    and "overlay (drop (Suc (length (sb_work buf))) (pool_maps buf)) \<subseteq>\<^sub>m F"
  shows "\<exists>buf'. segbuf_push_bio env pages b buf = Some buf' \<and> pool_inv buf' \<and>
    ((\<forall>k \<ge> lba. hd (pool_maps buf) k = None) \<longrightarrow> pool_load buf' = pool_load buf + length ps) \<and>
    overlay (drop (Suc (length (sb_work buf'))) (pool_maps buf')) \<subseteq>\<^sub>m F \<and>
    F ++ overlay (pool_maps buf') = put_blocks lba (map pages ps) (F ++ overlay (pool_maps buf))"
  using assms
proof (induction ps arbitrary: lba b buf)
  case Nil
  then show ?case by (simp add: whole_blocks_def segbuf_push_bio.simps)
next
  case (Cons p ps)
  note w = whole_blocks_step [OF Cons.prems(1)]
  let ?buf = "segbuf_push_block env buf lba (pages p) True"
  have "key_ok lba" using Cons.prems(2) by (simp add: key_ok_def)
  then have e: "push_effect buf lba (pages p) ?buf" using push_spec [OF Cons.prems(5)] Cons.prems by simp
  note o = push_effect_overlay [OF e Cons.prems(5,6)]
  have l: "pool_inv ?buf" "pool_load ?buf \<le> Suc (pool_load buf)" using e by (simp_all add: push_effect_def)
  have "\<exists>buf'. segbuf_push_bio env pages (bio_advance_iter b DATA_BLOCK_SIZE) ?buf = Some buf' \<and> pool_inv buf' \<and>
    ((\<forall>k \<ge> Suc lba. hd (pool_maps ?buf) k = None) \<longrightarrow> pool_load buf' = pool_load ?buf + length ps) \<and> overlay (drop (Suc (length (sb_work buf'))) (pool_maps buf')) \<subseteq>\<^sub>m F \<and>
    F ++ overlay (pool_maps buf') = put_blocks (Suc lba) (map pages ps) (F ++ overlay (pool_maps ?buf))"
    using Cons.prems(2-4) l o(1) by (intro Cons.IH [OF w(5)]) simp_all
  moreover have "segbuf_push_bio env pages b buf = segbuf_push_bio env pages (bio_advance_iter b DATA_BLOCK_SIZE) ?buf"
    using w by (subst segbuf_push_bio.simps) (simp add: Let_def)
  moreover have "pool_load ?buf = Suc (pool_load buf) \<and> (\<forall>k \<ge> Suc lba. hd (pool_maps ?buf) k = None)"
    if "\<forall>k \<ge> lba. hd (pool_maps buf) k = None" using e that unfolding push_effect_def Let_def by auto
  ultimately show ?case by (auto simp: put_blocks_Cons o(2))
qed

definition same_index :: "('c, 'd) dm_jindisk \<Rightarrow> ('c, 'd) dm_jindisk \<Rightarrow> bool" where
  "same_index st st' \<longleftrightarrow> jd_lsm_tree st' = jd_lsm_tree st \<and> jd_seg_validator st' = jd_seg_validator st"

lemma dev_write_ok:
  assumes "dev_inv env st D" and "whole_blocks lba ps b" and "lba + length ps \<le> 2 ^ 31"
    and "\<forall>p \<in> set ps. length (pages p) = DATA_BLOCK_SIZE"
    and "pool_load (jd_seg_buffer st) + length ps < POOL_SIZE * BLOCKS_PER_SEGMENT"
  shows "\<exists>st'. jindisk_do_write env pages b st = Some st' \<and> dev_inv env st' (put_blocks lba (map pages ps) D) \<and>
    nr_blocks st' = nr_blocks st \<and> same_index st st' \<and> ((\<forall>k \<ge> lba. hd (pool_maps (jd_seg_buffer st)) k = None) \<longrightarrow>
      pool_load (jd_seg_buffer st') = pool_load (jd_seg_buffer st) + length ps)"
proof -
  obtain V F where i: "index_inv env st V F (block_at env st)" "pool_inv (jd_seg_buffer st)"
    "overlay (drop (Suc (length (sb_work (jd_seg_buffer st)))) (pool_maps (jd_seg_buffer st))) \<subseteq>\<^sub>m F"
    "D = F ++ overlay (pool_maps (jd_seg_buffer st))" using assms(1) by (rule dev_invE)
  from push_bio_ok [OF assms(2-5) i(2,3), of "je_segbuf env"] obtain buf' where
    b: "segbuf_push_bio (je_segbuf env) pages b (jd_seg_buffer st) = Some buf'" "pool_inv buf'"
      "(\<forall>k \<ge> lba. hd (pool_maps (jd_seg_buffer st)) k = None) \<longrightarrow> pool_load buf' = pool_load (jd_seg_buffer st) + length ps"
      "overlay (drop (Suc (length (sb_work buf'))) (pool_maps buf')) \<subseteq>\<^sub>m F"
      "F ++ overlay (pool_maps buf') = put_blocks lba (map pages ps) D" using i(4) by blast
  let ?st = "st\<lparr>jd_seg_buffer := buf'\<rparr>"
  have "block_at env ?st = block_at env st" by (rule raw_dev_block_at) simp
  then have "index_inv env ?st V F (block_at env ?st)" using index_inv_frame [OF i(1), of ?st] by simp
  then have "dev_inv env ?st (put_blocks lba (map pages ps) D)"
    unfolding dev_inv_def using b by (intro exI [of _ V] exI [of _ F]) simp
  then show ?thesis using b(1,3) by (intro exI [of _ ?st]) (simp add: jindisk_do_write_def nr_blocks_def jd_dst_def same_index_def)
qed

section \<open>Reading\<close>

lemma index_inv_levels:
  assumes "index_inv env st V F content" and "tree_holds (je_lsm env) ((jd_lsm_tree st)\<lparr>lt_levels := ls\<rparr>) V"
  shows "index_inv env (st\<lparr>jd_lsm_tree := (jd_lsm_tree st)\<lparr>lt_levels := ls\<rparr>\<rparr>) V F content"
  using assms unfolding index_inv_def jd_rit_def jd_dst_def nr_blocks_def by simp

lemma dev_read_ok:
  assumes env: "env_ok env sector st" and inv: "dev_inv env st D" and b: "whole_blocks lba ps b" "ps \<noteq> []" "distinct ps"
    and fits: "lba + length ps \<le> 2 ^ 31"
  shows "\<exists>st'. jindisk_do_read env b pages st = Some (copied D lba ps pages, st') \<and> dev_inv env st' D \<and>
    nr_blocks st' = nr_blocks st \<and> jd_seg_buffer st' = jd_seg_buffer st"
proof -
  obtain V F where i: "index_inv env st V F (block_at env st)" "pool_inv (jd_seg_buffer st)"
    "overlay (drop (Suc (length (sb_work (jd_seg_buffer st)))) (pool_maps (jd_seg_buffer st))) \<subseteq>\<^sub>m F"
    "D = F ++ overlay (pool_maps (jd_seg_buffer st))" using inv by (rule dev_invE)
  note I = index_invD [OF i(1)]
  let ?e = "lba + length ps - 1" and ?P = "overlay (pool_maps (jd_seg_buffer st))"
  have len: "0 < length ps" using b(2) by simp
  have e: "lba \<le> ?e" "key_ok ?e" using fits len unfolding key_ok_def by linarith+
  obtain m ls where r: "lsm_tree_range_search (je_lsm env) (jd_lsm_tree st) lba ?e = Some (m, (jd_lsm_tree st)\<lparr>lt_levels := ls\<rparr>)"
    "tree_holds (je_lsm env) ((jd_lsm_tree st)\<lparr>lt_levels := ls\<rparr>) V" "\<forall>i. m = Some i \<longrightarrow> memtable_inv i"
    "\<forall>k. Option.bind m (\<lambda>m. memtable_map m k) = (if lba \<le> k \<and> k \<le> ?e then V k else None)"
    using tree_holds_range [OF I(1) e] by blast
  let ?st = "st\<lparr>jd_lsm_tree := (jd_lsm_tree st)\<lparr>lt_levels := ls\<rparr>\<rparr>"
  have io: "io_ok (je_io env) sector" "io_fits env (nr_blocks st)" using env by (simp_all add: env_ok_def)
  have at: "block_at env ?st = block_at env st" by (rule raw_dev_block_at) simp
  have real: "\<forall>k r. V k = Some r \<longrightarrow> rec_pba r \<noteq> INF_ADDR"
  proof (intro allI impI)
    fix k r assume "V k = Some r"
    then have "rec_pba r < nr_blocks st" by (rule I(9))
    then show "rec_pba r \<noteq> INF_ADDR" using io(2) by (simp add: io_fits_def INF_ADDR_def SECTORS_PER_BLOCK_def)
  qed
  have rl: "read_loop env ?st m b pages [] = Some (copied ?P lba ps pages, pending ?P V lba ps)"
    using read_loop_ok [of ?st m lba ?e V lba ps b env pages "[]"] pool_inv_wf [OF i(2)] r(3,4) real b(1) fits len by simp
  have pend: "readable env ?st F (nr_blocks st) info" if "info \<in> set (pending ?P V lba ps)" for info
  proof -
    note v = pending_record [OF that]
    then obtain d where "F (bi_lba info) = Some d" using I(5) by blast
    then show ?thesis using I(8) [OF v] I(9) [OF v] by (simp add: readable_def at)
  qed
  have "merge_io_loop env ?st [] (pending ?P V lba ps) (copied ?P lba ps pages) =
      Some (filled F (pending ?P V lba ps) (copied ?P lba ps pages))"
    using merge_io_loop_ok [OF io, of "[]"] pend by (simp add: chain_def)
  moreover have "filled F (pending ?P V lba ps) (copied ?P lba ps pages) = copied D lba ps pages"
    unfolding i(4) by (rule filled_copied [OF b(3) I(5)])
  moreover have lb: "bio_to_lba b = lba" "(bi_size b + DATA_BLOCK_SIZE - 1) div DATA_BLOCK_SIZE = length ps"
    using b(1,2) len by (simp_all add: whole_blocks_def bio_to_lba_def SECTORS_PER_BLOCK_def consts_simps)
  moreover have u: "u32 lba = lba" "u32 (lba + length ps + (2 ^ 64 - 1)) = ?e"
  proof -
    show "u32 lba = lba" using e by (simp add: key_ok_def)
    have "lba + length ps + (2 ^ 64 - 1) = ?e + 2 ^ 32 * 2 ^ 32" using len by simp
    then have "u32 (lba + length ps + (2 ^ 64 - 1)) = ?e mod 2 ^ 32" unfolding u32_def by (metis mod_mult_self2)
    then show "u32 (lba + length ps + (2 ^ 64 - 1)) = ?e" using e(2) by (simp add: key_ok_def)
  qed
  ultimately have "jindisk_do_read env b pages st = Some (copied D lba ps pages, ?st)"
    unfolding jindisk_do_read_def Let_def lb u r(1) by (simp add: rl)
  moreover have "dev_inv env ?st D"
    unfolding dev_inv_def at using index_inv_levels [OF i(1) r(2)] i(2-4) by (intro exI [of _ V] exI [of _ F]) simp
  ultimately show ?thesis by (intro exI [of _ ?st]) (simp add: nr_blocks_def jd_dst_def)
qed

section \<open>A work item of the pool\<close>

lemma pool_inv_pop:
  assumes "pool_inv buf" and "sb_work buf = index # work"
  shows "pool_inv (buf\<lparr>sb_work := work\<rparr>)" and "index = pool_index buf (length (sb_work buf))"
    and "length (sb_work buf) < POOL_SIZE" and "pool_maps (buf\<lparr>sb_work := work\<rparr>) = pool_maps buf"
proof -
  let ?n = "length work"
  have w: "index # work = map (pool_index buf) (rev [1..<Suc (Suc ?n)])" using assms by (simp add: pool_inv_def)
  have "rev [1..<Suc (Suc ?n)] = Suc ?n # rev [1..<Suc ?n]" by simp
  with w have p: "index = pool_index buf (Suc ?n)" "work = map (pool_index buf) (rev [1..<Suc ?n])"
    by (simp_all del: upt_Suc)
  have idx: "pool_index (buf\<lparr>sb_work := work\<rparr>) = pool_index buf" by (simp add: pool_index_def fun_eq_iff)
  show "index = pool_index buf (length (sb_work buf))" using p(1) assms(2) by simp
  show "length (sb_work buf) < POOL_SIZE" using assms(1) by (simp add: pool_inv_def)
  show "pool_inv (buf\<lparr>sb_work := work\<rparr>)" using assms p(2) unfolding pool_inv_def idx by simp
  show "pool_maps (buf\<lparr>sb_work := work\<rparr>) = pool_maps buf" by (simp add: pool_maps_def idx)
qed

lemma overlay_flushed:
  assumes "n < length ms" and "overlay (drop (Suc n) ms) \<subseteq>\<^sub>m F"
  shows "overlay (drop n ms) \<subseteq>\<^sub>m F ++ (ms ! n)" and "(F ++ (ms ! n)) ++ overlay ms = F ++ overlay ms"
proof -
  have d: "drop n ms = ms ! n # drop (Suc n) ms" using assms(1) by (simp add: Cons_nth_drop_Suc)
  show "overlay (drop n ms) \<subseteq>\<^sub>m F ++ (ms ! n)" using assms(2)
    by (auto simp: d map_le_def map_add_def dom_def split: option.splits)
  have "overlay ms = overlay (drop n ms) ++ overlay (take n ms)"
    by (metis append_take_drop_id overlay_append)
  then show "(F ++ (ms ! n)) ++ overlay ms = F ++ overlay ms"
    by (auto simp: d fun_eq_iff map_add_def split: option.split)
qed

lemma dev_work_ok:
  assumes env: "env_ok env sector st" and inv: "dev_inv env st D" and work: "sb_work (jd_seg_buffer st) \<noteq> []"
    and free: "0 < free_segments st" and room: "BLOCKS_PER_SEGMENT \<le> tree_room (jd_lsm_tree st)"
  shows "\<exists>st'. bufferio_handler env st = Some st' \<and> dev_inv env st' D \<and> nr_blocks st' = nr_blocks st \<and>
    length (sb_work (jd_seg_buffer st)) = Suc (length (sb_work (jd_seg_buffer st'))) \<and>
    free_segments st \<le> Suc (free_segments st') \<and>
    tree_room (jd_lsm_tree st) \<le> tree_room (jd_lsm_tree st') + BLOCKS_PER_SEGMENT"
proof -
  let ?buf = "jd_seg_buffer st"
  let ?n = "length (sb_work ?buf)"
  obtain V F where i: "index_inv env st V F (block_at env st)" "pool_inv ?buf"
    "overlay (drop (Suc ?n) (pool_maps ?buf)) \<subseteq>\<^sub>m F" "D = F ++ overlay (pool_maps ?buf)" using inv by (rule dev_invE)
  obtain index rest where w: "sb_work ?buf = index # rest" using work by (cases "sb_work ?buf") auto
  note p = pool_inv_pop [OF i(2) w]
  let ?st = "st\<lparr>jd_seg_buffer := ?buf\<lparr>sb_work := rest\<rparr>\<rparr>"
  have at: "block_at env ?st = block_at env st" by (rule raw_dev_block_at) simp
  have same: "nr_blocks ?st = nr_blocks st" "free_segments ?st = free_segments st"
    by (simp_all add: nr_blocks_def jd_dst_def free_segments_def)
  have "index_inv env ?st V F (block_at env ?st)" unfolding at by (rule index_inv_frame [OF i(1)]) simp_all
  moreover have "index < POOL_SIZE" unfolding p(2) by simp
  ultimately obtain st' V' where f: "segbuf_flush_bios env index ?st = Some st'"
    "index_inv env st' V' (F ++ seg_map (sb_buffer ?buf ! index)) (block_at env st')"
    "same_pool (?buf\<lparr>sb_work := rest\<rparr>) (jd_seg_buffer st')" "nr_blocks st' = nr_blocks st"
    "free_segments st \<le> Suc (free_segments st')" "tree_room (jd_lsm_tree st) \<le> tree_room (jd_lsm_tree st') + BLOCKS_PER_SEGMENT"
    using flush_bios_ok [of env sector ?st V F index] env p(1) free room same by (auto simp: env_ok_def)
  note s = same_pool_inv [OF f(3) p(1)]
  have n: "?n = Suc (length rest)" "sb_work (jd_seg_buffer st') = rest" using w f(3) by (simp_all add: same_pool_def)
  have "seg_map (sb_buffer ?buf ! index) = pool_maps ?buf ! ?n" using p(2,3) by (simp add: pool_maps_def)
  moreover have "?n < length (pool_maps ?buf)" using p(3) by (simp add: pool_maps_def)
  ultimately have "dev_inv env st' D"
    unfolding dev_inv_def using f(2) s overlay_flushed [of ?n "pool_maps ?buf" F] i(3,4) p(4) n
    by (intro exI [of _ V'] exI [of _ "F ++ seg_map (sb_buffer ?buf ! index)"]) simp
  then show ?thesis using f n w by (intro exI [of _ st']) (simp add: bufferio_handler_def)
qed

section \<open>Steps\<close>

text \<open>
  The requests the device gets and the work it does on its own, with the contents \<open>D\<close> a client
  expects.
\<close>

inductive dev_step ::
  "('c, 'd) jd_env \<Rightarrow> ('c, 'd) dm_jindisk \<times> (nat \<rightharpoonup> byte list) \<Rightarrow> ('c, 'd) dm_jindisk \<times> (nat \<rightharpoonup> byte list) \<Rightarrow> bool"
  for env where
  dev_write: "whole_blocks lba ps b \<Longrightarrow> lba + length ps \<le> 2 ^ 31 \<Longrightarrow> \<forall>p \<in> set ps. length (pages p) = DATA_BLOCK_SIZE \<Longrightarrow>
     pool_load (jd_seg_buffer st) + length ps < POOL_SIZE * BLOCKS_PER_SEGMENT \<Longrightarrow> jindisk_do_write env pages b st = Some st' \<Longrightarrow>
     dev_step env (st, D) (st', put_blocks lba (map pages ps) D)"
| dev_read: "whole_blocks lba ps b \<Longrightarrow> ps \<noteq> [] \<Longrightarrow> distinct ps \<Longrightarrow> lba + length ps \<le> 2 ^ 31 \<Longrightarrow>
     jindisk_do_read env b pages st = Some (pages', st') \<Longrightarrow> dev_step env (st, D) (st', D)"
| dev_work: "sb_work (jd_seg_buffer st) \<noteq> [] \<Longrightarrow> 0 < free_segments st \<Longrightarrow> BLOCKS_PER_SEGMENT \<le> tree_room (jd_lsm_tree st) \<Longrightarrow>
     bufferio_handler env st = Some st' \<Longrightarrow> dev_step env (st, D) (st', D)"

inductive_cases dev_stepE: "dev_step env (st, D) (st', D')"

lemma env_ok_same: "env_ok env sector st \<Longrightarrow> nr_blocks st' = nr_blocks st \<Longrightarrow> env_ok env sector st'"
  by (simp add: env_ok_def)

lemma dev_step_inv:
  assumes "dev_step env (st, D) (st', D')" and env: "env_ok env sector st" and inv: "dev_inv env st D"
  shows "env_ok env sector st' \<and> dev_inv env st' D'"
proof (rule dev_stepE [OF assms(1)], goal_cases)
  case (1 lba ps b pages)
  then show ?case using dev_write_ok [OF inv, of lba ps b pages] env_ok_same [OF env] by auto
next
  case (2 lba ps b pages pages')
  then show ?case using dev_read_ok [OF env inv, of lba ps b pages] env_ok_same [OF env] by auto
next
  case 3
  then show ?case using dev_work_ok [OF env inv] env_ok_same [OF env] by auto
qed

text \<open>
  A store that is stepped by its clients and by itself, and that can be asked: the invariant ties its
  state to the contents, and an answer is that of the contents.
\<close>

locale block_store =
  fixes inv :: "'s \<Rightarrow> 'm \<Rightarrow> bool" and step :: "'s \<times> 'm \<Rightarrow> 's \<times> 'm \<Rightarrow> bool"
    and fits :: "'q \<Rightarrow> bool" and ask :: "'q \<Rightarrow> 's \<Rightarrow> ('a \<times> 's) option" and answer :: "'q \<Rightarrow> 'm \<Rightarrow> 'a"
  assumes step_inv: "step (s, m) (s', m') \<Longrightarrow> inv s m \<Longrightarrow> inv s' m'"
    and ask_ok: "inv s m \<Longrightarrow> fits q \<Longrightarrow> \<exists>s'. ask q s = Some (answer q m, s') \<and> inv s' m"
begin

lemma reach_inv: "step\<^sup>*\<^sup>* (s, m) (s', m') \<Longrightarrow> inv s m \<Longrightarrow> inv s' m'"
  by (induction rule: rtranclp_induct2) (auto intro: step_inv)

lemma reach_ask: "step\<^sup>*\<^sup>* (s, m) (s', m') \<Longrightarrow> inv s m \<Longrightarrow> fits q \<Longrightarrow> \<exists>s''. ask q s' = Some (answer q m', s'')"
  using reach_inv ask_ok by blast

end

text \<open>A question is a bio with the pages it is to fill.\<close>

interpretation dev: block_store
  "\<lambda>st D. env_ok env sector st \<and> dev_inv env st D" "dev_step env"
  "\<lambda>(lba, ps, b, pages). whole_blocks lba ps b \<and> ps \<noteq> [] \<and> distinct ps \<and> lba + length ps \<le> 2 ^ 31"
  "\<lambda>(lba, ps, b, pages). jindisk_do_read env b pages" "\<lambda>(lba, ps, b, pages) D. copied D lba ps pages"
  for env sector
proof
  fix s s' :: "('a, 'b) dm_jindisk" and m m'
  assume "dev_step env (s, m) (s', m')" and "env_ok env sector s \<and> dev_inv env s m"
  then show "env_ok env sector s' \<and> dev_inv env s' m'" using dev_step_inv by blast
next
  fix s :: "('a, 'b) dm_jindisk" and m and q :: "nat \<times> nat list \<times> bio \<times> pages"
  obtain lba ps b pages where q: "q = (lba, ps, b, pages)" by (cases q)
  assume "env_ok env sector s \<and> dev_inv env s m"
    and "case q of (lba, ps, b, pages) \<Rightarrow> whole_blocks lba ps b \<and> ps \<noteq> [] \<and> distinct ps \<and> lba + length ps \<le> 2 ^ 31"
  with dev_read_ok [of env sector s m lba ps b pages] env_ok_same
  show "\<exists>s'. (case q of (lba, ps, b, pages) \<Rightarrow> jindisk_do_read env b pages) s =
      Some ((case q of (lba, ps, b, pages) \<Rightarrow> \<lambda>D. copied D lba ps pages) m, s') \<and> env_ok env sector s' \<and> dev_inv env s' m"
    unfolding q by fastforce
qed

lemma drain_ok:
  assumes "env_ok env sector st" and "dev_inv env st D" and "n = length (sb_work (jd_seg_buffer st))"
    and "n \<le> free_segments st" and "n * BLOCKS_PER_SEGMENT \<le> tree_room (jd_lsm_tree st)"
  shows "\<exists>st'. bufferio_drain env n st = Some st' \<and> sb_work (jd_seg_buffer st') = [] \<and> dev_inv env st' D \<and> env_ok env sector st'"
  using assms
proof (induction n arbitrary: st)
  case (Suc n)
  have "sb_work (jd_seg_buffer st) \<noteq> []" using Suc.prems(3) by auto
  moreover have "0 < free_segments st" "BLOCKS_PER_SEGMENT \<le> tree_room (jd_lsm_tree st)" using Suc.prems(4,5) by simp_all
  ultimately obtain st' where st': "bufferio_handler env st = Some st'" "dev_inv env st' D" "nr_blocks st' = nr_blocks st"
    "length (sb_work (jd_seg_buffer st)) = Suc (length (sb_work (jd_seg_buffer st')))"
    "free_segments st \<le> Suc (free_segments st')" "tree_room (jd_lsm_tree st) \<le> tree_room (jd_lsm_tree st') + BLOCKS_PER_SEGMENT"
    using dev_work_ok [OF Suc.prems(1,2)] by blast
  then show ?case using Suc.IH [of st'] env_ok_same [OF Suc.prems(1)] Suc.prems(3-5) by simp
qed simp

section \<open>Properties\<close>

text \<open>
  C1. A read returns what was written last.  In every state the device reaches by writes, reads and
  work of its flush queue, a read of whole blocks ends; each page gets the data last written to its
  block, or keeps what it had if the block was never written; no other page changes.
\<close>

theorem device_reads_last_write:
  assumes "env_ok env sector st0" and "dev_inv env st0 D0" and "(dev_step env)\<^sup>*\<^sup>* (st0, D0) (st, D)"
    and "whole_blocks lba ps b" and "ps \<noteq> []" and "distinct ps" and "lba + length ps \<le> 2 ^ 31"
  shows "\<exists>pages' st'. jindisk_do_read env b pages st = Some (pages', st') \<and>
    (\<forall>i < length ps. pages' (ps ! i) = (case D (lba + i) of Some d \<Rightarrow> d | None \<Rightarrow> pages (ps ! i))) \<and>
    (\<forall>q. q \<notin> set ps \<longrightarrow> pages' q = pages q)"
  using dev.reach_ask [where env = env and sector = sector, OF assms(3), of "(lba, ps, b, pages)"] assms
  by (auto simp: copied_at copied_notin)

lemma demo_device_space: "n \<le> 8 \<Longrightarrow> space_inv (jd_dst (demo_device n)) (jd_seg_validator (demo_device n))"
proof -
  assume n: "n \<le> 8"
  obtain r d where d: "dst_init (fresh_darray n empty_entry) n = (r, d)" by (metis surj_pair)
  have "space_inv d (jd_seg_validator (demo_device n))"
    by (rule fresh_space_inv [OF _ d]) (use n in \<open>simp_all add: INF_ADDR_def demo_device_def\<close>)
  then show ?thesis by (simp add: d jd_dst_def demo_device_def)
qed

lemma demo_device_segments: "n \<le> 8 \<Longrightarrow> ds_nr_segment (jd_dst (demo_device n)) = n" "free_segments (demo_device n) = n"
proof -
  let ?v = "jd_seg_validator (demo_device n)"
  have v: "sv_nr_segment ?v = n" "\<not> sv_valid ?v s" for s
    by (simp_all add: demo_device_def seg_validator_init_def sv_valid_def bits_def disk_bitset_init_def)
  then show "free_segments (demo_device n) = n" by (simp add: free_segments_def sv_count_def)
  show "ds_nr_segment (jd_dst (demo_device n)) = n" if "n \<le> 8" using space_invD(4) [OF demo_device_space [OF that]] v(1) by simp
qed

lemma demo_device_index:
  assumes "n \<le> 8"
  shows "index_inv demo_jd_env (demo_device n) Map.empty Map.empty (block_at demo_jd_env (demo_device n))"
proof -
  have nb: "nr_blocks (demo_device n) = n * BLOCKS_PER_SEGMENT" by (simp add: nr_blocks_def demo_device_segments assms)
  have "tree_wf demo_env (jd_lsm_tree (demo_device n)) []" "tree_view (jd_lsm_tree (demo_device n)) [] = Map.empty"
    by (simp_all add: tree_wf_def tree_view_def demo_device_def memtable_inv_create memtable_map_create levels_wf_def fun_eq_iff)
  then have "tree_holds demo_env (jd_lsm_tree (demo_device n)) Map.empty"
    unfolding tree_holds_def by (intro exI [of _ "[]"]) (simp add: demo_device_def)
  moreover have "healthy (jd_rit (demo_device n))" "ar_nr (jd_rit (demo_device n)) = n * BLOCKS_PER_SEGMENT"
    by (simp_all add: jd_rit_def demo_device_def)
  ultimately show ?thesis using demo_device_space [OF assms] by (simp add: index_inv_def nb demo_jd_env_def)
qed

lemma demo_data_start: "sb_data_start (superblock_format 8 8 0 mem) \<le> 2 ^ 32"
  by (simp add: format_data_start calc_metadata_blocks_def STRUCTURE_BLOCKS_def index_region_blocks_def
      total_bit_2 extra_bit_def bytes_to_block_def seg_validity_table_blocks_def data_seg_table_blocks_def bit_catalogue_blocks_def
      reverse_index_table_blocks_def disk_array_blocks_def BIT_FILE_SIZE_eq layout_consts)

lemma demo_device_ok:
  assumes "n \<le> 8"
  shows "env_ok demo_jd_env (\<lambda>d x. take SECTOR_SIZE (d x @ replicate SECTOR_SIZE 0)) (demo_device n)"
    and "dev_inv demo_jd_env (demo_device n) Map.empty"
proof -
  have "gcm_works demo_gcm" by (simp add: gcm_works_def demo_gcm_def comp_def)
  moreover have "nr_blocks (demo_device n) \<le> 8192" using assms by (simp add: nr_blocks_def demo_device_segments BLOCKS_PER_SEGMENT_def)
  ultimately show "env_ok demo_jd_env (\<lambda>d x. take SECTOR_SIZE (d x @ replicate SECTOR_SIZE 0)) (demo_device n)"
    using demo_io_ok demo_data_start [of zero_sb] by (simp add: env_ok_def demo_jd_env_def io_fits_def SECTORS_PER_BLOCK_def)
  have p: "jd_seg_buffer (demo_device n) = segbuf_init demo_segbuf_env" by (simp add: demo_device_def)
  have "overlay (replicate n (Map.empty :: nat \<rightharpoonup> byte list)) = Map.empty" for n by (induction n) simp_all
  then show "dev_inv demo_jd_env (demo_device n) Map.empty"
    unfolding dev_inv_def p pool_init using demo_device_index [OF assms] pool_init by (intro exI [of _ Map.empty]) simp
qed

lemma demo_device_room: "tree_room (jd_lsm_tree (demo_device n)) = 2 * DEFAULT_LSM_FILE_CAPACITY - 1"
  by (simp add: tree_room_def demo_device_def layout_consts rbtree_memtable_create_def)

definition demo_bio :: "bio_op \<Rightarrow> nat \<Rightarrow> nat list \<Rightarrow> bio" where
  "demo_bio op lba ps = \<lparr>bi_op = op, bi_sector = lba * SECTORS_PER_BLOCK, bi_size = length ps * DATA_BLOCK_SIZE,
     bi_io_vec = map (\<lambda>p. \<lparr>bv_page = p, bv_offset = 0, bv_len = DATA_BLOCK_SIZE\<rparr>) ps\<rparr>"

lemma demo_bio_whole: "whole_blocks lba ps (demo_bio op lba ps)"
  by (simp add: whole_blocks_def demo_bio_def)

definition demo_pages :: pages where "demo_pages p = replicate DATA_BLOCK_SIZE (of_nat p)"

lemma demo_device_load: "pool_load (jd_seg_buffer (demo_device n)) = 0"
  by (simp add: demo_device_def pool_load_def segbuf_init_def data_segment_init_def zero_segment_def POOL_SIZE_def)

text \<open>Blocks 5 and 6 are written from pages 1 and 2; then blocks 6 and 7 are read into pages 3 and 4.\<close>

theorem device_reads_last_write_witness:
  "\<exists>st pages' st'. jindisk_do_write demo_jd_env demo_pages (demo_bio REQ_OP_WRITE 5 [1, 2]) (demo_device 2) = Some st \<and>
     jindisk_do_read demo_jd_env (demo_bio REQ_OP_READ 6 [3, 4]) demo_pages st = Some (pages', st') \<and>
     pages' 3 = demo_pages 2 \<and> pages' 4 = demo_pages 4"
proof -
  have two: "(2 :: nat) \<le> 8" by simp
  have g: "(5::nat) + length [1 :: nat, 2] \<le> 2 ^ 31" "\<forall>p \<in> set [1, 2]. length (demo_pages p) = DATA_BLOCK_SIZE"
    "pool_load (jd_seg_buffer (demo_device 2)) + length [1 :: nat, 2] < POOL_SIZE * BLOCKS_PER_SEGMENT"
    by (simp_all add: demo_pages_def demo_device_load POOL_SIZE_def BLOCKS_PER_SEGMENT_def)
  from dev_write_ok [OF demo_device_ok(2) [OF two] demo_bio_whole g] obtain st where
    st: "jindisk_do_write demo_jd_env demo_pages (demo_bio REQ_OP_WRITE 5 [1, 2]) (demo_device 2) = Some st" by blast
  let ?D = "put_blocks 5 (map demo_pages [1, 2]) Map.empty"
  have "(dev_step demo_jd_env)\<^sup>*\<^sup>* ((demo_device 2), Map.empty) (st, ?D)"
    using dev_write [OF demo_bio_whole g st] by blast
  from device_reads_last_write [OF demo_device_ok [OF two] this demo_bio_whole [of 6 "[3, 4]" REQ_OP_READ], where pages = demo_pages]
  obtain pages' st' where r: "jindisk_do_read demo_jd_env (demo_bio REQ_OP_READ 6 [3, 4]) demo_pages st = Some (pages', st')"
    "\<forall>i < 2. pages' ([3, 4] ! i) = (case ?D (6 + i) of Some d \<Rightarrow> d | None \<Rightarrow> demo_pages ([3, 4] ! i))" by auto
  from spec [OF r(2), of 0] spec [OF r(2), of 1] have "pages' 3 = demo_pages 2" "pages' 4 = demo_pages 4"
    by (simp_all add: put_blocks_def)
  with st r(1) show ?thesis by blast
qed

text \<open>
  C3. The flush queue empties.  With a free segment and a segment's worth of room in the tree for each
  queued entry, in any reachable state, running the queue ends with nothing queued, the contents
  as before, and a write of up to three segments of blocks is then taken.
\<close>

theorem device_drains:
  assumes "env_ok env sector st0" and "dev_inv env st0 D0" and "(dev_step env)\<^sup>*\<^sup>* (st0, D0) (st, D)"
    and "length (sb_work (jd_seg_buffer st)) \<le> free_segments st"
    and "length (sb_work (jd_seg_buffer st)) * BLOCKS_PER_SEGMENT \<le> tree_room (jd_lsm_tree st)"
    and "whole_blocks lba ps b" and "lba + length ps \<le> 2 ^ 31" and "\<forall>p \<in> set ps. length (pages p) = DATA_BLOCK_SIZE"
    and "length ps \<le> 3 * BLOCKS_PER_SEGMENT"
  shows "\<exists>st1 st2. bufferio_drain env (length (sb_work (jd_seg_buffer st))) st = Some st1 \<and>
    sb_work (jd_seg_buffer st1) = [] \<and> dev_inv env st1 D \<and>
    jindisk_do_write env pages b st1 = Some st2 \<and> dev_inv env st2 (put_blocks lba (map pages ps) D)"
proof -
  have inv: "env_ok env sector st \<and> dev_inv env st D" using dev.reach_inv [OF assms(3)] assms(1,2) by blast
  from drain_ok [OF conjunct1 [OF inv] conjunct2 [OF inv] refl assms(4,5)] obtain st1 where
    s: "bufferio_drain env (length (sb_work (jd_seg_buffer st))) st = Some st1" "sb_work (jd_seg_buffer st1) = []" "dev_inv env st1 D"
    by blast
  then have "pool_inv (jd_seg_buffer st1)" by (auto elim: dev_invE)
  then have "pool_load (jd_seg_buffer st1) < BLOCKS_PER_SEGMENT"
    using s(2) by (auto simp: pool_inv_def pool_load_def BLOCKS_PER_SEGMENT_def)
  then have "pool_load (jd_seg_buffer st1) + length ps < POOL_SIZE * BLOCKS_PER_SEGMENT"
    using assms(9) by (simp add: POOL_SIZE_def)
  from dev_write_ok [OF s(3) assms(6-8) this] s show ?thesis by blast
qed

text \<open>A segment of blocks is written to the fresh device: one entry is queued, and the queue is run.\<close>

theorem device_drains_witness:
  "\<exists>st st1 st2. jindisk_do_write demo_jd_env demo_pages (demo_bio REQ_OP_WRITE 0 [0..<1024]) (demo_device 2) = Some st \<and>
     length (sb_work (jd_seg_buffer st)) = 1 \<and> bufferio_drain demo_jd_env 1 st = Some st1 \<and> sb_work (jd_seg_buffer st1) = [] \<and>
     jindisk_do_write demo_jd_env demo_pages (demo_bio REQ_OP_WRITE 7 [1, 2]) st1 = Some st2"
proof -
  let ?ps = "[0..<1024]"
  have two: "(2 :: nat) \<le> 8" by simp
  have g: "0 + length ?ps \<le> 2 ^ 31" "\<forall>p \<in> set ?ps. length (demo_pages p) = DATA_BLOCK_SIZE"
    "pool_load (jd_seg_buffer (demo_device 2)) + length ?ps < POOL_SIZE * BLOCKS_PER_SEGMENT"
    by (simp_all add: demo_pages_def demo_device_load POOL_SIZE_def BLOCKS_PER_SEGMENT_def)
  have "hd (pool_maps (jd_seg_buffer (demo_device 2))) = Map.empty" by (simp add: demo_device_def pool_init POOL_SIZE_def)
  with dev_write_ok [OF demo_device_ok(2) [OF two] demo_bio_whole g, of REQ_OP_WRITE] obtain st where
    st: "jindisk_do_write demo_jd_env demo_pages (demo_bio REQ_OP_WRITE 0 ?ps) (demo_device 2) = Some st"
      "dev_inv demo_jd_env st (put_blocks 0 (map demo_pages ?ps) Map.empty)" "same_index (demo_device 2) st"
      "pool_load (jd_seg_buffer st) = 1024" using demo_device_load by auto
  have "pool_inv (jd_seg_buffer st)" using st(2) by (auto elim: dev_invE)
  then have "dseg_size (sb_buffer (jd_seg_buffer st) ! sb_cur_buffer (jd_seg_buffer st)) < 1024"
    by (simp add: pool_inv_def BLOCKS_PER_SEGMENT_def)
  then have work: "length (sb_work (jd_seg_buffer st)) = 1" using st(4) by (auto simp: pool_load_def BLOCKS_PER_SEGMENT_def)
  have room: "free_segments st = 2" "BLOCKS_PER_SEGMENT \<le> tree_room (jd_lsm_tree st)"
    using st(3) demo_device_segments(2) [of 2] demo_device_room [of 2]
    by (simp_all add: same_index_def free_segments_def layout_consts BLOCKS_PER_SEGMENT_def)
  have "(dev_step demo_jd_env)\<^sup>*\<^sup>* ((demo_device 2), Map.empty) (st, put_blocks 0 (map demo_pages ?ps) Map.empty)"
    using dev_write [OF demo_bio_whole g st(1)] by blast
  from device_drains [OF demo_device_ok [OF two] this _ _ demo_bio_whole [of 7 "[1, 2]" REQ_OP_WRITE], of demo_pages]
  obtain st1 st2 where "bufferio_drain demo_jd_env 1 st = Some st1" "sb_work (jd_seg_buffer st1) = []"
    "jindisk_do_write demo_jd_env demo_pages (demo_bio REQ_OP_WRITE 7 [1, 2]) st1 = Some st2"
    using work room by (auto simp: demo_pages_def BLOCKS_PER_SEGMENT_def)
  with st(1) work show ?thesis by blast
qed

end
