(* ===== verification/Checkpoint.thy ===== *)
theory Checkpoint
  imports Device_Blocks
begin

text \<open>
  The checkpoint packs.  Every metadata table has two regions of the same size one behind the other;
  a checkpoint copies the region in use over the other.  It is shown that this is all it does: the
  tables in use, the data and everything else of the disk stay as they are.
\<close>

section \<open>Blocks of the raw device\<close>

definition disk_block :: "('d \<Rightarrow> nat \<Rightarrow> byte list) \<Rightarrow> 'd \<Rightarrow> nat \<Rightarrow> byte list" where
  "disk_block sector d b = concat (map (sector d) [b * 8..<b * 8 + 8])"

lemma disk_block_read: "io_ok io sector \<Longrightarrow> ic_read io d (b * SECTORS_PER_BLOCK) SECTORS_PER_BLOCK = disk_block sector d b"
  by (simp add: io_ok_def disk_block_def SECTORS_PER_BLOCK_def)

lemma length_disk_block: "io_ok io sector \<Longrightarrow> length (disk_block sector d b) = 8 * SECTOR_SIZE"
  by (simp add: disk_block_def io_ok_def length_concat_const [of _ SECTOR_SIZE])

lemma disk_block_write:
  assumes io: "io_ok io sector" and l: "length bs = 8 * SECTOR_SIZE"
  shows "disk_block sector (ic_write io d (b * SECTORS_PER_BLOCK) bs) x = (if x = b then bs else disk_block sector d x)"
proof -
  let ?d = "ic_write io d (b * 8) bs"
  have sec: "sector ?d y = (if b * 8 \<le> y \<and> y < b * 8 + 8 then take 512 (drop ((y - b * 8) * 512) bs) else sector d y)" for y
    using io l unfolding io_ok_def SECTOR_SIZE_def by simp
  show ?thesis
  proof (cases "x = b")
    case True
    have "map (sector ?d) [b * 8 + 0..<b * 8 + 0 + 8] = map (\<lambda>y. take 512 (drop ((y - b * 8) * 512) bs)) [b * 8 + 0..<b * 8 + 0 + 8]"
      by (auto simp: sec)
    moreover have "(0 + 8) * 512 \<le> length bs" using l by (simp add: SECTOR_SIZE_def)
    ultimately have "concat (map (sector ?d) [b * 8 + 0..<b * 8 + 0 + 8]) = take (8 * 512) (drop (0 * 512) bs)"
      using concat_slices [of 0 8 512 bs "b * 8"] by (simp only:)
    then show ?thesis using True l by (simp add: disk_block_def [of sector ?d] SECTORS_PER_BLOCK_def SECTOR_SIZE_def)
  next
    case False
    then have "map (sector ?d) [x * 8..<x * 8 + 8] = map (sector d) [x * 8..<x * 8 + 8]" by (auto simp: sec)
    then show ?thesis unfolding SECTORS_PER_BLOCK_def if_not_P [OF False] disk_block_def [of sector ?d x] disk_block_def [of sector d x]
      by (rule arg_cong)
  qed
qed

section \<open>Copying a pack\<close>

lemma backup_blocks:
  assumes io: "io_ok io sector" and "dst + n \<le> src \<or> src + n \<le> dst"
  shows "m \<le> n \<Longrightarrow> disk_block sector (backup_metadata io dst src [k..<m] d) x =
    (if dst + k \<le> x \<and> x < dst + m then disk_block sector d (src + (x - dst)) else disk_block sector d x)"
proof (induction "m - k" arbitrary: k d)
  case 0
  then show ?case by auto
next
  case (Suc j)
  then have k: "k < m" by linarith
  let ?w = "ic_write io d ((dst + k) * SECTORS_PER_BLOCK) (disk_block sector d (src + k))"
  have one: "disk_block sector ?w y = (if y = dst + k then disk_block sector d (src + k) else disk_block sector d y)" for y
    by (rule disk_block_write [OF io length_disk_block [OF io]])
  have "backup_metadata io dst src [k..<m] d = backup_metadata io dst src [Suc k..<m] ?w"
    using k by (simp add: upt_conv_Cons disk_block_read [OF io] Let_def)
  moreover have "disk_block sector (backup_metadata io dst src [Suc k..<m] ?w) x =
    (if dst + Suc k \<le> x \<and> x < dst + m then disk_block sector ?w (src + (x - dst)) else disk_block sector ?w x)"
    using Suc by (intro Suc.hyps(1)) simp_all
  moreover have "src + (x - dst) \<noteq> dst + k" if "dst + Suc k \<le> x" "x < dst + m" using assms(2) Suc.prems that k by linarith
  ultimately show ?case using k by (auto simp: one)
qed

text \<open>Tables with two packs each, one behind the other from block \<open>p\<close> on; the flag tells which pack is in use.\<close>

fun packs_from :: "nat \<Rightarrow> (nat \<times> nat \<times> bool) list \<Rightarrow> bool" where
  "packs_from p [] = True"
| "packs_from p ((b, n, v) # fs) = (b = p \<and> packs_from (p + 2 * n) fs)"

definition copy_pack :: "'d io_client \<Rightarrow> 'd \<Rightarrow> nat \<times> nat \<times> bool \<Rightarrow> 'd" where
  "copy_pack io d f = (case f of (b, n, v) \<Rightarrow> backup_metadata io (if v then b else b + n) (if v then b + n else b) [0..<n] d)"

text \<open>What block \<open>x\<close> holds after the packs have been copied: its partner in the pack in use, if it has one.\<close>

fun source_block :: "(nat \<times> nat \<times> bool) list \<Rightarrow> nat \<Rightarrow> nat" where
  "source_block [] x = x"
| "source_block ((b, n, v) # fs) x =
     (if v \<and> b \<le> x \<and> x < b + n then x + n else if \<not> v \<and> b + n \<le> x \<and> x < b + 2 * n then x - n else source_block fs x)"

lemma source_block_below: "packs_from p fs \<Longrightarrow> x < p \<Longrightarrow> source_block fs x = x"
  by (induction p fs rule: packs_from.induct) auto

lemma source_block_above: "packs_from p fs \<Longrightarrow> p \<le> x \<Longrightarrow> p \<le> source_block fs x"
proof (induction p fs rule: packs_from.induct)
  case (2 p b n v fs)
  then have IH: "p + 2 * n \<le> x \<Longrightarrow> p + 2 * n \<le> source_block fs x" and "b = p" by simp_all
  then show ?case using source_block_below [of "p + 2 * n" fs x] 2(2,3) by (cases "x < p + 2 * n") auto
qed simp

lemma packs_from_mem: "packs_from p fs \<Longrightarrow> (b, n, v) \<in> set fs \<Longrightarrow> p \<le> b"
  by (induction p fs rule: packs_from.induct) fastforce+

lemma source_block_pack:
  "packs_from p fs \<Longrightarrow> (b, n, v) \<in> set fs \<Longrightarrow> i < n \<Longrightarrow>
   source_block fs (b + i) = b + (if v then n else 0) + i \<and> source_block fs (b + n + i) = b + (if v then n else 0) + i"
proof (induction p fs rule: packs_from.induct)
  case (2 p b' n' v' fs)
  show ?case
  proof (cases "(b, n, v) = (b', n', v')")
    case True
    have "source_block fs (b + i) = b + i" "source_block fs (b + n + i) = b + n + i"
      using source_block_below [of "p + 2 * n'" fs] 2(2,4) True by auto
    then show ?thesis using True 2(4) by auto
  next
    case False
    then have m: "(b, n, v) \<in> set fs" using 2(3) by auto
    then have "p + 2 * n' \<le> b" using packs_from_mem [of "p + 2 * n'" fs] 2(2) by simp
    then show ?thesis using 2 m by auto
  qed
qed simp

lemma source_block_outside:
  "packs_from p fs \<Longrightarrow> x < p \<or> p + 2 * sum_list (map (\<lambda>(b, n, v). n) fs) \<le> x \<Longrightarrow> source_block fs x = x"
proof (induction p fs rule: packs_from.induct)
  case (2 p b n v fs)
  then show ?case by auto
qed simp

lemma copy_packs:
  assumes io: "io_ok io sector"
  shows "packs_from p fs \<Longrightarrow> disk_block sector (foldl (copy_pack io) d fs) x = disk_block sector d (source_block fs x)"
proof (induction p fs arbitrary: d rule: packs_from.induct)
  case (2 p b n v fs)
  have one: "disk_block sector (copy_pack io d (b, n, v)) y = disk_block sector d
      (if v \<and> b \<le> y \<and> y < b + n then y + n else if \<not> v \<and> b + n \<le> y \<and> y < b + 2 * n then y - n else y)" for y
    using backup_blocks [OF io, of _ n _ n 0 d] by (cases v) (auto simp: copy_pack_def ac_simps)
  have "disk_block sector (foldl (copy_pack io) d ((b, n, v) # fs)) x = disk_block sector (copy_pack io d (b, n, v)) (source_block fs x)"
    using 2 by simp
  moreover have "source_block fs x = x" if "x < b + 2 * n" using source_block_below [of "b + 2 * n" fs x] 2(2) that by simp
  moreover have "b + 2 * n \<le> source_block fs x" if "b + 2 * n \<le> x"
    using that 2(2) by (auto intro: source_block_above)
  ultimately show ?case by (cases "x < b + 2 * n") (auto simp: one)
qed simp

section \<open>The packs of the tables\<close>

abbreviation checkpoint_fields :: "checkpoint_pack_field list" where
  "checkpoint_fields \<equiv> [DATA_SVT, DATA_DST, DATA_RIT, INDEX_SVT, INDEX_BITC]"

definition table_packs :: "('c, 'd) jd_env \<Rightarrow> (nat \<times> nat \<times> bool) list" where
  "table_packs env = map (\<lambda>f. case checkpoint_field (je_superblock env) f of (b, n) \<Rightarrow> (b, n, je_valid_fields env f)) checkpoint_fields"

lemma checkpoint_packs:
  "jd_raw_dev (add_checkpoint_pack_record env st) = foldl (copy_pack (je_io env)) (jd_raw_dev st) (table_packs env)"
proof -
  have "checkpoint_one env d f = copy_pack (je_io env) d (case checkpoint_field (je_superblock env) f of (b, n) \<Rightarrow> (b, n, je_valid_fields env f))" for d f
    by (cases "checkpoint_field (je_superblock env) f") (simp add: checkpoint_one_def copy_pack_def Let_def)
  then show ?thesis by (simp add: add_checkpoint_pack_record_def table_packs_def)
qed

lemma table_packs_layout:
  assumes "je_superblock env = superblock_format jsz mrec n mem"
  shows "packs_from (sb_seg_validity_table_start (je_superblock env)) (table_packs env)"
    and "sb_seg_validity_table_start (je_superblock env) + 2 * sum_list (map (\<lambda>(b, n, v). n) (table_packs env)) =
      sb_data_start (je_superblock env)"
  by (simp_all add: assms table_packs_def superblock_format_def Let_def max_fd_def NR_CHECKPOINT_PACKS_def BLOCKS_PER_SEGMENT_def)

lemma checkpoint_source:
  assumes "io_ok (je_io env) sector" and "je_superblock env = superblock_format jsz mrec n mem"
  shows "disk_block sector (jd_raw_dev (add_checkpoint_pack_record env st)) x = disk_block sector (jd_raw_dev st) (source_block (table_packs env) x)"
  unfolding checkpoint_packs by (rule copy_packs [OF assms(1) table_packs_layout(1) [OF assms(2)]])

section \<open>Property\<close>

text \<open>
  C17. A checkpoint makes the two packs of every table equal, and nothing else.  Afterwards each block of
  either pack holds what the block of the pack in use held; no block before the tables and none from
  the data on has changed.
\<close>

theorem checkpoint_copies_packs:
  assumes "io_ok (je_io env) sector" and "je_superblock env = superblock_format jsz mrec n mem"
  shows "let sb = je_superblock env; d = jd_raw_dev st; d' = jd_raw_dev (add_checkpoint_pack_record env st)
    in (\<forall>f b m i. checkpoint_field sb f = (b, m) \<and> i < m \<longrightarrow>
          (let used = b + (if je_valid_fields env f then m else 0)
           in disk_block sector d' (b + i) = disk_block sector d (used + i) \<and>
              disk_block sector d' (b + m + i) = disk_block sector d (used + i))) \<and>
       (\<forall>x. x < sb_seg_validity_table_start sb \<or> sb_data_start sb \<le> x \<longrightarrow> disk_block sector d' x = disk_block sector d x)"
proof -
  note src = checkpoint_source [OF assms] and lay = table_packs_layout [OF assms(2)]
  have pack: "source_block (table_packs env) (b + i) = b + (if je_valid_fields env f then m else 0) + i \<and>
      source_block (table_packs env) (b + m + i) = b + (if je_valid_fields env f then m else 0) + i"
    if f: "checkpoint_field (je_superblock env) f = (b, m)" "i < m" for f b m i
  proof (rule source_block_pack [OF lay(1) _ f(2)])
    have "f \<in> set checkpoint_fields" by (cases f) simp_all
    then have "(case checkpoint_field (je_superblock env) f of (b, n) \<Rightarrow> (b, n, je_valid_fields env f)) \<in> set (table_packs env)"
      unfolding table_packs_def set_map by (rule imageI)
    then show "(b, m, je_valid_fields env f) \<in> set (table_packs env)" by (simp add: f(1))
  qed
  have out: "source_block (table_packs env) x = x"
    if "x < sb_seg_validity_table_start (je_superblock env) \<or> sb_data_start (je_superblock env) \<le> x" for x
    using source_block_outside [OF lay(1), of x] that lay(2) by simp
  show ?thesis unfolding Let_def src
  proof (intro conjI allI impI)
    fix f b m i
    assume "checkpoint_field (je_superblock env) f = (b, m) \<and> i < m"
    then have e: "source_block (table_packs env) (b + i) = b + (if je_valid_fields env f then m else 0) + i"
      "source_block (table_packs env) (b + m + i) = b + (if je_valid_fields env f then m else 0) + i" using pack by blast+
    show "disk_block sector (jd_raw_dev st) (source_block (table_packs env) (b + i)) =
        disk_block sector (jd_raw_dev st) (b + (if je_valid_fields env f then m else 0) + i)"
      "disk_block sector (jd_raw_dev st) (source_block (table_packs env) (b + m + i)) =
        disk_block sector (jd_raw_dev st) (b + (if je_valid_fields env f then m else 0) + i)" unfolding e by (rule refl)+
  next
    fix x
    assume "x < sb_seg_validity_table_start (je_superblock env) \<or> sb_data_start (je_superblock env) \<le> x"
    then show "disk_block sector (jd_raw_dev st) (source_block (table_packs env) x) = disk_block sector (jd_raw_dev st) x"
      using out by simp
  qed
qed

text \<open>The smallest layout: the validity table of its 320 segments has one block in each pack.\<close>

theorem checkpoint_copies_packs_witness:
  "let sb = superblock_format 8 8 0 zero_sb; sector = (\<lambda>d x. take SECTOR_SIZE (d x @ replicate SECTOR_SIZE 0));
       st = (demo_device 2)\<lparr>jd_raw_dev := \<lambda>x. [of_nat x]\<rparr>; d' = jd_raw_dev (add_checkpoint_pack_record demo_jd_env st)
   in disk_block sector d' (sb_seg_validity_table_start sb + 1) = disk_block sector (jd_raw_dev st) (sb_seg_validity_table_start sb) \<and>
      disk_block sector d' (sb_data_start sb) = disk_block sector (jd_raw_dev st) (sb_data_start sb)"
proof -
  let ?sector = "\<lambda>d x. take SECTOR_SIZE (d x @ replicate SECTOR_SIZE (0 :: byte))"
  let ?st = "(demo_device 2)\<lparr>jd_raw_dev := \<lambda>x. [of_nat x]\<rparr>"
  have e: "io_ok (je_io demo_jd_env) ?sector" "je_superblock demo_jd_env = superblock_format 8 8 0 zero_sb"
    using demo_io_ok by (simp_all add: demo_jd_env_def)
  let ?sb = "superblock_format 8 8 0 zero_sb"
  have f: "checkpoint_field ?sb DATA_SVT = (sb_seg_validity_table_start ?sb, 1)"
    by (simp add: superblock_format_def Let_def seg_validity_table_blocks_def layout_consts)
  from checkpoint_copies_packs [OF e, of ?st] have
    "\<forall>f b m i. checkpoint_field ?sb f = (b, m) \<and> i < m \<longrightarrow>
      disk_block ?sector (jd_raw_dev (add_checkpoint_pack_record demo_jd_env ?st)) (b + m + i) =
      disk_block ?sector (jd_raw_dev ?st) (b + (if je_valid_fields demo_jd_env f then m else 0) + i)"
    "disk_block ?sector (jd_raw_dev (add_checkpoint_pack_record demo_jd_env ?st)) (sb_data_start ?sb) = disk_block ?sector (jd_raw_dev ?st) (sb_data_start ?sb)"
    unfolding Let_def e(2) by blast+
  from this(1) [rule_format, OF conjI [OF f], of 0] this(2) show ?thesis by (simp add: Let_def demo_jd_env_def)
qed

end
