(* ===== verification/Device_Commit.thy ===== *)
theory Device_Commit
  imports Device_Steps Checkpoint
begin

text \<open>
  A flush request: every entry of the pool is flushed, entry 0 first.  All blocks of the pool are in the
  index afterwards; a block that several entries hold is there with the data of the entry with the
  highest number, which need not be the newest.
\<close>

lemma same_pool_trans: "same_pool a b \<Longrightarrow> same_pool b c \<Longrightarrow> same_pool a c"
  by (simp add: same_pool_def)

lemma same_pool_map: "same_pool b b' \<Longrightarrow> i < length (sb_buffer b) \<Longrightarrow> seg_map (sb_buffer b' ! i) = seg_map (sb_buffer b ! i)"
  using same_pool_seg(2) [of b b' i] by (simp add: seg_map_def fun_eq_iff)

text \<open>What a list of entries, flushed one after the other, makes of the flushed data.\<close>

definition flushed :: "segment_buffer \<Rightarrow> nat list \<Rightarrow> (nat \<rightharpoonup> byte list) \<Rightarrow> nat \<rightharpoonup> byte list" where
  "flushed buf is F = foldl (\<lambda>F i. F ++ seg_map (sb_buffer buf ! i)) F is"

lemma flush_pool_ok:
  assumes "gcm_works (je_cipher env)" and "io_ok (je_io env) sector"
    and "io_fits env (nr_blocks st)" and "index_inv env st V F (block_at env st)" and "pool_inv (jd_seg_buffer st)"
    and "\<forall>i \<in> set is. i < POOL_SIZE" and "length is \<le> free_segments st"
    and "length is * BLOCKS_PER_SEGMENT \<le> tree_room (jd_lsm_tree st)"
  shows "\<exists>st' V'. flush_pool env is st = Some st' \<and> index_inv env st' V' (flushed (jd_seg_buffer st) is F) (block_at env st') \<and>
    same_pool (jd_seg_buffer st) (jd_seg_buffer st') \<and> nr_blocks st' = nr_blocks st"
  using assms(3-)
proof (induction "is" arbitrary: st V F)
  case Nil
  then show ?case by (auto simp: flushed_def same_pool_def)
next
  case (Cons i "is")
  have "i < POOL_SIZE" "0 < free_segments st" "BLOCKS_PER_SEGMENT \<le> tree_room (jd_lsm_tree st)" using Cons.prems by simp_all
  from flush_bios_ok [OF assms(1,2) Cons.prems(1-3) this] obtain st1 V1 where
    s: "segbuf_flush_bios env i st = Some st1" "index_inv env st1 V1 (F ++ seg_map (sb_buffer (jd_seg_buffer st) ! i)) (block_at env st1)"
      "same_pool (jd_seg_buffer st) (jd_seg_buffer st1)" "nr_blocks st1 = nr_blocks st" "free_segments st \<le> Suc (free_segments st1)"
      "tree_room (jd_lsm_tree st) \<le> tree_room (jd_lsm_tree st1) + BLOCKS_PER_SEGMENT" by blast
  note p = same_pool_inv [OF s(3) Cons.prems(3)]
  from Cons.IH [OF _ s(2) p(1)] s Cons.prems obtain st' V' where
    r: "flush_pool env is st1 = Some st'"
      "index_inv env st' V' (flushed (jd_seg_buffer st1) is (F ++ seg_map (sb_buffer (jd_seg_buffer st) ! i))) (block_at env st')"
      "same_pool (jd_seg_buffer st1) (jd_seg_buffer st')" "nr_blocks st' = nr_blocks st1" by auto
  have "length (sb_buffer (jd_seg_buffer st)) = POOL_SIZE" using Cons.prems(3) by (simp add: pool_inv_def)
  then have "foldl (\<lambda>F i. F ++ seg_map (sb_buffer (jd_seg_buffer st1) ! i)) F' is =
      foldl (\<lambda>F i. F ++ seg_map (sb_buffer (jd_seg_buffer st) ! i)) F' is" for F'
    using Cons.prems(4) by (intro foldl_cong refl) (simp add: same_pool_map [OF s(3)])
  then show ?case using r s(1,4) same_pool_trans [OF s(3) r(3)] by (auto simp: flushed_def)
qed

text \<open>Writing dirty metadata buffers does not touch the data.\<close>

definition commit_env :: "('c, 'd) jd_env \<Rightarrow> ('d \<Rightarrow> nat \<Rightarrow> byte list) \<Rightarrow> bool" where
  "commit_env env sector \<longleftrightarrow> (\<exists>jsz mrec n mem. je_superblock env = superblock_format jsz mrec n mem) \<and>
     je_data_start env = sb_data_start (je_superblock env) \<and>
     (\<forall>d x. je_data_start env * SECTORS_PER_BLOCK \<le> x \<longrightarrow> sector (je_write_dirty env d) x = sector d x)"

lemma block_at_disk:
  assumes "io_ok (je_io env) sector" and "io_fits env n" and "pba < n"
  shows "block_at env st pba = disk_block sector (jd_raw_dev st) (je_data_start env + pba)"
  unfolding block_at_def read_sectors [OF assms] by (simp add: disk_block_def)

lemma commit_keeps_data:
  fixes st :: "('c, 'd) dm_jindisk"
  assumes env: "commit_env env sector" and io: "io_ok (je_io env) sector" and fits: "io_fits env n" and p: "pba < n"
  defines "st' \<equiv> add_checkpoint_pack_record env (st\<lparr>jd_raw_dev := je_write_dirty env (jd_raw_dev st)\<rparr>)"
  shows "block_at env st' pba = block_at env st pba"
proof -
  obtain jsz mrec m mem where sb: "je_superblock env = superblock_format jsz mrec m mem" "je_data_start env = sb_data_start (je_superblock env)"
    and wd: "\<And>d x. je_data_start env * 8 \<le> x \<Longrightarrow> sector (je_write_dirty env d) x = sector d x"
    using env unfolding commit_env_def SECTORS_PER_BLOCK_def by blast
  let ?b = "je_data_start env + pba"
  have "source_block (table_packs env) ?b = ?b"
    using source_block_outside [OF table_packs_layout(1) [OF sb(1)], of ?b] table_packs_layout(2) [OF sb(1)] sb(2) by simp
  then have "disk_block sector (jd_raw_dev st') ?b = disk_block sector (je_write_dirty env (jd_raw_dev st)) ?b"
    unfolding st'_def checkpoint_source [OF io sb(1)] by simp
  also have "\<dots> = disk_block sector (jd_raw_dev st) ?b"
    unfolding disk_block_def by (rule arg_cong [of _ _ concat]) (auto intro!: wd)
  finally show ?thesis unfolding block_at_disk [OF io fits p] .
qed

section \<open>Property\<close>

text \<open>What the index has of a block after a commit.\<close>

definition indexed :: "('c, 'd) jd_env \<Rightarrow> ('c, 'd) dm_jindisk \<Rightarrow> nat \<Rightarrow> byte list option \<Rightarrow> bool" where
  "indexed env st k d \<longleftrightarrow>
     (case d of
        None \<Rightarrow> \<exists>t. lsm_tree_search (je_lsm env) (jd_lsm_tree st) k = Some (Inl ENODATA, t)
      | Some x \<Rightarrow> \<exists>r t. lsm_tree_search (je_lsm env) (jd_lsm_tree st) k = Some (Inr r, t) \<and>
          opens (je_cipher env) r (jindisk_read_blocks env st (rec_pba r) 1) x)"

lemma commit_indexed:
  assumes "env_ok env sector st" and "commit_env env sector" and "index_inv env st V F (block_at env st)"
    and "st' = add_checkpoint_pack_record env (st\<lparr>jd_raw_dev := je_write_dirty env (jd_raw_dev st)\<rparr>)"
  shows "indexed env st' k (F k)"
proof -
  have io: "io_ok (je_io env) sector" "io_fits env (nr_blocks st)" using assms(1) by (simp_all add: env_ok_def)
  note I = index_invD [OF assms(3)]
  have same: "jd_lsm_tree st' = jd_lsm_tree st" by (simp add: assms(4) add_checkpoint_pack_record_def)
  obtain t where t: "lsm_tree_search (je_lsm env) (jd_lsm_tree st) k = Some (found (V k), t)"
    using lsm_index.search_ok [OF I(1), of k] by blast
  show ?thesis
  proof (cases "F k")
    case None
    then have "V k = None" using I(5) by blast
    then show ?thesis using t None by (simp add: indexed_def same)
  next
    case (Some x)
    then obtain r where r: "V k = Some r" using I(5) by blast
    have "block_at env st' (rec_pba r) = block_at env st (rec_pba r)"
      unfolding assms(4) by (rule commit_keeps_data [OF assms(2) io]) (rule I(9) [OF r])
    then show ?thesis using I(8) [OF r Some] t r Some by (simp add: indexed_def same block_at_def)
  qed
qed

lemma flushed_last:
  assumes "i < POOL_SIZE" and "seg_map (sb_buffer buf ! i) k = Some d"
    and "\<forall>j. i < j \<and> j < POOL_SIZE \<longrightarrow> seg_map (sb_buffer buf ! j) k = None"
  shows "flushed buf [0..<POOL_SIZE] F k = Some d"
  using assms unfolding less_pool by (elim disjE) (auto simp: flushed_def pool_segs map_add_def)

lemma flushed_none:
  assumes "\<forall>i < POOL_SIZE. seg_map (sb_buffer buf ! i) k = None"
  shows "flushed buf [0..<POOL_SIZE] F k = F k"
  using assms by (simp add: flushed_def pool_segs map_add_def less_pool)

text \<open>
  C40. A flush request puts the pool into the index by entry number, not by age.  With a free segment
  and room in the tree for each of the four entries it returns.  Afterwards every block that some entry of the pool
  holds is in the index with the data of the highest numbered entry that holds it, and every other block is there
  as it was before.  The pool still answers with the data of the current entry; when a higher numbered entry holds
  an older version, the index has that one.
\<close>

theorem flush_by_entry_number:
  assumes "env_ok env sector st" and "commit_env env sector" and "index_inv env st V F (block_at env st)" and "pool_inv (jd_seg_buffer st)"
    and "POOL_SIZE \<le> free_segments st" and "POOL_SIZE * BLOCKS_PER_SEGMENT \<le> tree_room (jd_lsm_tree st)"
  shows "let seg = (\<lambda>i. seg_map (sb_buffer (jd_seg_buffer st) ! i))
    in \<exists>st'. flush_and_commit env st = Some st' \<and>
      (\<forall>i k old. i < POOL_SIZE \<and> seg i k = Some old \<and> (\<forall>j. i < j \<and> j < POOL_SIZE \<longrightarrow> seg j k = None) \<longrightarrow> indexed env st' k (Some old)) \<and>
      (\<forall>k. (\<forall>i < POOL_SIZE. seg i k = None) \<longrightarrow> indexed env st' k (F k)) \<and>
      (\<forall>k new. seg (sb_cur_buffer (jd_seg_buffer st)) k = Some new \<longrightarrow> segbuf_query_block (jd_seg_buffer st') k = Inr new)"
proof -
  let ?buf = "jd_seg_buffer st"
  obtain st1 V' where f: "flush_pool env [0..<POOL_SIZE] st = Some st1" "index_inv env st1 V' (flushed ?buf [0..<POOL_SIZE] F) (block_at env st1)"
    "same_pool ?buf (jd_seg_buffer st1)" "nr_blocks st1 = nr_blocks st"
    using flush_pool_ok [of env sector st V F "[0..<POOL_SIZE]"] assms by (auto simp: env_ok_def)
  let ?st = "add_checkpoint_pack_record env (st1\<lparr>jd_raw_dev := je_write_dirty env (jd_raw_dev st1)\<rparr>)"
  have "env_ok env sector st1" using assms(1) by (simp add: env_ok_def f(4))
  note ix = commit_indexed [OF this assms(2) f(2) refl]
  have query: "segbuf_query_block (jd_seg_buffer ?st) k = Inr new" if new: "seg_map (sb_buffer ?buf ! sb_cur_buffer ?buf) k = Some new" for k new
  proof -
    note p = same_pool_inv [OF f(3) assms(4)]
    have c: "sb_cur_buffer ?buf < POOL_SIZE" "sb_cur_buffer ?buf < length (sb_buffer ?buf)" using assms(4) by (simp_all add: pool_inv_def)
    have "seg_inv (sb_buffer ?buf ! sb_cur_buffer ?buf)" using assms(4) c by (simp add: pool_inv_def)
    then have "key_ok k" using seg_map_key_ok new by blast
    moreover have "overlay (pool_maps ?buf) k = Some new" using new c by (simp add: pool_maps_list)
    ultimately show ?thesis using query_spec [OF pool_inv_wf [OF p(1)]] p(2) by (simp add: add_checkpoint_pack_record_def)
  qed
  show ?thesis unfolding Let_def
  proof (intro exI [of _ ?st] conjI allI impI)
    show "flush_and_commit env st = Some ?st" using f(1) by (simp add: flush_and_commit_def)
  next
    fix i k old
    assume "i < POOL_SIZE \<and> seg_map (sb_buffer ?buf ! i) k = Some old \<and>
      (\<forall>j. i < j \<and> j < POOL_SIZE \<longrightarrow> seg_map (sb_buffer ?buf ! j) k = None)"
    then show "indexed env ?st k (Some old)" using ix [of k] flushed_last [of i ?buf k old F] by simp
  next
    fix k
    assume "\<forall>i < POOL_SIZE. seg_map (sb_buffer ?buf ! i) k = None"
    then show "indexed env ?st k (F k)" using ix [of k] flushed_none [of ?buf k F] by simp
  qed (rule query)
qed

text \<open>A device of eight segments; entry 0 takes the writes, and both it and entry 3 have block 5.\<close>

definition demo_entry :: "byte \<Rightarrow> data_segment" where
  "demo_entry x = zero_segment\<lparr>dseg_size := 1, dseg_root := Node Leaf \<lparr>blk_lba = 5, blk_plain = replicate DATA_BLOCK_SIZE x\<rparr> Leaf\<rparr>"

definition demo_pool :: segment_buffer where
  "demo_pool = \<lparr>sb_cur_buffer = 0, sb_buffer = [demo_entry 2, zero_segment, zero_segment, demo_entry 1], sb_work = [], sb_inits = 0\<rparr>"

lemma demo_entry_ok: "seg_inv (demo_entry x)" "dseg_size (demo_entry x) = 1"
  "seg_map (demo_entry x) = [5 \<mapsto> replicate DATA_BLOCK_SIZE x]"
  by (simp_all add: demo_entry_def seg_inv_def seg_map_def key_ok_def fun_eq_iff tree_lookup_Node bst_on_Node)

lemma demo_pool_ok: "pool_inv demo_pool"
  by (simp add: demo_pool_def pool_inv_def POOL_SIZE_def demo_entry_ok BLOCKS_PER_SEGMENT_def) (simp add: zero_segment_def)

theorem flush_by_entry_number_witness:
  "\<exists>st' r t. flush_and_commit demo_jd_env ((demo_device 8)\<lparr>jd_seg_buffer := demo_pool\<rparr>) = Some st' \<and>
     segbuf_query_block (jd_seg_buffer st') 5 = Inr (replicate DATA_BLOCK_SIZE 2) \<and>
     lsm_tree_search demo_env (jd_lsm_tree st') 5 = Some (Inr r, t) \<and>
     opens demo_gcm r (jindisk_read_blocks demo_jd_env st' (rec_pba r) 1) (replicate DATA_BLOCK_SIZE 1)"
proof -
  let ?st = "(demo_device 8)\<lparr>jd_seg_buffer := demo_pool\<rparr>" and ?s = "\<lambda>d x. take SECTOR_SIZE (d x @ replicate SECTOR_SIZE (0 :: byte))"
  have at: "block_at demo_jd_env ?st = block_at demo_jd_env (demo_device 8)" by (rule raw_dev_block_at) simp
  have i: "index_inv demo_jd_env ?st Map.empty Map.empty (block_at demo_jd_env ?st)"
    unfolding at by (rule index_inv_frame [OF demo_device_index]) simp_all
  have "nr_blocks ?st = nr_blocks (demo_device 8)" by (simp add: nr_blocks_def jd_dst_def)
  then have e: "env_ok demo_jd_env ?s ?st" using demo_device_ok(1) [of 8] by (simp add: env_ok_def)
  have c: "commit_env demo_jd_env ?s" unfolding commit_env_def by (auto simp: demo_jd_env_def)
  have "free_segments ?st = 8" using demo_device_segments(2) [of 8] by (simp add: free_segments_def)
  then have g: "POOL_SIZE \<le> free_segments ?st" "pool_inv (jd_seg_buffer ?st)" "POOL_SIZE * BLOCKS_PER_SEGMENT \<le> tree_room (jd_lsm_tree ?st)"
    by (simp_all add: POOL_SIZE_def demo_pool_ok demo_device_room layout_consts BLOCKS_PER_SEGMENT_def)
  obtain st' where st': "flush_and_commit demo_jd_env ?st = Some st'"
    "\<forall>i k old. i < POOL_SIZE \<and> seg_map (sb_buffer demo_pool ! i) k = Some old \<and>
       (\<forall>j. i < j \<and> j < POOL_SIZE \<longrightarrow> seg_map (sb_buffer demo_pool ! j) k = None) \<longrightarrow> indexed demo_jd_env st' k (Some old)"
    "\<forall>k new. seg_map (sb_buffer demo_pool ! sb_cur_buffer demo_pool) k = Some new \<longrightarrow> segbuf_query_block (jd_seg_buffer st') k = Inr new"
    using flush_by_entry_number [OF e c i g(2,1,3)] by (auto simp: Let_def)
  have "indexed demo_jd_env st' 5 (Some (replicate DATA_BLOCK_SIZE 1))"
    using spec [OF st'(2), of 3] by (simp add: demo_pool_def demo_entry_ok POOL_SIZE_def)
  moreover have "segbuf_query_block (jd_seg_buffer st') 5 = Inr (replicate DATA_BLOCK_SIZE 2)"
    using st'(3) by (simp add: demo_pool_def demo_entry_ok)
  ultimately show ?thesis using st'(1) by (auto simp: indexed_def demo_jd_env_def)
qed

end
