(* ===== verification/Journal.thy ===== *)
theory Journal
  imports Device_Blocks
begin

text \<open>
  \<^verbatim>\<open>journal.c\<close>: the journal, a ring of records in the journal region of the disk.  The blocks of one
  segment are in memory; a record is added to its block there, and the blocks are encrypted and written
  when a segment is full or on request.  The module is built with \<^verbatim>\<open>ENABLE_JOURNAL\<close> 0 and uses \<^verbatim>\<open>nop_jops\<close>;
  the operations of \<^verbatim>\<open>default_jops\<close> are modelled as they are written, with the flag as an argument.

  Blocks are their bytes, with the layout the compiler gives the structs: a \<^verbatim>\<open>crypto_info\<close> has 32 bytes, a
  \<^verbatim>\<open>journal_record\<close> 128 with the union at 8; in a \<^verbatim>\<open>journal_block\<close> the records begin at 64, because they are
  aligned to 64 bytes, and \<^verbatim>\<open>current_blk\<close> follows them.
\<close>

unbundle bit_operations_syntax

section \<open>Structures\<close>

definition JOURNAL_BLOCK_SIZE :: nat where "JOURNAL_BLOCK_SIZE = 4096"
definition CRYPTO_INFO_SIZE :: nat where "CRYPTO_INFO_SIZE = 32"
definition JOURNAL_RECORD_SIZE :: nat where "JOURNAL_RECORD_SIZE = 128"
definition RECORD_UNION_SIZE :: nat where "RECORD_UNION_SIZE = 80"
definition RECORDS_PER_BLOCK :: nat where
  "RECORDS_PER_BLOCK = (JOURNAL_BLOCK_SIZE - 2 * CRYPTO_INFO_SIZE) div JOURNAL_RECORD_SIZE"
definition RECORDS_PER_SEGMENT :: nat where "RECORDS_PER_SEGMENT = RECORDS_PER_BLOCK * BLOCKS_PER_SEGMENT"
definition MAX_BLOCKS :: nat where "MAX_BLOCKS = BLOCKS_PER_SEGMENT * NR_JOURNAL_SEGMENT"
definition MAX_RECORDS :: nat where "MAX_RECORDS = MAX_BLOCKS * RECORDS_PER_BLOCK"
definition BLOCK_CRYPT_LEN :: nat where "BLOCK_CRYPT_LEN = CRYPTO_INFO_SIZE + RECORDS_PER_BLOCK * JOURNAL_RECORD_SIZE"
definition RECORDS_OFFSET :: nat where "RECORDS_OFFSET = 64"
definition CURRENT_OFFSET :: nat where "CURRENT_OFFSET = RECORDS_OFFSET + RECORDS_PER_BLOCK * JOURNAL_RECORD_SIZE"

datatype record_type = DATA_LOG | DATA_COMMIT | BIT_COMPACTION | BIT_NODE | CHECKPOINT_PACK

datatype journal_status =
  JOURNAL_UNINITIALIZED | JOURNAL_LOADED | JOURNAL_RECOVERING | JOURNAL_READY | JOURNAL_SYNCHRONIZING

definition record_type_of :: "32 word \<Rightarrow> record_type option" where
  "record_type_of w =
     (if w = 0 then Some DATA_LOG else if w = 1 then Some DATA_COMMIT else if w = 2 then Some BIT_COMPACTION
      else if w = 3 then Some BIT_NODE else if w = 4 then Some CHECKPOINT_PACK else None)"

text \<open>A record: its type and the 80 bytes of its union.  The sizes of the members of the union.\<close>

record journal_record =
  jrec_type :: "32 word"
  jrec_union :: "byte list"

fun member_size :: "record_type option \<Rightarrow> nat" where
  "member_size (Some DATA_LOG) = 72"
| "member_size (Some DATA_COMMIT) = 8"
| "member_size (Some BIT_COMPACTION) = 48"
| "member_size (Some BIT_NODE) = 80"
| "member_size (Some CHECKPOINT_PACK) = 80"
| "member_size None = 0"

text \<open>The fields of a block.\<close>

definition current_blk :: "byte list \<Rightarrow> byte list" where
  "current_blk blk = take CRYPTO_INFO_SIZE (drop CURRENT_OFFSET blk)"

definition info_mac :: "byte list \<Rightarrow> byte list" where "info_mac ci = take AES_GCM_AUTH_SIZE ci"
definition info_iv :: "byte list \<Rightarrow> byte list" where "info_iv ci = take AES_GCM_IV_SIZE (drop AES_GCM_AUTH_SIZE ci)"

definition record_offset :: "nat \<Rightarrow> nat" where
  "record_offset i = RECORDS_OFFSET + i * JOURNAL_RECORD_SIZE"

definition block_record :: "byte list \<Rightarrow> nat \<Rightarrow> byte list" where
  "block_record blk i = take JOURNAL_RECORD_SIZE (drop (record_offset i) blk)"

text \<open>
  What the journal uses: dm-io, the cipher, \<^verbatim>\<open>ecb(aes)\<close> with the error of allocating and of setting the
  key, the CRC, the superblock's buffer, the root key.  Random bytes and fresh memory are drawn from
  a supply.
\<close>

record ('d, 'e, 's) journal_env =
  jn_io :: "'d io_client"
  jn_cipher_create :: bool
  jn_cipher :: gcm_api
  jn_ecb_alloc :: "errno option"
  jn_ecb_request :: bool
  jn_ecb_setkey :: "byte list \<Rightarrow> errno option"
  jn_ecb :: "byte list \<Rightarrow> byte list \<Rightarrow> byte list result"
  jn_crc32_be :: "32 word \<Rightarrow> byte list \<Rightarrow> 32 word"
  jn_sb :: "('e, 's) sb_env"
  jn_root_key :: "byte list"
  jn_random :: "nat \<Rightarrow> byte list"
  jn_kmalloc :: "nat \<Rightarrow> byte list"

text \<open>
  The region with its buffer, the raw device, the buffer of the superblock and the number of draws.
  \<open>jr_recovered\<close> is not in the code: the records recovery has looked at, whose use is a TODO there.
\<close>

record ('d, 's) journal_region =
  jr_segno :: nat
  jr_previous_blk :: "byte list"
  jr_blocks :: "byte list list"
  jr_superblock :: superblock
  jr_record_start :: nat
  jr_record_end :: nat
  jr_last_sync_record :: nat
  jr_status :: journal_status
  jr_dev :: 'd
  jr_sb_dev :: 's
  jr_draws :: nat
  jr_recovered :: "byte list list"

text \<open>The operations are called through the table of function pointers; \<open>None\<close> is undefined behaviour.\<close>

record ('d, 's) journal_operations =
  jo_load :: "nat \<Rightarrow> nat \<Rightarrow> ('d, 's) journal_region \<Rightarrow> ('d, 's) journal_region option"
  jo_should_recover :: "('d, 's) journal_region \<Rightarrow> bool \<times> ('d, 's) journal_region"
  jo_recover :: "('d, 's) journal_region \<Rightarrow> ('d, 's) journal_region option"
  jo_should_sync :: "('d, 's) journal_region \<Rightarrow> bool"
  jo_synchronize :: "('d, 's) journal_region \<Rightarrow> ('d, 's) journal_region option"
  jo_add_record :: "journal_record \<Rightarrow> ('d, 's) journal_region \<Rightarrow> (nat \<times> ('d, 's) journal_region) option"
  jo_get_block :: "nat \<Rightarrow> ('d, 's) journal_region \<Rightarrow> (nat \<times> ('d, 's) journal_region) option"
  jo_encrypt_block :: "nat \<Rightarrow> byte list \<Rightarrow> ('d, 's) journal_region \<Rightarrow> (byte list \<times> ('d, 's) journal_region) option"
  jo_decrypt_block :: "nat \<Rightarrow> ('d, 's) journal_region \<Rightarrow> ('d, 's) journal_region option"

section \<open>Blocks\<close>

text \<open>The sector and bytes of a transfer of one block.\<close>

definition journal_read_block :: "('d, 'e, 's) journal_env \<Rightarrow> dm_block_t \<Rightarrow> 'd \<Rightarrow> byte list" where
  "journal_read_block env blk_pba d = ic_read (jn_io env) d (blk_pba * SECTORS_PER_BLOCK) (1 * SECTORS_PER_BLOCK)"

definition journal_write_block :: "('d, 'e, 's) journal_env \<Rightarrow> dm_block_t \<Rightarrow> byte list \<Rightarrow> 'd \<Rightarrow> 'd" where
  "journal_write_block env blk_pba buffer d = ic_write (jn_io env) d (blk_pba * SECTORS_PER_BLOCK) buffer"

text \<open>The answer is the index of the block in the buffer.\<close>

definition journal_get_block ::
  "('d, 's) journal_operations \<Rightarrow> nat \<Rightarrow> ('d, 's) journal_region \<Rightarrow> (nat \<times> ('d, 's) journal_region) option" where
  "journal_get_block jops blk_num this =
     (let segno = blk_num div BLOCKS_PER_SEGMENT; offset = blk_num mod BLOCKS_PER_SEGMENT
      in map_option (Pair offset)
           (if segno \<noteq> jr_segno this then jo_load jops (blk_num * RECORDS_PER_BLOCK) (jr_record_end this) this
            else Some this))"

definition journal_derive_key :: "('d, 'e, 's) journal_env \<Rightarrow> byte list \<Rightarrow> u64 \<Rightarrow> byte list result" where
  "journal_derive_key env master_key blk_num =
     (case jn_ecb_alloc env of
        Some e \<Rightarrow> Inl e
      | None \<Rightarrow>
          let master = take AES_GCM_KEY_SIZE master_key;
              src_key = le_bytes blk_num @ le_bytes (jn_crc32_be env (ucast blk_num) master)
                @ le_bytes (jn_crc32_be env (ucast (NOT blk_num)) master)
          in if \<not> jn_ecb_request env then Inl ENOMEM
             else case jn_ecb_setkey env master of
                    Some e \<Rightarrow> Inl e
                  | None \<Rightarrow> jn_ecb env master src_key)"

definition set_block :: "nat \<Rightarrow> byte list \<Rightarrow> ('d, 's) journal_region \<Rightarrow> ('d, 's) journal_region" where
  "set_block i blk this = this\<lparr>jr_blocks := (jr_blocks this)[i := blk]\<rparr>"

text \<open>The encryption of the current block into \<open>buffer\<close>, once the previous block has been chained to it.\<close>

definition journal_seal ::
  "('d, 'e, 's) journal_env \<Rightarrow> nat \<Rightarrow> nat \<Rightarrow> byte list \<Rightarrow> ('d, 's) journal_region \<Rightarrow>
   (byte list \<times> ('d, 's) journal_region) option" where
  "journal_seal env blk_num cur buffer this =
     (case journal_derive_key env (jn_root_key env) (of_nat blk_num) of
        Inl _ \<Rightarrow> Some (buffer, this)
      | Inr blk_key \<Rightarrow>
          let blk_iv = take AES_GCM_IV_SIZE (jn_random env (jr_draws this));
              cur_blk = overwrite (CURRENT_OFFSET + AES_GCM_AUTH_SIZE) blk_iv (jr_blocks this ! cur)
          in case aes_gcm_cipher_encrypt (jn_cipher env) (take BLOCK_CRYPT_LEN cur_blk) blk_key (Some blk_iv)
                    (info_mac (current_blk cur_blk)) (of_nat blk_num) (take BLOCK_CRYPT_LEN buffer) of
               None \<Rightarrow> None
             | Some (_, blk_mac, out) \<Rightarrow>
                 let cur_blk1 = overwrite CURRENT_OFFSET blk_mac cur_blk;
                     buffer1 = overwrite CURRENT_OFFSET (current_blk cur_blk1) (overwrite 0 out buffer);
                     this1 = set_block cur cur_blk1 (this\<lparr>jr_draws := jr_draws this + 1\<rparr>)
                 in Some (buffer1,
                      if blk_num mod BLOCKS_PER_SEGMENT = BLOCKS_PER_SEGMENT - 1
                      then this1\<lparr>jr_previous_blk := current_blk cur_blk1\<rparr> else this1))"

definition journal_encrypt_block ::
  "('d, 'e, 's) journal_env \<Rightarrow> ('d, 's) journal_operations \<Rightarrow> nat \<Rightarrow> byte list \<Rightarrow> ('d, 's) journal_region \<Rightarrow>
   (byte list \<times> ('d, 's) journal_region) option" where
  "journal_encrypt_block env jops blk_num buffer this =
     (case jo_get_block jops blk_num this of
        None \<Rightarrow> None
      | Some (cur, this1) \<Rightarrow>
          (case (if blk_num mod BLOCKS_PER_SEGMENT = 0 then Some (jr_previous_blk this1, this1)
                 else map_option (\<lambda>(pre, t). (current_blk (jr_blocks t ! pre), t)) (jo_get_block jops (blk_num - 1) this1)) of
             None \<Rightarrow> None
           | Some (previous_blk, this2) \<Rightarrow>
               journal_seal env blk_num cur buffer (set_block cur (overwrite 0 previous_blk (jr_blocks this2 ! cur)) this2)))"

definition journal_decrypt_block ::
  "('d, 'e, 's) journal_env \<Rightarrow> ('d, 's) journal_operations \<Rightarrow> nat \<Rightarrow> ('d, 's) journal_region \<Rightarrow> ('d, 's) journal_region option" where
  "journal_decrypt_block env jops blk_num this =
     (case journal_derive_key env (jn_root_key env) (of_nat blk_num) of
        Inl _ \<Rightarrow> Some this
      | Inr blk_key \<Rightarrow>
          (case jo_get_block jops blk_num this of
             None \<Rightarrow> None
           | Some (cur, this1) \<Rightarrow>
               let cur_blk = jr_blocks this1 ! cur
               in map_option (\<lambda>(_, out). set_block cur (overwrite 0 out cur_blk) this1)
                    (aes_gcm_cipher_decrypt (jn_cipher env) (take BLOCK_CRYPT_LEN cur_blk) blk_key
                       (Some (info_iv (current_blk cur_blk))) (info_mac (current_blk cur_blk)) (of_nat blk_num)
                       (take BLOCK_CRYPT_LEN cur_blk))))"

section \<open>Loading\<close>

fun load_loop :: "('d, 'e, 's) journal_env \<Rightarrow> nat \<Rightarrow> nat \<Rightarrow> nat list \<Rightarrow> ('d, 's) journal_region \<Rightarrow> ('d, 's) journal_region" where
  "load_loop env blk_start offset [] this = this"
| "load_loop env blk_start offset (i # is) this =
     (let blk_pba = sb_journal_region_start (jr_superblock this) + blk_start + i
      in load_loop env blk_start offset is (set_block (offset + i) (journal_read_block env blk_pba (jr_dev this)) this))"

fun decrypt_loop :: "('d, 's) journal_operations \<Rightarrow> nat \<Rightarrow> nat list \<Rightarrow> ('d, 's) journal_region \<Rightarrow> ('d, 's) journal_region option" where
  "decrypt_loop jops blk_start [] this = Some this"
| "decrypt_loop jops blk_start (i # is) this =
     Option.bind (jo_decrypt_block jops (blk_start + i) this) (decrypt_loop jops blk_start is)"

definition journal_buffer_load ::
  "('d, 'e, 's) journal_env \<Rightarrow> ('d, 's) journal_operations \<Rightarrow> nat \<Rightarrow> nat \<Rightarrow> ('d, 's) journal_region \<Rightarrow> ('d, 's) journal_region option" where
  "journal_buffer_load env jops record_start record_end this =
     (let segno = record_start div RECORDS_PER_SEGMENT
      in if segno \<ge> NR_JOURNAL_SEGMENT then Some this
         else let this1 = this\<lparr>jr_segno := segno\<rparr>
              in if record_start = record_end then Some this1
                 else let blk_start = record_start div RECORDS_PER_BLOCK;
                          offset = blk_start mod BLOCKS_PER_SEGMENT;
                          blk_count =
                            (if record_end > record_start \<and> segno = record_end div RECORDS_PER_SEGMENT
                             then (record_end - 1) div RECORDS_PER_BLOCK - blk_start + 1
                             else BLOCKS_PER_SEGMENT - offset)
                      in map_option (\<lambda>t. t\<lparr>jr_status := JOURNAL_LOADED\<rparr>)
                           (decrypt_loop jops blk_start [0..<blk_count] (load_loop env blk_start offset [0..<blk_count] this1)))"

section \<open>Recovery\<close>

definition journal_should_recover :: "('d, 's) journal_region \<Rightarrow> bool \<times> ('d, 's) journal_region" where
  "journal_should_recover this =
     (if jr_record_end this = (jr_record_start this + 1) mod MAX_RECORDS then (False, this\<lparr>jr_status := JOURNAL_READY\<rparr>)
      else (True, this\<lparr>jr_status := JOURNAL_RECOVERING\<rparr>))"

text \<open>The loop over the records; it only ends when it meets \<^verbatim>\<open>record_end\<close>.\<close>

partial_function (option) recover_loop ::
  "('d, 's) journal_operations \<Rightarrow> nat \<Rightarrow> ('d, 's) journal_region \<Rightarrow> ('d, 's) journal_region option" where
  "recover_loop jops i this =
     (if i = jr_record_end this then Some this
      else Option.bind (jo_get_block jops (i div RECORDS_PER_BLOCK) this)
        (\<lambda>(b, this1). recover_loop jops ((i + 1) mod MAX_RECORDS)
           (this1\<lparr>jr_recovered := jr_recovered this1 @ [block_record (jr_blocks this1 ! b) (i mod RECORDS_PER_BLOCK)]\<rparr>)))"

definition journal_recover ::
  "('d, 's) journal_operations \<Rightarrow> ('d, 's) journal_region \<Rightarrow> ('d, 's) journal_region option" where
  "journal_recover jops this =
     map_option (\<lambda>t. t\<lparr>jr_last_sync_record := jr_record_end t, jr_status := JOURNAL_READY\<rparr>)
       (recover_loop jops (jr_record_start this) this)"

section \<open>Writing\<close>

definition journal_should_sync :: "('d, 's) journal_region \<Rightarrow> bool" where
  "journal_should_sync this \<longleftrightarrow> jr_record_end this div RECORDS_PER_SEGMENT \<noteq> jr_segno this"

fun sync_loop ::
  "('d, 'e, 's) journal_env \<Rightarrow> ('d, 's) journal_operations \<Rightarrow> nat \<Rightarrow> nat list \<Rightarrow> ('d, 's) journal_region \<Rightarrow> ('d, 's) journal_region option" where
  "sync_loop env jops blk_start [] this = Some this"
| "sync_loop env jops blk_start (i # is) this =
     (let blk_pba = sb_journal_region_start (jr_superblock this) + blk_start + i;
          buffer = take JOURNAL_BLOCK_SIZE (jn_kmalloc env (jr_draws this))
      in case jo_encrypt_block jops (blk_start + i) buffer this of
           None \<Rightarrow> None
         | Some (buffer1, this1) \<Rightarrow>
             sync_loop env jops blk_start is (this1\<lparr>jr_dev := journal_write_block env blk_pba buffer1 (jr_dev this1)\<rparr>))"

text \<open>The fields of the superblock are set and it is written; the result of the write is not looked at.\<close>

definition journal_write_superblock :: "('d, 'e, 's) journal_env \<Rightarrow> ('d, 's) journal_region \<Rightarrow> ('d, 's) journal_region" where
  "journal_write_superblock env this =
     (let sb = (jr_superblock this)\<lparr>sb_record_start := jr_record_start this, sb_record_end := jr_record_end this\<rparr>;
          (r, s) = superblock_write (jn_sb env) sb (jr_sb_dev this)
      in this\<lparr>jr_superblock := (case r of Inr sb1 \<Rightarrow> sb1 | Inl _ \<Rightarrow> sb), jr_sb_dev := s\<rparr>)"

text \<open>The number of blocks is an \<^verbatim>\<open>int\<close>; it is negative when the records to be written wrap around.\<close>

definition journal_synchronize ::
  "('d, 'e, 's) journal_env \<Rightarrow> ('d, 's) journal_operations \<Rightarrow> ('d, 's) journal_region \<Rightarrow> ('d, 's) journal_region option" where
  "journal_synchronize env jops this =
     (if jr_last_sync_record this = jr_record_end this then Some this
      else let blk_start = jr_last_sync_record this div RECORDS_PER_BLOCK;
               blk_count =
                 (if jr_record_end this mod RECORDS_PER_SEGMENT \<noteq> 0
                  then to_int (int ((jr_record_end this - 1) div RECORDS_PER_BLOCK) - int blk_start + 1)
                  else int (BLOCKS_PER_SEGMENT - blk_start mod BLOCKS_PER_SEGMENT))
           in map_option
                (\<lambda>t. let t1 = t\<lparr>jr_last_sync_record := if blk_count < 0 then blk_start * RECORDS_PER_BLOCK else jr_record_end t\<rparr>;
                         t2 = (if jr_last_sync_record t1 = jr_record_end t1 then journal_write_superblock env t1 else t1)
                     in t2\<lparr>jr_status := JOURNAL_READY\<rparr>)
                (sync_loop env jops blk_start [0..<nat blk_count] this))"

text \<open>The type and the member it names are copied into the block, the other bytes stay as they were.\<close>

definition store_record :: "nat \<Rightarrow> journal_record \<Rightarrow> byte list \<Rightarrow> byte list" where
  "store_record i r blk =
     overwrite (record_offset i + 8) (take (member_size (record_type_of (jrec_type r))) (jrec_union r))
       (overwrite (record_offset i) (le_bytes (jrec_type r)) blk)"

text \<open>The end of the ring moves on, and its start with it when they meet.\<close>

definition journal_advance :: "('d, 's) journal_region \<Rightarrow> ('d, 's) journal_region" where
  "journal_advance this =
     (let this1 = this\<lparr>jr_record_end := (jr_record_end this + 1) mod MAX_RECORDS\<rparr>
      in if jr_record_end this1 = jr_record_start this1
         then this1\<lparr>jr_record_start := (jr_record_start this1 + 1) mod MAX_RECORDS\<rparr> else this1)"

definition journal_add_record ::
  "('d, 's) journal_operations \<Rightarrow> journal_record \<Rightarrow> ('d, 's) journal_region \<Rightarrow> (nat \<times> ('d, 's) journal_region) option" where
  "journal_add_record jops r this =
     (case jo_get_block jops (jr_record_end this div RECORDS_PER_BLOCK) this of
        None \<Rightarrow> None
      | Some (b, this1) \<Rightarrow>
          let this2 = set_block b (store_record (jr_record_end this1 mod RECORDS_PER_BLOCK) r (jr_blocks this1 ! b)) this1;
              ret = jr_record_end this2;
              this3 = journal_advance this2
          in map_option (Pair ret)
               (if jo_should_sync jops this3 then jo_synchronize jops (this3\<lparr>jr_status := JOURNAL_SYNCHRONIZING\<rparr>)
                else Some this3))"

section \<open>The tables of operations\<close>

text \<open>
  The operations call each other through the table.  \<open>default_jops env n\<close> follows at most \<open>n\<close> such calls.
\<close>

fun default_jops :: "('d, 'e, 's) journal_env \<Rightarrow> nat \<Rightarrow> ('d, 's) journal_operations" where
  "default_jops env 0 =
     \<lparr>jo_load = (\<lambda>_ _ _. None), jo_should_recover = journal_should_recover, jo_recover = (\<lambda>_. None),
      jo_should_sync = journal_should_sync, jo_synchronize = (\<lambda>_. None), jo_add_record = (\<lambda>_ _. None),
      jo_get_block = (\<lambda>_ _. None), jo_encrypt_block = (\<lambda>_ _ _. None), jo_decrypt_block = (\<lambda>_ _. None)\<rparr>"
| "default_jops env (Suc n) =
     (let jops = default_jops env n
      in \<lparr>jo_load = journal_buffer_load env jops, jo_should_recover = journal_should_recover, jo_recover = journal_recover jops,
          jo_should_sync = journal_should_sync, jo_synchronize = journal_synchronize env jops,
          jo_add_record = journal_add_record jops, jo_get_block = journal_get_block jops,
          jo_encrypt_block = journal_encrypt_block env jops, jo_decrypt_block = journal_decrypt_block env jops\<rparr>)"

text \<open>The answers of the empty operations; \<open>None\<close> stands for the \<^verbatim>\<open>NULL\<close> of \<^verbatim>\<open>nop_get_block\<close>.\<close>

definition nop_jops :: "('d, 's) journal_operations" where
  "nop_jops =
     \<lparr>jo_load = (\<lambda>_ _ this. Some this), jo_should_recover = (\<lambda>this. (False, this)), jo_recover = Some,
      jo_should_sync = (\<lambda>_. False), jo_synchronize = Some, jo_add_record = (\<lambda>_ this. Some (0, this)),
      jo_get_block = (\<lambda>_ _. None), jo_encrypt_block = (\<lambda>_ buffer this. Some (buffer, this)), jo_decrypt_block = (\<lambda>_ this. Some this)\<rparr>"

section \<open>Setting up\<close>

text \<open>
  \<open>this\<close> is the memory of the region as it was allocated, \<open>stack\<close> the record on the stack of which only
  the type is set.
\<close>

definition journal_region_load ::
  "('d, 's) journal_operations \<Rightarrow> journal_record \<Rightarrow> ('d, 's) journal_region \<Rightarrow> ('d, 's) journal_region option" where
  "journal_region_load jops stack this =
     (if jr_record_start this \<noteq> jr_record_end this then jo_load jops (jr_record_start this) (jr_record_end this) this
      else map_option (\<lambda>(_, t). t\<lparr>jr_last_sync_record := jr_record_start t, jr_status := JOURNAL_LOADED\<rparr>)
             (jo_add_record jops (stack\<lparr>jrec_type := 4\<rparr>) (this\<lparr>jr_segno := jr_record_start this div RECORDS_PER_SEGMENT\<rparr>)))"

definition journal_region_ready ::
  "('d, 's) journal_operations \<Rightarrow> ('d, 's) journal_region \<Rightarrow> (unit result \<times> ('d, 's) journal_region) option" where
  "journal_region_ready jops this =
     (let (recover, this1) = (if jr_status this = JOURNAL_LOADED then jo_should_recover jops this else (False, this))
      in map_option (\<lambda>t. (if jr_status t = JOURNAL_READY then Inr () else Inl EAGAIN, t))
           (if recover then jo_recover jops this1 else Some this1))"

definition journal_region_init ::
  "bool \<Rightarrow> ('d, 'e, 's) journal_env \<Rightarrow> ('d, 's) journal_operations \<Rightarrow> journal_record \<Rightarrow> superblock \<Rightarrow> ('d, 's) journal_region \<Rightarrow>
   (unit result \<times> ('d, 's) journal_region) option" where
  "journal_region_init ENABLE_JOURNAL env jops stack sb this =
     (if \<not> ENABLE_JOURNAL then Some (Inr (), this)
      else let this1 = this\<lparr>jr_status := JOURNAL_UNINITIALIZED, jr_superblock := sb,
                 jr_record_start := sb_record_start sb, jr_record_end := sb_record_end sb\<rparr>
           in if \<not> jn_cipher_create env then Some (Inl EAGAIN, this1)
              else Option.bind
                (journal_region_load jops stack
                   (this1\<lparr>jr_blocks := replicate BLOCKS_PER_SEGMENT (replicate JOURNAL_BLOCK_SIZE 0)\<rparr>))
                (journal_region_ready jops))"

definition journal_region_create ::
  "bool \<Rightarrow> ('d, 'e, 's) journal_env \<Rightarrow> ('d, 's) journal_operations \<Rightarrow> journal_record \<Rightarrow> superblock \<Rightarrow> ('d, 's) journal_region \<Rightarrow>
   ('d, 's) journal_region option option" where
  "journal_region_create ENABLE_JOURNAL env jops stack sb this =
     map_option (\<lambda>(r, t). case r of Inl _ \<Rightarrow> None | Inr _ \<Rightarrow> Some t) (journal_region_init ENABLE_JOURNAL env jops stack sb this)"

definition journal_region_destroy ::
  "bool \<Rightarrow> ('d, 's) journal_operations \<Rightarrow> ('d, 's) journal_region \<Rightarrow> ('d, 's) journal_region option" where
  "journal_region_destroy ENABLE_JOURNAL jops this = (if ENABLE_JOURNAL then jo_synchronize jops this else Some this)"

end
