(* ===== verification/Journal_Blocks.thy ===== *)
theory Journal_Blocks
  imports Journal Checkpoint
begin

text \<open>
  The blocks of the journal: a record that was stored in a block is read from the block, and from what
  decryption makes of the encrypted block on the disk.
\<close>

section \<open>Layout of a block\<close>

lemma journal_consts:
  "RECORDS_PER_BLOCK = 31" "RECORDS_PER_SEGMENT = 31744" "MAX_BLOCKS = 16384" "MAX_RECORDS = 507904"
  "BLOCK_CRYPT_LEN = 4000" "CURRENT_OFFSET = 4032" "JOURNAL_BLOCK_SIZE = 4096" "NR_JOURNAL_SEGMENT = 16"
  "RECORDS_OFFSET = 64" "CRYPTO_INFO_SIZE = 32" "JOURNAL_RECORD_SIZE = 128"
  by (simp_all add: RECORDS_PER_BLOCK_def RECORDS_PER_SEGMENT_def MAX_BLOCKS_def MAX_RECORDS_def BLOCK_CRYPT_LEN_def
      CURRENT_OFFSET_def JOURNAL_BLOCK_SIZE_def CRYPTO_INFO_SIZE_def JOURNAL_RECORD_SIZE_def NR_JOURNAL_SEGMENT_def
      RECORDS_OFFSET_def BLOCKS_PER_SEGMENT_def)

definition record_ok :: "journal_record \<Rightarrow> bool" where
  "record_ok r \<longleftrightarrow> length (jrec_union r) = RECORD_UNION_SIZE"

text \<open>Record \<open>i\<close> of the block is \<open>r\<close>, as far as the type of \<open>r\<close> gives a meaning to its bytes.\<close>

definition record_is :: "journal_record \<Rightarrow> byte list \<Rightarrow> bool" where
  "record_is r bs \<longleftrightarrow> take 4 bs = le_bytes (jrec_type r) \<and>
     take (member_size (record_type_of (jrec_type r))) (drop 8 bs) =
     take (member_size (record_type_of (jrec_type r))) (jrec_union r)"

definition block_has :: "byte list \<Rightarrow> nat \<Rightarrow> journal_record \<Rightarrow> bool" where
  "block_has blk i r \<longleftrightarrow> record_is r (block_record blk i)"

lemma member_size_le: "member_size t \<le> 80"
  by (cases t rule: member_size.cases) simp_all

text \<open>The bytes of the records that are encrypted; \<open>agree\<close> compares two blocks there.\<close>

definition agree :: "byte list \<Rightarrow> byte list \<Rightarrow> bool" where
  "agree a b \<longleftrightarrow> take 3936 (drop 64 a) = take 3936 (drop 64 b)"

lemma agree_slice:
  assumes "agree a b" and "64 \<le> off" and "off + n \<le> 4000"
  shows "take n (drop off a) = take n (drop off b)"
proof -
  have "take n (drop off x) = take n (drop (off - 64) (take 3936 (drop 64 x)))" for x :: "byte list"
    using assms(2,3) by (simp add: drop_take min_absorb1)
  then show ?thesis using assms(1) by (simp add: agree_def)
qed

lemma agree_sym: "agree a b \<Longrightarrow> agree b a" and agree_trans: "agree a b \<Longrightarrow> agree b c \<Longrightarrow> agree a c"
  by (simp_all add: agree_def)

lemma agree_overwrite:
  assumes "off + length e \<le> length d" and "off + length e \<le> 64 \<or> 4000 \<le> off"
  shows "agree (overwrite off e d) d"
  unfolding agree_def by (rule slice_overwrite_apart) (use assms in auto)

lemma block_has_slices:
  "block_has blk i r \<longleftrightarrow> take 4 (drop (record_offset i) blk) = le_bytes (jrec_type r) \<and>
     take (member_size (record_type_of (jrec_type r))) (drop (record_offset i + 8) blk) =
     take (member_size (record_type_of (jrec_type r))) (jrec_union r)"
  using member_size_le [of "record_type_of (jrec_type r)"]
  by (simp add: block_has_def record_is_def block_record_def journal_consts drop_take min_absorb1 ac_simps)

lemma block_has_agree: "agree a b \<Longrightarrow> i < RECORDS_PER_BLOCK \<Longrightarrow> block_has a i r \<longleftrightarrow> block_has b i r"
proof -
  assume a: "agree a b" and "i < RECORDS_PER_BLOCK"
  then have i: "64 \<le> record_offset i" "record_offset i + 88 \<le> 4000" by (simp_all add: record_offset_def journal_consts)
  note m = member_size_le [of "record_type_of (jrec_type r)"]
  have "take 4 (drop (record_offset i) a) = take 4 (drop (record_offset i) b)"
    "take (member_size (record_type_of (jrec_type r))) (drop (record_offset i + 8) a) =
     take (member_size (record_type_of (jrec_type r))) (drop (record_offset i + 8) b)"
    using i m by (auto intro!: agree_slice [OF a])
  then show ?thesis by (simp add: block_has_slices)
qed

lemma le_bytes_32: "length (le_bytes (w :: 32 word)) = 4"
  by (simp add: le_bytes_def)

lemma length_store_record:
  assumes "length blk = 4096" and "record_ok r" and "i < RECORDS_PER_BLOCK"
  shows "length (store_record i r blk) = 4096"
proof -
  have "record_offset i + 88 \<le> 4096" using assms(3) by (simp add: record_offset_def journal_consts)
  then show ?thesis using assms(1,2) member_size_le [of "record_type_of (jrec_type r)"]
    by (simp add: store_record_def length_overwrite le_bytes_32 record_ok_def RECORD_UNION_SIZE_def)
qed

lemma store_record_has:
  assumes len: "length blk = 4096" and r: "record_ok r" and i: "i < RECORDS_PER_BLOCK"
  shows "block_has (store_record i r blk) i r"
    and "k < RECORDS_PER_BLOCK \<Longrightarrow> k \<noteq> i \<Longrightarrow> block_has (store_record i r blk) k q \<longleftrightarrow> block_has blk k q"
proof -
  let ?n = "member_size (record_type_of (jrec_type r))"
  let ?m = "take ?n (jrec_union r)" and ?b = "overwrite (record_offset i) (le_bytes (jrec_type r)) blk"
  have o: "record_offset i + 128 \<le> 4096" using i by (simp add: record_offset_def journal_consts)
  have l: "length ?m = ?n" "length ?b = 4096" "?n \<le> 80"
    using r len o member_size_le by (simp_all add: record_ok_def RECORD_UNION_SIZE_def length_overwrite le_bytes_32 min_absorb2)
  have fit: "record_offset i + 8 + length ?m \<le> length ?b" "record_offset i + length (le_bytes (jrec_type r)) \<le> length blk"
    using l o len by (simp_all add: le_bytes_32)
  have "take 4 (drop (record_offset i) (store_record i r blk)) = take 4 (drop (record_offset i) ?b)"
    unfolding store_record_def by (rule slice_overwrite_apart [OF fit(1)]) simp
  also have "\<dots> = le_bytes (jrec_type r)" using slice_overwrite_same [OF fit(2)] by (simp only: le_bytes_32)
  finally show "block_has (store_record i r blk) i r"
    using slice_overwrite_same [OF fit(1)] l(1) by (simp add: block_has_slices store_record_def)
  show "block_has (store_record i r blk) k q \<longleftrightarrow> block_has blk k q" if k: "k < RECORDS_PER_BLOCK" "k \<noteq> i"
  proof -
    have apart: "take n (drop off (store_record i r blk)) = take n (drop off blk)"
      if "off + n \<le> record_offset i \<or> record_offset i + 88 \<le> off" for n off
    proof -
      have "take n (drop off (store_record i r blk)) = take n (drop off ?b)"
        unfolding store_record_def by (rule slice_overwrite_apart [OF fit(1)]) (use that l in auto)
      also have "\<dots> = take n (drop off blk)" by (rule slice_overwrite_apart [OF fit(2)]) (use that in \<open>auto simp: le_bytes_32\<close>)
      finally show ?thesis .
    qed
    have "record_offset k + 128 \<le> record_offset i \<or> record_offset i + 128 \<le> record_offset k"
      using k(2) by (cases "k < i") (auto simp: record_offset_def journal_consts)
    then show ?thesis unfolding block_has_slices using member_size_le [of "record_type_of (jrec_type q)"]
      by (subst (1 2) apart) auto
  qed
qed

section \<open>What is relied on\<close>

definition gcm_sizes :: "gcm_api \<Rightarrow> bool" where
  "gcm_sizes api \<longleftrightarrow>
     (\<forall>key iv ad data out mac. ga_encrypt api key iv ad data = Inr (out, mac) \<longrightarrow> length mac = AES_GCM_AUTH_SIZE) \<and>
     (\<forall>key iv ad data mac out. ga_decrypt api key iv ad data mac = Inr out \<longrightarrow> length out = length data)"

definition ecb_works :: "('d, 'e, 's) journal_env \<Rightarrow> bool" where
  "ecb_works env \<longleftrightarrow> jn_ecb_alloc env = None \<and> jn_ecb_request env \<and> (\<forall>key. jn_ecb_setkey env key = None) \<and>
     (\<forall>key data. \<exists>out. jn_ecb env key data = Inr out)"

definition sb_writes :: "('e, 's) sb_env \<Rightarrow> bool" where
  "sb_writes env \<longleftrightarrow> sb_env_ok env \<and> (\<forall>sb. \<exists>d. se_enc env sb = Inr d) \<and> (\<forall>s. \<exists>d s'. se_rd env s = (Inr d, s')) \<and>
     (\<forall>s d s'. se_rd env s = (Inr d, s') \<longrightarrow> (\<exists>s''. se_rd env s' = (Inr d, s'')))"

definition journal_env_ok :: "('d, 'e, 's) journal_env \<Rightarrow> ('d \<Rightarrow> nat \<Rightarrow> byte list) \<Rightarrow> bool" where
  "journal_env_ok env sector \<longleftrightarrow> io_ok (jn_io env) sector \<and> gcm_works (jn_cipher env) \<and> gcm_sizes (jn_cipher env) \<and>
     ecb_works env \<and> sb_writes (jn_sb env) \<and> jn_cipher_create env \<and>
     (\<forall>n. AES_GCM_IV_SIZE \<le> length (jn_random env n) \<and> JOURNAL_BLOCK_SIZE \<le> length (jn_kmalloc env n))"

lemma journal_env_okD:
  assumes "journal_env_ok env sector"
  shows "io_ok (jn_io env) sector" "gcm_works (jn_cipher env)" "gcm_sizes (jn_cipher env)" "ecb_works env" "sb_writes (jn_sb env)"
    "jn_cipher_create env" "AES_GCM_IV_SIZE \<le> length (jn_random env n)" "JOURNAL_BLOCK_SIZE \<le> length (jn_kmalloc env n)"
  using assms by (simp_all add: journal_env_ok_def)

lemma derive_key_ok:
  assumes "ecb_works env"
  obtains key where "journal_derive_key env mk n = Inr key"
  using assms unfolding ecb_works_def journal_derive_key_def by (simp add: Let_def) metis

section \<open>Sealing and opening\<close>

text \<open>What \<^verbatim>\<open>journal_decrypt_block\<close> makes of the bytes of a block.\<close>

definition opened :: "('d, 'e, 's) journal_env \<Rightarrow> nat \<Rightarrow> byte list \<Rightarrow> byte list" where
  "opened env blk_num bs =
     (case journal_derive_key env (jn_root_key env) (of_nat blk_num) of
        Inl _ \<Rightarrow> bs
      | Inr key \<Rightarrow>
          (case aes_gcm_cipher_decrypt (jn_cipher env) (take BLOCK_CRYPT_LEN bs) key (Some (info_iv (current_blk bs)))
                  (info_mac (current_blk bs)) (of_nat blk_num) (take BLOCK_CRYPT_LEN bs) of
             None \<Rightarrow> bs
           | Some (_, out) \<Rightarrow> overwrite 0 out bs))"

lemma length_opened:
  assumes "gcm_sizes (jn_cipher env)" and "length bs = 4096"
  shows "length (opened env b bs) = 4096"
proof -
  let ?b = "take BLOCK_CRYPT_LEN bs"
  have b: "length ?b = 4000" using assms(2) by (simp add: journal_consts)
  have l: "length out = 4000" if "aes_gcm_cipher_decrypt (jn_cipher env) ?b key iv mac n ?b = Some (r, out)" for key iv mac n r out
  proof -
    have "ga_decrypt (jn_cipher env) key (gcm_iv iv) (gcm_ad n (gcm_iv iv)) ?b mac = Inr out \<or> out = ?b"
      using that unfolding aes_gcm_cipher_decrypt_def Let_def by (simp split: if_splits option.splits sum.splits)
    then have "length out = length ?b" using assms(1) unfolding gcm_sizes_def by blast
    then show ?thesis by (simp only: b)
  qed
  show ?thesis
  proof (cases "journal_derive_key env (jn_root_key env) (of_nat b)")
    case (Inr key)
    let ?r = "aes_gcm_cipher_decrypt (jn_cipher env) ?b key (Some (info_iv (current_blk bs))) (info_mac (current_blk bs)) (of_nat b) ?b"
    show ?thesis
    proof (cases ?r)
      case (Some p)
      then obtain r out where p: "?r = Some (r, out)" by (cases p) simp
      show ?thesis using l [OF p] assms(2) by (simp add: opened_def Inr p length_overwrite)
    qed (simp add: opened_def Inr assms(2))
  qed (simp add: opened_def assms(2))
qed

lemma info_fields:
  assumes "length mac = 16" and "length iv = 12" and "length blk = 4096"
  defines "blk' \<equiv> overwrite 4032 mac (overwrite 4048 iv blk)"
  shows "info_mac (current_blk blk') = mac" and "info_iv (current_blk blk') = iv" and "length blk' = 4096"
proof -
  let ?b = "overwrite 4048 iv blk"
  have l: "length ?b = 4096" using assms by (simp add: length_overwrite)
  have "take 16 (drop 4032 blk') = mac" using slice_overwrite_same [of 4032 mac ?b] assms l by simp
  then show "info_mac (current_blk blk') = mac" by (simp add: info_mac_def current_blk_def journal_consts AES_GCM_AUTH_SIZE_def)
  have "take 12 (drop 4048 blk') = take 12 (drop 4048 ?b)"
    unfolding blk'_def by (rule slice_overwrite_apart) (use assms l in auto)
  also have "\<dots> = iv" using slice_overwrite_same [of 4048 iv blk] assms by simp
  finally show "info_iv (current_blk blk') = iv"
    by (simp add: info_iv_def current_blk_def journal_consts AES_GCM_AUTH_SIZE_def AES_GCM_IV_SIZE_def drop_take)
  show "length blk' = 4096" using assms l by (simp add: length_overwrite)
qed

lemma seal_ok:
  assumes env: "journal_env_ok env sector" and cur: "length (jr_blocks j ! cur) = 4096" and buf: "length buffer = 4096"
  obtains buffer1 c1 p n where
    "journal_seal env b cur buffer j = Some (buffer1, set_block cur c1 (j\<lparr>jr_draws := n, jr_previous_blk := p\<rparr>))"
    and "agree c1 (jr_blocks j ! cur)" and "agree (opened env b buffer1) (jr_blocks j ! cur)"
    and "length c1 = 4096" and "length buffer1 = 4096" and "p = jr_previous_blk j \<or> length p = CRYPTO_INFO_SIZE"
proof -
  note ok = journal_env_okD [OF env]
  let ?api = "jn_cipher env" and ?c = "jr_blocks j ! cur"
  obtain key where key: "journal_derive_key env (jn_root_key env) (of_nat b) = Inr key" by (rule derive_key_ok [OF ok(4)])
  define iv where "iv = take AES_GCM_IV_SIZE (jn_random env (jr_draws j))"
  have iv: "length iv = 12" using ok(7) by (simp add: iv_def AES_GCM_IV_SIZE_def)
  define c0 where "c0 = overwrite 4048 iv ?c"
  have c0: "length c0 = 4096" "agree c0 ?c" using cur iv by (simp_all add: c0_def length_overwrite agree_overwrite)
  let ?ad = "gcm_ad (of_nat b) (gcm_iv (Some iv))"
  obtain out mac where enc: "ga_encrypt ?api key iv ?ad (take 4000 c0) = Inr (out, mac)" "length out = 4000"
    "ga_decrypt ?api key iv ?ad out mac = Inr (take 4000 c0)"
  proof -
    obtain out mac where "ga_encrypt ?api key iv ?ad (take 4000 c0) = Inr (out, mac)" "length out = length (take 4000 c0)"
      "ga_decrypt ?api key iv ?ad out mac = Inr (take 4000 c0)" using ok(2) unfolding gcm_works_def by blast
    then show thesis using c0(1) by (intro that) simp_all
  qed
  have w: "ga_lock ?api = None" "ga_request ?api" "\<And>k. ga_setkey ?api k = None" using ok(2) by (simp_all add: gcm_works_def)
  have mac: "length mac = 16" using ok(3) enc(1) by (simp add: gcm_sizes_def AES_GCM_AUTH_SIZE_def)
  define c1 where "c1 = overwrite 4032 mac c0"
  note f = info_fields [OF mac iv cur, folded c0_def, folded c1_def]
  define buffer1 where "buffer1 = overwrite 4032 (current_blk c1) (overwrite 0 out buffer)"
  have e: "aes_gcm_cipher_encrypt ?api (take 4000 c0) key (Some iv) m (of_nat b) o' = Some (Inr (), mac, out)" for m o'
    using enc w by (simp add: aes_gcm_cipher_encrypt_def gcm_iv_def Let_def)
  have ob: "length (overwrite 0 out buffer) = 4096" using buf enc(2) by (simp add: length_overwrite)
  have cl: "length (current_blk c1) = 32" using f(3) by (simp add: current_blk_def journal_consts)
  have b1: "length buffer1 = 4096" using ob cl by (simp add: buffer1_def length_overwrite)
  have "take 32 (drop 4032 buffer1) = current_blk c1"
    unfolding buffer1_def using slice_overwrite_same [of 4032 "current_blk c1" "overwrite 0 out buffer"] ob cl by simp
  then have cb: "current_blk buffer1 = current_blk c1" by (simp add: current_blk_def journal_consts)
  have "take 4000 (drop 0 buffer1) = take 4000 (drop 0 (overwrite 0 out buffer))"
    unfolding buffer1_def by (rule slice_overwrite_apart) (use ob cl in auto)
  also have "\<dots> = out" using slice_overwrite_same [of 0 out buffer] buf enc(2) by simp
  finally have body: "take 4000 buffer1 = out" by simp
  have "aes_gcm_cipher_decrypt ?api out key (Some iv) mac (of_nat b) o' = Some (Inr (), take 4000 c0)" for o'
    using enc w by (simp add: aes_gcm_cipher_decrypt_def gcm_iv_def Let_def)
  then have op: "opened env b buffer1 = overwrite 0 (take 4000 c0) buffer1"
    by (simp add: opened_def key body cb f(1,2) journal_consts)
  have "agree (opened env b buffer1) c0"
    unfolding op agree_def using c0(1) b1 by (simp add: overwrite_def drop_take)
  moreover have "agree c1 c0" unfolding c1_def using mac c0(1) by (intro agree_overwrite) simp_all
  moreover define p where "p = (if b mod BLOCKS_PER_SEGMENT = BLOCKS_PER_SEGMENT - 1 then current_blk c1 else jr_previous_blk j)"
  have "journal_seal env b cur buffer j = Some (buffer1, set_block cur c1 (j\<lparr>jr_draws := jr_draws j + 1, jr_previous_blk := p\<rparr>))"
    unfolding journal_seal_def key
    by (simp add: Let_def journal_consts AES_GCM_AUTH_SIZE_def iv_def [symmetric] c0_def [symmetric] e c1_def [symmetric]
        buffer1_def [symmetric] set_block_def p_def)
  moreover have "p = jr_previous_blk j \<or> length p = CRYPTO_INFO_SIZE" using cl by (simp add: p_def journal_consts)
  ultimately show thesis using that b1 f(3) agree_trans [OF _ c0(2)] by blast
qed

end
