(* ===== verification/Journal_Ops.thy ===== *)
theory Journal_Ops
  imports Journal_Blocks
begin

text \<open>
  What the operations of the journal do to the buffer and to the disk: a synchronisation writes blocks
  that open to the buffered ones, a load gets the opened blocks from the disk.
\<close>

lemma default_jops_Suc [simp]:
  "jo_load (default_jops env (Suc n)) = journal_buffer_load env (default_jops env n)"
  "jo_recover (default_jops env (Suc n)) = journal_recover (default_jops env n)"
  "jo_synchronize (default_jops env (Suc n)) = journal_synchronize env (default_jops env n)"
  "jo_add_record (default_jops env (Suc n)) = journal_add_record (default_jops env n)"
  "jo_get_block (default_jops env (Suc n)) = journal_get_block (default_jops env n)"
  "jo_encrypt_block (default_jops env (Suc n)) = journal_encrypt_block env (default_jops env n)"
  "jo_decrypt_block (default_jops env (Suc n)) = journal_decrypt_block env (default_jops env n)"
  "jo_should_sync (default_jops env m) = journal_should_sync"
  "jo_should_recover (default_jops env m) = journal_should_recover"
  by (simp_all add: Let_def) (cases m; simp add: Let_def)+

declare default_jops.simps [simp del]

lemma get_block_same:
  "b div BLOCKS_PER_SEGMENT = jr_segno j \<Longrightarrow> journal_get_block jops b j = Some (b mod BLOCKS_PER_SEGMENT, j)"
  by (simp add: journal_get_block_def)

definition buffers_ok :: "('d, 's) journal_region \<Rightarrow> bool" where
  "buffers_ok j \<longleftrightarrow> length (jr_blocks j) = BLOCKS_PER_SEGMENT \<and> (\<forall>i < BLOCKS_PER_SEGMENT. length (jr_blocks j ! i) = 4096) \<and>
     length (jr_previous_blk j) = CRYPTO_INFO_SIZE"

lemma set_block_simps [simp]:
  "jr_blocks (set_block i blk j) = (jr_blocks j)[i := blk]" "jr_segno (set_block i blk j) = jr_segno j"
  "jr_previous_blk (set_block i blk j) = jr_previous_blk j" "jr_superblock (set_block i blk j) = jr_superblock j"
  "jr_record_start (set_block i blk j) = jr_record_start j" "jr_record_end (set_block i blk j) = jr_record_end j"
  "jr_last_sync_record (set_block i blk j) = jr_last_sync_record j" "jr_dev (set_block i blk j) = jr_dev j"
  "jr_sb_dev (set_block i blk j) = jr_sb_dev j" "jr_recovered (set_block i blk j) = jr_recovered j"
  "jr_status (set_block i blk j) = jr_status j" "jr_draws (set_block i blk j) = jr_draws j"
  by (simp_all add: set_block_def)

section \<open>One block\<close>

lemma buffers_ok_set: "buffers_ok j \<Longrightarrow> length blk = 4096 \<Longrightarrow> buffers_ok (set_block i blk j)"
  unfolding buffers_ok_def by (auto) (metis nth_list_update_eq nth_list_update_neq)

lemma encrypt_block_ok:
  assumes env: "journal_env_ok env sector" and j: "buffers_ok j" and seg: "b div BLOCKS_PER_SEGMENT = jr_segno j"
    and buf: "length buffer = 4096"
  obtains buffer1 c1 p n where
    "journal_encrypt_block env (default_jops env (Suc m)) b buffer j =
      Some (buffer1, set_block (b mod BLOCKS_PER_SEGMENT) c1 (j\<lparr>jr_draws := n, jr_previous_blk := p\<rparr>))"
    and "agree c1 (jr_blocks j ! (b mod BLOCKS_PER_SEGMENT))" and "agree (opened env b buffer1) (jr_blocks j ! (b mod BLOCKS_PER_SEGMENT))"
    and "length c1 = 4096" and "length buffer1 = 4096" and "length p = CRYPTO_INFO_SIZE"
proof -
  let ?o = "b mod BLOCKS_PER_SEGMENT" and ?jops = "default_jops env (Suc m)"
  have o: "?o < BLOCKS_PER_SEGMENT" by simp
  define prev where "prev = (if ?o = 0 then jr_previous_blk j else current_blk (jr_blocks j ! ((b - 1) mod BLOCKS_PER_SEGMENT)))"
  have prev: "length prev = 32" using j by (simp add: prev_def buffers_ok_def current_blk_def journal_consts)
  have "(b - 1) div BLOCKS_PER_SEGMENT = jr_segno j" if "?o \<noteq> 0"
    using seg that by (metis One_nat_def Suc_pred div_Suc mod_less_eq_dividend not_gr0 le_zero_eq mod_Suc)
  then have "jo_get_block ?jops (b - 1) j = Some ((b - 1) mod BLOCKS_PER_SEGMENT, j)" if "?o \<noteq> 0"
    using that by (simp add: get_block_same)
  moreover have "jo_get_block ?jops b j = Some (?o, j)" using seg by (simp add: get_block_same)
  ultimately have enc: "journal_encrypt_block env ?jops b buffer j =
      journal_seal env b ?o buffer (set_block ?o (overwrite 0 prev (jr_blocks j ! ?o)) j)"
    by (simp add: journal_encrypt_block_def prev_def)
  let ?c = "overwrite 0 prev (jr_blocks j ! ?o)"
  have c: "length ?c = 4096" "agree ?c (jr_blocks j ! ?o)" "?o < length (jr_blocks j)"
    using j o prev by (simp_all add: buffers_ok_def length_overwrite agree_overwrite)
  have cb: "jr_blocks (set_block ?o ?c j) ! ?o = ?c" using c(3) by simp
  obtain buffer1 c1 p n where s:
    "journal_seal env b ?o buffer (set_block ?o ?c j) = Some (buffer1, set_block ?o c1 ((set_block ?o ?c j)\<lparr>jr_draws := n, jr_previous_blk := p\<rparr>))"
    "agree c1 ?c" "agree (opened env b buffer1) ?c" "length c1 = 4096" "length buffer1 = 4096"
    "p = jr_previous_blk (set_block ?o ?c j) \<or> length p = CRYPTO_INFO_SIZE"
    by (rule seal_ok [OF env _ buf, of "set_block ?o ?c j" ?o b, unfolded cb, OF c(1)])
  show thesis
  proof (rule that)
    show "journal_encrypt_block env ?jops b buffer j = Some (buffer1, set_block ?o c1 (j\<lparr>jr_draws := n, jr_previous_blk := p\<rparr>))"
      unfolding enc s(1) by (simp add: set_block_def)
    show "length p = CRYPTO_INFO_SIZE" using s(6) j by (auto simp: buffers_ok_def)
  qed (use s agree_trans [OF _ c(2)] in auto)
qed

lemma decrypt_block_ok:
  assumes env: "journal_env_ok env sector" and seg: "b div BLOCKS_PER_SEGMENT = jr_segno j"
  shows "journal_decrypt_block env (default_jops env (Suc m)) b j =
    Some (set_block (b mod BLOCKS_PER_SEGMENT) (opened env b (jr_blocks j ! (b mod BLOCKS_PER_SEGMENT))) j)"
proof -
  let ?c = "jr_blocks j ! (b mod BLOCKS_PER_SEGMENT)"
  obtain key where key: "journal_derive_key env (jn_root_key env) (of_nat b) = Inr key"
    by (rule derive_key_ok [OF journal_env_okD(4) [OF env]])
  have "ga_lock (jn_cipher env) = None" using journal_env_okD(2) [OF env] by (simp add: gcm_works_def)
  then have "aes_gcm_cipher_decrypt (jn_cipher env) x k iv mac n out \<noteq> None" for x k iv mac n out
    by (simp add: aes_gcm_cipher_decrypt_def Let_def split: option.splits sum.splits)
  then obtain r out where "aes_gcm_cipher_decrypt (jn_cipher env) (take BLOCK_CRYPT_LEN ?c) key (Some (info_iv (current_blk ?c)))
      (info_mac (current_blk ?c)) (of_nat b) (take BLOCK_CRYPT_LEN ?c) = Some (r, out)" by fast
  then show ?thesis using seg by (simp add: journal_decrypt_block_def key get_block_same opened_def Let_def)
qed

section \<open>Runs of blocks\<close>

lemma agree_refl [simp]: "agree a a"
  by (simp add: agree_def)

lemma sync_loop_ok:
  assumes env: "journal_env_ok env sector" and "distinct is" and "buffers_ok j"
    and "\<forall>i \<in> set is. (bs + i) div BLOCKS_PER_SEGMENT = jr_segno j"
  shows "\<exists>j' B d n p. sync_loop env (default_jops env (Suc (Suc m))) bs is j = Some j' \<and>
    j' = j\<lparr>jr_blocks := B, jr_dev := d, jr_draws := n, jr_previous_blk := p\<rparr> \<and> buffers_ok j' \<and>
    (\<forall>x < BLOCKS_PER_SEGMENT. agree (B ! x) (jr_blocks j ! x)) \<and>
    (\<forall>i \<in> set is. agree (opened env (bs + i) (disk_block sector d (sb_journal_region_start (jr_superblock j) + bs + i)))
       (jr_blocks j ! ((bs + i) mod BLOCKS_PER_SEGMENT))) \<and>
    (\<forall>x. (\<forall>i \<in> set is. x \<noteq> sb_journal_region_start (jr_superblock j) + bs + i) \<longrightarrow>
       disk_block sector d x = disk_block sector (jr_dev j) x)"
  using assms(2-)
proof (induction "is" arbitrary: j)
  case Nil
  then show ?case
    by (intro exI [of _ j] exI [of _ "jr_blocks j"] exI [of _ "jr_dev j"] exI [of _ "jr_draws j"] exI [of _ "jr_previous_blk j"]) simp
next
  case (Cons i "is")
  let ?jops = "default_jops env (Suc (Suc m))" and ?rs = "sb_journal_region_start (jr_superblock j)"
  let ?o = "(bs + i) mod BLOCKS_PER_SEGMENT"
  define buffer where "buffer = take JOURNAL_BLOCK_SIZE (jn_kmalloc env (jr_draws j))"
  have buf: "length buffer = 4096" using journal_env_okD(8) [OF env] by (simp add: buffer_def journal_consts)
  have seg: "(bs + i) div BLOCKS_PER_SEGMENT = jr_segno j" using Cons.prems(3) by simp
  obtain buffer1 c1 p n where e: "journal_encrypt_block env (default_jops env (Suc m)) (bs + i) buffer j =
      Some (buffer1, set_block ?o c1 (j\<lparr>jr_draws := n, jr_previous_blk := p\<rparr>))"
    "agree c1 (jr_blocks j ! ?o)" "agree (opened env (bs + i) buffer1) (jr_blocks j ! ?o)"
    "length c1 = 4096" "length buffer1 = 4096" "length p = CRYPTO_INFO_SIZE"
    by (rule encrypt_block_ok [OF env Cons.prems(2) seg buf])
  define j1 where "j1 = (set_block ?o c1 (j\<lparr>jr_draws := n, jr_previous_blk := p\<rparr>))\<lparr>jr_dev := journal_write_block env (?rs + bs + i) buffer1 (jr_dev j)\<rparr>"
  have disk: "disk_block sector (jr_dev j1) x = (if x = ?rs + bs + i then buffer1 else disk_block sector (jr_dev j) x)" for x
    using disk_block_write [OF journal_env_okD(1) [OF env], of buffer1 "jr_dev j" "?rs + bs + i" x] e(5)
    by (simp add: j1_def journal_write_block_def SECTOR_SIZE_def)
  have j1: "buffers_ok j1" using buffers_ok_set [of "j\<lparr>jr_draws := n, jr_previous_blk := p\<rparr>" c1 ?o] Cons.prems(2) e(4,6)
    by (simp add: j1_def buffers_ok_def)
  have old: "agree (jr_blocks j1 ! x) (jr_blocks j ! x)" if "x < BLOCKS_PER_SEGMENT" for x
    using e(2) that Cons.prems(2) by (cases "x = ?o") (simp_all add: j1_def buffers_ok_def)
  from Cons.IH [of j1] j1 Cons.prems obtain j' B d n' p' where r:
    "sync_loop env ?jops bs is j1 = Some j'" "j' = j1\<lparr>jr_blocks := B, jr_dev := d, jr_draws := n', jr_previous_blk := p'\<rparr>" "buffers_ok j'"
    "\<forall>x < BLOCKS_PER_SEGMENT. agree (B ! x) (jr_blocks j1 ! x)"
    "\<forall>k \<in> set is. agree (opened env (bs + k) (disk_block sector d (?rs + bs + k))) (jr_blocks j1 ! ((bs + k) mod BLOCKS_PER_SEGMENT))"
    "\<forall>x. (\<forall>k \<in> set is. x \<noteq> ?rs + bs + k) \<longrightarrow> disk_block sector d x = disk_block sector (jr_dev j1) x"
    by (auto simp: j1_def)
  have "sync_loop env ?jops bs (i # is) j = Some j'"
    using r(1) by (simp add: e(1) buffer_def [symmetric] Let_def j1_def)
  moreover have "j' = j\<lparr>jr_blocks := B, jr_dev := d, jr_draws := n', jr_previous_blk := p'\<rparr>" using r(2) by (simp add: j1_def set_block_def)
  moreover have "\<forall>x < BLOCKS_PER_SEGMENT. agree (B ! x) (jr_blocks j ! x)" using r(4) old agree_trans by blast
  moreover have "agree (opened env (bs + k) (disk_block sector d (?rs + bs + k))) (jr_blocks j ! ((bs + k) mod BLOCKS_PER_SEGMENT))"
    if "k \<in> set (i # is)" for k
  proof (cases "k = i")
    case True
    have "\<forall>k \<in> set is. ?rs + bs + i \<noteq> ?rs + bs + k" using Cons.prems(1) by auto
    then have "disk_block sector d (?rs + bs + k) = buffer1" using r(6) disk True by auto
    then show ?thesis using e(3) True by simp
  next
    case False
    then have k: "k \<in> set is" using that by simp
    show ?thesis by (rule agree_trans [OF r(5) [rule_format, OF k] old]) simp
  qed
  moreover have "\<forall>x. (\<forall>k \<in> set (i # is). x \<noteq> ?rs + bs + k) \<longrightarrow> disk_block sector d x = disk_block sector (jr_dev j) x"
    using r(6) by (simp add: disk)
  ultimately show ?case using r(3) by blast
qed

lemma load_loop_ok:
  assumes "journal_env_ok env sector"
  shows "load_loop env bs off is j = j\<lparr>jr_blocks := foldl (\<lambda>B i. B[off + i :=
    disk_block sector (jr_dev j) (sb_journal_region_start (jr_superblock j) + bs + i)]) (jr_blocks j) is\<rparr>"
  using journal_env_okD(1) [OF assms]
  by (induction "is" arbitrary: j) (simp_all add: Let_def set_block_def journal_read_block_def disk_block_read)

lemma decrypt_loop_ok:
  assumes "journal_env_ok env sector" and "\<forall>i \<in> set is. (bs + i) div BLOCKS_PER_SEGMENT = jr_segno j"
  shows "decrypt_loop (default_jops env (Suc (Suc m))) bs is j = Some (j\<lparr>jr_blocks := foldl (\<lambda>B i. B[(bs + i) mod BLOCKS_PER_SEGMENT :=
    opened env (bs + i) (B ! ((bs + i) mod BLOCKS_PER_SEGMENT))]) (jr_blocks j) is\<rparr>)"
  using assms(2)
  by (induction "is" arbitrary: j) (simp_all add: decrypt_block_ok [OF assms(1)] set_block_def)

text \<open>Writing a run of elements of a list, each from its old value.\<close>

lemma foldl_update_run:
  assumes "off + n \<le> length B"
  shows "length (foldl (\<lambda>B i. B[off + i := f i (B ! (off + i))]) B [0..<n]) = length B"
    and "x < length B \<Longrightarrow> foldl (\<lambda>B i. B[off + i := f i (B ! (off + i))]) B [0..<n] ! x =
      (if off \<le> x \<and> x < off + n then f (x - off) (B ! x) else B ! x)"
proof -
  have "length (foldl (\<lambda>B i. B[off + i := f i (B ! (off + i))]) B [0..<n]) = length B \<and>
    (\<forall>x < length B. foldl (\<lambda>B i. B[off + i := f i (B ! (off + i))]) B [0..<n] ! x =
      (if off \<le> x \<and> x < off + n then f (x - off) (B ! x) else B ! x))"
    using assms by (induction n) (auto simp: nth_list_update)
  then show "length (foldl (\<lambda>B i. B[off + i := f i (B ! (off + i))]) B [0..<n]) = length B"
    "x < length B \<Longrightarrow> foldl (\<lambda>B i. B[off + i := f i (B ! (off + i))]) B [0..<n] ! x =
      (if off \<le> x \<and> x < off + n then f (x - off) (B ! x) else B ! x)" by blast+
qed

lemma segment_run:
  assumes "b mod BLOCKS_PER_SEGMENT + i < BLOCKS_PER_SEGMENT"
  shows "(b + i) div BLOCKS_PER_SEGMENT = b div BLOCKS_PER_SEGMENT"
    and "(b + i) mod BLOCKS_PER_SEGMENT = b mod BLOCKS_PER_SEGMENT + i"
  using assms div_add1_eq [of b i BLOCKS_PER_SEGMENT] mod_add_eq [of b BLOCKS_PER_SEGMENT i] by simp_all

text \<open>Loading and opening a run of blocks of a segment.\<close>

lemma load_run:
  assumes env: "journal_env_ok env sector" and j: "buffers_ok j" and run: "bs mod BLOCKS_PER_SEGMENT + n \<le> BLOCKS_PER_SEGMENT"
    and seg: "bs div BLOCKS_PER_SEGMENT = jr_segno j"
  shows "\<exists>B. decrypt_loop (default_jops env (Suc (Suc m))) bs [0..<n] (load_loop env bs (bs mod BLOCKS_PER_SEGMENT) [0..<n] j) =
      Some (j\<lparr>jr_blocks := B\<rparr>) \<and> buffers_ok (j\<lparr>jr_blocks := B\<rparr>) \<and>
    (\<forall>i < n. B ! (bs mod BLOCKS_PER_SEGMENT + i) =
       opened env (bs + i) (disk_block sector (jr_dev j) (sb_journal_region_start (jr_superblock j) + bs + i)))"
proof -
  let ?off = "bs mod BLOCKS_PER_SEGMENT" and ?raw = "\<lambda>i. disk_block sector (jr_dev j) (sb_journal_region_start (jr_superblock j) + bs + i)"
  define B1 where "B1 = foldl (\<lambda>B i. B[?off + i := ?raw i]) (jr_blocks j) [0..<n]"
  define B2 where "B2 = foldl (\<lambda>B i. B[?off + i := opened env (bs + i) (B ! (?off + i))]) B1 [0..<n]"
  have lj: "length (jr_blocks j) = BLOCKS_PER_SEGMENT" using j by (simp add: buffers_ok_def)
  note one = foldl_update_run [where off = ?off and n = n and B = "jr_blocks j" and f = "\<lambda>i _. ?raw i", folded B1_def, unfolded lj, OF run]
  note two = foldl_update_run [where off = ?off and n = n and B = B1 and f = "\<lambda>i. opened env (bs + i)", folded B2_def, unfolded one(1), OF run]
  have in_run: "(bs + i) div BLOCKS_PER_SEGMENT = jr_segno j" "(bs + i) mod BLOCKS_PER_SEGMENT = ?off + i" if "i < n" for i
    using segment_run [of bs i] run seg that by simp_all
  have "decrypt_loop (default_jops env (Suc (Suc m))) bs [0..<n] (load_loop env bs ?off [0..<n] j) =
      Some (j\<lparr>jr_blocks := foldl (\<lambda>B i. B[(bs + i) mod BLOCKS_PER_SEGMENT := opened env (bs + i) (B ! ((bs + i) mod BLOCKS_PER_SEGMENT))]) B1 [0..<n]\<rparr>)"
    unfolding load_loop_ok [OF env] B1_def [symmetric] by (subst decrypt_loop_ok [OF env]) (simp_all add: in_run(1))
  moreover have "foldl (\<lambda>B i. B[(bs + i) mod BLOCKS_PER_SEGMENT := opened env (bs + i) (B ! ((bs + i) mod BLOCKS_PER_SEGMENT))]) B1 [0..<n] = B2"
    unfolding B2_def by (rule foldl_cong) (simp_all add: in_run(2))
  moreover have raw: "length (disk_block sector d x) = 4096" for d x
    using length_disk_block [OF journal_env_okD(1) [OF env]] by (simp add: SECTOR_SIZE_def)
  have "length (B2 ! x) = 4096" if "x < BLOCKS_PER_SEGMENT" for x
    using that two(2) one(2) j length_opened [OF journal_env_okD(3) [OF env]] raw by (simp add: buffers_ok_def)
  then have "buffers_ok (j\<lparr>jr_blocks := B2\<rparr>)" using j two(1) by (simp add: buffers_ok_def)
  moreover have "\<forall>i < n. B2 ! (?off + i) = opened env (bs + i) (?raw i)"
    using two(2) one(2) run by simp
  ultimately show ?thesis by auto
qed

end
