(* ===== verification/Journal_Log.thy ===== *)
theory Journal_Log
  imports Journal_Ops
begin

text \<open>
  The journal as a log.  The records added since the journal was set up are numbered; record \<open>i\<close> is at
  place \<open>i mod MAX_RECORDS\<close> of the ring.  The log has a window of records that are still wanted and the
  window that was wanted at the last synchronisation, which is what a restart finds.
\<close>

section \<open>Places in the ring\<close>

lemma mod_mult_div: "0 < b \<Longrightarrow> i mod (b * c) div b = i div b mod (c :: nat)"
  by (simp add: mod_mult2_eq)

lemma mod_mult_mod: "i mod (b * c) mod b = i mod (b :: nat)"
  by (simp add: mod_mult2_eq)

lemma ring_simps:
  "i mod MAX_RECORDS div RECORDS_PER_BLOCK = i div RECORDS_PER_BLOCK mod MAX_BLOCKS"
  "i mod MAX_RECORDS mod RECORDS_PER_BLOCK = i mod RECORDS_PER_BLOCK"
  "i mod MAX_RECORDS div RECORDS_PER_SEGMENT = i div RECORDS_PER_SEGMENT mod NR_JOURNAL_SEGMENT"
  "i mod MAX_RECORDS mod RECORDS_PER_SEGMENT = i mod RECORDS_PER_SEGMENT"
  "b mod MAX_BLOCKS div BLOCKS_PER_SEGMENT = b div BLOCKS_PER_SEGMENT mod NR_JOURNAL_SEGMENT"
  "b mod MAX_BLOCKS mod BLOCKS_PER_SEGMENT = b mod BLOCKS_PER_SEGMENT"
  "i div RECORDS_PER_BLOCK div BLOCKS_PER_SEGMENT = i div RECORDS_PER_SEGMENT"
proof -
  have m: "MAX_RECORDS = RECORDS_PER_BLOCK * MAX_BLOCKS" "MAX_RECORDS = RECORDS_PER_SEGMENT * NR_JOURNAL_SEGMENT"
    "0 < RECORDS_PER_BLOCK" "0 < RECORDS_PER_SEGMENT" by (simp_all add: journal_consts)
  show "i mod MAX_RECORDS div RECORDS_PER_BLOCK = i div RECORDS_PER_BLOCK mod MAX_BLOCKS"
    "i mod MAX_RECORDS mod RECORDS_PER_BLOCK = i mod RECORDS_PER_BLOCK" unfolding m(1) by (simp_all add: mod_mult_div mod_mult_mod m(3))
  show "i mod MAX_RECORDS div RECORDS_PER_SEGMENT = i div RECORDS_PER_SEGMENT mod NR_JOURNAL_SEGMENT"
    "i mod MAX_RECORDS mod RECORDS_PER_SEGMENT = i mod RECORDS_PER_SEGMENT" unfolding m(2) by (simp_all add: mod_mult_div mod_mult_mod m(4))
  show "b mod MAX_BLOCKS div BLOCKS_PER_SEGMENT = b div BLOCKS_PER_SEGMENT mod NR_JOURNAL_SEGMENT"
    "b mod MAX_BLOCKS mod BLOCKS_PER_SEGMENT = b mod BLOCKS_PER_SEGMENT"
    unfolding MAX_BLOCKS_def by (simp_all add: mod_mult_div mod_mult_mod)
  show "i div RECORDS_PER_BLOCK div BLOCKS_PER_SEGMENT = i div RECORDS_PER_SEGMENT"
    unfolding RECORDS_PER_SEGMENT_def by (simp add: div_mult2_eq)
qed

text \<open>Blocks of one segment keep their distance in the ring.\<close>

lemma ring_same_segment:
  assumes "x div BLOCKS_PER_SEGMENT = y div BLOCKS_PER_SEGMENT" and "x \<le> y"
  shows "y mod MAX_BLOCKS = x mod MAX_BLOCKS + (y - x)"
    and "x mod BLOCKS_PER_SEGMENT + (y - x) = y mod BLOCKS_PER_SEGMENT"
proof -
  show s: "x mod BLOCKS_PER_SEGMENT + (y - x) = y mod BLOCKS_PER_SEGMENT"
    using assms(2) div_mult_mod_eq [of x BLOCKS_PER_SEGMENT] div_mult_mod_eq [of y BLOCKS_PER_SEGMENT]
    unfolding assms(1) by linarith
  have "z mod MAX_BLOCKS = BLOCKS_PER_SEGMENT * (z div BLOCKS_PER_SEGMENT mod NR_JOURNAL_SEGMENT) + z mod BLOCKS_PER_SEGMENT" for z
    by (simp add: MAX_BLOCKS_def mod_mult2_eq)
  then show "y mod MAX_BLOCKS = x mod MAX_BLOCKS + (y - x)" using assms(1) s by simp
qed

lemma mod_distinct:
  assumes "x mod m = y mod (m :: nat)" and "x \<le> y" and "y < x + m"
  shows "x = y"
proof -
  have "(y - x) mod m = 0" using assms(1,2) by (simp add: mod_eq_dvd_iff_nat [symmetric] eq_commute)
  then show ?thesis using assms(2,3) by auto
qed

lemma same_segment_less:
  assumes "x div RECORDS_PER_SEGMENT = y div RECORDS_PER_SEGMENT"
  shows "y < x + RECORDS_PER_SEGMENT"
proof -
  have "y mod RECORDS_PER_SEGMENT < RECORDS_PER_SEGMENT" by (simp add: journal_consts)
  then show ?thesis using div_mult_mod_eq [of x RECORDS_PER_SEGMENT] div_mult_mod_eq [of y RECORDS_PER_SEGMENT]
    unfolding assms by linarith
qed

lemma segment_start_block: "x mod RECORDS_PER_SEGMENT = 0 \<Longrightarrow> x mod RECORDS_PER_BLOCK = 0"
  using mod_mult_mod [of x RECORDS_PER_BLOCK BLOCKS_PER_SEGMENT] by (simp add: RECORDS_PER_SEGMENT_def)

lemma before_block: "x mod m = 0 \<Longrightarrow> i < x \<Longrightarrow> i div m < x div (m :: nat)"
  by (metis div_le_mono div_mult_mod_eq add_0_right le_add1 le_antisym less_imp_le not_le order.strict_iff_order order_trans mult_le_mono1)

section \<open>The log\<close>

record journal_log =
  lg_start :: nat
  lg_end :: nat
  lg_dstart :: nat
  lg_dend :: nat
  lg_rec :: "nat \<Rightarrow> journal_record"

text \<open>A synchronisation with no new records does nothing, even if the start has moved.\<close>

definition log_sync :: "journal_log \<Rightarrow> journal_log" where
  "log_sync g = (if lg_dend g = lg_end g then g else g\<lparr>lg_dstart := lg_start g, lg_dend := lg_end g\<rparr>)"

text \<open>A record is appended; the ring forgets its first record when it is full, and full segments are written.\<close>

definition log_append :: "journal_record \<Rightarrow> journal_log \<Rightarrow> journal_log" where
  "log_append r g = g\<lparr>lg_rec := (lg_rec g)(lg_end g := r), lg_end := lg_end g + 1,
     lg_start := if lg_end g + 1 = lg_start g + MAX_RECORDS then lg_start g + 1 else lg_start g\<rparr>"

definition log_add :: "journal_record \<Rightarrow> journal_log \<Rightarrow> journal_log" where
  "log_add r g = (let g1 = log_append r g in if lg_end g1 mod RECORDS_PER_SEGMENT = 0 then log_sync g1 else g1)"

definition log_ok :: "journal_log \<Rightarrow> bool" where
  "log_ok g \<longleftrightarrow> lg_start g < lg_end g \<and> lg_end g < lg_start g + MAX_RECORDS \<and> lg_dstart g \<le> lg_start g \<and>
     lg_dstart g \<le> lg_dend g \<and> lg_dend g \<le> lg_end g \<and> lg_dend g < lg_dstart g + MAX_RECORDS \<and>
     (lg_dstart g = lg_dend g \<longrightarrow> lg_dend g = 0)"

text \<open>
  The block of the newest record is written as a whole: what was left in it of the round before is
  gone, although the window may still have it.
\<close>

definition kept :: "nat \<Rightarrow> nat \<Rightarrow> bool" where
  "kept e i \<longleftrightarrow> (e - 1) div RECORDS_PER_BLOCK < i div RECORDS_PER_BLOCK + MAX_BLOCKS"

definition in_buffer :: "('d, 's) journal_region \<Rightarrow> nat \<Rightarrow> journal_record \<Rightarrow> bool" where
  "in_buffer j i r \<longleftrightarrow> block_has (jr_blocks j ! (i div RECORDS_PER_BLOCK mod BLOCKS_PER_SEGMENT)) (i mod RECORDS_PER_BLOCK) r"

definition on_disk :: "('d, 'e, 's) journal_env \<Rightarrow> ('d \<Rightarrow> nat \<Rightarrow> byte list) \<Rightarrow> 'd \<Rightarrow> nat \<Rightarrow> nat \<Rightarrow> journal_record \<Rightarrow> bool" where
  "on_disk env sector d rs i r \<longleftrightarrow>
     (let b = i div RECORDS_PER_BLOCK mod MAX_BLOCKS
      in block_has (opened env b (disk_block sector d (rs + b))) (i mod RECORDS_PER_BLOCK) r)"

abbreviation region_start :: "('d, 's) journal_region \<Rightarrow> nat" where
  "region_start j \<equiv> sb_journal_region_start (jr_superblock j)"

definition superblock_has :: "('d, 'e, 's) journal_env \<Rightarrow> ('d, 's) journal_region \<Rightarrow> journal_log \<Rightarrow> bool" where
  "superblock_has env j g \<longleftrightarrow> (\<exists>mem sb s. superblock_read (jn_sb env) mem (jr_sb_dev j) = (Inr sb, s) \<and>
     sb_record_start sb = lg_dstart g mod MAX_RECORDS \<and> sb_record_end sb = lg_dend g mod MAX_RECORDS \<and>
     sb_journal_region_start sb = region_start j)"

text \<open>The counters and what is on the disk.\<close>

definition disk_inv :: "('d, 'e, 's) journal_env \<Rightarrow> ('d \<Rightarrow> nat \<Rightarrow> byte list) \<Rightarrow> ('d, 's) journal_region \<Rightarrow> journal_log \<Rightarrow> bool" where
  "disk_inv env sector j g \<longleftrightarrow> buffers_ok j \<and> log_ok g \<and> jr_record_start j = lg_start g mod MAX_RECORDS \<and>
     jr_record_end j = lg_end g mod MAX_RECORDS \<and> jr_last_sync_record j = lg_dend g mod MAX_RECORDS \<and> superblock_has env j g \<and>
     (\<forall>i. lg_dstart g \<le> i \<and> i < lg_dend g \<and> kept (lg_dend g) i \<longrightarrow> on_disk env sector (jr_dev j) (region_start j) i (lg_rec g i))"

text \<open>The buffer has segment \<open>seg\<close> and in it the records that are not yet written, with those of the first block.\<close>

definition buffer_inv :: "('d, 's) journal_region \<Rightarrow> journal_log \<Rightarrow> nat \<Rightarrow> bool" where
  "buffer_inv j g seg \<longleftrightarrow> jr_segno j = seg mod NR_JOURNAL_SEGMENT \<and> lg_dend g div RECORDS_PER_SEGMENT = seg \<and>
     (\<forall>i. lg_start g \<le> i \<and> i < lg_end g \<and> lg_dend g div RECORDS_PER_BLOCK \<le> i div RECORDS_PER_BLOCK \<longrightarrow> in_buffer j i (lg_rec g i))"

definition journal_inv :: "('d, 'e, 's) journal_env \<Rightarrow> ('d \<Rightarrow> nat \<Rightarrow> byte list) \<Rightarrow> ('d, 's) journal_region \<Rightarrow> journal_log \<Rightarrow> bool" where
  "journal_inv env sector j g \<longleftrightarrow> disk_inv env sector j g \<and>
     (lg_end g = lg_dend g \<and> lg_end g mod RECORDS_PER_SEGMENT = 0 \<or> buffer_inv j g (lg_end g div RECORDS_PER_SEGMENT))"

lemma log_okD:
  assumes "log_ok g"
  shows "lg_start g < lg_end g" "lg_end g < lg_start g + MAX_RECORDS" "lg_dstart g \<le> lg_start g" "lg_dstart g \<le> lg_dend g"
    "lg_dend g \<le> lg_end g" "lg_dend g < lg_dstart g + MAX_RECORDS" "lg_dstart g = lg_dend g \<Longrightarrow> lg_dend g = 0"
  using assms by (simp_all add: log_ok_def)

lemma disk_invD:
  assumes "disk_inv env sector j g"
  shows "buffers_ok j" "log_ok g" "jr_record_start j = lg_start g mod MAX_RECORDS" "jr_record_end j = lg_end g mod MAX_RECORDS"
    "jr_last_sync_record j = lg_dend g mod MAX_RECORDS" "superblock_has env j g"
    "lg_dstart g \<le> i \<Longrightarrow> i < lg_dend g \<Longrightarrow> kept (lg_dend g) i \<Longrightarrow> on_disk env sector (jr_dev j) (region_start j) i (lg_rec g i)"
  using assms by (simp_all add: disk_inv_def)

section \<open>Synchronisation\<close>

lemma write_superblock_ok:
  assumes "sb_writes (jn_sb env)"
  obtains sb s where "journal_write_superblock env j = j\<lparr>jr_superblock := sb, jr_sb_dev := s\<rparr>"
    and "\<exists>s'. superblock_read (jn_sb env) (jr_superblock j) s = (Inr sb, s')" and "sb_record_start sb = jr_record_start j"
    and "sb_record_end sb = jr_record_end j" and "sb_journal_region_start sb = region_start j"
proof -
  let ?e = "jn_sb env" and ?sb = "(jr_superblock j)\<lparr>sb_record_start := jr_record_start j, sb_record_end := jr_record_end j\<rparr>"
  define sb where "sb = ?sb\<lparr>sb_csum := crc32_checksum (se_crc ?e) ?sb\<rparr>"
  obtain d s1 where rd: "se_rd ?e (jr_sb_dev j) = (Inr d, s1)" using assms unfolding sb_writes_def by blast
  obtain c where enc: "se_enc ?e sb = Inr c" using assms unfolding sb_writes_def by blast
  have "superblock_write ?e ?sb (jr_sb_dev j) = (Inr sb, se_wr ?e c s1)"
    using rd enc by (simp add: superblock_write_def sb_def Let_def)
  then have w: "journal_write_superblock env j = j\<lparr>jr_superblock := sb, jr_sb_dev := se_wr ?e c s1\<rparr>"
    by (simp add: journal_write_superblock_def)
  have "sb_env_ok ?e" using assms by (simp add: sb_writes_def)
  then obtain s' where "se_rd ?e (se_wr ?e c s1) = (Inr c, s')" "se_dec ?e c = Inr sb" using enc unfolding sb_env_ok_def by blast
  then have "superblock_read ?e (jr_superblock j) (se_wr ?e c s1) = (Inr sb, s')" by (simp add: superblock_read_def sb_def)
  then show thesis by (intro that [OF w]) (auto simp: sb_def)
qed

text \<open>The blocks to be written lie in one segment.\<close>

lemma sync_count:
  assumes "de < e" and "de div RECORDS_PER_SEGMENT = (e - 1) div RECORDS_PER_SEGMENT"
  defines "n \<equiv> (e - 1) div RECORDS_PER_BLOCK - de div RECORDS_PER_BLOCK + 1"
    and "bs \<equiv> de mod MAX_RECORDS div RECORDS_PER_BLOCK"
  shows "(if e mod MAX_RECORDS mod RECORDS_PER_SEGMENT \<noteq> 0
      then to_int (int ((e mod MAX_RECORDS - 1) div RECORDS_PER_BLOCK) - int bs + 1)
      else int (BLOCKS_PER_SEGMENT - bs mod BLOCKS_PER_SEGMENT)) = int n"
    and "bs mod BLOCKS_PER_SEGMENT + n \<le> BLOCKS_PER_SEGMENT"
    and "i < n \<Longrightarrow> bs + i = (de div RECORDS_PER_BLOCK + i) mod MAX_BLOCKS"
proof -
  let ?x = "de div RECORDS_PER_BLOCK" and ?y = "(e - 1) div RECORDS_PER_BLOCK"
  have xy: "?x \<le> ?y" using assms(1) by (intro div_le_mono) simp
  have seg: "?x div BLOCKS_PER_SEGMENT = ?y div BLOCKS_PER_SEGMENT" using assms(2) by (simp add: ring_simps)
  note r = ring_same_segment [OF seg xy]
  have bs: "bs = ?x mod MAX_BLOCKS" "bs mod BLOCKS_PER_SEGMENT = ?x mod BLOCKS_PER_SEGMENT" by (simp_all add: bs_def ring_simps)
  show fit: "bs mod BLOCKS_PER_SEGMENT + n \<le> BLOCKS_PER_SEGMENT"
    using r(2) mod_less_divisor [OF BLOCKS_PER_SEGMENT_pos, of ?y] unfolding bs(2) n_def by linarith
  show "bs + i = (?x + i) mod MAX_BLOCKS" if "i < n"
  proof -
    have "(?x + i) div BLOCKS_PER_SEGMENT = ?x div BLOCKS_PER_SEGMENT" by (rule segment_run) (use fit that bs(2) in linarith)
    then show ?thesis using ring_same_segment(1) [of ?x "?x + i"] by (simp add: bs)
  qed
  show "(if e mod MAX_RECORDS mod RECORDS_PER_SEGMENT \<noteq> 0
      then to_int (int ((e mod MAX_RECORDS - 1) div RECORDS_PER_BLOCK) - int bs + 1)
      else int (BLOCKS_PER_SEGMENT - bs mod BLOCKS_PER_SEGMENT)) = int n"
  proof (cases "e mod RECORDS_PER_SEGMENT = 0")
    case True
    then have "(e - 1) mod RECORDS_PER_SEGMENT = RECORDS_PER_SEGMENT - 1"
      using assms(1) by (metis Suc_diff_1 diff_Suc_1 gr_implies_not0 mod_Suc neq0_conv Zero_not_Suc)
    then have "?y mod BLOCKS_PER_SEGMENT = BLOCKS_PER_SEGMENT - 1"
      using mod_mult_div [of RECORDS_PER_BLOCK "e - 1" BLOCKS_PER_SEGMENT]
      by (simp add: RECORDS_PER_SEGMENT_def [symmetric]) (simp add: journal_consts BLOCKS_PER_SEGMENT_def)
    then have "BLOCKS_PER_SEGMENT - bs mod BLOCKS_PER_SEGMENT = n"
      using r(2) BLOCKS_PER_SEGMENT_pos unfolding bs(2) n_def by linarith
    then show ?thesis using True by (simp add: ring_simps)
  next
    case False
    then have "e mod MAX_RECORDS \<noteq> 0" by (metis ring_simps(4) mod_0)
    then have "e mod MAX_RECORDS - 1 = (e - 1) mod MAX_RECORDS"
      using assms(1) by (metis Suc_diff_1 diff_Suc_1 gr_implies_not0 mod_Suc neq0_conv)
    then have "(e mod MAX_RECORDS - 1) div RECORDS_PER_BLOCK = bs + (n - 1)" using r(1) by (simp add: ring_simps bs n_def)
    moreover have "n \<le> 1024" "1 \<le> n" using fit by (simp_all add: n_def BLOCKS_PER_SEGMENT_def)
    ultimately show ?thesis using False by (simp add: ring_simps to_int_id)
  qed
qed

lemma in_buffer_agree:
  assumes "in_buffer j i r" and "agree (jr_blocks j' ! (i div RECORDS_PER_BLOCK mod BLOCKS_PER_SEGMENT))
    (jr_blocks j ! (i div RECORDS_PER_BLOCK mod BLOCKS_PER_SEGMENT))"
  shows "in_buffer j' i r"
  using assms block_has_agree [OF assms(2), of "i mod RECORDS_PER_BLOCK" r] by (simp add: in_buffer_def journal_consts)

text \<open>The blocks from that of the last synchronisation on are written from the buffer, the others stay.\<close>

lemma sync_on_disk:
  assumes inv: "disk_inv env sector j g" and new: "lg_dend g < lg_end g" and buf: "buffer_inv j g ((lg_end g - 1) div RECORDS_PER_SEGMENT)"
    and i: "lg_start g \<le> i" "i < lg_end g" "kept (lg_end g) i"
  defines "n \<equiv> (lg_end g - 1) div RECORDS_PER_BLOCK - lg_dend g div RECORDS_PER_BLOCK + 1"
    and "bs \<equiv> lg_dend g mod MAX_RECORDS div RECORDS_PER_BLOCK"
  assumes written: "\<And>i. i < n \<Longrightarrow> agree (opened env (bs + i) (disk_block sector dv (region_start j + bs + i))) (jr_blocks j ! ((bs + i) mod BLOCKS_PER_SEGMENT))"
    and rest: "\<And>x. \<forall>i < n. x \<noteq> region_start j + bs + i \<Longrightarrow> disk_block sector dv x = disk_block sector (jr_dev j) x"
  shows "on_disk env sector dv (region_start j) i (lg_rec g i)"
proof -
  note d = disk_invD [OF inv] and l = log_okD [OF disk_invD(2) [OF inv]]
  let ?e = "lg_end g" and ?de = "lg_dend g"
  have "?de div RECORDS_PER_SEGMENT = (?e - 1) div RECORDS_PER_SEGMENT" using buf by (simp add: buffer_inv_def)
  note c = sync_count(3) [OF new this, folded bs_def n_def]
  have le: "?de div RECORDS_PER_BLOCK \<le> (?e - 1) div RECORDS_PER_BLOCK" using new by (intro div_le_mono) simp
  show ?thesis
  proof (cases "?de div RECORDS_PER_BLOCK \<le> i div RECORDS_PER_BLOCK")
    case True
    let ?k = "i div RECORDS_PER_BLOCK - ?de div RECORDS_PER_BLOCK" and ?b = "i div RECORDS_PER_BLOCK mod MAX_BLOCKS"
    have "i div RECORDS_PER_BLOCK \<le> (?e - 1) div RECORDS_PER_BLOCK" using i(2) by (intro div_le_mono) simp
    then have k: "?k < n" by (simp add: n_def)
    have b: "bs + ?k = ?b" using c [OF k] True by simp
    have "agree (opened env ?b (disk_block sector dv (region_start j + ?b))) (jr_blocks j ! (i div RECORDS_PER_BLOCK mod BLOCKS_PER_SEGMENT))"
      using written [OF k] unfolding add.assoc b by (simp only: ring_simps)
    moreover have "in_buffer j i (lg_rec g i)" using buf i True by (simp add: buffer_inv_def)
    ultimately show ?thesis using block_has_agree [of _ _ "i mod RECORDS_PER_BLOCK" "lg_rec g i"]
      by (simp add: on_disk_def in_buffer_def Let_def journal_consts(1))
  next
    case False
    have i': "i < ?de" using False by (metis div_le_mono not_le)
    then have "(?de - 1) div RECORDS_PER_BLOCK \<le> (?e - 1) div RECORDS_PER_BLOCK" using l(5) by (intro div_le_mono) simp
    then have "kept ?de i" using i(3) by (simp add: kept_def)
    then have "on_disk env sector (jr_dev j) (region_start j) i (lg_rec g i)" using d(7) [of i] i' i(1) l(3) by simp
    moreover have "i div RECORDS_PER_BLOCK mod MAX_BLOCKS \<noteq> bs + k" if k: "k < n" for k
    proof
      assume "i div RECORDS_PER_BLOCK mod MAX_BLOCKS = bs + k"
      then have "i div RECORDS_PER_BLOCK mod MAX_BLOCKS = (?de div RECORDS_PER_BLOCK + k) mod MAX_BLOCKS" unfolding c [OF k] .
      moreover have "?de div RECORDS_PER_BLOCK + k < i div RECORDS_PER_BLOCK + MAX_BLOCKS"
        using i(3) k le unfolding n_def kept_def by linarith
      ultimately have "i div RECORDS_PER_BLOCK = ?de div RECORDS_PER_BLOCK + k"
        using False mod_distinct [of "i div RECORDS_PER_BLOCK" MAX_BLOCKS "?de div RECORDS_PER_BLOCK + k"] by linarith
      then show False using False by simp
    qed
    ultimately show ?thesis using rest [of "region_start j + i div RECORDS_PER_BLOCK mod MAX_BLOCKS"]
      by (simp add: on_disk_def Let_def add.assoc)
  qed
qed

lemma synced_inv:
  assumes inv: "disk_inv env sector j g" and new: "lg_dend g < lg_end g" and buf: "buffer_inv j g ((lg_end g - 1) div RECORDS_PER_SEGMENT)"
    and disk: "\<And>i. lg_start g \<le> i \<Longrightarrow> i < lg_end g \<Longrightarrow> kept (lg_end g) i \<Longrightarrow> on_disk env sector (jr_dev j') (region_start j) i (lg_rec g i)"
    and blocks: "buffers_ok j'" "\<And>x. x < BLOCKS_PER_SEGMENT \<Longrightarrow> agree (jr_blocks j' ! x) (jr_blocks j ! x)"
    and sb: "\<exists>mem s. superblock_read (jn_sb env) mem (jr_sb_dev j') = (Inr (jr_superblock j'), s)" "sb_record_start (jr_superblock j') = jr_record_start j"
      "sb_record_end (jr_superblock j') = jr_record_end j" "region_start j' = region_start j"
    and same: "jr_segno j' = jr_segno j" "jr_record_start j' = jr_record_start j" "jr_record_end j' = jr_record_end j"
      "jr_last_sync_record j' = jr_record_end j"
  shows "journal_inv env sector j' (log_sync g)"
proof -
  have ls: "log_sync g = g\<lparr>lg_dstart := lg_start g, lg_dend := lg_end g\<rparr>" using new by (simp add: log_sync_def)
  note d = disk_invD [OF inv] and l = log_okD [OF disk_invD(2) [OF inv]]
  let ?e = "lg_end g" and ?de = "lg_dend g" and ?s = "lg_start g"
  have "superblock_has env j' (log_sync g)" using sb d(3,4) by (auto simp: superblock_has_def ls)
  moreover have "log_ok (log_sync g)" using l by (simp add: log_ok_def ls)
  ultimately have dinv: "disk_inv env sector j' (log_sync g)"
    using d(3,4) disk blocks(1) unfolding disk_inv_def same sb(4) by (simp add: ls)
  have inb: "in_buffer j' i (lg_rec g i)" if "?s \<le> i" "i < ?e" "?e div RECORDS_PER_BLOCK \<le> i div RECORDS_PER_BLOCK" for i
  proof (rule in_buffer_agree)
    have "?de div RECORDS_PER_BLOCK \<le> ?e div RECORDS_PER_BLOCK" using l(5) by (rule div_le_mono)
    then show "in_buffer j i (lg_rec g i)" using buf that by (simp add: buffer_inv_def)
  qed (rule blocks(2), simp)
  have "buffer_inv j' (log_sync g) (?e div RECORDS_PER_SEGMENT)" if "?e mod RECORDS_PER_SEGMENT \<noteq> 0"
  proof -
    have "(?e - 1) div RECORDS_PER_SEGMENT = ?e div RECORDS_PER_SEGMENT"
      using that by (metis One_nat_def Suc_pred div_Suc mod_0 neq0_conv)
    then show ?thesis using buf inb unfolding buffer_inv_def same by (simp add: ls)
  qed
  then show ?thesis using dinv unfolding journal_inv_def by (auto simp: ls)
qed

lemma synchronize_ok:
  assumes env: "journal_env_ok env sector" and inv: "disk_inv env sector j g" and new: "lg_dend g < lg_end g"
    and buf: "buffer_inv j g ((lg_end g - 1) div RECORDS_PER_SEGMENT)"
  shows "\<exists>j'. journal_synchronize env (default_jops env (Suc (Suc m))) j = Some j' \<and> journal_inv env sector j' (log_sync g)"
proof -
  note d = disk_invD [OF inv] and l = log_okD [OF disk_invD(2) [OF inv]]
  let ?e = "lg_end g" and ?de = "lg_dend g" and ?s = "lg_start g"
  have segs: "?de div RECORDS_PER_SEGMENT = (?e - 1) div RECORDS_PER_SEGMENT" using buf by (simp add: buffer_inv_def)
  define bs where "bs = ?de mod MAX_RECORDS div RECORDS_PER_BLOCK"
  define n where "n = (?e - 1) div RECORDS_PER_BLOCK - ?de div RECORDS_PER_BLOCK + 1"
  note c = sync_count [OF new segs, folded bs_def n_def]
  have seg: "bs div BLOCKS_PER_SEGMENT = jr_segno j" using buf by (simp add: bs_def ring_simps buffer_inv_def)
  have run: "(bs + i) div BLOCKS_PER_SEGMENT = jr_segno j" if "i < n" for i
    using segment_run(1) [of bs i] c(2) that seg by simp
  obtain j1 B dv k p where s1: "sync_loop env (default_jops env (Suc (Suc m))) bs [0..<n] j = Some j1"
    "j1 = j\<lparr>jr_blocks := B, jr_dev := dv, jr_draws := k, jr_previous_blk := p\<rparr>" "buffers_ok j1"
    "\<And>x. x < BLOCKS_PER_SEGMENT \<Longrightarrow> agree (B ! x) (jr_blocks j ! x)"
    "\<And>i. i < n \<Longrightarrow> agree (opened env (bs + i) (disk_block sector dv (region_start j + bs + i))) (jr_blocks j ! ((bs + i) mod BLOCKS_PER_SEGMENT))"
    "\<And>x. \<forall>i < n. x \<noteq> region_start j + bs + i \<Longrightarrow> disk_block sector dv x = disk_block sector (jr_dev j) x"
    using sync_loop_ok [OF env distinct_upt d(1), of 0 n bs m] run by auto
  define j2 where "j2 = j1\<lparr>jr_last_sync_record := jr_record_end j\<rparr>"
  obtain sb t where w: "journal_write_superblock env j2 = j2\<lparr>jr_superblock := sb, jr_sb_dev := t\<rparr>"
    "\<exists>s'. superblock_read (jn_sb env) (jr_superblock j2) t = (Inr sb, s')" "sb_record_start sb = jr_record_start j2"
    "sb_record_end sb = jr_record_end j2" "sb_journal_region_start sb = region_start j2"
    by (rule write_superblock_ok [OF journal_env_okD(5) [OF env]])
  define j3 where "j3 = j2\<lparr>jr_superblock := sb, jr_sb_dev := t, jr_status := JOURNAL_READY\<rparr>"
  have "?e < ?de + MAX_RECORDS" using same_segment_less [OF segs] by (simp add: journal_consts)
  then have ne: "jr_last_sync_record j \<noteq> jr_record_end j" using mod_distinct [of ?de MAX_RECORDS ?e] new d(4,5) by auto
  have run: "journal_synchronize env (default_jops env (Suc (Suc m))) j = Some j3"
  proof -
    have "jr_record_end j1 = jr_record_end j" using s1(2) by simp
    then show ?thesis using ne s1(1) w(1) unfolding journal_synchronize_def d(4,5) bs_def [symmetric] c(1) Let_def
      by (simp add: j2_def j3_def d(4,5))
  qed
  have "journal_inv env sector j3 (log_sync g)"
  proof (rule synced_inv [OF inv new buf])
    show "on_disk env sector (jr_dev j3) (region_start j) i (lg_rec g i)" if "?s \<le> i" "i < ?e" "kept ?e i" for i
      using sync_on_disk [OF inv new buf that, folded bs_def n_def, of dv] s1(2,5,6) by (simp add: j3_def j2_def)
  qed (use s1 w in \<open>auto simp: j3_def j2_def buffers_ok_def\<close>)
  then show ?thesis using run by blast
qed

lemma synchronize_inv:
  assumes env: "journal_env_ok env sector" and inv: "journal_inv env sector j g"
  shows "\<exists>j'. journal_synchronize env (default_jops env (Suc (Suc m))) j = Some j' \<and> journal_inv env sector j' (log_sync g)"
proof (cases "lg_dend g = lg_end g")
  case True
  then have "journal_synchronize env (default_jops env (Suc (Suc m))) j = Some j"
    using inv by (simp add: journal_synchronize_def journal_inv_def disk_inv_def)
  then show ?thesis using inv True by (simp add: log_sync_def)
next
  case False
  then have d: "disk_inv env sector j g" and b: "buffer_inv j g (lg_end g div RECORDS_PER_SEGMENT)" using inv by (auto simp: journal_inv_def)
  then have new: "lg_dend g < lg_end g" using False log_okD(5) [OF disk_invD(2) [OF d]] by simp
  then have "(lg_end g - 1) div RECORDS_PER_SEGMENT = lg_end g div RECORDS_PER_SEGMENT"
    using b div_le_mono [of "lg_dend g" "lg_end g - 1" RECORDS_PER_SEGMENT] div_le_mono [of "lg_end g - 1" "lg_end g" RECORDS_PER_SEGMENT]
    by (simp add: buffer_inv_def)
  then show ?thesis using synchronize_ok [OF env d new] b by simp
qed

section \<open>Adding a record\<close>

lemma status_inv [simp]:
  "disk_inv env sector (j\<lparr>jr_status := x\<rparr>) g \<longleftrightarrow> disk_inv env sector j g" "buffer_inv (j\<lparr>jr_status := x\<rparr>) g seg \<longleftrightarrow> buffer_inv j g seg"
  by (simp_all add: disk_inv_def buffer_inv_def buffers_ok_def superblock_has_def in_buffer_def)

text \<open>A new segment is begun without reading it.\<close>

lemma get_end_block:
  assumes "journal_inv env sector j g"
  shows "journal_get_block (default_jops env (Suc m)) (lg_end g mod MAX_RECORDS div RECORDS_PER_BLOCK) j =
    Some (lg_end g div RECORDS_PER_BLOCK mod BLOCKS_PER_SEGMENT, j\<lparr>jr_segno := lg_end g div RECORDS_PER_SEGMENT mod NR_JOURNAL_SEGMENT\<rparr>)"
proof (cases "jr_segno j = lg_end g div RECORDS_PER_SEGMENT mod NR_JOURNAL_SEGMENT")
  case True
  then have "j\<lparr>jr_segno := lg_end g div RECORDS_PER_SEGMENT mod NR_JOURNAL_SEGMENT\<rparr> = j" by simp
  then show ?thesis using True by (simp add: get_block_same ring_simps)
next
  case False
  let ?e = "lg_end g"
  have d: "disk_inv env sector j g" and "?e mod RECORDS_PER_SEGMENT = 0"
    using assms False by (auto simp: journal_inv_def buffer_inv_def)
  then have "?e mod RECORDS_PER_BLOCK = 0" by (simp add: segment_start_block)
  then have "?e mod MAX_RECORDS div RECORDS_PER_BLOCK * RECORDS_PER_BLOCK = ?e mod MAX_RECORDS"
    using div_mult_mod_eq [of "?e mod MAX_RECORDS" RECORDS_PER_BLOCK] by (simp add: ring_simps)
  moreover have "?e div RECORDS_PER_SEGMENT mod NR_JOURNAL_SEGMENT < NR_JOURNAL_SEGMENT" by (simp add: journal_consts)
  ultimately show ?thesis using False disk_invD(4) [OF d]
    by (simp add: journal_get_block_def journal_buffer_load_def Let_def ring_simps)
qed

text \<open>The region with record \<open>r\<close> in its place and the counters moved on.\<close>

definition appended :: "journal_record \<Rightarrow> journal_log \<Rightarrow> ('d, 's) journal_region \<Rightarrow> ('d, 's) journal_region" where
  "appended r g j =
     (let k = lg_end g div RECORDS_PER_BLOCK mod BLOCKS_PER_SEGMENT
      in (set_block k (store_record (lg_end g mod RECORDS_PER_BLOCK) r (jr_blocks j ! k))
           (j\<lparr>jr_segno := lg_end g div RECORDS_PER_SEGMENT mod NR_JOURNAL_SEGMENT\<rparr>))
         \<lparr>jr_record_start := lg_start (log_append r g) mod MAX_RECORDS, jr_record_end := (lg_end g + 1) mod MAX_RECORDS\<rparr>)"

lemma appended_disk:
  assumes inv: "disk_inv env sector j g" and r: "record_ok r"
  shows "disk_inv env sector (appended r g j) (log_append r g)"
proof -
  note d = disk_invD [OF inv] and l = log_okD [OF disk_invD(2) [OF inv]]
  let ?k = "lg_end g div RECORDS_PER_BLOCK mod BLOCKS_PER_SEGMENT"
  have "length (jr_blocks j ! ?k) = 4096" using d(1) by (simp add: buffers_ok_def)
  then have "length (store_record (lg_end g mod RECORDS_PER_BLOCK) r (jr_blocks j ! ?k)) = 4096"
    by (rule length_store_record) (use r in \<open>simp_all add: journal_consts\<close>)
  then have "buffers_ok (set_block ?k (store_record (lg_end g mod RECORDS_PER_BLOCK) r (jr_blocks j ! ?k)) j)"
    by (rule buffers_ok_set [OF d(1)])
  then have "buffers_ok (appended r g j)" by (simp add: appended_def buffers_ok_def Let_def)
  moreover have "log_ok (log_append r g)" using l by (auto simp: log_ok_def log_append_def journal_consts)
  moreover have "superblock_has env (appended r g j) (log_append r g)"
    using d(6) by (simp add: superblock_has_def appended_def log_append_def Let_def)
  moreover have "on_disk env sector (jr_dev j) (region_start j) i (lg_rec (log_append r g) i)"
    if "lg_dstart g \<le> i" "i < lg_dend g" "kept (lg_dend g) i" for i
    using d(7) [OF that] that(2) l(5) by (simp add: log_append_def)
  ultimately show ?thesis using d(5) by (simp add: disk_inv_def appended_def log_append_def Let_def)
qed

lemma appended_buffer:
  assumes inv: "journal_inv env sector j g" and r: "record_ok r"
  shows "buffer_inv (appended r g j) (log_append r g) (lg_end g div RECORDS_PER_SEGMENT)"
proof -
  let ?e = "lg_end g" and ?de = "lg_dend g" and ?g = "log_append r g" and ?j = "appended r g j"
  let ?k = "?e div RECORDS_PER_BLOCK mod BLOCKS_PER_SEGMENT"
  have disk: "disk_inv env sector j g" using inv by (simp add: journal_inv_def)
  note d = disk_invD [OF disk] and l = log_okD [OF disk_invD(2) [OF disk]]
  have seg: "?de div RECORDS_PER_SEGMENT = ?e div RECORDS_PER_SEGMENT" using inv by (auto simp: journal_inv_def buffer_inv_def)
  have k: "?k < length (jr_blocks j)" "length (jr_blocks j ! ?k) = 4096" using d(1) by (simp_all add: buffers_ok_def)
  note st = store_record_has [OF k(2) r, of "?e mod RECORDS_PER_BLOCK"]
  have rpb: "x mod RECORDS_PER_BLOCK < RECORDS_PER_BLOCK" for x by (simp add: journal_consts)
  have old: "in_buffer ?j i (lg_rec ?g i)" if i: "lg_start g \<le> i" "i < ?e" "?de div RECORDS_PER_BLOCK \<le> i div RECORDS_PER_BLOCK" for i
  proof -
    have "\<not> (?e = ?de \<and> ?e mod RECORDS_PER_SEGMENT = 0)"
      using before_block [OF segment_start_block i(2)] i(3) by fastforce
    then have b: "in_buffer j i (lg_rec g i)" using inv i by (auto simp: journal_inv_def buffer_inv_def)
    have "i div RECORDS_PER_BLOCK \<noteq> ?e div RECORDS_PER_BLOCK \<or> i mod RECORDS_PER_BLOCK \<noteq> ?e mod RECORDS_PER_BLOCK"
      using i(2) by (metis div_mult_mod_eq less_irrefl)
    moreover have "i div RECORDS_PER_BLOCK = ?e div RECORDS_PER_BLOCK" if "i div RECORDS_PER_BLOCK mod BLOCKS_PER_SEGMENT = ?k"
    proof -
      have "?de div RECORDS_PER_SEGMENT \<le> i div RECORDS_PER_SEGMENT" "i div RECORDS_PER_SEGMENT \<le> ?e div RECORDS_PER_SEGMENT"
        using i div_le_mono [OF i(3), of BLOCKS_PER_SEGMENT] div_le_mono [of i ?e RECORDS_PER_SEGMENT] by (simp_all add: ring_simps)
      then have "i div RECORDS_PER_BLOCK div BLOCKS_PER_SEGMENT = ?e div RECORDS_PER_BLOCK div BLOCKS_PER_SEGMENT" using seg by (simp add: ring_simps)
      then show ?thesis using that by (metis div_mult_mod_eq)
    qed
    ultimately show ?thesis using b i(2) k(1) st(2) [OF rpb rpb, of i] 
      by (cases "i div RECORDS_PER_BLOCK mod BLOCKS_PER_SEGMENT = ?k") (auto simp: in_buffer_def appended_def log_append_def Let_def)
  qed
  moreover have "in_buffer ?j ?e (lg_rec ?g ?e)"
    using st(1) [OF rpb] k(1) by (simp add: in_buffer_def appended_def log_append_def Let_def)
  ultimately have "in_buffer ?j i (lg_rec ?g i)" if "lg_start g \<le> i" "i < ?e + 1" "?de div RECORDS_PER_BLOCK \<le> i div RECORDS_PER_BLOCK" for i
    using that by (cases "i = ?e") auto
  moreover have "jr_segno ?j = ?e div RECORDS_PER_SEGMENT mod NR_JOURNAL_SEGMENT" by (simp add: appended_def Let_def)
  moreover have "lg_end ?g = ?e + 1" "lg_dend ?g = ?de" "lg_start g \<le> lg_start ?g" by (simp_all add: log_append_def)
  ultimately show ?thesis using seg unfolding buffer_inv_def by simp
qed

lemma add_record_run:
  assumes inv: "journal_inv env sector j g"
  shows "journal_add_record (default_jops env (Suc (Suc m))) r j = map_option (Pair (lg_end g mod MAX_RECORDS))
    (if lg_end (log_append r g) mod RECORDS_PER_SEGMENT = 0
     then journal_synchronize env (default_jops env (Suc m)) ((appended r g j)\<lparr>jr_status := JOURNAL_SYNCHRONIZING\<rparr>)
     else Some (appended r g j))"
proof -
  have "disk_inv env sector j g" using inv by (simp add: journal_inv_def)
  note d = disk_invD [OF this] and l = log_okD [OF disk_invD(2) [OF this]]
  let ?e = "lg_end g" and ?s = "lg_start g"
  have full: "(?e + 1) mod MAX_RECORDS = ?s mod MAX_RECORDS \<longleftrightarrow> ?e + 1 = ?s + MAX_RECORDS"
  proof
    assume "(?e + 1) mod MAX_RECORDS = ?s mod MAX_RECORDS"
    then show "?e + 1 = ?s + MAX_RECORDS" using mod_distinct [of ?s MAX_RECORDS "?e + 1"] l(1,2) by fastforce
  qed simp
  have next_seg: "(?e + 1) div RECORDS_PER_SEGMENT mod NR_JOURNAL_SEGMENT \<noteq> ?e div RECORDS_PER_SEGMENT mod NR_JOURNAL_SEGMENT \<longleftrightarrow>
      (?e + 1) mod RECORDS_PER_SEGMENT = 0"
    using div_Suc [of ?e RECORDS_PER_SEGMENT] mod_Suc [of "?e div RECORDS_PER_SEGMENT" NR_JOURNAL_SEGMENT]
    by (auto simp: journal_consts(8) split: if_splits)
  have mods: "(?e mod MAX_RECORDS + 1) mod MAX_RECORDS = (?e + 1) mod MAX_RECORDS"
    "(?s mod MAX_RECORDS + 1) mod MAX_RECORDS = (?s + 1) mod MAX_RECORDS" by presburger+
  let ?k = "?e div RECORDS_PER_BLOCK mod BLOCKS_PER_SEGMENT"
  define j2 where "j2 = set_block ?k (store_record (?e mod RECORDS_PER_BLOCK) r (jr_blocks j ! ?k))
    (j\<lparr>jr_segno := ?e div RECORDS_PER_SEGMENT mod NR_JOURNAL_SEGMENT\<rparr>)"
  have e2: "jr_record_end j2 = ?e mod MAX_RECORDS" "jr_record_start j2 = ?s mod MAX_RECORDS"
    using d(3,4) by (simp_all add: j2_def)
  have "journal_advance j2 = appended r g j"
    using full mods e2 by (simp add: journal_advance_def Let_def) (simp add: j2_def appended_def log_append_def Let_def set_block_def)
  moreover have "journal_should_sync (appended r g j) \<longleftrightarrow> lg_end (log_append r g) mod RECORDS_PER_SEGMENT = 0"
    using next_seg by (simp add: journal_should_sync_def appended_def log_append_def Let_def ring_simps)
  moreover have "jo_get_block (default_jops env (Suc (Suc m))) (jr_record_end j div RECORDS_PER_BLOCK) j =
      Some (?k, j\<lparr>jr_segno := ?e div RECORDS_PER_SEGMENT mod NR_JOURNAL_SEGMENT\<rparr>)" using get_end_block [OF inv] d(4) by simp
  moreover have "jr_record_end (j\<lparr>jr_segno := x\<rparr>) mod RECORDS_PER_BLOCK = ?e mod RECORDS_PER_BLOCK" for x by (simp add: d(4) ring_simps)
  ultimately show ?thesis unfolding d(4) [symmetric] by (simp add: journal_add_record_def Let_def j2_def [symmetric])
qed

lemma add_record_ok:
  assumes env: "journal_env_ok env sector" and inv: "journal_inv env sector j g" and r: "record_ok r"
  shows "\<exists>j'. journal_add_record (default_jops env (Suc (Suc (Suc m)))) r j = Some (lg_end g mod MAX_RECORDS, j') \<and>
    journal_inv env sector j' (log_add r g)"
proof -
  let ?g = "log_append r g" and ?j = "appended r g j"
  have d: "disk_inv env sector ?j ?g" using inv r by (simp add: journal_inv_def appended_disk)
  have b: "buffer_inv ?j ?g ((lg_end ?g - 1) div RECORDS_PER_SEGMENT)" using appended_buffer [OF inv r] by (simp add: log_append_def)
  have new: "lg_dend ?g < lg_end ?g" using log_okD(5) [of g] inv by (simp add: log_append_def journal_inv_def disk_inv_def)
  show ?thesis
  proof (cases "lg_end ?g mod RECORDS_PER_SEGMENT = 0")
    case True
    then show ?thesis
      using synchronize_ok [OF env, of "?j\<lparr>jr_status := JOURNAL_SYNCHRONIZING\<rparr>" ?g m] d b new
      by (auto simp: add_record_run [OF inv] log_add_def Let_def)
  next
    case False
    then have "(lg_end ?g - 1) div RECORDS_PER_SEGMENT = lg_end ?g div RECORDS_PER_SEGMENT"
      by (metis One_nat_def Suc_pred div_Suc mod_0 neq0_conv)
    then show ?thesis using False d b by (simp add: add_record_run [OF inv] log_add_def Let_def journal_inv_def)
  qed
qed

end
