(* ===== verification/Journal_Recovery.thy ===== *)
theory Journal_Recovery
  imports Journal_Log
begin

text \<open>
  Setting the journal up again: the records of the window the superblock names are loaded segment by
  segment and looked at in their order.
\<close>

section \<open>Loading a segment\<close>

definition disk_plain :: "('d, 'e, 's) journal_env \<Rightarrow> ('d \<Rightarrow> nat \<Rightarrow> byte list) \<Rightarrow> 'd \<Rightarrow> nat \<Rightarrow> nat \<Rightarrow> byte list" where
  "disk_plain env sector d rs i =
     (let b = i div RECORDS_PER_BLOCK mod MAX_BLOCKS in opened env b (disk_block sector d (rs + b)))"

text \<open>The buffer has the segment of record \<open>a\<close>, from the block of \<open>a\<close> on and up to the end of the window.\<close>

definition loaded :: "('d, 'e, 's) journal_env \<Rightarrow> ('d \<Rightarrow> nat \<Rightarrow> byte list) \<Rightarrow> ('d, 's) journal_region \<Rightarrow> nat \<Rightarrow> nat \<Rightarrow> bool" where
  "loaded env sector j e a \<longleftrightarrow> buffers_ok j \<and> jr_segno j = a div RECORDS_PER_SEGMENT mod NR_JOURNAL_SEGMENT \<and>
     (\<forall>k. a div RECORDS_PER_BLOCK \<le> k div RECORDS_PER_BLOCK \<and> k < e \<and> k div RECORDS_PER_SEGMENT = a div RECORDS_PER_SEGMENT \<longrightarrow>
        jr_blocks j ! (k div RECORDS_PER_BLOCK mod BLOCKS_PER_SEGMENT) = disk_plain env sector (jr_dev j) (region_start j) k)"

lemma loaded_mono:
  "loaded env sector j e a \<Longrightarrow> a \<le> b \<Longrightarrow> b div RECORDS_PER_SEGMENT = a div RECORDS_PER_SEGMENT \<Longrightarrow> loaded env sector j e b"
  unfolding loaded_def by (metis div_le_mono order_trans)

text \<open>The end of the window is in the ring behind \<open>a\<close> in the same segment only if there is no wrap between them.\<close>

lemma ring_behind:
  assumes "a < e" and "e < a + MAX_RECORDS"
  shows "a mod MAX_RECORDS < e mod MAX_RECORDS \<and> a div RECORDS_PER_SEGMENT mod NR_JOURNAL_SEGMENT = e div RECORDS_PER_SEGMENT mod NR_JOURNAL_SEGMENT
    \<longleftrightarrow> e div RECORDS_PER_SEGMENT = a div RECORDS_PER_SEGMENT"
proof -
  have ring: "x mod MAX_RECORDS = RECORDS_PER_SEGMENT * (x div RECORDS_PER_SEGMENT mod NR_JOURNAL_SEGMENT) + x mod RECORDS_PER_SEGMENT" for x
    using mod_mult2_eq [of x RECORDS_PER_SEGMENT NR_JOURNAL_SEGMENT] by (simp add: journal_consts)
  let ?A = "a div RECORDS_PER_SEGMENT" and ?E = "e div RECORDS_PER_SEGMENT"
  have de: "?A * RECORDS_PER_SEGMENT + a mod RECORDS_PER_SEGMENT = a" "?E * RECORDS_PER_SEGMENT + e mod RECORDS_PER_SEGMENT = e" by simp_all
  have ae: "?A \<le> ?E" using assms(1) by (intro div_le_mono) simp
  show ?thesis
  proof
    assume "a mod MAX_RECORDS < e mod MAX_RECORDS \<and> ?A mod NR_JOURNAL_SEGMENT = ?E mod NR_JOURNAL_SEGMENT"
    then have less: "a mod RECORDS_PER_SEGMENT < e mod RECORDS_PER_SEGMENT" and eq: "?A mod NR_JOURNAL_SEGMENT = ?E mod NR_JOURNAL_SEGMENT"
      using ring [of a] ring [of e] by auto
    have "?E < ?A + NR_JOURNAL_SEGMENT"
    proof (rule ccontr)
      assume "\<not> ?E < ?A + NR_JOURNAL_SEGMENT"
      then have "(?A + NR_JOURNAL_SEGMENT) * RECORDS_PER_SEGMENT \<le> ?E * RECORDS_PER_SEGMENT" by simp
      moreover have "(?A + NR_JOURNAL_SEGMENT) * RECORDS_PER_SEGMENT = ?A * RECORDS_PER_SEGMENT + MAX_RECORDS" by (simp add: journal_consts)
      ultimately show False using de less assms(2) by linarith
    qed
    then show "?E = ?A" using mod_distinct [OF eq ae] by simp
  next
    assume "?E = ?A"
    then have "?E * RECORDS_PER_SEGMENT = ?A * RECORDS_PER_SEGMENT" by simp
    then have "a mod RECORDS_PER_SEGMENT < e mod RECORDS_PER_SEGMENT" using de assms(1) by linarith
    then show "a mod MAX_RECORDS < e mod MAX_RECORDS \<and> ?A mod NR_JOURNAL_SEGMENT = ?E mod NR_JOURNAL_SEGMENT"
      using ring [of a] ring [of e] \<open>?E = ?A\<close> by simp
  qed
qed

lemma load_count:
  assumes "a < e" and "e < a + MAX_RECORDS"
  defines "bs \<equiv> a mod MAX_RECORDS div RECORDS_PER_BLOCK"
  defines "n \<equiv> (if e mod MAX_RECORDS > a mod MAX_RECORDS \<and> a mod MAX_RECORDS div RECORDS_PER_SEGMENT = e mod MAX_RECORDS div RECORDS_PER_SEGMENT
      then (e mod MAX_RECORDS - 1) div RECORDS_PER_BLOCK - bs + 1 else BLOCKS_PER_SEGMENT - bs mod BLOCKS_PER_SEGMENT)"
  shows "bs mod BLOCKS_PER_SEGMENT + n \<le> BLOCKS_PER_SEGMENT"
    and "a div RECORDS_PER_BLOCK \<le> k div RECORDS_PER_BLOCK \<Longrightarrow> k < e \<Longrightarrow> k div RECORDS_PER_SEGMENT = a div RECORDS_PER_SEGMENT \<Longrightarrow>
      k div RECORDS_PER_BLOCK - a div RECORDS_PER_BLOCK < n \<and>
      bs + (k div RECORDS_PER_BLOCK - a div RECORDS_PER_BLOCK) = k div RECORDS_PER_BLOCK mod MAX_BLOCKS \<and>
      bs mod BLOCKS_PER_SEGMENT + (k div RECORDS_PER_BLOCK - a div RECORDS_PER_BLOCK) = k div RECORDS_PER_BLOCK mod BLOCKS_PER_SEGMENT"
proof -
  let ?x = "a div RECORDS_PER_BLOCK"
  have bs: "bs = ?x mod MAX_BLOCKS" "bs mod BLOCKS_PER_SEGMENT = ?x mod BLOCKS_PER_SEGMENT" by (simp_all add: bs_def ring_simps)
  have bp: "y mod BLOCKS_PER_SEGMENT < BLOCKS_PER_SEGMENT" for y by simp
  have n: "n = (if e div RECORDS_PER_SEGMENT = a div RECORDS_PER_SEGMENT then (e - 1) div RECORDS_PER_BLOCK - ?x + 1
      else BLOCKS_PER_SEGMENT - bs mod BLOCKS_PER_SEGMENT)"
  proof (cases "e div RECORDS_PER_SEGMENT = a div RECORDS_PER_SEGMENT")
    case True
    then have c: "a mod MAX_RECORDS < e mod MAX_RECORDS" "a div RECORDS_PER_SEGMENT mod NR_JOURNAL_SEGMENT = e div RECORDS_PER_SEGMENT mod NR_JOURNAL_SEGMENT"
      using ring_behind [OF assms(1,2)] by auto
    then have "e mod MAX_RECORDS - 1 = (e - 1) mod MAX_RECORDS"
      using assms(1) by (metis Suc_diff_1 diff_Suc_1 gr_implies_not0 mod_Suc neq0_conv)
    moreover have le: "?x \<le> (e - 1) div RECORDS_PER_BLOCK" using assms(1) by (intro div_le_mono) simp
    moreover have "(e - 1) div RECORDS_PER_SEGMENT = a div RECORDS_PER_SEGMENT"
      using True assms(1) div_le_mono [of a "e - 1" RECORDS_PER_SEGMENT] div_le_mono [of "e - 1" e RECORDS_PER_SEGMENT] by simp
    ultimately have "(e mod MAX_RECORDS - 1) div RECORDS_PER_BLOCK - bs = (e - 1) div RECORDS_PER_BLOCK - ?x"
      using ring_same_segment(1) [of ?x "(e - 1) div RECORDS_PER_BLOCK"] by (simp add: ring_simps bs)
    then show ?thesis using c True by (simp add: n_def ring_simps)
  next
    case False
    then show ?thesis using ring_behind [OF assms(1,2)] by (auto simp: n_def ring_simps)
  qed
  have in_seg: "k div RECORDS_PER_BLOCK mod BLOCKS_PER_SEGMENT = ?x mod BLOCKS_PER_SEGMENT + (k div RECORDS_PER_BLOCK - ?x)"
    "k div RECORDS_PER_BLOCK mod MAX_BLOCKS = bs + (k div RECORDS_PER_BLOCK - ?x)"
    if "?x \<le> k div RECORDS_PER_BLOCK" "k div RECORDS_PER_SEGMENT = a div RECORDS_PER_SEGMENT" for k
    using ring_same_segment [of ?x "k div RECORDS_PER_BLOCK"] that by (simp_all add: ring_simps bs)
  show "bs mod BLOCKS_PER_SEGMENT + n \<le> BLOCKS_PER_SEGMENT"
  proof (cases "e div RECORDS_PER_SEGMENT = a div RECORDS_PER_SEGMENT")
    case True
    have "?x \<le> (e - 1) div RECORDS_PER_BLOCK" "(e - 1) div RECORDS_PER_SEGMENT = a div RECORDS_PER_SEGMENT"
      using True assms(1) div_le_mono [of a "e - 1"] div_le_mono [of "e - 1" e RECORDS_PER_SEGMENT] by (simp_all add: le_antisym)
    from in_seg(1) [OF this] show ?thesis using True bp [of "(e - 1) div RECORDS_PER_BLOCK"] by (simp add: n bs(2))
  qed (use bp [of bs] in \<open>simp add: n\<close>)
  assume k: "?x \<le> k div RECORDS_PER_BLOCK" "k < e" "k div RECORDS_PER_SEGMENT = a div RECORDS_PER_SEGMENT"
  have "k div RECORDS_PER_BLOCK \<le> (e - 1) div RECORDS_PER_BLOCK" using k(2) by (intro div_le_mono) simp
  moreover have "k div RECORDS_PER_BLOCK - ?x < BLOCKS_PER_SEGMENT - bs mod BLOCKS_PER_SEGMENT"
    using in_seg(1) [OF k(1,3)] bp [of "k div RECORDS_PER_BLOCK"] unfolding bs(2) by linarith
  ultimately have "k div RECORDS_PER_BLOCK - ?x < n"
    by (cases "e div RECORDS_PER_SEGMENT = a div RECORDS_PER_SEGMENT") (simp_all add: n less_Suc_eq_le diff_le_mono)
  then show "k div RECORDS_PER_BLOCK - ?x < n \<and> bs + (k div RECORDS_PER_BLOCK - ?x) = k div RECORDS_PER_BLOCK mod MAX_BLOCKS \<and>
      bs mod BLOCKS_PER_SEGMENT + (k div RECORDS_PER_BLOCK - ?x) = k div RECORDS_PER_BLOCK mod BLOCKS_PER_SEGMENT"
    using in_seg [OF k(1,3)] by (simp add: bs(2))
qed

lemma buffer_load_ok:
  assumes env: "journal_env_ok env sector" and j: "buffers_ok j" and ae: "a < e" "e < a + MAX_RECORDS"
  shows "\<exists>B. journal_buffer_load env (default_jops env (Suc (Suc m))) (a mod MAX_RECORDS) (e mod MAX_RECORDS) j =
      Some (j\<lparr>jr_segno := a div RECORDS_PER_SEGMENT mod NR_JOURNAL_SEGMENT, jr_blocks := B, jr_status := JOURNAL_LOADED\<rparr>) \<and>
    loaded env sector (j\<lparr>jr_segno := a div RECORDS_PER_SEGMENT mod NR_JOURNAL_SEGMENT, jr_blocks := B, jr_status := JOURNAL_LOADED\<rparr>) e a"
proof -
  define bs where "bs = a mod MAX_RECORDS div RECORDS_PER_BLOCK"
  define n where "n = (if e mod MAX_RECORDS > a mod MAX_RECORDS \<and> a mod MAX_RECORDS div RECORDS_PER_SEGMENT = e mod MAX_RECORDS div RECORDS_PER_SEGMENT
      then (e mod MAX_RECORDS - 1) div RECORDS_PER_BLOCK - bs + 1 else BLOCKS_PER_SEGMENT - bs mod BLOCKS_PER_SEGMENT)"
  note c = load_count [OF ae, folded bs_def, folded n_def]
  define j1 where "j1 = j\<lparr>jr_segno := a mod MAX_RECORDS div RECORDS_PER_SEGMENT\<rparr>"
  have j1: "buffers_ok j1" "bs div BLOCKS_PER_SEGMENT = jr_segno j1" using j by (simp_all add: j1_def buffers_ok_def bs_def ring_simps)
  obtain B where B: "decrypt_loop (default_jops env (Suc (Suc m))) bs [0..<n] (load_loop env bs (bs mod BLOCKS_PER_SEGMENT) [0..<n] j1) = Some (j1\<lparr>jr_blocks := B\<rparr>)"
    "buffers_ok (j1\<lparr>jr_blocks := B\<rparr>)"
    "\<forall>i < n. B ! (bs mod BLOCKS_PER_SEGMENT + i) = opened env (bs + i) (disk_block sector (jr_dev j1) (region_start j1 + bs + i))"
    using load_run [OF env j1(1) c(1) j1(2), of m] by blast
  have "a mod MAX_RECORDS \<noteq> e mod MAX_RECORDS" using mod_distinct [of a MAX_RECORDS e] ae by auto
  moreover have "a mod MAX_RECORDS div RECORDS_PER_SEGMENT < NR_JOURNAL_SEGMENT" by (simp add: ring_simps journal_consts(8))
  ultimately have run: "journal_buffer_load env (default_jops env (Suc (Suc m))) (a mod MAX_RECORDS) (e mod MAX_RECORDS) j =
      Some (j1\<lparr>jr_blocks := B, jr_status := JOURNAL_LOADED\<rparr>)"
    using B(1) unfolding journal_buffer_load_def Let_def bs_def [symmetric] n_def [symmetric] j1_def [symmetric] by simp
  have "B ! (k div RECORDS_PER_BLOCK mod BLOCKS_PER_SEGMENT) = disk_plain env sector (jr_dev j) (region_start j) k"
    if "a div RECORDS_PER_BLOCK \<le> k div RECORDS_PER_BLOCK" "k < e" "k div RECORDS_PER_SEGMENT = a div RECORDS_PER_SEGMENT" for k
    using c(2) [OF that] B(3) by (auto simp: disk_plain_def Let_def j1_def add.assoc)
  then have "loaded env sector (j1\<lparr>jr_blocks := B, jr_status := JOURNAL_LOADED\<rparr>) e a"
    using B(2) by (simp add: loaded_def j1_def ring_simps buffers_ok_def)
  then show ?thesis using run by (intro exI [of _ B]) (simp add: j1_def ring_simps)
qed

section \<open>The walk of recovery\<close>

text \<open>What changes while records are looked at: the buffer, the status and the list of records.\<close>

definition same_journal :: "('d, 's) journal_region \<Rightarrow> ('d, 's) journal_region \<Rightarrow> bool" where
  "same_journal j j' \<longleftrightarrow> jr_dev j' = jr_dev j \<and> jr_superblock j' = jr_superblock j \<and> jr_record_start j' = jr_record_start j \<and>
     jr_record_end j' = jr_record_end j \<and> jr_last_sync_record j' = jr_last_sync_record j \<and> jr_sb_dev j' = jr_sb_dev j"

lemma same_journalD:
  assumes "same_journal j j'"
  shows "jr_dev j' = jr_dev j" "jr_superblock j' = jr_superblock j" "jr_record_start j' = jr_record_start j"
    "jr_record_end j' = jr_record_end j" "jr_last_sync_record j' = jr_last_sync_record j" "jr_sb_dev j' = jr_sb_dev j"
  using assms by (simp_all add: same_journal_def)

text \<open>Record \<open>i\<close>, after the record before it or as the first one.\<close>

lemma get_block_loaded:
  assumes env: "journal_env_ok env sector" and ld: "loaded env sector j e a" and a: "a = i \<or> Suc a = i"
    and i: "i < e" "e < i + MAX_RECORDS" and re: "jr_record_end j = e mod MAX_RECORDS"
  shows "\<exists>j'. journal_get_block (default_jops env (Suc (Suc (Suc m)))) (i mod MAX_RECORDS div RECORDS_PER_BLOCK) j =
      Some (i div RECORDS_PER_BLOCK mod BLOCKS_PER_SEGMENT, j') \<and>
    same_journal j j' \<and> jr_recovered j' = jr_recovered j \<and> loaded env sector j' e i"
proof (cases "i div RECORDS_PER_SEGMENT = a div RECORDS_PER_SEGMENT")
  case True
  then have "i mod MAX_RECORDS div RECORDS_PER_BLOCK div BLOCKS_PER_SEGMENT = jr_segno j" using ld by (simp add: loaded_def ring_simps)
  moreover have "loaded env sector j e i" using loaded_mono [OF ld, of i] a True by auto
  ultimately show ?thesis by (auto simp: get_block_same ring_simps same_journal_def)
next
  case False
  then have "i = Suc a" using a by auto
  then have s: "i mod RECORDS_PER_SEGMENT = 0" "i div RECORDS_PER_SEGMENT = Suc (a div RECORDS_PER_SEGMENT)"
    using False div_Suc [of a RECORDS_PER_SEGMENT] by (auto split: if_splits)
  then have "i div RECORDS_PER_SEGMENT mod NR_JOURNAL_SEGMENT \<noteq> jr_segno j"
    using ld mod_Suc [of "a div RECORDS_PER_SEGMENT" NR_JOURNAL_SEGMENT] by (auto simp: loaded_def journal_consts(8))
  moreover have "i mod MAX_RECORDS div RECORDS_PER_BLOCK * RECORDS_PER_BLOCK = i mod MAX_RECORDS"
    using div_mult_mod_eq [of "i mod MAX_RECORDS" RECORDS_PER_BLOCK] segment_start_block [OF s(1)] by (simp add: ring_simps)
  moreover have "buffers_ok j" using ld by (simp add: loaded_def)
  from buffer_load_ok [OF env this i, of m] obtain B where
    B: "journal_buffer_load env (default_jops env (Suc (Suc m))) (i mod MAX_RECORDS) (e mod MAX_RECORDS) j =
      Some (j\<lparr>jr_segno := i div RECORDS_PER_SEGMENT mod NR_JOURNAL_SEGMENT, jr_blocks := B, jr_status := JOURNAL_LOADED\<rparr>)"
    "loaded env sector (j\<lparr>jr_segno := i div RECORDS_PER_SEGMENT mod NR_JOURNAL_SEGMENT, jr_blocks := B, jr_status := JOURNAL_LOADED\<rparr>) e i"
    by blast
  ultimately show ?thesis using re by (auto simp: journal_get_block_def Let_def ring_simps same_journal_def)
qed

lemma recover_loop_ok:
  assumes env: "journal_env_ok env sector"
  shows "loaded env sector j e a \<Longrightarrow> a = i \<or> Suc a = i \<Longrightarrow> i \<le> e \<Longrightarrow> e < i + MAX_RECORDS \<Longrightarrow> jr_record_end j = e mod MAX_RECORDS \<Longrightarrow>
    \<exists>j' b. recover_loop (default_jops env (Suc (Suc (Suc (Suc m))))) (i mod MAX_RECORDS) j = Some j' \<and> same_journal j j' \<and>
      jr_recovered j' = jr_recovered j @
        map (\<lambda>k. block_record (disk_plain env sector (jr_dev j) (region_start j) k) (k mod RECORDS_PER_BLOCK)) [i..<e] \<and>
      loaded env sector j' e b \<and> (if i = e then b = a else Suc b = e)"
proof (induction "e - i" arbitrary: i a j)
  case 0
  then show ?case by (auto simp: recover_loop.simps same_journal_def)
next
  case (Suc x)
  let ?jops = "default_jops env (Suc (Suc (Suc (Suc m))))" and ?k = "i div RECORDS_PER_BLOCK mod BLOCKS_PER_SEGMENT"
  let ?rec = "\<lambda>k. block_record (disk_plain env sector (jr_dev j) (region_start j) k) (k mod RECORDS_PER_BLOCK)"
  have i: "i < e" using Suc.hyps(2) by simp
  obtain j1 where j1: "jo_get_block ?jops (i mod MAX_RECORDS div RECORDS_PER_BLOCK) j = Some (?k, j1)" "same_journal j j1"
    "jr_recovered j1 = jr_recovered j" "loaded env sector j1 e i"
    using get_block_loaded [OF env Suc.prems(1,2) i Suc.prems(4,5), of m] by auto
  note same = same_journalD [OF j1(2)]
  define j2 where "j2 = j1\<lparr>jr_recovered := jr_recovered j @ [?rec i]\<rparr>"
  have "jr_blocks j1 ! ?k = disk_plain env sector (jr_dev j) (region_start j) i"
    using j1(4) i same by (simp add: loaded_def)
  moreover have ne: "i mod MAX_RECORDS \<noteq> jr_record_end j" using mod_distinct [of i MAX_RECORDS e] i Suc.prems(4,5) by auto
  moreover have "(i mod MAX_RECORDS + 1) mod MAX_RECORDS = Suc i mod MAX_RECORDS" by presburger
  ultimately have step: "recover_loop ?jops (i mod MAX_RECORDS) j = recover_loop ?jops (Suc i mod MAX_RECORDS) j2"
    by (simp add: recover_loop.simps [of _ "i mod MAX_RECORDS"] j1(1,3) j2_def ring_simps(2) del: default_jops_Suc)
  have j2: "jr_dev j2 = jr_dev j" "region_start j2 = region_start j" "jr_record_end j2 = jr_record_end j" "loaded env sector j2 e i"
    "same_journal j j2"
    using same j1(2,4) by (simp_all add: j2_def loaded_def buffers_ok_def same_journal_def)
  have "x = e - Suc i" "Suc i \<le> e" using Suc.hyps(2) by simp_all
  from Suc.hyps(1) [OF this(1) j2(4) _ this(2)] Suc.prems(4,5) j2(3) obtain j' b where
    r: "recover_loop ?jops (Suc i mod MAX_RECORDS) j2 = Some j'" "same_journal j2 j'" "loaded env sector j' e b"
      "jr_recovered j' = jr_recovered j2 @ map (\<lambda>k. block_record (disk_plain env sector (jr_dev j2) (region_start j2) k) (k mod RECORDS_PER_BLOCK)) [Suc i..<e]"
      "if Suc i = e then b = i else Suc b = e" by auto
  have "same_journal j j'" using j2(5) r(2) by (simp add: same_journal_def)
  moreover have "jr_recovered j' = jr_recovered j @ map ?rec [i..<e]"
    using r(4) i unfolding j2(1,2) by (simp add: j2_def upt_conv_Cons)
  ultimately show ?case using step r(1,3,5) i by (intro exI [of _ j'] exI [of _ b]) (auto split: if_splits)
qed

end
