(* ===== verification/Journal_Steps.thy ===== *)
theory Journal_Steps
  imports Journal_Recovery
begin

text \<open>
  The journal as a state machine: records are added, the journal is synchronised, a checkpoint moves its
  start, and the device is set up again with whatever memory the new region gets.  The log says what
  each of these does; a restart finds the window of the last synchronisation.
\<close>

section \<open>Restart\<close>

text \<open>
  The memory \<open>m\<close> of the new region: its fields may hold anything, but it is about the same disk, of which
  the superblock \<open>sb\<close> has been read into other memory.  In the program it must have passed its check first, which
  nothing here needs.
\<close>

definition restart_memory :: "('d, 'e, 's) journal_env \<Rightarrow> ('d, 's) journal_region \<Rightarrow> superblock \<Rightarrow> ('d, 's) journal_region \<Rightarrow> bool" where
  "restart_memory env j sb m \<longleftrightarrow> (\<exists>mem. superblock_read (jn_sb env) mem (jr_sb_dev j) = (Inr sb, jr_sb_dev m)) \<and> jr_dev m = jr_dev j \<and>
     length (jr_previous_blk m) = CRYPTO_INFO_SIZE \<and> jr_recovered m = []"

definition log_restart :: "journal_record \<Rightarrow> journal_log \<Rightarrow> journal_log" where
  "log_restart stack g =
     (if lg_dstart g = lg_dend g then g\<lparr>lg_start := 0, lg_end := 1, lg_rec := (lg_rec g)(0 := stack\<lparr>jrec_type := 4\<rparr>)\<rparr>
      else g\<lparr>lg_start := lg_dstart g, lg_end := lg_dend g\<rparr>)"

lemma restart_superblock:
  assumes "journal_env_ok env sector" and "disk_inv env sector j g" and "restart_memory env j sb m"
  shows "sb_record_start sb = lg_dstart g mod MAX_RECORDS" "sb_record_end sb = lg_dend g mod MAX_RECORDS"
    "sb_journal_region_start sb = region_start j" "\<exists>mem s. superblock_read (jn_sb env) mem (jr_sb_dev m) = (Inr sb, s)"
proof -
  let ?e = "jn_sb env"
  obtain mem where rd: "superblock_read ?e mem (jr_sb_dev j) = (Inr sb, jr_sb_dev m)" using assms(3) by (auto simp: restart_memory_def)
  then obtain d disk where d: "se_rd ?e (jr_sb_dev j) = (Inr d, jr_sb_dev m)" "se_dec ?e d = Inr disk" "sb = in_memory mem disk"
    by (auto simp: superblock_read_Inr)
  then show "sb_record_start sb = lg_dstart g mod MAX_RECORDS" "sb_record_end sb = lg_dend g mod MAX_RECORDS"
    "sb_journal_region_start sb = region_start j" using disk_invD(6) [OF assms(2)] by (auto simp: superblock_has_def superblock_read_Inr)
  obtain s' where "se_rd ?e (jr_sb_dev m) = (Inr d, s')" using journal_env_okD(5) [OF assms(1)] d(1) unfolding sb_writes_def by blast
  then show "\<exists>mem s. superblock_read ?e mem (jr_sb_dev m) = (Inr sb, s)" using d(2,3) by (auto simp: superblock_read_Inr)
qed

text \<open>The region as \<^verbatim>\<open>journal_region_init\<close> has it before the journal is loaded.\<close>

definition set_up :: "superblock \<Rightarrow> ('d, 's) journal_region \<Rightarrow> ('d, 's) journal_region" where
  "set_up sb m = m\<lparr>jr_status := JOURNAL_UNINITIALIZED, jr_superblock := sb, jr_record_start := sb_record_start sb,
     jr_record_end := sb_record_end sb, jr_blocks := replicate BLOCKS_PER_SEGMENT (replicate JOURNAL_BLOCK_SIZE 0)\<rparr>"

lemma init_set_up:
  "journal_env_ok env sector \<Longrightarrow> journal_region_init True env jops stack sb m =
    Option.bind (journal_region_load jops stack (set_up sb m)) (journal_region_ready jops)"
  by (simp add: journal_region_init_def journal_env_okD(6) set_up_def Let_def)

lemma set_up_buffers: "length (jr_previous_blk m) = CRYPTO_INFO_SIZE \<Longrightarrow> buffers_ok (set_up sb m)"
  by (simp add: buffers_ok_def set_up_def journal_consts(7))

text \<open>A window of one record is not recovered, and the record synchronised last is not set.\<close>

lemma restart_run:
  assumes env: "journal_env_ok env sector" and inv: "disk_inv env sector j g" and m: "restart_memory env j sb m"
    and window: "lg_dstart g < lg_dend g"
  shows "\<exists>j' b. journal_region_init True env (default_jops env (Suc (Suc (Suc (Suc (Suc x)))))) stack sb m = Some (Inr (), j') \<and>
    jr_recovered j' = (if lg_dend g = lg_dstart g + 1 then [] else
      map (\<lambda>k. block_record (disk_plain env sector (jr_dev j) (region_start j) k) (k mod RECORDS_PER_BLOCK)) [lg_dstart g..<lg_dend g]) \<and>
    same_journal ((set_up sb m)\<lparr>jr_last_sync_record := if lg_dend g = lg_dstart g + 1 then jr_last_sync_record m else lg_dend g mod MAX_RECORDS\<rparr>) j' \<and>
    loaded env sector j' (lg_dend g) b \<and> Suc b = lg_dend g"
proof -
  let ?ds = "lg_dstart g" and ?de = "lg_dend g" and ?jops = "default_jops env (Suc (Suc (Suc (Suc (Suc x)))))"
  note sb = restart_superblock [OF env inv m] and l = log_okD [OF disk_invD(2) [OF inv]]
  have bo: "buffers_ok (set_up sb m)" using m by (intro set_up_buffers) (simp add: restart_memory_def)
  have se: "jr_record_start (set_up sb m) = ?ds mod MAX_RECORDS" "jr_record_end (set_up sb m) = ?de mod MAX_RECORDS"
    using sb by (simp_all add: set_up_def)
  obtain B where B: "journal_buffer_load env (default_jops env (Suc (Suc (Suc (Suc x))))) (?ds mod MAX_RECORDS) (?de mod MAX_RECORDS) (set_up sb m) =
      Some ((set_up sb m)\<lparr>jr_segno := ?ds div RECORDS_PER_SEGMENT mod NR_JOURNAL_SEGMENT, jr_blocks := B, jr_status := JOURNAL_LOADED\<rparr>)"
    "loaded env sector ((set_up sb m)\<lparr>jr_segno := ?ds div RECORDS_PER_SEGMENT mod NR_JOURNAL_SEGMENT, jr_blocks := B, jr_status := JOURNAL_LOADED\<rparr>) ?de ?ds"
    using buffer_load_ok [OF env bo window l(6), of "Suc (Suc x)"] by blast
  define j1 where "j1 = (set_up sb m)\<lparr>jr_segno := ?ds div RECORDS_PER_SEGMENT mod NR_JOURNAL_SEGMENT, jr_blocks := B, jr_status := JOURNAL_LOADED\<rparr>"
  have "?ds mod MAX_RECORDS \<noteq> ?de mod MAX_RECORDS" using mod_distinct [of ?ds MAX_RECORDS ?de] window l(6) by auto
  then have load: "journal_region_load ?jops stack (set_up sb m) = Some j1"
    using B(1) by (simp add: journal_region_load_def se j1_def)
  have j1: "jr_status j1 = JOURNAL_LOADED" "jr_recovered j1 = []" "jr_record_start j1 = ?ds mod MAX_RECORDS" "jr_record_end j1 = ?de mod MAX_RECORDS"
    "jr_dev j1 = jr_dev j" "region_start j1 = region_start j" "loaded env sector j1 ?de ?ds"
    using B(2) m sb se by (simp_all add: j1_def restart_memory_def set_up_def)
  have one: "?de mod MAX_RECORDS = (?ds mod MAX_RECORDS + 1) mod MAX_RECORDS \<longleftrightarrow> ?de = ?ds + 1"
  proof
    assume "?de mod MAX_RECORDS = (?ds mod MAX_RECORDS + 1) mod MAX_RECORDS"
    then have "(?ds + 1) mod MAX_RECORDS = ?de mod MAX_RECORDS" by (metis mod_add_left_eq)
    then show "?de = ?ds + 1" using mod_distinct [of "?ds + 1" MAX_RECORDS ?de] window l(6) by simp
  qed (simp add: mod_simps)
  show ?thesis
  proof (cases "?de = ?ds + 1")
    case True
    let ?j = "j1\<lparr>jr_status := JOURNAL_READY\<rparr>"
    have "journal_region_ready ?jops j1 = Some (Inr (), ?j)"
      using True one j1 by (simp add: journal_region_ready_def journal_should_recover_def)
    moreover have "loaded env sector ?j ?de ?ds" using j1(7) by (simp add: loaded_def buffers_ok_def)
    moreover have "same_journal ((set_up sb m)\<lparr>jr_last_sync_record := jr_last_sync_record m\<rparr>) ?j"
      by (simp add: same_journal_def j1_def set_up_def)
    ultimately show ?thesis using True load j1(2) by (intro exI [of _ ?j] exI [of _ ?ds]) (simp add: init_set_up [OF env])
  next
    case False
    let ?j = "j1\<lparr>jr_status := JOURNAL_RECOVERING\<rparr>"
    have "loaded env sector ?j ?de ?ds" using j1(7) by (simp add: loaded_def buffers_ok_def)
    from recover_loop_ok [OF env this, of ?ds x] window l(6) j1 False obtain j2 b where
      r: "recover_loop (default_jops env (Suc (Suc (Suc (Suc x))))) (?ds mod MAX_RECORDS) ?j = Some j2" "same_journal ?j j2"
        "jr_recovered j2 = map (\<lambda>k. block_record (disk_plain env sector (jr_dev j) (region_start j) k) (k mod RECORDS_PER_BLOCK)) [?ds..<?de]"
        "loaded env sector j2 ?de b" "Suc b = ?de" by auto
    let ?j2 = "j2\<lparr>jr_last_sync_record := jr_record_end j2, jr_status := JOURNAL_READY\<rparr>"
    have "journal_region_ready ?jops j1 = Some (Inr (), ?j2)"
      using False one j1 r(1) by (simp add: journal_region_ready_def journal_should_recover_def journal_recover_def)
    moreover have "loaded env sector ?j2 ?de b" using r(4) by (simp add: loaded_def buffers_ok_def)
    moreover have "same_journal ((set_up sb m)\<lparr>jr_last_sync_record := ?de mod MAX_RECORDS\<rparr>) ?j2"
      using same_journalD [OF r(2)] j1(4) by (simp add: same_journal_def j1_def)
    ultimately show ?thesis using False load r(3,5) by (intro exI [of _ ?j2] exI [of _ b]) (simp add: init_set_up [OF env])
  qed
qed

lemma restart_inv:
  assumes env: "journal_env_ok env sector" and inv: "disk_inv env sector j g" and m: "restart_memory env j sb m"
    and window: "lg_dstart g < lg_dend g" and last: "lg_dend g = lg_dstart g + 1 \<longrightarrow> jr_last_sync_record m = lg_dend g mod MAX_RECORDS"
    and same: "same_journal ((set_up sb m)\<lparr>jr_last_sync_record := if lg_dend g = lg_dstart g + 1 then jr_last_sync_record m else lg_dend g mod MAX_RECORDS\<rparr>) j'"
    and ld: "loaded env sector j' (lg_dend g) b" "Suc b = lg_dend g"
  shows "journal_inv env sector j' (log_restart stack g)"
proof -
  let ?ds = "lg_dstart g" and ?de = "lg_dend g" and ?g = "log_restart stack g"
  note sb = restart_superblock [OF env inv m] and l = log_okD [OF disk_invD(2) [OF inv]] and s = same_journalD [OF same]
  have g: "lg_start ?g = ?ds" "lg_end ?g = ?de" "lg_dstart ?g = ?ds" "lg_dend ?g = ?de" "lg_rec ?g = lg_rec g"
    using window by (simp_all add: log_restart_def)
  have j': "jr_dev j' = jr_dev j" "region_start j' = region_start j" "jr_superblock j' = sb" "jr_sb_dev j' = jr_sb_dev m"
    "jr_record_start j' = ?ds mod MAX_RECORDS" "jr_record_end j' = ?de mod MAX_RECORDS" "jr_last_sync_record j' = ?de mod MAX_RECORDS"
    using s sb m last by (auto simp: set_up_def restart_memory_def)
  have disk: "on_disk env sector (jr_dev j) (region_start j) i (lg_rec g i)" if "?ds \<le> i" "i < ?de" "kept ?de i" for i
    by (rule disk_invD(7) [OF inv that])
  have "log_ok ?g" using l window by (simp add: log_ok_def g)
  moreover have "superblock_has env j' ?g" unfolding superblock_has_def g j'(2-4) using sb by auto
  moreover have "buffers_ok j'" using ld(1) by (simp add: loaded_def)
  ultimately have d: "disk_inv env sector j' ?g" using disk unfolding disk_inv_def g j' sb(3) by simp
  have "buffer_inv j' ?g (?de div RECORDS_PER_SEGMENT)" if "?de mod RECORDS_PER_SEGMENT \<noteq> 0"
  proof -
    have seg: "b div RECORDS_PER_SEGMENT = ?de div RECORDS_PER_SEGMENT" using that div_Suc [of b RECORDS_PER_SEGMENT] ld(2) by (simp split: if_splits)
    have "in_buffer j' i (lg_rec g i)" if i: "?ds \<le> i" "i < ?de" "?de div RECORDS_PER_BLOCK \<le> i div RECORDS_PER_BLOCK" for i
    proof -
      have "i \<le> b" using i(2) ld(2) by simp
      then have "i div RECORDS_PER_BLOCK \<le> b div RECORDS_PER_BLOCK" "b div RECORDS_PER_BLOCK \<le> ?de div RECORDS_PER_BLOCK"
        using ld(2) by (simp_all add: div_le_mono)
      then have eq: "i div RECORDS_PER_BLOCK = b div RECORDS_PER_BLOCK" using i(3) by simp
      then have "i div RECORDS_PER_SEGMENT = b div RECORDS_PER_SEGMENT" by (metis ring_simps(7))
      then have "jr_blocks j' ! (i div RECORDS_PER_BLOCK mod BLOCKS_PER_SEGMENT) = disk_plain env sector (jr_dev j) (region_start j) i"
        using ld(1) i(2) eq unfolding loaded_def j'(1,2) by (metis order_refl)
      moreover have "?de - 1 = b" using ld(2) by simp
      then have "kept ?de i" using eq by (simp add: kept_def journal_consts(3))
      ultimately show ?thesis using disk [OF i(1,2)] by (simp add: in_buffer_def on_disk_def disk_plain_def Let_def)
    qed
    then show ?thesis using ld(1) seg unfolding buffer_inv_def g loaded_def by simp
  qed
  then show ?thesis using d unfolding journal_inv_def g by blast
qed

text \<open>A superblock with an empty window, as a format writes it: the journal begins with a checkpoint record.\<close>

definition empty_journal :: "('d, 'e, 's) journal_env \<Rightarrow> superblock \<Rightarrow> ('d, 's) journal_region \<Rightarrow> bool" where
  "empty_journal env sb m \<longleftrightarrow> (\<exists>mem s. superblock_read (jn_sb env) mem (jr_sb_dev m) = (Inr sb, s)) \<and> sb_record_start sb = 0 \<and>
     sb_record_end sb = 0 \<and> length (jr_previous_blk m) = CRYPTO_INFO_SIZE"

definition first_log :: "journal_record \<Rightarrow> (nat \<Rightarrow> journal_record) \<Rightarrow> journal_log" where
  "first_log stack R = \<lparr>lg_start = 0, lg_end = 1, lg_dstart = 0, lg_dend = 0, lg_rec = R(0 := stack\<lparr>jrec_type := 4\<rparr>)\<rparr>"

lemma boot_empty:
  assumes env: "journal_env_ok env sector" and m: "empty_journal env sb m" and stack: "record_ok stack"
  shows "\<exists>j'. journal_region_init True env (default_jops env (Suc (Suc (Suc x)))) stack sb m = Some (Inr (), j') \<and>
    journal_inv env sector j' (first_log stack R)"
proof -
  let ?jops = "default_jops env (Suc (Suc (Suc x)))" and ?g = "first_log stack R" and ?r = "stack\<lparr>jrec_type := 4\<rparr>"
  let ?z = "replicate JOURNAL_BLOCK_SIZE (0 :: byte)"
  have sb: "\<exists>mem s. superblock_read (jn_sb env) mem (jr_sb_dev m) = (Inr sb, s)" "sb_record_start sb = 0" "sb_record_end sb = 0"
    "length (jr_previous_blk m) = CRYPTO_INFO_SIZE" using m by (auto simp: empty_journal_def)
  define j1 where "j1 = (set_block 0 (store_record 0 ?r ?z) (set_up sb m))\<lparr>jr_segno := 0, jr_record_start := 0, jr_record_end := 1\<rparr>"
  define j2 where "j2 = j1\<lparr>jr_last_sync_record := 0, jr_status := JOURNAL_READY\<rparr>"
  have r: "record_ok ?r" using stack by (simp add: record_ok_def)
  have zl: "length ?z = 4096" "0 < RECORDS_PER_BLOCK" by (simp_all add: journal_consts)
  have "journal_add_record (default_jops env (Suc (Suc x))) ?r ((set_up sb m)\<lparr>jr_segno := 0\<rparr>) = Some (0, j1)"
    using sb by (simp add: journal_add_record_def get_block_same set_up_def j1_def set_block_def journal_advance_def
        journal_should_sync_def Let_def journal_consts(2,4))
  then have "journal_region_load ?jops stack (set_up sb m) = Some (j1\<lparr>jr_last_sync_record := 0, jr_status := JOURNAL_LOADED\<rparr>)"
    using sb by (simp add: journal_region_load_def set_up_def j1_def)
  moreover have "journal_region_ready ?jops (j1\<lparr>jr_last_sync_record := 0, jr_status := JOURNAL_LOADED\<rparr>) = Some (Inr (), j2)"
    by (simp add: journal_region_ready_def journal_should_recover_def j1_def j2_def journal_consts(4))
  ultimately have run: "journal_region_init True env ?jops stack sb m = Some (Inr (), j2)" by (simp add: init_set_up [OF env])
  have g: "lg_start ?g = 0" "lg_end ?g = 1" "lg_dstart ?g = 0" "lg_dend ?g = 0" "lg_rec ?g 0 = ?r" by (simp_all add: first_log_def)
  have "buffers_ok (set_block 0 (store_record 0 ?r ?z) (set_up sb m))"
    by (rule buffers_ok_set [OF set_up_buffers [OF sb(4)] length_store_record [OF zl(1) r zl(2)]])
  then have "buffers_ok j2" by (simp add: j2_def j1_def buffers_ok_def)
  moreover have "superblock_has env j2 ?g" using sb by (auto simp: superblock_has_def g j2_def j1_def set_up_def)
  ultimately have d: "disk_inv env sector j2 ?g" by (simp add: disk_inv_def g log_ok_def j2_def j1_def journal_consts(4))
  have "block_has (jr_blocks j2 ! 0) 0 ?r" using store_record_has(1) [OF zl(1) r zl(2)]
    by (simp add: j2_def j1_def set_up_def)
  then have "in_buffer j2 0 (lg_rec ?g 0)" by (simp add: in_buffer_def g)
  moreover have "jr_segno j2 = 0" by (simp add: j2_def j1_def)
  ultimately have "buffer_inv j2 ?g 0" unfolding buffer_inv_def g(1-4) by simp
  then have "journal_inv env sector j2 ?g" using d by (simp add: journal_inv_def g journal_consts(2))
  then show ?thesis using run by blast
qed

lemma restart_empty:
  assumes "journal_env_ok env sector" and inv: "disk_inv env sector j g" and m: "restart_memory env j sb m" and empty: "lg_dstart g = lg_dend g"
  shows "empty_journal env sb m" and "log_restart stack g = first_log stack (lg_rec g)"
proof -
  note sb = restart_superblock [OF assms(1) inv m]
  have z: "lg_dend g = 0" "lg_dstart g = 0" using log_okD(7) [OF disk_invD(2) [OF inv] empty] empty by simp_all
  then show "empty_journal env sb m" using sb m by (auto simp: empty_journal_def restart_memory_def)
  show "log_restart stack g = first_log stack (lg_rec g)" using z by (simp add: log_restart_def first_log_def)
qed

section \<open>Steps\<close>

text \<open>
  The end of \<^verbatim>\<open>add_checkpoint_pack_record\<close>, with the index \<open>i\<close> of the record it has added.
\<close>

definition begin_at :: "nat \<Rightarrow> ('d, 's) journal_region \<Rightarrow> ('d, 's) journal_region" where
  "begin_at i j = j\<lparr>jr_superblock := (jr_superblock j)\<lparr>sb_last_checkpoint_pack := i\<rparr>, jr_record_start := i\<rparr>"

inductive journal_step ::
  "('d, 'e, 's) journal_env \<Rightarrow> nat \<Rightarrow> ('d, 's) journal_region \<times> journal_log \<Rightarrow> ('d, 's) journal_region \<times> journal_log \<Rightarrow> bool"
  for env n where
  add: "record_ok r \<Longrightarrow> jo_add_record (default_jops env n) r j = Some (i, j') \<Longrightarrow> journal_step env n (j, g) (j', log_add r g)"
| sync: "jo_synchronize (default_jops env n) j = Some j' \<Longrightarrow> journal_step env n (j, g) (j', log_sync g)"
| checkpoint: "record_ok r \<Longrightarrow> jo_add_record (default_jops env n) r j = Some (i, j') \<Longrightarrow>
    journal_step env n (j, g) (begin_at i j', (log_add r g)\<lparr>lg_start := lg_end g\<rparr>)"
| restart: "restart_memory env j sb m \<Longrightarrow> record_ok stack \<Longrightarrow>
    lg_dend g = lg_dstart g + 1 \<longrightarrow> jr_last_sync_record m = lg_dend g mod MAX_RECORDS \<Longrightarrow>
    journal_region_init True env (default_jops env n) stack sb m = Some (Inr (), j') \<Longrightarrow>
    journal_step env n (j, g) (j', log_restart stack g)"

inductive_cases journal_stepE: "journal_step env n (j, g) (j', g')"

text \<open>The operations call each other through at most five levels of the table.\<close>

lemma depth: "5 \<le> n \<Longrightarrow> \<exists>x. n = Suc (Suc (Suc (Suc (Suc x))))"
  by presburger

lemma add_step:
  assumes env: "journal_env_ok env sector" "5 \<le> n" and inv: "journal_inv env sector j g" and r: "record_ok r"
  shows "\<exists>j'. jo_add_record (default_jops env n) r j = Some (lg_end g mod MAX_RECORDS, j') \<and> journal_inv env sector j' (log_add r g)"
  using depth [OF env(2)] add_record_ok [OF env(1) inv r] by auto

lemma sync_step:
  assumes env: "journal_env_ok env sector" "5 \<le> n" and inv: "journal_inv env sector j g"
  shows "\<exists>j'. jo_synchronize (default_jops env n) j = Some j' \<and> journal_inv env sector j' (log_sync g)"
  using depth [OF env(2)] synchronize_inv [OF env(1) inv] by auto

lemma boot_step:
  assumes env: "journal_env_ok env sector" "5 \<le> n" and "empty_journal env sb m" and "record_ok stack"
  shows "\<exists>j'. journal_region_init True env (default_jops env n) stack sb m = Some (Inr (), j') \<and> journal_inv env sector j' (first_log stack R)"
proof -
  obtain x where "n = Suc (Suc (Suc (Suc (Suc x))))" using depth [OF env(2)] by blast
  then show ?thesis using boot_empty [OF env(1) assms(3,4), of "Suc (Suc x)" R] by blast
qed

text \<open>The start may be moved to any record that is there.\<close>

lemma move_start:
  assumes "journal_inv env sector j g" and "lg_start g \<le> s" and "s < lg_end g"
  shows "journal_inv env sector (begin_at (s mod MAX_RECORDS) j) (g\<lparr>lg_start := s\<rparr>)"
proof -
  have "disk_inv env sector (begin_at (s mod MAX_RECORDS) j) (g\<lparr>lg_start := s\<rparr>)"
    using assms unfolding journal_inv_def disk_inv_def by (simp add: begin_at_def log_ok_def buffers_ok_def superblock_has_def)
  moreover have "buffer_inv (begin_at (s mod MAX_RECORDS) j) (g\<lparr>lg_start := s\<rparr>) seg" if "buffer_inv j g seg" for seg
    using that assms(2) by (simp add: begin_at_def buffer_inv_def in_buffer_def)
  ultimately show ?thesis using assms(1) by (auto simp: journal_inv_def)
qed

lemma journal_step_inv:
  assumes env: "journal_env_ok env sector" "5 \<le> n" and step: "journal_step env n (j, g) (j', g')" and inv: "journal_inv env sector j g"
  shows "journal_inv env sector j' g'"
  using step
proof (rule journal_stepE, goal_cases)
  case (1 r i)
  then show ?case using add_step [OF env inv] by fastforce
next
  case 2
  then show ?case using sync_step [OF env inv] by fastforce
next
  case (3 r i j'')
  then have "i = lg_end g mod MAX_RECORDS" "journal_inv env sector j'' (log_add r g)" using add_step [OF env inv, of r] by auto
  moreover have "lg_start (log_add r g) \<le> lg_end g" "lg_end g < lg_end (log_add r g)"
    using inv by (auto simp: log_add_def log_append_def log_sync_def journal_inv_def disk_inv_def log_ok_def Let_def)
  ultimately show ?case using move_start 3 by metis
next
  case (4 sb m stack)
  have d: "disk_inv env sector j g" using inv by (simp add: journal_inv_def)
  obtain x where x: "n = Suc (Suc (Suc (Suc (Suc x))))" using depth [OF env(2)] by blast
  show ?case
  proof (cases "lg_dstart g = lg_dend g")
    case True
    note e = restart_empty [OF env(1) d 4(2) True]
    show ?thesis using boot_step [OF env e(1) 4(3), of "lg_rec g"] 4(1,5) by (auto simp: e(2))
  next
    case False
    then have w: "lg_dstart g < lg_dend g" using log_okD(4) [OF disk_invD(2) [OF d]] by simp
    have last: "lg_dend g = lg_dstart g + 1 \<longrightarrow> jr_last_sync_record m = lg_dend g mod MAX_RECORDS" using 4(4) by simp
    obtain j'' b where r: "journal_region_init True env (default_jops env n) stack sb m = Some (Inr (), j'')"
      "same_journal ((set_up sb m)\<lparr>jr_last_sync_record := if lg_dend g = lg_dstart g + 1 then jr_last_sync_record m else lg_dend g mod MAX_RECORDS\<rparr>) j''"
      "loaded env sector j'' (lg_dend g) b" "Suc b = lg_dend g"
      using restart_run [OF env(1) d 4(2) w, of x stack] x by blast
    show ?thesis using restart_inv [OF env(1) d 4(2) w last r(2-4), of stack] r(1) 4(1,5) by simp
  qed
qed

text \<open>
  A log that survives a restart: its steps keep the invariant, and whatever memory it is set up in again,
  it finds what the log says.
\<close>

locale durable_log =
  fixes inv :: "'s \<Rightarrow> 'm \<Rightarrow> bool" and step :: "'s \<times> 'm \<Rightarrow> 's \<times> 'm \<Rightarrow> bool"
    and memory :: "'q \<Rightarrow> 's \<Rightarrow> 'm \<Rightarrow> bool" and boot :: "'q \<Rightarrow> 's option" and found :: "'s \<Rightarrow> 'm \<Rightarrow> bool"
  assumes step_inv: "step (s, m) (s', m') \<Longrightarrow> inv s m \<Longrightarrow> inv s' m'"
    and boot_found: "inv s m \<Longrightarrow> memory q s m \<Longrightarrow> \<exists>s'. boot q = Some s' \<and> found s' m"
begin

lemma reach_inv: "step\<^sup>*\<^sup>* (s, m) (s', m') \<Longrightarrow> inv s m \<Longrightarrow> inv s' m'"
  by (induction rule: rtranclp_induct2) (auto intro: step_inv)

lemma reach_found: "step\<^sup>*\<^sup>* (s, m) (s', m') \<Longrightarrow> inv s m \<Longrightarrow> memory q s' m' \<Longrightarrow> \<exists>s''. boot q = Some s'' \<and> found s'' m'"
  using reach_inv boot_found by blast

end

text \<open>The records recovery has looked at are those of the window, in order.\<close>

definition recovered_window :: "('d, 's) journal_region \<Rightarrow> journal_log \<Rightarrow> bool" where
  "recovered_window j g \<longleftrightarrow> length (jr_recovered j) = lg_dend g - lg_dstart g \<and>
     (\<forall>i. lg_dstart g \<le> i \<and> i < lg_dend g \<and> kept (lg_dend g) i \<longrightarrow> record_is (lg_rec g i) (jr_recovered j ! (i - lg_dstart g)))"

definition booted :: "('d, 'e, 's) journal_env \<Rightarrow> nat \<Rightarrow> journal_record \<times> superblock \<times> ('d, 's) journal_region \<Rightarrow> ('d, 's) journal_region option" where
  "booted env n q = (case q of (stack, sb, m) \<Rightarrow>
     (case journal_region_init True env (default_jops env n) stack sb m of Some (Inr _, j) \<Rightarrow> Some j | _ \<Rightarrow> None))"

lemma restart_recovers:
  assumes env: "journal_env_ok env sector" "5 \<le> n" and inv: "journal_inv env sector j g" and m: "restart_memory env j sb m"
    and w: "lg_dstart g + 1 < lg_dend g"
  shows "\<exists>j'. journal_region_init True env (default_jops env n) stack sb m = Some (Inr (), j') \<and> recovered_window j' g"
proof -
  have d: "disk_inv env sector j g" using inv by (simp add: journal_inv_def)
  obtain x where x: "n = Suc (Suc (Suc (Suc (Suc x))))" using depth [OF env(2)] by blast
  let ?rec = "\<lambda>k. block_record (disk_plain env sector (jr_dev j) (region_start j) k) (k mod RECORDS_PER_BLOCK)"
  have "lg_dstart g < lg_dend g" using w by simp
  from restart_run [OF env(1) d m this, of x stack] w x obtain j' where
    r: "journal_region_init True env (default_jops env n) stack sb m = Some (Inr (), j')" "jr_recovered j' = map ?rec [lg_dstart g..<lg_dend g]" by auto
  have "record_is (lg_rec g i) (jr_recovered j' ! (i - lg_dstart g))" if "lg_dstart g \<le> i" "i < lg_dend g" "kept (lg_dend g) i" for i
    using disk_invD(7) [OF d that] that(1,2) nth_upt [of "lg_dstart g" "i - lg_dstart g" "lg_dend g"]
    by (simp add: r(2) on_disk_def disk_plain_def block_has_def Let_def)
  moreover have "length (jr_recovered j') = lg_dend g - lg_dstart g" by (simp add: r(2))
  ultimately have "recovered_window j' g" by (simp add: recovered_window_def)
  then show ?thesis using r(1) by blast
qed

interpretation jlog: durable_log
  "\<lambda>j g. journal_env_ok env sector \<and> 5 \<le> n \<and> journal_inv env sector j g" "journal_step env n"
  "\<lambda>(stack, sb, m) j g. restart_memory env j sb m \<and> lg_dstart g + 1 < lg_dend g" "booted env n" recovered_window
  for env sector n
proof (unfold_locales, goal_cases)
  case 1
  then show ?case using journal_step_inv by blast
next
  case (2 j g q)
  obtain stack sb m where q: "q = (stack, sb, m)" by (cases q)
  show ?case using restart_recovers [of env sector n j g sb m stack] 2 unfolding q by (auto simp: booted_def)
qed

text \<open>What is reached from an empty journal.\<close>

lemma empty_reach:
  assumes "journal_env_ok env sector" and "5 \<le> n" and "empty_journal env sb m" and "record_ok stack"
    and "journal_region_init True env (default_jops env n) stack sb m = Some (Inr (), j0)"
    and "(journal_step env n)\<^sup>*\<^sup>* (j0, first_log stack R) (j, g)"
  shows "journal_inv env sector j g"
proof -
  have "journal_inv env sector j0 (first_log stack R)" using boot_step [OF assms(1-4), of R] assms(5) by auto
  then show ?thesis using jlog.reach_inv [where env = env and sector = sector and n = n, OF assms(6)] assms(1,2) by blast
qed

section \<open>Properties\<close>

text \<open>
  C5. The journal is recovered up to its last synchronisation.  In every state that adding records,
  synchronising, checkpoints and restarts lead to, setting the journal up again looks at the records of
  the window of the last synchronisation, each as it was added and in their order, except for those that
  share a block of the ring with the newest one from the round before.
\<close>

theorem journal_recovers_window:
  assumes "journal_env_ok env sector" and "5 \<le> n" and "empty_journal env sb0 m0" and "record_ok stack0"
    and "journal_region_init True env (default_jops env n) stack0 sb0 m0 = Some (Inr (), j0)"
    and "(journal_step env n)\<^sup>*\<^sup>* (j0, first_log stack0 R) (j, g)" and "restart_memory env j sb m" and "lg_dstart g + 1 < lg_dend g"
  shows "\<exists>j'. journal_region_init True env (default_jops env n) stack sb m = Some (Inr (), j') \<and>
    length (jr_recovered j') = lg_dend g - lg_dstart g \<and>
    (\<forall>i. lg_dstart g \<le> i \<and> i < lg_dend g \<and> (lg_dend g - 1) div RECORDS_PER_BLOCK < i div RECORDS_PER_BLOCK + MAX_BLOCKS \<longrightarrow>
       record_is (lg_rec g i) (jr_recovered j' ! (i - lg_dstart g)))"
proof -
  have "journal_inv env sector j g" by (rule empty_reach [OF assms(1-6)])
  then have "\<exists>j'. booted env n (stack, sb, m) = Some j' \<and> recovered_window j' g"
    using jlog.boot_found [of env sector n j g "(stack, sb, m)"] assms by simp
  then show ?thesis by (auto simp: booted_def recovered_window_def kept_def split: option.splits sum.splits)
qed

text \<open>
  C38. After a restart with a window of one record the journal does not know what it has written: the
  field for the record synchronised last keeps what the memory held before.  The synchronisation of a
  checkpoint leaves such a window.
\<close>

theorem journal_restart_last_sync:
  assumes "journal_env_ok env sector" and "5 \<le> n" and "empty_journal env sb0 m0" and "record_ok stack0"
    and "journal_region_init True env (default_jops env n) stack0 sb0 m0 = Some (Inr (), j0)"
    and "(journal_step env n)\<^sup>*\<^sup>* (j0, first_log stack0 R) (j, g)" and "restart_memory env j sb m" and "lg_dend g = lg_dstart g + 1"
  shows "\<exists>j'. journal_region_init True env (default_jops env n) stack sb m = Some (Inr (), j') \<and>
    jr_record_end j' = lg_dend g mod MAX_RECORDS \<and> jr_last_sync_record j' = jr_last_sync_record m \<and> jr_recovered j' = []"
proof -
  have d: "disk_inv env sector j g" using empty_reach [OF assms(1-6)] by (simp add: journal_inv_def)
  obtain x where x: "n = Suc (Suc (Suc (Suc (Suc x))))" using depth [OF assms(2)] by blast
  have "lg_dstart g < lg_dend g" using assms(8) by simp
  from restart_run [OF assms(1) d assms(7) this, of x stack] x assms(8) obtain j' where
    r: "journal_region_init True env (default_jops env n) stack sb m = Some (Inr (), j')" "jr_recovered j' = []"
      "same_journal ((set_up sb m)\<lparr>jr_last_sync_record := jr_last_sync_record m\<rparr>) j'" by auto
  show ?thesis using r same_journalD [OF r(3)] restart_superblock [OF assms(1) d assms(7)] by (auto simp: set_up_def)
qed

section \<open>A small journal\<close>

text \<open>A disk in memory, a cipher that changes nothing, and the journal after its first record.\<close>

definition plain_gcm :: gcm_api where
  "plain_gcm = \<lparr>ga_lock = None, ga_request = True, ga_setkey = (\<lambda>_. None),
     ga_encrypt = (\<lambda>key iv ad data. Inr (data, replicate AES_GCM_AUTH_SIZE 0)), ga_decrypt = (\<lambda>key iv ad data mac. Inr data)\<rparr>"

definition demo_journal_env :: "(nat \<Rightarrow> byte list, superblock, superblock) journal_env" where
  "demo_journal_env = \<lparr>jn_io = demo_io, jn_cipher_create = True, jn_cipher = plain_gcm, jn_ecb_alloc = None, jn_ecb_request = True,
     jn_ecb_setkey = (\<lambda>_. None), jn_ecb = (\<lambda>_. Inr), jn_crc32_be = (\<lambda>_ _. 0),
     jn_sb = \<lparr>se_crc = sb_last_checkpoint_pack, se_enc = Inr, se_dec = Inr, se_rd = (\<lambda>s. (Inr s, s)), se_wr = (\<lambda>d s. d)\<rparr>,
     jn_root_key = [], jn_random = (\<lambda>_. replicate AES_GCM_IV_SIZE 0), jn_kmalloc = (\<lambda>_. replicate JOURNAL_BLOCK_SIZE 0)\<rparr>"

definition demo_memory :: "(nat \<Rightarrow> byte list) \<Rightarrow> superblock \<Rightarrow> (nat \<Rightarrow> byte list, superblock) journal_region" where
  "demo_memory d s = \<lparr>jr_segno = 9, jr_previous_blk = replicate CRYPTO_INFO_SIZE 7, jr_blocks = [], jr_superblock = s, jr_record_start = 8,
     jr_record_end = 7, jr_last_sync_record = 6, jr_status = JOURNAL_READY, jr_dev = d, jr_sb_dev = s, jr_draws = 0, jr_recovered = []\<rparr>"

definition demo_commit :: journal_record where
  "demo_commit = \<lparr>jrec_type = 1, jrec_union = replicate RECORD_UNION_SIZE 5\<rparr>"

abbreviation "demo_sector \<equiv> (\<lambda>d x. take SECTOR_SIZE (d x @ replicate SECTOR_SIZE (0 :: byte)))"
abbreviation "demo_sb \<equiv> superblock_format 8 8 0 zero_sb"

lemma demo_journal_ok:
  "journal_env_ok demo_journal_env demo_sector" "empty_journal demo_journal_env demo_sb (demo_memory (\<lambda>_. []) demo_sb)" "record_ok demo_commit"
proof -
  show "journal_env_ok demo_journal_env demo_sector"
    using demo_io_ok by (simp add: journal_env_ok_def demo_journal_env_def plain_gcm_def gcm_works_def gcm_sizes_def ecb_works_def sb_writes_def sb_env_ok_def)
  show "empty_journal demo_journal_env demo_sb (demo_memory (\<lambda>_. []) demo_sb)"
    unfolding empty_journal_def
    by (intro conjI exI [of _ demo_sb]) (simp_all add: demo_journal_env_def demo_memory_def superblock_read_def superblock_format_def Let_def)
  show "record_ok demo_commit" by (simp add: record_ok_def demo_commit_def)
qed

lemma demo_restart:
  assumes "disk_inv demo_journal_env demo_sector j g"
  obtains sb where "restart_memory demo_journal_env j sb (demo_memory (jr_dev j) (jr_sb_dev j))"
proof -
  have "superblock_read (jn_sb demo_journal_env) (jr_sb_dev j) (jr_sb_dev j) = (Inr (jr_sb_dev j), jr_sb_dev j)"
    by (simp add: demo_journal_env_def superblock_read_def)
  then show thesis by (intro that [of "jr_sb_dev j"]) (auto simp: restart_memory_def demo_memory_def)
qed

definition demo_log :: journal_log where "demo_log = first_log demo_commit (\<lambda>_. demo_commit)"

lemma demo_boot:
  obtains j0 where "journal_region_init True demo_journal_env (default_jops demo_journal_env 5) demo_commit demo_sb (demo_memory (\<lambda>_. []) demo_sb) = Some (Inr (), j0)"
    and "journal_inv demo_journal_env demo_sector j0 demo_log"
proof -
  have "5 \<le> (5 :: nat)" by simp
  from boot_step [OF demo_journal_ok(1) this demo_journal_ok(2,3), of "\<lambda>_. demo_commit"] show thesis
    unfolding demo_log_def [symmetric] by (elim exE conjE) (rule that)
qed

text \<open>A second record is added and the journal synchronised: both records are recovered.\<close>

theorem journal_recovers_window_witness:
  "\<exists>j0 j sb j'. journal_region_init True demo_journal_env (default_jops demo_journal_env 5) demo_commit demo_sb (demo_memory (\<lambda>_. []) demo_sb) = Some (Inr (), j0) \<and>
     (journal_step demo_journal_env 5)\<^sup>*\<^sup>* (j0, demo_log) (j, log_sync (log_add demo_commit demo_log)) \<and>
     journal_region_init True demo_journal_env (default_jops demo_journal_env 5) demo_commit sb (demo_memory (jr_dev j) (jr_sb_dev j)) = Some (Inr (), j') \<and>
     length (jr_recovered j') = 2 \<and> record_is demo_commit (jr_recovered j' ! 1)"
proof -
  let ?env = "demo_journal_env" and ?m = "demo_memory (\<lambda>_. []) demo_sb" and ?first = demo_log
  let ?two = "log_add demo_commit ?first" let ?g = "log_sync ?two"
  note ok = demo_journal_ok
  have n: "5 \<le> (5 :: nat)" by simp
  obtain j0 where j0: "journal_region_init True ?env (default_jops ?env 5) demo_commit demo_sb ?m = Some (Inr (), j0)" "journal_inv ?env demo_sector j0 ?first"
    by (rule demo_boot)
  obtain i j1 where j1: "jo_add_record (default_jops ?env 5) demo_commit j0 = Some (i, j1)" "journal_inv ?env demo_sector j1 ?two"
    using add_step [OF ok(1) n j0(2) ok(3)] by blast
  obtain j where j: "jo_synchronize (default_jops ?env 5) j1 = Some j" "journal_inv ?env demo_sector j ?g"
    using sync_step [OF ok(1) n j1(2)] by blast
  have steps: "(journal_step ?env 5)\<^sup>*\<^sup>* (j0, ?first) (j, ?g)"
    using journal_step.add [OF ok(3) j1(1), of ?first] journal_step.sync [OF j(1), of ?two] by (meson rtranclp.rtrancl_into_rtrancl rtranclp.rtrancl_refl)
  obtain sb where m: "restart_memory ?env j sb (demo_memory (jr_dev j) (jr_sb_dev j))"
    using demo_restart [of j ?g] j(2) by (auto simp: journal_inv_def)
  have g: "lg_dstart ?g = 0" "lg_dend ?g = 2" "lg_rec ?g 1 = demo_commit"
    by (simp_all add: log_sync_def log_add_def log_append_def demo_log_def first_log_def Let_def journal_consts)
  have w: "lg_dstart ?g + 1 < lg_dend ?g" unfolding g by simp
  note r = journal_recovers_window [OF ok(1) n ok(2,3) j0(1) steps [unfolded demo_log_def] m w [unfolded demo_log_def], of demo_commit,
      folded demo_log_def, unfolded g]
  have "0 \<le> (1 :: nat) \<and> 1 < (2 :: nat) \<and> (2 - 1) div RECORDS_PER_BLOCK < 1 div RECORDS_PER_BLOCK + MAX_BLOCKS" by (simp add: journal_consts)
  then obtain j' where
    "journal_region_init True ?env (default_jops ?env 5) demo_commit sb (demo_memory (jr_dev j) (jr_sb_dev j)) = Some (Inr (), j')"
    "length (jr_recovered j') = 2 - 0" "record_is (lg_rec ?g 1) (jr_recovered j' ! (1 - 0))" using r by blast
  then have "journal_region_init True ?env (default_jops ?env 5) demo_commit sb (demo_memory (jr_dev j) (jr_sb_dev j)) = Some (Inr (), j') \<and>
    length (jr_recovered j') = 2 \<and> record_is demo_commit (jr_recovered j' ! 1)" using g(3) by simp
  then show ?thesis using j0(1) steps by blast
qed

text \<open>The journal is synchronised right after it was set up; the new region has a 6 in the field.\<close>

theorem journal_restart_last_sync_witness:
  "\<exists>(j :: (nat \<Rightarrow> byte list, superblock) journal_region) sb j'. journal_region_init True demo_journal_env (default_jops demo_journal_env 5) demo_commit sb (demo_memory (jr_dev j) (jr_sb_dev j)) = Some (Inr (), j') \<and>
     jr_record_end j' = 1 \<and> jr_last_sync_record j' = 6"
proof -
  let ?env = "demo_journal_env" and ?m = "demo_memory (\<lambda>_. []) demo_sb" and ?first = demo_log
  let ?g = "log_sync ?first"
  note ok = demo_journal_ok
  have n: "5 \<le> (5 :: nat)" by simp
  obtain j0 where j0: "journal_region_init True ?env (default_jops ?env 5) demo_commit demo_sb ?m = Some (Inr (), j0)" "journal_inv ?env demo_sector j0 ?first"
    by (rule demo_boot)
  obtain j where j: "jo_synchronize (default_jops ?env 5) j0 = Some j" "journal_inv ?env demo_sector j ?g"
    using sync_step [OF ok(1) n j0(2)] by blast
  have steps: "(journal_step ?env 5)\<^sup>*\<^sup>* (j0, ?first) (j, ?g)"
    using journal_step.sync [OF j(1), of ?first] by blast
  obtain sb where m: "restart_memory ?env j sb (demo_memory (jr_dev j) (jr_sb_dev j))"
    using demo_restart [of j ?g] j(2) by (auto simp: journal_inv_def)
  have g: "lg_dend ?g = lg_dstart ?g + 1" "lg_dend ?g = 1" by (simp_all add: log_sync_def demo_log_def first_log_def)
  note r = journal_restart_last_sync [OF ok(1) n ok(2,3) j0(1) steps [unfolded demo_log_def] m g(1) [unfolded demo_log_def], of demo_commit,
      folded demo_log_def, unfolded g(2)]
  have e: "1 mod MAX_RECORDS = 1" "jr_last_sync_record (demo_memory (jr_dev j) (jr_sb_dev j)) = 6"
    by (simp_all add: journal_consts demo_memory_def)
  from r [unfolded e] obtain j' where
    "journal_region_init True ?env (default_jops ?env 5) demo_commit sb (demo_memory (jr_dev j) (jr_sb_dev j)) = Some (Inr (), j') \<and>
       jr_record_end j' = 1 \<and> jr_last_sync_record j' = 6" by (elim exE conjE) (rule that, intro conjI)
  then have "\<exists>sb j'. journal_region_init True ?env (default_jops ?env 5) demo_commit sb (demo_memory (jr_dev j) (jr_sb_dev j)) = Some (Inr (), j') \<and>
       jr_record_end j' = 1 \<and> jr_last_sync_record j' = 6" by (intro exI [of _ sb] exI [of _ j'])
  then show ?thesis by (rule exI)
qed

end
