(* ===== verification/Metadata.thy ===== *)
theory Metadata
  imports Journal
begin

text \<open>
  \<^verbatim>\<open>metadata.c\<close>: the metadata of a device as a whole.  Setting it up reads or formats the superblock, makes the
  journal region and the tables over the blocks the superblock names, and formats the tables when the
  device is created.  Each table has two packs of blocks; the bitmap \<^verbatim>\<open>valid_fields\<close> of the journal says which one
  is in use.
\<close>

section \<open>Structures\<close>

text \<open>
  What the blocks of the tables hold, by the pack: the validity table of the segments, the reverse index
  table, the segment table, and the validity table and the entries of the catalogue.
\<close>

record meta_disk =
  md_svt :: "bool \<Rightarrow> u64 darray"
  md_rit :: "bool \<Rightarrow> rit"
  md_dst :: "bool \<Rightarrow> dst_entry darray"
  md_bvt :: "bool \<Rightarrow> u64 darray"
  md_stats :: "bool \<Rightarrow> file_stat darray"

record ('d, 's) metadata =
  mt_superblock :: superblock
  mt_journal :: "('d, 's) journal_region"
  mt_seg_validator :: seg_validator
  mt_rit :: rit
  mt_dst :: dst
  mt_bit_catalogue :: bit_catalogue

type_synonym valid_fields = "checkpoint_pack_field \<Rightarrow> bool"

text \<open>The tables write through dm-bufio: what the blocks hold once they are in the state of the metadata.\<close>

definition meta_store :: "valid_fields \<Rightarrow> ('d, 's) metadata \<Rightarrow> meta_disk \<Rightarrow> meta_disk" where
  "meta_store vf this disk =
     disk\<lparr>md_svt := (md_svt disk)(vf DATA_SVT := bs_array (sv_table (mt_seg_validator this))),
          md_rit := (md_rit disk)(vf DATA_RIT := mt_rit this),
          md_dst := (md_dst disk)(vf DATA_DST := ds_array (mt_dst this)),
          md_bvt := (md_bvt disk)(vf INDEX_SVT := bs_array (sv_table (bc_bit_validity_table (mt_bit_catalogue this)))),
          md_stats := (md_stats disk)(vf INDEX_BITC := bc_file_stats (mt_bit_catalogue this))\<rparr>"

section \<open>Operations\<close>

definition metadata_format :: "('d, 's) metadata \<Rightarrow> unit result \<times> ('d, 's) metadata" where
  "metadata_format this =
     (case seg_validator_format (mt_seg_validator this) of
        (Inl r, v) \<Rightarrow> (Inl r, this\<lparr>mt_seg_validator := v\<rparr>)
      | (Inr _, v) \<Rightarrow> let this1 = this\<lparr>mt_seg_validator := v\<rparr> in
     (case reverse_index_table_format (mt_rit this1) of
        (Inl r, t) \<Rightarrow> (Inl r, this1\<lparr>mt_rit := t\<rparr>)
      | (Inr _, t) \<Rightarrow> let this2 = this1\<lparr>mt_rit := t\<rparr> in
     (case dst_format (mt_dst this2) of
        (Inl r, d) \<Rightarrow> (Inl r, this2\<lparr>mt_dst := d\<rparr>)
      | (Inr _, d) \<Rightarrow> let this3 = this2\<lparr>mt_dst := d\<rparr> in
     (case bit_catalogue_format (mt_bit_catalogue this3) of
        (r, c) \<Rightarrow> (r, this3\<lparr>mt_bit_catalogue := c\<rparr>)))))"

text \<open>
  The tables of the packs in use.  Of them only the segment table reads its blocks and can fail.
\<close>

definition metadata_tables ::
  "valid_fields \<Rightarrow> superblock \<Rightarrow> ('d, 's) journal_region \<Rightarrow> meta_disk \<Rightarrow> unit result \<times> ('d, 's) metadata" where
  "metadata_tables vf sb journal disk =
     (case dst_init (md_dst disk (vf DATA_DST)) (sb_nr_segment sb) of
        (r, d) \<Rightarrow>
          (r, \<lparr>mt_superblock = sb, mt_journal = journal,
               mt_seg_validator = seg_validator_init (md_svt disk (vf DATA_SVT)) (sb_nr_segment sb),
               mt_rit = reverse_index_table_init (md_rit disk (vf DATA_RIT)) (sb_nr_segment sb * sb_blocks_per_seg sb),
               mt_dst = d,
               mt_bit_catalogue = bit_catalogue_init (md_bvt disk (vf INDEX_SVT)) (md_stats disk (vf INDEX_BITC)) sb\<rparr>))"

text \<open>
  \<^verbatim>\<open>metadata_destroy\<close>: the journal is closed, then dm-bufio writes what is dirty.  The answer is the contents of the
  tables and the buffer of the superblock.
\<close>

definition metadata_destroy ::
  "bool \<Rightarrow> ('d, 's) journal_operations \<Rightarrow> valid_fields \<Rightarrow> ('d, 's) metadata \<Rightarrow> meta_disk \<Rightarrow> (meta_disk \<times> ('d, 's) journal_region) option" where
  "metadata_destroy ENABLE_JOURNAL jops vf this disk =
     map_option (\<lambda>j. (meta_store vf this disk, j)) (journal_region_destroy ENABLE_JOURNAL jops (mt_journal this))"

text \<open>
  Setting up.  \<open>client\<close> says whether the dm-bufio client could be made; \<open>sbmem\<close> is the memory the
  superblock gets and \<open>region\<close> that of the journal region, with the raw device and the buffer of the superblock;
  \<open>vf\<close> is the bitmap in the latter, which nothing sets.  Every failure closes what has been made and is \<^verbatim>\<open>EAGAIN\<close>.
\<close>

definition metadata_init ::
  "bool \<Rightarrow> ('d, 'e, 's) journal_env \<Rightarrow> ('d, 's) journal_operations \<Rightarrow> journal_record \<Rightarrow> valid_fields \<Rightarrow> superblock \<Rightarrow> bool \<Rightarrow> nat \<Rightarrow> nat \<Rightarrow>
   meta_disk \<Rightarrow> ('d, 's) journal_region \<Rightarrow> (('d, 's) metadata result \<times> meta_disk \<times> ('d, 's) journal_region) option" where
  "metadata_init ENABLE_JOURNAL env jops stack vf sbmem client NR_SEGMENT action_flag disk region =
     (if \<not> client then Some (Inl EAGAIN, disk, region)
      else case superblock_init (jn_sb env) JOURNAL_RECORD_SIZE MAX_RECORDS NR_SEGMENT (action_flag = 1) sbmem (jr_sb_dev region) of
        (Inl _, s) \<Rightarrow> Some (Inl EAGAIN, disk, region\<lparr>jr_sb_dev := s\<rparr>)
      | (Inr sb, s) \<Rightarrow>
     (case journal_region_create ENABLE_JOURNAL env jops stack sb (region\<lparr>jr_sb_dev := s\<rparr>) of
        None \<Rightarrow> None
      | Some None \<Rightarrow> Some (Inl EAGAIN, disk, region\<lparr>jr_sb_dev := s\<rparr>)
      | Some (Some journal) \<Rightarrow>
     (case metadata_tables vf sb journal disk of
        (Inl _, this) \<Rightarrow> map_option (\<lambda>j. (Inl EAGAIN, disk, j)) (journal_region_destroy ENABLE_JOURNAL jops journal)
      | (Inr _, this) \<Rightarrow>
          if action_flag = 1 then
            (case metadata_format this of
               (Inl _, this') \<Rightarrow> map_option (\<lambda>(disk', j). (Inl EAGAIN, disk', j)) (metadata_destroy ENABLE_JOURNAL jops vf this' disk)
             | (Inr _, this') \<Rightarrow> Some (Inr this', meta_store vf this' disk, mt_journal this'))
          else Some (Inr this, meta_store vf this disk, mt_journal this))))"

definition metadata_create ::
  "bool \<Rightarrow> ('d, 'e, 's) journal_env \<Rightarrow> ('d, 's) journal_operations \<Rightarrow> journal_record \<Rightarrow> valid_fields \<Rightarrow> superblock \<Rightarrow> bool \<Rightarrow> nat \<Rightarrow> nat \<Rightarrow>
   meta_disk \<Rightarrow> ('d, 's) journal_region \<Rightarrow> (('d, 's) metadata option \<times> meta_disk \<times> ('d, 's) journal_region) option" where
  "metadata_create ENABLE_JOURNAL env jops stack vf sbmem client NR_SEGMENT action_flag disk region =
     map_option (\<lambda>(r, rest). (case r of Inl _ \<Rightarrow> None | Inr this \<Rightarrow> Some this, rest))
       (metadata_init ENABLE_JOURNAL env jops stack vf sbmem client NR_SEGMENT action_flag disk region)"

section \<open>Formatting\<close>

text \<open>An array none of whose blocks fails, whatever it holds.\<close>

definition darray_ok :: "'e darray \<Rightarrow> bool" where
  "darray_ok a \<longleftrightarrow> ar_err a = Map.empty \<and> ar_format_err a = None"

lemma darray_okD: "darray_ok a \<Longrightarrow> healthy (a\<lparr>ar_nr := n\<rparr>)" "darray_ok a \<Longrightarrow> healthy a"
  by (simp_all add: darray_ok_def healthy_def)

lemma darray_ok_upd [simp]: "darray_ok (a\<lparr>ar_nr := n\<rparr>) = darray_ok a" "darray_ok (a\<lparr>ar_cells := f\<rparr>) = darray_ok a"
  by (simp_all add: darray_ok_def)

lemma darray_format_ok: "darray_ok a \<Longrightarrow> darray_format a v = (Inr (), a\<lparr>ar_cells := (\<lambda>_. v)\<rparr>)"
  by (simp add: darray_format_def darray_ok_def)

lemma dst_init_reads:
  assumes "darray_ok arr"
  shows "\<exists>d. dst_init arr n = (Inr (), d) \<and> ds_array d = arr\<lparr>ar_nr := n\<rparr> \<and> ds_nr_segment d = n"
proof -
  have "\<exists>d'. dst_load_loop d xs = (Inr (), d') \<and> ds_array d' = ds_array d \<and> ds_nr_segment d' = ds_nr_segment d"
    if "healthy (ds_array d)" "\<forall>x \<in> set xs. x < ar_nr (ds_array d)" for d xs
    using that
  proof (induction xs arbitrary: d)
    case (Cons x xs)
    let ?e = "ar_cells (ds_array d) x"
    let ?d = "if de_nr_valid_block ?e \<noteq> 0 then snd (dst_add_victim d x (de_nr_valid_block ?e) (de_block_validity_table ?e)) else d"
    have "ds_array ?d = ds_array d" "ds_nr_segment ?d = ds_nr_segment d" by (simp_all add: dst_add_victim_def)
    with Cons.IH [of ?d] Cons.prems show ?case by (simp add: arr_simps)
  qed simp
  from this [of "\<lparr>ds_nr_segment = n, ds_logging_segno = INF_ADDR, ds_array = arr\<lparr>ar_nr := n\<rparr>, ds_victims = Leaf, ds_node_list = (\<lambda>_. False)\<rparr>" "[0..<n]"]
  show ?thesis using darray_okD(1) [OF assms] by (simp add: dst_init_def dst_load_def)
qed

lemma seg_validator_formatted:
  assumes "darray_ok arr"
  shows "\<exists>v. seg_validator_format (seg_validator_init arr n) = (Inr (), v) \<and> sv_ok v \<and> sv_nr_segment v = n \<and> sv_cur_segment v = 0 \<and>
    (\<forall>s. \<not> sv_valid v s)"
  using assms darray_okD(1) [OF assms]
  by (simp add: seg_validator_format_def seg_validator_init_def disk_bitset_format_def disk_bitset_init_def darray_format_ok
      sv_ok_def bitset_ok_def sv_valid_def bits_def)

lemma dst_formatted:
  assumes "darray_ok (ds_array d)" and "ds_nr_segment d \<le> INF_ADDR" and "sv_ok v" and "sv_nr_segment v = ds_nr_segment d"
  shows "\<exists>d'. dst_format d = (Inr (), d') \<and> space_inv d' v \<and> ds_nr_segment d' = ds_nr_segment d"
proof -
  let ?n = "ds_nr_segment d"
  let ?arr = "(ds_array d)\<lparr>ar_cells := (\<lambda>_. empty_entry), ar_nr := ?n\<rparr>"
  have e: "dst_entry_ok empty_entry" by (simp add: dst_entry_ok_def nr_bits_def)
  have "healthy ?arr" using darray_okD(1) [of "(ds_array d)\<lparr>ar_cells := (\<lambda>_. empty_entry)\<rparr>"] assms(1) by simp
  from init_inv [OF this _ assms(2)] e obtain d' where
    "dst_init ?arr ?n = (Inr (), d')" "dst_inv d'" "ds_nr_segment d' = ?n" "ds_logging_segno d' = INF_ADDR" "ds_array d' = ?arr"
    "\<forall>s. \<not> ds_node_list d' s" by auto
  moreover have "dst_init ((ds_array d)\<lparr>ar_cells := (\<lambda>_. empty_entry)\<rparr>) ?n = dst_init ?arr ?n" by (simp add: dst_init_def)
  ultimately show ?thesis using assms by (intro exI [of _ d']) (simp add: dst_format_def darray_format_ok space_inv_def)
qed

definition meta_readable :: "meta_disk \<Rightarrow> bool" where
  "meta_readable disk \<longleftrightarrow> (\<forall>p. darray_ok (md_svt disk p) \<and> darray_ok (md_rit disk p) \<and> darray_ok (md_dst disk p) \<and>
     darray_ok (md_bvt disk p) \<and> darray_ok (md_stats disk p))"

text \<open>What a format leaves: no segment, no block and no slot in use, over the sizes of the superblock.\<close>

definition slots_of :: "superblock \<Rightarrow> nat" where
  "slots_of sb = total_bit (sb_nr_disk_level sb) (sb_common_ratio sb) (sb_max_disk_level_capacity sb) + extra_bit (sb_max_disk_level_capacity sb)"

definition formatted :: "('d, 's) metadata \<Rightarrow> bool" where
  "formatted m \<longleftrightarrow>
     (let sb = mt_superblock m; cat = mt_bit_catalogue m
      in space_inv (mt_dst m) (mt_seg_validator m) \<and> ds_nr_segment (mt_dst m) = sb_nr_segment sb \<and> (\<forall>s. \<not> sv_valid (mt_seg_validator m) s) \<and>
         healthy (mt_rit m) \<and> ar_nr (mt_rit m) = sb_nr_segment sb * sb_blocks_per_seg sb \<and>
         catalogue_ok cat \<and> (\<forall>fd. \<not> slot_used cat fd) \<and> nr_slots cat = slots_of sb)"

lemma slots_of_in_memory [simp]: "slots_of (in_memory mem sb) = slots_of sb"
  by (simp add: slots_of_def)

lemma catalogue_init_parts:
  "bc_bit_validity_table (bit_catalogue_init bvt stats sb) = seg_validator_init bvt (slots_of sb)"
  "bc_file_stats (bit_catalogue_init bvt stats sb) = stats\<lparr>ar_nr := slots_of sb\<rparr>"
  by (simp_all add: bit_catalogue_init_def Let_def slots_of_def)

lemma catalogue_formatted:
  assumes "darray_ok bvt" and "darray_ok stats"
  shows "\<exists>c. bit_catalogue_format (bit_catalogue_init bvt stats sb) = (Inr (), c) \<and> catalogue_ok c \<and> (\<forall>fd. \<not> slot_used c fd) \<and>
    nr_slots c = slots_of sb"
proof -
  let ?n = "slots_of sb"
  let ?c = "bit_catalogue_init bvt stats sb"
  have c: "bc_bit_validity_table ?c = seg_validator_init bvt ?n" "bc_file_stats ?c = stats\<lparr>ar_nr := ?n\<rparr>"
    by (simp_all add: catalogue_init_parts)
  obtain v where v: "seg_validator_format (seg_validator_init bvt ?n) = (Inr (), v)" "sv_ok v" "sv_nr_segment v = ?n" "\<forall>s. \<not> sv_valid v s"
    using seg_validator_formatted [OF assms(1)] by blast
  have "healthy (stats\<lparr>ar_nr := ?n\<rparr>)" using assms(2) by (rule darray_okD)
  then show ?thesis
    using v assms(2) by (simp add: bit_catalogue_format_def c darray_format_ok catalogue_ok_def)
qed

lemma tables_formatted:
  assumes "meta_readable disk" and "sb_nr_segment sb \<le> INF_ADDR"
  obtains m m' where "metadata_tables vf sb j disk = (Inr (), m)" and "metadata_format m = (Inr (), m')" and "formatted m'"
    and "mt_superblock m' = sb" and "mt_journal m' = j"
proof -
  let ?n = "sb_nr_segment sb"
  have r: "darray_ok (md_svt disk p)" "darray_ok (md_rit disk p)" "darray_ok (md_dst disk p)" "darray_ok (md_bvt disk p)"
    "darray_ok (md_stats disk p)" for p using assms(1) by (simp_all add: meta_readable_def)
  obtain d where d: "dst_init (md_dst disk (vf DATA_DST)) ?n = (Inr (), d)" "ds_array d = (md_dst disk (vf DATA_DST))\<lparr>ar_nr := ?n\<rparr>"
    "ds_nr_segment d = ?n" using dst_init_reads [OF r(3)] by blast
  define m where "m = snd (metadata_tables vf sb j disk)"
  have m: "metadata_tables vf sb j disk = (Inr (), m)" "mt_superblock m = sb" "mt_journal m = j" "mt_dst m = d"
    "mt_seg_validator m = seg_validator_init (md_svt disk (vf DATA_SVT)) ?n"
    "mt_rit m = reverse_index_table_init (md_rit disk (vf DATA_RIT)) (?n * sb_blocks_per_seg sb)"
    "mt_bit_catalogue m = bit_catalogue_init (md_bvt disk (vf INDEX_SVT)) (md_stats disk (vf INDEX_BITC)) sb"
    by (simp_all add: m_def metadata_tables_def d(1))
  obtain v where v: "seg_validator_format (mt_seg_validator m) = (Inr (), v)" "sv_ok v" "sv_nr_segment v = ?n" "\<forall>s. \<not> sv_valid v s"
    using seg_validator_formatted [OF r(1)] unfolding m(5) by blast
  obtain d' where d': "dst_format d = (Inr (), d')" "space_inv d' v" "ds_nr_segment d' = ?n"
    using dst_formatted [of d v] v(2,3) d(2,3) r(3) assms(2) by auto
  obtain c where c: "bit_catalogue_format (mt_bit_catalogue m) = (Inr (), c)" "catalogue_ok c" "\<forall>fd. \<not> slot_used c fd"
    "nr_slots c = slots_of sb" using catalogue_formatted [OF r(4,5)] unfolding m(7) by blast
  let ?rit = "(mt_rit m)\<lparr>ar_cells := (\<lambda>_. 0)\<rparr>"
  have "darray_ok (mt_rit m)" using r(2) by (simp add: m(6) reverse_index_table_init_def)
  then have rit: "reverse_index_table_format (mt_rit m) = (Inr (), ?rit)" "healthy ?rit" "ar_nr ?rit = ?n * sb_blocks_per_seg sb"
    by (simp_all add: reverse_index_table_format_def darray_format_ok darray_okD m(6)) (simp add: reverse_index_table_init_def)
  let ?m = "m\<lparr>mt_seg_validator := v, mt_rit := ?rit, mt_dst := d', mt_bit_catalogue := c\<rparr>"
  have "metadata_format m = (Inr (), ?m)" using v(1) rit(1) d'(1) c(1) m(4) by (simp add: metadata_format_def)
  moreover have "formatted ?m" using v(4) d' c rit m(2) by (simp add: formatted_def Let_def)
  ultimately show thesis using m by (intro that [of m ?m]) simp_all
qed

text \<open>Setting up a new device, with the journal disabled, makes formatted tables of whatever the disk holds.\<close>

lemma metadata_init_formats:
  assumes "meta_readable disk" and "superblock_init (jn_sb env) JOURNAL_RECORD_SIZE MAX_RECORDS n True sbmem (jr_sb_dev region) = (Inr sb, s)"
    and "n + NR_GC_PRESERVED \<le> INF_ADDR"
  shows "\<exists>m. metadata_init False env jops stack vf sbmem True n 1 disk region = Some (Inr m, meta_store vf m disk, region\<lparr>jr_sb_dev := s\<rparr>) \<and>
    formatted m \<and> mt_superblock m = sb \<and> mt_journal m = region\<lparr>jr_sb_dev := s\<rparr>"
proof -
  have "sb_nr_segment sb = n + NR_GC_PRESERVED"
    using assms(2) by (auto simp: superblock_init_def superblock_write_def Let_def superblock_format_def split: prod.splits sum.splits)
  then have "sb_nr_segment sb \<le> INF_ADDR" using assms(3) by simp
  from tables_formatted [OF assms(1) this] obtain m m' where
    "metadata_tables vf sb (region\<lparr>jr_sb_dev := s\<rparr>) disk = (Inr (), m)" "metadata_format m = (Inr (), m')" "formatted m'"
    "mt_superblock m' = sb" "mt_journal m' = region\<lparr>jr_sb_dev := s\<rparr>" .
  then show ?thesis using assms(2) by (simp add: metadata_init_def journal_region_create_def journal_region_init_def)
qed

text \<open>
  Packs nobody has written since the disk was all zeros, where blocks are not encrypted: the tables made of them are
  as a format leaves them.
\<close>

definition blank_packs :: "valid_fields \<Rightarrow> meta_disk \<Rightarrow> bool" where
  "blank_packs vf disk \<longleftrightarrow> darray_ok (md_svt disk (vf DATA_SVT)) \<and> darray_ok (md_rit disk (vf DATA_RIT)) \<and>
     darray_ok (md_dst disk (vf DATA_DST)) \<and> darray_ok (md_bvt disk (vf INDEX_SVT)) \<and> darray_ok (md_stats disk (vf INDEX_BITC)) \<and>
     ar_cells (md_svt disk (vf DATA_SVT)) = (\<lambda>_. 0) \<and>
     ar_cells (md_dst disk (vf DATA_DST)) = (\<lambda>_. empty_entry) \<and> ar_cells (md_bvt disk (vf INDEX_SVT)) = (\<lambda>_. 0)"

lemma seg_validator_blank:
  assumes "darray_ok arr" and "ar_cells arr = (\<lambda>_. 0)"
  shows "sv_ok (seg_validator_init arr n)" and "sv_nr_segment (seg_validator_init arr n) = n" and "\<not> sv_valid (seg_validator_init arr n) s"
  using assms darray_okD(1) [OF assms(1)]
  by (simp_all add: seg_validator_init_def disk_bitset_init_def sv_ok_def bitset_ok_def sv_valid_def bits_def)

lemma dst_blank:
  assumes "darray_ok arr" and "ar_cells arr = (\<lambda>_. empty_entry)" and "n \<le> INF_ADDR" and "sv_ok v" and "sv_nr_segment v = n"
  obtains d where "dst_init arr n = (Inr (), d)" and "space_inv d v" and "ds_nr_segment d = n"
proof -
  let ?arr = "arr\<lparr>ar_nr := n\<rparr>"
  have e: "dst_entry_ok empty_entry" by (simp add: dst_entry_ok_def nr_bits_def)
  have h: "healthy ?arr" "n \<le> ar_nr ?arr" "\<forall>s < n. dst_entry_ok (ar_cells ?arr s)" using darray_okD(1) [OF assms(1)] e assms(2) by simp_all
  have i: "dst_init ?arr n = dst_init arr n" by (simp add: dst_init_def)
  from init_inv [OF h(1,2) assms(3) h(3)] obtain d where
    "dst_init arr n = (Inr (), d)" "dst_inv d" "ds_nr_segment d = n" "ds_logging_segno d = INF_ADDR" "ds_array d = ?arr"
    "\<forall>s. \<not> ds_node_list d s" unfolding i using assms(2) by auto
  then show thesis using assms(2,4,5) by (intro that [of d]) (simp_all add: space_inv_def)
qed

lemma tables_blank:
  assumes "blank_packs vf disk" and "sb_nr_segment sb \<le> INF_ADDR"
  obtains m where "metadata_tables vf sb j disk = (Inr (), m)" and "formatted m" and "mt_superblock m = sb" and "mt_journal m = j"
proof -
  let ?n = "sb_nr_segment sb"
  have r: "darray_ok (md_svt disk (vf DATA_SVT))" "darray_ok (md_rit disk (vf DATA_RIT))" "darray_ok (md_dst disk (vf DATA_DST))"
    "darray_ok (md_bvt disk (vf INDEX_SVT))" "darray_ok (md_stats disk (vf INDEX_BITC))" using assms(1) by (simp_all add: blank_packs_def)
  have z: "ar_cells (md_svt disk (vf DATA_SVT)) = (\<lambda>_. 0)" "ar_cells (md_dst disk (vf DATA_DST)) = (\<lambda>_. empty_entry)"
    "ar_cells (md_bvt disk (vf INDEX_SVT)) = (\<lambda>_. 0)" using assms(1) by (simp_all add: blank_packs_def)
  let ?v = "seg_validator_init (md_svt disk (vf DATA_SVT)) ?n" and ?rit = "reverse_index_table_init (md_rit disk (vf DATA_RIT)) (?n * sb_blocks_per_seg sb)"
    and ?cat = "bit_catalogue_init (md_bvt disk (vf INDEX_SVT)) (md_stats disk (vf INDEX_BITC)) sb"
  note v = seg_validator_blank [OF r(1) z(1), of ?n] and b = seg_validator_blank [OF r(4) z(3), of "slots_of sb"]
  obtain d where d: "dst_init (md_dst disk (vf DATA_DST)) ?n = (Inr (), d)" "space_inv d ?v" "ds_nr_segment d = ?n"
    using dst_blank [OF r(3) z(2) assms(2) v(1,2)] by blast
  have "healthy ?rit" "ar_nr ?rit = ?n * sb_blocks_per_seg sb" using darray_okD(1) [OF r(2)] by (simp_all add: reverse_index_table_init_def)
  moreover have "catalogue_ok ?cat" "nr_slots ?cat = slots_of sb" "\<not> slot_used ?cat fd" for fd
    using b darray_okD(1) [OF r(5)] by (simp_all add: catalogue_ok_def catalogue_init_parts)
  ultimately show thesis using v d by (intro that [of "snd (metadata_tables vf sb j disk)"]) (simp_all add: metadata_tables_def formatted_def Let_def)
qed

lemma blank_other_packs:
  assumes "blank_packs vf' disk" and "\<forall>f. vf' f \<noteq> vf f"
  shows "blank_packs vf' (meta_store vf m disk)"
  using assms by (simp add: blank_packs_def meta_store_def)

section \<open>Reloading\<close>

text \<open>
  Metadata in use over the superblock: what every operation keeps, and what the tables say.
\<close>

definition meta_inv :: "('d, 's) metadata \<Rightarrow> bool" where
  "meta_inv m \<longleftrightarrow>
     (let sb = mt_superblock m
      in space_inv (mt_dst m) (mt_seg_validator m) \<and> ds_nr_segment (mt_dst m) = sb_nr_segment sb \<and>
         healthy (mt_rit m) \<and> ar_nr (mt_rit m) = sb_nr_segment sb * sb_blocks_per_seg sb \<and>
         catalogue_ok (mt_bit_catalogue m) \<and> nr_slots (mt_bit_catalogue m) = slots_of sb)"

lemma formatted_inv: "formatted m \<Longrightarrow> meta_inv m"
  by (simp add: formatted_def meta_inv_def Let_def)

definition same_tables :: "('d, 's) metadata \<Rightarrow> ('d, 's) metadata \<Rightarrow> bool" where
  "same_tables m m' \<longleftrightarrow> mt_rit m' = mt_rit m \<and> entry_at (mt_dst m') = entry_at (mt_dst m) \<and>
     sv_valid (mt_seg_validator m') = sv_valid (mt_seg_validator m) \<and> slot_used (mt_bit_catalogue m') = slot_used (mt_bit_catalogue m) \<and>
     ar_cells (bc_file_stats (mt_bit_catalogue m')) = ar_cells (bc_file_stats (mt_bit_catalogue m))"

lemma seg_validator_reload:
  assumes "sv_ok v"
  shows "sv_ok (seg_validator_init (bs_array (sv_table v)) (sv_nr_segment v))"
    and "sv_valid (seg_validator_init (bs_array (sv_table v)) (sv_nr_segment v)) = sv_valid v"
    and "sv_nr_segment (seg_validator_init (bs_array (sv_table v)) n) = n"
  using assms by (simp_all add: sv_ok_def seg_validator_init_def disk_bitset_init_def bitset_ok_def sv_valid_def bits_def fun_eq_iff healthy_def)

lemma space_reload:
  assumes "space_inv d v"
  obtains d' where "dst_init (ds_array d) (ds_nr_segment d) = (Inr (), d')" and "entry_at d' = entry_at d"
    and "ds_nr_segment d' = ds_nr_segment d" and "space_inv d' (seg_validator_init (bs_array (sv_table v)) (sv_nr_segment v))"
proof -
  note S = space_invD [OF assms]
  let ?n = "ds_nr_segment d" and ?v = "seg_validator_init (bs_array (sv_table v)) (sv_nr_segment v)"
  have D: "healthy (ds_array d)" "ar_nr (ds_array d) = ?n" "?n \<le> INF_ADDR" "\<forall>s < ?n. dst_entry_ok (entry_at d s)"
    using S(1) by (simp_all add: dst_inv_def dst_inv_except_def)
  from init_inv [OF D(1) _ D(3,4)] D(2) obtain d' where d': "dst_init (ds_array d) ?n = (Inr (), d')" "dst_inv d'" "ds_nr_segment d' = ?n"
    "ds_logging_segno d' = INF_ADDR" "ds_array d' = (ds_array d)\<lparr>ar_nr := ?n\<rparr>"
    "\<forall>s. ds_node_list d' s \<longleftrightarrow> s < ?n \<and> 0 < de_nr_valid_block (entry_at d s) \<and> de_nr_valid_block (entry_at d s) < BLOCKS_PER_SEGMENT" by auto
  have "sv_valid v s" if "s < ?n" "0 < de_nr_valid_block (entry_at d s)" for s using S(5) [of s] that by (cases "sv_valid v s") auto
  then have "space_inv d' ?v"
    using d' S(4,5) seg_validator_reload [OF S(3)] unfolding space_inv_def by auto
  then show thesis using d' by (intro that [of d']) simp_all
qed

lemma metadata_reload:
  assumes "meta_inv m"
  shows "\<exists>m'. metadata_tables vf (in_memory mem (mt_superblock m)) j (meta_store vf m disk) = (Inr (), m') \<and> meta_inv m' \<and>
    same_tables m m' \<and> mt_superblock m' = in_memory mem (mt_superblock m) \<and> mt_journal m' = j"
proof -
  let ?sb = "in_memory mem (mt_superblock m)" and ?cat = "mt_bit_catalogue m"
  have I: "space_inv (mt_dst m) (mt_seg_validator m)" "ds_nr_segment (mt_dst m) = sb_nr_segment ?sb" "healthy (mt_rit m)"
    "ar_nr (mt_rit m) = sb_nr_segment ?sb * sb_blocks_per_seg ?sb" "catalogue_ok ?cat" "nr_slots ?cat = slots_of ?sb"
    using assms by (simp_all add: meta_inv_def Let_def)
  have n: "sv_nr_segment (mt_seg_validator m) = sb_nr_segment ?sb" using space_invD(4) [OF I(1)] I(2) by simp
  obtain d where d: "dst_init (ds_array (mt_dst m)) (sb_nr_segment ?sb) = (Inr (), d)" "entry_at d = entry_at (mt_dst m)"
    "ds_nr_segment d = sb_nr_segment ?sb"
    "space_inv d (seg_validator_init (bs_array (sv_table (mt_seg_validator m))) (sb_nr_segment ?sb))"
    using space_reload [OF I(1)] unfolding I(2) n by blast
  define m' where "m' = snd (metadata_tables vf ?sb j (meta_store vf m disk))"
  have m': "metadata_tables vf ?sb j (meta_store vf m disk) = (Inr (), m')" "mt_superblock m' = ?sb" "mt_journal m' = j"
    "mt_seg_validator m' = seg_validator_init (bs_array (sv_table (mt_seg_validator m))) (sb_nr_segment ?sb)" "mt_dst m' = d"
    "mt_rit m' = mt_rit m" "mt_bit_catalogue m' = bit_catalogue_init (bs_array (sv_table (bc_bit_validity_table ?cat))) (bc_file_stats ?cat) ?sb"
    using d(1) I(4) [symmetric] by (simp_all add: m'_def metadata_tables_def meta_store_def reverse_index_table_init_def)
  have c: "sv_ok (bc_bit_validity_table ?cat)" "healthy (bc_file_stats ?cat)" "ar_nr (bc_file_stats ?cat) = slots_of ?sb"
    using I(5,6) by (simp_all add: catalogue_ok_def)
  note cv = seg_validator_reload [OF c(1), unfolded I(6)]
  have "catalogue_ok (mt_bit_catalogue m')" "slot_used (mt_bit_catalogue m') = slot_used ?cat" "nr_slots (mt_bit_catalogue m') = slots_of ?sb"
    "ar_cells (bc_file_stats (mt_bit_catalogue m')) = ar_cells (bc_file_stats ?cat)"
    using cv c(2,3) by (simp_all add: m'(7) catalogue_ok_def catalogue_init_parts) (simp add: healthy_def)
  moreover have "sv_valid (mt_seg_validator m') = sv_valid (mt_seg_validator m)"
    using seg_validator_reload(2) [OF space_invD(3) [OF I(1)]] unfolding m'(4) n .
  ultimately show ?thesis using m' d I by (simp add: meta_inv_def same_tables_def Let_def)
qed

end
