(* ===== verification/Merge_Heap.thy ===== *)
theory Merge_Heap
  imports Compaction
begin

text \<open>
  The heap of the compaction job.  It holds, for each iterator that is not exhausted, the entry the
  iterator gave last; taking out the root and refilling from its iterator moves one entry of one file
  from the unprocessed to the processed ones, always one with a least key.

  \<open>X ! i\<close> are the entries of iterator \<open>i\<close>, \<open>p i\<close> how many of them have been taken from the heap.  \<open>S\<close>
  are the iterators that have been asked for their next entry.
\<close>

abbreviation kn_addr :: "kway_merge_node \<Rightarrow> nat" where
  "kn_addr x \<equiv> fst (kn_val x)"

type_synonym entries = "(nat \<times> blk_record) list"

definition heap_on :: "nat set \<Rightarrow> entries list \<Rightarrow> (nat \<Rightarrow> nat) \<Rightarrow> kway_merge_node list \<Rightarrow> nat \<Rightarrow> bool" where
  "heap_on S X p hp addr \<longleftrightarrow> distinct (map kn_iter hp) \<and> distinct (map kn_addr hp) \<and>
     (\<forall>x \<in> set hp. kn_iter x \<in> S \<and> p (kn_iter x) < length (X ! kn_iter x) \<and>
        node_entry x = X ! kn_iter x ! p (kn_iter x) \<and> kn_addr x < addr) \<and>
     (\<forall>i \<in> S. p i < length (X ! i) \<longrightarrow> i \<in> kn_iter ` set hp)"

definition iters_on ::
  "nat set \<Rightarrow> 'c node_cipher \<Rightarrow> (nat \<Rightarrow> 'c) \<Rightarrow> (bit_file \<Rightarrow> nat) \<Rightarrow> bit_file list \<Rightarrow> entries list \<Rightarrow>
   (nat \<Rightarrow> nat) \<Rightarrow> bit_iterator list \<Rightarrow> bool" where
  "iters_on S nc f base bfs X p iters \<longleftrightarrow> length iters = length X \<and> length bfs = length X \<and>
     (\<forall>i < length X. iter_in nc f (base (bfs ! i)) (bfs ! i) (X ! i)
        (if i \<in> S then min (Suc (p i)) (length (X ! i)) else p i) (iters ! i))"

lemma heap_on_cover:
  assumes "heap_on S X p hp addr" and "j \<in> S" and "p j < length (X ! j)"
  obtains x where "x \<in> set hp" and "kn_iter x = j"
proof -
  have "j \<in> kn_iter ` set hp" using assms by (simp add: heap_on_def)
  then show thesis using that by blast
qed

lemma min_heap_pop:
  assumes "min_heap_ok mh Hp" and "Hp h" and "h \<noteq> []"
  shows "Hp (mh_pop mh h)" and "mset (mh_pop mh h) = mset h - {#hd h#}" and "\<forall>x \<in> set h. kn_key (hd h) \<le> kn_key x"
  using assms unfolding min_heap_ok_def by simp_all

lemma heap_on_mset:
  assumes "mset hp = mset hp'" and "heap_on S X p hp addr"
  shows "heap_on S X p hp' addr"
proof -
  have "distinct (map g hp') = distinct (map g hp)" for g :: "kway_merge_node \<Rightarrow> nat"
    using assms(1) by (metis mset_eq_imp_distinct_iff mset_map)
  moreover have "set hp' = set hp" using assms(1) by (metis mset_eq_setD)
  ultimately show ?thesis using assms(2) unfolding heap_on_def by simp
qed

lemma iters_on_file: "iters_on S nc f base bfs X p iters \<Longrightarrow> i < length X \<Longrightarrow> it_bit_file (iters ! i) = bfs ! i"
  unfolding iters_on_def using iter_in_file by blast

lemma iters_on_cong:
  assumes "iters_on S nc f base bfs X p iters"
    and "\<And>i q. i < length X \<Longrightarrow> base (bfs ! i) \<le> q \<Longrightarrow> q < base (bfs ! i) + BIT_FILE_SIZE \<Longrightarrow> f' q = f q"
  shows "iters_on S nc f' base bfs X p iters"
  using assms iter_in_cong unfolding iters_on_def by meson

lemma push_next_ok:
  assumes hp: "heap_on S X p hp addr" and it: "iters_on S (le_cipher env) f base bfs X p iters"
    and i: "i < length X" "i \<notin> S" "p i \<le> length (X ! i)"
    and mh: "min_heap_ok (le_heap env) Hp" "Hp hp"
  shows "\<exists>hp' iters' addr'. merge_push_next env f i (hp, iters, addr) = Some (hp', iters', addr') \<and> Hp hp' \<and>
    heap_on (insert i S) X p hp' addr' \<and> iters_on (insert i S) (le_cipher env) f base bfs X p iters' \<and>
    addr \<le> addr' \<and> (\<forall>x \<in> set hp'. x \<in> set hp \<or> addr \<le> kn_addr x)"
proof -
  have ii: "iter_in (le_cipher env) f (base (bfs ! i)) (bfs ! i) (X ! i) (p i) (iters ! i)"
    using it i unfolding iters_on_def by (metis (full_types))
  show ?thesis
  proof (cases "p i < length (X ! i)")
    case False
    then have e: "p i = length (X ! i)" using i(3) by simp
    have "heap_on (insert i S) X p hp addr" using hp e unfolding heap_on_def by auto
    moreover have "iters_on (insert i S) (le_cipher env) f base bfs X p iters"
      using it i e ii unfolding iters_on_def by (auto simp: min_def)
    ultimately show ?thesis using iter_in_has_next [OF ii] False mh(2) by (simp add: merge_push_next_def)
  next
    case True
    let ?x = "\<lparr>kn_iter = i, kn_key = fst (X ! i ! p i), kn_val = (addr, snd (X ! i ! p i))\<rparr>"
    let ?hp = "mh_push (le_heap env) ?x hp"
    obtain it' where n: "bit_iterator_next (le_cipher env) f (iters ! i) = Some (Inr (X ! i ! p i), it')"
      "iter_in (le_cipher env) f (base (bfs ! i)) (bfs ! i) (X ! i) (Suc (p i)) it'"
      using iter_next_in [OF ii True] by blast
    have st: "merge_push_next env f i (hp, iters, addr) = Some (?hp, iters[i := it'], Suc addr)"
      using iter_in_has_next [OF ii] True n(1) by (simp add: merge_push_next_def)
    have m: "mset ?hp = mset (?x # hp)" "Hp ?hp" using mh unfolding min_heap_ok_def by auto
    have "i \<notin> kn_iter ` set hp" "addr \<notin> kn_addr ` set hp" using hp i(2) unfolding heap_on_def by auto
    then have "heap_on (insert i S) X p (?x # hp) (Suc addr)"
      using hp True unfolding heap_on_def by (auto simp: node_entry_def less_SucI)
    then have "heap_on (insert i S) X p ?hp (Suc addr)" by (rule heap_on_mset [OF m(1) [symmetric]])
    moreover have "iters_on (insert i S) (le_cipher env) f base bfs X p (iters[i := it'])"
      using it i True n(2) unfolding iters_on_def by (auto simp: nth_list_update min_def)
    moreover have "\<forall>x \<in> set ?hp. x \<in> set hp \<or> addr \<le> kn_addr x"
      using mset_eq_setD [OF m(1)] by auto
    ultimately show ?thesis using st m(2) by auto
  qed
qed

lemma pop_ok:
  assumes hp: "heap_on S X p hp addr" and it: "iters_on S nc f base bfs X p iters" and ne: "hp \<noteq> []"
    and mh: "min_heap_ok mh Hp" "Hp hp"
  defines "i \<equiv> kn_iter (hd hp)"
  shows "i \<in> S" and "p i < length (X ! i)" and "node_entry (hd hp) = X ! i ! p i" and "kn_addr (hd hp) < addr"
    and "\<And>j. j \<in> S \<Longrightarrow> p j < length (X ! j) \<Longrightarrow> kn_key (hd hp) \<le> fst (X ! j ! p j)"
    and "heap_on (S - {i}) X (p(i := Suc (p i))) (mh_pop mh hp) addr" and "Hp (mh_pop mh hp)"
    and "iters_on (S - {i}) nc f base bfs X (p(i := Suc (p i))) iters"
    and "kn_addr (hd hp) \<notin> kn_addr ` set (mh_pop mh hp)"
proof -
  have h: "hd hp \<in> set hp" using ne by simp
  then show "i \<in> S" "p i < length (X ! i)" "node_entry (hd hp) = X ! i ! p i" "kn_addr (hd hp) < addr"
    using hp by (simp_all add: heap_on_def i_def)
  note mp = min_heap_pop [OF mh ne]
  show "Hp (mh_pop mh hp)" by (rule mp(1))
  have m: "mset (mh_pop mh hp) = mset (tl hp)" using mp(2) ne by (cases hp) simp_all
  show "kn_key (hd hp) \<le> fst (X ! j ! p j)" if j: "j \<in> S" "p j < length (X ! j)" for j
  proof -
    obtain x where x: "x \<in> set hp" "kn_iter x = j" by (rule heap_on_cover [OF hp j])
    then have "node_entry x = X ! j ! p j" using hp by (auto simp: heap_on_def)
    then have "fst (X ! j ! p j) = kn_key x" by (metis fst_conv node_entry_def)
    then show ?thesis using mp(3) x(1) by simp
  qed
  obtain a r where ar: "hp = a # r" using ne by (cases hp) simp_all
  have "kn_iter a \<notin> kn_iter ` set r" "kn_addr a \<notin> kn_addr ` set r"
    using hp by (simp_all add: heap_on_def ar)
  then have dist: "kn_iter x \<noteq> i" "kn_addr x \<noteq> kn_addr (hd hp)" if "x \<in> set (tl hp)" for x
    using that unfolding ar i_def list.sel by (metis imageI)+
  show "kn_addr (hd hp) \<notin> kn_addr ` set (mh_pop mh hp)" using dist(2) mset_eq_setD [OF m] by (metis imageE)
  have "heap_on (S - {i}) X (p(i := Suc (p i))) (tl hp) addr"
    unfolding heap_on_def
  proof (intro conjI ballI impI)
    show "distinct (map kn_iter (tl hp))" "distinct (map kn_addr (tl hp))"
      using hp unfolding heap_on_def by (simp_all add: map_tl distinct_tl)
    fix x
    assume x: "x \<in> set (tl hp)"
    then have "x \<in> set hp" by (meson list.set_sel(2) ne)
    then show "kn_iter x \<in> S - {i}" "(p(i := Suc (p i))) (kn_iter x) < length (X ! kn_iter x)"
      "node_entry x = X ! kn_iter x ! (p(i := Suc (p i))) (kn_iter x)" "kn_addr x < addr"
      using hp dist(1) [OF x] unfolding heap_on_def by auto
  next
    fix j
    assume j: "j \<in> S - {i}" "(p(i := Suc (p i))) j < length (X ! j)"
    then have "j \<in> S" "p j < length (X ! j)" by auto
    then obtain x where "x \<in> set hp" "kn_iter x = j" by (rule heap_on_cover [OF hp])
    moreover from this have "x \<noteq> hd hp" using j(1) by (auto simp: i_def)
    ultimately show "j \<in> kn_iter ` set (tl hp)" using ne by (cases hp) auto
  qed
  then show "heap_on (S - {i}) X (p(i := Suc (p i))) (mh_pop mh hp) addr" by (rule heap_on_mset [OF m [symmetric]])
  show "iters_on (S - {i}) nc f base bfs X (p(i := Suc (p i))) iters"
    using it \<open>i \<in> S\<close> \<open>p i < length (X ! i)\<close> unfolding iters_on_def by (auto simp: min_def)
qed

lemma push_all_ok:
  assumes mh: "min_heap_ok (le_heap env) Hp"
  shows "heap_on S X p hp addr \<Longrightarrow> iters_on S (le_cipher env) f base bfs X p iters \<Longrightarrow> Hp hp \<Longrightarrow>
    distinct is \<Longrightarrow> (\<forall>i \<in> set is. i < length X \<and> i \<notin> S \<and> p i \<le> length (X ! i)) \<Longrightarrow>
    \<exists>hp' iters' addr'. merge_push_all env f is (hp, iters, addr) = Some (hp', iters', addr') \<and> Hp hp' \<and>
      heap_on (S \<union> set is) X p hp' addr' \<and> iters_on (S \<union> set is) (le_cipher env) f base bfs X p iters'"
proof (induction "is" arbitrary: S hp iters addr)
  case (Cons i rest)
  have i: "i < length X" "i \<notin> S" "p i \<le> length (X ! i)" using Cons.prems(5) by simp_all
  obtain hp1 iters1 addr1 where 1: "merge_push_next env f i (hp, iters, addr) = Some (hp1, iters1, addr1)"
    "Hp hp1" "heap_on (insert i S) X p hp1 addr1" "iters_on (insert i S) (le_cipher env) f base bfs X p iters1"
    using push_next_ok [OF Cons.prems(1,2) i mh Cons.prems(3)] by blast
  have "\<forall>j \<in> set rest. j < length X \<and> j \<notin> insert i S \<and> p j \<le> length (X ! j)" "distinct rest"
    using Cons.prems(4,5) by auto
  from Cons.IH [OF 1(3,4,2) this(2,1)] 1(1) show ?case by simp
qed simp

end
