(* ===== verification/Merge_Groups.thy ===== *)
theory Merge_Groups
  imports Merge_Heap
begin

text \<open>
  What the merge makes of the entries of one key.  \<open>ds\<close> are the records of the key in the demoted file,
  in the order of the file (a record and its tombstone, or one of them), \<open>ro\<close> the record of the key in
  the next level.  \<open>merge_keep\<close> is the record that is written, \<open>merge_drop\<close> the one whose block is given
  up.  The pending state of the loop is a function of the entries of the key seen so far, whatever the
  order in which the heap delivered them.
\<close>

section \<open>Specification\<close>

definition group :: "entries \<Rightarrow> nat \<Rightarrow> blk_record list" where
  "group xs k = map snd (filter (\<lambda>e. fst e = k) xs)"

definition merge_keep :: "blk_record list \<Rightarrow> blk_record option \<Rightarrow> blk_record option" where
  "merge_keep ds ro =
     (if ds = [] then (case ro of Some r \<Rightarrow> if negative_record r then None else Some r | None \<Rightarrow> None)
      else if negative_record (last ds) then (if length ds \<ge> 2 then Some (last (butlast ds)) else None)
      else Some (last ds))"

definition merge_drop :: "blk_record list \<Rightarrow> blk_record option \<Rightarrow> blk_record option" where
  "merge_drop ds ro = (if ds = [] \<or> negative_record (last ds) then None else ro)"

definition merged :: "entries \<Rightarrow> (nat \<rightharpoonup> blk_record) \<Rightarrow> nat list \<Rightarrow> entries" where
  "merged D Rm ks = concat (map (\<lambda>k. case merge_keep (group D k) (Rm k) of Some v \<Rightarrow> [(k, v)] | None \<Rightarrow> []) ks)"

definition released :: "entries \<Rightarrow> (nat \<rightharpoonup> blk_record) \<Rightarrow> nat list \<Rightarrow> entries" where
  "released D Rm ks = concat (map (\<lambda>k. case merge_drop (group D k) (Rm k) of Some r \<Rightarrow> [(k, r)] | None \<Rightarrow> []) ks)"

fun give_up_all :: "rit \<times> dst \<Rightarrow> entries \<Rightarrow> (rit \<times> dst) option" where
  "give_up_all st [] = Some st"
| "give_up_all st (e # es) =
     (case give_up_block (fst st) (snd st) (fst e) (snd e) of None \<Rightarrow> None | Some st' \<Rightarrow> give_up_all st' es)"

lemma give_up_all_append:
  "give_up_all st (xs @ ys) = Option.bind (give_up_all st xs) (\<lambda>st'. give_up_all st' ys)"
  by (induction xs arbitrary: st) (auto split: option.splits)

lemma merged_append: "merged D Rm (ks @ ks') = merged D Rm ks @ merged D Rm ks'"
  by (simp add: merged_def)

lemma released_append: "released D Rm (ks @ ks') = released D Rm ks @ released D Rm ks'"
  by (simp add: released_def)

lemma merged_one: "merged D Rm [k] = (case merge_keep (group D k) (Rm k) of Some v \<Rightarrow> [(k, v)] | None \<Rightarrow> [])"
  by (simp add: merged_def)

lemma released_one: "released D Rm [k] = (case merge_drop (group D k) (Rm k) of Some v \<Rightarrow> [(k, v)] | None \<Rightarrow> [])"
  by (simp add: released_def)

lemma merged_keys: "set (map fst (merged D Rm ks)) \<subseteq> set ks"
  by (auto simp: merged_def split: option.splits)

lemma merged_sorted: "sorted_wrt (<) ks \<Longrightarrow> sorted_wrt (<) (map fst (merged D Rm ks))"
proof (induction ks)
  case (Cons k ks)
  have "\<forall>x \<in> set (map fst (merged D Rm ks)). k < x" using merged_keys Cons.prems by fastforce
  then show ?case using Cons by (simp add: merged_def split: option.split)
qed (simp add: merged_def)

lemma map_of_merged:
  "map_of (merged D Rm ks) k = (if k \<in> set ks then merge_keep (group D k) (Rm k) else None)"
  by (induction ks) (auto simp: merged_def split: option.split)

section \<open>The pending group\<close>

text \<open>Iterator \<open>m\<close> is that of the demoted file, those below are those of the next level.\<close>

definition pending ::
  "nat \<Rightarrow> nat \<Rightarrow> blk_record list \<Rightarrow> blk_record option \<Rightarrow> 'c merge_state \<Rightarrow> bool" where
  "pending m k ds ro st \<longleftrightarrow> kn_key (mg_distinct st) = k \<and> (ds \<noteq> [] \<or> ro \<noteq> None) \<and>
     (if ds \<noteq> [] then kn_iter (mg_distinct st) = m \<and> snd (kn_val (mg_distinct st)) = last ds
      else kn_iter (mg_distinct st) < m \<and> ro = Some (snd (kn_val (mg_distinct st)))) \<and>
     mg_new st = (if length ds \<ge> 2 then Some (k, last (butlast ds)) else None) \<and>
     mg_old st = (if ds \<noteq> [] then map_option (Pair k) ro else None)"

definition sources_ok :: "nat \<Rightarrow> bit_file list \<Rightarrow> bool" where
  "sources_ok m bfs \<longleftrightarrow>
     (\<forall>j < m. bf_version (bfs ! j) < bf_version (bfs ! m) \<and> bf_id (bfs ! j) \<noteq> bf_id (bfs ! m))"

definition files_of :: "nat \<Rightarrow> bit_file list \<Rightarrow> 'c merge_state \<Rightarrow> bool" where
  "files_of m bfs st \<longleftrightarrow> (\<forall>j \<le> m. it_bit_file (mg_iters st ! j) = bfs ! j)"

lemma same_key_demoted:
  assumes "pending m k ds ro st" and "sources_ok m bfs" and "files_of m bfs st"
    and "kn_iter first = m" and "node_entry first = (k, v)" and "kn_addr first \<noteq> kn_addr (mg_distinct st)"
  shows "pending m k (ds @ [v]) ro (merge_same_key st first)"
proof -
  have f: "kn_key first = k" "snd (kn_val first) = v" using assms(5) by (auto simp: node_entry_def)
  let ?d = "mg_distinct st"
  show ?thesis
  proof (cases "ds = []")
    case True
    then have d: "kn_iter ?d < m" "ro = Some (snd (kn_val ?d))" "kn_key ?d = k" "mg_new st = None" "mg_old st = None"
      using assms(1) by (auto simp: pending_def)
    have "bf_version (bfs ! kn_iter ?d) < bf_version (bfs ! m)" using assms(2) d(1) by (simp add: sources_ok_def)
    then have "merge_same_key st first = st\<lparr>mg_old := Some (node_entry ?d), mg_distinct := first\<rparr>"
      using assms(3,4) d(1) by (simp add: merge_same_key_def files_of_def)
    then show ?thesis using True d f assms(4) by (simp add: pending_def node_entry_def)
  next
    case False
    then have d: "kn_iter ?d = m" "snd (kn_val ?d) = last ds" "kn_key ?d = k" "mg_old st = map_option (Pair k) ro"
      using assms(1) by (auto simp: pending_def)
    have "merge_same_key st first = st\<lparr>mg_new := Some (node_entry ?d), mg_distinct := first\<rparr>"
      using assms(4,6) d(1) by (simp add: merge_same_key_def)
    then show ?thesis using False d f assms(4) by (cases ds) (simp_all add: pending_def node_entry_def)
  qed
qed

lemma same_key_relative:
  assumes "pending m k ds None st" and "sources_ok m bfs" and "files_of m bfs st"
    and "kn_iter first < m" and "node_entry first = (k, r)"
  shows "pending m k ds (Some r) (merge_same_key st first)"
proof -
  let ?d = "mg_distinct st"
  have d: "ds \<noteq> []" "kn_iter ?d = m" using assms(1) by (auto simp: pending_def)
  have "\<not> bf_version (bfs ! m) < bf_version (bfs ! kn_iter first)" "bf_id (bfs ! m) \<noteq> bf_id (bfs ! kn_iter first)"
    using assms(2,4) unfolding sources_ok_def by (force, metis)
  then have "merge_same_key st first = st\<lparr>mg_old := Some (node_entry first)\<rparr>"
    using assms(3,4) d by (simp add: merge_same_key_def files_of_def)
  then show ?thesis using assms(1,5) d by (simp add: pending_def)
qed

lemma pending_start:
  assumes "node_entry first = (k, v)" and "mg_new st = None" and "mg_old st = None" and "mg_distinct st = first"
  shows "kn_iter first = m \<Longrightarrow> pending m k [v] None st" and "kn_iter first < m \<Longrightarrow> pending m k [] (Some v) st"
  using assms by (auto simp: pending_def node_entry_def)

lemma emit_pending:
  assumes "pending m k ds ro st"
  shows "merge_emit env st =
    (case (case merge_keep ds ro of None \<Rightarrow> Some (mg_builder st)
           | Some v \<Rightarrow> bit_builder_add_entry (le_cipher env) (mg_builder st) (k, v)) of
       None \<Rightarrow> None
     | Some b \<Rightarrow>
         (case (case merge_drop ds ro of None \<Rightarrow> Some (mg_rit st, mg_dst st)
                | Some r \<Rightarrow> give_up_block (mg_rit st) (mg_dst st) k r) of
            None \<Rightarrow> None
          | Some (rit, dst) \<Rightarrow>
              Some (st\<lparr>mg_builder := b, mg_rit := rit, mg_dst := dst, mg_new := None, mg_old := None\<rparr>)))"
proof -
  let ?d = "mg_distinct st"
  have k: "kn_key ?d = k" using assms by (simp add: pending_def)
  show ?thesis
  proof (cases "ds = []")
    case True
    then have d: "ro = Some (snd (kn_val ?d))" "mg_new st = None" "mg_old st = None"
      using assms by (auto simp: pending_def)
    then show ?thesis using True k
      by (simp add: merge_emit_def merge_keep_def merge_drop_def node_entry_def Let_def cong: option.case_cong)
  next
    case False
    then have d: "snd (kn_val ?d) = last ds" "mg_old st = map_option (Pair k) ro"
      "mg_new st = (if length ds \<ge> 2 then Some (k, last (butlast ds)) else None)"
      using assms by (auto simp: pending_def)
    then show ?thesis using False k
      by (cases ro) (simp_all add: merge_emit_def merge_keep_def merge_drop_def node_entry_def Let_def cong: option.case_cong)
  qed
qed

end
