(* ===== verification/Merge_Output.thy ===== *)
theory Merge_Output
  imports Merge_Groups
begin

text \<open>
  What the merge writes.  The entries written so far are those of the finished files, each of full
  capacity, followed by those in the builder.  Every file has a slot that was free before, so nothing
  else in the index region changes; the catalogue describes the finished files and the next level
  holds them among its old ones.
\<close>

section \<open>Catalogue\<close>

abbreviation slot_pos :: "bit_catalogue \<Rightarrow> nat \<Rightarrow> nat" where
  "slot_pos c fd \<equiv> bc_start c + fd * bc_file_size c"

definition same_place :: "bit_catalogue \<Rightarrow> bit_catalogue \<Rightarrow> bool" where
  "same_place c c' \<longleftrightarrow> bc_start c' = bc_start c \<and> bc_file_size c' = bc_file_size c \<and> nr_slots c' = nr_slots c \<and>
     bc_nr_disk_level c' = bc_nr_disk_level c \<and> bc_common_ratio c' = bc_common_ratio c \<and>
     bc_max_level_nr_file c' = bc_max_level_nr_file c"

lemma same_place_refl [simp]: "same_place c c"
  by (simp add: same_place_def)

lemma same_place_trans: "same_place a b \<Longrightarrow> same_place b c \<Longrightarrow> same_place a c"
  by (simp add: same_place_def)

lemma set_file_stats_ok:
  assumes "catalogue_ok c" and "fd < nr_slots c"
  shows "snd (bitc_set_file_stats c fd s) =
    c\<lparr>bc_file_stats := (bc_file_stats c)\<lparr>ar_cells := (ar_cells (bc_file_stats c))(fd := s)\<rparr>\<rparr>"
  using assms by (simp add: bitc_set_file_stats_def catalogue_ok_def arr_simps)

lemma slot_pos_range:
  "bc_file_size c = BIT_FILE_SIZE \<Longrightarrow> p \<in> slot_range c fd \<longleftrightarrow> slot_pos c fd \<le> p \<and> p < slot_pos c fd + BIT_FILE_SIZE"
  by (auto simp: slot_range_def)

lemma builder_region:
  assumes "builder_inv nc f0 base b xs" and "p < base \<or> base + BIT_FILE_SIZE \<le> p"
  shows "bb_file b p = f0 p"
proof -
  have o: "outside_kept f0 base b" using assms(1) by (simp add: builder_inv_def)
  from assms(1) consider C0 C1 g G where "builder_open nc base b C0 C1 g G" | G where "builder_closed nc base b G"
    unfolding builder_inv_def by blast
  then have "bb_begin b \<le> base + BIT_FILE_SIZE"
  proof cases
    case 1
    note D = builder_openD [OF 1]
    have "bb_top b \<le> base + BIT_FILE_SIZE" using D(6,7,10) by (simp add: BIT_FILE_SIZE_eq layout_consts)
    then show ?thesis by (simp add: bb_top_def)
  next
    case 2
    then show ?thesis by (simp add: builder_closed_def bb_top_def)
  qed
  then show ?thesis using o assms(2) unfolding outside_kept_def by auto
qed

section \<open>Invariant of the output\<close>

definition region_kept :: "bit_catalogue \<Rightarrow> nat set \<Rightarrow> (nat \<Rightarrow> 'c) \<Rightarrow> (nat \<Rightarrow> 'c) \<Rightarrow> bool" where
  "region_kept c ids f f' \<longleftrightarrow> (\<forall>p. (\<forall>fd \<in> ids. p \<notin> slot_range c fd) \<longrightarrow> f' p = f p)"

text \<open>The finished files \<open>news\<close> with their entries \<open>chunks\<close>, in a region \<open>f\<close>.\<close>

definition files_written ::
  "'c lsm_env \<Rightarrow> (nat \<Rightarrow> 'c) \<Rightarrow> bit_catalogue \<Rightarrow> bit_level \<Rightarrow> (nat \<Rightarrow> 'c) \<Rightarrow> bit_catalogue \<Rightarrow> bit_level \<Rightarrow>
   bit_file list \<Rightarrow> entries list \<Rightarrow> bool" where
  "files_written env region0 cat0 lvl0 f cat lvl news chunks \<longleftrightarrow>
     catalogue_ok cat \<and> same_place cat0 cat \<and> bc_max_version cat0 \<le> bc_max_version cat \<and>
     distinct (map bf_id news) \<and>
     (\<forall>b \<in> set news. bf_id b < nr_slots cat0 \<and> \<not> slot_used cat0 (bf_id b) \<and> bf_level b = bl_level lvl0 \<and>
        bc_max_version cat0 \<le> bf_version b \<and> bf_version b < bc_max_version cat \<and>
        ar_cells (bc_file_stats cat) (bf_id b) = bit_file_get_stats b) \<and>
     (\<forall>fd. fd \<notin> bf_id ` set news \<longrightarrow> ar_cells (bc_file_stats cat) fd = ar_cells (bc_file_stats cat0) fd) \<and>
     list_all2 (\<lambda>b xs. file_in (le_cipher env) f (slot_pos cat0 (bf_id b)) b xs) news chunks \<and>
     region_kept cat0 (bf_id ` set news) region0 f \<and>
     (\<exists>fs. lvl = lvl0\<lparr>bl_files := fs\<rparr> \<and> cmp_sorted fs \<and> mset fs = mset (bl_files lvl0) + mset news)"

definition out_ok ::
  "'c lsm_env \<Rightarrow> (nat \<Rightarrow> 'c) \<Rightarrow> bit_catalogue \<Rightarrow> bit_level \<Rightarrow> bit_file list \<Rightarrow> entries list \<Rightarrow> entries \<Rightarrow>
   'c merge_state \<Rightarrow> bool" where
  "out_ok env region0 cat0 lvl0 news chunks tail st \<longleftrightarrow>
     (\<exists>f. files_written env region0 cat0 lvl0 f (mg_catalogue st) (mg_level2 st) news chunks \<and>
        builder_inv (le_cipher env) f (slot_pos cat0 (mg_fd st)) (mg_builder st) tail) \<and>
     sv_valid (bc_bit_validity_table (mg_catalogue st)) =
       (\<lambda>fd. slot_used cat0 fd \<or> fd \<in> bf_id ` set news \<or> fd = mg_fd st) \<and>
     mg_fd st < nr_slots cat0 \<and> \<not> slot_used cat0 (mg_fd st) \<and> mg_fd st \<notin> bf_id ` set news \<and>
     bb_id (mg_builder st) = mg_fd st \<and> bb_level (mg_builder st) = bl_level lvl0 \<and>
     bc_max_version cat0 \<le> bb_version (mg_builder st) \<and> bb_version (mg_builder st) < bc_max_version (mg_catalogue st) \<and>
     length tail \<le> DEFAULT_LSM_FILE_CAPACITY"

lemma out_size: "out_ok env region0 cat0 lvl0 news chunks tail st \<Longrightarrow> bb_size (mg_builder st) = length tail"
  by (auto simp: out_ok_def builder_inv_def builder_fields_def)

lemma out_region:
  assumes "out_ok env region0 cat0 lvl0 news chunks tail st" and "bc_file_size cat0 = BIT_FILE_SIZE"
  shows "region_kept cat0 (insert (mg_fd st) (bf_id ` set news)) region0 (bb_file (mg_builder st))"
  unfolding region_kept_def
proof (intro allI impI)
  fix p
  assume p: "\<forall>fd \<in> insert (mg_fd st) (bf_id ` set news). p \<notin> slot_range cat0 fd"
  from assms(1) obtain f where "files_written env region0 cat0 lvl0 f (mg_catalogue st) (mg_level2 st) news chunks"
    and b: "builder_inv (le_cipher env) f (slot_pos cat0 (mg_fd st)) (mg_builder st) tail" unfolding out_ok_def by blast
  then have "region_kept cat0 (bf_id ` set news) region0 f" by (simp add: files_written_def)
  then have "f p = region0 p" using p unfolding region_kept_def by blast
  moreover have "p < slot_pos cat0 (mg_fd st) \<or> slot_pos cat0 (mg_fd st) + BIT_FILE_SIZE \<le> p"
    using p slot_pos_range [OF assms(2)] by (metis insertI1 not_le)
  ultimately show "bb_file (mg_builder st) p = region0 p" using builder_region [OF b] by simp
qed

lemma out_add:
  assumes "out_ok env region0 cat0 lvl0 news chunks tail st" and "node_cipher_ok (le_cipher env)"
    and "length tail < DEFAULT_LSM_FILE_CAPACITY"
  shows "\<exists>b. bit_builder_add_entry (le_cipher env) (mg_builder st) e = Some b \<and>
    out_ok env region0 cat0 lvl0 news chunks (tail @ [e]) (st\<lparr>mg_builder := b\<rparr>)"
proof -
  from assms(1) obtain f where f: "files_written env region0 cat0 lvl0 f (mg_catalogue st) (mg_level2 st) news chunks"
    and b: "builder_inv (le_cipher env) f (slot_pos cat0 (mg_fd st)) (mg_builder st) tail" unfolding out_ok_def by blast
  from add_entry_inv [OF b assms(3,2)] obtain b' where
    b': "bit_builder_add_entry (le_cipher env) (mg_builder st) e = Some b'"
    "builder_inv (le_cipher env) f (slot_pos cat0 (mg_fd st)) b' (tail @ [e])" by blast
  note ids = add_entry_ids [OF b'(1)]
  have "out_ok env region0 cat0 lvl0 news chunks (tail @ [e]) (st\<lparr>mg_builder := b'\<rparr>)"
    using assms(1,3) f b'(2) ids unfolding out_ok_def by auto
  then show ?thesis using b'(1) by blast
qed

text \<open>A finished builder adds a file.\<close>

lemma out_add_file:
  assumes out: "out_ok env region0 cat0 lvl0 news chunks tail st" and nc: "node_cipher_ok (le_cipher env)"
    and tail: "tail \<noteq> []" "sorted_wrt (\<le>) (map fst tail)" and sz: "bc_file_size cat0 = BIT_FILE_SIZE"
    and room: "length (bl_files lvl0) + length news < bl_max_size lvl0"
  shows "\<exists>bf f cat lvl. merge_add_file env st = (f, st\<lparr>mg_catalogue := cat, mg_level2 := lvl\<rparr>) \<and> bf_id bf = mg_fd st \<and>
    files_written env region0 cat0 lvl0 f cat lvl (news @ [bf]) (chunks @ [tail]) \<and>
    sv_valid (bc_bit_validity_table cat) = sv_valid (bc_bit_validity_table (mg_catalogue st))"
proof -
  let ?nc = "le_cipher env" and ?cat = "mg_catalogue st" and ?lvl = "mg_level2 st" and ?fd = "mg_fd st"
  from out obtain f0 where w: "files_written env region0 cat0 lvl0 f0 ?cat ?lvl news chunks"
    and b: "builder_inv ?nc f0 (slot_pos cat0 ?fd) (mg_builder st) tail" unfolding out_ok_def by blast
  obtain bf f where c: "bit_builder_complete ?nc (mg_builder st) = (bf, f)"
    "file_in ?nc f (slot_pos cat0 ?fd) bf tail"
    "\<forall>p. p < slot_pos cat0 ?fd \<or> slot_pos cat0 ?fd + BIT_FILE_SIZE \<le> p \<longrightarrow> f p = f0 p"
    using complete_ok [OF b nc tail(2,1)] by blast
  have ids: "bf_id bf = ?fd" "bf_level bf = bl_level lvl0" "bf_version bf = bb_version (mg_builder st)"
    using complete_ids [OF c(1)] out by (simp_all add: out_ok_def)
  have fd: "?fd < nr_slots cat0" "\<not> slot_used cat0 ?fd" "?fd \<notin> bf_id ` set news"
    using out unfolding out_ok_def by blast+
  have ok: "catalogue_ok ?cat" "same_place cat0 ?cat" using w by (simp_all add: files_written_def)
  have n: "?fd < nr_slots ?cat" using fd(1) ok(2) by (simp add: same_place_def)
  let ?cat' = "snd (bitc_set_file_stats ?cat ?fd (bit_file_get_stats bf))"
  note cat' = set_file_stats_ok [OF ok(1) n, of "bit_file_get_stats bf"]
  obtain fs where fs: "?lvl = lvl0\<lparr>bl_files := fs\<rparr>" "cmp_sorted fs" "mset fs = mset (bl_files lvl0) + mset news"
    using w unfolding files_written_def by blast
  let ?pos = "bit_level_search_file ?lvl bf"
  let ?fs = "take ?pos fs @ bf # drop ?pos fs"
  have len: "length fs = length (bl_files lvl0) + length news" using fs(3) by (metis size_mset size_union)
  have add: "snd (bit_level_add_file ?lvl bf) = lvl0\<lparr>bl_files := ?fs\<rparr>"
    using len room fs(1) by (simp add: bit_level_add_file_def Let_def)
  have so: "cmp_sorted ?fs"
    using cmp_sorted_insert search_file_splits [of ?lvl bf] fs(1,2) by simp
  have ms: "mset ?fs = mset (bl_files lvl0) + mset (news @ [bf])"
  proof -
    have "mset ?fs = add_mset bf (mset (take ?pos fs @ drop ?pos fs))" unfolding mset_append by simp
    then show ?thesis using fs(3) by simp
  qed
  have other: "f p = f0 p" if "p \<in> slot_range cat0 fd'" "fd' \<noteq> ?fd" for p fd'
  proof -
    have "p \<notin> slot_range cat0 ?fd" using slots_disjoint [OF that(2), of cat0] that(1) by blast
    then show ?thesis using c(3) slot_pos_range [OF sz, of p ?fd] by force
  qed
  have old: "file_in ?nc f (slot_pos cat0 (bf_id b)) b xs"
    if "file_in ?nc f0 (slot_pos cat0 (bf_id b)) b xs" "b \<in> set news" for b xs
  proof (rule file_in_cong [OF that(1)])
    fix p
    assume "slot_pos cat0 (bf_id b) \<le> p" "p < slot_pos cat0 (bf_id b) + BIT_FILE_SIZE"
    then have "p \<in> slot_range cat0 (bf_id b)" using slot_pos_range [OF sz] by blast
    then show "f p = f0 p" using other that(2) fd(3) by (metis imageI)
  qed
  have "files_written env region0 cat0 lvl0 f ?cat' (snd (bit_level_add_file ?lvl bf)) (news @ [bf]) (chunks @ [tail])"
    unfolding files_written_def
  proof (intro conjI)
    show "catalogue_ok ?cat'" "same_place cat0 ?cat'" "bc_max_version cat0 \<le> bc_max_version ?cat'"
      using ok w unfolding cat' by (simp_all add: catalogue_ok_def same_place_def files_written_def)
    show "distinct (map bf_id (news @ [bf]))" using w fd(3) ids(1) by (simp add: files_written_def)
    show "\<forall>b \<in> set (news @ [bf]). bf_id b < nr_slots cat0 \<and> \<not> slot_used cat0 (bf_id b) \<and> bf_level b = bl_level lvl0 \<and>
        bc_max_version cat0 \<le> bf_version b \<and> bf_version b < bc_max_version ?cat' \<and>
        ar_cells (bc_file_stats ?cat') (bf_id b) = bit_file_get_stats b"
    proof
      fix b
      assume "b \<in> set (news @ [bf])"
      then consider "b \<in> set news" | "b = bf" by auto
      then show "bf_id b < nr_slots cat0 \<and> \<not> slot_used cat0 (bf_id b) \<and> bf_level b = bl_level lvl0 \<and>
        bc_max_version cat0 \<le> bf_version b \<and> bf_version b < bc_max_version ?cat' \<and>
        ar_cells (bc_file_stats ?cat') (bf_id b) = bit_file_get_stats b"
      proof cases
        case 1
        then have "bf_id b \<noteq> ?fd" using fd(3) by (metis imageI)
        then show ?thesis using 1 w unfolding cat' by (simp add: files_written_def)
      next
        case 2
        then show ?thesis using ids fd out unfolding cat' by (simp add: out_ok_def)
      qed
    qed
    show "\<forall>fd. fd \<notin> bf_id ` set (news @ [bf]) \<longrightarrow> ar_cells (bc_file_stats ?cat') fd = ar_cells (bc_file_stats cat0) fd"
      using w ids(1) unfolding cat' by (simp add: files_written_def)
    have "list_all2 (\<lambda>b xs. file_in ?nc f0 (slot_pos cat0 (bf_id b)) b xs) news chunks"
      using w by (simp add: files_written_def)
    then have "list_all2 (\<lambda>b xs. file_in ?nc f (slot_pos cat0 (bf_id b)) b xs) news chunks"
      by (rule list.rel_mono_strong) (use old in blast)
    then show "list_all2 (\<lambda>b xs. file_in ?nc f (slot_pos cat0 (bf_id b)) b xs) (news @ [bf]) (chunks @ [tail])"
      using c(2) ids(1) by (simp add: list_all2_appendI)
    show "region_kept cat0 (bf_id ` set (news @ [bf])) region0 f"
      unfolding region_kept_def
    proof (intro allI impI)
      fix p
      assume p: "\<forall>fd \<in> bf_id ` set (news @ [bf]). p \<notin> slot_range cat0 fd"
      then have "p \<notin> slot_range cat0 ?fd" using ids(1) by simp
      then have "f p = f0 p" using c(3) slot_pos_range [OF sz, of p ?fd] by force
      then show "f p = region0 p" using w p unfolding files_written_def region_kept_def by simp
    qed
    show "\<exists>fs. snd (bit_level_add_file ?lvl bf) = lvl0\<lparr>bl_files := fs\<rparr> \<and> cmp_sorted fs \<and>
        mset fs = mset (bl_files lvl0) + mset (news @ [bf])"
      using add so ms by blast
  qed
  then show ?thesis using c(1) ids(1) cat'
    by (intro exI [of _ bf] exI [of _ f] exI [of _ ?cat'] exI [of _ "snd (bit_level_add_file ?lvl bf)"])
      (simp add: merge_add_file_def)
qed


text \<open>A new builder, in a slot that is free.\<close>

lemma out_new_builder:
  assumes w: "files_written env region0 cat0 lvl0 f cat lvl news chunks"
    and used: "sv_valid (bc_bit_validity_table cat) = (\<lambda>fd. slot_used cat0 fd \<or> fd \<in> bf_id ` set news)"
    and free: "fd' < nr_slots cat0" "\<not> slot_used cat0 fd'" "fd' \<notin> bf_id ` set news"
  shows "\<exists>fd cat1. bitc_alloc_file cat = (Inr fd, cat1) \<and>
    (\<forall>st. mg_fd st = fd \<and> mg_catalogue st = snd (bitc_get_next_version cat1) \<and> mg_level2 st = lvl \<and>
       mg_builder st = compaction_get_builder env f (snd (bitc_get_next_version cat1)) fd (bl_level lvl)
         (fst (bitc_get_next_version cat1)) \<longrightarrow>
       out_ok env region0 cat0 lvl0 news chunks [] st)"
proof -
  have ok: "catalogue_ok cat" "same_place cat0 cat" using w by (simp_all add: files_written_def)
  have nr: "nr_slots cat = nr_slots cat0" using ok(2) by (simp add: same_place_def)
  show ?thesis
    using ok(1)
  proof (cases rule: alloc_file_cases)
    case (full c')
    then have "slot_used cat fd'" using free(1) nr by simp
    then show ?thesis using used free by simp
  next
    case (found fd cat1)
    let ?cat2 = "snd (bitc_get_next_version cat1)"
    have fd: "fd < nr_slots cat0" "\<not> slot_used cat0 fd" "fd \<notin> bf_id ` set news"
      using found(2,3) nr used by auto
    have sel: "bc_start cat1 = bc_start cat" "bc_file_size cat1 = bc_file_size cat" "bc_max_version cat1 = bc_max_version cat"
      "bc_nr_disk_level cat1 = bc_nr_disk_level cat" "bc_common_ratio cat1 = bc_common_ratio cat"
      "bc_max_level_nr_file cat1 = bc_max_level_nr_file cat"
      by (subst found(8), simp)+
    have c2: "catalogue_ok ?cat2" "same_place cat0 ?cat2" "bc_file_stats ?cat2 = bc_file_stats cat"
      "bc_max_version ?cat2 = Suc (bc_max_version cat)"
      "sv_valid (bc_bit_validity_table ?cat2) = (sv_valid (bc_bit_validity_table cat))(fd := True)"
      using found(4,5,6,7) ok(2) sel by (simp_all add: bitc_get_next_version_def catalogue_ok_def same_place_def)
    have w2: "files_written env region0 cat0 lvl0 f ?cat2 lvl news chunks"
      using w c2 unfolding files_written_def by (auto simp: less_SucI)
    have lvl: "bl_level lvl = bl_level lvl0" using w by (auto simp: files_written_def)
    have pos: "slot_pos ?cat2 fd = slot_pos cat0 fd" using c2(2) by (simp add: same_place_def)
    have v: "fst (bitc_get_next_version cat1) = bc_max_version cat" using sel by (simp add: bitc_get_next_version_def)
    have le: "bc_max_version cat0 \<le> bc_max_version cat" using w by (simp add: files_written_def)
    have "out_ok env region0 cat0 lvl0 news chunks [] st"
      if "mg_fd st = fd" "mg_catalogue st = ?cat2" "mg_level2 st = lvl"
        "mg_builder st = compaction_get_builder env f ?cat2 fd (bl_level lvl) (fst (bitc_get_next_version cat1))" for st
      unfolding out_ok_def that(1-3)
    proof (intro conjI)
      show "\<exists>f. files_written env region0 cat0 lvl0 f ?cat2 lvl news chunks \<and>
          builder_inv (le_cipher env) f (slot_pos cat0 fd) (mg_builder st) []"
        using w2 builder_inv_init unfolding that(4) compaction_get_builder_def pos by blast
      show "sv_valid (bc_bit_validity_table ?cat2) = (\<lambda>fd'. slot_used cat0 fd' \<or> fd' \<in> bf_id ` set news \<or> fd' = fd)"
        unfolding c2(5) used by (auto simp: fun_eq_iff)
      show "bb_id (mg_builder st) = fd" "bb_level (mg_builder st) = bl_level lvl0"
        "bc_max_version cat0 \<le> bb_version (mg_builder st)" "bb_version (mg_builder st) < bc_max_version ?cat2"
        unfolding that(4) compaction_get_builder_def using lvl v le c2(4) by (simp_all add: builder_init_eq)
    qed (use fd in simp_all)
    then show ?thesis using found(1) by blast
  qed
qed

text \<open>A full builder is finished and the next one opened.\<close>

lemma out_next:
  assumes out: "out_ok env region0 cat0 lvl0 news chunks tail st" and nc: "node_cipher_ok (le_cipher env)"
    and tail: "tail \<noteq> []" "sorted_wrt (\<le>) (map fst tail)" and sz: "bc_file_size cat0 = BIT_FILE_SIZE"
    and room: "length (bl_files lvl0) + length news < bl_max_size lvl0"
    and free: "fd' < nr_slots cat0" "\<not> slot_used cat0 fd'" "fd' \<notin> insert (mg_fd st) (bf_id ` set news)"
  shows "\<exists>bf cat lvl fd b. merge_next_file env st =
      st\<lparr>mg_catalogue := cat, mg_level2 := lvl, mg_fd := fd, mg_builder := b\<rparr> \<and> bf_id bf = mg_fd st \<and>
    out_ok env region0 cat0 lvl0 (news @ [bf]) (chunks @ [tail]) []
      (st\<lparr>mg_catalogue := cat, mg_level2 := lvl, mg_fd := fd, mg_builder := b\<rparr>)"
proof -
  obtain bf f cat lvl where a: "merge_add_file env st = (f, st\<lparr>mg_catalogue := cat, mg_level2 := lvl\<rparr>)" "bf_id bf = mg_fd st"
    "files_written env region0 cat0 lvl0 f cat lvl (news @ [bf]) (chunks @ [tail])"
    "sv_valid (bc_bit_validity_table cat) = sv_valid (bc_bit_validity_table (mg_catalogue st))"
    using out_add_file [OF out nc tail sz room] by blast
  have used: "sv_valid (bc_bit_validity_table cat) = (\<lambda>fd. slot_used cat0 fd \<or> fd \<in> bf_id ` set (news @ [bf]))"
    using out a(2,4) unfolding out_ok_def by auto
  have fr: "fd' \<notin> bf_id ` set (news @ [bf])" using free(3) a(2) by simp
  obtain fd cat1 where n: "bitc_alloc_file cat = (Inr fd, cat1)"
    "\<forall>st. mg_fd st = fd \<and> mg_catalogue st = snd (bitc_get_next_version cat1) \<and> mg_level2 st = lvl \<and>
       mg_builder st = compaction_get_builder env f (snd (bitc_get_next_version cat1)) fd (bl_level lvl)
         (fst (bitc_get_next_version cat1)) \<longrightarrow>
       out_ok env region0 cat0 lvl0 (news @ [bf]) (chunks @ [tail]) [] st"
    using out_new_builder [OF a(3) used free(1,2) fr] by (elim exE conjE) rule
  let ?cat2 = "snd (bitc_get_next_version cat1)"
  let ?b = "compaction_get_builder env f ?cat2 fd (bl_level lvl) (fst (bitc_get_next_version cat1))"
  let ?st = "st\<lparr>mg_catalogue := ?cat2, mg_level2 := lvl, mg_fd := fd, mg_builder := ?b\<rparr>"
  have "merge_next_file env st = ?st" using a(1) n(1) by (simp add: merge_next_file_def split_beta)
  moreover have "out_ok env region0 cat0 lvl0 (news @ [bf]) (chunks @ [tail]) [] ?st" using n(2) by simp
  ultimately show ?thesis using a(2) by blast
qed

end
