(* ===== verification/Merge_Loop.thy ===== *)
theory Merge_Loop
  imports Merge_Output
begin

text \<open>
  The merge loop.  It ends, for every heap that meets the contract, with every key but the last one
  written or dropped as \<^const>\<open>merge_keep\<close> says and the last one pending.
\<close>

section \<open>Sources\<close>

text \<open>
  The entries \<open>X\<close> of the iterators: those of the demoted file last, before them those of the next
  level, in which no key occurs twice; \<open>Rm\<close> looks keys up in the next level.
\<close>

definition merge_sources :: "bit_file list \<Rightarrow> entries list \<Rightarrow> nat \<Rightarrow> (nat \<rightharpoonup> blk_record) \<Rightarrow> bool" where
  "merge_sources bfs X m Rm \<longleftrightarrow> length X = Suc m \<and> length bfs = Suc m \<and> sources_ok m bfs \<and>
     (\<forall>i \<le> m. sorted_wrt (\<le>) (map fst (X ! i))) \<and>
     (\<forall>j < m. \<forall>e \<in> set (X ! j). Rm (fst e) = Some (snd e)) \<and>
     (\<forall>k r. Rm k = Some r \<longrightarrow> (\<exists>j < m. (k, r) \<in> set (X ! j))) \<and>
     (\<forall>j < m. \<forall>j' < m. \<forall>q < length (X ! j). \<forall>q' < length (X ! j').
        fst (X ! j ! q) = fst (X ! j' ! q') \<longrightarrow> j = j' \<and> q = q')"

definition merge_keys :: "entries list \<Rightarrow> nat list" where
  "merge_keys X = sorted_list_of_set (\<Union>xs \<in> set X. fst ` set xs)"

lemma merge_keys_set: "set (merge_keys X) = (\<Union>xs \<in> set X. fst ` set xs)"
  by (simp add: merge_keys_def)

lemma merge_keys_sorted: "sorted_wrt (<) (merge_keys X)"
  by (simp add: merge_keys_def strict_sorted_list_of_set)

lemma merge_keys_nth:
  "k \<in> set (merge_keys X) \<longleftrightarrow> (\<exists>i < length X. \<exists>q < length (X ! i). fst (X ! i ! q) = k)"
proof -
  have "k \<in> set (merge_keys X) \<longleftrightarrow> (\<exists>xs \<in> set X. \<exists>e \<in> set xs. fst e = k)" unfolding merge_keys_set by force
  then show ?thesis unfolding Bex_def in_set_conv_nth by blast
qed

text \<open>The record of the next level for \<open>k\<close>, once it has been taken from the heap.\<close>

definition seen :: "entries list \<Rightarrow> nat \<Rightarrow> (nat \<rightharpoonup> blk_record) \<Rightarrow> (nat \<Rightarrow> nat) \<Rightarrow> nat \<Rightarrow> blk_record option" where
  "seen X m Rm p k = (if \<exists>j < m. \<exists>q < p j. fst (X ! j ! q) = k then Rm k else None)"

definition merge_at ::
  "'c lsm_env \<Rightarrow> (kway_merge_node list \<Rightarrow> bool) \<Rightarrow> (nat \<Rightarrow> 'c) \<Rightarrow> (bit_file \<Rightarrow> nat) \<Rightarrow> bit_file list \<Rightarrow> entries list \<Rightarrow> nat \<Rightarrow>
   (nat \<rightharpoonup> blk_record) \<Rightarrow> (nat \<Rightarrow> nat) \<Rightarrow> nat list \<Rightarrow> nat \<Rightarrow> nat list \<Rightarrow> 'c merge_state \<Rightarrow> bool" where
  "merge_at env Hp region0 base bfs X m Rm p ks k rest st \<longleftrightarrow>
     heap_on {..m} X p (mg_heap st) (mg_addr st) \<and> Hp (mg_heap st) \<and>
     iters_on {..m} (le_cipher env) region0 base bfs X p (mg_iters st) \<and>
     merge_keys X = ks @ k # rest \<and> (\<forall>i \<le> m. p i \<le> length (X ! i)) \<and>
     (\<forall>i \<le> m. \<forall>q < length (X ! i). (q < p i \<longrightarrow> fst (X ! i ! q) \<le> k) \<and> (p i \<le> q \<longrightarrow> k \<le> fst (X ! i ! q))) \<and>
     pending m k (group (take (p m) (X ! m)) k) (seen X m Rm p k) st \<and>
     kn_addr (mg_distinct st) \<notin> kn_addr ` set (mg_heap st) \<and> kn_addr (mg_distinct st) < mg_addr st"

section \<open>One step\<close>

text \<open>What popping the root and refilling the heap does, in the words of \<^const>\<open>merge_at\<close>.\<close>

lemma merge_pop:
  assumes src: "merge_sources bfs X m Rm" and at: "merge_at env Hp region0 base bfs X m Rm p ks k rest st"
    and mh: "min_heap_ok (le_heap env) Hp" and ne: "mg_heap st \<noteq> []"
    and reg: "\<forall>i < length X. \<forall>q. base (bfs ! i) \<le> q \<and> q < base (bfs ! i) + BIT_FILE_SIZE \<longrightarrow> f q = region0 q"
  defines "i \<equiv> kn_iter (hd (mg_heap st))"
  obtains hp iters addr where
    "merge_push_next env f i (mh_pop (le_heap env) (mg_heap st), mg_iters st, mg_addr st) = Some (hp, iters, addr)"
    and "heap_on {..m} X (p(i := Suc (p i))) hp addr" and "Hp hp"
    and "iters_on {..m} (le_cipher env) region0 base bfs X (p(i := Suc (p i))) iters"
    and "kn_addr (hd (mg_heap st)) \<notin> kn_addr ` set hp" and "kn_addr (hd (mg_heap st)) < addr"
    and "kn_addr (mg_distinct st) \<notin> kn_addr ` set hp" and "kn_addr (mg_distinct st) < addr"
    and "kn_addr (mg_distinct st) \<noteq> kn_addr (hd (mg_heap st))"
    and "i \<le> m" and "p i < length (X ! i)" and "node_entry (hd (mg_heap st)) = X ! i ! p i"
    and "\<forall>j q. j \<le> m \<and> p j \<le> q \<and> q < length (X ! j) \<longrightarrow> kn_key (hd (mg_heap st)) \<le> fst (X ! j ! q)"
proof -
  let ?h = "mg_heap st" and ?S = "{..m} - {i}" and ?p = "p(i := Suc (p i))"
  have hp: "heap_on {..m} X p ?h (mg_addr st)" and it: "iters_on {..m} (le_cipher env) region0 base bfs X p (mg_iters st)"
    and Hp: "Hp ?h" and d: "kn_addr (mg_distinct st) \<notin> kn_addr ` set ?h" "kn_addr (mg_distinct st) < mg_addr st"
    and ple: "\<forall>i \<le> m. p i \<le> length (X ! i)"
    using at unfolding merge_at_def by blast+
  note P = pop_ok [OF hp it ne mh Hp, folded i_def]
  have lX: "length X = Suc m" using src by (simp add: merge_sources_def)
  have it': "iters_on ?S (le_cipher env) f base bfs X ?p (mg_iters st)"
    by (rule iters_on_cong [OF P(8)]) (use reg in blast)
  have "i < length X" "i \<notin> ?S" "?p i \<le> length (X ! i)" using P(1,2) lX by auto
  from push_next_ok [OF P(6) it' this mh P(7)] obtain hp' iters' addr' where
    n: "merge_push_next env f i (mh_pop (le_heap env) ?h, mg_iters st, mg_addr st) = Some (hp', iters', addr')"
    "Hp hp'" "heap_on (insert i ?S) X ?p hp' addr'" "iters_on (insert i ?S) (le_cipher env) f base bfs X ?p iters'"
    "mg_addr st \<le> addr'" "\<forall>x \<in> set hp'. x \<in> set (mh_pop (le_heap env) ?h) \<or> mg_addr st \<le> kn_addr x" by blast
  have S: "insert i ?S = {..m}" using P(1) by auto
  have it2: "iters_on {..m} (le_cipher env) region0 base bfs X ?p iters'"
    by (rule iters_on_cong [OF n(4) [unfolded S]]) (use reg in metis)
  have sub: "set (mh_pop (le_heap env) ?h) \<subseteq> set ?h"
    using min_heap_pop(2) [OF mh Hp ne] by (metis in_diffD set_mset_mset subsetI)
  have 1: "kn_addr (hd ?h) \<notin> kn_addr ` set hp'"
  proof
    assume "kn_addr (hd ?h) \<in> kn_addr ` set hp'"
    then obtain x where "x \<in> set hp'" "kn_addr x = kn_addr (hd ?h)" by (metis imageE)
    then show False using n(6) P(9,4) by (metis imageI not_le)
  qed
  have 2: "kn_addr (mg_distinct st) \<notin> kn_addr ` set hp'"
  proof
    assume "kn_addr (mg_distinct st) \<in> kn_addr ` set hp'"
    then obtain x where "x \<in> set hp'" "kn_addr x = kn_addr (mg_distinct st)" by (metis imageE)
    then show False using n(6) d sub by (metis imageI not_le subsetD)
  qed
  have 3: "kn_addr (mg_distinct st) \<noteq> kn_addr (hd ?h)" using d(1) ne by (metis hd_in_set imageI)
  have 4: "kn_key (hd ?h) \<le> fst (X ! j ! q)" if "j \<le> m" "p j \<le> q" "q < length (X ! j)" for j q
  proof -
    have "kn_key (hd ?h) \<le> fst (X ! j ! p j)" using P(5) [of j] that by simp
    moreover have "sorted_wrt (\<le>) (map fst (X ! j))" using src that(1) by (simp add: merge_sources_def)
    then have "fst (X ! j ! p j) \<le> fst (X ! j ! q)"
      using that(2,3) by (cases "p j = q") (auto simp: sorted_wrt_iff_nth_less)
    ultimately show ?thesis by simp
  qed
  show thesis
    by (rule that [OF n(1) n(3) [unfolded S] n(2) it2 1 _ 2 _ 3 _ P(2) P(3)]) (use n(5) P(1,4) d(2) 4 in simp_all)
qed

lemma group_snoc:
  assumes "n < length D"
  shows "group (take (Suc n) D) k = group (take n D) k @ (if fst (D ! n) = k then [snd (D ! n)] else [])"
  using assms by (simp add: group_def take_Suc_conv_app_nth)

lemma seen_other: "\<forall>j < m. p' j = p j \<Longrightarrow> seen X m Rm p' k = seen X m Rm p k"
  unfolding seen_def by (rule if_cong) (metis, simp_all)

lemma seen_snoc:
  assumes src: "merge_sources bfs X m Rm" and i: "i < m" "p i < length (X ! i)"
    and le: "\<forall>j < m. p j \<le> length (X ! j)"
  shows "seen X m Rm (p(i := Suc (p i))) (fst (X ! i ! p i)) = Some (snd (X ! i ! p i))"
    and "seen X m Rm p (fst (X ! i ! p i)) = None"
proof -
  let ?e = "X ! i ! p i"
  have "Rm (fst ?e) = Some (snd ?e)" using src i unfolding merge_sources_def by (metis nth_mem)
  moreover have "\<exists>j < m. \<exists>q < (p(i := Suc (p i))) j. fst (X ! j ! q) = fst ?e"
    using i(1) by (intro exI [of _ i] conjI exI [of _ "p i"]) simp_all
  ultimately show "seen X m Rm (p(i := Suc (p i))) (fst ?e) = Some (snd ?e)" by (simp add: seen_def)
  have "j = i \<and> q = p i" if "j < m" "q < p j" "fst (X ! j ! q) = fst ?e" for j q
    using src that i le unfolding merge_sources_def by (metis less_le_trans)
  then have "\<not> (\<exists>j < m. \<exists>q < p j. fst (X ! j ! q) = fst ?e)" by blast
  then show "seen X m Rm p (fst ?e) = None" unfolding seen_def by (rule if_not_P)
qed

lemma pending_upd [simp]:
  "pending m k ds ro (st\<lparr>mg_heap := a, mg_iters := b, mg_addr := c\<rparr>) = pending m k ds ro st"
  by (simp add: pending_def)

lemma same_key_sel [simp]:
  "mg_heap (merge_same_key st x) = mg_heap st" "mg_iters (merge_same_key st x) = mg_iters st"
  "mg_addr (merge_same_key st x) = mg_addr st" "mg_builder (merge_same_key st x) = mg_builder st"
  "mg_level2 (merge_same_key st x) = mg_level2 st" "mg_fd (merge_same_key st x) = mg_fd st"
  "mg_catalogue (merge_same_key st x) = mg_catalogue st" "mg_rit (merge_same_key st x) = mg_rit st"
  "mg_dst (merge_same_key st x) = mg_dst st"
  "mg_distinct (merge_same_key st x) \<in> {mg_distinct st, x}"
  by (auto simp: merge_same_key_def Let_def)


lemma bounds_step:
  fixes X :: "entries list"
  assumes "\<forall>i \<le> m. \<forall>q < length (X ! i). (q < p i \<longrightarrow> fst (X ! i ! q) \<le> k) \<and> (p i \<le> q \<longrightarrow> k \<le> fst (X ! i ! q))"
    and "fst (X ! i ! p i) = k'" and "k \<le> k'" and "\<And>j q. j \<le> m \<Longrightarrow> p j \<le> q \<Longrightarrow> q < length (X ! j) \<Longrightarrow> k' \<le> fst (X ! j ! q)"
  shows "\<forall>j \<le> m. \<forall>q < length (X ! j). (q < (p(i := Suc (p i))) j \<longrightarrow> fst (X ! j ! q) \<le> k') \<and>
    ((p(i := Suc (p i))) j \<le> q \<longrightarrow> k' \<le> fst (X ! j ! q))"
proof (intro allI impI conjI)
  fix j q
  assume j: "j \<le> m" "q < length (X ! j)"
  { assume "q < (p(i := Suc (p i))) j"
    then consider "q < p j" | "j = i" "q = p i" by (auto split: if_splits simp: less_Suc_eq)
    then show "fst (X ! j ! q) \<le> k'"
    proof cases
      case 1
      then have "fst (X ! j ! q) \<le> k" using assms(1) j by blast
      then show ?thesis using assms(3) by simp
    next
      case 2
      then show ?thesis using assms(2) by simp
    qed }
  { assume "(p(i := Suc (p i))) j \<le> q"
    then have "p j \<le> q" by (auto split: if_splits)
    then show "k' \<le> fst (X ! j ! q)" using assms(4) j by blast }
qed

lemma step_same:
  assumes src: "merge_sources bfs X m Rm" and at: "merge_at env Hp region0 base bfs X m Rm p ks k rest st"
    and mh: "min_heap_ok (le_heap env) Hp" and ne: "mg_heap st \<noteq> []"
    and reg: "\<forall>i < length X. \<forall>q. base (bfs ! i) \<le> q \<and> q < base (bfs ! i) + BIT_FILE_SIZE \<longrightarrow> f q = region0 q"
    and key: "kn_key (hd (mg_heap st)) = k"
  defines "i \<equiv> kn_iter (hd (mg_heap st))"
  shows "\<exists>hp iters addr.
    merge_push_next env f i (mh_pop (le_heap env) (mg_heap st), mg_iters st, mg_addr st) = Some (hp, iters, addr) \<and>
    i \<le> m \<and> p i < length (X ! i) \<and>
    merge_at env Hp region0 base bfs X m Rm (p(i := Suc (p i))) ks k rest
      (merge_same_key (st\<lparr>mg_heap := hp, mg_iters := iters, mg_addr := addr\<rparr>) (hd (mg_heap st)))"
proof -
  obtain hp iters addr where r: "merge_push_next env f i (mh_pop (le_heap env) (mg_heap st), mg_iters st, mg_addr st) = Some (hp, iters, addr)"
      "heap_on {..m} X (p(i := Suc (p i))) hp addr" "Hp hp"
      "iters_on {..m} (le_cipher env) region0 base bfs X (p(i := Suc (p i))) iters"
      "kn_addr (hd (mg_heap st)) \<notin> kn_addr ` set hp" "kn_addr (hd (mg_heap st)) < addr"
      "kn_addr (mg_distinct st) \<notin> kn_addr ` set hp" "kn_addr (mg_distinct st) < addr"
      "kn_addr (mg_distinct st) \<noteq> kn_addr (hd (mg_heap st))"
    and i: "i \<le> m" "p i < length (X ! i)" "node_entry (hd (mg_heap st)) = X ! i ! p i"
    and "\<forall>j q. j \<le> m \<and> p j \<le> q \<and> q < length (X ! j) \<longrightarrow> kn_key (hd (mg_heap st)) \<le> fst (X ! j ! q)"
    by (rule merge_pop [OF src at mh ne reg, folded i_def])
  then have least: "kn_key (hd (mg_heap st)) \<le> fst (X ! j ! q)" if "j \<le> m" "p j \<le> q" "q < length (X ! j)" for j q
    using that by blast
  let ?p = "p(i := Suc (p i))" and ?st = "st\<lparr>mg_heap := hp, mg_iters := iters, mg_addr := addr\<rparr>" and ?x = "hd (mg_heap st)"
  have e: "fst (X ! i ! p i) = k" "node_entry ?x = (k, snd (X ! i ! p i))"
    using i(3) key by (metis fst_conv node_entry_def, metis fst_conv node_entry_def surjective_pairing)
  have pend: "pending m k (group (take (p m) (X ! m)) k) (seen X m Rm p k) ?st"
    and ple: "\<forall>i \<le> m. p i \<le> length (X ! i)"
    and bnd: "\<forall>i \<le> m. \<forall>q < length (X ! i). (q < p i \<longrightarrow> fst (X ! i ! q) \<le> k) \<and> (p i \<le> q \<longrightarrow> k \<le> fst (X ! i ! q))"
    using at by (simp_all add: merge_at_def)
  have so: "sources_ok m bfs" and lX: "length X = Suc m" using src by (simp_all add: merge_sources_def)
  have fo: "files_of m bfs ?st" using iters_on_file [OF r(4)] lX by (simp add: files_of_def)
  have "pending m k (group (take (?p m) (X ! m)) k) (seen X m Rm ?p k) (merge_same_key ?st ?x)"
  proof (cases "i = m")
    case True
    have g: "group (take (?p m) (X ! m)) k = group (take (p m) (X ! m)) k @ [snd (X ! m ! p m)]"
      using group_snoc [of "p m" "X ! m" k] i(2) e(1) True by simp
    have s: "seen X m Rm ?p k = seen X m Rm p k" using True by (intro seen_other) simp
    show ?thesis unfolding g s
      by (rule same_key_demoted [OF pend so fo]) (use True e(2) r(9) i_def in auto)
  next
    case False
    then have im: "i < m" using i(1) by simp
    have s: "seen X m Rm p k = None" "seen X m Rm ?p k = Some (snd (X ! i ! p i))"
      using seen_snoc [where p = p, OF src im i(2)] ple e(1) by auto
    have g: "group (take (?p m) (X ! m)) k = group (take (p m) (X ! m)) k" using False by simp
    show ?thesis unfolding g s(2)
      by (rule same_key_relative [OF pend [unfolded s(1)] so fo]) (use im e(2) i_def in auto)
  qed
  moreover have "\<forall>j \<le> m. ?p j \<le> length (X ! j)" using ple i(2) by simp
  moreover have "kn_addr (mg_distinct (merge_same_key ?st ?x)) \<notin> kn_addr ` set hp"
    "kn_addr (mg_distinct (merge_same_key ?st ?x)) < addr"
    using same_key_sel(10) [of ?st ?x] r(5-8) by auto
  ultimately have "merge_at env Hp region0 base bfs X m Rm ?p ks k rest (merge_same_key ?st ?x)"
    using at r(2-4) bounds_step [OF bnd e(1) order_refl least [unfolded key]] unfolding merge_at_def by simp
  then show ?thesis using r(1) i(1,2) by blast
qed

text \<open>When a greater key comes up, the pending group is complete.\<close>

lemma group_done:
  assumes src: "merge_sources bfs X m Rm" and at: "merge_at env Hp region0 base bfs X m Rm p ks k rest st"
    and above: "\<And>j q. j \<le> m \<Longrightarrow> p j \<le> q \<Longrightarrow> q < length (X ! j) \<Longrightarrow> k < fst (X ! j ! q)"
  shows "group (take (p m) (X ! m)) k = group (X ! m) k" and "seen X m Rm p k = Rm k"
proof -
  have "fst e \<noteq> k" if "e \<in> set (drop (p m) (X ! m))" for e
  proof -
    from that [unfolded in_set_conv_nth] obtain q where "q < length (drop (p m) (X ! m))" "drop (p m) (X ! m) ! q = e"
      by blast
    then have "p m + q < length (X ! m)" "e = X ! m ! (p m + q)" by auto
    then have "k < fst e" using above [of m "p m + q"] by simp
    then show ?thesis by simp
  qed
  then have "filter (\<lambda>e. fst e = k) (drop (p m) (X ! m)) = []" by (simp add: filter_empty_conv)
  then show "group (take (p m) (X ! m)) k = group (X ! m) k"
    unfolding group_def by (metis append_take_drop_id filter_append append_Nil2)
  show "seen X m Rm p k = Rm k"
  proof (cases "Rm k")
    case (Some r)
    then obtain j where j: "j < m" "(k, r) \<in> set (X ! j)" using src unfolding merge_sources_def by blast
    then obtain q where q: "q < length (X ! j)" "X ! j ! q = (k, r)" by (auto simp: in_set_conv_nth)
    then have "q < p j" using above [of j q] j(1) by (metis fst_conv less_imp_le less_irrefl not_le)
    then have "\<exists>j < m. \<exists>q < p j. fst (X ! j ! q) = k" using j(1) q(2) by (metis fst_conv)
    then show ?thesis by (simp add: seen_def)
  qed (simp add: seen_def)
qed

lemma step_new:
  assumes src: "merge_sources bfs X m Rm" and at: "merge_at env Hp region0 base bfs X m Rm p ks k rest st"
    and mh: "min_heap_ok (le_heap env) Hp" and ne: "mg_heap st \<noteq> []"
    and reg: "\<forall>i < length X. \<forall>q. base (bfs ! i) \<le> q \<and> q < base (bfs ! i) + BIT_FILE_SIZE \<longrightarrow> f q = region0 q"
    and key: "kn_key (hd (mg_heap st)) \<noteq> k"
  defines "i \<equiv> kn_iter (hd (mg_heap st))"
  shows "\<exists>hp iters addr rest'.
    merge_push_next env f i (mh_pop (le_heap env) (mg_heap st), mg_iters st, mg_addr st) = Some (hp, iters, addr) \<and>
    i \<le> m \<and> p i < length (X ! i) \<and> rest = kn_key (hd (mg_heap st)) # rest' \<and>
    group (take (p m) (X ! m)) k = group (X ! m) k \<and> seen X m Rm p k = Rm k \<and>
    (\<forall>st'. mg_heap st' = hp \<and> mg_iters st' = iters \<and> mg_addr st' = addr \<and> mg_distinct st' = hd (mg_heap st) \<and>
       mg_new st' = None \<and> mg_old st' = None \<longrightarrow>
       merge_at env Hp region0 base bfs X m Rm (p(i := Suc (p i))) (ks @ [k]) (kn_key (hd (mg_heap st))) rest' st')"
proof -
  let ?x = "hd (mg_heap st)"
  obtain hp iters addr where r: "merge_push_next env f i (mh_pop (le_heap env) (mg_heap st), mg_iters st, mg_addr st) = Some (hp, iters, addr)"
      "heap_on {..m} X (p(i := Suc (p i))) hp addr" "Hp hp"
      "iters_on {..m} (le_cipher env) region0 base bfs X (p(i := Suc (p i))) iters"
      "kn_addr ?x \<notin> kn_addr ` set hp" "kn_addr ?x < addr"
      "kn_addr (mg_distinct st) \<notin> kn_addr ` set hp" "kn_addr (mg_distinct st) < addr"
      "kn_addr (mg_distinct st) \<noteq> kn_addr ?x"
    and i: "i \<le> m" "p i < length (X ! i)" "node_entry ?x = X ! i ! p i"
    and "\<forall>j q. j \<le> m \<and> p j \<le> q \<and> q < length (X ! j) \<longrightarrow> kn_key ?x \<le> fst (X ! j ! q)"
    by (rule merge_pop [OF src at mh ne reg, folded i_def])
  then have least: "kn_key (hd (mg_heap st)) \<le> fst (X ! j ! q)" if "j \<le> m" "p j \<le> q" "q < length (X ! j)" for j q
    using that by blast
  let ?p = "p(i := Suc (p i))" and ?k = "kn_key ?x"
  have e: "fst (X ! i ! p i) = ?k" "node_entry ?x = (?k, snd (X ! i ! p i))"
    using i(3) by (metis fst_conv node_entry_def, metis fst_conv node_entry_def surjective_pairing)
  have ple: "\<forall>i \<le> m. p i \<le> length (X ! i)" and K: "merge_keys X = ks @ k # rest"
    and bnd: "\<forall>i \<le> m. \<forall>q < length (X ! i). (q < p i \<longrightarrow> fst (X ! i ! q) \<le> k) \<and> (p i \<le> q \<longrightarrow> k \<le> fst (X ! i ! q))"
    using at by (simp_all add: merge_at_def)
  have lX: "length X = Suc m" using src by (simp add: merge_sources_def)
  have lt: "k < ?k" using bnd i(1,2) e(1) key by (metis le_neq_implies_less order_refl)
  have full: "group (take (p m) (X ! m)) k = group (X ! m) k" "seen X m Rm p k = Rm k"
    by (rule group_done [OF src at]; use least lt in \<open>meson less_le_trans\<close>)+
  have "?k \<in> set (merge_keys X)" unfolding merge_keys_nth using i(1,2) e(1) lX by (intro exI [of _ i]) auto
  then have kr: "?k \<in> set rest"
    using merge_keys_sorted [of X] lt unfolding K by (auto simp: sorted_wrt_append)
  then obtain k1 rest' where rest: "rest = k1 # rest'" by (cases rest) auto
  have "k1 \<le> ?k" using kr merge_keys_sorted [of X] unfolding K rest by (auto simp: sorted_wrt_append)
  moreover have "?k \<le> k1"
  proof -
    have "k1 \<in> set (merge_keys X)" unfolding K rest by simp
    then obtain j q where j: "j < length X" "q < length (X ! j)" "fst (X ! j ! q) = k1" unfolding merge_keys_nth by blast
    have "k < k1" using merge_keys_sorted [of X] unfolding K rest by (simp add: sorted_wrt_append)
    then have "p j \<le> q" using bnd j lX by (metis less_Suc_eq_le not_le)
    then show ?thesis using least [of j q] j lX by simp
  qed
  ultimately have k1: "k1 = ?k" by simp
  have none: "fst e \<noteq> ?k" if e: "e \<in> set (take (p m) (X ! m))" for e
  proof -
    obtain q where "q < p m" "q < length (X ! m)" "e = X ! m ! q" using e by (auto simp: in_set_conv_nth)
    then show ?thesis using bnd lt by (metis le_refl not_le)
  qed
  then have g0: "group (take (p m) (X ! m)) ?k = []" by (simp add: group_def filter_empty_conv)
  have s0: "seen X m Rm p ?k = None"
  proof -
    have "\<not> (\<exists>j < m. \<exists>q < p j. fst (X ! j ! q) = ?k)"
      using bnd lt ple by (metis less_imp_le_nat less_le_trans not_le)
    then show ?thesis unfolding seen_def by (rule if_not_P)
  qed
  have "merge_at env Hp region0 base bfs X m Rm ?p (ks @ [k]) ?k rest' st'"
    if st': "mg_heap st' = hp" "mg_iters st' = iters" "mg_addr st' = addr" "mg_distinct st' = ?x"
      "mg_new st' = None" "mg_old st' = None" for st'
  proof -
    have "pending m ?k (group (take (?p m) (X ! m)) ?k) (seen X m Rm ?p ?k) st'"
    proof (cases "i = m")
      case True
      have "group (take (?p m) (X ! m)) ?k = [snd (X ! i ! p i)]"
        using group_snoc [of "p m" "X ! m" ?k] i(2) e(1) True g0 by simp
      moreover have "seen X m Rm ?p ?k = None" using s0 seen_other [of m ?p p X Rm ?k] True by simp
      ultimately show ?thesis using pending_start(1) [OF e(2) st'(5,6,4)] True i_def by simp
    next
      case False
      then have im: "i < m" using i(1) by simp
      have "seen X m Rm ?p ?k = Some (snd (X ! i ! p i))" using seen_snoc(1) [where p = p, OF src im i(2)] ple e(1) by simp
      moreover have "group (take (?p m) (X ! m)) ?k = []" using g0 False by simp
      ultimately show ?thesis using pending_start(2) [OF e(2) st'(5,6,4)] im i_def by simp
    qed
    moreover have "\<forall>j \<le> m. ?p j \<le> length (X ! j)" using ple i(2) by simp
    ultimately show ?thesis
      using r(2-6) K rest k1 bounds_step [OF bnd e(1) less_imp_le [OF lt] least] st' unfolding merge_at_def by simp
  qed
  then show ?thesis using r(1) i(1,2) full rest k1 by blast
qed

end
