(* ===== verification/Merge_Run.thy ===== *)
theory Merge_Run
  imports Merge_Loop
begin

text \<open>
  The whole merge: the loop over the heap together with what it writes and gives up.
\<close>

section \<open>Emitting a group\<close>

lemma out_ok_cong:
  assumes "mg_catalogue st' = mg_catalogue st" "mg_fd st' = mg_fd st" "mg_builder st' = mg_builder st" "mg_level2 st' = mg_level2 st"
  shows "out_ok env region0 cat0 lvl0 news chunks tail st' = out_ok env region0 cat0 lvl0 news chunks tail st"
  by (simp add: out_ok_def assms)

lemma emit_ok:
  assumes pend: "pending m k (group D k) (Rm k) st" and out: "out_ok env region0 cat0 lvl0 news chunks tail st"
    and len: "length tail < DEFAULT_LSM_FILE_CAPACITY" and nc: "node_cipher_ok (le_cipher env)"
    and give: "give_up_all (mg_rit st, mg_dst st) (released D Rm [k]) = Some r"
  shows "\<exists>b. merge_emit env st =
      Some (st\<lparr>mg_builder := b, mg_rit := fst r, mg_dst := snd r, mg_new := None, mg_old := None\<rparr>) \<and>
    out_ok env region0 cat0 lvl0 news chunks (tail @ merged D Rm [k])
      (st\<lparr>mg_builder := b, mg_rit := fst r, mg_dst := snd r, mg_new := None, mg_old := None\<rparr>)"
proof -
  let ?keep = "merge_keep (group D k) (Rm k)" and ?drop = "merge_drop (group D k) (Rm k)"
  obtain b where b: "(case ?keep of None \<Rightarrow> Some (mg_builder st)
       | Some v \<Rightarrow> bit_builder_add_entry (le_cipher env) (mg_builder st) (k, v)) = Some b"
    "out_ok env region0 cat0 lvl0 news chunks (tail @ merged D Rm [k]) (st\<lparr>mg_builder := b\<rparr>)"
  proof (cases ?keep)
    case None
    then show ?thesis using that [of "mg_builder st"] out by (simp add: merged_one)
  next
    case (Some v)
    then show ?thesis using that out_add [OF out nc len, of "(k, v)"] by (auto simp: merged_one)
  qed
  have "(case ?drop of None \<Rightarrow> Some (mg_rit st, mg_dst st) | Some x \<Rightarrow> give_up_block (mg_rit st) (mg_dst st) k x) = Some r"
    using give by (cases ?drop) (auto simp: released_one split: option.splits)
  then have "merge_emit env st =
      Some (st\<lparr>mg_builder := b, mg_rit := fst r, mg_dst := snd r, mg_new := None, mg_old := None\<rparr>)"
    unfolding emit_pending [OF pend] b(1) by (cases r) simp
  moreover have "out_ok env region0 cat0 lvl0 news chunks (tail @ merged D Rm [k])
      (st\<lparr>mg_builder := b, mg_rit := fst r, mg_dst := snd r, mg_new := None, mg_old := None\<rparr>)"
    using b(2) by (subst out_ok_cong [where st = "st\<lparr>mg_builder := b\<rparr>"]) simp_all
  ultimately show ?thesis by blast
qed

section \<open>The loop\<close>

abbreviation source_base :: "bit_catalogue \<Rightarrow> bit_file \<Rightarrow> nat" where
  "source_base cat b \<equiv> slot_pos cat (bf_id b)"

text \<open>
  What the merge relies on: the sources are stored in used slots, \<open>N\<close> files are enough for the result,
  there are as many free slots and as much room in the level, the last key is one that is written, and
  the blocks of replaced records can be given up.
\<close>

definition merge_plan ::
  "'c lsm_env \<Rightarrow> (kway_merge_node list \<Rightarrow> bool) \<Rightarrow> bit_catalogue \<Rightarrow> bit_level \<Rightarrow> bit_file list \<Rightarrow> entries list \<Rightarrow> nat \<Rightarrow>
   (nat \<rightharpoonup> blk_record) \<Rightarrow> nat \<Rightarrow> rit \<times> dst \<Rightarrow> bool" where
  "merge_plan env Hp cat0 lvl0 bfs X m Rm N r0 \<longleftrightarrow>
     merge_sources bfs X m Rm \<and> min_heap_ok (le_heap env) Hp \<and> node_cipher_ok (le_cipher env) \<and>
     bc_file_size cat0 = BIT_FILE_SIZE \<and> (\<forall>b \<in> set bfs. slot_used cat0 (bf_id b)) \<and>
     length (merged (X ! m) Rm (merge_keys X)) \<le> N * DEFAULT_LSM_FILE_CAPACITY \<and>
     N \<le> card {fd. fd < nr_slots cat0 \<and> \<not> slot_used cat0 fd} \<and>
     length (bl_files lvl0) + N \<le> bl_max_size lvl0 \<and>
     merge_keep (group (X ! m) (last (merge_keys X))) (Rm (last (merge_keys X))) \<noteq> None \<and>
     give_up_all r0 (released (X ! m) Rm (merge_keys X)) \<noteq> None"

definition written_so_far ::
  "'c lsm_env \<Rightarrow> (nat \<Rightarrow> 'c) \<Rightarrow> bit_catalogue \<Rightarrow> bit_level \<Rightarrow> entries \<Rightarrow> (nat \<rightharpoonup> blk_record) \<Rightarrow> rit \<times> dst \<Rightarrow> nat list \<Rightarrow>
   bit_file list \<Rightarrow> entries list \<Rightarrow> entries \<Rightarrow> 'c merge_state \<Rightarrow> bool" where
  "written_so_far env region0 cat0 lvl0 D Rm r0 ks news chunks tail st \<longleftrightarrow>
     out_ok env region0 cat0 lvl0 news chunks tail st \<and> concat chunks @ tail = merged D Rm ks \<and>
     (\<forall>c \<in> set chunks. length c = DEFAULT_LSM_FILE_CAPACITY) \<and> length tail < DEFAULT_LSM_FILE_CAPACITY \<and>
     give_up_all r0 (released D Rm ks) = Some (mg_rit st, mg_dst st)"

lemma source_region:
  assumes plan: "merge_plan env Hp cat0 lvl0 bfs X m Rm N r0" and out: "out_ok env region0 cat0 lvl0 news chunks tail st"
  shows "\<forall>i < length X. \<forall>q. source_base cat0 (bfs ! i) \<le> q \<and> q < source_base cat0 (bfs ! i) + BIT_FILE_SIZE \<longrightarrow>
    bb_file (mg_builder st) q = region0 q"
proof (intro allI impI, elim conjE)
  fix i q
  assume i: "i < length X" "source_base cat0 (bfs ! i) \<le> q" "q < source_base cat0 (bfs ! i) + BIT_FILE_SIZE"
  have sz: "bc_file_size cat0 = BIT_FILE_SIZE" and used: "slot_used cat0 (bf_id (bfs ! i))"
    using plan i(1) by (auto simp: merge_plan_def merge_sources_def)
  have q: "q \<in> slot_range cat0 (bf_id (bfs ! i))" using slot_pos_range [OF sz] i(2,3) by blast
  have "q \<notin> slot_range cat0 fd" if "fd \<in> insert (mg_fd st) (bf_id ` set news)" for fd
  proof -
    have "\<not> slot_used cat0 fd" using that out by (auto simp: out_ok_def files_written_def)
    then have "fd \<noteq> bf_id (bfs ! i)" using used by auto
    then show ?thesis using slots_disjoint [of fd "bf_id (bfs ! i)" cat0] q by blast
  qed
  then show "bb_file (mg_builder st) q = region0 q" using out_region [OF out sz] unfolding region_kept_def by blast
qed

lemma merged_length_prefix:
  assumes "concat chunks @ tail = merged D Rm ks" and "\<forall>c \<in> set chunks. length c = n"
    and "merge_keep (group D (last (k # rest))) (Rm (last (k # rest))) \<noteq> None"
  shows "length chunks * n + length tail < length (merged D Rm (ks @ k # rest))"
proof -
  have "length (concat chunks) = length chunks * n" using assms(2) by (induction chunks) simp_all
  then have "length chunks * n + length tail = length (merged D Rm ks)"
    using arg_cong [OF assms(1), of length] by simp
  moreover have "merged D Rm (k # rest) \<noteq> []"
  proof -
    obtain v where v: "merge_keep (group D (last (k # rest))) (Rm (last (k # rest))) = Some v" using assms(3) by blast
    have "k # rest = butlast (k # rest) @ [last (k # rest)]" by simp
    then have "merged D Rm (k # rest) = merged D Rm (butlast (k # rest)) @ merged D Rm [last (k # rest)]"
      by (metis merged_append)
    then show ?thesis using v by (simp add: merged_one)
  qed
  ultimately show ?thesis unfolding merged_append by (simp add: length_greater_0_conv)
qed

lemma sorted_part: "sorted_wrt (<) (map fst (xs @ ys)) \<Longrightarrow> sorted_wrt (\<le>) (map fst (ys :: (nat \<times> 'a) list))"
  by (auto simp: sorted_wrt_append intro: sorted_wrt_mono_rel [of _ "(<)" "(\<le>)"])

text \<open>After a group has been emitted, a full builder is exchanged.\<close>

lemma roll_ok:
  assumes plan: "merge_plan env Hp cat0 lvl0 bfs X m Rm N r0" and K: "merge_keys X = ks @ k # rest"
    and out: "out_ok env region0 cat0 lvl0 news chunks tail st"
    and cont: "concat chunks @ tail = merged (X ! m) Rm ks" "\<forall>c \<in> set chunks. length c = DEFAULT_LSM_FILE_CAPACITY"
    and give: "give_up_all r0 (released (X ! m) Rm ks) = Some (mg_rit st, mg_dst st)"
  defines "st' \<equiv> if bb_size (mg_builder st) \<ge> DEFAULT_LSM_FILE_CAPACITY then merge_next_file env st else st"
  shows "\<exists>news' chunks' tail'. written_so_far env region0 cat0 lvl0 (X ! m) Rm r0 ks news' chunks' tail' st' \<and>
    mg_heap st' = mg_heap st \<and> mg_iters st' = mg_iters st \<and> mg_addr st' = mg_addr st \<and> mg_distinct st' = mg_distinct st \<and>
    mg_new st' = mg_new st \<and> mg_old st' = mg_old st"
proof (cases "length tail < DEFAULT_LSM_FILE_CAPACITY")
  case True
  then have "st' = st" using out_size [OF out] by (simp add: st'_def)
  then show ?thesis using out cont give True unfolding written_so_far_def by blast
next
  case False
  let ?D = "X ! m" and ?C = DEFAULT_LSM_FILE_CAPACITY
  have len: "length tail = ?C" using out False by (simp add: out_ok_def)
  have sz: "bc_file_size cat0 = BIT_FILE_SIZE" and nc: "node_cipher_ok (le_cipher env)"
    and N: "length (merged ?D Rm (merge_keys X)) \<le> N * ?C" "N \<le> card {fd. fd < nr_slots cat0 \<and> \<not> slot_used cat0 fd}"
      "length (bl_files lvl0) + N \<le> bl_max_size lvl0"
    and last: "merge_keep (group ?D (last (merge_keys X))) (Rm (last (merge_keys X))) \<noteq> None"
    using plan by (simp_all add: merge_plan_def)
  have lc: "length chunks = length news"
    using out unfolding out_ok_def files_written_def by (auto dest: list_all2_lengthD)
  have "length chunks * ?C + length tail < length (merged ?D Rm (merge_keys X))"
    unfolding K by (rule merged_length_prefix [OF cont]) (use last K in simp)
  then have "(length news + 1) * ?C < N * ?C" using N(1) len lc by simp
  then have few: "length news + 1 < N" using mult_less_cancel2 by blast
  have tail: "tail \<noteq> []" "sorted_wrt (\<le>) (map fst tail)"
  proof -
    show "tail \<noteq> []" using len by (auto simp: layout_consts)
    have "sorted_wrt (<) ks" using merge_keys_sorted [of X] unfolding K by (simp add: sorted_wrt_append)
    then show "sorted_wrt (\<le>) (map fst tail)" using merged_sorted [of ks ?D Rm] sorted_part unfolding cont(1) [symmetric] by blast
  qed
  let ?F = "{fd. fd < nr_slots cat0 \<and> \<not> slot_used cat0 fd}" and ?T = "insert (mg_fd st) (bf_id ` set news)"
  have "card ?T \<le> length news + 1"
    using card_insert_le_m1 [of "length news + 1" "bf_id ` set news" "mg_fd st"] card_image_le [of "set news" bf_id] card_length [of news] by simp
  then have "card ?T < card ?F" using few N(2) by simp
  then have "\<not> ?F \<subseteq> ?T" using card_mono [of ?T ?F] by fastforce
  then obtain fd' where fd': "fd' < nr_slots cat0" "\<not> slot_used cat0 fd'" "fd' \<notin> ?T" by blast
  have room: "length (bl_files lvl0) + length news < bl_max_size lvl0" using few N(3) by simp
  obtain bf cat lvl fd b where n: "merge_next_file env st =
      st\<lparr>mg_catalogue := cat, mg_level2 := lvl, mg_fd := fd, mg_builder := b\<rparr>"
    "out_ok env region0 cat0 lvl0 (news @ [bf]) (chunks @ [tail]) []
      (st\<lparr>mg_catalogue := cat, mg_level2 := lvl, mg_fd := fd, mg_builder := b\<rparr>)"
    using out_next [OF out nc tail sz room fd'] by blast
  have st': "st' = st\<lparr>mg_catalogue := cat, mg_level2 := lvl, mg_fd := fd, mg_builder := b\<rparr>"
    using n(1) len out_size [OF out] by (simp add: st'_def)
  have "written_so_far env region0 cat0 lvl0 ?D Rm r0 ks (news @ [bf]) (chunks @ [tail]) [] st'"
    using n(2) cont give len unfolding written_so_far_def st' by (auto simp: layout_consts)
  then show ?thesis unfolding st' by auto
qed


lemma loop_end:
  assumes src: "merge_sources bfs X m Rm" and at: "merge_at env Hp region0 base bfs X m Rm p ks k rest st"
    and empty: "mg_heap st = []"
  shows "rest = []" and "pending m k (group (X ! m) k) (Rm k) st"
proof -
  have hp: "heap_on {..m} X p [] (mg_addr st)" and K: "merge_keys X = ks @ k # rest"
    and bnd: "\<forall>i \<le> m. \<forall>q < length (X ! i). (q < p i \<longrightarrow> fst (X ! i ! q) \<le> k) \<and> (p i \<le> q \<longrightarrow> k \<le> fst (X ! i ! q))"
    and pend: "pending m k (group (take (p m) (X ! m)) k) (seen X m Rm p k) st"
    using at empty by (simp_all add: merge_at_def)
  have all: "\<not> p i < length (X ! i)" if "i \<le> m" for i
    using hp that by (auto simp: heap_on_def)
  have lX: "length X = Suc m" using src by (simp add: merge_sources_def)
  show "rest = []"
  proof (rule ccontr)
    assume "rest \<noteq> []"
    then obtain k1 rest' where r: "rest = k1 # rest'" by (cases rest) auto
    then have "k1 \<in> set (merge_keys X)" using K by simp
    then obtain j q where j: "j < length X" "q < length (X ! j)" "fst (X ! j ! q) = k1" unfolding merge_keys_nth by blast
    then have "q < p j" using all [of j] lX by simp
    then have "k1 \<le> k" using bnd j lX by auto
    moreover have "k < k1" using merge_keys_sorted [of X] unfolding K r by (simp add: sorted_wrt_append)
    ultimately show False by simp
  qed
  have "group (take (p m) (X ! m)) k = group (X ! m) k" "seen X m Rm p k = Rm k"
    by (rule group_done [OF src at]; use all in \<open>meson le_less_trans\<close>)+
  then show "pending m k (group (X ! m) k) (Rm k) st" using pend by simp
qed

lemma give_up_prefix:
  assumes "give_up_all r0 (released D Rm (ks @ k # rest)) \<noteq> None" and "give_up_all r0 (released D Rm ks) = Some r"
  shows "\<exists>r'. give_up_all r (released D Rm [k]) = Some r' \<and> give_up_all r0 (released D Rm (ks @ [k])) = Some r'"
proof -
  have e: "released D Rm (ks @ k # rest) = released D Rm ks @ released D Rm [k] @ released D Rm rest"
    by (simp add: released_def)
  obtain r' where "give_up_all r (released D Rm [k]) = Some r'"
    using assms unfolding e give_up_all_append by (cases "give_up_all r (released D Rm [k])") auto
  then show ?thesis using assms(2) unfolding released_append give_up_all_append by simp
qed

lemma merge_loop_ok:
  assumes plan: "merge_plan env Hp cat0 lvl0 bfs X m Rm N r0"
  shows "merge_at env Hp region0 (source_base cat0) bfs X m Rm p ks k rest st \<Longrightarrow>
    written_so_far env region0 cat0 lvl0 (X ! m) Rm r0 ks news chunks tail st \<Longrightarrow>
    \<exists>st' ks' k' news' chunks' tail'. merge_loop env st = Some st' \<and> merge_keys X = ks' @ [k'] \<and>
      pending m k' (group (X ! m) k') (Rm k') st' \<and>
      written_so_far env region0 cat0 lvl0 (X ! m) Rm r0 ks' news' chunks' tail' st'"
proof (induction "\<Sum>i \<le> m. length (X ! i) - p i" arbitrary: p ks k rest st news chunks tail rule: less_induct)
  case less
  note at = less.prems(1) and w = less.prems(2)
  have src: "merge_sources bfs X m Rm" and mh: "min_heap_ok (le_heap env) Hp" and nc: "node_cipher_ok (le_cipher env)"
    and give: "give_up_all r0 (released (X ! m) Rm (merge_keys X)) \<noteq> None"
    using plan by (simp_all add: merge_plan_def)
  have out: "out_ok env region0 cat0 lvl0 news chunks tail st" and cont: "concat chunks @ tail = merged (X ! m) Rm ks"
    "\<forall>c \<in> set chunks. length c = DEFAULT_LSM_FILE_CAPACITY" and len: "length tail < DEFAULT_LSM_FILE_CAPACITY"
    and gu: "give_up_all r0 (released (X ! m) Rm ks) = Some (mg_rit st, mg_dst st)"
    using w by (simp_all add: written_so_far_def)
  have K: "merge_keys X = ks @ k # rest" using at by (simp add: merge_at_def)
  note reg = source_region [OF plan out]
  have dec: "(\<Sum>i \<le> m. length (X ! i) - (p(j := Suc (p j))) i) < (\<Sum>i \<le> m. length (X ! i) - p i)"
    if "j \<le> m" "p j < length (X ! j)" for j
    by (rule sum_strict_mono_ex1) (use that in \<open>auto intro!: bexI [of _ j]\<close>)
  show ?case
  proof (cases "mg_heap st = []")
    case True
    then have "merge_loop env st = Some st" by (simp add: merge_loop.simps)
    moreover have "rest = []" "pending m k (group (X ! m) k) (Rm k) st" by (rule loop_end [OF src at True])+
    ultimately show ?thesis using K w by blast
  next
    case ne: False
    let ?x = "hd (mg_heap st)"
    let ?i = "kn_iter ?x"
    show ?thesis
    proof (cases "kn_key ?x = k")
      case True
      obtain hp iters addr where s: "merge_push_next env (bb_file (mg_builder st)) ?i
          (mh_pop (le_heap env) (mg_heap st), mg_iters st, mg_addr st) = Some (hp, iters, addr)"
        and i: "?i \<le> m" "p ?i < length (X ! ?i)"
        and at': "merge_at env Hp region0 (source_base cat0) bfs X m Rm (p(?i := Suc (p ?i))) ks k rest
          (merge_same_key (st\<lparr>mg_heap := hp, mg_iters := iters, mg_addr := addr\<rparr>) ?x)"
        using step_same [OF src at mh ne reg True] by blast
      let ?st = "merge_same_key (st\<lparr>mg_heap := hp, mg_iters := iters, mg_addr := addr\<rparr>) ?x"
      have "out_ok env region0 cat0 lvl0 news chunks tail ?st" using out by (subst out_ok_cong [where st = st]) simp_all
      then have w': "written_so_far env region0 cat0 lvl0 (X ! m) Rm r0 ks news chunks tail ?st"
        using w by (simp add: written_so_far_def)
      have "kn_key (mg_distinct st) = k" using at by (simp add: merge_at_def pending_def)
      then have "merge_loop env st = merge_loop env ?st"
        using ne s True by (subst merge_loop.simps) (simp add: Let_def)
      then show ?thesis using less.hyps [OF dec [OF i] at' w'] by simp
    next
      case False
      obtain hp iters addr rest' where s: "merge_push_next env (bb_file (mg_builder st)) ?i
          (mh_pop (le_heap env) (mg_heap st), mg_iters st, mg_addr st) = Some (hp, iters, addr)"
        and i: "?i \<le> m" "p ?i < length (X ! ?i)" and rest: "rest = kn_key ?x # rest'"
        and full: "group (take (p m) (X ! m)) k = group (X ! m) k" "seen X m Rm p k = Rm k"
        and at': "\<forall>st'. mg_heap st' = hp \<and> mg_iters st' = iters \<and> mg_addr st' = addr \<and> mg_distinct st' = ?x \<and>
           mg_new st' = None \<and> mg_old st' = None \<longrightarrow>
           merge_at env Hp region0 (source_base cat0) bfs X m Rm (p(?i := Suc (p ?i))) (ks @ [k]) (kn_key ?x) rest' st'"
        using step_new [OF src at mh ne reg False] by blast
      let ?st1 = "st\<lparr>mg_heap := hp, mg_iters := iters, mg_addr := addr\<rparr>"
      have pend: "pending m k (group (X ! m) k) (Rm k) ?st1" using at full by (simp add: merge_at_def)
      have out1: "out_ok env region0 cat0 lvl0 news chunks tail ?st1" using out by (subst out_ok_cong [where st = st]) simp_all
      obtain r where r: "give_up_all (mg_rit ?st1, mg_dst ?st1) (released (X ! m) Rm [k]) = Some r"
        "give_up_all r0 (released (X ! m) Rm (ks @ [k])) = Some r"
        using give_up_prefix [OF give [unfolded K] gu] by auto
      obtain b where b: "merge_emit env ?st1 =
          Some (?st1\<lparr>mg_builder := b, mg_rit := fst r, mg_dst := snd r, mg_new := None, mg_old := None\<rparr>)"
        "out_ok env region0 cat0 lvl0 news chunks (tail @ merged (X ! m) Rm [k])
          (?st1\<lparr>mg_builder := b, mg_rit := fst r, mg_dst := snd r, mg_new := None, mg_old := None\<rparr>)"
        using emit_ok [OF pend out1 len nc r(1)] by blast
      let ?st2 = "?st1\<lparr>mg_builder := b, mg_rit := fst r, mg_dst := snd r, mg_new := None, mg_old := None\<rparr>"
      let ?st3 = "?st2\<lparr>mg_distinct := ?x\<rparr>"
      let ?st4 = "if bb_size (mg_builder ?st3) \<ge> DEFAULT_LSM_FILE_CAPACITY then merge_next_file env ?st3 else ?st3"
      have out3: "out_ok env region0 cat0 lvl0 news chunks (tail @ merged (X ! m) Rm [k]) ?st3"
        using b(2) by (subst out_ok_cong [where st = ?st2]) simp_all
      have K': "merge_keys X = (ks @ [k]) @ kn_key ?x # rest'" using K rest by simp
      have cont': "concat chunks @ tail @ merged (X ! m) Rm [k] = merged (X ! m) Rm (ks @ [k])"
        unfolding merged_append using cont(1) by simp
      have gu': "give_up_all r0 (released (X ! m) Rm (ks @ [k])) = Some (mg_rit ?st3, mg_dst ?st3)" using r(2) by simp
      obtain news' chunks' tail' where w': "written_so_far env region0 cat0 lvl0 (X ! m) Rm r0 (ks @ [k]) news' chunks' tail' ?st4"
        and sel: "mg_heap ?st4 = mg_heap ?st3" "mg_iters ?st4 = mg_iters ?st3" "mg_addr ?st4 = mg_addr ?st3"
          "mg_distinct ?st4 = mg_distinct ?st3" "mg_new ?st4 = mg_new ?st3" "mg_old ?st4 = mg_old ?st3"
        using roll_ok [OF plan K' out3 cont' cont(2) gu'] by blast
      have at4: "merge_at env Hp region0 (source_base cat0) bfs X m Rm (p(?i := Suc (p ?i))) (ks @ [k]) (kn_key ?x) rest' ?st4"
        using at' sel by simp
      have dk: "kn_key (mg_distinct st) = k" using at by (simp add: merge_at_def pending_def)
      have "merge_loop env st = merge_loop env ?st4"
        using ne s False dk b(1) by (subst merge_loop.simps) (simp add: Let_def)
      then show ?thesis using less.hyps [OF dec [OF i] at4 w'] by simp
    qed
  qed
qed

end
