(* ===== verification/Compaction_Merge.thy ===== *)
theory Compaction_Merge
  imports Merge_Run
begin

text \<open>
  The merge of a demoted file with the files of the next level that overlap it, from opening the
  iterators to dropping the merged files.
\<close>

section \<open>Dropping files\<close>

lemma remove_file_filter:
  assumes "distinct (map bf_id (bl_files l))"
  shows "snd (bit_level_remove_file l fid) = l\<lparr>bl_files := filter (\<lambda>b. bf_id b \<noteq> fid) (bl_files l)\<rparr>"
proof (cases "fid \<in> bf_id ` set (bl_files l)")
  case True
  then show ?thesis using remove_loop_distinct [OF assms True] by (simp add: bit_level_remove_file_def)
next
  case False
  then have "filter (\<lambda>b. bf_id b \<noteq> fid) (bl_files l) = bl_files l" by (intro filter_True) blast
  then show ?thesis using False by (simp add: bit_level_remove_file_def remove_loop_spec)
qed

lemma release_file_ok:
  assumes "catalogue_ok c" and "fd < nr_slots c"
  shows "catalogue_ok (snd (bitc_release_file c fd))" and "same_place c (snd (bitc_release_file c fd))"
    and "sv_valid (bc_bit_validity_table (snd (bitc_release_file c fd))) = (sv_valid (bc_bit_validity_table c))(fd := False)"
    and "bc_file_stats (snd (bitc_release_file c fd)) = bc_file_stats c"
    and "bc_max_version (snd (bitc_release_file c fd)) = bc_max_version c"
proof -
  have sv: "sv_ok (bc_bit_validity_table c)" using assms(1) by (simp add: catalogue_ok_def)
  obtain q t where q: "seg_validator_test_and_return (bc_bit_validity_table c) fd = (q, t)" by fastforce
  note R = return_in [OF sv assms(2), unfolded q, simplified]
  have c: "snd (bitc_release_file c fd) = c\<lparr>bc_bit_validity_table := t\<rparr>" using R(1) q by (simp add: bitc_release_file_def)
  show "catalogue_ok (snd (bitc_release_file c fd))" "same_place c (snd (bitc_release_file c fd))"
    "sv_valid (bc_bit_validity_table (snd (bitc_release_file c fd))) = (sv_valid (bc_bit_validity_table c))(fd := False)"
    "bc_file_stats (snd (bitc_release_file c fd)) = bc_file_stats c"
    "bc_max_version (snd (bitc_release_file c fd)) = bc_max_version c"
    unfolding c using assms(1) R by (simp_all add: catalogue_ok_def same_place_def)
qed

lemma drop_files_ok:
  "distinct (map bf_id (bl_files l)) \<Longrightarrow> catalogue_ok c \<Longrightarrow> \<forall>b \<in> set bs. bf_id b < nr_slots c \<Longrightarrow>
   \<exists>c'. foldl compaction_drop_file (l, c) bs =
     (l\<lparr>bl_files := filter (\<lambda>b. bf_id b \<notin> bf_id ` set bs) (bl_files l)\<rparr>, c') \<and>
     catalogue_ok c' \<and> same_place c c' \<and> bc_file_stats c' = bc_file_stats c \<and> bc_max_version c' = bc_max_version c \<and>
     sv_valid (bc_bit_validity_table c') = (\<lambda>fd. slot_used c fd \<and> fd \<notin> bf_id ` set bs)"
proof (induction bs arbitrary: l c)
  case (Cons b bs)
  let ?l = "l\<lparr>bl_files := filter (\<lambda>x. bf_id x \<noteq> bf_id b) (bl_files l)\<rparr>" and ?c = "snd (bitc_release_file c (bf_id b))"
  have b: "bf_id b < nr_slots c" using Cons.prems(3) by simp
  note R = release_file_ok [OF Cons.prems(2) b]
  have st: "compaction_drop_file (l, c) b = (?l, ?c)"
    using remove_file_filter [OF Cons.prems(1)] by (simp add: compaction_drop_file_def)
  have nr: "nr_slots ?c = nr_slots c" using R(2) by (simp add: same_place_def)
  have "distinct (map bf_id (bl_files ?l))" using Cons.prems(1) by (simp add: distinct_map_filter)
  moreover have "\<forall>b \<in> set bs. bf_id b < nr_slots ?c" using Cons.prems(3) nr by simp
  ultimately obtain c' where c': "foldl compaction_drop_file (?l, ?c) bs =
      (?l\<lparr>bl_files := filter (\<lambda>b. bf_id b \<notin> bf_id ` set bs) (bl_files ?l)\<rparr>, c')"
    "catalogue_ok c'" "same_place ?c c'" "bc_file_stats c' = bc_file_stats ?c" "bc_max_version c' = bc_max_version ?c"
    "sv_valid (bc_bit_validity_table c') = (\<lambda>fd. slot_used ?c fd \<and> fd \<notin> bf_id ` set bs)"
    using Cons.IH [OF _ R(1)] by blast
  have f: "filter (\<lambda>x. bf_id x \<notin> bf_id ` set bs) (bl_files ?l) = filter (\<lambda>x. bf_id x \<notin> bf_id ` set (b # bs)) (bl_files l)"
    by (auto simp: filter_filter intro: filter_cong)
  show ?case
    unfolding foldl_Cons st c'(1) f
    using c'(2-6) R(3-5) same_place_trans [OF R(2) c'(3)] by (auto simp: fun_eq_iff)
qed (simp add: fun_eq_iff)

section \<open>Giving up blocks\<close>

lemma give_up_all_total:
  "healthy rit \<Longrightarrow> \<forall>e \<in> set es. rec_pba (snd e) < ar_nr rit \<Longrightarrow> give_up_all (rit, dst) es \<noteq> None"
proof (induction es arbitrary: rit dst)
  case (Cons e es)
  let ?p = "rec_pba (snd e)"
  have p: "?p < ar_nr rit" using Cons.prems(2) by simp
  obtain rit' dst' where g: "give_up_block rit dst (fst e) (snd e) = Some (rit', dst')"
    and r: "rit' = snd (reverse_index_table_reset rit ?p (fst e))"
    using reset_healthy [OF Cons.prems(1) p, of "fst e"] by (auto simp: give_up_block_def split: if_splits)
  have "healthy rit'" "ar_nr rit' = ar_nr rit" using reset_keeps [of rit ?p "fst e"] Cons.prems(1) r by simp_all
  then show ?case using Cons.IH [of rit' dst'] Cons.prems(2) g by simp
qed simp

lemma released_subset:
  assumes "e \<in> set (released D Rm ks)"
  shows "Rm (fst e) = Some (snd e)"
  using assms by (auto simp: released_def merge_drop_def split: option.splits if_splits)

section \<open>Sources\<close>

lemma apart_disjoint:
  assumes "entries_apart Rs" and "\<forall>xs \<in> set Rs. sorted_wrt (\<le>) (map fst xs)" and "i < j" "j < length Rs"
    and "x \<in> set (Rs ! i)" "y \<in> set (Rs ! j)"
  shows "fst x < fst y"
proof -
  have m: "Rs ! i \<in> set Rs" "Rs ! j \<in> set Rs" using assms(3,4) by auto
  have "fst (last (Rs ! i)) < fst (hd (Rs ! j))" using assms(1,3,4) by (simp add: entries_apart_def sorted_wrt_iff_nth_less)
  moreover have "fst x \<le> fst (last (Rs ! i))" using sorted_le_last assms(2,5) m(1) by blast
  moreover have "fst (hd (Rs ! j)) \<le> fst y"
  proof -
    have "sorted_wrt (\<le>) (map fst (Rs ! j))" using assms(2) m(2) by blast
    then show ?thesis using assms(6) by (cases "Rs ! j") auto
  qed
  ultimately show ?thesis by simp
qed

lemma apart_distinct:
  assumes "entries_apart Rs" and "\<forall>xs \<in> set Rs. sorted_wrt (\<le>) (map fst xs) \<and> distinct (map fst xs)"
  shows "distinct (map fst (concat Rs))"
  using assms
proof (induction Rs)
  case (Cons xs Rs)
  have "fst x \<noteq> fst y" if xy: "x \<in> set xs" "y \<in> set (concat Rs)" for x y
  proof -
    obtain j where "j < length Rs" "y \<in> set (Rs ! j)" using xy(2) by (rule in_concat_nth)
    then have "fst x < fst y"
      using apart_disjoint [OF Cons.prems(1), of 0 "Suc j" x y] Cons.prems(2) xy(1) by simp
    then show ?thesis by simp
  qed
  then have "fst ` set xs \<inter> fst ` set (concat Rs) = {}" by blast
  moreover have "distinct (map fst (concat Rs))" using Cons by (simp add: entries_apart_def)
  ultimately show ?case using Cons.prems(2) by auto
qed simp

lemma sources:
  assumes v: "\<forall>b \<in> set rels. bf_version b < bf_version d \<and> bf_id b \<noteq> bf_id d" and len: "length rels = length Rs"
    and so: "sorted_wrt (\<le>) (map fst D)" "\<forall>xs \<in> set Rs. sorted_wrt (\<le>) (map fst xs) \<and> distinct (map fst xs)"
    and ap: "entries_apart Rs"
  shows "merge_sources (rev rels @ [d]) (rev Rs @ [D]) (length rels) (map_of (concat Rs))"
proof -
  let ?m = "length rels" and ?X = "rev Rs @ [D]" and ?B = "rev rels @ [d]"
  have X: "?X ! j = Rs ! (?m - Suc j)" "?B ! j = rels ! (?m - Suc j)" "?m - Suc j < ?m" if "j < ?m" for j
    using that len by (simp_all add: nth_append rev_nth)
  have Xm: "?X ! ?m = D" "?B ! ?m = d" using len by (simp_all add: nth_append)
  have mem: "?X ! j \<in> set Rs" if "j < ?m" for j using X(1,3) [OF that] len by simp
  have so': "\<forall>xs \<in> set Rs. sorted_wrt (\<le>) (map fst xs)" using so(2) by blast
  have "sources_ok ?m ?B"
    unfolding sources_ok_def using v X Xm(2) by (metis nth_mem)
  moreover have "\<forall>i \<le> ?m. sorted_wrt (\<le>) (map fst (?X ! i))"
    using so mem Xm(1) by (metis le_neq_implies_less)
  moreover have "\<forall>j < ?m. \<forall>e \<in> set (?X ! j). map_of (concat Rs) (fst e) = Some (snd e)"
  proof (intro allI impI ballI)
    fix j e
    assume j: "j < ?m" "e \<in> set (?X ! j)"
    then have "e \<in> set (concat Rs)" using mem [OF j(1)] by auto
    then show "map_of (concat Rs) (fst e) = Some (snd e)" using map_of_is_SomeI [OF apart_distinct [OF ap so(2)]] by simp
  qed
  moreover have "\<forall>k r. map_of (concat Rs) k = Some r \<longrightarrow> (\<exists>j < ?m. (k, r) \<in> set (?X ! j))"
  proof (intro allI impI)
    fix k r
    assume "map_of (concat Rs) k = Some r"
    then have "(k, r) \<in> set (concat Rs)" by (rule map_of_SomeD)
    then obtain i where i: "i < length Rs" "(k, r) \<in> set (Rs ! i)" by (rule in_concat_nth)
    have "?X ! (?m - Suc i) = Rs ! i" using X(1) [of "?m - Suc i"] i(1) len by (simp add: Suc_diff_Suc)
    then show "\<exists>j < ?m. (k, r) \<in> set (?X ! j)" using i len by (intro exI [of _ "?m - Suc i"]) auto
  qed
  moreover have "\<forall>j < ?m. \<forall>j' < ?m. \<forall>q < length (?X ! j). \<forall>q' < length (?X ! j').
        fst (?X ! j ! q) = fst (?X ! j' ! q') \<longrightarrow> j = j' \<and> q = q'"
  proof (intro allI impI)
    fix j j' q q'
    assume j: "j < ?m" "j' < ?m" "q < length (?X ! j)" "q' < length (?X ! j')" "fst (?X ! j ! q) = fst (?X ! j' ! q')"
    let ?i = "?m - Suc j" and ?i' = "?m - Suc j'"
    have e: "?X ! j ! q \<in> set (Rs ! ?i)" "?X ! j' ! q' \<in> set (Rs ! ?i')"
      using X(1) [OF j(1)] X(1) [OF j(2)] j(3,4) by (metis nth_mem)+
    have "\<not> ?i < ?i'" "\<not> ?i' < ?i"
      using apart_disjoint [OF ap so' _ _ e] apart_disjoint [OF ap so' _ _ e(2,1)] X(3) [OF j(1)] X(3) [OF j(2)] j(5) len by auto
    then have "?i = ?i'" by simp
    then have jj: "j = j'" using j(1,2) by linarith
    have "distinct (map fst (?X ! j))" using so(2) mem [OF j(1)] by blast
    then have "q = q'" using j(3,4,5) jj nth_eq_iff_index_eq [of "map fst (?X ! j)" q q'] by simp
    then show "j = j' \<and> q = q'" using jj by blast
  qed
  ultimately show ?thesis unfolding merge_sources_def using len by simp
qed

lemma all_iterators_ok:
  "list_all2 (\<lambda>b xs. file_in nc f (base b) b xs) bs xss \<Longrightarrow>
   \<exists>iters. all_iterators nc f bs = Some iters \<and> iters_on {} nc f base bs xss (\<lambda>_. 0) iters"
proof (induction bs xss rule: list_all2_induct)
  case (Cons b bs xs xss)
  obtain it where it: "bit_file_iterator nc f b = Some (Inr it)" "iter_in nc f (base b) b xs 0 it"
    using iter_start_in [OF Cons.hyps(1)] by blast
  obtain iters where i: "all_iterators nc f bs = Some iters" "iters_on {} nc f base bs xss (\<lambda>_. 0) iters"
    using Cons.IH by blast
  have "iters_on {} nc f base (b # bs) (xs # xss) (\<lambda>_. 0) (it # iters)"
    using i(2) it(2) unfolding iters_on_def by (auto simp: nth_Cons split: nat.split)
  then show ?case using it(1) i(1) by simp
qed (simp add: iters_on_def)


section \<open>The first step\<close>

text \<open>
  The loop starts with the root of the heap as \<^verbatim>\<open>distinct\<close> and takes that same root first, which
  changes nothing but the heap.
\<close>

lemma merge_begin:
  assumes plan: "merge_plan env Hp cat0 lvl0 bfs X m Rm N r0"
    and hp: "heap_on {..m} X (\<lambda>_. 0) (mg_heap st) (mg_addr st)" "Hp (mg_heap st)" "mg_heap st \<noteq> []"
    and it: "iters_on {..m} (le_cipher env) region0 (source_base cat0) bfs X (\<lambda>_. 0) (mg_iters st)"
    and st: "mg_distinct st = hd (mg_heap st)" "mg_new st = None" "mg_old st = None" "(mg_rit st, mg_dst st) = r0"
    and out: "out_ok env region0 cat0 lvl0 [] [] [] st"
  shows "\<exists>st' ks k news chunks tail. merge_loop env st = Some st' \<and> merge_keys X = ks @ [k] \<and>
    pending m k (group (X ! m) k) (Rm k) st' \<and>
    written_so_far env region0 cat0 lvl0 (X ! m) Rm r0 ks news chunks tail st'"
proof -
  let ?x = "hd (mg_heap st)" and ?S = "\<lambda>i. {..m} - {i}"
  let ?i = "kn_iter ?x" and ?k = "kn_key ?x"
  let ?p = "(\<lambda>_. 0)(?i := Suc 0)"
  have src: "merge_sources bfs X m Rm" and mh: "min_heap_ok (le_heap env) Hp" using plan by (simp_all add: merge_plan_def)
  have lX: "length X = Suc m" using src by (simp add: merge_sources_def)
  note P = pop_ok [OF hp(1) it hp(3) mh hp(2)]
  note reg = source_region [OF plan out]
  have it': "iters_on (?S ?i) (le_cipher env) (bb_file (mg_builder st)) (source_base cat0) bfs X ?p (mg_iters st)"
    by (rule iters_on_cong [OF P(8)]) (use reg in blast)
  have "?i < length X" "?i \<notin> ?S ?i" "?p ?i \<le> length (X ! ?i)" using P(1,2) lX by (auto simp: Suc_le_eq)
  from push_next_ok [OF P(6) it' this mh P(7)] obtain hp' iters' addr' where
    n: "merge_push_next env (bb_file (mg_builder st)) ?i (mh_pop (le_heap env) (mg_heap st), mg_iters st, mg_addr st) =
        Some (hp', iters', addr')"
    "Hp hp'" "heap_on (insert ?i (?S ?i)) X ?p hp' addr'"
    "iters_on (insert ?i (?S ?i)) (le_cipher env) (bb_file (mg_builder st)) (source_base cat0) bfs X ?p iters'"
    "mg_addr st \<le> addr'" "\<forall>x \<in> set hp'. x \<in> set (mh_pop (le_heap env) (mg_heap st)) \<or> mg_addr st \<le> kn_addr x" by blast
  have S: "insert ?i (?S ?i) = {..m}" using P(1) by auto
  have it2: "iters_on {..m} (le_cipher env) region0 (source_base cat0) bfs X ?p iters'"
    by (rule iters_on_cong [OF n(4) [unfolded S]]) (use reg in metis)
  let ?st = "st\<lparr>mg_heap := hp', mg_iters := iters', mg_addr := addr'\<rparr>"
  have "merge_same_key ?st ?x = ?st" by (simp add: merge_same_key_def st(1) Let_def)
  then have step: "merge_loop env st = merge_loop env ?st"
    using hp(3) n(1) st(1) by (subst merge_loop.simps) (simp add: Let_def)
  have addr: "kn_addr ?x \<notin> kn_addr ` set hp'"
  proof
    assume "kn_addr ?x \<in> kn_addr ` set hp'"
    then obtain x where "x \<in> set hp'" "kn_addr x = kn_addr ?x" by (metis imageE)
    then show False using n(6) P(9,4) by (metis imageI not_le)
  qed
  have ee: "X ! ?i ! 0 = (?k, snd (kn_val ?x))" using P(3) by (simp add: node_entry_def)
  then have e: "node_entry ?x = (?k, snd (X ! ?i ! 0))" "fst (X ! ?i ! 0) = ?k" "0 < length (X ! ?i)" "?i \<le> m"
    using P(1,2) by (simp_all add: node_entry_def)
  have least: "?k \<le> fst (X ! j ! q)" if "j \<le> m" "q < length (X ! j)" for j q
  proof -
    have "?k \<le> fst (X ! j ! 0)" using P(5) [of j] that by (cases "X ! j") auto
    moreover have "sorted_wrt (\<le>) (map fst (X ! j))" using src that(1) by (simp add: merge_sources_def)
    then have "fst (X ! j ! 0) \<le> fst (X ! j ! q)" using that(2) by (cases q) (auto simp: sorted_wrt_iff_nth_less)
    ultimately show ?thesis by simp
  qed
  have "?k \<in> set (merge_keys X)" unfolding merge_keys_nth using e lX by (intro exI [of _ ?i]) auto
  then obtain k1 rest where K: "merge_keys X = k1 # rest" by (cases "merge_keys X") auto
  have "?k \<le> k1"
  proof -
    have "k1 \<in> set (merge_keys X)" using K by simp
    then show ?thesis unfolding merge_keys_nth using least lX by auto
  qed
  moreover have "k1 \<le> ?k" using \<open>?k \<in> set (merge_keys X)\<close> merge_keys_sorted [of X] unfolding K by auto
  ultimately have K: "merge_keys X = [] @ ?k # rest" using K by simp
  have "pending m ?k (group (take (?p m) (X ! m)) ?k) (seen X m Rm ?p ?k) ?st"
  proof (cases "?i = m")
    case True
    have "group (take (?p m) (X ! m)) ?k = [snd (X ! ?i ! 0)]"
      using group_snoc [of 0 "X ! m" ?k] e True by (simp add: group_def)
    moreover have "seen X m Rm ?p ?k = None" using True by (simp add: seen_def)
    ultimately show ?thesis using pending_start(1) [OF e(1), of ?st m] st True by simp
  next
    case False
    then have im: "?i < m" using e(4) by simp
    have "seen X m Rm ?p ?k = Some (snd (X ! ?i ! 0))"
      using seen_snoc(1) [where p = "\<lambda>_. 0", OF src im] e by simp
    moreover have "group (take (?p m) (X ! m)) ?k = []" using False by (simp add: group_def)
    ultimately show ?thesis using pending_start(2) [OF e(1), of ?st m] st im by simp
  qed
  moreover have "\<forall>i \<le> m. \<forall>q < length (X ! i). (q < ?p i \<longrightarrow> fst (X ! i ! q) \<le> ?k) \<and> (?p i \<le> q \<longrightarrow> ?k \<le> fst (X ! i ! q))"
    using least e by (auto split: if_splits)
  moreover have "\<forall>j \<le> m. ?p j \<le> length (X ! j)" using e(3) by (simp add: Suc_le_eq)
  ultimately have at: "merge_at env Hp region0 (source_base cat0) bfs X m Rm ?p [] ?k rest ?st"
    unfolding merge_at_def using n(2,3,5) S it2 K addr P(4) st(1) by simp
  have "out_ok env region0 cat0 lvl0 [] [] [] ?st" using out by (subst out_ok_cong [where st = st]) simp_all
  then have "written_so_far env region0 cat0 lvl0 (X ! m) Rm r0 [] [] [] [] ?st"
    using st(4) by (simp add: written_so_far_def merged_def released_def layout_consts)
  from merge_loop_ok [OF plan at this] show ?thesis unfolding step .
qed


section \<open>The merge\<close>

definition merge_input ::
  "'c lsm_env \<Rightarrow> bit_level \<Rightarrow> bit_level \<Rightarrow> 'c lsm_disk \<Rightarrow> bit_file \<Rightarrow> entries \<Rightarrow> bit_file list \<Rightarrow> entries list \<Rightarrow> bool" where
  "merge_input env level1 level2 disk d D rels Rs \<longleftrightarrow>
     (let cat = ld_catalogue disk; held = (\<lambda>b xs. file_in (le_cipher env) (ld_region disk) (source_base cat b) b xs)
      in catalogue_ok cat \<and> bc_file_size cat = BIT_FILE_SIZE \<and> held d D \<and> list_all2 held rels Rs \<and>
         (\<forall>b \<in> set (d # rels @ bl_files level2). slot_used cat (bf_id b) \<and> bf_id b < nr_slots cat) \<and>
         (\<forall>b \<in> set rels. bf_version b < bf_version d \<and> bf_id b \<noteq> bf_id d) \<and>
         entries_apart Rs \<and> (\<forall>xs \<in> set Rs. distinct (map fst xs)) \<and> cmp_sorted (bl_files level2) \<and>
         distinct (map bf_id (bl_files level1)) \<and> distinct (map bf_id (bl_files level2)))"

definition merge_room ::
  "bit_level \<Rightarrow> 'c lsm_disk \<Rightarrow> entries \<Rightarrow> entries list \<Rightarrow> nat \<Rightarrow> bool" where
  "merge_room level2 disk D Rs N \<longleftrightarrow>
     (let K = merge_keys (rev Rs @ [D]); Rm = map_of (concat Rs); cat = ld_catalogue disk
      in length (merged D Rm K) \<le> N * DEFAULT_LSM_FILE_CAPACITY \<and>
         N \<le> card {fd. fd < nr_slots cat \<and> \<not> slot_used cat fd} \<and>
         length (bl_files level2) + N \<le> bl_max_size level2 \<and>
         merge_keep (group D (last K)) (Rm (last K)) \<noteq> None \<and>
         healthy (ld_rit disk) \<and> (\<forall>e \<in> set (concat Rs). rec_pba (snd e) < ar_nr (ld_rit disk)))"

lemma plan_from_input:
  assumes inp: "merge_input env level1 level2 disk d D rels Rs" and room: "merge_room level2 disk D Rs N"
    and nc: "node_cipher_ok (le_cipher env)" and mh: "min_heap_ok (le_heap env) Hp"
  shows "merge_plan env Hp (ld_catalogue disk) level2 (rev rels @ [d]) (rev Rs @ [D]) (length rels) (map_of (concat Rs)) N
    (ld_rit disk, ld_dst disk)"
proof -
  let ?X = "rev Rs @ [D]"
  have held: "file_in (le_cipher env) (ld_region disk) (source_base (ld_catalogue disk) d) d D"
    "list_all2 (\<lambda>b xs. file_in (le_cipher env) (ld_region disk) (source_base (ld_catalogue disk) b) b xs) rels Rs"
    and rest: "bc_file_size (ld_catalogue disk) = BIT_FILE_SIZE"
      "\<forall>b \<in> set (d # rels @ bl_files level2). slot_used (ld_catalogue disk) (bf_id b) \<and> bf_id b < nr_slots (ld_catalogue disk)"
      "\<forall>b \<in> set rels. bf_version b < bf_version d \<and> bf_id b \<noteq> bf_id d" "entries_apart Rs" "\<forall>xs \<in> set Rs. distinct (map fst xs)"
    using inp unfolding merge_input_def Let_def by blast+
  have len: "length rels = length Rs" using held(2) by (rule list_all2_lengthD)
  have sD: "sorted_wrt (\<le>) (map fst D)" using file_in_ok [OF held(1)] by (simp add: file_ok_def)
  have sR: "sorted_wrt (\<le>) (map fst xs)" if xs: "xs \<in> set Rs" for xs
  proof -
    obtain i where "i < length Rs" "xs = Rs ! i" using xs by (metis in_set_conv_nth)
    then have "file_ok (le_cipher env) (ld_region disk) (rels ! i) xs"
      using file_in_ok [OF list_all2_nthD2 [OF held(2)]] by metis
    then show ?thesis by (simp add: file_ok_def)
  qed
  have src: "merge_sources (rev rels @ [d]) ?X (length rels) (map_of (concat Rs))"
    by (rule sources) (use rest len sD sR in auto)
  have Xm: "?X ! length rels = D" using len by (simp add: nth_append)
  have "give_up_all (ld_rit disk, ld_dst disk) (released D (map_of (concat Rs)) (merge_keys ?X)) \<noteq> None"
  proof (rule give_up_all_total)
    show "healthy (ld_rit disk)" using room by (simp add: merge_room_def Let_def)
    have "rec_pba (snd e) < ar_nr (ld_rit disk)" if "map_of (concat Rs) (fst e) = Some (snd e)" for e
      using room map_of_SomeD [OF that] by (auto simp: merge_room_def Let_def)
    then show "\<forall>e \<in> set (released D (map_of (concat Rs)) (merge_keys ?X)). rec_pba (snd e) < ar_nr (ld_rit disk)"
      using released_subset by blast
  qed
  moreover have "\<forall>b \<in> set (rev rels @ [d]). slot_used (ld_catalogue disk) (bf_id b)" using rest(2) by simp
  ultimately show ?thesis unfolding merge_plan_def Xm
    using src mh nc rest(1) room unfolding merge_room_def Let_def by blast
qed

lemma merge_finish:
  assumes plan: "merge_plan env Hp cat0 lvl0 bfs X m Rm N r0"
    and K: "merge_keys X = ks @ [k]" and pend: "pending m k (group (X ! m) k) (Rm k) st"
    and w: "written_so_far env region0 cat0 lvl0 (X ! m) Rm r0 ks news chunks tail st"
  shows "\<exists>st1 f cat lvl news chunks. merge_emit env st = Some st1 \<and>
    merge_add_file env st1 = (f, st1\<lparr>mg_catalogue := cat, mg_level2 := lvl\<rparr>) \<and>
    files_written env region0 cat0 lvl0 f cat lvl news chunks \<and> concat chunks = merged (X ! m) Rm (merge_keys X) \<and>
    [] \<notin> set chunks \<and> length news \<le> N \<and>
    sv_valid (bc_bit_validity_table cat) = (\<lambda>fd. slot_used cat0 fd \<or> fd \<in> bf_id ` set news) \<and>
    give_up_all r0 (released (X ! m) Rm (merge_keys X)) = Some (mg_rit st1, mg_dst st1)"
proof -
  let ?D = "X ! m" and ?C = DEFAULT_LSM_FILE_CAPACITY
  have sz: "bc_file_size cat0 = BIT_FILE_SIZE" and nc: "node_cipher_ok (le_cipher env)"
    and N: "length (merged ?D Rm (merge_keys X)) \<le> N * ?C" "length (bl_files lvl0) + N \<le> bl_max_size lvl0"
    and last: "merge_keep (group ?D k) (Rm k) \<noteq> None"
    and give: "give_up_all r0 (released ?D Rm (ks @ [k])) \<noteq> None"
    using plan K by (simp_all add: merge_plan_def)
  have out: "out_ok env region0 cat0 lvl0 news chunks tail st" and cont: "concat chunks @ tail = merged ?D Rm ks"
    "\<forall>c \<in> set chunks. length c = ?C" and len: "length tail < ?C"
    and gu: "give_up_all r0 (released ?D Rm ks) = Some (mg_rit st, mg_dst st)"
    using w by (simp_all add: written_so_far_def)
  obtain r where r: "give_up_all (mg_rit st, mg_dst st) (released ?D Rm [k]) = Some r"
    "give_up_all r0 (released ?D Rm (ks @ [k])) = Some r" using give_up_prefix [OF give gu] by blast
  obtain b where b: "merge_emit env st =
      Some (st\<lparr>mg_builder := b, mg_rit := fst r, mg_dst := snd r, mg_new := None, mg_old := None\<rparr>)"
    "out_ok env region0 cat0 lvl0 news chunks (tail @ merged ?D Rm [k])
      (st\<lparr>mg_builder := b, mg_rit := fst r, mg_dst := snd r, mg_new := None, mg_old := None\<rparr>)"
    using emit_ok [OF pend out len nc r(1)] by blast
  let ?st1 = "st\<lparr>mg_builder := b, mg_rit := fst r, mg_dst := snd r, mg_new := None, mg_old := None\<rparr>"
  let ?t = "tail @ merged ?D Rm [k]"
  have t1: "?t \<noteq> []" using last by (auto simp: merged_one)
  have all: "concat chunks @ ?t = merged ?D Rm (merge_keys X)" unfolding K merged_append using cont(1) by simp
  have t2: "sorted_wrt (\<le>) (map fst ?t)"
    using sorted_part [of "concat chunks" ?t] merged_sorted [OF merge_keys_sorted, of ?D Rm X] unfolding all [symmetric] by simp
  have lc: "length chunks = length news"
    using out unfolding out_ok_def files_written_def by (auto dest: list_all2_lengthD)
  have "length chunks * ?C + length tail < length (merged ?D Rm (merge_keys X))"
    using merged_length_prefix [OF cont, of k "[]"] last unfolding K by simp
  then have "length news * ?C < N * ?C" unfolding lc using N(1) by linarith
  then have few: "length news < N" using mult_less_cancel2 by blast
  have room: "length (bl_files lvl0) + length news < bl_max_size lvl0" using few N(2) by simp
  obtain bf f cat lvl where a: "merge_add_file env ?st1 = (f, ?st1\<lparr>mg_catalogue := cat, mg_level2 := lvl\<rparr>)"
    "bf_id bf = mg_fd ?st1" "files_written env region0 cat0 lvl0 f cat lvl (news @ [bf]) (chunks @ [?t])"
    "sv_valid (bc_bit_validity_table cat) = sv_valid (bc_bit_validity_table (mg_catalogue ?st1))"
    using out_add_file [OF b(2) nc t1 t2 sz room] by blast
  have used: "sv_valid (bc_bit_validity_table cat) = (\<lambda>fd. slot_used cat0 fd \<or> fd \<in> bf_id ` set (news @ [bf]))"
    using out a(2,4) unfolding out_ok_def by auto
  have "concat (chunks @ [?t]) = merged ?D Rm (merge_keys X)" using all by simp
  moreover have "[] \<notin> set (chunks @ [?t])" using cont(2) t1 by (auto simp: layout_consts)
  moreover have "length (news @ [bf]) \<le> N" using few by simp
  moreover have "give_up_all r0 (released ?D Rm (merge_keys X)) = Some (mg_rit ?st1, mg_dst ?st1)" using r(2) K by simp
  ultimately show ?thesis using b(1) a(1,3) used by blast
qed

lemma compaction_merge_ok:
  assumes inp: "merge_input env level1 level2 disk d D rels Rs" and room: "merge_room level2 disk D Rs N"
    and nc: "node_cipher_ok (le_cipher env)" and mh: "min_heap_ok (le_heap env) Hp"
  shows "\<exists>news chunks region cat lvl cat' r. compaction_merge env level1 level2 disk [d] rels =
      Some (level1\<lparr>bl_files := filter (\<lambda>b. bf_id b \<noteq> bf_id d) (bl_files level1)\<rparr>,
        lvl\<lparr>bl_files := filter (\<lambda>b. bf_id b \<notin> bf_id ` set rels) (bl_files lvl)\<rparr>,
        disk\<lparr>ld_region := region, ld_catalogue := cat', ld_rit := fst r, ld_dst := snd r\<rparr>) \<and>
    files_written env (ld_region disk) (ld_catalogue disk) level2 region cat lvl news chunks \<and>
    concat chunks = merged D (map_of (concat Rs)) (merge_keys (rev Rs @ [D])) \<and> [] \<notin> set chunks \<and> length news \<le> N \<and>
    catalogue_ok cat' \<and> same_place (ld_catalogue disk) cat' \<and> bc_file_stats cat' = bc_file_stats cat \<and>
    bc_max_version cat' = bc_max_version cat \<and>
    sv_valid (bc_bit_validity_table cat') =
      (\<lambda>fd. (slot_used (ld_catalogue disk) fd \<or> fd \<in> bf_id ` set news) \<and> fd \<notin> bf_id ` set (d # rels)) \<and>
    give_up_all (ld_rit disk, ld_dst disk) (released D (map_of (concat Rs)) (merge_keys (rev Rs @ [D]))) = Some r"
proof -
  let ?cat = "ld_catalogue disk" and ?reg = "ld_region disk" and ?nc = "le_cipher env"
  let ?X = "rev Rs @ [D]" and ?bfs = "rev rels @ [d]" and ?m = "length rels" and ?Rm = "map_of (concat Rs)"
  note plan = plan_from_input [OF inp room nc mh]
  have held: "file_in ?nc ?reg (source_base ?cat d) d D"
    "list_all2 (\<lambda>b xs. file_in ?nc ?reg (source_base ?cat b) b xs) rels Rs"
    and ok: "catalogue_ok ?cat" and used: "\<forall>b \<in> set (d # rels @ bl_files level2). slot_used ?cat (bf_id b) \<and> bf_id b < nr_slots ?cat"
    and dist: "distinct (map bf_id (bl_files level1))" "distinct (map bf_id (bl_files level2))" and cs: "cmp_sorted (bl_files level2)"
    using inp unfolding merge_input_def Let_def by blast+
  have len: "length rels = length Rs" using held(2) by (rule list_all2_lengthD)
  have Xm: "?X ! ?m = D" using len by (simp add: nth_append)
  have "list_all2 (\<lambda>b xs. file_in ?nc ?reg (source_base ?cat b) b xs) ?bfs ?X"
    using held by (simp add: list_all2_appendI)
  from all_iterators_ok [OF this] obtain iters where it: "all_iterators ?nc ?reg ?bfs = Some iters"
    "iters_on {} ?nc ?reg (source_base ?cat) ?bfs ?X (\<lambda>_. 0) iters" by blast
  have li: "length iters = Suc ?m" using it(2) len by (simp add: iters_on_def)
  have h0: "heap_on {} ?X (\<lambda>_. 0) [] 0" "Hp []" using mh by (simp_all add: heap_on_def min_heap_ok_def)
  have "\<forall>i \<in> set [0..<length iters]. i < length ?X \<and> i \<notin> {} \<and> 0 \<le> length (?X ! i)" using li len by simp
  from push_all_ok [OF mh h0(1) it(2) h0(2) distinct_upt this] obtain hp iters1 addr where
    p: "merge_push_all env ?reg [0..<length iters] ([], iters, 0) = Some (hp, iters1, addr)" "Hp hp"
    "heap_on ({} \<union> set [0..<length iters]) ?X (\<lambda>_. 0) hp addr"
    "iters_on ({} \<union> set [0..<length iters]) ?nc ?reg (source_base ?cat) ?bfs ?X (\<lambda>_. 0) iters1" by blast
  have S: "{} \<union> set [0..<length iters] = {..?m}" using li by auto
  have "D \<noteq> []" using file_in_ok [OF held(1)] by (simp add: file_ok_def)
  then have "?m \<in> kn_iter ` set hp" using p(3) [unfolded S] Xm by (simp add: heap_on_def)
  then have ne: "hp \<noteq> []" by auto
  have fw: "files_written env ?reg ?cat level2 ?reg ?cat level2 [] []"
    using ok cs by (simp add: files_written_def region_kept_def) (rule exI [of _ "bl_files level2"], simp)
  have "fst (hd D) \<in> set (merge_keys ?X)" using \<open>D \<noteq> []\<close> by (simp add: merge_keys_set)
  then obtain k rest where "merge_keys ?X = [] @ k # rest" by (cases "merge_keys ?X") auto
  then have "0 < length (merged D ?Rm (merge_keys ?X))"
    using merged_length_prefix [of "[]" "[]" D ?Rm "[]" 0 k rest] plan
    unfolding merge_plan_def Xm by (simp add: merged_def)
  then have "0 < N" using plan unfolding merge_plan_def Xm by (metis gr0I le_zero_eq mult_0 not_less_zero)
  then obtain fd' where fd': "fd' < nr_slots ?cat" "\<not> slot_used ?cat fd'"
    using room by (auto simp: merge_room_def Let_def) (metis (no_types, lifting) Collect_empty_eq card.empty le_zero_eq not_gr0)
  have used0: "sv_valid (bc_bit_validity_table ?cat) = (\<lambda>fd. slot_used ?cat fd \<or> fd \<in> bf_id ` set [])" by simp
  have nf: "fd' \<notin> bf_id ` set ([] :: bit_file list)" by simp
  obtain fd cat1 where al: "bitc_alloc_file ?cat = (Inr fd, cat1)"
    "\<forall>st. mg_fd st = fd \<and> mg_catalogue st = snd (bitc_get_next_version cat1) \<and> mg_level2 st = level2 \<and>
       mg_builder st = compaction_get_builder env ?reg (snd (bitc_get_next_version cat1)) fd (bl_level level2)
         (fst (bitc_get_next_version cat1)) \<longrightarrow>
       out_ok env ?reg ?cat level2 [] [] [] st"
    using out_new_builder [OF fw used0 fd' nf] by (elim exE conjE) (rule that)
  let ?cat2 = "snd (bitc_get_next_version cat1)" and ?v = "fst (bitc_get_next_version cat1)"
  define st where "st = \<lparr>mg_heap = hp, mg_iters = iters1, mg_addr = addr, mg_distinct = hd hp, mg_new = None, mg_old = None,
    mg_builder = compaction_get_builder env ?reg ?cat2 fd (bl_level level2) ?v, mg_level2 = level2, mg_fd = fd,
    mg_catalogue = ?cat2, mg_rit = ld_rit disk, mg_dst = ld_dst disk\<rparr>"
  have out: "out_ok env ?reg ?cat level2 [] [] [] st" using al(2) by (simp add: st_def)
  obtain st' ks k' news0 chunks0 tail0 where lp: "merge_loop env st = Some st'" "merge_keys ?X = ks @ [k']"
    "pending ?m k' (group (?X ! ?m) k') (?Rm k') st'"
    "written_so_far env ?reg ?cat level2 (?X ! ?m) ?Rm (ld_rit disk, ld_dst disk) ks news0 chunks0 tail0 st'"
    using merge_begin [OF plan, of st ?reg] p(2,3,4) ne out unfolding S st_def by auto
  obtain st1 f cat lvl news chunks where fin: "merge_emit env st' = Some st1"
    "merge_add_file env st1 = (f, st1\<lparr>mg_catalogue := cat, mg_level2 := lvl\<rparr>)"
    "files_written env ?reg ?cat level2 f cat lvl news chunks" "concat chunks = merged (?X ! ?m) ?Rm (merge_keys ?X)"
    "[] \<notin> set chunks" "length news \<le> N"
    "sv_valid (bc_bit_validity_table cat) = (\<lambda>fd. slot_used ?cat fd \<or> fd \<in> bf_id ` set news)"
    "give_up_all (ld_rit disk, ld_dst disk) (released (?X ! ?m) ?Rm (merge_keys ?X)) = Some (mg_rit st1, mg_dst st1)"
    using merge_finish [OF plan lp(2-4)] by (elim exE conjE) (rule that)
  have fc: "catalogue_ok cat" "same_place ?cat cat" using fin(3) by (simp_all add: files_written_def)
  have nr: "nr_slots cat = nr_slots ?cat" using fc(2) by (simp add: same_place_def)
  obtain fs where fs: "lvl = level2\<lparr>bl_files := fs\<rparr>" "mset fs = mset (bl_files level2) + mset news"
    using fin(3) unfolding files_written_def by blast
  have dl: "distinct (map bf_id (bl_files lvl))"
  proof -
    have nw: "distinct (map bf_id news)" "\<forall>b \<in> set news. \<not> slot_used ?cat (bf_id b)"
      using fin(3) by (simp_all add: files_written_def)
    have "bf_id ` set (bl_files level2) \<inter> bf_id ` set news = {}"
    proof (rule ccontr)
      assume "\<not> ?thesis"
      then obtain a b where ab: "a \<in> set (bl_files level2)" "b \<in> set news" "bf_id a = bf_id b" by blast
      have "a \<in> set (d # rels @ bl_files level2)" using ab(1) by simp
      then have "slot_used ?cat (bf_id b)" using used ab(3) by metis
      then show False using nw(2) ab(2) by blast
    qed
    then have "distinct (map bf_id (bl_files level2 @ news))" using dist(2) nw(1) by simp
    moreover have "mset (map bf_id fs) = mset (map bf_id (bl_files level2 @ news))" using fs(2) by (metis mset_append mset_map)
    ultimately have "distinct (map bf_id fs)" using mset_eq_imp_distinct_iff by blast
    then show ?thesis unfolding fs(1) by simp
  qed
  have "\<forall>b \<in> set [d]. bf_id b < nr_slots cat" using used nr by simp
  then obtain cat3 where d3: "foldl compaction_drop_file (level1, cat) [d] =
      (level1\<lparr>bl_files := filter (\<lambda>b. bf_id b \<notin> bf_id ` set [d]) (bl_files level1)\<rparr>, cat3)"
    "catalogue_ok cat3" "same_place cat cat3" "bc_file_stats cat3 = bc_file_stats cat" "bc_max_version cat3 = bc_max_version cat"
    "sv_valid (bc_bit_validity_table cat3) = (\<lambda>fd. slot_used cat fd \<and> fd \<notin> bf_id ` set [d])"
    using drop_files_ok [OF dist(1) fc(1)] by blast
  have "\<forall>b \<in> set rels. bf_id b < nr_slots cat3" using used nr d3(3) by (simp add: same_place_def)
  then obtain cat4 where d4: "foldl compaction_drop_file (lvl, cat3) rels =
      (lvl\<lparr>bl_files := filter (\<lambda>b. bf_id b \<notin> bf_id ` set rels) (bl_files lvl)\<rparr>, cat4)"
    "catalogue_ok cat4" "same_place cat3 cat4" "bc_file_stats cat4 = bc_file_stats cat3" "bc_max_version cat4 = bc_max_version cat3"
    "sv_valid (bc_bit_validity_table cat4) = (\<lambda>fd. slot_used cat3 fd \<and> fd \<notin> bf_id ` set rels)"
    using drop_files_ok [OF dl d3(2)] by blast
  have "rev ([d] @ rels) = ?bfs" by simp
  then have run: "compaction_merge env level1 level2 disk [d] rels =
      Some (level1\<lparr>bl_files := filter (\<lambda>b. bf_id b \<noteq> bf_id d) (bl_files level1)\<rparr>,
        lvl\<lparr>bl_files := filter (\<lambda>b. bf_id b \<notin> bf_id ` set rels) (bl_files lvl)\<rparr>,
        disk\<lparr>ld_region := f, ld_catalogue := cat4, ld_rit := fst (mg_rit st1, mg_dst st1), ld_dst := snd (mg_rit st1, mg_dst st1)\<rparr>)"
    using it(1) p(1) al(1) ne lp(1) fin(1,2) d3(1) d4(1)
    by (simp add: compaction_merge_def Let_def split_beta st_def [symmetric])
  have used4: "sv_valid (bc_bit_validity_table cat4) =
      (\<lambda>fd. (slot_used ?cat fd \<or> fd \<in> bf_id ` set news) \<and> fd \<notin> bf_id ` set (d # rels))"
    unfolding d4(6) d3(6) fin(7) by (auto simp: fun_eq_iff)
  show ?thesis
    by (rule exI [of _ news], rule exI [of _ chunks], rule exI [of _ f], rule exI [of _ cat], rule exI [of _ lvl],
        rule exI [of _ cat4], rule exI [of _ "(mg_rit st1, mg_dst st1)"])
      (use run fin(3-6,8) Xm d4(2,4,5) d3(4,5) used4 same_place_trans [OF same_place_trans [OF fc(2) d3(3)] d4(3)] in auto)
qed

end
