(* ===== verification/Compaction_Run.thy ===== *)
theory Compaction_Run
  imports Compaction_Merge Lsm_Search
begin

text \<open>
  The compaction job on two levels: what the lower level holds after the demoted file has been merged
  into it.
\<close>

section \<open>The order of the files\<close>

lemma sorted_unique:
  "sorted_wrt R xs \<Longrightarrow> sorted_wrt S ys \<Longrightarrow> mset xs = mset ys \<Longrightarrow> (\<And>a b. R a b \<Longrightarrow> \<not> S b a) \<Longrightarrow> xs = ys"
proof (induction xs arbitrary: ys)
  case (Cons x xs)
  obtain y ys' where ys: "ys = y # ys'" using Cons.prems(3) by (cases ys) auto
  have "x = y"
  proof (rule ccontr)
    assume ne: "x \<noteq> y"
    have "set (x # xs) = set (y # ys')" using Cons.prems(3) ys by (metis set_mset_mset)
    then have "x \<in> set ys'" "y \<in> set xs" using ne by auto
    then show False using Cons.prems(1,2,4) ys by auto
  qed
  then show ?case using Cons ys by auto
qed simp

definition file_below :: "bit_file \<Rightarrow> bit_file \<Rightarrow> bool" where
  "file_below a b \<longleftrightarrow> bf_last_key a < bf_first_key b \<and> bf_first_key a \<le> bf_last_key a"

lemma file_below_cmp: "file_below a b \<Longrightarrow> bit_file_cmp a b < 0"
  by (simp add: file_below_def bit_file_cmp_def)

lemma apart_below:
  assumes "list_all2 (file_ok nc f) bs xss" and "entries_apart xss"
  shows "sorted_wrt file_below bs"
proof -
  have len: "length bs = length xss" using assms(1) by (rule list_all2_lengthD)
  have "file_below (bs ! i) (bs ! j)" if ij: "i < j" "j < length bs" for i j
  proof -
    have ok: "file_ok nc f (bs ! i) (xss ! i)" "file_ok nc f (bs ! j) (xss ! j)"
      using assms(1) ij len by (simp_all add: list_all2_conv_all_nth)
    have "fst (last (xss ! i)) < fst (hd (xss ! j))"
      using assms(2) ij len by (simp add: entries_apart_def sorted_wrt_iff_nth_less)
    then show ?thesis unfolding file_below_def using file_ok_keys [OF ok(1)] file_ok_keys [OF ok(2)] by simp
  qed
  then show ?thesis by (simp add: sorted_wrt_iff_nth_less)
qed

lemma below_sorted: "sorted_wrt file_below bs \<Longrightarrow> cmp_sorted bs"
  unfolding cmp_sorted_def by (rule sorted_wrt_mono_rel) (auto dest: file_below_cmp)


lemma apart_strict:
  assumes "entries_apart xss" and "\<forall>xs \<in> set xss. sorted_wrt (\<le>) (map fst xs) \<and> distinct (map fst xs)"
  shows "sorted_wrt (<) (map fst (concat xss))"
  using assms
proof (induction xss)
  case (Cons xs xss)
  have "fst x < fst y" if xy: "x \<in> set xs" "y \<in> set (concat xss)" for x y
  proof -
    obtain j where "j < length xss" "y \<in> set (xss ! j)" using xy(2) by (rule in_concat_nth)
    then show ?thesis using apart_disjoint [OF Cons.prems(1), of 0 "Suc j" x y] Cons.prems(2) xy(1) by simp
  qed
  then have "\<forall>x \<in> set (map fst xs). \<forall>y \<in> set (map fst (concat xss)). x < y" by fastforce
  moreover have "sorted_wrt (<) (map fst (concat xss))" using Cons by (simp add: entries_apart_def)
  moreover have "sorted_wrt (<) (map fst xs)" using Cons.prems(2) by (simp add: strict_sorted_iff)
  ultimately show ?case by (simp only: concat.simps map_append sorted_wrt_append)
qed simp

lemma strict_apart:
  "sorted_wrt (<) (map fst (concat xss)) \<Longrightarrow> [] \<notin> set xss \<Longrightarrow>
   entries_apart xss \<and> (\<forall>xs \<in> set xss. distinct (map fst xs))"
proof (induction xss)
  case (Cons xs xss)
  have s: "sorted_wrt (<) (map fst xs)" "sorted_wrt (<) (map fst (concat xss))"
    and lt: "\<forall>x \<in> set xs. \<forall>y \<in> set (concat xss). fst x < fst y"
    using Cons.prems(1) by (auto simp: sorted_wrt_append)
  have "fst (last xs) < fst (hd ys)" if "ys \<in> set xss" for ys
  proof -
    have "xs \<noteq> []" "ys \<noteq> []" using Cons.prems(2) that by auto
    then have "last xs \<in> set xs" "hd ys \<in> set (concat xss)" using that by (auto intro: bexI [of _ ys])
    then show ?thesis using lt by blast
  qed
  then show ?case using Cons.IH [OF s(2)] Cons.prems(2) s(1) by (simp add: entries_apart_def strict_sorted_iff)
qed (simp add: entries_apart_def)

section \<open>The job\<close>

text \<open>
  The levels before the job: one file \<open>d\<close> is picked from the upper level and overlaps files of the lower
  one, all of them are stored in slots of their own, and \<open>d\<close> is newer than the files of the lower level.
\<close>

definition compaction_ready ::
  "'c lsm_env \<Rightarrow> bit_level \<Rightarrow> bit_level \<Rightarrow> 'c lsm_disk \<Rightarrow> bit_file \<Rightarrow> entries \<Rightarrow> entries list \<Rightarrow> bool" where
  "compaction_ready env level1 level2 disk d D xss \<longleftrightarrow>
     (let cat = ld_catalogue disk; held = (\<lambda>b xs. file_in (le_cipher env) (ld_region disk) (source_base cat b) b xs)
      in catalogue_ok cat \<and> bc_file_size cat = BIT_FILE_SIZE \<and>
         snd (bit_level_pick_demoted_files level1) = [d] \<and> bl_level level2 \<noteq> 0 \<and>
         bit_level_find_relative_files level2 [d] \<noteq> [] \<and>
         held d D \<and> list_all2 held (bl_files level2) xss \<and>
         entries_apart xss \<and> (\<forall>xs \<in> set xss. distinct (map fst xs)) \<and>
         (\<forall>b \<in> set (d # bl_files level2). slot_used cat (bf_id b) \<and> bf_id b < nr_slots cat) \<and>
         (\<forall>b \<in> set (bl_files level2). bf_version b < bf_version d \<and> bf_id b \<noteq> bf_id d) \<and>
         distinct (map bf_id (bl_files level1)) \<and> distinct (map bf_id (bl_files level2)))"

text \<open>The entries of the files of the lower level that take part.\<close>

definition relative_entries :: "bit_level \<Rightarrow> bit_file \<Rightarrow> entries list \<Rightarrow> entries list" where
  "relative_entries level2 d xss =
     map snd (filter (\<lambda>(b, xs). b \<in> set (bit_level_find_relative_files level2 [d])) (zip (bl_files level2) xss))"

lemma relative_entries_middle:
  assumes "bl_files level2 = A @ bit_level_find_relative_files level2 [d] @ B" and "distinct (bl_files level2)"
    and "length A = length XA" "length (bit_level_find_relative_files level2 [d]) = length Rs" "length B = length XB"
  shows "relative_entries level2 d (XA @ Rs @ XB) = Rs"
proof -
  let ?R = "bit_level_find_relative_files level2 [d]" and ?P = "\<lambda>(b, xs). b \<in> set (bit_level_find_relative_files level2 [d])"
  have dj: "set A \<inter> set ?R = {}" "set B \<inter> set ?R = {}" using assms(2) unfolding assms(1) by auto
  have z: "filter ?P (zip A XA) = []" "filter ?P (zip B XB) = []" "filter ?P (zip ?R Rs) = zip ?R Rs"
    using dj by (auto simp: filter_empty_conv intro: filter_True dest: set_zip_leftD)
  show ?thesis unfolding relative_entries_def assms(1) using assms(3-5) z by simp
qed


lemma ready_parts:
  assumes ready: "compaction_ready env level1 level2 disk d D xss"
  obtains A B XA Rs XB where
    "bl_files level2 = A @ bit_level_find_relative_files level2 [d] @ B" "xss = XA @ Rs @ XB"
    "length XA = length A" "length XB = length B"
    "relative_entries level2 d xss = Rs" "merge_input env level1 level2 disk d D (bit_level_find_relative_files level2 [d]) Rs"
    "\<forall>a \<in> set A. bf_last_key a < bf_first_key d" "\<forall>b \<in> set B. bf_last_key d < bf_first_key b"
proof -
  let ?cat = "ld_catalogue disk" and ?rels = "bit_level_find_relative_files level2 [d]"
  let ?held = "\<lambda>b xs. file_in (le_cipher env) (ld_region disk) (source_base ?cat b) b xs"
  have c: "catalogue_ok ?cat" "bc_file_size ?cat = BIT_FILE_SIZE" "bl_level level2 \<noteq> 0"
    and h: "?held d D" "list_all2 ?held (bl_files level2) xss"
    and ap: "entries_apart xss" "\<forall>xs \<in> set xss. distinct (map fst xs)"
    and slots: "\<forall>b \<in> set (d # bl_files level2). slot_used ?cat (bf_id b) \<and> bf_id b < nr_slots ?cat"
    and v: "\<forall>b \<in> set (bl_files level2). bf_version b < bf_version d \<and> bf_id b \<noteq> bf_id d"
    and di: "distinct (map bf_id (bl_files level1))" "distinct (map bf_id (bl_files level2))"
    using ready unfolding compaction_ready_def Let_def by blast+
  have ok: "list_all2 (file_ok (le_cipher env) (ld_region disk)) (bl_files level2) xss"
    by (rule list_all2_mono [OF h(2)]) (rule file_in_ok)
  have cs: "cmp_sorted (bl_files level2)" by (rule below_sorted [OF apart_below [OF ok ap(1)]])
  have wf: "level_wf (le_cipher env) (ld_region disk) level2 xss" using ok ap unfolding level_wf_def by blast
  obtain A B where AB: "bl_files level2 = A @ ?rels @ B"
    "\<forall>a \<in> set A. \<forall>g \<in> set [d]. bf_last_key a < bf_first_key g" "\<forall>b \<in> set B. \<forall>g \<in> set [d]. bf_last_key g < bf_first_key b"
    using relatives_split [OF wf c(3), of "[d]"] by blast
  from h(2) [unfolded AB(1)] obtain XA ys where X1: "xss = XA @ ys" "list_all2 ?held A XA" "list_all2 ?held (?rels @ B) ys"
    by (auto simp: list_all2_append1)
  from X1(3) obtain Rs XB where X2: "ys = Rs @ XB" "list_all2 ?held ?rels Rs" "list_all2 ?held B XB"
    by (auto simp: list_all2_append1)
  note len = list_all2_lengthD [OF X1(2)] list_all2_lengthD [OF X2(2)] list_all2_lengthD [OF X2(3)]
  have "distinct (bl_files level2)" using di(2) by (simp add: distinct_map)
  from relative_entries_middle [OF AB(1) this len] have re: "relative_entries level2 d xss = Rs"
    unfolding X1(1) X2(1) .
  have sub: "set ?rels \<subseteq> set (bl_files level2)" unfolding AB(1) by auto
  have "entries_apart Rs" "\<forall>xs \<in> set Rs. distinct (map fst xs)"
    using ap unfolding X1(1) X2(1) by (simp_all add: entries_apart_def sorted_wrt_append)
  moreover have "\<forall>b \<in> set (d # ?rels @ bl_files level2). slot_used ?cat (bf_id b) \<and> bf_id b < nr_slots ?cat"
    using slots sub by auto
  moreover have "\<forall>b \<in> set ?rels. bf_version b < bf_version d \<and> bf_id b \<noteq> bf_id d" using v sub by blast
  ultimately have "merge_input env level1 level2 disk d D ?rels Rs"
    unfolding merge_input_def Let_def using c h(1) X2(2) cs di by blast
  then show ?thesis using that [of A B XA Rs XB] AB X1(1) X2(1) len re by simp
qed

lemma merge_keys_members: "k \<in> set (merge_keys (rev Rs @ [D])) \<longleftrightarrow> k \<in> fst ` set (D @ concat Rs)"
  unfolding merge_keys_set by auto

lemma merged_between:
  assumes so: "sorted_wrt (<) (map fst (concat (XA @ Rs @ XB)))"
    and D: "\<forall>x \<in> set (concat XA). \<forall>e \<in> set D. fst x < fst e" "\<forall>e \<in> set D. \<forall>y \<in> set (concat XB). fst e < fst y"
  shows "sorted_wrt (<) (map fst (concat XA @ merged D Rm (merge_keys (rev Rs @ [D])) @ concat XB))"
proof -
  let ?a = "map fst (concat XA)" and ?r = "map fst (concat Rs)" and ?b = "map fst (concat XB)"
  let ?m = "map fst (merged D Rm (merge_keys (rev Rs @ [D])))"
  have s: "sorted_wrt (<) (?a @ ?r @ ?b)" using so by (simp only: concat_append map_append)
  have s1: "sorted_wrt (<) ?a" "sorted_wrt (<) ?b" "\<forall>x \<in> set ?a. \<forall>y \<in> set ?r. x < y"
    "\<forall>x \<in> set ?r. \<forall>y \<in> set ?b. x < y" "\<forall>x \<in> set ?a. \<forall>y \<in> set ?b. x < y"
    using s unfolding sorted_wrt_append set_append ball_Un by blast+
  have "set (merge_keys (rev Rs @ [D])) = set (map fst D) \<union> set ?r" unfolding merge_keys_set by auto
  then have "set ?m \<subseteq> set (map fst D) \<union> set ?r" using merged_keys [of D Rm "merge_keys (rev Rs @ [D])"] by blast
  moreover have "\<forall>x \<in> set ?a. \<forall>y \<in> set (map fst D). x < y" "\<forall>x \<in> set (map fst D). \<forall>y \<in> set ?b. x < y"
    using D by auto
  ultimately have "\<forall>x \<in> set ?a. \<forall>y \<in> set ?m. x < y" "\<forall>x \<in> set ?m. \<forall>y \<in> set ?b. x < y" using s1(3,4) by blast+
  moreover have "sorted_wrt (<) ?m" by (rule merged_sorted [OF merge_keys_sorted])
  ultimately show ?thesis using s1(1,2,5) by (simp only: map_append sorted_wrt_append set_append ball_Un) blast
qed

lemma kept_file_in:
  assumes "region_kept cat ids f f'" and "catalogue_ok cat" and "bc_file_size cat = BIT_FILE_SIZE"
    and "\<forall>fd \<in> ids. \<not> slot_used cat fd" and "slot_used cat (bf_id b)" and "file_in nc f (source_base cat b) b xs"
  shows "file_in nc f' (source_base cat b) b xs"
proof (rule file_in_cong [OF assms(6)])
  fix p
  assume p: "source_base cat b \<le> p" "p < source_base cat b + BIT_FILE_SIZE"
  then have "p \<in> slot_range cat (bf_id b)" using slot_pos_range [OF assms(3)] by blast
  then have "\<forall>fd \<in> ids. p \<notin> slot_range cat fd" using slots_disjoint assms(4,5) by (metis disjoint_iff)
  then show "f' p = f p" using assms(1) unfolding region_kept_def by blast
qed


lemma map_of_outside:
  fixes M :: entries
  assumes keys: "fst ` set M \<subseteq> S" "fst ` set (concat Rs) \<subseteq> S"
    and apart: "\<forall>k \<in> S. k \<notin> fst ` set (concat XA) \<and> k \<notin> fst ` set (concat XB)"
  shows "map_of (concat XA @ M @ concat XB) k = (if k \<in> S then map_of M k else map_of (concat (XA @ Rs @ XB)) k)"
    and "k \<in> S \<Longrightarrow> map_of (concat (XA @ Rs @ XB)) k = map_of (concat Rs) k"
proof -
  have none: "map_of xs k = None" if "k \<notin> fst ` set xs" for xs :: entries using that by (simp add: map_of_eq_None_iff)
  show "map_of (concat XA @ M @ concat XB) k = (if k \<in> S then map_of M k else map_of (concat (XA @ Rs @ XB)) k)"
  proof (cases "k \<in> S")
    case True
    then have "k \<notin> fst ` set (concat XA)" "k \<notin> fst ` set (concat XB)" using apart by blast+
    then have "map_of (concat XA) k = None" "map_of (concat XB) k = None" by (simp_all add: none del: set_concat)
    then show ?thesis using True by (simp add: map_add_def split: option.split)
  next
    case False
    then have "k \<notin> fst ` set M" "k \<notin> fst ` set (concat Rs)" using keys by blast+
    then have "map_of M k = None" "map_of (concat Rs) k = None" by (simp_all add: none del: set_concat)
    then show ?thesis using False by (simp add: map_add_def split: option.split)
  qed
  show "k \<in> S \<Longrightarrow> map_of (concat (XA @ Rs @ XB)) k = map_of (concat Rs) k"
  proof -
    assume "k \<in> S"
    then have "k \<notin> fst ` set (concat XA)" "k \<notin> fst ` set (concat XB)" using apart by blast+
    then have "map_of (concat XA) k = None" "map_of (concat XB) k = None" by (simp_all add: none del: set_concat)
    then show ?thesis by (simp add: map_add_def split: option.split)
  qed
qed


text \<open>What the job leaves behind, in terms of the new files and their entries.\<close>

lemma job_files:
  assumes ready: "compaction_ready env level1 level2 disk d D xss"
    and room: "merge_room level2 disk D (relative_entries level2 d xss) N"
    and nc: "node_cipher_ok (le_cipher env)" and mh: "min_heap_ok (le_heap env) Hp"
    and AB: "bl_files level2 = A @ bit_level_find_relative_files level2 [d] @ B" "xss = XA @ Rs @ XB"
      "length XA = length A" "length XB = length B"
    and w: "files_written env (ld_region disk) (ld_catalogue disk) level2 region cat lvl news chunks"
      "concat chunks = merged D Rm (merge_keys (rev Rs @ [D]))" "[] \<notin> set chunks"
    and so: "sorted_wrt (<) (map fst (concat XA @ concat chunks @ concat XB))"
  shows "filter (\<lambda>b. bf_id b \<notin> bf_id ` set (bit_level_find_relative_files level2 [d])) (bl_files lvl) = A @ news @ B"
    and "list_all2 (\<lambda>b xs. file_in (le_cipher env) region (source_base (ld_catalogue disk) b) b xs) (A @ news @ B) (XA @ chunks @ XB)"
    and "entries_apart (XA @ chunks @ XB)" "\<forall>xs \<in> set (XA @ chunks @ XB). distinct (map fst xs)"
proof -
  let ?cat = "ld_catalogue disk" and ?rels = "bit_level_find_relative_files level2 [d]"
  let ?held = "\<lambda>f b xs. file_in (le_cipher env) f (source_base ?cat b) b xs"
  have c: "catalogue_ok ?cat" "bc_file_size ?cat = BIT_FILE_SIZE"
    and h: "list_all2 (?held (ld_region disk)) (bl_files level2) xss"
    and slots: "\<forall>b \<in> set (d # bl_files level2). slot_used ?cat (bf_id b) \<and> bf_id b < nr_slots ?cat"
    and di: "distinct (map bf_id (bl_files level2))"
    using ready unfolding compaction_ready_def Let_def by blast+
  have nw: "\<forall>b \<in> set news. \<not> slot_used ?cat (bf_id b)" "list_all2 (?held region) news chunks"
    and rk: "region_kept ?cat (bf_id ` set news) (ld_region disk) region"
    using w(1) by (simp_all add: files_written_def)
  obtain fs where fs: "lvl = level2\<lparr>bl_files := fs\<rparr>" "cmp_sorted fs" "mset fs = mset (bl_files level2) + mset news"
    using w(1) unfolding files_written_def by blast
  have keep: "?held region b xs" if b: "b \<in> set (bl_files level2)" "?held (ld_region disk) b xs" for b xs
    by (rule kept_file_in [OF rk c _ _ b(2)]) (use nw(1) slots b(1) in auto)
  have hAB: "list_all2 (?held (ld_region disk)) A XA" "list_all2 (?held (ld_region disk)) B XB"
  proof -
    have l: "length ?rels = length Rs" using list_all2_lengthD [OF h] unfolding AB(1,2) using AB(3,4) by simp
    show "list_all2 (?held (ld_region disk)) A XA" "list_all2 (?held (ld_region disk)) B XB"
      using h unfolding AB(1,2) list_all2_append [OF AB(3) [symmetric]] list_all2_append [OF l] by (rule conjunct1, simp)
  qed
  have "list_all2 (?held region) A XA" "list_all2 (?held region) B XB"
    using hAB keep unfolding AB(1) by (auto elim!: list.rel_mono_strong)
  then show held: "list_all2 (?held region) (A @ news @ B) (XA @ chunks @ XB)"
    using nw(2) by (simp add: list_all2_appendI)
  have "[] \<notin> set xss"
  proof
    assume "[] \<in> set xss"
    then obtain i where "i < length xss" "xss ! i = []" by (metis in_set_conv_nth)
    then have "file_ok (le_cipher env) (ld_region disk) (bl_files level2 ! i) []"
      using file_in_ok list_all2_nthD2 [OF h] by metis
    then show False by (simp add: file_ok_def)
  qed
  then have ne: "[] \<notin> set (XA @ chunks @ XB)" using w(3) unfolding AB(2) by auto
  note ap = strict_apart [OF _ ne]
  show apart: "entries_apart (XA @ chunks @ XB)" and "\<forall>xs \<in> set (XA @ chunks @ XB). distinct (map fst xs)"
    using ap so by simp_all
  let ?F = "filter (\<lambda>b. bf_id b \<notin> bf_id ` set ?rels) fs"
  have ok: "list_all2 (file_ok (le_cipher env) region) (A @ news @ B) (XA @ chunks @ XB)"
    by (rule list_all2_mono [OF held]) (rule file_in_ok)
  have "sorted_wrt file_below (A @ news @ B)" by (rule apart_below [OF ok apart])
  moreover have "sorted_wrt (\<lambda>a b. bit_file_cmp a b \<le> 0) ?F"
    using fs(2) unfolding cmp_sorted_def by (rule sorted_wrt_filter)
  moreover have "mset (A @ news @ B) = mset ?F"
  proof -
    let ?P = "\<lambda>b. bf_id b \<notin> bf_id ` set ?rels"
    have "\<forall>b \<in> set (A @ B). ?P b" using di unfolding AB(1) by auto
    moreover have "\<forall>b \<in> set news. ?P b" using nw(1) slots unfolding AB(1) by fastforce
    moreover have "filter ?P ?rels = []" by (auto simp: filter_empty_conv)
    moreover have "mset ?F = mset (filter ?P (bl_files level2)) + mset (filter ?P news)"
      using fs(3) by (metis filter_union_mset mset_filter)
    ultimately show ?thesis unfolding AB(1) by (simp add: filter_True)
  qed
  ultimately have "A @ news @ B = ?F"
    by (rule sorted_unique) (use file_below_cmp cmp_flip in \<open>meson not_le\<close>)
  then show "filter (\<lambda>b. bf_id b \<notin> bf_id ` set ?rels) (bl_files lvl) = A @ news @ B" unfolding fs(1) by simp
qed


lemma demoted_apart:
  assumes ready: "compaction_ready env level1 level2 disk d D xss"
    and AB: "bl_files level2 = A @ rels @ B" "xss = XA @ Rs @ XB" "length XA = length A" "length XB = length B"
    and below: "\<forall>a \<in> set A. bf_last_key a < bf_first_key d" and above: "\<forall>b \<in> set B. bf_last_key d < bf_first_key b"
  shows "\<forall>x \<in> set (concat XA). \<forall>e \<in> set D. fst x < fst e" and "\<forall>e \<in> set D. \<forall>y \<in> set (concat XB). fst e < fst y"
proof -
  let ?ok = "\<lambda>b xs. file_ok (le_cipher env) (ld_region disk) b xs"
  have d: "?ok d D" and h: "list_all2 (\<lambda>b xs. file_in (le_cipher env) (ld_region disk) (source_base (ld_catalogue disk) b) b xs) (bl_files level2) xss"
    using ready file_in_ok unfolding compaction_ready_def Let_def by blast+
  have ok: "list_all2 ?ok (A @ rels @ B) (XA @ Rs @ XB)"
    using list_all2_mono [OF h file_in_ok] unfolding AB(1,2) .
  have len: "length rels = length Rs" using list_all2_lengthD [OF ok] AB(3,4) by simp
  have AX: "list_all2 ?ok A XA" "list_all2 ?ok B XB"
    using ok unfolding list_all2_append [OF AB(3) [symmetric]] list_all2_append [OF len] by (rule conjunct1, simp)
  have rng: "bf_first_key b \<le> fst e \<and> fst e \<le> bf_last_key b" if "?ok b xs" "e \<in> set xs" for b xs e
    using file_ok_range [OF that(1), of "fst e"] that(2) by (force simp: map_of_eq_None_iff)
  have member: "\<exists>b \<in> set bs. bf_first_key b \<le> fst x \<and> fst x \<le> bf_last_key b" if m: "list_all2 ?ok bs ys" "x \<in> set (concat ys)" for bs ys x
  proof -
    obtain j where j: "j < length ys" "x \<in> set (ys ! j)" using m(2) by (rule in_concat_nth)
    then show ?thesis using rng [OF list_all2_nthD2 [OF m(1) j(1)] j(2)] list_all2_lengthD [OF m(1)]
      by (metis nth_mem)
  qed
  show "\<forall>x \<in> set (concat XA). \<forall>e \<in> set D. fst x < fst e"
    using member [OF AX(1)] rng [OF d] below by (meson le_less_trans less_le_trans)
  show "\<forall>e \<in> set D. \<forall>y \<in> set (concat XB). fst e < fst y"
    using member [OF AX(2)] rng [OF d] above by (meson le_less_trans less_le_trans)
qed

lemma keys_outside:
  fixes D :: entries
  assumes so: "sorted_wrt (<) (map fst (concat (XA @ Rs @ XB)))"
    and D: "\<forall>x \<in> set (concat XA). \<forall>e \<in> set D. fst x < fst e" "\<forall>e \<in> set D. \<forall>y \<in> set (concat XB). fst e < fst y"
  shows "\<forall>k \<in> fst ` set (D @ concat Rs). k \<notin> fst ` set (concat XA) \<and> k \<notin> fst ` set (concat XB)"
proof -
  have "sorted_wrt (<) (map fst (concat XA) @ map fst (concat Rs) @ map fst (concat XB))"
    using so by (simp only: concat_append map_append)
  then have "\<forall>x \<in> set (concat XA). \<forall>y \<in> set (concat Rs). fst x < fst y"
    "\<forall>x \<in> set (concat Rs). \<forall>y \<in> set (concat XB). fst x < fst y"
    unfolding sorted_wrt_append set_append ball_Un set_map by blast+
  then have lt: "\<forall>x \<in> set (concat XA). \<forall>y \<in> set (D @ concat Rs). fst x < fst y"
    "\<forall>y \<in> set (D @ concat Rs). \<forall>x \<in> set (concat XB). fst y < fst x" using D unfolding set_append by blast+
  have "fst e \<notin> fst ` set (concat XA) \<and> fst e \<notin> fst ` set (concat XB)" if e: "e \<in> set (D @ concat Rs)" for e
  proof (intro conjI notI)
    assume "fst e \<in> fst ` set (concat XA)"
    then obtain x where "x \<in> set (concat XA)" "fst e = fst x" by blast
    then show False using lt(1) e by (metis less_irrefl)
  next
    assume "fst e \<in> fst ` set (concat XB)"
    then obtain x where "x \<in> set (concat XB)" "fst e = fst x" by blast
    then show False using lt(2) e by (metis less_irrefl)
  qed
  then show ?thesis by (intro ballI, elim imageE) (simp only:)
qed

section \<open>Properties\<close>

text \<open>
  C6. The compaction job ends and merges the demoted file into the next level.  A search of that level
  then gives, for every block of the files that took part, the newest record: the one of the demoted
  file if it has one, a tombstone of the demoted file removes the block unless a record stands beside
  it, and blocks of other files are found as before.  The physical blocks given up are those of the
  replaced records and no others.  The demoted file has left its level; the slots of the merged files
  are free again and those of the new files in use.  (Enough free slots and room in the level, a
  demoted file newer than the files of the next level, and a last block that is not removed.)
\<close>

theorem compaction_job_merges:
  assumes "compaction_ready env level1 level2 disk d D xss" and "relative_entries level2 d xss = Rs"
    and "merge_room level2 disk D Rs N" and "node_cipher_ok (le_cipher env)" and "min_heap_ok (le_heap env) Hp"
  shows "\<exists>level2' disk'. compaction_job_run env level1 level2 disk =
      Some (level1\<lparr>bl_files := filter (\<lambda>b. bf_id b \<noteq> bf_id d) (bl_files level1)\<rparr>, level2', disk') \<and>
    (\<forall>k. \<exists>l. bit_level_search (le_cipher env) (ld_region disk') level2' k =
      Some (found (if k \<in> fst ` set (D @ concat Rs) then merge_keep (group D k) (map_of (concat xss) k)
                   else map_of (concat xss) k), l)) \<and>
    give_up_all (ld_rit disk, ld_dst disk) (released D (map_of (concat Rs)) (merge_keys (rev Rs @ [D]))) =
      Some (ld_rit disk', ld_dst disk') \<and>
    (\<forall>fd. slot_used (ld_catalogue disk') fd \<longleftrightarrow>
       slot_used (ld_catalogue disk) fd \<and> fd \<notin> bf_id ` set (d # bit_level_find_relative_files level2 [d]) \<or>
       fd \<in> bf_id ` (set (bl_files level2') - set (bl_files level2)))"
proof -
  let ?cat = "ld_catalogue disk" and ?rels = "bit_level_find_relative_files level2 [d]" and ?nc = "le_cipher env"
  let ?Rm = "map_of (concat Rs)" and ?K = "merge_keys (rev Rs @ [D])" and ?S = "fst ` set (D @ concat Rs)"
  obtain A B XA XB where AB: "bl_files level2 = A @ ?rels @ B" "xss = XA @ Rs @ XB" "length XA = length A" "length XB = length B"
    and inp: "merge_input env level1 level2 disk d D ?rels Rs"
    and sep: "\<forall>a \<in> set A. bf_last_key a < bf_first_key d" "\<forall>b \<in> set B. bf_last_key d < bf_first_key b"
    using ready_parts [OF assms(1)] unfolding assms(2) by metis
  have pick: "snd (bit_level_pick_demoted_files level1) = [d]" "?rels \<noteq> []" "bl_level level2 \<noteq> 0"
    and ap: "entries_apart xss" "\<forall>xs \<in> set xss. distinct (map fst xs)"
    and h: "list_all2 (\<lambda>b xs. file_in ?nc (ld_region disk) (source_base ?cat b) b xs) (bl_files level2) xss"
    and used: "\<forall>b \<in> set (d # bl_files level2). slot_used ?cat (bf_id b) \<and> bf_id b < nr_slots ?cat"
    using assms(1) unfolding compaction_ready_def Let_def by blast+
  obtain news chunks region cat lvl cat' r where run: "compaction_merge env level1 level2 disk [d] ?rels =
      Some (level1\<lparr>bl_files := filter (\<lambda>b. bf_id b \<noteq> bf_id d) (bl_files level1)\<rparr>,
        lvl\<lparr>bl_files := filter (\<lambda>b. bf_id b \<notin> bf_id ` set ?rels) (bl_files lvl)\<rparr>,
        disk\<lparr>ld_region := region, ld_catalogue := cat', ld_rit := fst r, ld_dst := snd r\<rparr>)"
    and w: "files_written env (ld_region disk) ?cat level2 region cat lvl news chunks"
      "concat chunks = merged D ?Rm ?K" "[] \<notin> set chunks"
    and used': "sv_valid (bc_bit_validity_table cat') =
      (\<lambda>fd. (slot_used ?cat fd \<or> fd \<in> bf_id ` set news) \<and> fd \<notin> bf_id ` set (d # ?rels))"
    and give: "give_up_all (ld_rit disk, ld_dst disk) (released D ?Rm ?K) = Some r"
    using compaction_merge_ok [OF inp assms(3-5)] by (elim exE conjE) (rule that)
  have srt: "\<forall>xs \<in> set xss. sorted_wrt (\<le>) (map fst xs) \<and> distinct (map fst xs)"
  proof
    fix xs
    assume x: "xs \<in> set xss"
    then obtain i where "i < length xss" "xs = xss ! i" by (metis in_set_conv_nth)
    then have "file_ok ?nc (ld_region disk) (bl_files level2 ! i) xs" using file_in_ok list_all2_nthD2 [OF h] by metis
    then show "sorted_wrt (\<le>) (map fst xs) \<and> distinct (map fst xs)" using ap(2) x unfolding file_ok_def by blast
  qed
  note so = apart_strict [OF ap(1) srt]
  note dem = demoted_apart [OF assms(1) AB sep]
  have so': "sorted_wrt (<) (map fst (concat XA @ concat chunks @ concat XB))"
    unfolding w(2) by (rule merged_between [OF so [unfolded AB(2)] dem])
  note J = job_files [OF assms(1) assms(3) [folded assms(2)] assms(4,5) AB w so']
  let ?level2 = "lvl\<lparr>bl_files := filter (\<lambda>b. bf_id b \<notin> bf_id ` set ?rels) (bl_files lvl)\<rparr>"
  let ?disk = "disk\<lparr>ld_region := region, ld_catalogue := cat', ld_rit := fst r, ld_dst := snd r\<rparr>"
  have lv: "bl_level ?level2 \<noteq> 0" using w(1) pick(3) unfolding files_written_def by auto
  have wf: "level_wf ?nc region ?level2 (XA @ chunks @ XB)"
    using list_all2_mono [OF J(2) file_in_ok] J(1,3,4) unfolding level_wf_def by simp
  have keys: "fst ` set (concat chunks) \<subseteq> ?S" "fst ` set (concat Rs) \<subseteq> ?S"
    using merged_keys [of D ?Rm ?K] merge_keys_members unfolding w(2) by auto
  note M = map_of_outside [OF keys keys_outside [OF so [unfolded AB(2)] dem]]
  have "\<exists>l. bit_level_search ?nc (ld_region ?disk) ?level2 k =
      Some (found (if k \<in> ?S then merge_keep (group D k) (map_of (concat xss) k) else map_of (concat xss) k), l)" for k
  proof -
    have "map_of (concat (XA @ chunks @ XB)) k = (if k \<in> ?S then merge_keep (group D k) (map_of (concat xss) k) else map_of (concat xss) k)"
      using M [of k] map_of_merged [of D ?Rm ?K k] unfolding concat_append w(2) AB(2) merge_keys_members by simp
    moreover obtain l where "bit_level_search ?nc region ?level2 k = Some (lookup_result (concat (XA @ chunks @ XB)) k, l)"
      using level_search_ok [OF wf lv, of k] by blast
    moreover have "ld_region ?disk = region" by simp
    ultimately show ?thesis unfolding lookup_found by auto
  qed
  moreover have "compaction_job_run env level1 level2 disk =
      Some (level1\<lparr>bl_files := filter (\<lambda>b. bf_id b \<noteq> bf_id d) (bl_files level1)\<rparr>, ?level2, ?disk)"
    using run pick by (simp add: compaction_job_run_def Let_def)
  moreover have "slot_used (ld_catalogue ?disk) fd \<longleftrightarrow> slot_used ?cat fd \<and> fd \<notin> bf_id ` set (d # ?rels) \<or>
       fd \<in> bf_id ` (set (bl_files ?level2) - set (bl_files level2))" for fd
  proof -
    have nw: "\<forall>b \<in> set news. \<not> slot_used ?cat (bf_id b)" using w(1) by (simp add: files_written_def)
    then have "set news \<inter> set (d # bl_files level2) = {}" using used by blast
    then have "set (bl_files ?level2) - set (bl_files level2) = set news" using J(1) unfolding AB(1) by auto
    moreover have "\<forall>b \<in> set (d # ?rels). slot_used ?cat (bf_id b)" using used unfolding AB(1) by auto
    ultimately show ?thesis using nw used' by auto
  qed
  ultimately show ?thesis using give
    by (intro exI [of _ ?level2] exI [of _ ?disk]) (simp del: set_append concat_append)
qed


lemma build_ids:
  "bit_build nc b xs = Some b' \<Longrightarrow> bb_id b' = bb_id b \<and> bb_level b' = bb_level b \<and> bb_version b' = bb_version b"
proof (induction xs arbitrary: b)
  case (Cons x xs)
  then show ?case using add_entry_ids by (fastforce split: option.splits)
qed simp

text \<open>A file of given entries in a slot of the small catalogue.\<close>

definition demo_built :: "(nat \<Rightarrow> bit_node) \<Rightarrow> nat \<Rightarrow> nat \<Rightarrow> nat \<Rightarrow> entries \<Rightarrow> bit_file \<times> (nat \<Rightarrow> bit_node)" where
  "demo_built f fd level ver xs =
     (case bit_build plain_cipher (bit_builder_init (\<lambda>_. Inner_Node []) [] f (slot_pos demo_catalogue fd) fd level ver) xs of
        Some b \<Rightarrow> bit_builder_complete plain_cipher b | None \<Rightarrow> (sample_file, f))"

lemma demo_built_ok:
  assumes "xs \<noteq> []" "sorted_wrt (\<le>) (map fst xs)" "length xs \<le> DEFAULT_LSM_FILE_CAPACITY"
  shows "file_in plain_cipher (snd (demo_built f fd level ver xs)) (slot_pos demo_catalogue fd) (fst (demo_built f fd level ver xs)) xs"
    and "bf_id (fst (demo_built f fd level ver xs)) = fd" and "bf_version (fst (demo_built f fd level ver xs)) = ver"
    and "p < slot_pos demo_catalogue fd \<or> slot_pos demo_catalogue fd + BIT_FILE_SIZE \<le> p \<Longrightarrow>
      snd (demo_built f fd level ver xs) p = f p"
proof -
  obtain b bf f' where b: "bit_build plain_cipher (bit_builder_init (\<lambda>_. Inner_Node []) [] f (slot_pos demo_catalogue fd) fd level ver) xs = Some b"
    "bit_builder_complete plain_cipher b = (bf, f')" "file_in plain_cipher f' (slot_pos demo_catalogue fd) bf xs"
    "\<forall>p. p < slot_pos demo_catalogue fd \<or> slot_pos demo_catalogue fd + BIT_FILE_SIZE \<le> p \<longrightarrow> f' p = f p"
    by (rule build_complete [OF plain_cipher_ok assms])
  have "bb_id b = fd" "bb_version b = ver" using build_ids [OF b(1)] by (simp_all add: bit_builder_init_def Let_def)
  then show "file_in plain_cipher (snd (demo_built f fd level ver xs)) (slot_pos demo_catalogue fd) (fst (demo_built f fd level ver xs)) xs"
    "bf_id (fst (demo_built f fd level ver xs)) = fd" "bf_version (fst (demo_built f fd level ver xs)) = ver"
    "p < slot_pos demo_catalogue fd \<or> slot_pos demo_catalogue fd + BIT_FILE_SIZE \<le> p \<Longrightarrow>
      snd (demo_built f fd level ver xs) p = f p"
    using b complete_ids [OF b(2)] by (auto simp: demo_built_def)
qed


abbreviation demo_old :: entries where "demo_old \<equiv> [(3, demo_record 10), (7, demo_record 11)]"
abbreviation demo_new :: entries where "demo_new \<equiv> [(3, demo_record 12), (5, demo_record 13)]"

definition demo_lower :: "bit_file \<times> (nat \<Rightarrow> bit_node)" where
  "demo_lower = demo_built (\<lambda>_. Inner_Node []) 2 1 1 demo_old"

definition demo_upper :: "bit_file \<times> (nat \<Rightarrow> bit_node)" where
  "demo_upper = demo_built (snd demo_lower) 1 0 2 demo_new"

lemma demo_upper_in:
  "file_in plain_cipher (snd demo_upper) (slot_pos demo_catalogue 1) (fst demo_upper) demo_new"
  "bf_id (fst demo_upper) = 1" "bf_version (fst demo_upper) = 2" "bf_first_key (fst demo_upper) = 3" "bf_last_key (fst demo_upper) = 5"
proof -
  have d: "demo_new \<noteq> []" "sorted_wrt (\<le>) (map fst demo_new)" "length demo_new \<le> DEFAULT_LSM_FILE_CAPACITY"
    by (simp_all add: layout_consts)
  note B = demo_built_ok [OF d, where f = "snd demo_lower" and fd = 1 and level = 0 and ver = 2, folded demo_upper_def]
  show "file_in plain_cipher (snd demo_upper) (slot_pos demo_catalogue 1) (fst demo_upper) demo_new"
    "bf_id (fst demo_upper) = 1" "bf_version (fst demo_upper) = 2" by (rule B)+
  show "bf_first_key (fst demo_upper) = 3" "bf_last_key (fst demo_upper) = 5"
    using file_ok_keys [OF file_in_ok [OF B(1)]] by simp_all
qed

lemma demo_lower_in:
  "file_in plain_cipher (snd demo_upper) (slot_pos demo_catalogue 2) (fst demo_lower) demo_old"
  "bf_id (fst demo_lower) = 2" "bf_version (fst demo_lower) = 1" "bf_first_key (fst demo_lower) = 3" "bf_last_key (fst demo_lower) = 7"
proof -
  have d: "demo_old \<noteq> []" "sorted_wrt (\<le>) (map fst demo_old)" "length demo_old \<le> DEFAULT_LSM_FILE_CAPACITY"
    "demo_new \<noteq> []" "sorted_wrt (\<le>) (map fst demo_new)" "length demo_new \<le> DEFAULT_LSM_FILE_CAPACITY"
    by (simp_all add: layout_consts)
  note B = demo_built_ok [OF d(1-3), where f = "\<lambda>_. Inner_Node []" and fd = 2 and level = 1 and ver = 1, folded demo_lower_def]
  show "bf_id (fst demo_lower) = 2" "bf_version (fst demo_lower) = 1" by (rule B)+
  show in2: "file_in plain_cipher (snd demo_upper) (slot_pos demo_catalogue 2) (fst demo_lower) demo_old"
  proof (rule file_in_cong [OF B(1)])
    fix p
    assume "slot_pos demo_catalogue 2 \<le> p" "p < slot_pos demo_catalogue 2 + BIT_FILE_SIZE"
    then show "snd demo_upper p = snd demo_lower p"
      unfolding demo_upper_def by (intro demo_built_ok(4) [OF d(4-6)]) (simp add: demo_catalogue_def)
  qed
  show "bf_first_key (fst demo_lower) = 3" "bf_last_key (fst demo_lower) = 7"
    using file_ok_keys [OF file_in_ok [OF in2]] by simp_all
qed

abbreviation demo_level0 :: bit_level where "demo_level0 \<equiv> (bit_level_init 0 1)\<lparr>bl_files := [fst demo_upper]\<rparr>"
abbreviation demo_level1 :: bit_level where "demo_level1 \<equiv> (bit_level_init 1 10)\<lparr>bl_files := [fst demo_lower]\<rparr>"

lemma demo_relatives: "bit_level_find_relative_files demo_level1 [fst demo_upper] = [fst demo_lower]"
  using demo_upper_in(4,5) demo_lower_in(4,5)
  by (simp add: bit_level_find_relative_files_def bit_level_get_first_key_def bit_level_get_last_key_def
      bit_level_lower_bound_def bit_level_lower_loop.simps)

lemma demo_ready: "compaction_ready demo_env demo_level0 demo_level1 (demo_disk (snd demo_upper)) (fst demo_upper) demo_new [demo_old]"
  unfolding compaction_ready_def Let_def
  using demo_relatives demo_upper_in demo_lower_in demo_catalogue_ok demo_catalogue_used
  by (simp add: demo_env_def demo_disk_def bit_level_pick_demoted_files_def bit_level_init_def entries_apart_def)
    (simp add: demo_catalogue_def)


lemma demo_room: "merge_room demo_level1 (demo_disk (snd demo_upper)) demo_new [demo_old] 1"
proof -
  let ?K = "merge_keys (rev [demo_old] @ [demo_new])" and ?cat = "ld_catalogue (demo_disk (snd demo_upper))"
  have "{5, 3, 7} - {3} = {5, 7 :: nat}" by auto
  then have K: "?K = [3, 5, 7]" by (simp add: merge_keys_def)
  have "0 \<in> {fd. fd < nr_slots ?cat \<and> \<not> slot_used ?cat fd}" using demo_catalogue_used by (simp add: demo_disk_def)
  then have "1 \<le> card {fd. fd < nr_slots ?cat \<and> \<not> slot_used ?cat fd}" by (simp add: Suc_le_eq card_gt_0_iff) blast
  then show ?thesis unfolding merge_room_def Let_def K
    by (simp add: merged_def merge_keep_def group_def negative_record_def demo_record_def INF_ADDR_def consts_simps layout_consts
        demo_disk_def bit_level_init_def)
qed

theorem compaction_job_merges_witness:
  "\<exists>level2' disk' l3 l5 l7 l9. compaction_job_run demo_env demo_level0 demo_level1 (demo_disk (snd demo_upper)) =
      Some (bit_level_init 0 1, level2', disk') \<and>
    bit_level_search plain_cipher (ld_region disk') level2' 3 = Some (Inr (demo_record 12), l3) \<and>
    bit_level_search plain_cipher (ld_region disk') level2' 5 = Some (Inr (demo_record 13), l5) \<and>
    bit_level_search plain_cipher (ld_region disk') level2' 7 = Some (Inr (demo_record 11), l7) \<and>
    bit_level_search plain_cipher (ld_region disk') level2' 9 = Some (Inl ENODATA, l9)"
proof -
  have re: "relative_entries demo_level1 (fst demo_upper) [demo_old] = [demo_old]"
    unfolding relative_entries_def demo_relatives by simp
  have nc: "node_cipher_ok (le_cipher demo_env)" "min_heap_ok (le_heap demo_env) (\<lambda>h. sorted (map kn_key h))"
    using plain_cipher_ok list_heap_ok by (simp_all add: demo_env_def)
  from compaction_job_merges [OF demo_ready re demo_room nc] obtain level2' disk' where
    run: "compaction_job_run demo_env demo_level0 demo_level1 (demo_disk (snd demo_upper)) =
      Some (demo_level0\<lparr>bl_files := filter (\<lambda>b. bf_id b \<noteq> bf_id (fst demo_upper)) (bl_files demo_level0)\<rparr>, level2', disk')"
    and look: "\<And>k. \<exists>l. bit_level_search (le_cipher demo_env) (ld_region disk') level2' k =
      Some (found (if k \<in> fst ` set (demo_new @ concat [demo_old])
                   then merge_keep (group demo_new k) (map_of (concat [demo_old]) k) else map_of (concat [demo_old]) k), l)"
    by blast
  have "demo_level0\<lparr>bl_files := filter (\<lambda>b. bf_id b \<noteq> bf_id (fst demo_upper)) (bl_files demo_level0)\<rparr> = bit_level_init 0 1"
    by (simp add: bit_level_init_def)
  then show ?thesis using run look [of 3] look [of 5] look [of 7] look [of 9]
    by (simp add: demo_env_def merge_keep_def group_def negative_record_def demo_record_def INF_ADDR_def)
qed

end
