(* ===== verification/Lookup_Caches.thy ===== *)
theory Lookup_Caches
  imports Lsm_Tree
begin

text \<open>
  Lookups change leaf caches only: whatever a search or range search of a file, a level or the whole
  tree answers, the files afterwards differ from those before in nothing but their cached leaves, so
  that what is known of a file's slot stays true.
\<close>

definition same_file :: "bit_file \<Rightarrow> bit_file \<Rightarrow> bool" where
  "same_file b b' \<longleftrightarrow> (\<exists>c. b' = b\<lparr>bf_cached_leaf := c\<rparr>)"

lemma same_file_refl [simp]: "same_file b b"
  unfolding same_file_def by (rule exI [of _ "bf_cached_leaf b"]) simp

lemma same_file_trans: "same_file a b \<Longrightarrow> same_file b c \<Longrightarrow> same_file a c"
  by (auto simp: same_file_def)

lemma same_file_cache [simp]: "same_file b (b\<lparr>bf_cached_leaf := c\<rparr>)"
  by (auto simp: same_file_def)

lemma cached_leaf_same: "bit_file_search_cached_leaf b k = Some (r, b') \<Longrightarrow> same_file b b'"
  by (auto simp: bit_file_search_cached_leaf_def split: option.splits sum.splits prod.splits)

lemma file_search_same: "bit_file_search nc f b k = Some (r, b') \<Longrightarrow> same_file b b'"
  by (auto simp: bit_file_search_def split: option.splits sum.splits prod.splits
      dest!: cached_leaf_same intro: same_file_trans)

lemma range_key_same: "bit_file_range_key nc f start k (b, m, F) = Some (b', m', F') \<Longrightarrow> same_file b b'"
  by (auto simp: bit_file_range_key_def Let_def split: option.splits sum.splits prod.splits if_splits
      dest!: cached_leaf_same intro: same_file_trans)

lemma range_loop_same:
  "bit_file_range_loop nc f start e key (b, m, F) = Some (b', m', F') \<Longrightarrow> same_file b b'"
proof (induction nc f start e key "(b, m, F)" arbitrary: b m F rule: bit_file_range_loop.induct)
  case (1 nc f start e key b m F)
  show ?case
  proof (cases "key \<le> e")
    case False
    then show ?thesis using 1(2) by (simp add: bit_file_range_loop.simps [of nc f start e key])
  next
    case True
    define key' where "key' = (if key < bf_first_key b then bf_first_key b else key)"
    from 1(2) True obtain b1 m1 F1 where st: "bit_file_range_key nc f start key' (b, m, F) = Some (b1, m1, F1)"
      and rest: "bit_file_range_loop nc f start e (key' + 1) (b1, m1, F1) = Some (b', m', F')" "key' \<noteq> 2 ^ 32 - 1"
      unfolding bit_file_range_loop.simps [of nc f start e key] by (auto simp: key'_def Let_def split: option.splits if_splits)
    have "same_file b1 b'" using 1(1) [OF True _ st rest(2,1)] by (simp add: key'_def)
    then show ?thesis using range_key_same [OF st] same_file_trans by blast
  qed
qed

lemma range_search_same: "bit_file_range_search nc f b start e m F = Some (b', m', F') \<Longrightarrow> same_file b b'"
  by (auto simp: bit_file_range_search_def split: if_splits dest: range_loop_same)

section \<open>Levels\<close>

definition same_level :: "bit_level \<Rightarrow> bit_level \<Rightarrow> bool" where
  "same_level l l' \<longleftrightarrow> (\<exists>files. l' = l\<lparr>bl_files := files\<rparr> \<and> list_all2 same_file (bl_files l) files)"

lemma same_level_refl [simp]: "same_level l l"
  unfolding same_level_def by (rule exI [of _ "bl_files l"]) (simp add: list_all2_refl)

lemma same_level_trans: "same_level a b \<Longrightarrow> same_level b c \<Longrightarrow> same_level a c"
proof -
  assume "same_level a b" "same_level b c"
  then obtain fs gs where *: "b = a\<lparr>bl_files := fs\<rparr>" "list_all2 same_file (bl_files a) fs"
    "c = b\<lparr>bl_files := gs\<rparr>" "list_all2 same_file (bl_files b) gs" unfolding same_level_def by blast
  have "list_all2 same_file (bl_files a) gs"
    by (rule list_all2_trans [OF same_file_trans *(2)]) (use * in simp_all)
  then show ?thesis unfolding same_level_def using * by (intro exI [of _ gs]) simp
qed

lemma same_levels_refl [simp]: "list_all2 same_level ls ls" "list_all2 same_file bs bs"
  by (simp_all add: list_all2_refl)

lemma same_level_update:
  assumes "same_file (bl_files l ! i) b"
  shows "same_level l (l\<lparr>bl_files := (bl_files l)[i := b]\<rparr>)"
proof -
  have "same_file (bl_files l ! j) ((bl_files l)[i := b] ! j)" if "j < length (bl_files l)" for j
    using assms that by (cases "i = j") simp_all
  then have "list_all2 same_file (bl_files l) ((bl_files l)[i := b])" by (simp add: list_all2_conv_all_nth)
  then show ?thesis unfolding same_level_def by blast
qed

lemma linear_loop_same:
  "bit_level_linear_loop nc f bs k cur val = Some (r, bs') \<Longrightarrow> list_all2 same_file bs bs'"
proof (induction bs arbitrary: cur val r bs')
  case (Cons b bs)
  show ?case
  proof (cases "bf_version b < cur \<or> k < bf_first_key b \<or> k > bf_last_key b")
    case True
    then show ?thesis using Cons by auto
  next
    case False
    then obtain q b' where q: "bit_file_search nc f b k = Some (q, b')" using Cons.prems by (auto split: option.splits)
    note s = file_search_same [OF q]
    show ?thesis using Cons False by (cases q) (auto simp: q s)
  qed
qed simp

lemma level_search_same:
  assumes "bit_level_search nc f l k = Some (r, l')"
  shows "same_level l l'"
proof (cases "bl_level l = 0")
  case True
  then obtain v files where "bit_level_linear_loop nc f (bl_files l) k 0 None = Some (v, files)" "l' = l\<lparr>bl_files := files\<rparr>"
    using assms by (auto simp: bit_level_search_def bit_level_linear_search_def)
  then show ?thesis using linear_loop_same unfolding same_level_def by blast
next
  case False
  then show ?thesis using assms file_search_same same_level_update
    by (auto simp: bit_level_search_def split: option.splits) blast
qed

lemma level_range_loop_same:
  "bit_level_range_loop nc f start e key (l, m, F) = Some (l', m', F') \<Longrightarrow> same_level l l'"
proof (induction "Suc e - key" arbitrary: key l m F rule: less_induct)
  case less
  show ?case
  proof (cases "key \<le> e")
    case False
    then show ?thesis using less(2) by (simp add: bit_level_range_loop.simps [of nc f start e key])
  next
    case True
    let ?st = "if key - start \<in> F then Some (l, m, F)
      else case bit_level_locate_file_pointer l key of
             None \<Rightarrow> Some (l, m, F)
           | Some i \<Rightarrow>
               map_option (\<lambda>(b, results', found'). (l\<lparr>bl_files := (bl_files l)[i := b]\<rparr>, results', found'))
                 (bit_file_range_search nc f (bl_files l ! i) start e m F)"
    from less(2) True obtain l1 m1 F1 where st: "?st = Some (l1, m1, F1)"
      and rest: "bit_level_range_loop nc f start e (key + 1) (l1, m1, F1) = Some (l', m', F')"
      unfolding bit_level_range_loop.simps [of nc f start e key] by (cases ?st) (auto split: if_splits)
    have "same_level l l1"
    proof (cases "key - start \<in> F \<or> bit_level_locate_file_pointer l key = None")
      case True
      then show ?thesis using st by (auto split: if_splits)
    next
      case False
      then obtain i b where "bit_file_range_search nc f (bl_files l ! i) start e m F = Some (b, m1, F1)"
        "l1 = l\<lparr>bl_files := (bl_files l)[i := b]\<rparr>" using st by auto
      then show ?thesis using same_level_update [OF range_search_same] by blast
    qed
    moreover have "same_level l1 l'" by (rule less(1) [OF _ rest]) (use True in simp)
    ultimately show ?thesis by (rule same_level_trans)
  qed
qed

lemma level_range_search_same:
  assumes "bit_level_range_search nc f l start e m F = Some (l', m', F')"
  shows "same_level l l'"
  using assms
  by (auto simp: bit_level_range_search_def split: if_splits dest: level_range_loop_same
      intro!: same_level_update range_search_same)

section \<open>The tree\<close>

lemma search_levels_same:
  "lsm_tree_search_levels env f ls k = Some (r, ls') \<Longrightarrow> list_all2 same_level ls ls'"
proof (induction ls arbitrary: r ls')
  case (Cons l ls)
  then obtain q l' where q: "bit_level_search (le_cipher env) f l k = Some (q, l')" by (auto split: option.splits)
  note s = level_search_same [OF q]
  from Cons show ?case by (cases q) (auto simp: q s)
qed simp

lemma range_levels_same:
  "lsm_range_levels env f start e ls (m, F) = Some (m', ls') \<Longrightarrow> list_all2 same_level ls ls'"
proof (induction ls arbitrary: m F ls')
  case (Cons l ls)
  then obtain l1 m1 F1 where q: "bit_level_range_search (le_cipher env) f l start e m F = Some (l1, m1, F1)"
    by (auto split: option.splits)
  note s = level_range_search_same [OF q]
  from Cons show ?case by (cases "mt_size m1 = of_nat (e - start + 1)") (auto simp: q s)
qed simp

end
