(* ===== verification/Lsm_Reopen.thy ===== *)
theory Lsm_Reopen
  imports Compaction_Run Lookup_Caches Lsm_Put
begin

text \<open>
  Closing an LSM tree and opening it again.  Closing writes the memtable as an index file of level 0 and
  enters it in the catalogue; opening makes the levels from the catalogue.  A tree that has not been
  compacted yet holds the same records afterwards.
\<close>

section \<open>The file of a memtable\<close>

lemma concat_map_single: "(\<And>x. x \<in> set xs \<Longrightarrow> f x = [g x]) \<Longrightarrow> concat (map f xs) = map g xs"
  by (induction xs) auto

lemma file_entries_records:
  assumes "no_tombstones m" and "memtable_inv m"
  shows "memtable_file_entries m = map (\<lambda>e. (me_key e, the (me_val e))) (inorder (mt_root m))"
proof -
  have "(case me_val e of Some v \<Rightarrow> [(me_key e, v)] | None \<Rightarrow> []) @ (case me_negative_val e of Some v \<Rightarrow> [(me_key e, v)] | None \<Rightarrow> []) =
      [(me_key e, the (me_val e))]" if "e \<in> set (inorder (mt_root m))" for e
    using assms that by (auto simp: no_tombstones_def memtable_inv_def entry_ok_def)
  then show ?thesis unfolding memtable_file_entries_def rbtree_memtable_get_all_entry_def by (rule concat_map_single)
qed

lemma file_entries_map:
  assumes "no_tombstones m" and "memtable_inv m"
  shows "sorted_wrt (<) (map fst (memtable_file_entries m))" and "map_of (memtable_file_entries m) = memtable_map m"
    and "\<forall>x \<in> set (memtable_file_entries m). key_ok (fst x)" and "mt_size m = of_nat (length (memtable_file_entries m))"
proof -
  note r = file_entries_records [OF assms]
  let ?t = "mt_root m"
  have b: "bst_on me_key ?t" and ok: "\<forall>e \<in> set_tree ?t. entry_ok e" using assms(2) by (simp_all add: memtable_inv_def)
  have s: "sorted_wrt (<) (map me_key (inorder ?t))" using b by (simp add: bst_on_def)
  show srt: "sorted_wrt (<) (map fst (memtable_file_entries m))" using s by (simp add: r o_def)
  show "\<forall>x \<in> set (memtable_file_entries m). key_ok (fst x)" using ok by (auto simp: r entry_ok_def)
  have w: "entry_weight e = 1" if "e \<in> set_tree ?t" for e
    using that assms(1) ok by (auto simp: entry_weight_def no_tombstones_def entry_ok_def)
  have "sum_list (map entry_weight es) = of_nat (length es)" if "\<forall>e \<in> set es. entry_weight e = 1" for es
    using that by (induction es) simp_all
  then show "mt_size m = of_nat (length (memtable_file_entries m))"
    using assms(2) w by (simp add: memtable_inv_def r)
  have d: "distinct (map fst (memtable_file_entries m))" using srt by (simp add: strict_sorted_iff)
  show "map_of (memtable_file_entries m) = memtable_map m"
  proof
    fix k
    show "map_of (memtable_file_entries m) k = memtable_map m k"
    proof (cases "tree_lookup me_key ?t k")
      case None
      then have "k \<notin> fst ` set (memtable_file_entries m)" using b by (auto simp: r dest: tree_lookup_mem)
      then show ?thesis using None by (simp add: memtable_map_def map_of_eq_None_iff)
    next
      case (Some e)
      then have e: "e \<in> set_tree ?t" "me_key e = k" by (auto dest: tree_lookup_Some)
      then have "(k, the (me_val e)) \<in> set (memtable_file_entries m)" by (auto simp: r)
      then have "map_of (memtable_file_entries m) k = Some (the (me_val e))" using d by simp
      moreover have "entry_value e = Some (the (me_val e))"
        using e(1) assms(1) ok by (auto simp: entry_value_def no_tombstones_def entry_ok_def)
      ultimately show ?thesis using Some by (simp add: memtable_map_def)
    qed
  qed
qed

lemma file_entries_length:
  assumes "no_tombstones m" and "memtable_inv m"
  shows "length (memtable_file_entries m) < 2 ^ 64"
proof -
  let ?ks = "map fst (memtable_file_entries m)"
  have "distinct ?ks" "set ?ks \<subseteq> {..<2 ^ 31}"
    using file_entries_map(1,3) [OF assms] by (auto simp: strict_sorted_iff key_ok_def)
  then have "length ?ks \<le> card {..<2 ^ 31 :: nat}" by (metis card_mono distinct_card finite_lessThan)
  then show ?thesis by simp
qed

text \<open>The catalogue tells enough to open a finished file as it is.\<close>

lemma open_completed:
  assumes "bit_builder_complete (le_cipher env) b = (bf, region)"
  shows "lsm_open_file env region (bit_file_get_stats bf) = bf"
proof -
  obtain root fid level ver fk lk n key where "bf = bit_file_create (le_cipher env) region root fid level ver fk lk n key"
    using assms by (auto simp: bit_builder_complete_def Let_def)
  then show ?thesis by (simp add: lsm_open_file_def bit_file_get_stats_def bit_file_create_def)
qed

lemma add_first_file: "bl_files l = [] \<Longrightarrow> 0 < bl_max_size l \<Longrightarrow> bit_level_add_file l b = (Inr (), l\<lparr>bl_files := [b]\<rparr>)"
  by (simp add: bit_level_add_file_def bit_level_search_file_def)

text \<open>The only file of a catalogue, as it is found there.\<close>

definition only_file :: "'c lsm_env \<Rightarrow> (nat \<Rightarrow> 'c) \<Rightarrow> bit_catalogue \<Rightarrow> bit_file \<Rightarrow> (nat \<times> blk_record) list \<Rightarrow> bool" where
  "only_file env region cat bf xs \<longleftrightarrow>
     slot_used cat = (\<lambda>fd. fd = bf_id bf) \<and> bf_id bf < nr_slots cat \<and> ar_cells (bc_file_stats cat) (bf_id bf) = bit_file_get_stats bf \<and>
     bf_level bf = 0 \<and> file_ok (le_cipher env) region bf xs \<and> lsm_open_file env region (bit_file_get_stats bf) = bf"

lemma first_minor_compaction:
  assumes nc: "node_cipher_ok (le_cipher env)" and cat: "catalogue_ok (ld_catalogue disk)" "0 < nr_slots (ld_catalogue disk)"
    "\<forall>fd. \<not> slot_used (ld_catalogue disk) fd"
    and l: "bl_files (levels ! 0) = []" "0 < bl_capacity (levels ! 0)" "0 < bl_max_size (levels ! 0)"
    and m: "memtable_inv m" "no_tombstones m" "mt_size m \<noteq> 0" "length (memtable_file_entries m) \<le> DEFAULT_LSM_FILE_CAPACITY"
  obtains bf region cat' where
    "lsm_tree_minor_compaction env (levels, disk) m =
       Some (levels[0 := (levels ! 0)\<lparr>bl_files := [bf]\<rparr>], disk\<lparr>ld_region := region, ld_catalogue := cat'\<rparr>)"
    and "catalogue_ok cat'" and "same_place (ld_catalogue disk) cat'"
    and "only_file env region cat' bf (memtable_file_entries m)"
proof -
  let ?c = "ld_catalogue disk" and ?xs = "memtable_file_entries m"
  have xs: "?xs \<noteq> []" using file_entries_map(4) [OF m(2,1)] m(3) by auto
  have srt: "sorted_wrt (\<le>) (map fst ?xs)" using file_entries_map(1) [OF m(2,1)] strict_sorted_imp_sorted by blast
  from cat(1) obtain fd c1 where a: "bitc_alloc_file ?c = (Inr fd, c1)" "fd < nr_slots ?c" "slot_used c1 = (slot_used ?c)(fd := True)"
    "catalogue_ok c1" "nr_slots c1 = nr_slots ?c" "c1 = ?c\<lparr>bc_bit_validity_table := bc_bit_validity_table c1\<rparr>"
  proof (cases rule: alloc_file_cases)
    case (full c')
    then show thesis using cat(2,3) by auto
  qed (rule that)
  define c2 where "c2 = c1\<lparr>bc_max_version := bc_max_version c1 + 1\<rparr>"
  have c2: "catalogue_ok c2" "nr_slots c2 = nr_slots ?c" "slot_used c2 = slot_used c1" "bc_file_stats c2 = bc_file_stats c1"
    using a(4,5) by (simp_all add: c2_def catalogue_ok_def)
  obtain b bf region where b: "bit_build (le_cipher env) (compaction_get_builder env (ld_region disk) c2 fd 0 (bc_max_version c1)) ?xs = Some b"
    "bit_builder_complete (le_cipher env) b = (bf, region)" "file_ok (le_cipher env) region bf ?xs"
    unfolding compaction_get_builder_def using build_complete [OF nc xs srt m(4)] by metis
  have ids: "bf_id bf = fd" "bf_level bf = 0"
    using complete_ids [OF b(2)] build_ids [OF b(1)] by (simp_all add: compaction_get_builder_def bit_builder_init_def Let_def)
  define c3 where "c3 = snd (bitc_set_file_stats c2 fd (bit_file_get_stats bf))"
  have c3: "c3 = c2\<lparr>bc_file_stats := (bc_file_stats c2)\<lparr>ar_cells := (ar_cells (bc_file_stats c2))(fd := bit_file_get_stats bf)\<rparr>\<rparr>"
    unfolding c3_def using set_file_stats_ok [OF c2(1), of fd] a(2) c2(2) by simp
  have run: "lsm_tree_minor_compaction env (levels, disk) m =
      Some (levels[0 := (levels ! 0)\<lparr>bl_files := [bf]\<rparr>], disk\<lparr>ld_region := region, ld_catalogue := c3\<rparr>)"
    using l a(1) b(1,2) ids(1) add_first_file [OF l(1,3)]
    by (simp add: lsm_tree_minor_compaction_def bit_level_is_full_def bitc_get_next_version_def c2_def c3_def Let_def)
  have "same_place ?c c1" by (subst a(6)) (simp add: same_place_def a(5))
  then have place: "same_place ?c c3" by (simp add: c3 c2_def same_place_def)
  have "catalogue_ok c3" using c2(1) by (simp add: c3 catalogue_ok_def)
  moreover have "slot_used c3 = (\<lambda>x. x = fd)" using a(3) cat(3) by (auto simp: c3 c2(3) fun_eq_iff)
  then have "only_file env region c3 bf ?xs"
    using a(2) c2(2) ids b(3) open_completed [OF b(2)] by (simp add: only_file_def c3)
  ultimately show thesis using run place by (intro that)
qed

section \<open>Opening\<close>

lemma create_levels_empty: "l \<in> set (lsm_create_levels ratio i cap) \<Longrightarrow> bl_files l = []"
  by (induction i arbitrary: cap) (auto simp: bit_level_init_def)

lemma empty_levels:
  assumes "\<forall>l \<in> set ls. bl_files l = []"
  shows "levels_wf env region ls (map (\<lambda>_. []) ls)" and "list_all2 range_fit ls (map (\<lambda>_. []) ls)"
    and "levels_view ls (map (\<lambda>_. []) ls) = Map.empty"
proof -
  show "levels_wf env region ls (map (\<lambda>_. []) ls)" "list_all2 range_fit ls (map (\<lambda>_. []) ls)"
    using assms by (auto simp: levels_wf_def level_wf_def range_fit_def list_all2_conv_all_nth entries_apart_def)
  have "levels_view ls (map (\<lambda>_. []) ls) k = None" for k
    using assms by (induction ls) (auto simp: level_view_def)
  then show "levels_view ls (map (\<lambda>_. []) ls) = Map.empty" by (simp add: fun_eq_iff)
qed

lemma open_no_file:
  assumes "catalogue_ok (ld_catalogue disk)" and "\<forall>fd. \<not> slot_used (ld_catalogue disk) fd"
  obtains t where "lsm_tree_init env disk = Some t" and "tree_holds env t Map.empty" and "lt_disk t = disk"
    and "lt_memtable t = rbtree_memtable_create" and "lt_immutable t = None" and "lt_queued t = 0"
    and "lt_levels t \<noteq> []" and "\<forall>l \<in> set (lt_levels t). bl_files l = []" and "lt_levels t ! 0 = bit_level_init 0 DEFAULT_LSM_LEVEL0_NR_FILE"
proof -
  let ?c = "ld_catalogue disk"
  define ls where "ls = bit_level_init 0 DEFAULT_LSM_LEVEL0_NR_FILE #
    lsm_create_levels (bc_common_ratio ?c) (bc_nr_disk_level ?c - 1) (bc_max_level_nr_file ?c)"
  let ?t = "\<lparr>lt_memtable = rbtree_memtable_create, lt_immutable = None, lt_levels = ls, lt_disk = disk, lt_queued = 0\<rparr>"
  have "snd (bitc_get_all_file_stats ?c) = []" using assms by (simp add: all_file_stats)
  then have "lsm_tree_init env disk = Some ?t" by (simp add: lsm_tree_init_def Let_def ls_def)
  moreover have e: "\<forall>l \<in> set ls. bl_files l = []" by (auto simp: ls_def bit_level_init_def dest: create_levels_empty)
  moreover have "tree_holds env ?t Map.empty"
    unfolding tree_holds_def using empty_levels [OF e]
    by (intro exI [of _ "map (\<lambda>_. []) ls"]) (simp add: tree_wf_def tree_view_def memtable_inv_create memtable_map_create fun_eq_iff)
  ultimately show thesis by (intro that [of ?t]) (simp_all add: ls_def)
qed

lemma open_only_file:
  assumes cat: "catalogue_ok (ld_catalogue disk)" and f: "only_file env (ld_region disk) (ld_catalogue disk) bf xs"
    and xs: "distinct (map fst xs)" "\<forall>x \<in> set xs. key_ok (fst x)"
  obtains t where "lsm_tree_init env disk = Some t" and "tree_holds env t (map_of xs)" and "lt_disk t = disk"
    and "lt_memtable t = rbtree_memtable_create" and "lt_immutable t = None" and "lt_queued t = 0"
proof -
  let ?c = "ld_catalogue disk"
  define ls where "ls = lsm_create_levels (bc_common_ratio ?c) (bc_nr_disk_level ?c - 1) (bc_max_level_nr_file ?c)"
  let ?l = "bit_level_init 0 DEFAULT_LSM_LEVEL0_NR_FILE"
  let ?l' = "?l\<lparr>bl_files := [bf]\<rparr>"
  let ?t = "\<lparr>lt_memtable = rbtree_memtable_create, lt_immutable = None, lt_levels = ?l' # ls, lt_disk = disk, lt_queued = 0\<rparr>"
  have n: "bf_id bf < nr_slots ?c" and u: "slot_used ?c = (\<lambda>fd. fd = bf_id bf)" using f by (simp_all add: only_file_def)
  have "filter (\<lambda>fd. fd = x) [0..<k] = [x]" if "x < k" for x k :: nat
    using that by (induction k) (auto simp: less_Suc_eq filter_empty_conv)
  then have "snd (bitc_get_all_file_stats ?c) = [bit_file_get_stats bf]"
    using f n by (simp add: all_file_stats [OF cat] u only_file_def)
  moreover have "fs_level (bit_file_get_stats bf) = 0" using f by (simp add: only_file_def bit_file_get_stats_def)
  moreover have "lsm_open_file env (ld_region disk) (bit_file_get_stats bf) = bf" using f by (simp add: only_file_def)
  moreover have "bit_level_add_file ?l bf = (Inr (), ?l')"
    by (rule add_first_file) (simp_all add: bit_level_init_def DEFAULT_LSM_LEVEL0_NR_FILE_def)
  ultimately have init: "lsm_tree_init env disk = Some ?t" by (simp add: lsm_tree_init_def Let_def ls_def)
  have e: "\<forall>l \<in> set ls. bl_files l = []" by (auto simp: ls_def dest: create_levels_empty)
  let ?x = "[xs] # map (\<lambda>_. []) ls"
  have fo: "file_ok (le_cipher env) (ld_region disk) bf xs" using f by (simp add: only_file_def)
  have "levels_wf env (ld_region disk) (?l' # ls) ?x" "list_all2 range_fit (?l' # ls) ?x"
    using empty_levels(1,2) [OF e] fo xs by (auto simp: levels_wf_def level_wf_def bit_level_init_def range_fit_def)
  moreover have "levels_view (?l' # ls) ?x = map_of xs"
    using empty_levels(3) [OF e] by (auto simp: level_view_def bit_level_init_def fun_eq_iff split: option.split)
  ultimately have "tree_holds env ?t (map_of xs)"
    unfolding tree_holds_def by (intro exI [of _ ?x]) (simp add: tree_wf_def tree_view_def memtable_inv_create memtable_map_create fun_eq_iff)
  with init show thesis by (intro that [of ?t]) simp_all
qed

section \<open>Trees without files\<close>

text \<open>
  A tree that has taken records since its catalogue \<open>cat\<close> was formatted and has not been compacted.
\<close>

definition young :: "bit_catalogue \<Rightarrow> 'c lsm_tree \<Rightarrow> bool" where
  "young cat t \<longleftrightarrow> no_tombstones (lt_memtable t) \<and> lt_levels t \<noteq> [] \<and> (\<forall>l \<in> set (lt_levels t). bl_files l = []) \<and>
     lt_levels t ! 0 = bit_level_init 0 DEFAULT_LSM_LEVEL0_NR_FILE \<and> ld_catalogue (lt_disk t) = cat \<and>
     (lt_immutable t = None \<longrightarrow> lt_queued t = 0) \<and> unat (mt_size (lt_memtable t)) < DEFAULT_LSM_FILE_CAPACITY"

lemma young_disk: "young cat t \<Longrightarrow> ld_catalogue d = ld_catalogue (lt_disk t) \<Longrightarrow> young cat (t\<lparr>lt_disk := d\<rparr>)"
  by (simp add: young_def)

lemma young_put:
  assumes "young cat t" and "lsm_tree_put t k (Some r) = Some t'"
  shows "young cat t'"
proof -
  obtain old m where p: "rbtree_memtable_put (lt_memtable t) k (Some r) = (old, m)" by fastforce
  have "no_tombstones m" using put_no_tombstones [of "lt_memtable t" k r] assms(1) p by (simp add: young_def)
  moreover have "no_tombstones rbtree_memtable_create" by (simp add: no_tombstones_def rbtree_memtable_create_def)
  moreover have "unat (mt_size rbtree_memtable_create) < DEFAULT_LSM_FILE_CAPACITY"
    by (simp add: rbtree_memtable_create_def DEFAULT_LSM_FILE_CAPACITY_def)
  ultimately show ?thesis using assms p by (auto simp: lsm_tree_put_def young_def Let_def capacity_word split: option.splits if_splits)
qed

lemma same_levels_empty:
  assumes "list_all2 same_level ls ls'" and "\<forall>l \<in> set ls. bl_files l = []"
  shows "ls' = ls"
proof -
  have "l' = l" if "same_level l l'" "bl_files l = []" for l l' using that by (auto simp: same_level_def)
  with assms show ?thesis by (induction rule: list_all2_induct) auto
qed

text \<open>What the disk holds of a tree that is closed: nothing, or the one file of its memtable.\<close>

definition on_disk :: "'c lsm_env \<Rightarrow> (nat \<Rightarrow> 'c) \<Rightarrow> bit_catalogue \<Rightarrow> (nat \<rightharpoonup> blk_record) \<Rightarrow> bool" where
  "on_disk env region cat V \<longleftrightarrow> V = Map.empty \<and> (\<forall>fd. \<not> slot_used cat fd) \<or>
     (\<exists>bf xs. only_file env region cat bf xs \<and> V = map_of xs \<and> distinct (map fst xs) \<and> (\<forall>x \<in> set xs. key_ok (fst x)))"

lemma on_disk_cong:
  assumes "on_disk env region cat V" and "slot_used cat' = slot_used cat" and "nr_slots cat' = nr_slots cat"
    and "ar_cells (bc_file_stats cat') = ar_cells (bc_file_stats cat)"
  shows "on_disk env region cat' V"
  using assms unfolding on_disk_def only_file_def by simp

lemma young_close:
  assumes nc: "node_cipher_ok (le_cipher env)" and cat: "catalogue_ok cat" "0 < nr_slots cat" "\<forall>fd. \<not> slot_used cat fd"
    and y: "young cat t" "lt_immutable t = None" and m: "memtable_inv (lt_memtable t)"
  obtains disk where "lsm_tree_destroy env t = Some disk" and "ld_rit disk = ld_rit (lt_disk t)" and "ld_dst disk = ld_dst (lt_disk t)"
    and "catalogue_ok (ld_catalogue disk)" and "same_place cat (ld_catalogue disk)"
    and "on_disk env (ld_region disk) (ld_catalogue disk) (memtable_map (lt_memtable t))"
proof (cases "mt_size (lt_memtable t) = 0")
  case True
  have nt: "no_tombstones (lt_memtable t)" using y(1) by (simp add: young_def)
  have "of_nat (length (memtable_file_entries (lt_memtable t))) = (of_nat 0 :: u64)" using file_entries_map(4) [OF nt m] True by simp
  then have "memtable_file_entries (lt_memtable t) = []" using u64_of_nat_eq file_entries_length [OF nt m] by fastforce
  then have e: "memtable_map (lt_memtable t) = Map.empty" using file_entries_map(2) [OF nt m] by simp
  show thesis using True y cat e by (intro that [of "lt_disk t"]) (auto simp: young_def lsm_tree_destroy_def on_disk_def)
next
  case False
  let ?m = "lt_memtable t" and ?ls = "lt_levels t"
  have Y: "no_tombstones ?m" "?ls ! 0 = bit_level_init 0 DEFAULT_LSM_LEVEL0_NR_FILE" "ld_catalogue (lt_disk t) = cat" "lt_queued t = 0"
    using y by (simp_all add: young_def)
  have "unat (mt_size ?m) = length (memtable_file_entries ?m)"
    using file_entries_map(4) [OF Y(1) m] file_entries_length [OF Y(1) m] by (simp add: unat_of_nat take_bit_nat_eq_self)
  then have len: "length (memtable_file_entries ?m) \<le> DEFAULT_LSM_FILE_CAPACITY" using y(1) by (simp add: young_def)
  obtain bf region cat' where r: "lsm_tree_minor_compaction env (?ls, lt_disk t) ?m =
       Some (?ls[0 := (?ls ! 0)\<lparr>bl_files := [bf]\<rparr>], (lt_disk t)\<lparr>ld_region := region, ld_catalogue := cat'\<rparr>)"
    "catalogue_ok cat'" "same_place cat cat'" "only_file env region cat' bf (memtable_file_entries ?m)"
    by (rule first_minor_compaction [OF nc, of "lt_disk t" ?ls ?m])
      (use cat Y m False len in \<open>simp_all add: bit_level_init_def DEFAULT_LSM_LEVEL0_NR_FILE_def\<close>)
  have "on_disk env region cat' (memtable_map ?m)"
    unfolding on_disk_def using r(4) file_entries_map [OF Y(1) m]
    by (intro disjI2 exI [of _ bf] exI [of _ "memtable_file_entries ?m"]) (simp add: strict_sorted_iff)
  then show thesis using r False Y
    by (intro that [of "(lt_disk t)\<lparr>ld_region := region, ld_catalogue := cat'\<rparr>"]) (simp_all add: lsm_tree_destroy_def)
qed

lemma open_on_disk:
  assumes "catalogue_ok (ld_catalogue disk)" and "on_disk env (ld_region disk) (ld_catalogue disk) V"
  obtains t where "lsm_tree_init env disk = Some t" and "tree_holds env t V" and "lt_disk t = disk"
    and "lt_memtable t = rbtree_memtable_create" and "lt_immutable t = None"
proof -
  from assms(2) consider "V = Map.empty" "\<forall>fd. \<not> slot_used (ld_catalogue disk) fd"
    | bf xs where "only_file env (ld_region disk) (ld_catalogue disk) bf xs" "V = map_of xs" "distinct (map fst xs)" "\<forall>x \<in> set xs. key_ok (fst x)"
    unfolding on_disk_def by blast
  then show thesis
  proof cases
    case 1
    show thesis using open_no_file [OF assms(1) 1(2), of env] that 1(1) by metis
  next
    case 2
    show thesis using open_only_file [OF assms(1) 2(1,3,4)] that 2(2) by metis
  qed
qed

end
