(* ===== verification/Device_Setup.thy ===== *)
theory Device_Setup
  imports Device_Steps Journal_Steps Metadata Lsm_Reopen Dm_Params
begin

text \<open>
  The life of a device: the part of \<^verbatim>\<open>dm_jindisk_target_ctr\<close> (\<^verbatim>\<open>dm-jindisk.c\<close>) that makes it from the disk,
  \<^verbatim>\<open>dm_jindisk_destroy\<close>, and what a device that is closed and made again from what it left holds.
\<close>

section \<open>Model\<close>

text \<open>The segment allocator counts the segments in use; \<open>gc_wq\<close> says whether its work queue could be made.\<close>

definition sa_init :: "bool \<Rightarrow> seg_validator \<Rightarrow> nat result" where
  "sa_init gc_wq v =
     (case seg_validator_valid_segment_count v of
        Inl err \<Rightarrow> Inl err
      | Inr nr_valid_segment \<Rightarrow> if gc_wq then Inr nr_valid_segment else Inl EAGAIN)"

definition sa_create :: "bool \<Rightarrow> seg_validator \<Rightarrow> nat option" where
  "sa_create gc_wq v = (case sa_init gc_wq v of Inl _ \<Rightarrow> None | Inr n \<Rightarrow> Some n)"

text \<open>
  What is on the disk while there is no device: the index region, the tables, the raw device with the data
  region, and the superblock.
\<close>

record ('c, 'd, 's) closed_disk =
  dk_region :: "nat \<Rightarrow> 'c"
  dk_tables :: meta_disk
  dk_raw :: 'd
  dk_superblock :: 's

text \<open>
  The code reads the superblock through the global pointer \<^verbatim>\<open>jindisk\<close>; here its fields that the requests use
  are in the environment.
\<close>

definition setup_env :: "('c, 'd) jd_env \<Rightarrow> superblock \<Rightarrow> valid_fields \<Rightarrow> nat \<Rightarrow> ('c, 'd) jd_env" where
  "setup_env env sb vf NR_SEGMENT =
     env\<lparr>je_data_start := sb_data_start sb, je_nr_segment := NR_SEGMENT, je_superblock := sb, je_valid_fields := vf\<rparr>"

text \<open>
  A device with the metadata it was made with; the tables in use are those of the device.
\<close>

definition jd_metadata :: "('c, 'd) dm_jindisk \<Rightarrow> 'c lsm_disk \<Rightarrow> ('d, 's) metadata \<Rightarrow> ('d, 's) metadata" where
  "jd_metadata st disk m =
     m\<lparr>mt_journal := (mt_journal m)\<lparr>jr_dev := jd_raw_dev st\<rparr>, mt_seg_validator := jd_seg_validator st,
       mt_rit := ld_rit disk, mt_dst := ld_dst disk, mt_bit_catalogue := ld_catalogue disk\<rparr>"

text \<open>
  From the dm-io client to the segment buffer.  \<open>ce\<close> says which parts can be made and \<open>client\<close> whether dm-bufio gives a
  client; \<open>sbmem\<close> is the memory the superblock is made of, \<open>memory\<close> that of the journal region and \<open>vf\<close> the bitmap in it.  Every failure is \<^verbatim>\<open>EAGAIN\<close>.
  The answer for a device comes with the environment its requests use and its metadata.
\<close>

definition dm_jindisk_create ::
  "bool \<Rightarrow> ('d, 'e, 's) journal_env \<Rightarrow> ('d, 's) journal_operations \<Rightarrow> journal_record \<Rightarrow> ctr_env \<Rightarrow> bool \<Rightarrow> ('c, 'd) jd_env \<Rightarrow> nat \<Rightarrow> nat \<Rightarrow>
   valid_fields \<Rightarrow> superblock \<Rightarrow> ('d, 's) journal_region \<Rightarrow> ('c, 'd, 's) closed_disk \<Rightarrow>
   (errno + ('c, 'd) jd_env \<times> ('c, 'd) dm_jindisk \<times> ('d, 's) metadata) option" where
  "dm_jindisk_create ENABLE_JOURNAL jenv jops stack ce client env NR_SEGMENT action_flag vf sbmem memory dk =
     (if \<not> ce_io_client ce then Some (Inl EAGAIN)
      else if \<not> ce_cipher ce then Some (Inl EAGAIN)
      else case metadata_create ENABLE_JOURNAL jenv jops stack vf sbmem client NR_SEGMENT action_flag (dk_tables dk)
                  (memory\<lparr>jr_dev := dk_raw dk, jr_sb_dev := dk_superblock dk\<rparr>) of
        None \<Rightarrow> None
      | Some (None, _) \<Rightarrow> Some (Inl EAGAIN)
      | Some (Some m, _, _) \<Rightarrow>
          if \<not> ce_lsm_tree ce then Some (Inl EAGAIN)
          else (case lsm_tree_init (je_lsm env)
                       \<lparr>ld_region = dk_region dk, ld_catalogue = mt_bit_catalogue m, ld_rit = mt_rit m, ld_dst = mt_dst m\<rparr> of
             None \<Rightarrow> None
           | Some tree \<Rightarrow>
               (case sa_create (ce_seg_allocator ce) (mt_seg_validator m) of
                  None \<Rightarrow> Some (Inl EAGAIN)
                | Some nr_valid_segment \<Rightarrow>
                    if \<not> ce_seg_buffer ce then Some (Inl EAGAIN)
                    else Some (Inr (setup_env env (mt_superblock m) vf NR_SEGMENT,
                           \<lparr>jd_lsm_tree = tree, jd_seg_validator = mt_seg_validator m, jd_nr_valid_segment = nr_valid_segment,
                            jd_raw_dev = jr_dev (mt_journal m), jd_seg_buffer = segbuf_init (je_segbuf env)\<rparr>, m)))))"

text \<open>
  Closing: the pool, the tree and the metadata, in this order; dm-bufio writes its dirty buffers to the raw
  device when its client goes.  \<open>tables\<close> is what the packs that are not in use hold.
\<close>

definition dm_jindisk_destroy ::
  "bool \<Rightarrow> ('d, 's) journal_operations \<Rightarrow> valid_fields \<Rightarrow> ('c, 'd) jd_env \<Rightarrow> ('d, 's) metadata \<Rightarrow> meta_disk \<Rightarrow> ('c, 'd) dm_jindisk \<Rightarrow>
   ('c, 'd, 's) closed_disk option" where
  "dm_jindisk_destroy ENABLE_JOURNAL jops vf env m tables st =
     Option.bind (segbuf_destroy env st) (\<lambda>st1.
     Option.bind (lsm_tree_destroy (je_lsm env) (jd_lsm_tree st1)) (\<lambda>disk.
     map_option (\<lambda>(tables', j). \<lparr>dk_region = ld_region disk, dk_tables = tables', dk_raw = je_write_dirty env (jr_dev j),
                                 dk_superblock = jr_sb_dev j\<rparr>)
       (metadata_destroy ENABLE_JOURNAL jops vf (jd_metadata st1 disk m) tables)))"

section \<open>A new device\<close>

definition all_made :: "ctr_env \<Rightarrow> bool" where
  "all_made ce \<longleftrightarrow> ce_io_client ce \<and> ce_cipher ce \<and> ce_lsm_tree ce \<and> ce_seg_allocator ce \<and> ce_seg_buffer ce"

text \<open>
  A device in its first session: the metadata it was made with were formatted, and its tree has not
  been compacted.
\<close>

definition first_session :: "('d, 's) metadata \<Rightarrow> ('c, 'd) dm_jindisk \<Rightarrow> bool" where
  "first_session m st \<longleftrightarrow> formatted m \<and> young (mt_bit_catalogue m) (jd_lsm_tree st) \<and>
     nr_blocks st = sb_nr_segment (mt_superblock m) * BLOCKS_PER_SEGMENT \<and> sb_blocks_per_seg (mt_superblock m) = BLOCKS_PER_SEGMENT \<and>
     0 < slots_of (mt_superblock m)"

lemma overlay_empty: "overlay (replicate n (Map.empty :: 'a \<rightharpoonup> 'b)) = Map.empty"
  by (induction n) simp_all

lemma format_written:
  assumes "sb_writes env"
  obtains sb s' where "superblock_init env jsz mrec n True mem s = (Inr sb, s')"
proof -
  let ?f = "superblock_format jsz mrec n mem"
  obtain d s1 where rd: "se_rd env s = (Inr d, s1)" using assms unfolding sb_writes_def by blast
  obtain e where "se_enc env (?f\<lparr>sb_csum := crc32_checksum (se_crc env) ?f\<rparr>) = Inr e" using assms unfolding sb_writes_def by blast
  then show thesis using rd that by (simp add: superblock_init_def superblock_write_def Let_def)
qed

text \<open>The superblock of a device for \<open>n\<close> segments, wherever its memory came from.\<close>

definition superblock_for :: "nat \<Rightarrow> superblock \<Rightarrow> bool" where
  "superblock_for n sb \<longleftrightarrow> sb_nr_segment sb = n + NR_GC_PRESERVED \<and> sb_blocks_per_seg sb = BLOCKS_PER_SEGMENT \<and>
     sb_data_start sb = calc_metadata_blocks (n + NR_GC_PRESERVED) \<and> 0 < slots_of sb"

lemma superblock_for_in_memory [simp]: "superblock_for n (in_memory mem sb) = superblock_for n sb"
  by (simp add: superblock_for_def)

lemma formatted_superblock:
  assumes "superblock_init env jsz mrec n True mem s = (Inr sb, s')"
  shows "superblock_for n sb" and "sb_last_checkpoint_pack sb = sb_last_checkpoint_pack mem"
proof -
  obtain c where sb: "sb = superblock_format jsz mrec n (mem\<lparr>sb_csum := c\<rparr>)" using assms by (rule format_init_written)
  have "sb_nr_segment sb = n + NR_GC_PRESERVED" "sb_blocks_per_seg sb = BLOCKS_PER_SEGMENT"
    unfolding sb by (simp_all add: superblock_format_def Let_def)
  moreover have "sb_data_start sb = calc_metadata_blocks (n + NR_GC_PRESERVED)" unfolding sb by (rule format_data_start)
  moreover have "0 < slots_of sb" by (simp add: slots_of_def total_bit_def DEFAULT_LSM_LEVEL0_NR_FILE_def)
  ultimately show "superblock_for n sb" by (simp add: superblock_for_def)
  show "sb_last_checkpoint_pack sb = sb_last_checkpoint_pack mem" unfolding sb by (simp add: format_memory)
qed

lemma device_of_formatted:
  assumes works: "gcm_works (je_cipher env)" and io: "io_ok (je_io env) sector" and ce: "all_made ce"
    and fits: "(calc_metadata_blocks (n + NR_GC_PRESERVED) + (n + NR_GC_PRESERVED) * BLOCKS_PER_SEGMENT) * SECTORS_PER_BLOCK \<le> 2 ^ 64"
    and made: "metadata_create False jenv jops stack vf sbmem True n action_flag (dk_tables dk)
      (memory\<lparr>jr_dev := dk_raw dk, jr_sb_dev := dk_superblock dk\<rparr>) = Some (Some m, rest)"
    and m: "formatted m" "mt_superblock m = sb" "superblock_for n sb"
  obtains st where
    "dm_jindisk_create False jenv jops stack ce True env n action_flag vf sbmem memory dk = Some (Inr (setup_env env sb vf n, st, m))"
    and "env_ok (setup_env env sb vf n) sector st" and "dev_inv (setup_env env sb vf n) st Map.empty" and "first_session m st"
    and "free_segments st = n + NR_GC_PRESERVED" and "pool_load (jd_seg_buffer st) = 0"
    and "tree_room (jd_lsm_tree st) = 2 * DEFAULT_LSM_FILE_CAPACITY - 1" and "jd_seg_buffer st = segbuf_init (je_segbuf env)"
proof -
  have F: "sb_nr_segment sb = n + NR_GC_PRESERVED" "sb_blocks_per_seg sb = BLOCKS_PER_SEGMENT"
    "sb_data_start sb = calc_metadata_blocks (n + NR_GC_PRESERVED)" "0 < slots_of sb" using m(3) by (simp_all add: superblock_for_def)
  have M: "space_inv (mt_dst m) (mt_seg_validator m)" "ds_nr_segment (mt_dst m) = n + NR_GC_PRESERVED" "\<forall>s. \<not> sv_valid (mt_seg_validator m) s"
    "healthy (mt_rit m)" "ar_nr (mt_rit m) = (n + NR_GC_PRESERVED) * BLOCKS_PER_SEGMENT" "catalogue_ok (mt_bit_catalogue m)"
    "\<forall>fd. \<not> slot_used (mt_bit_catalogue m) fd" using m(1,2) F(1,2) by (simp_all add: formatted_def Let_def)
  let ?disk = "\<lparr>ld_region = dk_region dk, ld_catalogue = mt_bit_catalogue m, ld_rit = mt_rit m, ld_dst = mt_dst m\<rparr>"
  obtain t where t: "lsm_tree_init (je_lsm env) ?disk = Some t" "tree_holds (je_lsm env) t Map.empty" "lt_disk t = ?disk"
    "lt_memtable t = rbtree_memtable_create" "lt_immutable t = None" "lt_queued t = 0" "lt_levels t \<noteq> []"
    "\<forall>l \<in> set (lt_levels t). bl_files l = []" "lt_levels t ! 0 = bit_level_init 0 DEFAULT_LSM_LEVEL0_NR_FILE"
    using open_no_file [of ?disk "je_lsm env"] M(6,7) by auto
  have sv: "sv_ok (mt_seg_validator m)" "sv_nr_segment (mt_seg_validator m) = n + NR_GC_PRESERVED" "sv_count (mt_seg_validator m) = 0"
    using space_invD(3,4) [OF M(1)] M(2,3) by (simp_all add: sv_count_def)
  let ?st = "\<lparr>jd_lsm_tree = t, jd_seg_validator = mt_seg_validator m, jd_nr_valid_segment = 0, jd_raw_dev = jr_dev (mt_journal m),
    jd_seg_buffer = segbuf_init (je_segbuf env)\<rparr>"
  let ?env = "setup_env env sb vf n"
  have create: "dm_jindisk_create False jenv jops stack ce True env n action_flag vf sbmem memory dk = Some (Inr (?env, ?st, m))"
    using ce made m(2) t(1) valid_segment_count [OF sv(1)] sv(3)
    by (cases rest) (simp add: dm_jindisk_create_def all_made_def sa_create_def sa_init_def)
  have nb: "nr_blocks ?st = (n + NR_GC_PRESERVED) * BLOCKS_PER_SEGMENT" by (simp add: nr_blocks_def jd_dst_def t(3) M(2))
  have eok: "env_ok ?env sector ?st" unfolding env_ok_def nb using works io fits F(3) by (simp add: setup_env_def io_fits_def)
  have "index_inv ?env ?st Map.empty Map.empty (block_at ?env ?st)"
    using t(2) M nb by (simp add: index_inv_def setup_env_def jd_rit_def jd_dst_def t(3))
  then have inv: "dev_inv ?env ?st Map.empty"
    unfolding dev_inv_def by (intro exI [of _ Map.empty]) (simp add: pool_init overlay_empty)
  have fs: "first_session m ?st" unfolding first_session_def nb
    using m(1,2) F t by (simp add: young_def no_tombstones_def rbtree_memtable_create_def DEFAULT_LSM_FILE_CAPACITY_def)
  show thesis
    by (rule that [OF create eok inv fs])
      (use sv in \<open>simp_all add: free_segments_def tree_room_def t rbtree_memtable_create_def pool_load_def segbuf_init_def
        data_segment_init_def zero_segment_def POOL_SIZE_def layout_consts\<close>)
qed

lemma segments_fit:
  assumes "(calc_metadata_blocks (n + NR_GC_PRESERVED) + (n + NR_GC_PRESERVED) * BLOCKS_PER_SEGMENT) * SECTORS_PER_BLOCK \<le> 2 ^ 64"
  shows "n + NR_GC_PRESERVED \<le> INF_ADDR"
  using assms by (simp add: INF_ADDR_def SECTORS_PER_BLOCK_def BLOCKS_PER_SEGMENT_def)

lemma format_device:
  assumes works: "gcm_works (je_cipher env)" and io: "io_ok (je_io env) sector" and sb: "sb_writes (jn_sb jenv)" and ce: "all_made ce"
    and disk: "meta_readable (dk_tables dk)"
    and fits: "(calc_metadata_blocks (n + NR_GC_PRESERVED) + (n + NR_GC_PRESERVED) * BLOCKS_PER_SEGMENT) * SECTORS_PER_BLOCK \<le> 2 ^ 64"
  obtains sb s m st where
    "dm_jindisk_create False jenv jops stack ce True env n 1 vf sbmem memory dk = Some (Inr (setup_env env sb vf n, st, m))"
    and "superblock_init (jn_sb jenv) JOURNAL_RECORD_SIZE MAX_RECORDS n True sbmem (dk_superblock dk) = (Inr sb, s)"
    and "mt_superblock m = sb" and "jr_sb_dev (mt_journal m) = s"
    and "env_ok (setup_env env sb vf n) sector st" and "dev_inv (setup_env env sb vf n) st Map.empty" and "first_session m st"
    and "free_segments st = n + NR_GC_PRESERVED" and "pool_load (jd_seg_buffer st) = 0"
    and "tree_room (jd_lsm_tree st) = 2 * DEFAULT_LSM_FILE_CAPACITY - 1" and "jd_seg_buffer st = segbuf_init (je_segbuf env)"
proof -
  let ?r = "memory\<lparr>jr_dev := dk_raw dk, jr_sb_dev := dk_superblock dk\<rparr>"
  obtain sb s where init: "superblock_init (jn_sb jenv) JOURNAL_RECORD_SIZE MAX_RECORDS n True sbmem (jr_sb_dev ?r) = (Inr sb, s)"
    using format_written [OF sb] by blast
  from metadata_init_formats [OF disk init segments_fit [OF fits]] obtain m where
    m: "metadata_init False jenv jops stack vf sbmem True n 1 (dk_tables dk) ?r = Some (Inr m, meta_store vf m (dk_tables dk), ?r\<lparr>jr_sb_dev := s\<rparr>)"
      "formatted m" "mt_superblock m = sb" "mt_journal m = ?r\<lparr>jr_sb_dev := s\<rparr>" by blast
  have "metadata_create False jenv jops stack vf sbmem True n 1 (dk_tables dk) ?r = Some (Some m, meta_store vf m (dk_tables dk), ?r\<lparr>jr_sb_dev := s\<rparr>)"
    using m(1) by (simp add: metadata_create_def)
  from device_of_formatted [OF works io ce fits this m(2,3) formatted_superblock(1) [OF init]] obtain st where
    st: "dm_jindisk_create False jenv jops stack ce True env n 1 vf sbmem memory dk = Some (Inr (setup_env env sb vf n, st, m))"
      "env_ok (setup_env env sb vf n) sector st" "dev_inv (setup_env env sb vf n) st Map.empty" "first_session m st"
      "free_segments st = n + NR_GC_PRESERVED" "pool_load (jd_seg_buffer st) = 0"
      "tree_room (jd_lsm_tree st) = 2 * DEFAULT_LSM_FILE_CAPACITY - 1" "jd_seg_buffer st = segbuf_init (je_segbuf env)" .
  show thesis by (rule that [OF st(1) _ m(3) _ st(2-8)]) (use init m(4) in simp_all)
qed

section \<open>Steps of the first session\<close>

lemma set_dst_young: "young cat (jd_lsm_tree st) \<Longrightarrow> young cat (jd_lsm_tree (jd_set_dst d st))"
  by (simp add: jd_set_dst_def young_def)

lemma sa_alloc_young: "young cat (jd_lsm_tree st) \<Longrightarrow> young cat (jd_lsm_tree (snd (sa_alloc st)))"
  by (auto simp: sa_alloc_def Let_def split: prod.splits sum.splits intro!: set_dst_young)

lemma index_block_young:
  assumes "index_block st lba new pba = Some st'" and "young cat (jd_lsm_tree st)"
  shows "young cat (jd_lsm_tree st')"
  using assms young_put [OF assms(2)] by (auto simp: index_block_def Let_def jd_set_rit_def young_def)

lemma flush_loop_young:
  "flush_loop env key start i blks cipher st = Some (cipher', st') \<Longrightarrow> young cat (jd_lsm_tree st) \<Longrightarrow> young cat (jd_lsm_tree st')"
proof (induction blks arbitrary: i cipher st)
  case (Cons blk blks)
  from Cons.prems(1) obtain new out st1 where b: "seal_block env key (start + i) (blk_plain blk) (cipher i) = Some (new, out)"
    "index_block st (blk_lba blk) new (start + i) = Some st1" "flush_loop env key start (Suc i) blks (cipher(i := out)) st1 = Some (cipher', st')"
    by (auto split: option.splits)
  show ?case using Cons.IH [OF b(3)] index_block_young [OF b(2) Cons.prems(2)] .
qed simp

lemma logging_loop_young:
  "logging_loop env key blks buffer st = Some st' \<Longrightarrow> young cat (jd_lsm_tree st) \<Longrightarrow> young cat (jd_lsm_tree st')"
proof (induction blks arbitrary: buffer st)
  case (Cons blk blks)
  from Cons.prems(1) obtain r d v n where f: "dst_find_logging_block (jd_dst st, jd_seg_validator st, jd_nr_valid_segment st) = Some (r, d, v, n)"
    by (auto split: option.splits)
  let ?st1 = "(jd_set_dst d st)\<lparr>jd_seg_validator := v, jd_nr_valid_segment := n\<rparr>"
  have y: "young cat (jd_lsm_tree ?st1)" using set_dst_young [OF Cons.prems(2)] by simp
  show ?case
  proof (cases r)
    case (Inl e)
    then show ?thesis using Cons.IH [OF _ y] Cons.prems(1) f by simp
  next
    case (Inr pba)
    with Cons.prems(1) f obtain new out st2 where b: "index_block ?st1 (blk_lba blk) new pba = Some st2"
      "logging_loop env key blks out (jindisk_write_blocks env st2 pba 1 out) = Some st'"
      by (auto simp: Let_def split: option.splits)
    show ?thesis using Cons.IH [OF b(2)] index_block_young [OF b(1) y] by simp
  qed
qed simp

lemma flush_bios_young:
  assumes "segbuf_flush_bios env index st = Some st'" and "young cat (jd_lsm_tree st)"
  shows "young cat (jd_lsm_tree st')"
proof (cases "dseg_size (sb_buffer (jd_seg_buffer st) ! index) = 0")
  case True
  then show ?thesis using assms by (simp add: segbuf_flush_bios_def Let_def)
next
  case False
  obtain r st1 where a: "sa_alloc st = (r, st1)" by fastforce
  have y: "young cat (jd_lsm_tree st1)" using sa_alloc_young [OF assms(2)] a by simp
  show ?thesis
  proof (cases r)
    case (Inl e)
    then show ?thesis using assms(1) False a logging_loop_young [OF _ y] by (auto simp: segbuf_flush_bios_def segbuf_threaded_logging_def Let_def)
  next
    case (Inr seg)
    then show ?thesis using assms(1) False a flush_loop_young [OF _ y]
      by (auto simp: segbuf_flush_bios_def Let_def jd_set_segment_def split: option.splits)
  qed
qed

lemma range_search_young:
  assumes "lsm_tree_range_search env t a b = Some (m, t')" and "young cat t"
  shows "t' = t"
proof -
  have "list_all2 same_level (lt_levels t) (lt_levels t') \<and> t' = t\<lparr>lt_levels := lt_levels t'\<rparr>"
    using assms(1) by (auto simp: lsm_tree_range_search_def Let_def split: if_splits option.splits prod.splits dest: range_levels_same)
  moreover have "lt_levels t' = lt_levels t" using calculation same_levels_empty assms(2) by (metis young_def)
  ultimately show ?thesis by simp
qed

lemma step_first_session:
  assumes "dev_step env (st, D) (st', D')" and "env_ok env sector st" and "dev_inv env st D" and "first_session m st"
  shows "first_session m st'"
proof (rule dev_stepE [OF assms(1)], goal_cases)
  case (1 lba ps b pages)
  then have "jd_lsm_tree st' = jd_lsm_tree st" by (auto simp: jindisk_do_write_def)
  then show ?case using assms(4) by (simp add: first_session_def nr_blocks_def jd_dst_def)
next
  case (2 lba ps b pages pages')
  then obtain results where "lsm_tree_range_search (je_lsm env) (jd_lsm_tree st) (u32 (bio_to_lba b))
      (u32 (bio_to_lba b + (bi_size b + DATA_BLOCK_SIZE - 1) div DATA_BLOCK_SIZE + (2 ^ 64 - 1))) = Some (results, jd_lsm_tree st')"
    by (auto simp: jindisk_do_read_def Let_def split: option.splits prod.splits)
  then have "jd_lsm_tree st' = jd_lsm_tree st" using range_search_young assms(4) by (metis first_session_def)
  then show ?case using assms(4) by (simp add: first_session_def nr_blocks_def jd_dst_def)
next
  case 3
  then have "nr_blocks st' = nr_blocks st" using dev_work_ok [OF assms(2,3)] by auto
  moreover have "young (mt_bit_catalogue m) (jd_lsm_tree st')"
    using 3 assms(4) flush_bios_young by (fastforce simp: bufferio_handler_def first_session_def split: list.splits)
  ultimately show ?case using assms(4) by (simp add: first_session_def)
qed

text \<open>A session is a store too: its contents, with what closing it needs.\<close>

lemma session_reach:
  assumes "(dev_step env)\<^sup>*\<^sup>* (st0, D0) (st, D)" and "env_ok env sector st0" and "dev_inv env st0 D0" and "first_session m st0"
  shows "env_ok env sector st \<and> dev_inv env st D \<and> first_session m st"
  using assms(1)
proof (induction rule: rtranclp_induct2)
  case (step st1 D1 st2 D2)
  then show ?case using dev_step_inv [OF step.hyps(2)] step_first_session [OF step.hyps(2)] by blast
qed (use assms in simp)

section \<open>Closing\<close>

lemma young_holds:
  assumes "tree_holds env t V" and "young cat t" and "lt_immutable t = None"
  shows "V = memtable_map (lt_memtable t)" and "memtable_inv (lt_memtable t)"
proof -
  obtain xsss where x: "tree_wf env t xsss" "tree_view t xsss = V" using assms(1) by (auto simp: tree_holds_def)
  then show "memtable_inv (lt_memtable t)" by (simp add: tree_wf_def)
  have e: "\<forall>l \<in> set (lt_levels t). bl_files l = []" using assms(2) by (simp add: young_def)
  have "list_all2 (level_wf (le_cipher env) (ld_region (lt_disk t))) (lt_levels t) xsss" using x(1) by (simp add: tree_wf_def levels_wf_def)
  then have "xsss = map (\<lambda>_. []) (lt_levels t)"
    using e by (induction rule: list_all2_induct) (auto simp: level_wf_def)
  then have "V k = memtable_map (lt_memtable t) k" for k
    using x(2) empty_levels(3) [OF e] assms(3) by (cases "memtable_map (lt_memtable t) k") (auto simp: tree_view_def)
  then show "V = memtable_map (lt_memtable t)" by (simp add: fun_eq_iff)
qed

text \<open>
  A device that is closed with an empty flush queue: what the closed disk holds of it, for the superblock
  \<open>sb\<close> in the buffer \<open>s\<close>.
\<close>

lemma close_device:
  assumes env: "env_ok env sector st" and inv: "dev_inv env st D" and fs: "first_session m st"
    and nc: "node_cipher_ok (le_cipher (je_lsm env))"
    and work: "sb_work (jd_seg_buffer st) = []" and free: "0 < free_segments st"
    and small: "lt_immutable (jd_lsm_tree st) = None" "unat (mt_size (lt_memtable (jd_lsm_tree st))) + BLOCKS_PER_SEGMENT < DEFAULT_LSM_FILE_CAPACITY"
  obtains st1 disk V where "segbuf_destroy env st = Some st1" and "lsm_tree_destroy (je_lsm env) (jd_lsm_tree st1) = Some disk"
    and "meta_inv (jd_metadata st1 disk m)" and "index_inv env st1 V D (block_at env st1)" and "ld_rit disk = jd_rit st1" and "ld_dst disk = jd_dst st1"
    and "on_disk (je_lsm env) (ld_region disk) (ld_catalogue disk) V" and "nr_blocks st1 = nr_blocks st"
proof -
  let ?buf = "jd_seg_buffer st" and ?t = "jd_lsm_tree st" and ?cat = "mt_bit_catalogue m"
  obtain V F where i: "index_inv env st V F (block_at env st)" "pool_inv ?buf"
    "overlay (drop (Suc (length (sb_work ?buf))) (pool_maps ?buf)) \<subseteq>\<^sub>m F" "D = F ++ overlay (pool_maps ?buf)" using inv by (rule dev_invE)
  have E: "gcm_works (je_cipher env)" "io_ok (je_io env) sector" "io_fits env (nr_blocks st)" using env by (simp_all add: env_ok_def)
  have cur: "sb_cur_buffer ?buf < POOL_SIZE" using i(2) by (simp add: pool_inv_def)
  have room: "tree_room ?t = 2 * DEFAULT_LSM_FILE_CAPACITY - 1 - unat (mt_size (lt_memtable ?t))" "BLOCKS_PER_SEGMENT \<le> tree_room ?t"
    using small by (simp_all add: tree_room_def)
  obtain st1 V1 where f: "segbuf_flush_bios env (sb_cur_buffer ?buf) st = Some st1"
    "index_inv env st1 V1 (F ++ seg_map (sb_buffer ?buf ! sb_cur_buffer ?buf)) (block_at env st1)"
    "same_pool ?buf (jd_seg_buffer st1)" "nr_blocks st1 = nr_blocks st"
    "tree_room ?t \<le> tree_room (jd_lsm_tree st1) + BLOCKS_PER_SEGMENT"
    using flush_bios_ok [OF E i(1,2) cur free room(2)] by blast
  have "pool_maps ?buf ! 0 = seg_map (sb_buffer ?buf ! sb_cur_buffer ?buf)"
    using cur by (simp add: pool_maps_list pool_index_def)
  moreover have "overlay (drop (Suc 0) (pool_maps ?buf)) \<subseteq>\<^sub>m F" "0 < length (pool_maps ?buf)"
    using i(3) work by (simp_all add: pool_maps_list)
  ultimately have "overlay (pool_maps ?buf) \<subseteq>\<^sub>m F ++ seg_map (sb_buffer ?buf ! sb_cur_buffer ?buf)"
    "(F ++ seg_map (sb_buffer ?buf ! sb_cur_buffer ?buf)) ++ overlay (pool_maps ?buf) = D"
    using overlay_flushed [of 0 "pool_maps ?buf" F] i(4) by simp_all
  then have D: "F ++ seg_map (sb_buffer ?buf ! sb_cur_buffer ?buf) = D" using map_add_subsumed2 by metis
  note I = f(2) [unfolded D]
  have y: "young ?cat (jd_lsm_tree st1)" using flush_bios_young [OF f(1)] fs by (simp add: first_session_def)
  have im: "lt_immutable (jd_lsm_tree st1) = None"
    using f(5) room(1) small(2) by (auto simp: tree_room_def split: if_splits)
  have c: "catalogue_ok ?cat" "0 < nr_slots ?cat" "\<forall>fd. \<not> slot_used ?cat fd" using fs by (simp_all add: first_session_def formatted_def Let_def)
  note H = young_holds [OF index_invD(1) [OF I] y im]
  obtain disk where d: "lsm_tree_destroy (je_lsm env) (jd_lsm_tree st1) = Some disk" "ld_rit disk = jd_rit st1" "ld_dst disk = jd_dst st1"
    "catalogue_ok (ld_catalogue disk)" "same_place ?cat (ld_catalogue disk)" "on_disk (je_lsm env) (ld_region disk) (ld_catalogue disk) V1"
    using young_close [OF nc c y im H(2)] unfolding jd_rit_def jd_dst_def H(1) [symmetric] by metis
  have "sb_work (jd_seg_buffer st1) = []" using f(3) work by (simp add: same_pool_def)
  then have run: "segbuf_destroy env st = Some st1" using f(1) by (simp add: segbuf_destroy_def)
  have "ds_nr_segment (jd_dst st1) = sb_nr_segment (mt_superblock m)"
    using f(4) fs by (simp add: first_session_def nr_blocks_def BLOCKS_PER_SEGMENT_def)
  then have "meta_inv (jd_metadata st1 disk m)"
    using index_invD(2-4) [OF I] f(4) fs d(2-5)
    by (simp add: meta_inv_def jd_metadata_def Let_def first_session_def same_place_def formatted_def)
  then show thesis using run d I f(4) by (intro that)
qed

section \<open>Opening again\<close>

lemma setup_env_sel [simp]:
  "je_lsm (setup_env env sb vf n) = je_lsm env" "je_cipher (setup_env env sb vf n) = je_cipher env" "je_io (setup_env env sb vf n) = je_io env"
  "je_segbuf (setup_env env sb vf n) = je_segbuf env" "je_write_dirty (setup_env env sb vf n) = je_write_dirty env"
  "je_data_start (setup_env env sb vf n) = sb_data_start sb"
  by (simp_all add: setup_env_def)

text \<open>dm-bufio writes metadata blocks only, which are in front of the data.\<close>

definition dirty_keeps :: "('c, 'd) jd_env \<Rightarrow> ('d \<Rightarrow> nat \<Rightarrow> byte list) \<Rightarrow> nat \<Rightarrow> bool" where
  "dirty_keeps env sector start \<longleftrightarrow> (\<forall>d x. start * SECTORS_PER_BLOCK \<le> x \<longrightarrow> sector (je_write_dirty env d) x = sector d x)"

lemma block_at_dirty:
  assumes "io_ok (je_io env) sector" and "io_fits env n" and "pba < n" and "dirty_keeps env sector (je_data_start env)"
    and "jd_raw_dev st' = je_write_dirty env (jd_raw_dev st)"
  shows "block_at env st' pba = block_at env st pba"
proof -
  have "sector (jd_raw_dev st') x = sector (jd_raw_dev st) x" if "(je_data_start env + pba) * 8 \<le> x" for x
    using that assms(4,5) by (simp add: dirty_keeps_def SECTORS_PER_BLOCK_def)
  then show ?thesis unfolding block_at_def read_sectors [OF assms(1-3)] by (intro arg_cong [of _ _ concat]) auto
qed

lemma reload_metadata:
  assumes "meta_inv m" and "superblock_init (jn_sb jenv) JOURNAL_RECORD_SIZE MAX_RECORDS n False sbmem (jr_sb_dev region) =
      (Inr (in_memory sbmem (mt_superblock m)), s)"
    and "action_flag \<noteq> 1"
  obtains m' where "metadata_create False jenv jops stack vf sbmem True n action_flag (meta_store vf m tables) region =
      Some (Some m', meta_store vf m' (meta_store vf m tables), region\<lparr>jr_sb_dev := s\<rparr>)"
    and "meta_inv m'" and "same_tables m m'" and "mt_superblock m' = in_memory sbmem (mt_superblock m)"
    and "mt_journal m' = region\<lparr>jr_sb_dev := s\<rparr>"
proof -
  let ?sb = "in_memory sbmem (mt_superblock m)"
  obtain m' where m': "metadata_tables vf ?sb (region\<lparr>jr_sb_dev := s\<rparr>) (meta_store vf m tables) = (Inr (), m')" "meta_inv m'" "same_tables m m'"
    "mt_superblock m' = ?sb" "mt_journal m' = region\<lparr>jr_sb_dev := s\<rparr>" using metadata_reload [OF assms(1)] by blast
  show thesis
    by (rule that [OF _ m'(2-5)])
      (use m'(1,5) assms(2,3) in \<open>simp add: metadata_create_def metadata_init_def journal_region_create_def journal_region_init_def\<close>)
qed

text \<open>Requests do not look at the superblock as a whole, so a device holds the same over one with another field in memory.\<close>

lemma setup_in_memory: "setup_env env (in_memory mem sb) vf n = (setup_env env sb vf n)\<lparr>je_superblock := in_memory mem sb\<rparr>"
  by (simp add: setup_env_def)

lemma env_superblock:
  "env_ok (env\<lparr>je_superblock := sb\<rparr>) sector st = env_ok env sector st" "dev_inv (env\<lparr>je_superblock := sb\<rparr>) st D = dev_inv env st D"
  by (simp_all add: env_ok_def io_fits_def dev_inv_def index_inv_def block_at_def jindisk_read_blocks_def io_region_def)

text \<open>
  A device made from the tables of a closed one, over the same index and the raw device with the dirty
  buffers written, holds what the closed one held.
\<close>

lemma reopened_holds:
  assumes env: "env_ok env sector st1" and I: "index_inv env st1 V D (block_at env st1)"
    and T: "mt_rit m2 = jd_rit st1" "entry_at (mt_dst m2) = entry_at (jd_dst st1)" "space_inv (mt_dst m2) (mt_seg_validator m2)"
      "ds_nr_segment (mt_dst m2) = ds_nr_segment (jd_dst st1)"
    and t: "tree_holds (je_lsm env) t V" "ld_rit (lt_disk t) = mt_rit m2" "ld_dst (lt_disk t) = mt_dst m2"
    and dirty: "dirty_keeps env sector (je_data_start env)"
    and st2: "jd_lsm_tree st2 = t" "jd_seg_validator st2 = mt_seg_validator m2" "jd_raw_dev st2 = je_write_dirty env (jd_raw_dev st1)"
      "jd_seg_buffer st2 = segbuf_init senv"
  shows "env_ok env sector st2" and "dev_inv env st2 D"
proof -
  have J: "jd_rit st2 = jd_rit st1" "jd_dst st2 = mt_dst m2" using t(2,3) T(1) by (simp_all add: jd_rit_def jd_dst_def st2(1))
  have nb: "nr_blocks st2 = nr_blocks st1" by (simp add: nr_blocks_def J(2) T(4))
  show E: "env_ok env sector st2" using env unfolding env_ok_def nb .
  have at: "block_at env st2 pba = block_at env st1 pba" if "pba < nr_blocks st1" for pba
    by (rule block_at_dirty [OF _ _ that dirty st2(3)]) (use env in \<open>simp_all add: env_ok_def\<close>)
  have dv: "dst_valid (mt_dst m2) = dst_valid (jd_dst st1)" by (simp add: dst_valid_def T(2) fun_eq_iff)
  have "index_inv env st2 V D (block_at env st1)"
    using I t(1) T(3) nb unfolding index_inv_def J dv st2(1,2) by simp
  then have "index_inv env st2 V D (block_at env st2)" by (rule index_inv_content) (use at index_invD(9) [OF I] in blast)
  then show "dev_inv env st2 D"
    unfolding dev_inv_def st2(4) by (intro exI [of _ V] exI [of _ D]) (simp add: pool_init overlay_empty)
qed

lemma closed_device:
  assumes e: "env = setup_env env0 sb vf n" and env: "env_ok env sector st" and inv: "dev_inv env st D" and fs: "first_session m st"
    and nc: "node_cipher_ok (le_cipher (je_lsm env0))" and work: "sb_work (jd_seg_buffer st) = []" and free: "0 < free_segments st"
    and small: "lt_immutable (jd_lsm_tree st) = None" "unat (mt_size (lt_memtable (jd_lsm_tree st))) + BLOCKS_PER_SEGMENT < DEFAULT_LSM_FILE_CAPACITY"
  obtains st1 disk V where "dm_jindisk_destroy False jops vf env m tables st =
      Some \<lparr>dk_region = ld_region disk, dk_tables = meta_store vf (jd_metadata st1 disk m) tables,
            dk_raw = je_write_dirty env (jd_raw_dev st1), dk_superblock = jr_sb_dev (mt_journal m)\<rparr>"
    and "meta_inv (jd_metadata st1 disk m)" and "index_inv env st1 V D (block_at env st1)" and "ld_rit disk = jd_rit st1" and "ld_dst disk = jd_dst st1"
    and "on_disk (je_lsm env) (ld_region disk) (ld_catalogue disk) V" and "nr_blocks st1 = nr_blocks st"
proof -
  have "node_cipher_ok (le_cipher (je_lsm env))" using nc by (simp add: e)
  then obtain st1 disk V where c: "segbuf_destroy env st = Some st1" "lsm_tree_destroy (je_lsm env) (jd_lsm_tree st1) = Some disk"
    "meta_inv (jd_metadata st1 disk m)" "index_inv env st1 V D (block_at env st1)" "ld_rit disk = jd_rit st1" "ld_dst disk = jd_dst st1"
    "on_disk (je_lsm env) (ld_region disk) (ld_catalogue disk) V" "nr_blocks st1 = nr_blocks st"
    using close_device [OF env inv fs _ work free small] by blast
  show thesis
    by (rule that [OF _ c(3-8)])
      (use c(1,2) in \<open>simp add: dm_jindisk_destroy_def metadata_destroy_def journal_region_destroy_def\<close>, simp add: jd_metadata_def)
qed

lemma closed_parts:
  assumes "env = setup_env env0 sb vf n" and "env_ok env sector st" and "dev_inv env st D" and "first_session m st"
    and "node_cipher_ok (le_cipher (je_lsm env0))" and "sb_work (jd_seg_buffer st) = []" and "0 < free_segments st"
    and "lt_immutable (jd_lsm_tree st) = None" "unat (mt_size (lt_memtable (jd_lsm_tree st))) + BLOCKS_PER_SEGMENT < DEFAULT_LSM_FILE_CAPACITY"
  obtains dk where "dm_jindisk_destroy False jops vf env m tables st = Some dk" and "dk_superblock dk = jr_sb_dev (mt_journal m)"
    and "\<And>vf'. blank_packs vf' tables \<Longrightarrow> \<forall>f. vf' f \<noteq> vf f \<Longrightarrow> blank_packs vf' (dk_tables dk)"
proof -
  obtain st1 disk where "dm_jindisk_destroy False jops vf env m tables st =
      Some \<lparr>dk_region = ld_region disk, dk_tables = meta_store vf (jd_metadata st1 disk m) tables,
            dk_raw = je_write_dirty env (jd_raw_dev st1), dk_superblock = jr_sb_dev (mt_journal m)\<rparr>"
    by (rule closed_device [OF assms, where jops = jops and tables = tables])
  then show thesis by (rule that) (simp_all add: blank_other_packs)
qed

lemma reopen_device:
  assumes e: "env = setup_env env0 sb vf n" and env: "env_ok env sector st" and inv: "dev_inv env st D" and fs: "first_session m st"
    and nc: "node_cipher_ok (le_cipher (je_lsm env0))" and work: "sb_work (jd_seg_buffer st) = []" and free: "0 < free_segments st"
    and small: "lt_immutable (jd_lsm_tree st) = None" "unat (mt_size (lt_memtable (jd_lsm_tree st))) + BLOCKS_PER_SEGMENT < DEFAULT_LSM_FILE_CAPACITY"
    and sb: "mt_superblock m = sb" "superblock_init (jn_sb jenv) JOURNAL_RECORD_SIZE MAX_RECORDS n False sbmem (jr_sb_dev (mt_journal m)) =
      (Inr (in_memory sbmem sb), s)"
    and dirty: "dirty_keeps env0 sector (sb_data_start sb)" and ce: "all_made ce" and flag: "action_flag \<noteq> 1"
  obtains dk st2 m2 where "dm_jindisk_destroy False jops vf env m tables st = Some dk"
    and "dm_jindisk_create False jenv jops' stack ce True env0 n action_flag vf sbmem memory dk =
      Some (Inr (env\<lparr>je_superblock := in_memory sbmem sb\<rparr>, st2, m2))"
    and "env_ok env sector st2" and "dev_inv env st2 D"
proof -
  obtain st1 disk V where destroy: "dm_jindisk_destroy False jops vf env m tables st =
      Some \<lparr>dk_region = ld_region disk, dk_tables = meta_store vf (jd_metadata st1 disk m) tables,
            dk_raw = je_write_dirty env (jd_raw_dev st1), dk_superblock = jr_sb_dev (mt_journal m)\<rparr>"
    and c: "meta_inv (jd_metadata st1 disk m)" "index_inv env st1 V D (block_at env st1)" "ld_rit disk = jd_rit st1" "ld_dst disk = jd_dst st1"
      "on_disk (je_lsm env) (ld_region disk) (ld_catalogue disk) V" "nr_blocks st1 = nr_blocks st"
    by (rule closed_device [OF e env inv fs nc work free small])
  let ?m = "jd_metadata st1 disk m"
  let ?dk = "\<lparr>dk_region = ld_region disk, dk_tables = meta_store vf ?m tables, dk_raw = je_write_dirty env (jd_raw_dev st1),
    dk_superblock = jr_sb_dev (mt_journal m)\<rparr>"
  have M: "mt_superblock ?m = sb" "mt_rit ?m = jd_rit st1" "mt_dst ?m = jd_dst st1" "mt_bit_catalogue ?m = ld_catalogue disk"
    "mt_seg_validator ?m = jd_seg_validator st1" using sb(1) c(3,4) by (simp_all add: jd_metadata_def)
  let ?region = "memory\<lparr>jr_dev := dk_raw ?dk, jr_sb_dev := dk_superblock ?dk\<rparr>"
  have "superblock_init (jn_sb jenv) JOURNAL_RECORD_SIZE MAX_RECORDS n False sbmem (jr_sb_dev ?region) = (Inr (in_memory sbmem (mt_superblock ?m)), s)"
    using sb(2) M(1) by simp
  from reload_metadata [OF c(1) this flag] obtain m2 where
    m2: "metadata_create False jenv jops' stack vf sbmem True n action_flag (dk_tables ?dk) ?region =
        Some (Some m2, meta_store vf m2 (dk_tables ?dk), ?region\<lparr>jr_sb_dev := s\<rparr>)" "meta_inv m2" "same_tables ?m m2"
      "mt_superblock m2 = in_memory sbmem (mt_superblock ?m)" "mt_journal m2 = ?region\<lparr>jr_sb_dev := s\<rparr>"
    by (metis (no_types, lifting) closed_disk.select_convs(2))
  have T: "mt_rit m2 = jd_rit st1" "entry_at (mt_dst m2) = entry_at (jd_dst st1)" "slot_used (mt_bit_catalogue m2) = slot_used (ld_catalogue disk)"
    "ar_cells (bc_file_stats (mt_bit_catalogue m2)) = ar_cells (bc_file_stats (ld_catalogue disk))"
    using m2(3) M by (simp_all add: same_tables_def)
  have I2: "space_inv (mt_dst m2) (mt_seg_validator m2)" "catalogue_ok (mt_bit_catalogue m2)"
    "nr_slots (mt_bit_catalogue m2) = nr_slots (ld_catalogue disk)" "ds_nr_segment (mt_dst m2) = ds_nr_segment (jd_dst st1)"
    using m2(2,4) c(1) M by (simp_all add: meta_inv_def Let_def)
  let ?disk = "\<lparr>ld_region = ld_region disk, ld_catalogue = mt_bit_catalogue m2, ld_rit = mt_rit m2, ld_dst = mt_dst m2\<rparr>"
  have "on_disk (je_lsm env) (ld_region disk) (mt_bit_catalogue m2) V" using on_disk_cong [OF c(5) T(3) I2(3) T(4)] .
  then obtain t where t: "lsm_tree_init (je_lsm env) ?disk = Some t" "tree_holds (je_lsm env) t V" "lt_disk t = ?disk"
    using open_on_disk [of ?disk "je_lsm env" V] I2(2) by auto
  let ?st2 = "\<lparr>jd_lsm_tree = t, jd_seg_validator = mt_seg_validator m2, jd_nr_valid_segment = sv_count (mt_seg_validator m2),
    jd_raw_dev = je_write_dirty env (jd_raw_dev st1), jd_seg_buffer = segbuf_init (je_segbuf env0)\<rparr>"
  have create: "dm_jindisk_create False jenv jops' stack ce True env0 n action_flag vf sbmem memory ?dk =
      Some (Inr (env\<lparr>je_superblock := in_memory sbmem sb\<rparr>, ?st2, m2))"
    using ce m2(1,4,5) t(1) valid_segment_count [OF space_invD(3) [OF I2(1)]] M(1)
    by (simp add: dm_jindisk_create_def all_made_def sa_create_def sa_init_def setup_in_memory e)
  have E1: "env_ok env sector st1" using env unfolding env_ok_def c(6) .
  have dk: "dirty_keeps env sector (je_data_start env)" using dirty by (simp add: e dirty_keeps_def)
  have "env_ok env sector ?st2" "dev_inv env ?st2 D"
    by (rule reopened_holds [OF E1 c(2) T(1,2) I2(1,4) t(2) _ _ dk], simp_all add: t(3))+
  then show thesis using destroy create by (intro that)
qed

text \<open>
  Opened with the other packs, which are blank: the tables are as a format leaves them, whatever the closed device held.
\<close>

lemma blank_metadata:
  assumes "blank_packs vf' disk" and "superblock_init (jn_sb jenv) JOURNAL_RECORD_SIZE MAX_RECORDS n False sbmem (jr_sb_dev region) = (Inr sb, s)"
    and "sb_nr_segment sb \<le> INF_ADDR" and "action_flag \<noteq> 1"
  obtains m rest where "metadata_create False jenv jops stack vf' sbmem True n action_flag disk region = Some (Some m, rest)"
    and "formatted m" and "mt_superblock m = sb"
proof -
  obtain m where m: "metadata_tables vf' sb (region\<lparr>jr_sb_dev := s\<rparr>) disk = (Inr (), m)" "formatted m" "mt_superblock m = sb"
    using tables_blank [OF assms(1,3)] by blast
  show thesis
    by (rule that [OF _ m(2,3)])
      (use m(1) assms(2,4) in \<open>simp add: metadata_create_def metadata_init_def journal_region_create_def journal_region_init_def\<close>)
qed

section \<open>Properties\<close>

text \<open>
  What is relied on to make a device of \<open>n\<close> segments: ciphers that open what they sealed, dm-io that stores sectors,
  a superblock buffer that can be written, tables whose blocks can be read, and sector numbers that fit.
\<close>

definition setup_ok ::
  "('c, 'd) jd_env \<Rightarrow> ('d, 'e, 's) journal_env \<Rightarrow> ctr_env \<Rightarrow> ('d \<Rightarrow> nat \<Rightarrow> byte list) \<Rightarrow> nat \<Rightarrow> ('c, 'd, 's) closed_disk \<Rightarrow> bool" where
  "setup_ok env jenv ce sector n dk \<longleftrightarrow> gcm_works (je_cipher env) \<and> io_ok (je_io env) sector \<and> node_cipher_ok (le_cipher (je_lsm env)) \<and>
     sb_writes (jn_sb jenv) \<and> all_made ce \<and> meta_readable (dk_tables dk) \<and> dirty_keeps env sector (calc_metadata_blocks (n + NR_GC_PRESERVED)) \<and>
     (calc_metadata_blocks (n + NR_GC_PRESERVED) + (n + NR_GC_PRESERVED) * BLOCKS_PER_SEGMENT) * SECTORS_PER_BLOCK \<le> 2 ^ 64"

lemma copied_nothing: "distinct ps \<Longrightarrow> copied Map.empty lba ps pages = pages"
proof
  fix q
  assume "distinct ps"
  then show "copied Map.empty lba ps pages q = pages q"
    by (cases "q \<in> set ps") (auto simp: in_set_conv_nth copied_at copied_notin)
qed

text \<open>
  C4. Creating a device empties it.  Whatever the tables of the disk held, making a device with action
  flag 1 succeeds when no block fails; all its segments are free, and a read of any whole blocks returns and changes
  no page.
\<close>

theorem device_format_empty:
  assumes "setup_ok env jenv ce sector n dk"
    and "whole_blocks lba ps b" and "ps \<noteq> []" and "distinct ps" and "lba + length ps \<le> 2 ^ 31"
  shows "\<exists>env' st m. dm_jindisk_create False jenv jops stack ce True env n 1 vf sbmem memory dk = Some (Inr (env', st, m)) \<and>
    free_segments st = n + NR_GC_PRESERVED \<and> (\<exists>st'. jindisk_do_read env' b pages st = Some (pages, st'))"
proof -
  have S: "gcm_works (je_cipher env)" "io_ok (je_io env) sector" "sb_writes (jn_sb jenv)" "all_made ce" "meta_readable (dk_tables dk)"
    "(calc_metadata_blocks (n + NR_GC_PRESERVED) + (n + NR_GC_PRESERVED) * BLOCKS_PER_SEGMENT) * SECTORS_PER_BLOCK \<le> 2 ^ 64"
    using assms(1) by (simp_all add: setup_ok_def)
  obtain sb m st where c: "dm_jindisk_create False jenv jops stack ce True env n 1 vf sbmem memory dk = Some (Inr (setup_env env sb vf n, st, m))"
    "env_ok (setup_env env sb vf n) sector st" "dev_inv (setup_env env sb vf n) st Map.empty" "free_segments st = n + NR_GC_PRESERVED"
    by (rule format_device [OF S, of jops stack vf sbmem memory])
  have "copied Map.empty lba ps pages = pages" using assms(4) by (rule copied_nothing)
  then show ?thesis using c dev_read_ok [OF c(2,3) assms(2-5), of pages] by auto
qed

text \<open>A disk whose tables say that everything is in use.\<close>

definition demo_closed :: "(bit_node, nat \<Rightarrow> byte list, superblock) closed_disk" where
  "demo_closed = \<lparr>dk_region = (\<lambda>_. Inner_Node []),
     dk_tables = \<lparr>md_svt = (\<lambda>_. fresh_darray 0 (- 1)), md_rit = (\<lambda>_. fresh_darray 0 7),
       md_dst = (\<lambda>_. fresh_darray 0 \<lparr>de_nr_valid_block = 9, de_block_validity_table = (\<lambda>_. True)\<rparr>),
       md_bvt = (\<lambda>_. fresh_darray 0 (- 1)), md_stats = (\<lambda>_. fresh_darray 0 empty_stat)\<rparr>,
     dk_raw = (\<lambda>_. []), dk_superblock = demo_sb\<rparr>"

definition demo_ctr_env :: ctr_env where
  "demo_ctr_env = \<lparr>ce_device = (\<lambda>_. Some 0), ce_io_client = True, ce_cipher = True, ce_metadata = (\<lambda>_ _ _. True), ce_lsm_tree = True,
     ce_seg_allocator = True, ce_seg_buffer = True\<rparr>"

lemma demo_setup_ok: "setup_ok demo_jd_env demo_journal_env demo_ctr_env demo_sector 0 demo_closed"
proof -
  have "gcm_works demo_gcm" by (simp add: gcm_works_def demo_gcm_def comp_def)
  moreover have "meta_readable (dk_tables demo_closed)" by (simp add: meta_readable_def demo_closed_def darray_ok_def)
  moreover have "calc_metadata_blocks NR_GC_PRESERVED \<le> 2 ^ 32" using demo_data_start by (simp add: format_data_start)
  then have "(calc_metadata_blocks NR_GC_PRESERVED + NR_GC_PRESERVED * BLOCKS_PER_SEGMENT) * SECTORS_PER_BLOCK \<le> 2 ^ 64"
    by (simp add: NR_GC_PRESERVED_def BLOCKS_PER_SEGMENT_def SECTORS_PER_BLOCK_def)
  ultimately show ?thesis
    using demo_io_ok plain_cipher_ok journal_env_okD(5) [OF demo_journal_ok(1)]
    by (simp add: setup_ok_def demo_jd_env_def demo_env_def demo_ctr_env_def all_made_def dirty_keeps_def)
qed

theorem device_format_empty_witness:
  "\<exists>env st m st'. dm_jindisk_create False demo_journal_env nop_jops demo_commit demo_ctr_env True demo_jd_env 0 1 (\<lambda>_. True) zero_sb (demo_memory (\<lambda>_. []) demo_sb)
     demo_closed = Some (Inr (env, st, m)) \<and> free_segments st = 320 \<and>
     jindisk_do_read env (demo_bio REQ_OP_READ 6 [3, 4]) demo_pages st = Some (demo_pages, st')"
  using device_format_empty [OF demo_setup_ok demo_bio_whole [of 6 "[3, 4]" REQ_OP_READ], of nop_jops demo_commit "\<lambda>_. True" zero_sb "demo_memory (\<lambda>_. []) demo_sb" demo_pages]
  by (auto simp: NR_GC_PRESERVED_def)

text \<open>What a device just created is, and when the superblock is refused.\<close>

lemma made_first:
  assumes ok: "setup_ok env0 jenv ce sector n dk0"
    and made: "dm_jindisk_create False jenv jops stack ce True env0 n 1 vf sbmem memory dk0 = Some (Inr (env, st0, m))"
  obtains sb s where "env = setup_env env0 sb vf n" and "env_ok env sector st0" and "dev_inv env st0 Map.empty" and "first_session m st0"
    and "mt_superblock m = sb" and "jr_sb_dev (mt_journal m) = s"
    and "superblock_init (jn_sb jenv) JOURNAL_RECORD_SIZE MAX_RECORDS n True sbmem (dk_superblock dk0) = (Inr sb, s)"
proof -
  have S: "gcm_works (je_cipher env0)" "io_ok (je_io env0) sector" "sb_writes (jn_sb jenv)" "all_made ce" "meta_readable (dk_tables dk0)"
    "(calc_metadata_blocks (n + NR_GC_PRESERVED) + (n + NR_GC_PRESERVED) * BLOCKS_PER_SEGMENT) * SECTORS_PER_BLOCK \<le> 2 ^ 64"
    using ok by (simp_all add: setup_ok_def)
  obtain sb s m' st' where f: "dm_jindisk_create False jenv jops stack ce True env0 n 1 vf sbmem memory dk0 = Some (Inr (setup_env env0 sb vf n, st', m'))"
    "superblock_init (jn_sb jenv) JOURNAL_RECORD_SIZE MAX_RECORDS n True sbmem (dk_superblock dk0) = (Inr sb, s)" "mt_superblock m' = sb"
    "jr_sb_dev (mt_journal m') = s" "env_ok (setup_env env0 sb vf n) sector st'" "dev_inv (setup_env env0 sb vf n) st' Map.empty" "first_session m' st'"
    by (rule format_device [OF S, of jops stack vf sbmem memory])
  have "env = setup_env env0 sb vf n" "st0 = st'" "m = m'" using f(1) made by simp_all
  then show thesis using f(2-7) by (intro that) simp_all
qed

lemma superblock_refused:
  assumes "all_made ce" and "superblock_init (jn_sb jenv) JOURNAL_RECORD_SIZE MAX_RECORDS n False sbmem (dk_superblock dk) = (Inl e, s)" and "action_flag \<noteq> 1"
  shows "dm_jindisk_create False jenv jops stack ce True env0 n action_flag vf sbmem memory dk = Some (Inl EAGAIN)"
  using assms by (simp add: dm_jindisk_create_def all_made_def metadata_create_def metadata_init_def)

text \<open>
  C2. What was written survives closing and opening, if the superblock is accepted.  A device is created and takes
  writes, reads and work of its queue; it is closed with an empty queue, a free segment and fewer records than fill
  a memtable.  Then closing returns.  Making a device from what is left, with an action flag other than 1 and the
  same bits in \<^verbatim>\<open>valid_fields\<close>, puts the superblock into new memory, whose \<^verbatim>\<open>last_checkpoint_pack\<close> stays as it was; on
  disk is the one of the memory the device was created with.  If the checksum is the same with either, as when they are
  equal, making the device succeeds, and in every state the new device reaches a read returns what was written
  last, before or after.  Else it fails with \<^verbatim>\<open>EAGAIN\<close>.
\<close>

theorem device_survives_restart:
  assumes ok: "setup_ok env0 jenv ce sector n dk0"
    and made: "dm_jindisk_create False jenv jops stack ce True env0 n 1 vf sbmem memory dk0 = Some (Inr (env, st0, m))"
    and steps: "(dev_step env)\<^sup>*\<^sup>* (st0, Map.empty) (st, D)"
    and idle: "sb_work (jd_seg_buffer st) = []" "0 < free_segments st"
    and small: "lt_immutable (jd_lsm_tree st) = None" "unat (mt_size (lt_memtable (jd_lsm_tree st))) + BLOCKS_PER_SEGMENT < DEFAULT_LSM_FILE_CAPACITY"
    and flag: "action_flag \<noteq> 1"
  shows "\<exists>dk. dm_jindisk_destroy False jops vf env m (dk_tables dk0) st = Some dk \<and>
    (let again = dm_jindisk_create False jenv jops stack' ce True env0 n action_flag vf sbmem' memory' dk;
         sb = je_superblock env; sb' = sb\<lparr>sb_last_checkpoint_pack := sb_last_checkpoint_pack sbmem'\<rparr>; env' = env\<lparr>je_superblock := sb'\<rparr>
     in sb_last_checkpoint_pack sb = sb_last_checkpoint_pack sbmem \<and>
        (if se_crc (jn_sb jenv) (sb'\<lparr>sb_csum := 0\<rparr>) = se_crc (jn_sb jenv) (sb\<lparr>sb_csum := 0\<rparr>)
         then \<exists>st1 m1. again = Some (Inr (env', st1, m1)) \<and>
           (\<forall>st' D' lba ps b pages. (dev_step env')\<^sup>*\<^sup>* (st1, D) (st', D') \<and> whole_blocks lba ps b \<and> ps \<noteq> [] \<and> distinct ps \<and> lba + length ps \<le> 2 ^ 31 \<longrightarrow>
              (\<exists>pages' st''. jindisk_do_read env' b pages st' = Some (pages', st'') \<and>
                 (\<forall>i < length ps. pages' (ps ! i) = (case D' (lba + i) of Some d \<Rightarrow> d | None \<Rightarrow> pages (ps ! i)))))
         else again = Some (Inl EAGAIN)))"
proof -
  have S: "node_cipher_ok (le_cipher (je_lsm env0))" "sb_env_ok (jn_sb jenv)" "all_made ce"
    "dirty_keeps env0 sector (calc_metadata_blocks (n + NR_GC_PRESERVED))" using ok by (simp_all add: setup_ok_def sb_writes_def)
  obtain sb s where f: "env = setup_env env0 sb vf n" "env_ok env sector st0" "dev_inv env st0 Map.empty" "first_session m st0"
    "mt_superblock m = sb" "jr_sb_dev (mt_journal m) = s"
    "superblock_init (jn_sb jenv) JOURNAL_RECORD_SIZE MAX_RECORDS n True sbmem (dk_superblock dk0) = (Inr sb, s)"
    by (rule made_first [OF ok made])
  note F = formatted_superblock [OF f(7)]
  obtain s2 where sb: "superblock_init (jn_sb jenv) JOURNAL_RECORD_SIZE MAX_RECORDS n False sbmem' s =
      (if same_crc (jn_sb jenv) (in_memory sbmem' sb) sb then Inr (in_memory sbmem' sb) else Inl EACCES, s2)"
    by (rule superblock_reload [OF S(2) f(7)])
  have env: "je_superblock env = sb" by (simp add: f(1) setup_env_def)
  have dk: "dirty_keeps env0 sector (sb_data_start sb)" using S(4) F(1) by (simp add: superblock_for_def)
  note r = session_reach [OF steps f(2-4)]
  have inv: "env_ok env sector st" "dev_inv env st D" "first_session m st" using r by blast+
  show ?thesis
  proof (cases "same_crc (jn_sb jenv) (in_memory sbmem' sb) sb")
    case True
    with sb f(6) have init: "superblock_init (jn_sb jenv) JOURNAL_RECORD_SIZE MAX_RECORDS n False sbmem' (jr_sb_dev (mt_journal m)) = (Inr (in_memory sbmem' sb), s2)"
      by simp
    let ?env = "env\<lparr>je_superblock := in_memory sbmem' sb\<rparr>"
    obtain dk st1 m1 where c: "dm_jindisk_destroy False jops vf env m (dk_tables dk0) st = Some dk"
      "dm_jindisk_create False jenv jops stack' ce True env0 n action_flag vf sbmem' memory' dk = Some (Inr (?env, st1, m1))"
      and "env_ok env sector st1" "dev_inv env st1 D"
      by (rule reopen_device [OF f(1) inv S(1) idle small f(5) init dk S(3) flag])
    then have "env_ok ?env sector st1" "dev_inv ?env st1 D" by (simp_all add: env_superblock)
    then have "\<exists>pages' st''. jindisk_do_read ?env b pages st' = Some (pages', st'') \<and>
        (\<forall>i < length ps. pages' (ps ! i) = (case D' (lba + i) of Some d \<Rightarrow> d | None \<Rightarrow> pages (ps ! i)))"
      if "(dev_step ?env)\<^sup>*\<^sup>* (st1, D) (st', D')" "whole_blocks lba ps b" "ps \<noteq> []" "distinct ps" "lba + length ps \<le> 2 ^ 31" for st' D' lba ps b pages
      using dev.reach_ask [where env = ?env and sector = sector, OF that(1), of "(lba, ps, b, pages)"] that(2-5) by (auto simp: copied_at)
    with c True F(2) show ?thesis unfolding Let_def env same_crc_def in_memory_def by auto
  next
    case False
    obtain dk where c: "dm_jindisk_destroy False jops vf env m (dk_tables dk0) st = Some dk" "dk_superblock dk = jr_sb_dev (mt_journal m)"
      by (rule closed_parts [OF f(1) inv S(1) idle small])
    have "dm_jindisk_create False jenv jops stack' ce True env0 n action_flag vf sbmem' memory' dk = Some (Inl EAGAIN)"
      by (rule superblock_refused [OF S(3) _ flag]) (use sb False c(2) f(6) in simp)
    with c False F(2) show ?thesis unfolding Let_def env same_crc_def in_memory_def by simp
  qed
qed

text \<open>A small session: blocks 5 and 6 of a device just created are written from pages 1 and 2.\<close>

abbreviation "demo_mem \<equiv> demo_memory (\<lambda>_. []) demo_sb"
abbreviation "demo_written \<equiv> put_blocks 5 (map demo_pages [1, 2]) Map.empty"

lemma demo_session:
  assumes ok: "setup_ok demo_jd_env demo_journal_env demo_ctr_env demo_sector 0 dk"
  obtains env m st0 st where "dm_jindisk_create False demo_journal_env nop_jops demo_commit demo_ctr_env True demo_jd_env 0 1 (\<lambda>_. True) zero_sb demo_mem dk =
      Some (Inr (env, st0, m))"
    and "jindisk_do_write env demo_pages (demo_bio REQ_OP_WRITE 5 [1, 2]) st0 = Some st" and "(dev_step env)\<^sup>*\<^sup>* (st0, Map.empty) (st, demo_written)"
    and "sb_work (jd_seg_buffer st) = []" and "0 < free_segments st" and "lt_immutable (jd_lsm_tree st) = None"
    and "unat (mt_size (lt_memtable (jd_lsm_tree st))) + BLOCKS_PER_SEGMENT < DEFAULT_LSM_FILE_CAPACITY"
proof -
  have S: "gcm_works (je_cipher demo_jd_env)" "io_ok (je_io demo_jd_env) demo_sector" "sb_writes (jn_sb demo_journal_env)" "all_made demo_ctr_env"
    "meta_readable (dk_tables dk)"
    "(calc_metadata_blocks (0 + NR_GC_PRESERVED) + (0 + NR_GC_PRESERVED) * BLOCKS_PER_SEGMENT) * SECTORS_PER_BLOCK \<le> 2 ^ 64"
    using ok by (simp_all add: setup_ok_def)
  obtain sb m st0 where c: "dm_jindisk_create False demo_journal_env nop_jops demo_commit demo_ctr_env True demo_jd_env 0 1 (\<lambda>_. True) zero_sb demo_mem dk =
      Some (Inr (setup_env demo_jd_env sb (\<lambda>_. True) 0, st0, m))" "dev_inv (setup_env demo_jd_env sb (\<lambda>_. True) 0) st0 Map.empty"
    "free_segments st0 = 0 + NR_GC_PRESERVED" "pool_load (jd_seg_buffer st0) = 0" "tree_room (jd_lsm_tree st0) = 2 * DEFAULT_LSM_FILE_CAPACITY - 1"
    "jd_seg_buffer st0 = segbuf_init (je_segbuf demo_jd_env)"
    by (rule format_device [OF S, of nop_jops demo_commit "\<lambda>_. True" zero_sb demo_mem])
  let ?env = "setup_env demo_jd_env sb (\<lambda>_. True) 0"
  have g: "(5::nat) + length [1 :: nat, 2] \<le> 2 ^ 31" "\<forall>p \<in> set [1, 2]. length (demo_pages p) = DATA_BLOCK_SIZE"
    "pool_load (jd_seg_buffer st0) + length [1 :: nat, 2] < POOL_SIZE * BLOCKS_PER_SEGMENT"
    by (simp_all add: demo_pages_def c(4) POOL_SIZE_def BLOCKS_PER_SEGMENT_def)
  have "\<forall>k \<ge> 5. hd (pool_maps (jd_seg_buffer st0)) k = None" by (simp add: c(6) pool_init POOL_SIZE_def)
  with dev_write_ok [OF c(2) demo_bio_whole g, of REQ_OP_WRITE] obtain st where
    st: "jindisk_do_write ?env demo_pages (demo_bio REQ_OP_WRITE 5 [1, 2]) st0 = Some st" "same_index st0 st" "pool_load (jd_seg_buffer st) = 2"
      using c(4) by auto
  have "length (sb_work (jd_seg_buffer st)) = 0" using st(3) unfolding pool_load_def BLOCKS_PER_SEGMENT_def by linarith
  then have idle: "sb_work (jd_seg_buffer st) = []" by simp
  have small: "0 < free_segments st" "lt_immutable (jd_lsm_tree st) = None"
    "unat (mt_size (lt_memtable (jd_lsm_tree st))) + BLOCKS_PER_SEGMENT < DEFAULT_LSM_FILE_CAPACITY"
    using st(2) c(3,5) by (auto simp: same_index_def free_segments_def NR_GC_PRESERVED_def tree_room_def layout_consts BLOCKS_PER_SEGMENT_def split: if_splits)
  have "(dev_step ?env)\<^sup>*\<^sup>* (st0, Map.empty) (st, demo_written)" using dev_write [OF demo_bio_whole g st(1)] by blast
  then show thesis using c(1) st(1) idle small by (intro that)
qed

text \<open>
  Opened in memory of zeros again, blocks 6 and 7 are read into pages 3 and 4; opened in memory with a 1 in the field, the device
  is refused.
\<close>

theorem device_survives_restart_witness:
  "\<exists>env st0 m st dk env1 st1 m1 pages' st2.
     dm_jindisk_create False demo_journal_env nop_jops demo_commit demo_ctr_env True demo_jd_env 0 1 (\<lambda>_. True) zero_sb demo_mem demo_closed = Some (Inr (env, st0, m)) \<and>
     jindisk_do_write env demo_pages (demo_bio REQ_OP_WRITE 5 [1, 2]) st0 = Some st \<and>
     dm_jindisk_destroy False nop_jops (\<lambda>_. True) env m (dk_tables demo_closed) st = Some dk \<and>
     dm_jindisk_create False demo_journal_env nop_jops demo_commit demo_ctr_env True demo_jd_env 0 2 (\<lambda>_. True) zero_sb demo_mem dk = Some (Inr (env1, st1, m1)) \<and>
     jindisk_do_read env1 (demo_bio REQ_OP_READ 6 [3, 4]) demo_pages st1 = Some (pages', st2) \<and> pages' 3 = demo_pages 2 \<and> pages' 4 = demo_pages 4 \<and>
     dm_jindisk_create False demo_journal_env nop_jops demo_commit demo_ctr_env True demo_jd_env 0 2 (\<lambda>_. True) (zero_sb\<lparr>sb_last_checkpoint_pack := 1\<rparr>) demo_mem dk =
       Some (Inl EAGAIN)"
proof -
  let ?vf = "\<lambda>_. True"
  obtain env m st0 st where c: "dm_jindisk_create False demo_journal_env nop_jops demo_commit demo_ctr_env True demo_jd_env 0 1 ?vf zero_sb demo_mem demo_closed = Some (Inr (env, st0, m))"
    "jindisk_do_write env demo_pages (demo_bio REQ_OP_WRITE 5 [1, 2]) st0 = Some st"
    and s: "(dev_step env)\<^sup>*\<^sup>* (st0, Map.empty) (st, demo_written)" "sb_work (jd_seg_buffer st) = []" "0 < free_segments st" "lt_immutable (jd_lsm_tree st) = None"
      "unat (mt_size (lt_memtable (jd_lsm_tree st))) + BLOCKS_PER_SEGMENT < DEFAULT_LSM_FILE_CAPACITY"
    by (rule demo_session [OF demo_setup_ok])
  have crc: "se_crc (jn_sb demo_journal_env) = sb_last_checkpoint_pack" by (simp add: demo_journal_env_def)
  have z: "sb_last_checkpoint_pack zero_sb = 0" by (simp add: zero_sb_def)
  have "(2 :: nat) \<noteq> 1" by simp
  note R = device_survives_restart [OF demo_setup_ok c(1) s this, where stack' = demo_commit and memory' = demo_mem, unfolded Let_def crc]
  obtain dk where dk: "dm_jindisk_destroy False nop_jops ?vf env m (dk_tables demo_closed) st = Some dk"
    "sb_last_checkpoint_pack (je_superblock env) = 0"
    "dm_jindisk_create False demo_journal_env nop_jops demo_commit demo_ctr_env True demo_jd_env 0 2 ?vf (zero_sb\<lparr>sb_last_checkpoint_pack := 1\<rparr>) demo_mem dk = Some (Inl EAGAIN)"
    using R [where sbmem' = "zero_sb\<lparr>sb_last_checkpoint_pack := 1\<rparr>"] z by auto
  obtain env1 st1 m1 where r: "dm_jindisk_create False demo_journal_env nop_jops demo_commit demo_ctr_env True demo_jd_env 0 2 ?vf zero_sb demo_mem dk = Some (Inr (env1, st1, m1))"
    and rd: "\<forall>st' D' lba ps b pages. (dev_step env1)\<^sup>*\<^sup>* (st1, demo_written) (st', D') \<and>
        whole_blocks lba ps b \<and> ps \<noteq> [] \<and> distinct ps \<and> lba + length ps \<le> 2 ^ 31 \<longrightarrow>
        (\<exists>pages' st''. jindisk_do_read env1 b pages st' = Some (pages', st'') \<and>
          (\<forall>i < length ps. pages' (ps ! i) = (case D' (lba + i) of Some d \<Rightarrow> d | None \<Rightarrow> pages (ps ! i))))"
    using R [where sbmem' = zero_sb] dk(1,2) z by auto
  have "\<exists>pages' st2. jindisk_do_read env1 (demo_bio REQ_OP_READ 6 [3, 4]) demo_pages st1 = Some (pages', st2) \<and>
    (\<forall>i < length [3 :: nat, 4]. pages' ([3, 4] ! i) = (case demo_written (6 + i) of Some d \<Rightarrow> d | None \<Rightarrow> demo_pages ([3, 4] ! i)))"
    by (rule rd [rule_format]) (simp add: demo_bio_whole)
  then obtain pages' st2 where p: "jindisk_do_read env1 (demo_bio REQ_OP_READ 6 [3, 4]) demo_pages st1 = Some (pages', st2)"
    "\<forall>i < length [3 :: nat, 4]. pages' ([3, 4] ! i) = (case demo_written (6 + i) of Some d \<Rightarrow> d | None \<Rightarrow> demo_pages ([3, 4] ! i))"
    by (elim exE conjE) (rule that)
  from spec [OF p(2), of 0] spec [OF p(2), of 1] have "pages' 3 = demo_pages 2" "pages' 4 = demo_pages 4" by (simp_all add: put_blocks_def)
  with c dk(1,3) r p(1) show ?thesis by blast
qed

text \<open>
  C39. Making a device anew may look at the other checkpoint packs, and then it is empty.  A device is created, used
  and closed as above.  If the bits of \<^verbatim>\<open>valid_fields\<close>, memory nobody sets, are all different from those it was created with,
  if the packs they name are as on a disk of zeros, and if the checksum accepts the superblock, then making the device
  succeeds; but every segment is free again, and a read of any whole blocks returns and changes no page, whatever had been
  written and read back before.
\<close>

theorem device_other_packs_empty:
  assumes ok: "setup_ok env0 jenv ce sector n dk0"
    and made: "dm_jindisk_create False jenv jops stack ce True env0 n 1 vf sbmem memory dk0 = Some (Inr (env, st0, m))"
    and steps: "(dev_step env)\<^sup>*\<^sup>* (st0, Map.empty) (st, D)"
    and idle: "sb_work (jd_seg_buffer st) = []" "0 < free_segments st"
    and small: "lt_immutable (jd_lsm_tree st) = None" "unat (mt_size (lt_memtable (jd_lsm_tree st))) + BLOCKS_PER_SEGMENT < DEFAULT_LSM_FILE_CAPACITY"
    and flag: "action_flag \<noteq> 1"
    and other: "\<forall>f. vf' f \<noteq> vf f" and blank: "blank_packs vf' (dk_tables dk0)"
    and accepted: "sb_last_checkpoint_pack sbmem' = sb_last_checkpoint_pack sbmem"
  shows "\<exists>dk env' st1 m1. dm_jindisk_destroy False jops vf env m (dk_tables dk0) st = Some dk \<and>
    dm_jindisk_create False jenv jops stack' ce True env0 n action_flag vf' sbmem' memory' dk = Some (Inr (env', st1, m1)) \<and>
    free_segments st1 = n + NR_GC_PRESERVED \<and>
    (\<forall>lba ps b pages. whole_blocks lba ps b \<and> ps \<noteq> [] \<and> distinct ps \<and> lba + length ps \<le> 2 ^ 31 \<longrightarrow>
       (\<exists>st2. jindisk_do_read env' b pages st1 = Some (pages, st2)))"
proof -
  have S: "gcm_works (je_cipher env0)" "io_ok (je_io env0) sector" "all_made ce"
    "(calc_metadata_blocks (n + NR_GC_PRESERVED) + (n + NR_GC_PRESERVED) * BLOCKS_PER_SEGMENT) * SECTORS_PER_BLOCK \<le> 2 ^ 64"
    "node_cipher_ok (le_cipher (je_lsm env0))" "sb_env_ok (jn_sb jenv)" using ok by (simp_all add: setup_ok_def sb_writes_def)
  obtain sb s where f: "env = setup_env env0 sb vf n" "env_ok env sector st0" "dev_inv env st0 Map.empty" "first_session m st0"
    "mt_superblock m = sb" "jr_sb_dev (mt_journal m) = s"
    "superblock_init (jn_sb jenv) JOURNAL_RECORD_SIZE MAX_RECORDS n True sbmem (dk_superblock dk0) = (Inr sb, s)"
    by (rule made_first [OF ok made])
  note F = formatted_superblock [OF f(7)] and r = session_reach [OF steps f(2-4)]
  obtain s2 where "superblock_init (jn_sb jenv) JOURNAL_RECORD_SIZE MAX_RECORDS n False sbmem' s =
      (if same_crc (jn_sb jenv) (in_memory sbmem' sb) sb then Inr (in_memory sbmem' sb) else Inl EACCES, s2)"
    by (rule superblock_reload [OF S(6) f(7)])
  moreover have "in_memory sbmem' sb = sb" using accepted F(2) by (simp add: in_memory_same)
  ultimately have init: "superblock_init (jn_sb jenv) JOURNAL_RECORD_SIZE MAX_RECORDS n False sbmem' s = (Inr sb, s2)"
    by (simp add: same_crc_def)
  have inv: "env_ok env sector st" "dev_inv env st D" "first_session m st" using r by blast+
  obtain dk where c: "dm_jindisk_destroy False jops vf env m (dk_tables dk0) st = Some dk" "dk_superblock dk = jr_sb_dev (mt_journal m)"
    and b: "blank_packs vf' (dk_tables dk)"
    by (rule closed_parts [OF f(1) inv S(5) idle small]) (use blank other in blast)
  have seg: "sb_nr_segment sb \<le> INF_ADDR" using segments_fit [OF S(4)] F(1) by (simp add: superblock_for_def)
  let ?region = "memory'\<lparr>jr_dev := dk_raw dk, jr_sb_dev := dk_superblock dk\<rparr>"
  have "superblock_init (jn_sb jenv) JOURNAL_RECORD_SIZE MAX_RECORDS n False sbmem' (jr_sb_dev ?region) = (Inr sb, s2)"
    using init c(2) f(6) by simp
  from blank_metadata [OF b this seg flag] obtain m1 rest where
    m1: "metadata_create False jenv jops stack' vf' sbmem' True n action_flag (dk_tables dk) ?region = Some (Some m1, rest)" "formatted m1" "mt_superblock m1 = sb" .
  obtain st1 where d: "dm_jindisk_create False jenv jops stack' ce True env0 n action_flag vf' sbmem' memory' dk = Some (Inr (setup_env env0 sb vf' n, st1, m1))"
    "env_ok (setup_env env0 sb vf' n) sector st1" "dev_inv (setup_env env0 sb vf' n) st1 Map.empty" "free_segments st1 = n + NR_GC_PRESERVED"
    by (rule device_of_formatted [OF S(1-4) m1 F(1)])
  have "\<exists>st2. jindisk_do_read (setup_env env0 sb vf' n) b pages st1 = Some (pages, st2)"
    if "whole_blocks lba ps b" "ps \<noteq> []" "distinct ps" "lba + length ps \<le> 2 ^ 31" for lba ps b pages
    using dev_read_ok [OF d(2,3) that, of pages] copied_nothing [OF that(3)] by auto
  then show ?thesis using c(1) d(1,4) by blast
qed

text \<open>A disk of zeros: the session above is lost, pages 3 and 4 stay as they were.\<close>

definition demo_zeros :: "(bit_node, nat \<Rightarrow> byte list, superblock) closed_disk" where
  "demo_zeros = demo_closed\<lparr>dk_tables := \<lparr>md_svt = (\<lambda>_. fresh_darray 0 0), md_rit = (\<lambda>_. fresh_darray 0 0),
     md_dst = (\<lambda>_. fresh_darray 0 empty_entry), md_bvt = (\<lambda>_. fresh_darray 0 0), md_stats = (\<lambda>_. fresh_darray 0 empty_stat)\<rparr>\<rparr>"

lemma demo_zeros_ok:
  "setup_ok demo_jd_env demo_journal_env demo_ctr_env demo_sector 0 demo_zeros" "blank_packs (\<lambda>_. False) (dk_tables demo_zeros)"
proof -
  have "meta_readable (dk_tables demo_zeros)" by (simp add: meta_readable_def demo_zeros_def darray_ok_def)
  then show "setup_ok demo_jd_env demo_journal_env demo_ctr_env demo_sector 0 demo_zeros"
    using demo_setup_ok by (simp add: setup_ok_def)
  show "blank_packs (\<lambda>_. False) (dk_tables demo_zeros)" by (simp add: blank_packs_def demo_zeros_def darray_ok_def)
qed

theorem device_other_packs_empty_witness:
  "\<exists>env st0 m st dk env1 st1 m1 st2.
     dm_jindisk_create False demo_journal_env nop_jops demo_commit demo_ctr_env True demo_jd_env 0 1 (\<lambda>_. True) zero_sb demo_mem demo_zeros = Some (Inr (env, st0, m)) \<and>
     jindisk_do_write env demo_pages (demo_bio REQ_OP_WRITE 5 [1, 2]) st0 = Some st \<and>
     dm_jindisk_destroy False nop_jops (\<lambda>_. True) env m (dk_tables demo_zeros) st = Some dk \<and>
     dm_jindisk_create False demo_journal_env nop_jops demo_commit demo_ctr_env True demo_jd_env 0 2 (\<lambda>_. False) zero_sb demo_mem dk = Some (Inr (env1, st1, m1)) \<and>
     jindisk_do_read env1 (demo_bio REQ_OP_READ 5 [3, 4]) demo_pages st1 = Some (demo_pages, st2)"
proof -
  obtain env m st0 st where c: "dm_jindisk_create False demo_journal_env nop_jops demo_commit demo_ctr_env True demo_jd_env 0 1 (\<lambda>_. True) zero_sb demo_mem demo_zeros = Some (Inr (env, st0, m))"
    "jindisk_do_write env demo_pages (demo_bio REQ_OP_WRITE 5 [1, 2]) st0 = Some st"
    and s: "(dev_step env)\<^sup>*\<^sup>* (st0, Map.empty) (st, demo_written)" "sb_work (jd_seg_buffer st) = []" "0 < free_segments st" "lt_immutable (jd_lsm_tree st) = None"
      "unat (mt_size (lt_memtable (jd_lsm_tree st))) + BLOCKS_PER_SEGMENT < DEFAULT_LSM_FILE_CAPACITY"
    by (rule demo_session [OF demo_zeros_ok(1)])
  have a: "(2 :: nat) \<noteq> 1" "\<forall>f :: checkpoint_pack_field. False \<noteq> True" by simp_all
  obtain dk env1 st1 m1 where d: "dm_jindisk_destroy False nop_jops (\<lambda>_. True) env m (dk_tables demo_zeros) st = Some dk"
    "dm_jindisk_create False demo_journal_env nop_jops demo_commit demo_ctr_env True demo_jd_env 0 2 (\<lambda>_. False) zero_sb demo_mem dk = Some (Inr (env1, st1, m1))"
    and rd: "\<forall>lba ps b pages. whole_blocks lba ps b \<and> ps \<noteq> [] \<and> distinct ps \<and> lba + length ps \<le> 2 ^ 31 \<longrightarrow>
      (\<exists>st2. jindisk_do_read env1 b pages st1 = Some (pages, st2))"
    using device_other_packs_empty [OF demo_zeros_ok(1) c(1) s a demo_zeros_ok(2) refl, where stack' = demo_commit and memory' = demo_mem]
    by (elim exE conjE) (rule that)
  have "whole_blocks 5 [3, 4] (demo_bio REQ_OP_READ 5 [3, 4]) \<and> [3, 4 :: nat] \<noteq> [] \<and> distinct [3, 4 :: nat] \<and> 5 + length [3, 4 :: nat] \<le> 2 ^ 31"
    by (simp add: demo_bio_whole)
  then have "\<exists>st2. jindisk_do_read env1 (demo_bio REQ_OP_READ 5 [3, 4]) demo_pages st1 = Some (demo_pages, st2)"
    using rd by blast
  with c d show ?thesis by blast
qed

end
