(* ===== verification/Module_Control.thy ===== *)
theory Module_Control
  imports Capacity Dm_Params
begin

text \<open>
  \<^verbatim>\<open>dm-jindisk.c\<close>: loading and unloading the module, its control device \<^verbatim>\<open>/dev/jindisk\<close>, and clearing the statistics.
  The kernel's registration functions and the access to user memory are arguments.
\<close>

section \<open>Registration\<close>

text \<open>What the module has registered, and the statistics as the list of their counters.\<close>

record module_state =
  ms_sysfs :: bool
  ms_misc :: bool
  ms_target :: bool
  ms_disk_counter :: "nat list"

record reg_env =
  re_sysfs_create_files :: "errno option"
  re_misc_register :: "errno option"
  re_dm_register_target :: "errno option"

definition init_dm_jindisk_target :: "reg_env \<Rightarrow> module_state \<Rightarrow> unit result \<times> module_state" where
  "init_dm_jindisk_target env ms =
     (case re_sysfs_create_files env of
        Some r \<Rightarrow> (Inl r, ms)
      | None \<Rightarrow> let ms1 = ms\<lparr>ms_sysfs := True\<rparr> in
     (case re_misc_register env of
        Some r \<Rightarrow> (Inl r, ms1\<lparr>ms_sysfs := False\<rparr>)
      | None \<Rightarrow> let ms2 = ms1\<lparr>ms_misc := True\<rparr> in
     (case re_dm_register_target env of
        Some r \<Rightarrow> (Inl r, ms2\<lparr>ms_misc := False, ms_sysfs := False\<rparr>)
      | None \<Rightarrow> (Inr (), ms2\<lparr>ms_target := True\<rparr>))))"

definition cleanup_dm_jindisk_target :: "module_state \<Rightarrow> module_state" where
  "cleanup_dm_jindisk_target ms = ms\<lparr>ms_sysfs := False, ms_misc := False, ms_target := False\<rparr>"

definition unregistered :: "module_state \<Rightarrow> bool" where
  "unregistered ms \<longleftrightarrow> \<not> ms_sysfs ms \<and> \<not> ms_misc ms \<and> \<not> ms_target ms"

text \<open>Loading registers everything or nothing, and unloading takes back what loading did.\<close>

lemma init_all_or_nothing:
  assumes "unregistered ms" and "init_dm_jindisk_target env ms = (r, ms')"
  shows "r = Inr () \<longleftrightarrow> ms_sysfs ms' \<and> ms_misc ms' \<and> ms_target ms'" and "r \<noteq> Inr () \<longleftrightarrow> unregistered ms'"
    and "r \<noteq> Inr () \<Longrightarrow> ms' = ms" and "cleanup_dm_jindisk_target ms' = ms"
  using assms by (auto simp: init_dm_jindisk_target_def unregistered_def cleanup_dm_jindisk_target_def Let_def split: option.splits)

section \<open>Statistics\<close>

text \<open>
  \<^verbatim>\<open>kstrtouint\<close> into an int: a number from \<open>2 ^ 31\<close> on is stored as a negative one.  The answer is the number of bytes
  taken.
\<close>

definition kstrtouint :: "byte list \<Rightarrow> 32 word option" where
  "kstrtouint s = (case kstrtoul s of Some v \<Rightarrow> if v < 2 ^ 32 then Some (of_nat v) else None | None \<Rightarrow> None)"

definition clear_stats_store :: "byte list \<Rightarrow> module_state \<Rightarrow> nat result \<times> module_state" where
  "clear_stats_store buf ms =
     (case kstrtouint buf of
        None \<Rightarrow> (Inl EINVAL, ms)
      | Some value \<Rightarrow> (Inr (length buf), if 0 < sint value then ms\<lparr>ms_disk_counter := map (\<lambda>_. 0) (ms_disk_counter ms)\<rparr> else ms))"

text \<open>A number that is positive as an int clears the counters; any other leaves them.\<close>

lemma clear_stats_decimal:
  assumes "v < 2 ^ 32"
  shows "clear_stats_store (decimal v) ms = (Inr (length (decimal v)),
    if 0 < v \<and> v < 2 ^ 31 then ms\<lparr>ms_disk_counter := map (\<lambda>_. 0) (ms_disk_counter ms)\<rparr> else ms)"
proof -
  have "kstrtouint (decimal v) = Some (of_nat v)" using assms by (simp add: kstrtouint_def kstrtoul_decimal)
  moreover have "0 < sint (of_nat v :: 32 word) \<longleftrightarrow> 0 < v \<and> v < 2 ^ 31"
  proof (cases "v < 2 ^ 31")
    case True
    then show ?thesis by (simp add: signed_of_nat signed_take_bit_int_eq_self)
  next
    case False
    then have "int v div 2 ^ 31 = 1" using assms by simp
    then have "bit (int v) 31" by (simp add: bit_iff_odd)
    then have "\<not> 0 \<le> sint (of_nat v :: 32 word)" by (simp add: signed_of_nat signed_take_bit_nonnegative_iff)
    then show ?thesis using False by simp
  qed
  ultimately show ?thesis by (simp add: clear_stats_store_def)
qed

section \<open>The control device\<close>

record calc_task =
  ct_real_sectors :: nat
  ct_avail_sectors :: nat

text \<open>
  User memory \<open>'u\<close>: each access answers the number of bytes it did not copy.
\<close>

record 'u user_access =
  ua_read_task :: "nat \<Rightarrow> 'u \<Rightarrow> nat \<times> calc_task"
  ua_write_task :: "nat \<Rightarrow> calc_task \<Rightarrow> 'u \<Rightarrow> nat \<times> 'u"
  ua_write :: "nat \<Rightarrow> byte list \<Rightarrow> 'u \<Rightarrow> nat \<times> 'u"

text \<open>The request numbers: direction, size of the argument, type \<^verbatim>\<open>J\<close> and number.\<close>

definition ioc :: "nat \<Rightarrow> nat \<Rightarrow> nat \<Rightarrow> nat" where
  "ioc dir sz nr = dir * 2 ^ 30 + sz * 2 ^ 16 + 74 * 2 ^ 8 + nr"

definition JINDISK_CALC_AVAIL_SECTORS :: nat where "JINDISK_CALC_AVAIL_SECTORS = ioc 3 16 0"
definition JINDISK_GET_MEASUREMENT :: nat where "JINDISK_GET_MEASUREMENT = ioc 2 AES_GCM_AUTH_SIZE 1"

definition ctl_calc_avail_sectors :: "'u user_access \<Rightarrow> nat \<Rightarrow> 'u \<Rightarrow> (int \<times> 'u) option" where
  "ctl_calc_avail_sectors ua arg u =
     (case ua_read_task ua arg u of
        (r, ct) \<Rightarrow>
          if r \<noteq> 0 then Some (int r, u)
          else map_option (\<lambda>avail. case ua_write_task ua arg (ct\<lparr>ct_avail_sectors := avail\<rparr>) u of (r, u') \<Rightarrow> (int r, u'))
                 (calc_avail_sectors (ct_real_sectors ct)))"

text \<open>\<open>jindisk\<close> is the \<^verbatim>\<open>root_mac\<close> of the superblock of the device that was made last, if any.\<close>

definition ctl_get_measurement :: "'u user_access \<Rightarrow> byte list option \<Rightarrow> nat \<Rightarrow> 'u \<Rightarrow> int \<times> 'u" where
  "ctl_get_measurement ua jindisk arg u =
     (case jindisk of
        None \<Rightarrow> (- 22, u)
      | Some root_mac \<Rightarrow> (case ua_write ua arg (take AES_GCM_AUTH_SIZE root_mac) u of (r, u') \<Rightarrow> (int r, u')))"

definition dev_jindisk_ioctl :: "'u user_access \<Rightarrow> byte list option \<Rightarrow> nat \<Rightarrow> nat \<Rightarrow> 'u \<Rightarrow> (int \<times> 'u) option" where
  "dev_jindisk_ioctl ua jindisk ioctl arg u =
     (if ioctl = JINDISK_CALC_AVAIL_SECTORS then ctl_calc_avail_sectors ua arg u
      else if ioctl = JINDISK_GET_MEASUREMENT then Some (ctl_get_measurement ua jindisk arg u)
      else Some (- 22, u))"

text \<open>
  With user memory that can be accessed, the request for the size stores what the search for the size gives.
\<close>

lemma ioctl_calc_avail:
  assumes "ua_read_task ua arg u = (0, ct)" and "\<And>t. \<exists>u'. ua_write_task ua arg t u = (0, u')"
    and "calc_avail_sectors (ct_real_sectors ct) = Some avail"
  shows "\<exists>u'. dev_jindisk_ioctl ua jindisk JINDISK_CALC_AVAIL_SECTORS arg u = Some (0, u') \<and>
    ua_write_task ua arg (ct\<lparr>ct_avail_sectors := avail\<rparr>) u = (0, u')"
proof -
  obtain u' where "ua_write_task ua arg (ct\<lparr>ct_avail_sectors := avail\<rparr>) u = (0, u')" using assms(2) by blast
  then show ?thesis using assms by (simp add: dev_jindisk_ioctl_def ctl_calc_avail_sectors_def)
qed

end
