(* ===== verification/Spec2Isabelle.thy ===== *)
theory Spec2Isabelle
  imports User_Cli Device_Commit Device_Setup Module_Control
begin

text \<open>
  JinDisk: a log-structured, encrypted block device for the Linux device mapper, and the command line
  tool that sets it up.  The paths below are those of \<^verbatim>\<open>src/kernel-module/c/\<close> (\<^verbatim>\<open>src/\<close> and \<^verbatim>\<open>include/\<close>) and
  \<^verbatim>\<open>src/user-cli/src/c/\<close>.

  \<^bold>\<open>The program.\<close>  A write puts its blocks into a pool of four data segments in memory
  (\<^verbatim>\<open>segment_buffer.c\<close>).  An entry that is full is flushed by a work item: a free segment of the disk is
  allocated (\<^verbatim>\<open>segment_allocator.c\<close>), every block is encrypted under the key of its entry (\<^verbatim>\<open>crypto.c\<close>) and
  written there, and the place, key and authentication tag of the block go as a record into an LSM tree
  indexed by block number (\<^verbatim>\<open>lsm_tree.c\<close>).  The tree is a memtable (\<^verbatim>\<open>memtable.c\<close>) over levels of index
  files, which are B-trees of encrypted nodes with a cache of leaves (\<^verbatim>\<open>cache.c\<close>).  Tables on the disk
  (\<^verbatim>\<open>metadata.c\<close> on the arrays of \<^verbatim>\<open>disk_structs.c\<close>) say which segments are in use, which blocks of a
  segment are valid, which logical block a physical one belongs to, and which index files there are.
  A read looks into the pool, then into the tree, and decrypts what it finds (\<^verbatim>\<open>dm-jindisk.c\<close>).

  \<^bold>\<open>The theories\<close>, from the bottom up.

  \<^item> \<open>Prelude\<close>: error codes, results (\<open>errno + 'a\<close>), byte and block types, shared constants of
    \<^verbatim>\<open>dm_jindisk.h\<close>, the collections of simplification rules and the list, option and word lemmas.
    \<open>Rbtree\<close>: the ordered trees of \<^verbatim>\<open>linux/rbtree.h\<close> by the comparison functions the callers pass in.
  \<^item> \<open>Memtable\<close> (\<^verbatim>\<open>memtable.c\<close>): put, get, remove, walk.  The comparison truncates to a C int, so that
    the table is a map for keys below \<open>2 ^ 31\<close> (\<open>key_table\<close>) and loses keys that are further apart.
  \<^item> \<open>Cache\<close> (\<^verbatim>\<open>cache.c\<close>): refines a bounded most-recently-used list (\<open>lookaside\<close>).
  \<^item> \<open>Disk_Array\<close>, \<open>Disk_Bitset\<close> (\<^verbatim>\<open>disk_structs.c\<close>): refine independent cells (\<open>cell_store\<close>) and bits
    (\<open>bit_vector\<close>); the bytes outside the region never change.
  \<^item> \<open>Layout\<close> (\<^verbatim>\<open>metadata.c\<close>, \<^verbatim>\<open>lsm_tree.c\<close>): sizes and places of the regions, the superblock and
    when it is accepted again; \<open>Capacity\<close>: \<^verbatim>\<open>calc_avail_sectors\<close> ends and finds the largest size that fits.
  \<^item> \<open>Seg_Validator\<close>, \<open>Reverse_Index\<close>, \<open>Data_Seg_Table\<close>, \<open>Bit_Catalogue\<close> (\<^verbatim>\<open>metadata.c\<close>): the tables, each
    with its invariant and what every operation does to it, errors included.
  \<^item> \<open>Bit_File\<close>, \<open>Bit_Tree\<close>, \<open>Bit_Iterator\<close>, \<open>Bit_Range\<close> (\<^verbatim>\<open>lsm_tree.c\<close>): nodes, builder, search, iterator and
    range search of an index file; what was built is found and iterated over again (\<open>lookup_file\<close>).
    \<open>Bit_Level\<close>: levels, their array of files by first block and the files that overlap a range.
  \<^item> \<open>Compaction\<close>: the compaction job.  \<open>Merge_Heap\<close>, \<open>Merge_Groups\<close>, \<open>Merge_Output\<close>, \<open>Merge_Loop\<close>, \<open>Merge_Run\<close>,
    \<open>Compaction_Merge\<close> and \<open>Compaction_Run\<close> prove that it ends and what it makes of the two levels.
  \<^item> \<open>Lsm_Tree\<close>: the tree with its put, searches and minor and major compaction.  \<open>Lsm_Search\<close> and
    \<open>Lsm_Put\<close> prove it to be a map from block numbers to records (\<open>block_index\<close>); \<open>Lookup_Caches\<close> shows that
    lookups change nothing but cached leaves.
  \<^item> \<open>Crypto\<close> (\<^verbatim>\<open>crypto.c\<close>): the wrappers of the kernel's ciphers with all error paths.
  \<^item> \<open>Segment_Buffer\<close> (\<^verbatim>\<open>segment_buffer.c\<close>): the pool and its queue of work.  \<open>Device_Flush\<close>: flushing,
    threaded logging and the segment allocator with its cleaning.  \<open>Device\<close> (\<^verbatim>\<open>dm-jindisk.c\<close>): the requests.
  \<^item> \<open>Device_Blocks\<close>, \<open>Device_Index\<close>, \<open>Device_Store\<close>, \<open>Device_Read\<close>: the invariant that ties tree, tables, disk and
    pool together, kept by flushes, writes and reads.  \<open>Device_Steps\<close>: the device as a state machine that
    refines a map from blocks to data (\<open>block_store\<close>).  \<open>Checkpoint\<close> and \<open>Device_Commit\<close>: flush requests.
  \<^item> \<open>Journal\<close> (\<^verbatim>\<open>journal.c\<close>, \<^verbatim>\<open>journal.h\<close>): the ring of journal blocks with both tables of operations; which one
    \<^verbatim>\<open>journal_region_init\<close> installs depends on an argument that stands for \<^verbatim>\<open>ENABLE_JOURNAL\<close>.  \<open>Journal_Blocks\<close>,
    \<open>Journal_Ops\<close>: sealed blocks and what encrypting, writing and loading do to them.  \<open>Journal_Log\<close>: the ring
    refines a bounded log of records with a synchronised part.  \<open>Journal_Recovery\<close>, \<open>Journal_Steps\<close>: what a
    restart reads back (\<open>durable_log\<close>).  The operations call each other through a table of functions; \<open>default_jops\<close>
    unfolds that table to a call depth, and five is the deepest chain of calls the code has.
  \<^item> \<open>Metadata\<close> (\<^verbatim>\<open>metadata.c\<close>): making, formatting, reloading and closing the metadata as a whole.  \<open>Lsm_Reopen\<close>: closing
    an LSM tree and opening it again.  \<open>Device_Setup\<close> (\<^verbatim>\<open>dm-jindisk.c\<close>): the device made from the disk and closed again;
    creating it empties it, and what was written survives closing and opening if the superblock is accepted.
  \<^item> \<open>Module_Control\<close> (\<^verbatim>\<open>dm-jindisk.c\<close>): registration of the module, the ioctl requests, clearing of the statistics.
  \<^item> \<open>Dm_Params\<close>, \<open>User_Cli\<close> (the tool, and \<^verbatim>\<open>dm_jindisk_target_ctr\<close>): the parameters the tool writes are the
    ones the kernel reads, and the exit status of the commands.

  \<^bold>\<open>How the code is modelled.\<close>  A struct is a record, an operation a function that returns the new state;
  an error return is \<open>Inl\<close> of its code.  The state of \<^verbatim>\<open>struct dm_jindisk\<close> is \<^typ>\<open>('c, 'd) dm_jindisk\<close>: the
  tree, which carries the tables it changes (\<open>ld_rit\<close>, \<open>ld_dst\<close>, \<open>ld_catalogue\<close>) and the index region, the
  validity table of the segments, the pool and the raw device.  Block numbers and sizes are natural
  numbers with \<^verbatim>\<open>INF_ADDR\<close> as a value of its own; machine words stand where the code depends on
  their width (groups of bitsets, the size of a memtable, differences of keys, sector arithmetic).  Loops
  are structural where the bound is known; the loops that need an argument to end are fuelled by a bound
  or are partial functions, whose \<open>None\<close> is also the value for reading memory that was never written.
  The theorems on them state that they return.

  \<^bold>\<open>What is assumed\<close> of code outside the repository, always as a hypothesis with an example that
  satisfies it: dm-io stores sectors (\<open>io_ok\<close>); dm-bufio gives back the block that was written, and writing
  its dirty buffers leaves the data alone (\<open>commit_env\<close>); the cipher decrypts what it encrypted (\<open>gcm_works\<close>,
  \<open>node_cipher_ok\<close>); the heap of \<^verbatim>\<open>linux/min_heap.h\<close> has a least element at its root (\<open>min_heap_ok\<close>); CRC,
  random numbers, the system calls and libdevmapper are arguments without hypotheses.

  \<^bold>\<open>Conditions of the theorems on the device.\<close>  Requests consist of whole blocks below \<open>2 ^ 31\<close>; a write
  fits in the pool beside what waits there; a flush finds a free segment and room in the tree for a
  segment of records (\<open>tree_room\<close>: a second full memtable would replace the immutable one).  The first
  three cannot be dropped: \<open>Memtable\<close>, \<open>Segment_Buffer\<close> and \<open>Lsm_Put\<close> each prove what is lost without them.

  \<^bold>\<open>The journal.\<close>  \<^verbatim>\<open>ENABLE_JOURNAL\<close> is 0 in the module that is built, whose operations are then the empty ones;
  the theorems on the device are about that module.  The theorems on the journal are about the default operations: a
  restart, by which time dm-bufio has written the superblock back and its check has passed, reads the window of the last synchronisation, but
  for the records of the round before that share a block of the ring with the newest one.  A window of one record
  leaves \<^verbatim>\<open>last_sync_record\<close> unset (a property of its own); the steps of \<open>journal_step\<close> after such a restart
  suppose that the memory held the right value.  Recovery in the code looks at the records it loads and redoes
  nothing, so that there is no repair of the tables to prove.

  \<^bold>\<open>Restarts.\<close>  The theorem on closing and opening a device is about its first session: no compaction has run, and
  the records fit in one memtable, which closing writes as the only index file.  With more records closing
  writes the immutable memtable first and then has to compact level 0, which is full with one file.  The flush queue
  is empty at the time of closing, since the pool is flushed out of order.
  Two pieces of memory that \<^verbatim>\<open>kmalloc\<close> does not clear decide what opening does, and both are arguments of the model.
  \<^verbatim>\<open>last_checkpoint_pack\<close> of the superblock is under its checksum, a format does not set it and a read does not
  restore it: the theorem says that the device is opened, with all that was written, exactly when the checksum does not
  tell the new memory from the old, and that the constructor fails otherwise.  The bits of \<^verbatim>\<open>valid_fields\<close> are the
  same in both sessions there; with other bits the tables of the other pack are read, and the device is then empty
  (a property of its own).  There is no theorem on a crash: the tables are written back by
  dm-bufio at any time and in any order.

  \<^bold>\<open>Not modelled.\<close>  Printing of the statistics.  Locks, work queues and \<^verbatim>\<open>async.c\<close>: a request, a
  work item or a compaction is one step, and the steps are interleaved in any order.  Failing allocations
  of memory, its release and the statistics.  Modelled, but not a step of the state machine of the device:
  compaction, cleaning of segments, threaded logging, flush requests and requests of parts of blocks.
\<close>

end
